(* ===== verification/Rust_Prelude.thy ===== *)
theory Rust_Prelude
  imports Main "HOL-Library.Code_Target_Nat"
begin

text \<open>
  The part of the Rust language and standard library that the modelled crates use, as
  executable HOL functions, together with the generic lemmas the component theories share.

  A Rust \<open>str\<close> and a \<open>[u8]\<close> are both byte sequences, and a HOL \<^typ>\<open>char\<close> is exactly one
  byte, so both are \<^typ>\<open>string\<close>; that a \<open>str\<close> is valid UTF-8 is the predicate
  \<open>utf8_valid\<close>. Unsigned machine integers are \<^typ>\<open>nat\<close> with their bound written out;
  arithmetic that may overflow wraps, as the release profile of the workspace compiles it.
  A panic is a value: a fallible routine returns \<open>panic + 'a\<close>.
\<close>

named_theorems ascii_simps \<open>evaluation of the ASCII classification and case functions\<close>

abbreviation ord :: "char \<Rightarrow> nat" where
  "ord c \<equiv> of_char c"

datatype panic =
    SliceIndex \<comment> \<open>a slice whose bounds are out of range or reversed\<close>
  | CharBoundary \<comment> \<open>a \<open>str\<close> slice that cuts a UTF-8 sequence\<close>
  | CapacityOverflow \<comment> \<open>\<open>Vec::with_capacity\<close> beyond \<open>isize::MAX\<close> bytes\<close>
  | ExpectFailed \<comment> \<open>\<open>expect\<close> or \<open>unwrap\<close> on an error or on nothing\<close>

type_synonym 'a run = "panic + 'a"

text \<open>Sequencing of routines that may panic or fail: the first error ends the computation.\<close>

definition bind_run :: "'e + 'a \<Rightarrow> ('a \<Rightarrow> 'e + 'b) \<Rightarrow> 'e + 'b" where
  "bind_run r f = (case r of Inl p \<Rightarrow> Inl p | Inr x \<Rightarrow> f x)"

lemma bind_run_simps [simp]: "bind_run (Inl p) f = Inl p" "bind_run (Inr x) f = f x"
  by (simp_all add: bind_run_def)

lemma bind_run_Inr: "bind_run r f = Inr y \<longleftrightarrow> (\<exists>x. r = Inr x \<and> f x = Inr y)"
  by (cases r) auto

lemma bind_run_Inl: "bind_run r f = Inl e \<longleftrightarrow> r = Inl e \<or> (\<exists>x. r = Inr x \<and> f x = Inl e)"
  by (cases r) auto

fun fold_run :: "('s \<Rightarrow> 'a \<Rightarrow> 'e + 's) \<Rightarrow> 's \<Rightarrow> 'a list \<Rightarrow> 'e + 's" where
  "fold_run f s [] = Inr s"
| "fold_run f s (x # xs) = bind_run (f s x) (\<lambda>s'. fold_run f s' xs)"

definition u64_max :: nat where
  "u64_max = 2 ^ 64 - 1"

definition u32_max :: nat where
  "u32_max = 2 ^ 32 - 1"

definition saturating_add64 :: "nat \<Rightarrow> nat \<Rightarrow> nat" where
  "saturating_add64 a b = min (a + b) u64_max"

definition wrapping_add64 :: "nat \<Rightarrow> nat \<Rightarrow> nat" where
  "wrapping_add64 a b = (a + b) mod 2 ^ 64"

definition wrapping_sub64 :: "nat \<Rightarrow> nat \<Rightarrow> nat" where
  "wrapping_sub64 a b = (a + 2 ^ 64 - b) mod 2 ^ 64"

text \<open>\<open>IpAddr\<close> by its octets, and \<open>SocketAddr\<close>.\<close>

datatype ip_addr = IpV4 nat nat nat nat | IpV6 "nat list"

type_synonym socket_addr = "ip_addr \<times> nat"

text \<open>\<open>Iterator::position\<close>.\<close>

fun position :: "('a \<Rightarrow> bool) \<Rightarrow> 'a list \<Rightarrow> nat option" where
  "position P [] = None"
| "position P (x # xs) = (if P x then Some 0 else map_option Suc (position P xs))"

lemma position_Some: "position P xs = Some i \<Longrightarrow> i < length xs \<and> P (xs ! i) \<and> (\<forall>j<i. \<not> P (xs ! j))"
proof (induction xs arbitrary: i)
  case (Cons x xs)
  then show ?case by (cases i) (auto split: if_splits simp: less_Suc_eq_0_disj)
qed simp

lemma position_None: "position P xs = None \<longleftrightarrow> (\<forall>x\<in>set xs. \<not> P x)"
  by (induction xs) auto

lemma position_append: "position P xs = Some i \<Longrightarrow> position P (xs @ ys) = Some i"
  by (induction xs arbitrary: i) (auto split: if_splits)

lemma position_append_None:
  "position P xs = None \<Longrightarrow> position P (xs @ ys) = map_option (\<lambda>i. length xs + i) (position P ys)"
  by (induction xs) (auto simp: map_option_case split: if_splits option.splits)

lemma position_take: "position P xs = Some i \<Longrightarrow> i < n \<Longrightarrow> position P (take n xs) = Some i"
proof (induction xs arbitrary: i n)
  case (Cons x xs)
  then show ?case by (cases n) (auto split: if_splits)
qed simp

lemma ord_less [simp]: "ord c < 256"
  by (metis mod_less_divisor of_char_mod_256 zero_less_numeral)

lemma ord_eq_iff: "ord a = ord b \<longleftrightarrow> a = b"
  by simp

section \<open>Splitting, joining and trimming\<close>

text \<open>\<open>str::split(c)\<close> for an ASCII \<open>c\<close>: always at least one piece.\<close>

fun split_on :: "char \<Rightarrow> string \<Rightarrow> string list" where
  "split_on c [] = [[]]"
| "split_on c (x # xs) =
     (if x = c then [] # split_on c xs
      else (case split_on c xs of [] \<Rightarrow> [[x]] | p # ps \<Rightarrow> (x # p) # ps))"

fun join :: "string \<Rightarrow> string list \<Rightarrow> string" where
  "join sep [] = []"
| "join sep [p] = p"
| "join sep (p # q # ps) = p @ sep @ join sep (q # ps)"

text \<open>\<open>str::split_once(c)\<close>: the text before and after the first \<open>c\<close>.\<close>

fun split_once :: "char \<Rightarrow> string \<Rightarrow> (string \<times> string) option" where
  "split_once c [] = None"
| "split_once c (x # xs) =
     (if x = c then Some ([], xs)
      else map_option (\<lambda>(a, b). (x # a, b)) (split_once c xs))"

text \<open>\<open>str::splitn(n, c)\<close>: at most \<open>n\<close> pieces, the last one unsplit.\<close>

fun splitn :: "nat \<Rightarrow> char \<Rightarrow> string \<Rightarrow> string list" where
  "splitn 0 c s = []"
| "splitn (Suc 0) c s = [s]"
| "splitn (Suc (Suc n)) c s =
     (case split_once c s of None \<Rightarrow> [s] | Some (a, b) \<Rightarrow> a # splitn (Suc n) c b)"

text \<open>\<open>Iterator::find_map\<close>.\<close>

fun find_map :: "('a \<Rightarrow> 'b option) \<Rightarrow> 'a list \<Rightarrow> 'b option" where
  "find_map f [] = None"
| "find_map f (x # xs) = (case f x of None \<Rightarrow> find_map f xs | Some y \<Rightarrow> Some y)"

lemma find_map_None: "find_map f xs = None \<longleftrightarrow> (\<forall>x\<in>set xs. f x = None)"
  by (induction xs) (auto split: option.splits)

lemma find_map_append: "find_map f (xs @ ys) = (case find_map f xs of Some y \<Rightarrow> Some y | None \<Rightarrow> find_map f ys)"
  by (induction xs) (auto split: option.splits)

definition strip_prefix :: "string \<Rightarrow> string \<Rightarrow> string option" where
  "strip_prefix p s = (if take (length p) s = p then Some (drop (length p) s) else None)"

definition strip_suffix :: "string \<Rightarrow> string \<Rightarrow> string option" where
  "strip_suffix p s = map_option rev (strip_prefix (rev p) (rev s))"

text \<open>
  \<open>str::lines\<close>: pieces end at each line feed, which is dropped together with one carriage
  return before it; a final piece without a line feed keeps its carriage return, and there is
  no empty final piece.
\<close>

definition strip_cr :: "string \<Rightarrow> string" where
  "strip_cr l = (case strip_suffix [CHR 0x0D] l of None \<Rightarrow> l | Some l' \<Rightarrow> l')"

fun lines_from :: "string \<Rightarrow> string \<Rightarrow> string list" where
  "lines_from acc [] = (if acc = [] then [] else [acc])"
| "lines_from acc (x # xs) =
     (if x = CHR 0x0A then strip_cr acc # lines_from [] xs else lines_from (acc @ [x]) xs)"

definition lines_of :: "string \<Rightarrow> string list" where
  "lines_of s = lines_from [] s"

text \<open>
  \<open>str::trim\<close> removes characters with the Unicode property White\_Space at both ends. On
  valid UTF-8 that is the removal of their encodings: the ASCII ones, U+0085, U+00A0, U+1680,
  U+2000 to U+200A, U+2028, U+2029, U+202F, U+205F and U+3000.
\<close>

definition ws_encodings :: "string list" where
  "ws_encodings =
     [[CHR 0x09], [CHR 0x0A], [CHR 0x0B], [CHR 0x0C], [CHR 0x0D], [CHR 0x20],
      [CHR 0xC2, CHR 0x85], [CHR 0xC2, CHR 0xA0], [CHR 0xE1, CHR 0x9A, CHR 0x80],
      [CHR 0xE2, CHR 0x80, CHR 0x80], [CHR 0xE2, CHR 0x80, CHR 0x81],
      [CHR 0xE2, CHR 0x80, CHR 0x82], [CHR 0xE2, CHR 0x80, CHR 0x83],
      [CHR 0xE2, CHR 0x80, CHR 0x84], [CHR 0xE2, CHR 0x80, CHR 0x85],
      [CHR 0xE2, CHR 0x80, CHR 0x86], [CHR 0xE2, CHR 0x80, CHR 0x87],
      [CHR 0xE2, CHR 0x80, CHR 0x88], [CHR 0xE2, CHR 0x80, CHR 0x89],
      [CHR 0xE2, CHR 0x80, CHR 0x8A], [CHR 0xE2, CHR 0x80, CHR 0xA8],
      [CHR 0xE2, CHR 0x80, CHR 0xA9], [CHR 0xE2, CHR 0x80, CHR 0xAF],
      [CHR 0xE2, CHR 0x81, CHR 0x9F], [CHR 0xE3, CHR 0x80, CHR 0x80]]"

fun match_head :: "string list \<Rightarrow> string \<Rightarrow> nat" where
  "match_head [] s = 0"
| "match_head (e # es) s = (if take (length e) s = e then length e else match_head es s)"

function strip_heads :: "string list \<Rightarrow> string \<Rightarrow> string" where
  "strip_heads encs s =
     (if s \<noteq> [] \<and> 0 < match_head encs s then strip_heads encs (drop (match_head encs s) s) else s)"
  by pat_completeness auto
termination
  by (relation "measure (\<lambda>(encs, s). length s)") auto

declare strip_heads.simps [simp del]

definition trim_start :: "string \<Rightarrow> string" where
  "trim_start s = strip_heads ws_encodings s"

definition trim_end :: "string \<Rightarrow> string" where
  "trim_end s = rev (strip_heads (map rev ws_encodings) (rev s))"

definition trim :: "string \<Rightarrow> string" where
  "trim s = trim_end (trim_start s)"

lemma split_on_ne [simp]: "split_on c s \<noteq> []"
  by (induction s) (auto split: list.splits)

lemma split_on_no_sep: "p \<in> set (split_on c s) \<Longrightarrow> c \<notin> set p"
  by (induction s arbitrary: p) (force split: if_splits list.splits)+

lemma split_on_absent: "c \<notin> set s \<Longrightarrow> split_on c s = [s]"
  by (induction s) auto

lemma split_on_append: "c \<notin> set a \<Longrightarrow> split_on c (a @ c # b) = a # split_on c b"
  by (induction a) auto

lemma join_split_on: "join [c] (split_on c s) = s"
proof (induction s)
  case Nil
  show ?case by simp
next
  case (Cons x xs)
  obtain p ps where "split_on c xs = p # ps"
    by (cases "split_on c xs") auto
  with Cons show ?case by (cases ps) auto
qed

lemma split_on_join:
  "ps \<noteq> [] \<Longrightarrow> (\<And>p. p \<in> set ps \<Longrightarrow> c \<notin> set p) \<Longrightarrow> split_on c (join [c] ps) = ps"
proof (induction "[c]" ps rule: join.induct)
  case (2 p)
  then show ?case by (simp add: split_on_absent)
next
  case (3 p q ps)
  then have "split_on c (join [c] (q # ps)) = q # ps" by simp
  with 3 show ?case by (simp add: split_on_append)
qed simp

lemma split_once_append [simp]: "c \<notin> set a \<Longrightarrow> split_once c (a @ c # b) = Some (a, b)"
  by (induction a) auto

lemma split_once_SomeD: "split_once c s = Some (a, b) \<Longrightarrow> s = a @ c # b \<and> c \<notin> set a"
proof (induction s arbitrary: a)
  case (Cons x xs)
  show ?case
  proof (cases "x = c")
    case True
    with Cons.prems show ?thesis by simp
  next
    case False
    with Cons.prems obtain a' where "split_once c xs = Some (a', b)" "a = x # a'"
      by auto
    with Cons.IH False show ?thesis by auto
  qed
qed simp

lemma split_once_Some: "split_once c s = Some (a, b) \<longleftrightarrow> s = a @ c # b \<and> c \<notin> set a"
  by (auto dest: split_once_SomeD)

lemma split_once_None: "split_once c s = None \<longleftrightarrow> c \<notin> set s"
  by (induction s) auto

lemma split_once_absent [simp]: "c \<notin> set s \<Longrightarrow> split_once c s = None"
  by (simp add: split_once_None)

lemma strip_prefix_Some: "strip_prefix p s = Some t \<longleftrightarrow> s = p @ t"
  by (auto simp: strip_prefix_def) (metis append_take_drop_id)

lemma strip_suffix_Some: "strip_suffix p s = Some t \<longleftrightarrow> s = t @ p"
proof -
  have "strip_suffix p s = Some t \<longleftrightarrow> strip_prefix (rev p) (rev s) = Some (rev t)"
    by (auto simp: strip_suffix_def)
  also have "\<dots> \<longleftrightarrow> s = t @ p"
    by (metis strip_prefix_Some rev_append rev_rev_ident)
  finally show ?thesis .
qed

section \<open>Trimming\<close>

definition trimmed :: "string \<Rightarrow> bool" where
  "trimmed s \<longleftrightarrow> match_head ws_encodings s = 0 \<and> match_head (map rev ws_encodings) (rev s) = 0"

definition graphic :: "char \<Rightarrow> bool" where
  "graphic c \<longleftrightarrow> 33 \<le> ord c \<and> ord c \<le> 126"

lemma trim_trimmed: "trimmed s \<Longrightarrow> trim s = s"
  by (simp add: trimmed_def trim_def trim_start_def trim_end_def strip_heads.simps)

lemma match_head_none:
  "list_all (\<lambda>e. e \<noteq> [] \<and> \<not> P (hd e)) encs \<Longrightarrow> P c \<Longrightarrow> match_head encs (c # s) = 0"
  by (induction encs) (auto simp: take_Cons split: nat.splits)

lemma ws_not_graphic:
  "list_all (\<lambda>e. e \<noteq> [] \<and> \<not> graphic (hd e)) ws_encodings"
  "list_all (\<lambda>e. e \<noteq> [] \<and> \<not> graphic (hd e)) (map rev ws_encodings)"
  by code_simp+

lemmas match_head_graphic = match_head_none [OF ws_not_graphic(1)]
lemmas match_head_graphic_rev = match_head_none [OF ws_not_graphic(2)]

lemma match_head_Nil [simp]: "match_head ws_encodings [] = 0" "match_head (map rev ws_encodings) [] = 0"
  by (simp_all add: ws_encodings_def)

lemma trimmed_Nil [simp]: "trimmed []"
  by (simp add: trimmed_def)

lemma trimmed_graphic:
  assumes "s \<noteq> []" "graphic (hd s)" "graphic (last s)"
  shows "trimmed s"
proof -
  have "match_head ws_encodings s = 0"
    using assms match_head_graphic [of "hd s" "tl s"] by simp
  moreover obtain t where "s = t @ [last s]"
    using assms(1) by (metis append_butlast_last_id)
  then have "match_head (map rev ws_encodings) (rev s) = 0"
    using match_head_graphic_rev [OF assms(3), of "rev t"] by (metis rev.simps(2) rev_eq_Cons_iff rev_swap)
  ultimately show ?thesis by (simp add: trimmed_def)
qed

lemma trim_space: "trim (CHR '' '' # s) = trim s"
proof -
  have "match_head ws_encodings (CHR '' '' # s) = 1"
    by (simp add: ws_encodings_def)
  then have "strip_heads ws_encodings (CHR '' '' # s) = strip_heads ws_encodings s"
    by (subst strip_heads.simps) simp
  then show ?thesis by (simp add: trim_def trim_start_def)
qed

lemma length_strip_heads: "length (strip_heads encs s) \<le> length s"
proof (induction encs s rule: strip_heads.induct)
  case (1 encs s)
  then show ?case by (subst strip_heads.simps) (auto intro: le_trans)
qed

lemma length_trim: "length (trim s) \<le> length s"
  unfolding trim_def trim_start_def trim_end_def
  by (metis length_rev length_strip_heads le_trans)

lemma strip_cr_snoc [simp]: "strip_cr (l @ [CHR 0x0D]) = l"
proof -
  have "strip_suffix [CHR 0x0D] (l @ [CHR 0x0D]) = Some l"
    by (simp only: strip_suffix_Some)
  then show ?thesis by (simp add: strip_cr_def)
qed

lemma strip_cr_cases: "strip_cr l = l \<or> l = strip_cr l @ [CHR 0x0D]"
proof (cases "strip_suffix [CHR 0x0D] l")
  case (Some t)
  then have "l = t @ [CHR 0x0D]" by (simp only: strip_suffix_Some)
  then show ?thesis by simp
qed (simp add: strip_cr_def)

lemma length_strip_cr: "length (strip_cr l) \<le> length l"
  using strip_cr_cases [of l] by (metis length_append le_add1 order_refl)

lemma lines_from_length: "sum_list (map length (lines_from acc s)) \<le> length acc + length s"
proof (induction acc s rule: lines_from.induct)
  case (2 acc x xs)
  then show ?case using length_strip_cr [of acc] by auto
qed simp

lemma lines_from_line: "CHR 0x0A \<notin> set l \<Longrightarrow> lines_from acc (l @ CHR 0x0A # s) = strip_cr (acc @ l) # lines_from [] s"
  by (induction l arbitrary: acc) auto

lemma split_on_length: "sum_list (map length (split_on c s)) \<le> length s"
proof (induction s)
  case (Cons x xs)
  then show ?case by (cases "split_on c xs") auto
qed simp

lemma match_head_cases:
  "0 < match_head encs s \<Longrightarrow> \<exists>e\<in>set encs. match_head encs s = length e \<and> s = e @ drop (length e) s"
  by (induction encs) (auto split: if_splits, metis append_take_drop_id)

lemma strip_heads_invariant:
  assumes step: "\<And>e t. e \<in> set encs \<Longrightarrow> P (e @ t) \<Longrightarrow> P t"
  shows "P s \<Longrightarrow> P (strip_heads encs s)"
proof (induction s rule: length_induct)
  case (1 s)
  show ?case
  proof (cases "s \<noteq> [] \<and> 0 < match_head encs s")
    case True
    then obtain e where e: "e \<in> set encs" "match_head encs s = length e" "s = e @ drop (length e) s"
      using match_head_cases by blast
    with "1.prems" step have "P (drop (length e) s)" by metis
    moreover have "length (drop (length e) s) < length s" using True e(2) by simp
    ultimately have "P (strip_heads encs (drop (length e) s))" using "1.IH" by blast
    with True e(2) show ?thesis by (simp add: strip_heads.simps [of encs s])
  next
    case False
    with "1.prems" show ?thesis by (subst strip_heads.simps) auto
  qed
qed

text \<open>A fold whose steps each grow the state by at most the weight of their item.\<close>

lemma fold_run_total:
  assumes "\<And>s x. sz s + w x \<le> M \<Longrightarrow> \<exists>s'. f s x = Inr s' \<and> sz s' \<le> sz s + w x"
  shows "sz s + sum_list (map w xs) \<le> (M::nat) \<Longrightarrow>
    \<exists>s'. fold_run f s xs = Inr s' \<and> sz s' \<le> sz s + sum_list (map w xs)"
proof (induction xs arbitrary: s)
  case (Cons x xs)
  then obtain s' where s': "f s x = Inr s'" "sz s' \<le> sz s + w x"
    using assms [of s x] by auto
  with Cons.prems have "sz s' + sum_list (map w xs) \<le> M" by simp
  from Cons.IH [OF this] s' show ?case by auto
qed simp

lemma fold_run_invariant:
  assumes "\<And>s x s'. x \<in> set xs \<Longrightarrow> P s \<Longrightarrow> f s x = Inr s' \<Longrightarrow> P s'"
  shows "P s \<Longrightarrow> fold_run f s xs = Inr s' \<Longrightarrow> P s'"
  using assms
proof (induction xs arbitrary: s)
  case (Cons x xs)
  from Cons.prems(2) obtain t where "f s x = Inr t" "fold_run f t xs = Inr s'"
    by (auto simp: bind_run_Inr)
  with Cons.prems(1,3) Cons.IH [of t] show ?case by auto
qed simp

lemma trim_trailing_space:
  assumes "t \<noteq> []" "graphic (hd t)" "graphic (last t)"
  shows "trim (t @ '' '') = t"
proof -
  obtain u where u: "t = u @ [last t]" using assms(1) by (metis append_butlast_last_id)
  then have rt: "rev t = last t # rev u" by (metis rev.simps(2) rev_rev_ident rev_swap)
  have "strip_heads ws_encodings (t @ '' '') = t @ '' ''"
    using assms match_head_graphic [of "hd t" "tl t @ '' ''"]
    by (subst strip_heads.simps) (metis append_Cons less_not_refl list.collapse)
  moreover have "strip_heads (map rev ws_encodings) (CHR '' '' # rev t) = strip_heads (map rev ws_encodings) (rev t)"
    by (subst strip_heads.simps) (simp add: ws_encodings_def)
  moreover have "strip_heads (map rev ws_encodings) (last t # rev u) = last t # rev u"
    using match_head_graphic_rev [OF assms(3), of "rev u"] by (subst strip_heads.simps) simp
  then have "strip_heads (map rev ws_encodings) (rev t) = rev t" by (simp only: rt)
  ultimately show ?thesis by (simp add: trim_def trim_start_def trim_end_def)
qed

section \<open>Bits\<close>

unbundle bit_operations_syntax

lemma push_or_add:
  assumes "b < 2 ^ n"
  shows "push_bit n a OR b = a * 2 ^ n + (b :: nat)"
proof -
  have "\<not> bit (push_bit n a) k \<or> \<not> bit b k" for k
  proof (cases "k < n")
    case True
    then show ?thesis by (simp add: bit_push_bit_iff)
  next
    case False
    then have "b < 2 ^ k" using assms by (meson less_le_trans not_less one_le_numeral power_increasing)
    then show ?thesis by (simp add: bit_iff_odd)
  qed
  then have "push_bit n a AND b = 0" by (intro bit_eqI) (auto simp: bit_and_iff)
  then have "push_bit n a + b = push_bit n a OR b" by (rule disjunctive_add_eq_or)
  then show ?thesis by (simp add: push_bit_eq_mult)
qed

end
