(* ===== verification/Rust_Text.thy ===== *)
theory Rust_Text
  imports Rust_Prelude
begin

text \<open>
  ASCII case mapping, decimal and hexadecimal integers, and UTF-8 as \<open>core::str\<close> and
  \<open>alloc::string\<close> define them: \<open>from_utf8\<close> (\<open>utf8_valid\<close>), \<open>from_utf8_lossy\<close>, the
  character-boundary test that every \<open>str\<close> slice performs, and integer parsing with its
  optional sign. The lemmas relate printing to parsing and lossy decoding to validity.
\<close>

section \<open>ASCII\<close>

definition to_ascii_lowercase :: "char \<Rightarrow> char" where
  "to_ascii_lowercase c = (if 65 \<le> ord c \<and> ord c \<le> 90 then char_of (ord c + 32) else c)"

definition to_ascii_uppercase :: "char \<Rightarrow> char" where
  "to_ascii_uppercase c = (if 97 \<le> ord c \<and> ord c \<le> 122 then char_of (ord c - 32) else c)"

definition eq_ignore_ascii_case :: "string \<Rightarrow> string \<Rightarrow> bool" where
  "eq_ignore_ascii_case a b \<longleftrightarrow> map to_ascii_lowercase a = map to_ascii_lowercase b"

definition is_ascii :: "string \<Rightarrow> bool" where
  "is_ascii s \<longleftrightarrow> list_all (\<lambda>c. ord c < 128) s"

text \<open>
  \<open>str::to_uppercase\<close> consults the Unicode case tables; on ASCII text it is the ASCII mapping.
  The tables are the parameter \<open>uni\<close>.
\<close>

definition to_uppercase :: "(string \<Rightarrow> string) \<Rightarrow> string \<Rightarrow> string" where
  "to_uppercase uni s = (if is_ascii s then map to_ascii_uppercase s else uni s)"

lemma lowercase_idem [simp]: "to_ascii_lowercase (to_ascii_lowercase c) = to_ascii_lowercase c"
  by (simp add: to_ascii_lowercase_def)

lemma lowercase_uppercase [simp]: "to_ascii_lowercase (to_ascii_uppercase c) = to_ascii_lowercase c"
proof -
  have "(ord c - 32) mod 256 = ord c - 32"
    using ord_less [of c] by (intro mod_less) linarith
  then show ?thesis
    by (auto simp: to_ascii_lowercase_def to_ascii_uppercase_def)
qed

lemma lowercase_idem_map [simp]:
  "map to_ascii_lowercase (map to_ascii_lowercase s) = map to_ascii_lowercase s"
  by simp

lemma eq_ignore_ascii_case_refl [simp]: "eq_ignore_ascii_case s s"
  by (simp add: eq_ignore_ascii_case_def)

lemma eq_ignore_ascii_case_lower [simp]:
  "eq_ignore_ascii_case (map to_ascii_lowercase a) b = eq_ignore_ascii_case a b"
  "eq_ignore_ascii_case a (map to_ascii_lowercase b) = eq_ignore_ascii_case a b"
  by (simp_all add: eq_ignore_ascii_case_def comp_def)

lemma eq_ignore_ascii_case_upper [simp]:
  "eq_ignore_ascii_case (map to_ascii_uppercase a) b = eq_ignore_ascii_case a b"
  by (simp add: eq_ignore_ascii_case_def comp_def)

lemma eq_ignore_ascii_case_sym: "eq_ignore_ascii_case a b \<longleftrightarrow> eq_ignore_ascii_case b a"
  by (auto simp: eq_ignore_ascii_case_def)

section \<open>Integers as text\<close>

text \<open>\<open>char::to_digit\<close>, for radix 10 and radix 16.\<close>

definition dec_digit :: "char \<Rightarrow> nat option" where
  "dec_digit c = (if 48 \<le> ord c \<and> ord c \<le> 57 then Some (ord c - 48) else None)"

definition hex_digit :: "char \<Rightarrow> nat option" where
  "hex_digit c =
     (if 48 \<le> ord c \<and> ord c \<le> 57 then Some (ord c - 48)
      else if 65 \<le> ord c \<and> ord c \<le> 70 then Some (ord c - 55)
      else if 97 \<le> ord c \<and> ord c \<le> 102 then Some (ord c - 87)
      else None)"

text \<open>
  The digit loop of \<open>from_str_radix\<close>: the accumulator is checked against the type's maximum
  at every step. A single sign character is not a number; \<open>+\<close> is accepted before digits.
\<close>

fun parse_digits :: "(char \<Rightarrow> nat option) \<Rightarrow> nat \<Rightarrow> nat \<Rightarrow> nat \<Rightarrow> string \<Rightarrow> nat option" where
  "parse_digits dig radix mx acc [] = Some acc"
| "parse_digits dig radix mx acc (c # cs) =
     (case dig c of
        None \<Rightarrow> None
      | Some d \<Rightarrow>
          if radix * acc + d \<le> mx then parse_digits dig radix mx (radix * acc + d) cs else None)"

definition parse_unsigned ::
  "(char \<Rightarrow> nat option) \<Rightarrow> nat \<Rightarrow> nat \<Rightarrow> string \<Rightarrow> nat option" where
  "parse_unsigned dig radix mx s =
     (case s of
        [] \<Rightarrow> None
      | c # cs \<Rightarrow>
          if c = CHR ''+'' then (if cs = [] then None else parse_digits dig radix mx 0 cs)
          else parse_digits dig radix mx 0 s)"

definition parse_u64 :: "string \<Rightarrow> nat option" where
  "parse_u64 s = parse_unsigned dec_digit 10 u64_max s"

definition parse_u32 :: "string \<Rightarrow> nat option" where
  "parse_u32 s = parse_unsigned dec_digit 10 u32_max s"

definition parse_hex_u8 :: "string \<Rightarrow> nat option" where
  "parse_hex_u8 s = parse_unsigned hex_digit 16 255 s"

definition parse_i64 :: "string \<Rightarrow> int option" where
  "parse_i64 s =
     (case s of
        [] \<Rightarrow> None
      | c # cs \<Rightarrow>
          if c = CHR ''-'' then
            (if cs = [] then None else map_option (\<lambda>n. - int n) (parse_digits dec_digit 10 (2 ^ 63) 0 cs))
          else map_option int (parse_unsigned dec_digit 10 (2 ^ 63 - 1) s))"

text \<open>Decimal printing of an unsigned integer, and the two upper-case digits of \<open>{:02X}\<close>.\<close>

definition dec_char :: "nat \<Rightarrow> char" where
  "dec_char d = char_of (48 + d)"

fun show_nat :: "nat \<Rightarrow> string" where
  "show_nat n = (if n < 10 then [dec_char n] else show_nat (n div 10) @ [dec_char (n mod 10)])"

declare show_nat.simps [simp del]

definition hex_char :: "nat \<Rightarrow> char" where
  "hex_char d = (if d < 10 then char_of (48 + d) else char_of (55 + d))"

definition show_int :: "int \<Rightarrow> string" where
  "show_int i = (if i < 0 then CHR ''-'' # show_nat (nat (- i)) else show_nat (nat i))"

definition show_hex2 :: "nat \<Rightarrow> string" where
  "show_hex2 n = [hex_char (n div 16), hex_char (n mod 16)]"

lemma dec_digit_char [simp]: "d < 10 \<Longrightarrow> dec_digit (dec_char d) = Some d"
  by (simp add: dec_digit_def dec_char_def)

lemma dec_char_neq_sign [simp]: "d < 10 \<Longrightarrow> dec_char d \<noteq> CHR ''+''" "d < 10 \<Longrightarrow> dec_char d \<noteq> CHR ''-''"
  by (auto simp: dec_char_def dest: arg_cong [where f = ord])

lemma hex_digit_char [simp]: "d < 16 \<Longrightarrow> hex_digit (hex_char d) = Some d"
  by (auto simp: hex_digit_def hex_char_def)

lemma hex_char_neq_plus [simp]: "d < 16 \<Longrightarrow> hex_char d \<noteq> CHR ''+''"
  by (auto simp: hex_char_def dest: arg_cong [where f = ord])

lemma show_nat_ne [simp]: "show_nat n \<noteq> []"
  by (subst show_nat.simps) simp

lemma show_nat_digits: "c \<in> set (show_nat n) \<Longrightarrow> 48 \<le> ord c \<and> ord c \<le> 57"
proof (induction n rule: show_nat.induct)
  case (1 n)
  show ?case
  proof (cases "n < 10")
    case True
    with "1.prems" show ?thesis by (simp add: show_nat.simps [of n] dec_char_def)
  next
    case False
    with 1 show ?thesis
      by (auto simp: show_nat.simps [of n] dec_char_def)
  qed
qed

lemma show_nat_absent: "ord c < 48 \<or> 57 < ord c \<Longrightarrow> c \<notin> set (show_nat n)"
  using show_nat_digits by fastforce

lemma parse_digits_append:
  "parse_digits dig radix mx acc (s @ t) =
     Option.bind (parse_digits dig radix mx acc s) (\<lambda>a. parse_digits dig radix mx a t)"
  by (induction s arbitrary: acc) (auto split: option.splits)

lemma parse_digits_show: "n \<le> mx \<Longrightarrow> parse_digits dec_digit 10 mx 0 (show_nat n) = Some n"
proof (induction n rule: show_nat.induct)
  case (1 n)
  show ?case
  proof (cases "n < 10")
    case True
    with "1.prems" show ?thesis by (simp add: show_nat.simps [of n])
  next
    case False
    with 1 have "parse_digits dec_digit 10 mx 0 (show_nat (n div 10)) = Some (n div 10)"
      by simp
    with False "1.prems" show ?thesis
      by (simp add: show_nat.simps [of n] parse_digits_append)
  qed
qed

lemma show_nat_hd: "\<exists>c cs. show_nat n = c # cs \<and> c \<noteq> CHR ''+'' \<and> c \<noteq> CHR ''-''"
proof -
  obtain c cs where s: "show_nat n = c # cs"
    by (cases "show_nat n") auto
  then have "48 \<le> ord c" using show_nat_digits [of c n] by simp
  then have "c \<noteq> CHR ''+''" "c \<noteq> CHR ''-''" by auto
  with s show ?thesis by blast
qed

lemma parse_unsigned_show: "n \<le> mx \<Longrightarrow> parse_unsigned dec_digit 10 mx (show_nat n) = Some n"
  using show_nat_hd [of n] parse_digits_show [of n mx] by (auto simp: parse_unsigned_def)

lemma parse_u64_show [simp]: "n \<le> u64_max \<Longrightarrow> parse_u64 (show_nat n) = Some n"
  by (simp add: parse_u64_def parse_unsigned_show)

lemma parse_i64_show: "n < 2 ^ 63 \<Longrightarrow> parse_i64 (show_nat n) = Some (int n)"
  using show_nat_hd [of n] parse_unsigned_show [of n "2 ^ 63 - 1"]
  by (auto simp: parse_i64_def)

lemma parse_digits_bound: "acc \<le> mx \<Longrightarrow> parse_digits dig radix mx acc s = Some n \<Longrightarrow> n \<le> mx"
  by (induction s arbitrary: acc) (auto split: option.splits if_splits)

lemma parse_unsigned_bound: "parse_unsigned dig radix mx s = Some n \<Longrightarrow> n \<le> mx"
  by (auto simp: parse_unsigned_def simp del: parse_digits.simps
      split: list.splits if_splits dest: parse_digits_bound [where acc = 0, OF le0])

lemma parse_hex_u8_show2: "n < 256 \<Longrightarrow> parse_hex_u8 (show_hex2 n) = Some n"
  by (simp add: parse_hex_u8_def parse_unsigned_def show_hex2_def div_less_iff_less_mult
      less_mult_imp_div_less)

section \<open>UTF-8\<close>

text \<open>
  One step of the decoder in \<open>core::str\<close> at the front of a non-empty byte sequence: whether a
  whole character was read, and how many bytes were consumed. A read past the end yields the
  byte 0, which continues no sequence. The second byte is restricted so that overlong forms,
  surrogates and code points beyond U+10FFFF are rejected.
\<close>

definition byte_at :: "string \<Rightarrow> nat \<Rightarrow> nat" where
  "byte_at s i = (if i < length s then ord (s ! i) else 0)"

definition is_cont :: "nat \<Rightarrow> bool" where
  "is_cont b \<longleftrightarrow> 128 \<le> b \<and> b < 192"

definition second_ok :: "nat \<Rightarrow> nat \<Rightarrow> bool" where
  "second_ok b0 b1 \<longleftrightarrow> is_cont b1 \<and>
     (b0 = 0xE0 \<longrightarrow> 0xA0 \<le> b1) \<and> (b0 = 0xED \<longrightarrow> b1 < 0xA0) \<and>
     (b0 = 0xF0 \<longrightarrow> 0x90 \<le> b1) \<and> (b0 = 0xF4 \<longrightarrow> b1 < 0x90)"

definition utf8_width :: "nat \<Rightarrow> nat" where
  "utf8_width b0 =
     (if b0 < 0x80 then 1 else if 0xC2 \<le> b0 \<and> b0 < 0xE0 then 2
      else if 0xE0 \<le> b0 \<and> b0 < 0xF0 then 3 else if 0xF0 \<le> b0 \<and> b0 < 0xF5 then 4 else 0)"

definition utf8_step :: "string \<Rightarrow> bool \<times> nat" where
  "utf8_step s =
     (let b0 = byte_at s 0; w = utf8_width b0 in
      if w = 0 then (False, 1)
      else if w = 1 then (True, 1)
      else if \<not> second_ok b0 (byte_at s 1) then (False, 1)
      else if w = 2 then (True, 2)
      else if \<not> is_cont (byte_at s 2) then (False, 2)
      else if w = 3 then (True, 3)
      else if \<not> is_cont (byte_at s 3) then (False, 3)
      else (True, 4))"

lemma utf8_step_pos: "0 < snd (utf8_step s)"
  by (auto simp: utf8_step_def Let_def)

text \<open>\<open>std::str::from_utf8(b).is_ok()\<close> and \<open>String::from_utf8_lossy\<close>.\<close>

function utf8_valid :: "string \<Rightarrow> bool" where
  "utf8_valid s =
     (if s = [] then True
      else fst (utf8_step s) \<and> utf8_valid (drop (snd (utf8_step s)) s))"
  by pat_completeness auto
termination
  by (relation "measure length") (auto simp: utf8_step_pos)

definition replacement :: string where
  "replacement = [CHR 0xEF, CHR 0xBF, CHR 0xBD]"

function from_utf8_lossy :: "string \<Rightarrow> string" where
  "from_utf8_lossy s =
     (if s = [] then []
      else let (ok, n) = utf8_step s
           in (if ok then take n s else replacement) @ from_utf8_lossy (drop n s))"
  by pat_completeness auto
termination
  by (relation "measure length") (auto simp: utf8_step_pos dest: arg_cong [where f = snd] sym)

declare utf8_valid.simps [simp del] from_utf8_lossy.simps [simp del]

text \<open>\<open>str::is_char_boundary\<close>: the ends, and every byte that does not continue a sequence.\<close>

definition is_char_boundary :: "string \<Rightarrow> nat \<Rightarrow> bool" where
  "is_char_boundary s i \<longleftrightarrow>
     i = 0 \<or> i = length s \<or> (i < length s \<and> \<not> is_cont (ord (s ! i)))"

text \<open>The slice \<open>&s[a..b]\<close> of a \<open>str\<close>.\<close>

definition str_slice :: "string \<Rightarrow> nat \<Rightarrow> nat \<Rightarrow> string run" where
  "str_slice s a b =
     (if b < a \<or> length s < b then Inl SliceIndex
      else if is_char_boundary s a \<and> is_char_boundary s b then Inr (take (b - a) (drop a s))
      else Inl CharBoundary)"

lemma utf8_valid_Nil [simp]: "utf8_valid []"
  by (subst utf8_valid.simps) simp

lemma from_utf8_lossy_Nil [simp]: "from_utf8_lossy [] = []"
  by (subst from_utf8_lossy.simps) simp

lemma utf8_step_ascii: "ord c < 128 \<Longrightarrow> utf8_step (c # s) = (True, 1)"
  by (simp add: utf8_step_def byte_at_def utf8_width_def)

lemma utf8_valid_ascii: "ord c < 128 \<Longrightarrow> utf8_valid (c # s) = utf8_valid s"
  by (simp add: utf8_valid.simps [of "c # s"] utf8_step_ascii)

lemma from_utf8_lossy_ascii: "ord c < 128 \<Longrightarrow> from_utf8_lossy (c # s) = c # from_utf8_lossy s"
  by (simp add: from_utf8_lossy.simps [of "c # s"] utf8_step_ascii)

lemma is_ascii_utf8_valid: "is_ascii s \<Longrightarrow> utf8_valid s"
  by (induction s) (auto simp: is_ascii_def utf8_valid_ascii)

lemma from_utf8_lossy_valid: "utf8_valid s \<Longrightarrow> from_utf8_lossy s = s"
proof (induction s rule: utf8_valid.induct)
  case (1 s)
  show ?case
  proof (cases "s = []")
    case False
    with "1.prems" have "fst (utf8_step s)" and v: "utf8_valid (drop (snd (utf8_step s)) s)"
      by (simp_all add: utf8_valid.simps [of s])
    with "1.IH" False show ?thesis
      by (simp add: from_utf8_lossy.simps [of s] case_prod_beta Let_def)
  qed simp
qed

lemma utf8_step_valid_append:
  assumes "s \<noteq> []" and "utf8_step s = (True, n)"
  shows "n \<le> length s" and "utf8_step (s @ t) = (True, n)"
proof -
  have cont: "is_cont (byte_at s i) \<Longrightarrow> i < length s" for i
    by (auto simp: byte_at_def is_cont_def split: if_splits)
  have app: "i < length s \<Longrightarrow> byte_at (s @ t) i = byte_at s i" for i
    by (simp add: byte_at_def nth_append)
  have two: "second_ok b (byte_at s 1) \<Longrightarrow> 1 < length s" for b
    using cont [of 1] by (simp add: second_ok_def)
  have "1 \<le> length s"
    using assms(1) by (cases s) auto
  with assms(2) show "n \<le> length s"
    using cont [of 2] cont [of 3] two [of "byte_at s 0"]
    by (auto simp: utf8_step_def Let_def split: if_splits)
  from assms show "utf8_step (s @ t) = (True, n)"
    using cont [of 2] cont [of 3] two app [of 0] app [of 1] app [of 2] app [of 3]
    by (auto simp: utf8_step_def Let_def split: if_splits)
qed

lemma utf8_valid_append: "utf8_valid s \<Longrightarrow> utf8_valid (s @ t) = utf8_valid t"
proof (induction s rule: utf8_valid.induct)
  case (1 s)
  show ?case
  proof (cases "s = []")
    case False
    obtain n where st: "utf8_step s = (True, n)"
      using False "1.prems" by (cases "utf8_step s") (simp add: utf8_valid.simps [of s])
    with False "1.prems" have "utf8_valid (drop n s)"
      by (simp add: utf8_valid.simps [of s])
    with "1.IH" False st have "utf8_valid (drop n s @ t) = utf8_valid t" by simp
    with False st utf8_step_valid_append [OF False st] show ?thesis
      by (simp add: utf8_valid.simps [of "s @ t"])
  qed simp
qed

text \<open>Lowering the ASCII letters of a text keeps every UTF-8 step where it was.\<close>

lemma ord_lowercase: "ord (to_ascii_lowercase c) = (if 65 \<le> ord c \<and> ord c \<le> 90 then ord c + 32 else ord c)"
  by (simp add: to_ascii_lowercase_def)

lemma utf8_step_lowercase: "utf8_step (map to_ascii_lowercase s) = utf8_step s"
proof -
  have b: "byte_at (map to_ascii_lowercase s) i =
             (if 65 \<le> byte_at s i \<and> byte_at s i \<le> 90 then byte_at s i + 32 else byte_at s i)" for i
    by (simp add: byte_at_def ord_lowercase)
  have "is_cont (byte_at (map to_ascii_lowercase s) i) = is_cont (byte_at s i)" for i
    unfolding b by (auto simp: is_cont_def)
  moreover have "utf8_width (byte_at (map to_ascii_lowercase s) 0) = utf8_width (byte_at s 0)"
    unfolding b by (auto simp: utf8_width_def)
  moreover have "second_ok (byte_at (map to_ascii_lowercase s) 0) (byte_at (map to_ascii_lowercase s) 1)
      = second_ok (byte_at s 0) (byte_at s 1)"
    unfolding b by (auto simp: second_ok_def is_cont_def)
  ultimately show ?thesis by (simp add: utf8_step_def Let_def)
qed

lemma utf8_valid_lowercase: "utf8_valid (map to_ascii_lowercase s) = utf8_valid s"
proof (induction s rule: utf8_valid.induct)
  case (1 s)
  then show ?case
    by (subst (1 2) utf8_valid.simps) (simp add: utf8_step_lowercase drop_map)
qed

text \<open>A valid text may be cut wherever the rest does not begin with a continuation byte.\<close>

lemma utf8_step_cut:
  assumes "a \<noteq> []" and b: "b = [] \<or> \<not> is_cont (ord (hd b))" and st: "utf8_step (a @ b) = (True, n)"
  shows "n \<le> length a" and "utf8_step a = (True, n)"
proof -
  have at_end: "\<not> is_cont (byte_at (a @ b) (length a))"
    using b by (cases b) (auto simp: byte_at_def is_cont_def)
  have pos: "0 < length a" using assms(1) by simp
  have one: "is_cont (byte_at (a @ b) 1) \<Longrightarrow> 1 < length a"
    using at_end pos by (metis One_nat_def Suc_leI le_neq_implies_less)
  have two: "1 < length a \<Longrightarrow> is_cont (byte_at (a @ b) 2) \<Longrightarrow> 2 < length a"
    using at_end by (cases "length a = 2") auto
  have three: "2 < length a \<Longrightarrow> is_cont (byte_at (a @ b) 3) \<Longrightarrow> 3 < length a"
    using at_end by (cases "length a = 3") auto
  have app: "i < length a \<Longrightarrow> byte_at (a @ b) i = byte_at a i" for i
    by (simp add: byte_at_def nth_append)
  have sec: "second_ok x (byte_at (a @ b) 1) \<Longrightarrow> 1 < length a" for x
    using one by (simp add: second_ok_def)
  show le: "n \<le> length a"
    using st pos two three sec [of "byte_at (a @ b) 0"]
    by (auto simp: utf8_step_def Let_def simp del: length_greater_0_conv split: if_splits)
  show "utf8_step a = (True, n)"
    using st pos two three sec [of "byte_at (a @ b) 0"] app [of 0] app [of 1] app [of 2] app [of 3]
    by (auto simp: utf8_step_def Let_def split: if_splits)
qed

lemma utf8_valid_cut:
  assumes "b = [] \<or> \<not> is_cont (ord (hd b))"
  shows "utf8_valid (a @ b) \<longleftrightarrow> utf8_valid a \<and> utf8_valid b"
proof
  show "utf8_valid (a @ b) \<Longrightarrow> utf8_valid a \<and> utf8_valid b"
  proof (induction a rule: utf8_valid.induct)
    case (1 a)
    show ?case
    proof (cases "a = []")
      case False
      obtain n where st: "utf8_step (a @ b) = (True, n)"
        using False "1.prems" by (cases "utf8_step (a @ b)") (simp add: utf8_valid.simps [of "a @ b"])
      note cut = utf8_step_cut [OF False assms st]
      have "utf8_valid (drop n a @ b)"
        using False "1.prems" st cut(1) by (simp add: utf8_valid.simps [of "a @ b"])
      with "1.IH" False cut(2) have "utf8_valid (drop n a) \<and> utf8_valid b" by simp
      with False cut(2) show ?thesis by (simp add: utf8_valid.simps [of a])
    qed (use "1.prems" in simp)
  qed
qed (simp add: utf8_valid_append)

lemma utf8_valid_cut_ascii:
  "ord c < 128 \<Longrightarrow> utf8_valid (a @ c # b) \<longleftrightarrow> utf8_valid a \<and> utf8_valid b"
  using utf8_valid_cut [of "c # b" a] by (simp add: is_cont_def utf8_valid_ascii)

lemma utf8_valid_split_once:
  "split_once c s = Some (a, b) \<Longrightarrow> ord c < 128 \<Longrightarrow> utf8_valid s \<Longrightarrow> utf8_valid a \<and> utf8_valid b"
  by (auto dest!: split_once_SomeD simp: utf8_valid_cut_ascii)

lemma utf8_valid_split_on:
  "ord c < 128 \<Longrightarrow> utf8_valid s \<Longrightarrow> p \<in> set (split_on c s) \<Longrightarrow> utf8_valid p"
proof (induction s rule: length_induct)
  case (1 s)
  show ?case
  proof (cases "c \<in> set s")
    case True
    then obtain a b where s: "s = a @ c # b" "c \<notin> set a" by (meson split_list_first)
    with "1.prems" "1.IH" [rule_format, of b] show ?thesis
      by (auto simp: split_on_append utf8_valid_cut_ascii)
  next
    case False
    with 1 show ?thesis by (simp add: split_on_absent)
  qed
qed

lemma utf8_valid_strip_cr: "utf8_valid l \<Longrightarrow> utf8_valid (strip_cr l)"
  using strip_cr_cases [of l] utf8_valid_cut_ascii [of "CHR 0x0D" "strip_cr l" "[]"] by auto

lemma utf8_valid_lines: "utf8_valid s \<Longrightarrow> p \<in> set (lines_of s) \<Longrightarrow> utf8_valid p"
proof (induction s rule: length_induct)
  case (1 s)
  show ?case
  proof (cases "CHR 0x0A \<in> set s")
    case True
    then obtain a b where s: "s = a @ CHR 0x0A # b" "CHR 0x0A \<notin> set a" by (meson split_list_first)
    then have v: "utf8_valid a" "utf8_valid b"
      using "1.prems" by (simp_all add: utf8_valid_cut_ascii)
    have "p = strip_cr a \<or> p \<in> set (lines_of b)"
      using s "1.prems" by (simp add: lines_of_def lines_from_line)
    with v s "1.IH" [rule_format, of b] show ?thesis by (auto intro: utf8_valid_strip_cr)
  next
    case False
    then have "lines_from acc s = (if acc @ s = [] then [] else [acc @ s])" for acc
      by (induction s arbitrary: acc) auto
    with 1 show ?thesis by (auto simp: lines_of_def split: if_splits)
  qed
qed

lemma ws_encodings_valid:
  "list_all (\<lambda>e. utf8_valid e \<and> e \<noteq> [] \<and> \<not> is_cont (ord (hd e))) ws_encodings"
  by code_simp

lemma utf8_valid_trim: "utf8_valid s \<Longrightarrow> utf8_valid (trim s)"
proof -
  assume "utf8_valid s"
  have front: "utf8_valid (e @ t) \<Longrightarrow> utf8_valid t" if "e \<in> set ws_encodings" for e t
    using that ws_encodings_valid by (auto simp: list_all_iff utf8_valid_append)
  have at_end: "utf8_valid (t @ e) \<Longrightarrow> utf8_valid t" if "e \<in> set ws_encodings" for e t
    using that ws_encodings_valid utf8_valid_cut [of e t] by (auto simp: list_all_iff)
  have "utf8_valid (trim_start s)"
    unfolding trim_start_def
    by (rule strip_heads_invariant [where P = utf8_valid]) (use front \<open>utf8_valid s\<close> in auto)
  then have "utf8_valid (rev (rev (trim_start s)))" by simp
  then have "utf8_valid (rev (strip_heads (map rev ws_encodings) (rev (trim_start s))))"
    by (rule strip_heads_invariant [where P = "\<lambda>t. utf8_valid (rev t)", rotated])
      (use at_end in auto)
  then show ?thesis by (simp add: trim_def trim_end_def)
qed

end
