(* ===== verification/Url.thy ===== *)
theory Url
  imports Rust_Text
begin

text \<open>
  The percent and form codecs of \<open>kernway-core/src/url.rs\<close>: \<open>percent_encode\<close>,
  \<open>percent_decode\<close> with the \<open>str\<close> slice that can panic, and \<open>form_field\<close>. The lemmas give the
  exact round trip, where the decoder can panic, and the lookup law of a form body.
\<close>

section \<open>Percent codec\<close>

definition unreserved :: "char \<Rightarrow> bool" where
  "unreserved b \<longleftrightarrow>
     (65 \<le> ord b \<and> ord b \<le> 90) \<or> (97 \<le> ord b \<and> ord b \<le> 122) \<or> (48 \<le> ord b \<and> ord b \<le> 57) \<or>
     b = CHR ''-'' \<or> b = CHR ''_'' \<or> b = CHR ''.'' \<or> b = CHR ''~''"

definition encode_byte :: "char \<Rightarrow> string" where
  "encode_byte b = (if unreserved b then [b] else CHR ''%'' # show_hex2 (ord b))"

definition percent_encode :: "string \<Rightarrow> string" where
  "percent_encode s = concat (map encode_byte s)"

text \<open>
  The loop of \<open>percent_decode\<close> over the byte index \<open>i\<close>. An escape is tried when two more bytes
  follow the percent sign; its digits are read through a \<open>str\<close> slice and parsed by
  \<open>u8::from_str_radix\<close>.
\<close>

function decode_loop :: "string \<Rightarrow> nat \<Rightarrow> string \<Rightarrow> string run" where
  "decode_loop s i out =
     (if i < length s then
        if s ! i = CHR ''%'' \<and> i + 2 < length s then
          (case str_slice s (i + 1) (i + 3) of
             Inl p \<Rightarrow> Inl p
           | Inr h \<Rightarrow>
               (case parse_hex_u8 h of
                  Some n \<Rightarrow> decode_loop s (i + 3) (out @ [char_of n])
                | None \<Rightarrow> decode_loop s (i + 1) (out @ [CHR ''%''])))
        else if s ! i = CHR ''+'' then decode_loop s (i + 1) (out @ [CHR '' ''])
        else decode_loop s (i + 1) (out @ [s ! i])
      else Inr out)"
  by pat_completeness auto
termination
  by (relation "measure (\<lambda>(s, i, out). length s - i)") auto

declare decode_loop.simps [simp del]

definition percent_decode :: "string \<Rightarrow> string run" where
  "percent_decode s = map_sum id from_utf8_lossy (decode_loop s 0 [])"

definition form_pair :: "string \<Rightarrow> string \<Rightarrow> string run option" where
  "form_pair name pair =
     (case split_once (CHR ''='') pair of
        None \<Rightarrow> None
      | Some (k, v) \<Rightarrow> if k = name then Some (percent_decode v) else None)"

definition form_field :: "string \<Rightarrow> string \<Rightarrow> string run" where
  "form_field body name =
     (case find_map (form_pair name) (split_on (CHR ''&'') (from_utf8_lossy body)) of
        None \<Rightarrow> Inr []
      | Some r \<Rightarrow> r)"

section \<open>Lemmas\<close>

lemma unreserved_range: "unreserved b \<Longrightarrow> ord b < 128 \<and> b \<noteq> CHR ''%'' \<and> b \<noteq> CHR ''+''"
  by (auto simp: unreserved_def)

lemma hex_char_ascii: "d < 16 \<Longrightarrow> ord (hex_char d) < 128"
  by (simp add: hex_char_def)

lemma nibbles: "ord b div 16 < 16" "ord b mod 16 < 16"
  using ord_less [of b] by (auto intro: less_mult_imp_div_less)

lemma encode_byte_ascii: "c \<in> set (encode_byte b) \<Longrightarrow> ord c < 128"
  by (auto simp: encode_byte_def show_hex2_def nibbles hex_char_ascii
      dest: unreserved_range split: if_splits)

lemma percent_encode_ascii: "is_ascii (percent_encode s)"
  by (auto simp: is_ascii_def percent_encode_def list_all_iff dest: encode_byte_ascii)

lemma ascii_boundary: "is_ascii s \<Longrightarrow> i \<le> length s \<Longrightarrow> is_char_boundary s i"
  by (cases "i = length s")
    (auto simp: is_char_boundary_def is_ascii_def is_cont_def list_all_length dest!: spec [of _ i])

lemma ascii_slice:
  "is_ascii s \<Longrightarrow> a \<le> b \<Longrightarrow> b \<le> length s \<Longrightarrow> str_slice s a b = Inr (take (b - a) (drop a s))"
  by (simp add: str_slice_def ascii_boundary)

lemma decode_loop_ascii: "is_ascii s \<Longrightarrow> \<exists>t. decode_loop s i out = Inr t"
proof (induction s i out rule: decode_loop.induct)
  case (1 s i out)
  then show ?case
    by (subst decode_loop.simps) (auto simp: ascii_slice split: option.splits)
qed

lemma decode_loop_no_SliceIndex: "decode_loop s i out \<noteq> Inl SliceIndex"
proof (induction s i out rule: decode_loop.induct)
  case (1 s i out)
  have "i + 2 < length s \<Longrightarrow> str_slice s (i + 1) (i + 3) \<noteq> Inl SliceIndex"
    by (auto simp: str_slice_def)
  with 1 show ?case
    by (subst decode_loop.simps) (auto split: option.splits sum.splits)
qed

text \<open>One encoded byte is consumed by one turn of the loop.\<close>

lemma decode_loop_encode_byte:
  assumes "is_ascii (p @ encode_byte b @ r)"
  shows "decode_loop (p @ encode_byte b @ r) (length p) out =
           decode_loop (p @ encode_byte b @ r) (length p + length (encode_byte b)) (out @ [b])"
proof (cases "unreserved b")
  case True
  with unreserved_range [OF True] show ?thesis
    by (subst decode_loop.simps) (simp add: encode_byte_def)
next
  case False
  let ?s = "p @ encode_byte b @ r"
  have e: "encode_byte b = CHR ''%'' # show_hex2 (ord b)"
    using False by (simp add: encode_byte_def)
  have "str_slice ?s (length p + 1) (length p + 3) = Inr (show_hex2 (ord b))"
    using assms by (simp add: ascii_slice e show_hex2_def)
  moreover have "parse_hex_u8 (show_hex2 (ord b)) = Some (ord b)"
    by (simp add: parse_hex_u8_show2)
  moreover have "length (encode_byte b) = 3" "?s ! length p = CHR ''%''"
    by (simp_all add: e show_hex2_def)
  ultimately show ?thesis
    by (subst decode_loop.simps) simp
qed

lemma decode_loop_encode:
  "is_ascii p \<Longrightarrow> decode_loop (p @ percent_encode s) (length p) out = Inr (out @ s)"
proof (induction s arbitrary: p out)
  case Nil
  show ?case by (subst decode_loop.simps) (simp add: percent_encode_def)
next
  case (Cons b s)
  let ?p = "p @ encode_byte b"
  have a: "is_ascii ?p" "is_ascii (p @ encode_byte b @ percent_encode s)"
    using Cons.prems percent_encode_ascii [of "b # s"] percent_encode_ascii [of s]
    by (auto simp: is_ascii_def percent_encode_def)
  have "decode_loop (?p @ percent_encode s) (length ?p) (out @ [b]) = Inr ((out @ [b]) @ s)"
    by (rule Cons.IH [OF a(1)])
  with decode_loop_encode_byte [OF a(2)] show ?case
    by (simp add: percent_encode_def)
qed

lemma percent_decode_encode: "utf8_valid s \<Longrightarrow> percent_decode (percent_encode s) = Inr s"
  using decode_loop_encode [of "[]" s "[]"]
  by (simp add: percent_decode_def from_utf8_lossy_valid is_ascii_def)

lemma percent_encode_absent: "\<not> unreserved c \<Longrightarrow> c \<noteq> CHR ''%'' \<Longrightarrow> c \<notin> set (percent_encode s)"
proof -
  assume c: "\<not> unreserved c" "c \<noteq> CHR ''%''"
  have "d < 16 \<Longrightarrow> unreserved (hex_char d)" for d
    by (auto simp: hex_char_def unreserved_def)
  with c show ?thesis
    by (auto simp: percent_encode_def encode_byte_def show_hex2_def nibbles split: if_splits)
qed

section \<open>Form bodies\<close>

text \<open>What a client sends: the pairs joined by ampersands, names as they are, values encoded.\<close>

definition form_encode :: "(string \<times> string) list \<Rightarrow> string" where
  "form_encode fs = join ''&'' (map (\<lambda>(k, v). k @ ''='' @ percent_encode v) fs)"

definition form_name :: "string \<Rightarrow> bool" where
  "form_name k \<longleftrightarrow> utf8_valid k \<and> CHR ''='' \<notin> set k \<and> CHR ''&'' \<notin> set k"

lemma utf8_valid_join:
  "ord c < 128 \<Longrightarrow> (\<And>p. p \<in> set ps \<Longrightarrow> utf8_valid p) \<Longrightarrow> utf8_valid (join [c] ps)"
  by (induction "[c]" ps rule: join.induct) (auto simp: utf8_valid_append utf8_valid_ascii)

lemma utf8_valid_form_pair:
  "form_name k \<Longrightarrow> utf8_valid (k @ CHR ''='' # percent_encode v)"
  by (simp add: form_name_def utf8_valid_append utf8_valid_ascii is_ascii_utf8_valid
      percent_encode_ascii)

lemma form_encode_valid:
  "(\<And>k v. (k, v) \<in> set fs \<Longrightarrow> form_name k) \<Longrightarrow> utf8_valid (form_encode fs)"
  unfolding form_encode_def by (rule utf8_valid_join) (auto intro: utf8_valid_form_pair)

lemma form_encode_split:
  assumes "fs \<noteq> []" and "\<And>k v. (k, v) \<in> set fs \<Longrightarrow> form_name k"
  shows "split_on (CHR ''&'') (form_encode fs) = map (\<lambda>(k, v). k @ ''='' @ percent_encode v) fs"
proof -
  have "CHR ''&'' \<notin> set (percent_encode v)" for v
    by (rule percent_encode_absent) (auto simp: unreserved_def)
  with assms show ?thesis
    unfolding form_encode_def by (intro split_on_join) (auto simp: form_name_def)
qed

lemma find_map_form_pair:
  assumes "\<And>k v. (k, v) \<in> set fs \<Longrightarrow> form_name k \<and> utf8_valid v"
  shows "find_map (form_pair name) (map (\<lambda>(k, v). k @ ''='' @ percent_encode v) fs) =
           map_option Inr (map_of fs name)"
  using assms
proof (induction fs)
  case (Cons f fs)
  obtain k v where f: "f = (k, v)" by (cases f)
  with Cons.prems have "form_name k" "utf8_valid v" by auto
  with f Cons show ?case
    by (auto simp: form_pair_def form_name_def percent_decode_encode)
qed simp

section \<open>Properties\<close>

text \<open>
  \<open>percent_encode\<close> yields ASCII text, and decoding it gives back the original text exactly
  and without a panic, for every \<open>str\<close>.
\<close>

theorem percent_roundtrip:
  assumes "utf8_valid s"
  shows "percent_decode (percent_encode s) = Inr s \<and> is_ascii (percent_encode s)"
  using assms by (simp add: percent_decode_encode percent_encode_ascii)

theorem percent_roundtrip_witness:
  "utf8_valid [CHR 0x61, CHR 0x20, CHR 0xC3, CHR 0xA9] \<and>
   percent_decode (percent_encode [CHR 0x61, CHR 0x20, CHR 0xC3, CHR 0xA9]) =
     Inr [CHR 0x61, CHR 0x20, CHR 0xC3, CHR 0xA9]"
proof -
  have v: "utf8_valid [CHR 0x61, CHR 0x20, CHR 0xC3, CHR 0xA9]"
    by code_simp
  show ?thesis using percent_roundtrip [OF v] v by simp
qed

text \<open>
  The decoder is total on ASCII text and its only possible panic is a slice that cuts a
  UTF-8 sequence; the panic happens on a valid \<open>str\<close>, the text made of a percent sign, the
  letter a and an accented e, so the documented promise that a malformed escape is kept
  literally fails there. It also fails on \<open>%+5\<close>, which decodes to the single byte 5.
\<close>

theorem percent_decode_panics:
  "(\<forall>s. is_ascii s \<longrightarrow> (\<exists>t. percent_decode s = Inr t)) \<and>
   (\<forall>s p. percent_decode s = Inl p \<longrightarrow> p \<noteq> SliceIndex) \<and>
   (\<exists>s. utf8_valid s \<and> percent_decode s = Inl CharBoundary) \<and>
   percent_decode ''%+5'' = Inr [CHR 0x05]"
proof (intro conjI)
  show "\<forall>s. is_ascii s \<longrightarrow> (\<exists>t. percent_decode s = Inr t)"
    unfolding percent_decode_def using decode_loop_ascii [of _ 0 "[]"] by (metis map_sum.simps(2))
  show "\<forall>s p. percent_decode s = Inl p \<longrightarrow> p \<noteq> SliceIndex"
    using decode_loop_no_SliceIndex by (auto simp: percent_decode_def map_sum_def split: sum.splits)
  have "utf8_valid [CHR ''%'', CHR ''a'', CHR 0xC3, CHR 0xA9]"
    by code_simp
  moreover have "percent_decode [CHR ''%'', CHR ''a'', CHR 0xC3, CHR 0xA9] = Inl CharBoundary"
    by code_simp
  ultimately show "\<exists>s. utf8_valid s \<and> percent_decode s = Inl CharBoundary" by blast
  show "percent_decode ''%+5'' = Inr [CHR 0x05]"
    by code_simp
qed

theorem percent_decode_panics_witness: "is_ascii ''100%'' \<and> (\<exists>t. percent_decode ''100%'' = Inr t)"
proof -
  have a: "is_ascii ''100%''" by code_simp
  show ?thesis using percent_decode_panics a by blast
qed

text \<open>
  On a form body built from any list of named fields, \<open>form_field\<close> returns the decoded
  value of the first field of that name, and the empty string when there is none.
\<close>

theorem form_field_lookup:
  assumes "\<And>k v. (k, v) \<in> set fs \<Longrightarrow> form_name k \<and> utf8_valid v"
  shows "form_field (form_encode fs) name =
           Inr (case map_of fs name of None \<Rightarrow> [] | Some v \<Rightarrow> v)"
proof (cases "fs = []")
  case True
  then show ?thesis by (simp add: form_encode_def form_field_def form_pair_def)
next
  case False
  have l: "from_utf8_lossy (form_encode fs) = form_encode fs"
    using assms by (intro from_utf8_lossy_valid form_encode_valid) blast
  have "split_on (CHR ''&'') (form_encode fs) = map (\<lambda>(k, v). k @ ''='' @ percent_encode v) fs"
    using False assms by (intro form_encode_split) blast+
  with l find_map_form_pair [OF assms] show ?thesis
    by (auto simp: form_field_def split: option.splits)
qed

theorem form_field_lookup_witness:
  "form_field (form_encode [(''a'', ''x y''), (''b'', ''&'')]) ''b'' = Inr ''&''"
proof -
  have "form_field (form_encode [(''a'', ''x y''), (''b'', ''&'')]) ''b'' =
          Inr (case map_of [(''a'', ''x y''), (''b'', ''&'')] ''b'' of None \<Rightarrow> [] | Some v \<Rightarrow> v)"
    by (rule form_field_lookup) (auto simp: form_name_def is_ascii_utf8_valid is_ascii_def)
  then show ?thesis by simp
qed

end
