(* ===== verification/Header_Fields.thy ===== *)
theory Header_Fields
  imports Rust_Text
begin

text \<open>
  \<open>kernway-core/src/fields.rs\<close>: the headers and query parameters of a message as ranges into
  one byte buffer. The const generic \<open>CASE_INSENSITIVE\<close> is the first argument \<open>ci\<close> of every
  operation. The interface \<open>field_set\<close> states what a client may rely on, as laws about the list
  of pairs, and both instances (\<open>Headers\<close> and \<open>QueryParams\<close>) interpret it.
\<close>

section \<open>The model\<close>

record entry =
  name_start :: nat
  name_end :: nat
  value_start :: nat
  value_end :: nat

record fields =
  buf :: string
  entries :: "entry list"

definition fields_new :: fields where
  "fields_new = \<lparr>buf = [], entries = []\<rparr>"

definition fields_offset :: "nat \<Rightarrow> nat run" where
  "fields_offset len = (if len \<le> u32_max then Inr len else Inl ExpectFailed)"

definition buf_slice :: "string \<Rightarrow> nat \<Rightarrow> nat \<Rightarrow> string" where
  "buf_slice b i j = take (j - i) (drop i b)"

definition name_matches :: "bool \<Rightarrow> string \<Rightarrow> entry \<Rightarrow> string \<Rightarrow> bool" where
  "name_matches ci b e name =
     (let stored = buf_slice b (name_start e) (name_end e)
      in if ci then eq_ignore_ascii_case stored name else stored = name)"

definition stored_name :: "bool \<Rightarrow> string \<Rightarrow> string" where
  "stored_name ci name = (if ci then map to_ascii_lowercase name else name)"

definition fields_push :: "bool \<Rightarrow> fields \<Rightarrow> string \<Rightarrow> string \<Rightarrow> fields run" where
  "fields_push ci f name val =
     bind_run (fields_offset (length (buf f))) (\<lambda>ns.
       let b1 = buf f @ stored_name ci name
       in bind_run (fields_offset (length b1)) (\<lambda>ne.
            let b2 = b1 @ val
            in bind_run (fields_offset (length b2)) (\<lambda>ve.
                 Inr \<lparr>buf = b2,
                      entries = entries f @
                        [\<lparr>name_start = ns, name_end = ne, value_start = ne, value_end = ve\<rparr>]\<rparr>)))"

definition fields_insert :: "bool \<Rightarrow> fields \<Rightarrow> string \<Rightarrow> string \<Rightarrow> fields run" where
  "fields_insert ci f name val =
     fields_push ci (f\<lparr>entries := filter (\<lambda>e. \<not> name_matches ci (buf f) e name) (entries f)\<rparr>) name val"

definition fields_append :: "bool \<Rightarrow> fields \<Rightarrow> string \<Rightarrow> string \<Rightarrow> fields run" where
  "fields_append ci f name val = fields_push ci f name val"

text \<open>\<open>from_utf8(bytes).unwrap_or("")\<close> on the bytes of a range.\<close>

definition fields_slice :: "fields \<Rightarrow> nat \<Rightarrow> nat \<Rightarrow> string" where
  "fields_slice f i j = (let bs = buf_slice (buf f) i j in if utf8_valid bs then bs else [])"

definition fields_get :: "bool \<Rightarrow> fields \<Rightarrow> string \<Rightarrow> string option" where
  "fields_get ci f name =
     map_option (\<lambda>e. fields_slice f (value_start e) (value_end e))
       (find (\<lambda>e. name_matches ci (buf f) e name) (rev (entries f)))"

definition fields_contains_key :: "bool \<Rightarrow> fields \<Rightarrow> string \<Rightarrow> bool" where
  "fields_contains_key ci f name \<longleftrightarrow> fields_get ci f name \<noteq> None"

definition fields_iter :: "fields \<Rightarrow> (string \<times> string) list" where
  "fields_iter f =
     map (\<lambda>e. (fields_slice f (name_start e) (name_end e), fields_slice f (value_start e) (value_end e)))
       (entries f)"

definition fields_len :: "fields \<Rightarrow> nat" where
  "fields_len f = length (entries f)"

definition fields_byte_len :: "fields \<Rightarrow> nat" where
  "fields_byte_len f = length (buf f)"

definition fields_is_empty :: "fields \<Rightarrow> bool" where
  "fields_is_empty f \<longleftrightarrow> entries f = []"

section \<open>The invariant\<close>

definition entry_ok :: "bool \<Rightarrow> string \<Rightarrow> entry \<Rightarrow> bool" where
  "entry_ok ci b e \<longleftrightarrow>
     name_start e \<le> name_end e \<and> value_start e = name_end e \<and> name_end e \<le> value_end e \<and>
     value_end e \<le> length b \<and> value_end e \<le> u32_max \<and>
     utf8_valid (buf_slice b (name_start e) (name_end e)) \<and>
     utf8_valid (buf_slice b (name_end e) (value_end e)) \<and>
     stored_name ci (buf_slice b (name_start e) (name_end e)) = buf_slice b (name_start e) (name_end e)"

definition fields_ok :: "bool \<Rightarrow> fields \<Rightarrow> bool" where
  "fields_ok ci f \<longleftrightarrow> list_all (entry_ok ci (buf f)) (entries f)"

lemma stored_name_idem [simp]: "stored_name ci (stored_name ci n) = stored_name ci n"
  by (simp add: stored_name_def)

lemma stored_name_length [simp]: "length (stored_name ci n) = length n"
  by (simp add: stored_name_def)

lemma stored_name_valid [simp]: "utf8_valid (stored_name ci n) = utf8_valid n"
  by (simp add: stored_name_def utf8_valid_lowercase)

lemma name_matches_stored:
  "entry_ok ci b e \<Longrightarrow>
     name_matches ci b e n \<longleftrightarrow> buf_slice b (name_start e) (name_end e) = stored_name ci n"
  by (auto simp: name_matches_def entry_ok_def stored_name_def eq_ignore_ascii_case_def Let_def
      split: if_splits)

lemma buf_slice_append: "j \<le> length b \<Longrightarrow> buf_slice (b @ c) i j = buf_slice b i j"
  by (cases "i \<le> j") (simp_all add: buf_slice_def)

lemma entry_ok_append: "entry_ok ci b e \<Longrightarrow> entry_ok ci (b @ c) e"
  by (simp add: entry_ok_def buf_slice_append)

lemma fields_push_Inr:
  "fields_push ci f n v = Inr g \<longleftrightarrow>
     length (buf f) + length n + length v \<le> u32_max \<and>
     g = \<lparr>buf = buf f @ stored_name ci n @ v,
          entries = entries f @
            [\<lparr>name_start = length (buf f), name_end = length (buf f) + length n,
              value_start = length (buf f) + length n,
              value_end = length (buf f) + length n + length v\<rparr>]\<rparr>"
  by (auto simp: fields_push_def fields_offset_def Let_def bind_run_Inr split: if_splits)

lemma fields_push_ok:
  assumes ok: "fields_ok ci f" and v: "utf8_valid n" "utf8_valid v" and p: "fields_push ci f n v = Inr g"
  shows "fields_ok ci g" and "fields_iter g = fields_iter f @ [(stored_name ci n, v)]"
proof -
  from p have g: "g = \<lparr>buf = buf f @ stored_name ci n @ v,
          entries = entries f @
            [\<lparr>name_start = length (buf f), name_end = length (buf f) + length n,
              value_start = length (buf f) + length n,
              value_end = length (buf f) + length n + length v\<rparr>]\<rparr>"
    and b: "length (buf f) + length n + length v \<le> u32_max"
    by (simp_all add: fields_push_Inr)
  let ?b = "buf f @ stored_name ci n @ v"
  have new: "buf_slice ?b (length (buf f)) (length (buf f) + length n) = stored_name ci n"
    "buf_slice ?b (length (buf f) + length n) (length (buf f) + length n + length v) = v"
    by (simp_all add: buf_slice_def)
  have old: "e \<in> set (entries f) \<Longrightarrow> entry_ok ci (buf f) e" for e
    using ok by (simp add: fields_ok_def list_all_iff)
  have "entry_ok ci ?b (last (entries g))"
    using b v new by (simp add: g entry_ok_def)
  moreover have "e \<in> set (entries f) \<Longrightarrow> entry_ok ci ?b e" for e
    using old by (rule entry_ok_append)
  ultimately show "fields_ok ci g"
    by (auto simp: g fields_ok_def list_all_iff)
  show "fields_iter g = fields_iter f @ [(stored_name ci n, v)]"
  proof -
    have "e \<in> set (entries f) \<Longrightarrow>
        fields_slice g (name_start e) (name_end e) = fields_slice f (name_start e) (name_end e) \<and>
        fields_slice g (value_start e) (value_end e) = fields_slice f (value_start e) (value_end e)" for e
      using old [of e] by (simp add: g fields_slice_def entry_ok_def buf_slice_append)
    with new v show ?thesis
      by (simp add: g fields_iter_def fields_slice_def)
  qed
qed

lemma fields_iter_retain:
  assumes "fields_ok ci f"
  shows "fields_iter (f\<lparr>entries := filter (\<lambda>e. \<not> name_matches ci (buf f) e n) (entries f)\<rparr>) =
           filter (\<lambda>(k, _). k \<noteq> stored_name ci n) (fields_iter f)"
proof -
  have "e \<in> set (entries f) \<Longrightarrow>
      name_matches ci (buf f) e n \<longleftrightarrow> fields_slice f (name_start e) (name_end e) = stored_name ci n" for e
    using assms name_matches_stored [of ci "buf f" e n]
    by (auto simp: fields_ok_def list_all_iff fields_slice_def entry_ok_def Let_def)
  then show ?thesis
    by (auto simp: fields_iter_def filter_map comp_def fields_slice_def intro!: map_cong filter_cong)
qed

lemma fields_ok_retain: "fields_ok ci f \<Longrightarrow> fields_ok ci (f\<lparr>entries := filter P (entries f)\<rparr>)"
  by (auto simp: fields_ok_def list_all_iff)


lemma fields_get_iter:
  assumes "fields_ok ci f"
  shows "fields_get ci f n = map_of (rev (fields_iter f)) (stored_name ci n)"
proof -
  have nm: "e \<in> set (entries f) \<Longrightarrow>
      name_matches ci (buf f) e n \<longleftrightarrow> fields_slice f (name_start e) (name_end e) = stored_name ci n" for e
    using assms name_matches_stored [of ci "buf f" e n]
    by (auto simp: fields_ok_def list_all_iff fields_slice_def entry_ok_def Let_def)
  have "set es \<subseteq> set (entries f) \<Longrightarrow>
      map_option (\<lambda>e. fields_slice f (value_start e) (value_end e))
        (find (\<lambda>e. name_matches ci (buf f) e n) es) =
      map_of (map (\<lambda>e. (fields_slice f (name_start e) (name_end e),
        fields_slice f (value_start e) (value_end e))) es) (stored_name ci n)" for es
    by (induction es) (auto simp: nm)
  from this [of "rev (entries f)"] show ?thesis
    by (simp add: fields_get_def fields_iter_def rev_map)
qed

section \<open>The interface\<close>

text \<open>
  What the parser, the writer and the handlers rely on: a set of pairs in the order they were
  added, names normalised by \<open>norm\<close>, an append that keeps duplicates, an insert that replaces,
  and a lookup in which the last pair of a name wins.
\<close>

locale field_set =
  fixes empty :: "'f"
    and append_to :: "'f \<Rightarrow> string \<Rightarrow> string \<Rightarrow> panic + 'f"
    and insert_to :: "'f \<Rightarrow> string \<Rightarrow> string \<Rightarrow> panic + 'f"
    and lookup_in :: "'f \<Rightarrow> string \<Rightarrow> string option"
    and pairs :: "'f \<Rightarrow> (string \<times> string) list"
    and norm :: "string \<Rightarrow> string"
    and wf :: "'f \<Rightarrow> bool"
  assumes wf_empty: "wf empty"
    and pairs_empty: "pairs empty = []"
    and append_law: "wf f \<Longrightarrow> utf8_valid n \<Longrightarrow> utf8_valid v \<Longrightarrow> append_to f n v = Inr g \<Longrightarrow>
      wf g \<and> pairs g = pairs f @ [(norm n, v)]"
    and insert_law: "wf f \<Longrightarrow> utf8_valid n \<Longrightarrow> utf8_valid v \<Longrightarrow> insert_to f n v = Inr g \<Longrightarrow>
      wf g \<and> pairs g = filter (\<lambda>(k, _). k \<noteq> norm n) (pairs f) @ [(norm n, v)]"
    and lookup_law: "wf f \<Longrightarrow> lookup_in f n = map_of (rev (pairs f)) (norm n)"
begin

lemma lookup_empty: "lookup_in empty n = None"
  by (simp add: lookup_law wf_empty pairs_empty)

lemma lookup_append:
  assumes "wf f" "utf8_valid n" "utf8_valid v" "append_to f n v = Inr g"
  shows "lookup_in g m = (if norm m = norm n then Some v else lookup_in f m)"
  using append_law [OF assms] assms(1) by (simp add: lookup_law)

lemma map_of_rev_filter:
  "m \<noteq> n \<Longrightarrow> map_of (rev (filter (\<lambda>(k, _). k \<noteq> n) ps)) m = map_of (rev ps) m"
  by (induction ps) (auto simp: map_add_def split: option.splits)

lemma lookup_insert:
  assumes "wf f" "utf8_valid n" "utf8_valid v" "insert_to f n v = Inr g"
  shows "lookup_in g m = (if norm m = norm n then Some v else lookup_in f m)"
  using insert_law [OF assms] assms(1) by (simp add: lookup_law map_of_rev_filter)

lemma insert_unique:
  assumes "wf f" "utf8_valid n" "utf8_valid v" "insert_to f n v = Inr g"
  shows "filter (\<lambda>(k, _). k = norm n) (pairs g) = [(norm n, v)]"
  using insert_law [OF assms] by (auto simp: filter_empty_conv)

lemma append_all:
  assumes "wf f" "\<And>n v. (n, v) \<in> set ps \<Longrightarrow> utf8_valid n \<and> utf8_valid v"
    and "fold_run (\<lambda>f (n, v). append_to f n v) f ps = Inr g"
  shows "wf g \<and> pairs g = pairs f @ map (\<lambda>(n, v). (norm n, v)) ps"
  using assms
proof (induction ps arbitrary: f)
  case (Cons p ps)
  obtain n v where p: "p = (n, v)" by (cases p)
  with Cons.prems(3) obtain h where h: "append_to f n v = Inr h"
      "fold_run (\<lambda>f (n, v). append_to f n v) h ps = Inr g"
    by (auto simp: bind_run_Inr)
  have "wf h \<and> pairs h = pairs f @ [(norm n, v)]"
    using Cons.prems(1,2) h(1) p by (intro append_law) auto
  with Cons.IH [OF _ _ h(2)] Cons.prems(2) p show ?case by auto
qed simp

end

lemma fields_push_field_set:
  "fields_ok ci f \<Longrightarrow> utf8_valid n \<Longrightarrow> utf8_valid v \<Longrightarrow> fields_insert ci f n v = Inr g \<Longrightarrow>
     fields_ok ci g \<and> fields_iter g = filter (\<lambda>(k, _). k \<noteq> stored_name ci n) (fields_iter f) @ [(stored_name ci n, v)]"
  unfolding fields_insert_def
  using fields_push_ok [OF fields_ok_retain, of ci f n v "\<lambda>e. \<not> name_matches ci (buf f) e n" g]
    fields_iter_retain [of ci f n] by simp

interpretation fs: field_set fields_new "fields_append ci" "fields_insert ci" "fields_get ci"
  fields_iter "stored_name ci" "fields_ok ci" for ci
proof unfold_locales
  show "fields_ok ci fields_new"
    by (simp add: fields_ok_def fields_new_def)
  show "fields_iter fields_new = []"
    by (simp add: fields_iter_def fields_new_def)
  show "fields_ok ci f \<Longrightarrow> utf8_valid n \<Longrightarrow> utf8_valid v \<Longrightarrow> fields_append ci f n v = Inr g \<Longrightarrow>
      fields_ok ci g \<and> fields_iter g = fields_iter f @ [(stored_name ci n, v)]" for f n v g
    unfolding fields_append_def using fields_push_ok by blast
  show "fields_ok ci f \<Longrightarrow> utf8_valid n \<Longrightarrow> utf8_valid v \<Longrightarrow> fields_insert ci f n v = Inr g \<Longrightarrow>
      fields_ok ci g \<and> fields_iter g =
        filter (\<lambda>(k, _). k \<noteq> stored_name ci n) (fields_iter f) @ [(stored_name ci n, v)]" for f n v g
    by (rule fields_push_field_set)
  show "fields_ok ci f \<Longrightarrow> fields_get ci f n = map_of (rev (fields_iter f)) (stored_name ci n)" for f n
    by (rule fields_get_iter)
qed

lemma fields_append_total:
  "length (buf f) + length n + length v \<le> u32_max \<longleftrightarrow> (\<exists>g. fields_append ci f n v = Inr g)"
  by (simp add: fields_append_def fields_push_Inr)

lemma fields_insert_total:
  "length (buf f) + length n + length v \<le> u32_max \<longleftrightarrow> (\<exists>g. fields_insert ci f n v = Inr g)"
  by (simp add: fields_insert_def fields_push_Inr)

definition same_name :: "bool \<Rightarrow> string \<Rightarrow> string \<Rightarrow> bool" where
  "same_name ci n m = (if ci then eq_ignore_ascii_case n m else n = m)"

lemma same_name_stored: "same_name ci n m \<longleftrightarrow> stored_name ci n = stored_name ci m"
  by (simp add: same_name_def stored_name_def eq_ignore_ascii_case_def)

lemma map_of_stored:
  "map_of (map (\<lambda>(n, v). (stored_name ci n, v)) qs) (stored_name ci m) =
     map_option snd (find (\<lambda>(n, v). same_name ci n m) qs)"
proof (induction qs)
  case (Cons q qs)
  obtain n v where q: "q = (n, v)" by (cases q)
  show ?case
  proof (cases "same_name ci n m")
    case True
    with q show ?thesis using same_name_stored [of ci n m] by simp
  next
    case False
    then have "stored_name ci m \<noteq> stored_name ci n"
      using same_name_stored [of ci n m] by metis
    with False q Cons.IH show ?thesis by simp
  qed
qed simp

section \<open>Properties\<close>

text \<open>
  The one-buffer representation refines a list of pairs. From a well-formed set, inserting
  a valid name and value either panics, exactly when the text would pass the 32-bit range, or
  yields a well-formed set whose pairs are the old ones without that name followed by the new
  pair; a lookup then finds the new value under every spelling of the name and every other
  name as before.
\<close>

theorem fields_insert_refines:
  assumes "fields_ok ci f" and "utf8_valid n" and "utf8_valid v"
  shows "(\<exists>g. fields_insert ci f n v = Inr g \<and> fields_ok ci g \<and>
            fields_iter g = filter (\<lambda>(k, _). k \<noteq> stored_name ci n) (fields_iter f) @ [(stored_name ci n, v)] \<and>
            (\<forall>m. fields_get ci g m = (if stored_name ci m = stored_name ci n then Some v else fields_get ci f m)))
         \<longleftrightarrow> fields_byte_len f + length n + length v \<le> u32_max"
proof
  assume "fields_byte_len f + length n + length v \<le> u32_max"
  then obtain g where g: "fields_insert ci f n v = Inr g"
    using fields_insert_total [of f n v ci] by (auto simp: fields_byte_len_def)
  with assms show "\<exists>g. fields_insert ci f n v = Inr g \<and> fields_ok ci g \<and>
      fields_iter g = filter (\<lambda>(k, _). k \<noteq> stored_name ci n) (fields_iter f) @ [(stored_name ci n, v)] \<and>
      (\<forall>m. fields_get ci g m = (if stored_name ci m = stored_name ci n then Some v else fields_get ci f m))"
    using fs.insert_law [OF assms g] fs.lookup_insert [OF assms g] by auto
next
  assume "\<exists>g. fields_insert ci f n v = Inr g \<and> fields_ok ci g \<and>
      fields_iter g = filter (\<lambda>(k, _). k \<noteq> stored_name ci n) (fields_iter f) @ [(stored_name ci n, v)] \<and>
      (\<forall>m. fields_get ci g m = (if stored_name ci m = stored_name ci n then Some v else fields_get ci f m))"
  then show "fields_byte_len f + length n + length v \<le> u32_max"
    using fields_insert_total [of f n v ci] by (auto simp: fields_byte_len_def)
qed

theorem fields_insert_refines_witness:
  "\<exists>g. fields_insert True fields_new ''Host'' ''a'' = Inr g \<and> fields_get True g ''HOST'' = Some ''a''"
proof -
  have ok: "fields_ok True fields_new" "utf8_valid ''Host''" "utf8_valid ''a''"
    by (simp_all add: fs.wf_empty is_ascii_utf8_valid is_ascii_def)
  have "fields_byte_len fields_new + length ''Host'' + length ''a'' \<le> u32_max"
    by (simp add: fields_byte_len_def fields_new_def u32_max_def)
  then obtain g where "fields_insert True fields_new ''Host'' ''a'' = Inr g"
    "\<forall>m. fields_get True g m =
       (if stored_name True m = stored_name True ''Host'' then Some ''a'' else fields_get True fields_new m)"
    using fields_insert_refines [OF ok] by blast
  moreover have "stored_name True ''HOST'' = stored_name True ''Host''"
    by code_simp
  ultimately show ?thesis by simp
qed

text \<open>
  Building a set by appending pairs in order, as the parser does, keeps every pair in
  order, and a lookup returns the value of the last pair of that name, headers ignoring ASCII
  case and query parameters respecting it.
\<close>

theorem fields_last_wins:
  assumes "\<And>n v. (n, v) \<in> set ps \<Longrightarrow> utf8_valid n \<and> utf8_valid v"
    and "fold_run (\<lambda>f (n, v). fields_append ci f n v) fields_new ps = Inr g"
  shows "fields_iter g = map (\<lambda>(n, v). (stored_name ci n, v)) ps \<and> fields_len g = length ps \<and>
    fields_get ci g m =
      map_option snd (find (\<lambda>(n, v). same_name ci n m) (rev ps))"
proof -
  have g: "fields_ok ci g \<and> fields_iter g = map (\<lambda>(n, v). (stored_name ci n, v)) ps"
    using fs.append_all [OF fs.wf_empty assms] by (simp add: fs.pairs_empty)
  then have "fields_get ci g m = map_option snd (find (\<lambda>(n, v). same_name ci n m) (rev ps))"
    using map_of_stored [of ci "rev ps" m] by (simp add: fs.lookup_law rev_map)
  moreover have "fields_len g = length (fields_iter g)"
    by (simp add: fields_len_def fields_iter_def)
  ultimately show ?thesis using g by simp
qed

theorem fields_last_wins_witness:
  "\<exists>g. fold_run (\<lambda>f (n, v). fields_append True f n v) fields_new [(''A'', ''1''), (''a'', ''2'')] = Inr g \<and>
    fields_get True g ''A'' = Some ''2''"
proof -
  obtain g where g: "fold_run (\<lambda>f (n, v). fields_append True f n v) fields_new
      [(''A'', ''1''), (''a'', ''2'')] = Inr g"
    by (simp add: fields_append_def fields_push_def fields_offset_def fields_new_def u32_max_def)
  have v: "\<And>n v. (n, v) \<in> set [(''A'', ''1''), (''a'', ''2'')] \<Longrightarrow> utf8_valid n \<and> utf8_valid v"
    by (auto simp: is_ascii_utf8_valid is_ascii_def)
  have "fields_get True g ''A'' = map_option snd
      (find (\<lambda>(n, v). same_name True n ''A'') (rev [(''A'', ''1''), (''a'', ''2'')]))"
    using fields_last_wins [OF v g, of "''A''"] by blast
  also have "\<dots> = Some ''2''"
    by code_simp
  finally show ?thesis using g by blast
qed

end
