(* ===== verification/Hash_Map.thy ===== *)
theory Hash_Map
  imports Rust_Prelude "HOL-Library.AList"
begin

text \<open>
  \<open>std::collections::HashMap\<close> as an association list with distinct keys, and the interface
  the stateful components use: lookup after insert, remove and retain, and the length. The
  order of the list stands for the map's unspecified iteration order, so no property depends
  on it.
\<close>

type_synonym ('k, 'v) hmap = "('k \<times> 'v) list"

definition hm_get :: "('k, 'v) hmap \<Rightarrow> 'k \<Rightarrow> 'v option" where
  "hm_get m k = map_of m k"

definition hm_insert :: "('k, 'v) hmap \<Rightarrow> 'k \<Rightarrow> 'v \<Rightarrow> ('k, 'v) hmap" where
  "hm_insert m k v = AList.update k v m"

definition hm_remove :: "('k, 'v) hmap \<Rightarrow> 'k \<Rightarrow> ('k, 'v) hmap" where
  "hm_remove m k = AList.delete k m"

definition hm_retain :: "('k \<Rightarrow> 'v \<Rightarrow> bool) \<Rightarrow> ('k, 'v) hmap \<Rightarrow> ('k, 'v) hmap" where
  "hm_retain P m = filter (\<lambda>(k, v). P k v) m"

definition hm_len :: "('k, 'v) hmap \<Rightarrow> nat" where
  "hm_len m = length m"

definition hm_ok :: "('k, 'v) hmap \<Rightarrow> bool" where
  "hm_ok m \<longleftrightarrow> distinct (map fst m)"

text \<open>
  The contract of a hash map. \<open>retain\<close> keeps exactly the entries that satisfy the predicate, and
  the length is the number of keys that have a value.
\<close>

locale hash_map =
  fixes empty :: "'m"
    and get :: "'m \<Rightarrow> 'k \<Rightarrow> 'v option"
    and insert :: "'m \<Rightarrow> 'k \<Rightarrow> 'v \<Rightarrow> 'm"
    and remove :: "'m \<Rightarrow> 'k \<Rightarrow> 'm"
    and retain :: "('k \<Rightarrow> 'v \<Rightarrow> bool) \<Rightarrow> 'm \<Rightarrow> 'm"
    and len :: "'m \<Rightarrow> nat"
    and ok :: "'m \<Rightarrow> bool"
  assumes ok_empty [simp]: "ok empty"
    and ok_insert [simp]: "ok m \<Longrightarrow> ok (insert m k v)"
    and ok_remove [simp]: "ok m \<Longrightarrow> ok (remove m k)"
    and ok_retain [simp]: "ok m \<Longrightarrow> ok (retain P m)"
    and get_empty [simp]: "get empty k = None"
    and get_insert [simp]: "ok m \<Longrightarrow> get (insert m k v) k' = (if k' = k then Some v else get m k')"
    and get_remove [simp]: "ok m \<Longrightarrow> get (remove m k) k' = (if k' = k then None else get m k')"
    and get_retain: "ok m \<Longrightarrow> get (retain P m) k = Option.bind (get m k) (\<lambda>v. if P k v then Some v else None)"
    and len_card: "ok m \<Longrightarrow> finite (dom (get m)) \<and> len m = card (dom (get m))"
begin

lemma get_retain_Some: "ok m \<Longrightarrow> get (retain P m) k = Some v \<longleftrightarrow> get m k = Some v \<and> P k v"
  by (auto simp: get_retain split: bind_splits if_splits)

lemma get_retain_None: "ok m \<Longrightarrow> get (retain P m) k = None \<longleftrightarrow> (\<forall>v. get m k = Some v \<longrightarrow> \<not> P k v)"
  by (auto simp: get_retain split: bind_splits if_splits)

text \<open>A sweep that drops only what a reader would ignore anyway is invisible to the reader.\<close>

lemma get_retain_live:
  assumes "ok m" and "\<And>v. live v \<Longrightarrow> P k v"
  shows "Option.bind (get (retain P m) k) (\<lambda>v. if live v then f v else None) =
         Option.bind (get m k) (\<lambda>v. if live v then f v else None)"
  using assms by (cases "get m k") (auto simp: get_retain)

lemma len_insert: "ok m \<Longrightarrow> len (insert m k v) = (if get m k = None then len m + 1 else len m)"
proof -
  assume ok: "ok m"
  then have "dom (get (insert m k v)) = Set.insert k (dom (get m))" by auto
  moreover have "finite (dom (get m))" "len m = card (dom (get m))" using len_card [OF ok] by auto
  moreover have "len (insert m k v) = card (dom (get (insert m k v)))"
    using len_card [of "insert m k v"] ok by simp
  ultimately show ?thesis by (auto simp: card_insert_if domIff)
qed

lemma len_retain_le: "ok m \<Longrightarrow> len (retain P m) \<le> len m"
proof -
  assume ok: "ok m"
  then have "dom (get (retain P m)) \<subseteq> dom (get m)" by (auto simp: get_retain_Some)
  with len_card [OF ok] len_card [of "retain P m"] ok show ?thesis by (simp add: card_mono)
qed

lemma len_remove_le: "ok m \<Longrightarrow> len (remove m k) \<le> len m"
proof -
  assume ok: "ok m"
  then have "dom (get (remove m k)) \<subseteq> dom (get m)" by (auto split: if_splits)
  with len_card [OF ok] len_card [of "remove m k"] ok show ?thesis by (simp add: card_mono)
qed

end

lemma hm_get_retain:
  "hm_ok m \<Longrightarrow> hm_get (hm_retain P m) k = Option.bind (hm_get m k) (\<lambda>v. if P k v then Some v else None)"
proof (induction m)
  case (Cons p m)
  obtain a b where p: "p = (a, b)" by (cases p)
  with Cons have "hm_ok m" "map_of m a = None"
    by (auto simp: hm_ok_def map_of_eq_None_iff)
  moreover have "map_of (filter (\<lambda>(k, v). P k v) m) a = None" if "map_of m a = None"
    using that by (auto simp: map_of_eq_None_iff)
  ultimately show ?case
    using Cons.IH p by (auto simp: hm_get_def hm_retain_def)
qed (simp add: hm_get_def hm_retain_def)

interpretation hm: hash_map "[]" hm_get hm_insert hm_remove hm_retain hm_len hm_ok
proof unfold_locales
  show "hm_ok []" by (simp add: hm_ok_def)
  show "hm_ok m \<Longrightarrow> hm_ok (hm_insert m k v)" for m :: "('k, 'v) hmap" and k v
    by (simp add: hm_ok_def hm_insert_def distinct_update)
  show "hm_ok m \<Longrightarrow> hm_ok (hm_remove m k)" for m :: "('k, 'v) hmap" and k
    by (simp add: hm_ok_def hm_remove_def distinct_delete)
  show "hm_ok m \<Longrightarrow> hm_ok (hm_retain P m)" for m :: "('k, 'v) hmap" and P
    by (simp add: hm_ok_def hm_retain_def distinct_map_filter)
  show "hm_get [] k = None" for k :: 'k by (simp add: hm_get_def)
  show "hm_get (hm_insert m k v) k' = (if k' = k then Some v else hm_get m k')"
    for m :: "('k, 'v) hmap" and k v k'
    by (simp add: hm_get_def hm_insert_def update_conv)
  show "hm_get (hm_remove m k) k' = (if k' = k then None else hm_get m k')"
    for m :: "('k, 'v) hmap" and k k'
    by (simp add: hm_get_def hm_remove_def delete_conv)
  show "hm_ok m \<Longrightarrow> hm_get (hm_retain P m) k =
      Option.bind (hm_get m k) (\<lambda>v. if P k v then Some v else None)" for m :: "('k, 'v) hmap" and P k
    by (rule hm_get_retain)
  show "hm_ok m \<Longrightarrow> finite (dom (hm_get m)) \<and> hm_len m = card (dom (hm_get m))" for m :: "('k, 'v) hmap"
    using distinct_card [of "map fst m"]
    by (simp add: hm_ok_def hm_get_def [abs_def] hm_len_def finite_dom_map_of dom_map_of_conv_image_fst)
qed

end
