(* ===== verification/Http_Message.thy ===== *)
theory Http_Message
  imports Header_Fields Hash_Map
begin

text \<open>
  The request and response types of \<open>kernway-core\<close> (\<open>request.rs\<close>, \<open>response.rs\<close>,
  \<open>error.rs\<close>): their data, the keep-alive decision, cookie lookup, body length and the
  conversions into a response. A streamed body's source is an opaque type \<open>'s\<close>; the file
  system read of a spooled body is the parameter \<open>read_file\<close>.
\<close>

section \<open>Requests\<close>

datatype http_version = Http10 | Http11

definition show_version :: "http_version \<Rightarrow> string" where
  "show_version v = (case v of Http10 \<Rightarrow> ''HTTP/1.0'' | Http11 \<Rightarrow> ''HTTP/1.1'')"

record spooled_body =
  spool_path :: string
  spool_len :: nat

record request =
  req_method :: string
  req_path :: string
  req_version :: http_version
  req_headers :: fields
  req_query :: fields
  req_path_params :: "(string, string) hmap"
  req_body :: string
  req_body_spool :: "spooled_body option"
  req_remote_addr :: "socket_addr option"

definition request_new :: "string \<Rightarrow> string \<Rightarrow> request" where
  "request_new m p =
     \<lparr>req_method = m, req_path = p, req_version = Http11, req_headers = fields_new,
      req_query = fields_new, req_path_params = [], req_body = [],
      req_body_spool = None, req_remote_addr = None\<rparr>"

definition req_body_bytes :: "(string \<Rightarrow> string option) \<Rightarrow> request \<Rightarrow> string" where
  "req_body_bytes read_file r =
     (case req_body_spool r of
        Some sp \<Rightarrow> (case read_file (spool_path sp) of None \<Rightarrow> [] | Some b \<Rightarrow> b)
      | None \<Rightarrow> req_body r)"

definition header :: "request \<Rightarrow> string \<Rightarrow> string option" where
  "header r name = fields_get True (req_headers r) name"

definition has_token :: "string \<Rightarrow> string \<Rightarrow> bool" where
  "has_token val token \<longleftrightarrow>
     list_ex (\<lambda>v. eq_ignore_ascii_case (trim v) token) (split_on (CHR '','') val)"

definition wants_keep_alive :: "request \<Rightarrow> bool" where
  "wants_keep_alive r =
     (case header r ''connection'' of
        Some v \<Rightarrow>
          if has_token v ''close'' then False
          else if has_token v ''keep-alive'' then True
          else req_version r = Http11
      | None \<Rightarrow> req_version r = Http11)"

definition cookie_pair :: "string \<Rightarrow> string \<Rightarrow> string option" where
  "cookie_pair name pair =
     (case split_once (CHR ''='') pair of
        None \<Rightarrow> None
      | Some (k, v) \<Rightarrow> if trim k = name then Some (trim v) else None)"

definition cookie :: "request \<Rightarrow> string \<Rightarrow> string option" where
  "cookie r name =
     (case header r ''cookie'' of
        None \<Rightarrow> None
      | Some h \<Rightarrow> find_map (cookie_pair name) (split_on (CHR '';'') h))"

section \<open>Responses\<close>

type_synonym status_code = nat

definition is_success :: "status_code \<Rightarrow> bool" where
  "is_success s \<longleftrightarrow> 200 \<le> s \<and> s < 300"

datatype 's body =
    Empty
  | Bytes string
  | File string nat "(nat \<times> nat) option"
  | Stream nat 's

fun body_len :: "'s body \<Rightarrow> nat" where
  "body_len Empty = 0"
| "body_len (Bytes b) = length b"
| "body_len (File p len rng) =
     (case rng of None \<Rightarrow> len | Some (s, e) \<Rightarrow> wrapping_sub64 e s)"
| "body_len (Stream len src) = len"

definition body_is_empty :: "'s body \<Rightarrow> bool" where
  "body_is_empty b \<longleftrightarrow> body_len b = 0"

record 's response =
  resp_status :: status_code
  resp_headers :: fields
  resp_body :: "'s body"

definition response_new :: "status_code \<Rightarrow> 's response" where
  "response_new st = \<lparr>resp_status = st, resp_headers = fields_new, resp_body = Empty\<rparr>"

definition with_body :: "'s response \<Rightarrow> string \<Rightarrow> 's response" where
  "with_body r b = r\<lparr>resp_body := Bytes b\<rparr>"

definition with_file :: "'s response \<Rightarrow> string \<Rightarrow> nat \<Rightarrow> 's response" where
  "with_file r p len = r\<lparr>resp_body := File p len None\<rparr>"

definition with_stream :: "'s response \<Rightarrow> nat \<Rightarrow> 's \<Rightarrow> 's response" where
  "with_stream r len src = r\<lparr>resp_body := Stream len src\<rparr>"

fun resp_body_bytes :: "'s response \<Rightarrow> string" where
  "resp_body_bytes r = (case resp_body r of Bytes b \<Rightarrow> b | _ \<Rightarrow> [])"

definition content_type :: "'s response \<Rightarrow> string \<Rightarrow> 's response run" where
  "content_type r ct =
     bind_run (fields_insert True (resp_headers r) ''content-type'' ct) (\<lambda>h. Inr (r\<lparr>resp_headers := h\<rparr>))"

definition str_into_response :: "string \<Rightarrow> 's response run" where
  "str_into_response s =
     bind_run (content_type (response_new 200) ''text/plain; charset=utf-8'') (\<lambda>r. Inr (with_body r s))"

definition result_into_response ::
  "('t \<Rightarrow> 's response run) \<Rightarrow> ('e \<Rightarrow> 's response run) \<Rightarrow> 'e + 't \<Rightarrow> 's response run" where
  "result_into_response of_ok of_err r = (case r of Inr v \<Rightarrow> of_ok v | Inl e \<Rightarrow> of_err e)"

definition status_into_response :: "('t \<Rightarrow> 's response run) \<Rightarrow> status_code \<times> 't \<Rightarrow> 's response run" where
  "status_into_response conv p =
     bind_run (conv (snd p)) (\<lambda>r. Inr (r\<lparr>resp_status := fst p\<rparr>))"

datatype kernway_error = BadRequest string | Internal string | Layer string

fun show_error :: "kernway_error \<Rightarrow> string" where
  "show_error (BadRequest m) = ''bad request: '' @ m"
| "show_error (Internal m) = ''internal error: '' @ m"
| "show_error (Layer m) = ''layer error: '' @ m"

definition rejection_into_response :: "kernway_error \<Rightarrow> 's response run" where
  "rejection_into_response e =
     bind_run (content_type (response_new 400) ''text/plain'') (\<lambda>r. Inr (with_body r (show_error e)))"

section \<open>Lemmas\<close>


lemma has_token_append:
  "CHR '','' \<notin> set a \<Longrightarrow>
     has_token (a @ CHR '','' # b) t \<longleftrightarrow> eq_ignore_ascii_case (trim a) t \<or> has_token b t"
  by (simp add: has_token_def split_on_append)

end
