(* ===== verification/Http_Parser.thy ===== *)
theory Http_Parser
  imports Http_Message
begin

text \<open>
  \<open>kernway-http/src/parser.rs\<close>: the byte parser behind every connection. \<open>parse_bytes\<close> and
  \<open>parse_head\<close> decode the front of a buffer that may not hold a whole request yet. A failure is
  either one of the code's \<open>ParseError\<close> values or a panic of the field container, and the
  latter is shown to be impossible. The lemmas give the framing laws: a result does not depend
  on the bytes that follow it, no shorter prefix yields one, and what is buffered is bounded.
\<close>

section \<open>The model\<close>

datatype parse_error = Io | BadRequestLine string | TooLarge

datatype failure = ParseFailed parse_error | Panicked panic

definition lift_run :: "'a run \<Rightarrow> failure + 'a" where
  "lift_run r = map_sum Panicked id r"

definition MAX_HEAD_BYTES :: nat where
  "MAX_HEAD_BYTES = 8 * 1024"

definition MAX_BODY_BYTES :: nat where
  "MAX_BODY_BYTES = 10 * 1024 * 1024"

datatype parsed = Complete request nat | Incomplete

datatype parsed_head = HeadComplete request nat nat | HeadIncomplete

text \<open>The scan of \<open>find_head_end\<close>: the offset past the blank line, and the lines before it.\<close>

function head_end_loop :: "string \<Rightarrow> nat \<Rightarrow> nat \<Rightarrow> (nat \<times> nat) option" where
  "head_end_loop b pos lns =
     (case position (\<lambda>c. c = CHR 0x0A) (drop pos b) of
        None \<Rightarrow> None
      | Some off \<Rightarrow>
          if strip_cr (take off (drop pos b)) = [] then Some (pos + off + 1, lns)
          else head_end_loop b (pos + off + 1) (lns + 1))"
  by pat_completeness auto
termination
proof (relation "measure (\<lambda>(b, pos, lns). length b - pos)")
  fix b :: string and pos lns off :: nat
  assume "position (\<lambda>c. c = CHR 0x0A) (drop pos b) = Some off"
  then have "off < length (drop pos b)" by (blast dest: position_Some)
  then show "((b, pos + off + 1, lns + 1), b, pos, lns) \<in> measure (\<lambda>(b, pos, lns). length b - pos)"
    by simp
qed simp

declare head_end_loop.simps [simp del]

definition find_head_end :: "string \<Rightarrow> (nat \<times> nat) option" where
  "find_head_end b = head_end_loop b 0 0"

fun query_pair :: "fields \<Rightarrow> string \<Rightarrow> fields run" where
  "query_pair params pair =
     (if pair = [] then Inr params
      else let (key, val) = (case split_once (CHR ''='') pair of
                  Some (k, v) \<Rightarrow> (k, v) | None \<Rightarrow> (pair, []))
           in if key = [] then Inr params else fields_append False params key val)"

definition parse_query_string :: "string \<Rightarrow> fields run" where
  "parse_query_string query = fold_run query_pair fields_new (split_on (CHR ''&'') query)"

definition parse_request_line ::
  "string \<Rightarrow> failure + (string \<times> string \<times> fields \<times> http_version)" where
  "parse_request_line line =
     (case splitn 3 (CHR '' '') line of
        meth # full_path # rest \<Rightarrow>
          if meth = [] then Inl (ParseFailed (BadRequestLine line))
          else
            let (path, query_str) = (case split_once (CHR ''?'') full_path of
                   Some (p, q) \<Rightarrow> (p, q) | None \<Rightarrow> (full_path, []));
                version = (case rest of
                   [] \<Rightarrow> Http10
                 | v # _ \<Rightarrow> if trim v = ''HTTP/1.0'' then Http10 else Http11)
            in bind_run (lift_run (parse_query_string query_str)) (\<lambda>q.
                 Inr (map to_ascii_uppercase meth, path, q, version))
      | _ \<Rightarrow> Inl (ParseFailed (BadRequestLine line)))"

definition split_header :: "string \<Rightarrow> (string \<times> string) option" where
  "split_header line = map_option (\<lambda>(n, v). (trim n, trim v)) (split_once (CHR '':'') line)"

fun header_lines :: "fields \<Rightarrow> string list \<Rightarrow> fields run" where
  "header_lines hs [] = Inr hs"
| "header_lines hs (l # ls) =
     (let trimmed_line = trim l
      in if trimmed_line = [] then Inr hs
         else (case split_header trimmed_line of
                 Some (name, val) \<Rightarrow>
                   bind_run (fields_append True hs name val) (\<lambda>hs'. header_lines hs' ls)
               | None \<Rightarrow> header_lines hs ls))"

definition content_length_of :: "fields \<Rightarrow> nat" where
  "content_length_of hs =
     (case Option.bind (fields_get True hs ''content-length'') parse_u64 of
        None \<Rightarrow> 0 | Some n \<Rightarrow> n)"

definition decode_head :: "string \<Rightarrow> failure + (request \<times> nat)" where
  "decode_head head =
     (if \<not> utf8_valid head then Inl (ParseFailed (BadRequestLine ''head is not valid UTF-8''))
      else
        let ls = lines_of head; request_line = trim (case ls of [] \<Rightarrow> [] | l # _ \<Rightarrow> l)
        in bind_run (parse_request_line request_line) (\<lambda>(meth, path, query, version).
             bind_run (lift_run (header_lines fields_new (tl ls))) (\<lambda>hs.
               Inr (\<lparr>req_method = meth, req_path = path, req_version = version,
                     req_headers = hs, req_query = query, req_path_params = [],
                     req_body = [], req_body_spool = None, req_remote_addr = None\<rparr>,
                    content_length_of hs))))"

definition parse_head_inner :: "string \<Rightarrow> failure + (request \<times> nat \<times> nat) option" where
  "parse_head_inner b =
     (case find_head_end b of
        None \<Rightarrow>
          if length b > MAX_HEAD_BYTES then Inl (ParseFailed TooLarge) else Inr None
      | Some (head_end, line_count) \<Rightarrow>
          if head_end > MAX_HEAD_BYTES then Inl (ParseFailed TooLarge)
          else bind_run (decode_head (take head_end b)) (\<lambda>(req, len).
                 Inr (Some (req, head_end, len))))"

definition parse_bytes :: "string \<Rightarrow> failure + parsed" where
  "parse_bytes b =
     bind_run (parse_head_inner b) (\<lambda>r.
       case r of
         None \<Rightarrow> Inr Incomplete
       | Some (req, head_end, content_length) \<Rightarrow>
           if content_length > MAX_BODY_BYTES then Inl (ParseFailed TooLarge)
           else
             let total = head_end + content_length
             in if length b < total then Inr Incomplete
                else Inr (Complete (req\<lparr>req_body := take (total - head_end) (drop head_end b)\<rparr>) total))"

definition parse_head :: "string \<Rightarrow> failure + parsed_head" where
  "parse_head b =
     bind_run (parse_head_inner b) (\<lambda>r.
       case r of
         Some (req, head_end, content_length) \<Rightarrow> Inr (HeadComplete req head_end content_length)
       | None \<Rightarrow> Inr HeadIncomplete)"

lemma lift_run_Inr [simp]: "lift_run r = Inr x \<longleftrightarrow> r = Inr x"
  by (cases r) (simp_all add: lift_run_def)

section \<open>Where the head ends\<close>

lemma head_end_unfold:
  "position (\<lambda>c. c = CHR 0x0A) (drop pos b) = Some off \<Longrightarrow>
     head_end_loop b pos lns =
       (if strip_cr (take off (drop pos b)) = [] then Some (pos + off + 1, lns)
        else head_end_loop b (pos + off + 1) (lns + 1))"
  by (subst head_end_loop.simps) simp

lemma head_end_SomeE:
  assumes "head_end_loop b pos lns = Some r"
  obtains off where "position (\<lambda>c. c = CHR 0x0A) (drop pos b) = Some off" "pos + off < length b"
proof -
  from assms obtain off where off: "position (\<lambda>c. c = CHR 0x0A) (drop pos b) = Some off"
    by (subst (asm) head_end_loop.simps) (auto split: option.splits)
  then have "off < length (drop pos b)" by (auto dest: position_Some)
  with off that show thesis by simp
qed

lemma head_end_bounds: "head_end_loop b pos lns = Some (e, k) \<Longrightarrow> pos < e \<and> e \<le> length b"
proof (induction b pos lns rule: head_end_loop.induct)
  case (1 b pos lns)
  obtain off where off: "position (\<lambda>c. c = CHR 0x0A) (drop pos b) = Some off" "pos + off < length b"
    using head_end_SomeE [OF "1.prems"] by blast
  show ?case
  proof (cases "strip_cr (take off (drop pos b)) = []")
    case True
    with off "1.prems" show ?thesis by (simp add: head_end_unfold)
  next
    case False
    with off "1.prems" have "head_end_loop b (pos + off + 1) (lns + 1) = Some (e, k)"
      by (simp add: head_end_unfold)
    with "1.IH" [OF off(1) False] show ?thesis by simp
  qed
qed

lemma head_end_append:
  "head_end_loop b pos lns = Some r \<Longrightarrow> head_end_loop (b @ c) pos lns = Some r"
proof (induction b pos lns rule: head_end_loop.induct)
  case (1 b pos lns)
  obtain off where off: "position (\<lambda>c. c = CHR 0x0A) (drop pos b) = Some off" "pos + off < length b"
    using head_end_SomeE [OF "1.prems"] by blast
  then have app: "position (\<lambda>c. c = CHR 0x0A) (drop pos (b @ c)) = Some off"
    "take off (drop pos (b @ c)) = take off (drop pos b)"
    by (simp_all add: position_append)
  show ?case
  proof (cases "strip_cr (take off (drop pos b)) = []")
    case True
    with off "1.prems" app show ?thesis by (simp add: head_end_unfold)
  next
    case False
    with off "1.prems" have "head_end_loop b (pos + off + 1) (lns + 1) = Some r"
      by (simp add: head_end_unfold)
    with "1.IH" [OF off(1) False] have "head_end_loop (b @ c) (pos + off + 1) (lns + 1) = Some r" by simp
    with False app show ?thesis by (simp add: head_end_unfold del: drop_append take_append)
  qed
qed

lemma head_end_take:
  "head_end_loop b pos lns = Some (e, k) \<Longrightarrow> head_end_loop (take e b) pos lns = Some (e, k)"
proof (induction b pos lns rule: head_end_loop.induct)
  case (1 b pos lns)
  obtain off where off: "position (\<lambda>c. c = CHR 0x0A) (drop pos b) = Some off" "pos + off < length b"
    using head_end_SomeE [OF "1.prems"] by blast
  show ?case
  proof (cases "strip_cr (take off (drop pos b)) = []")
    case True
    with off "1.prems" have e: "e = pos + off + 1" "k = lns" by (simp_all add: head_end_unfold)
    have "position (\<lambda>c. c = CHR 0x0A) (drop pos (take e b)) = Some off"
      using off(1) e by (simp add: drop_take position_take)
    with True e show ?thesis by (simp add: head_end_unfold drop_take)
  next
    case False
    with off "1.prems" have rec: "head_end_loop b (pos + off + 1) (lns + 1) = Some (e, k)"
      by (simp add: head_end_unfold)
    with head_end_bounds have "pos + off + 1 < e" by blast
    then have "position (\<lambda>c. c = CHR 0x0A) (drop pos (take e b)) = Some off"
      "take off (drop pos (take e b)) = take off (drop pos b)"
      using off(1) by (simp_all add: drop_take position_take min_def)
    with False "1.IH" [OF off(1) False rec] show ?thesis by (simp add: head_end_unfold)
  qed
qed

lemma find_head_end_bounds: "find_head_end b = Some (e, k) \<Longrightarrow> 0 < e \<and> e \<le> length b"
  unfolding find_head_end_def by (rule head_end_bounds)

lemma find_head_end_take:
  assumes "find_head_end b = Some (e, k)"
  shows "find_head_end (take n b) = (if e \<le> n then Some (e, k) else None)"
proof (cases "e \<le> n")
  case True
  have "take n b = take e b @ drop e (take n b)"
    using True by (metis append_take_drop_id min.absorb1 take_take)
  with True assms head_end_take show ?thesis
    unfolding find_head_end_def by (metis head_end_append)
next
  case False
  have "find_head_end (take n b) = None"
  proof (rule ccontr)
    assume "find_head_end (take n b) \<noteq> None"
    then obtain e' k' where e': "find_head_end (take n b) = Some (e', k')" by auto
    then have "find_head_end (take n b @ drop n b) = Some (e', k')"
      unfolding find_head_end_def by (rule head_end_append)
    with assms e' find_head_end_bounds [OF e'] False show False by simp
  qed
  with False show ?thesis by simp
qed

lemma find_head_end_append: "find_head_end b = Some r \<Longrightarrow> find_head_end (b @ c) = Some r"
  unfolding find_head_end_def by (rule head_end_append)

section \<open>No panic, and well-formed results\<close>

lemma fields_append_step:
  "length (buf f) + length n + length v \<le> u32_max \<Longrightarrow>
     \<exists>g. fields_append ci f n v = Inr g \<and> length (buf g) = length (buf f) + length n + length v"
  by (simp add: fields_append_def fields_push_Inr)

lemma query_pair_step:
  "length (buf f) + length p \<le> u32_max \<Longrightarrow>
     \<exists>g. query_pair f p = Inr g \<and> length (buf g) \<le> length (buf f) + length p"
proof (cases "split_once (CHR ''='') p")
  case None
  assume "length (buf f) + length p \<le> u32_max"
  with None fields_append_step [of f p "[]" False] show ?thesis by auto
next
  case (Some kv)
  assume b: "length (buf f) + length p \<le> u32_max"
  obtain k v where kv: "kv = (k, v)" by (cases kv)
  then have "p = k @ CHR ''='' # v" using Some split_once_SomeD by blast
  with Some kv b fields_append_step [of f k v False] show ?thesis by auto
qed

lemma parse_query_total: "length q \<le> u32_max \<Longrightarrow> \<exists>g. parse_query_string q = Inr g"
proof -
  assume "length q \<le> u32_max"
  then have "length (buf fields_new) + sum_list (map length (split_on (CHR ''&'') q)) \<le> u32_max"
    using split_on_length [of "CHR ''&''" q] by (simp add: fields_new_def)
  from fold_run_total [where sz = "\<lambda>f. length (buf f)" and f = query_pair, OF query_pair_step this]
  show ?thesis by (auto simp: parse_query_string_def)
qed

lemma header_lines_total:
  "length (buf hs) + sum_list (map length ls) \<le> u32_max \<Longrightarrow> \<exists>g. header_lines hs ls = Inr g"
proof (induction ls arbitrary: hs)
  case (Cons l ls)
  show ?case
  proof (cases "split_header (trim l)")
    case None
    with Cons show ?thesis by (simp add: Let_def)
  next
    case (Some nv)
    obtain n v where nv: "nv = (n, v)" by (cases nv)
    with Some obtain a b where ab: "split_once (CHR '':'') (trim l) = Some (a, b)" "n = trim a" "v = trim b"
      by (auto simp: split_header_def)
    then have "length n + length v \<le> length l"
      using length_trim [of a] length_trim [of b] length_trim [of l]
      by (auto dest!: split_once_SomeD)
    with Cons.prems fields_append_step [of hs n v True] obtain g
      where g: "fields_append True hs n v = Inr g" "length (buf g) \<le> length (buf hs) + length l"
      by auto
    with Cons.prems have "length (buf g) + sum_list (map length ls) \<le> u32_max" by simp
    from Cons.IH [OF this] g Some nv show ?thesis by (simp add: Let_def)
  qed
qed simp

lemma sum_tl_le: "sum_list (map length (tl ls)) \<le> sum_list (map length ls)"
  by (cases ls) simp_all

lemma hd_le_sum: "length (case ls of [] \<Rightarrow> [] | l # _ \<Rightarrow> l) \<le> sum_list (map length ls)"
  by (cases ls) simp_all

lemma splitn3_length: "splitn 3 c s = a # b # r \<Longrightarrow> length b \<le> length s"
  by (auto simp: numeral_3_eq_3 split: option.splits dest!: split_once_SomeD)

lemma parse_request_line_no_panic:
  assumes "length line \<le> u32_max"
  shows "parse_request_line line \<noteq> Inl (Panicked p)"
proof (cases "splitn 3 (CHR '' '') line" rule: remdups_adj.cases)
  case (3 m fp r)
  then have "length fp \<le> u32_max" using splitn3_length [of "CHR '' ''" line m fp r] assms by simp
  then have "length (snd (case split_once (CHR ''?'') fp of Some (p, q) \<Rightarrow> (p, q) | None \<Rightarrow> (fp, []))) \<le> u32_max"
    by (auto split: option.splits dest!: split_once_SomeD)
  from parse_query_total [OF this] 3 show ?thesis
    by (auto simp: parse_request_line_def lift_run_def split: option.splits)
qed (simp_all add: parse_request_line_def)

lemma decode_head_no_panic:
  assumes "length h \<le> u32_max"
  shows "decode_head h \<noteq> Inl (Panicked p)"
proof -
  let ?ls = "lines_of h" and ?rl = "trim (case lines_of h of [] \<Rightarrow> [] | l # _ \<Rightarrow> l)"
  have ls: "sum_list (map length ?ls) \<le> length h"
    using lines_from_length [of "[]" h] by (simp add: lines_of_def)
  then have "length ?rl \<le> u32_max"
    using assms hd_le_sum [of ?ls] length_trim [of "case ?ls of [] \<Rightarrow> [] | l # _ \<Rightarrow> l"] by linarith
  then have rl: "parse_request_line ?rl \<noteq> Inl (Panicked p)"
    by (rule parse_request_line_no_panic)
  have "length (buf fields_new) + sum_list (map length (tl ?ls)) \<le> u32_max"
    using ls assms sum_tl_le [of ?ls] by (simp add: fields_new_def)
  then obtain hs where "header_lines fields_new (tl ?ls) = Inr hs"
    using header_lines_total by blast
  with rl show ?thesis
    by (auto simp: decode_head_def Let_def bind_run_Inl lift_run_def split: prod.splits)
qed

lemma parse_head_inner_no_panic: "parse_head_inner b \<noteq> Inl (Panicked p)"
proof -
  have "MAX_HEAD_BYTES \<le> u32_max" by (simp add: MAX_HEAD_BYTES_def u32_max_def)
  then have "e \<le> MAX_HEAD_BYTES \<Longrightarrow> decode_head (take e b) \<noteq> Inl (Panicked p)" for e
    by (intro decode_head_no_panic) simp
  then show ?thesis
    by (auto simp: parse_head_inner_def bind_run_Inl split: option.splits if_splits)
qed

lemma query_pair_ok:
  assumes "fields_ok False f" "utf8_valid p" "query_pair f p = Inr g"
  shows "fields_ok False g"
proof (cases "split_once (CHR ''='') p")
  case None
  with assms fs.append_law [of False f p "[]" g] show ?thesis by (auto split: if_splits)
next
  case (Some kv)
  obtain k v where kv: "kv = (k, v)" by (cases kv)
  with Some assms(2) have "utf8_valid k" "utf8_valid v"
    using utf8_valid_split_once [of "CHR ''=''" p k v] by auto
  with Some kv assms fs.append_law [of False f k v g] show ?thesis by (auto split: if_splits)
qed

lemma parse_query_ok:
  assumes "utf8_valid q" "parse_query_string q = Inr g"
  shows "fields_ok False g"
proof (rule fold_run_invariant [where P = "fields_ok False"])
  show "fold_run query_pair fields_new (split_on (CHR ''&'') q) = Inr g"
    using assms(2) by (simp add: parse_query_string_def)
  show "fields_ok False fields_new" by (rule fs.wf_empty)
  fix f p g
  assume "p \<in> set (split_on (CHR ''&'') q)" "fields_ok False f" "query_pair f p = Inr g"
  moreover from this(1) have "utf8_valid p"
    using utf8_valid_split_on [of "CHR ''&''" q p] assms(1) by simp
  ultimately show "fields_ok False g" using query_pair_ok by blast
qed

lemma header_lines_ok:
  "fields_ok True hs \<Longrightarrow> (\<And>l. l \<in> set ls \<Longrightarrow> utf8_valid l) \<Longrightarrow> header_lines hs ls = Inr g \<Longrightarrow>
     fields_ok True g"
proof (induction ls arbitrary: hs)
  case (Cons l ls)
  show ?case
  proof (cases "split_header (trim l)")
    case None
    with Cons show ?thesis by (auto simp: Let_def split: if_splits)
  next
    case (Some nv)
    obtain n v where nv: "nv = (n, v)" by (cases nv)
    have "utf8_valid (trim l)" using Cons.prems(2) utf8_valid_trim by simp
    with Some nv have v: "utf8_valid n" "utf8_valid v"
      using utf8_valid_split_once [of "CHR '':''" "trim l"] utf8_valid_trim
      by (auto simp: split_header_def)
    show ?thesis
    proof (cases "trim l = []")
      case False
      with Cons.prems(3) Some nv obtain h where h: "fields_append True hs n v = Inr h" "header_lines h ls = Inr g"
        by (auto simp: Let_def bind_run_Inr)
      with fs.append_law [OF Cons.prems(1) v h(1)] Cons show ?thesis by auto
    qed (use Cons.prems in simp)
  qed
qed simp

lemma splitn3_valid: "splitn 3 (CHR '' '') s = a # b # r \<Longrightarrow> utf8_valid s \<Longrightarrow> utf8_valid b"
  using utf8_valid_split_once [of "CHR '' ''"]
  by (auto simp: numeral_3_eq_3 split: option.splits)

lemma parse_request_line_ok:
  assumes "utf8_valid line" "parse_request_line line = Inr (m, p, q, v)"
  shows "fields_ok False q"
proof (cases "splitn 3 (CHR '' '') line" rule: remdups_adj.cases)
  case (3 a b r)
  then have "utf8_valid b" using assms(1) splitn3_valid by blast
  then have "utf8_valid (snd (case split_once (CHR ''?'') b of Some (p, q) \<Rightarrow> (p, q) | None \<Rightarrow> (b, [])))"
    using utf8_valid_split_once [of "CHR ''?''" b] by (auto split: option.splits)
  with assms(2) 3 parse_query_ok show ?thesis
    by (auto simp: parse_request_line_def Let_def bind_run_Inr split: if_splits prod.splits)
qed (use assms in \<open>simp_all add: parse_request_line_def\<close>)

lemma decode_head_ok:
  assumes "decode_head h = Inr (r, n)"
  shows "fields_ok True (req_headers r) \<and> fields_ok False (req_query r) \<and>
         n = content_length_of (req_headers r) \<and> req_body r = [] \<and> req_path_params r = []"
proof -
  let ?ls = "lines_of h" and ?rl = "trim (case lines_of h of [] \<Rightarrow> [] | l # _ \<Rightarrow> l)"
  from assms have v: "utf8_valid h" by (auto simp: decode_head_def split: if_splits)
  then have ls: "l \<in> set ?ls \<Longrightarrow> utf8_valid l" for l using utf8_valid_lines by blast
  have "utf8_valid (case ?ls of [] \<Rightarrow> [] | l # _ \<Rightarrow> l)" using ls by (cases ?ls) auto
  then have "utf8_valid ?rl" by (rule utf8_valid_trim)
  moreover have "l \<in> set (tl ?ls) \<Longrightarrow> utf8_valid l" for l
    using ls by (cases ?ls) auto
  ultimately show ?thesis
    using assms v parse_request_line_ok header_lines_ok [OF fs.wf_empty]
    by (fastforce simp: decode_head_def Let_def bind_run_Inr)
qed

section \<open>Framing\<close>

lemma parse_head_inner_Some:
  "parse_head_inner b = Inr (Some (r, e, n)) \<longleftrightarrow>
     (\<exists>k. find_head_end b = Some (e, k)) \<and> e \<le> MAX_HEAD_BYTES \<and> decode_head (take e b) = Inr (r, n)"
  by (auto simp: parse_head_inner_def bind_run_Inr split: option.splits if_splits)

lemma parse_head_inner_None:
  "parse_head_inner b = Inr None \<longleftrightarrow> find_head_end b = None \<and> length b \<le> MAX_HEAD_BYTES"
  by (auto simp: parse_head_inner_def bind_run_Inr split: option.splits if_splits)

lemma parse_head_inner_append:
  assumes "parse_head_inner b = Inr (Some (r, e, n))"
  shows "parse_head_inner (b @ c) = Inr (Some (r, e, n))"
proof -
  from assms obtain k where k: "find_head_end b = Some (e, k)" by (auto simp: parse_head_inner_Some)
  with find_head_end_bounds have "e \<le> length b" by blast
  with assms k show ?thesis by (auto simp: parse_head_inner_Some find_head_end_append)
qed

lemma parse_head_inner_take:
  assumes "parse_head_inner b = Inr (Some (r, e, n))"
  shows "parse_head_inner (take j b) = (if e \<le> j then Inr (Some (r, e, n)) else Inr None)"
proof -
  from assms obtain k where k: "find_head_end b = Some (e, k)" and e: "e \<le> MAX_HEAD_BYTES"
    and d: "decode_head (take e b) = Inr (r, n)" by (auto simp: parse_head_inner_Some)
  show ?thesis
  proof (cases "e \<le> j")
    case True
    with k e d have "parse_head_inner (take j b) = Inr (Some (r, e, n))"
      by (simp add: parse_head_inner_Some find_head_end_take min_def)
    with True show ?thesis by simp
  next
    case False
    with k e have "parse_head_inner (take j b) = Inr None"
      by (simp add: parse_head_inner_None find_head_end_take)
    with False show ?thesis by simp
  qed
qed

lemma head_result_cases:
  obtains (1) f where "x = Inl f" | (2) "x = Inr None" | (3) q e n where "x = Inr (Some (q, e, n))"
  by (metis not_Some_eq prod_cases3 sum.exhaust)

lemma parse_bytes_Complete:
  "parse_bytes b = Inr (Complete r t) \<longleftrightarrow>
     (\<exists>q e n. parse_head_inner b = Inr (Some (q, e, n)) \<and> n \<le> MAX_BODY_BYTES \<and> t = e + n \<and>
        t \<le> length b \<and> r = q\<lparr>req_body := take n (drop e b)\<rparr>)"
proof (cases "parse_head_inner b" rule: head_result_cases)
  case (3 q e n)
  then show ?thesis by (auto simp: parse_bytes_def Let_def)
qed (simp_all add: parse_bytes_def)

lemma parse_bytes_Incomplete:
  "parse_bytes b = Inr Incomplete \<longleftrightarrow>
     parse_head_inner b = Inr None \<or>
     (\<exists>q e n. parse_head_inner b = Inr (Some (q, e, n)) \<and> n \<le> MAX_BODY_BYTES \<and> length b < e + n)"
proof (cases "parse_head_inner b" rule: head_result_cases)
  case (3 q e n)
  then show ?thesis by (auto simp: parse_bytes_def Let_def)
qed (simp_all add: parse_bytes_def)

section \<open>Request text\<close>

text \<open>The text a client sends: CRLF-terminated lines and an empty line.\<close>

definition crlf :: string where
  "crlf = [CHR 0x0D, CHR 0x0A]"

definition head_text :: "string list \<Rightarrow> string" where
  "head_text ls = concat (map (\<lambda>l. l @ crlf) ls) @ crlf"

definition header_line :: "string \<times> string \<Rightarrow> string" where
  "header_line = (\<lambda>(n, v). n @ '': '' @ v)"

definition target_text :: "string \<Rightarrow> string option \<Rightarrow> string" where
  "target_text path query = path @ (case query of None \<Rightarrow> [] | Some q \<Rightarrow> CHR ''?'' # q)"

definition request_head ::
  "string \<Rightarrow> string \<Rightarrow> string option \<Rightarrow> http_version \<Rightarrow> (string \<times> string) list \<Rightarrow> string" where
  "request_head meth path query version hs =
     head_text ((meth @ '' '' @ target_text path query @ '' '' @ show_version version) # map header_line hs)"

definition token :: "string \<Rightarrow> bool" where
  "token s \<longleftrightarrow> s \<noteq> [] \<and> list_all graphic s"

definition field_value :: "string \<Rightarrow> bool" where
  "field_value v \<longleftrightarrow> utf8_valid v \<and> CHR 0x0A \<notin> set v \<and> (v \<noteq> [] \<longrightarrow> graphic (hd v) \<and> graphic (last v))"

definition field_pair :: "string \<times> string \<Rightarrow> bool" where
  "field_pair = (\<lambda>(n, v). token n \<and> CHR '':'' \<notin> set n \<and> field_value v)"

lemma graphic_facts: "graphic c \<Longrightarrow> ord c < 128 \<and> c \<noteq> CHR 0x0A \<and> c \<noteq> CHR '' ''"
  by (auto simp: graphic_def)

lemma token_facts:
  assumes "token s"
  shows "s \<noteq> []" "graphic (hd s)" "graphic (last s)" "is_ascii s" "CHR 0x0A \<notin> set s" "CHR '' '' \<notin> set s"
  using assms graphic_facts by (auto simp: token_def is_ascii_def list_all_iff)

lemma head_end_text:
  assumes "\<And>l. l \<in> set ls \<Longrightarrow> l \<noteq> [] \<and> CHR 0x0A \<notin> set l"
  shows "head_end_loop (p @ head_text ls @ rest) (length p) k =
           Some (length p + length (head_text ls), k + length ls)"
  using assms
proof (induction ls arbitrary: p k)
  case Nil
  have "position (\<lambda>c. c = CHR 0x0A) (drop (length p) (p @ crlf @ rest)) = Some 1"
    by (simp add: crlf_def)
  with head_end_unfold [OF this] show ?case
    using strip_cr_snoc [of "[]"] by (simp add: head_text_def crlf_def)
next
  case (Cons l ls)
  let ?b = "p @ head_text (l # ls) @ rest" and ?p = "p @ l @ crlf"
  have b: "?b = ?p @ head_text ls @ rest" by (simp add: head_text_def)
  have "position (\<lambda>c. c = CHR 0x0A) (l @ crlf @ head_text ls @ rest) = Some (length l + 1)"
    using Cons.prems by (subst position_append_None) (auto simp: position_None crlf_def)
  then have "position (\<lambda>c. c = CHR 0x0A) (drop (length p) ?b) = Some (length l + 1)"
    by (simp add: head_text_def)
  from head_end_unfold [OF this, of k] have
    "head_end_loop ?b (length p) k = head_end_loop ?b (length ?p) (k + 1)"
    using Cons.prems strip_cr_snoc [of l] by (simp add: head_text_def crlf_def)
  also have "\<dots> = Some (length ?p + length (head_text ls), k + 1 + length ls)"
    unfolding b using Cons.prems by (intro Cons.IH) auto
  finally show ?case by (simp add: head_text_def)
qed

lemma lines_of_head_text:
  assumes "\<And>l. l \<in> set ls \<Longrightarrow> CHR 0x0A \<notin> set l"
  shows "lines_of (head_text ls) = ls @ [[]]"
  using assms
proof (induction ls)
  case Nil
  show ?case using strip_cr_snoc [of "[]"] by (simp add: lines_of_def head_text_def crlf_def)
next
  case (Cons l ls)
  have "head_text (l # ls) = (l @ [CHR 0x0D]) @ CHR 0x0A # head_text ls"
    by (simp add: head_text_def crlf_def)
  with Cons show ?case
    using lines_from_line [of "l @ [CHR 0x0D]" "[]" "head_text ls"] by (simp add: lines_of_def)
qed

lemma utf8_valid_head_text:
  "(\<And>l. l \<in> set ls \<Longrightarrow> utf8_valid l) \<Longrightarrow> utf8_valid (head_text ls)"
proof (induction ls)
  case (Cons l ls)
  then show ?case by (simp add: head_text_def crlf_def utf8_valid_append utf8_valid_ascii)
qed (simp add: head_text_def crlf_def utf8_valid_ascii)

lemma header_line_parse:
  assumes "field_pair (n, v)"
  shows "trim (header_line (n, v)) \<noteq> [] \<and> split_header (trim (header_line (n, v))) = Some (n, v)"
proof -
  from assms have n: "token n" "CHR '':'' \<notin> set n" and v: "field_value v"
    by (simp_all add: field_pair_def)
  note t = token_facts [OF n(1)]
  have tn: "trim n = n" using t by (intro trim_trimmed trimmed_graphic)
  have tv: "trim v = v" using v 
    by (cases "v = []") (simp_all add: field_value_def trim_trimmed trimmed_graphic)
  show ?thesis
  proof (cases "v = []")
    case True
    have "trim ((n @ '':'') @ '' '') = n @ '':''"
      using t by (intro trim_trailing_space) (simp_all add: graphic_def)
    with True n(2) tn show ?thesis by (simp add: header_line_def split_header_def trim_trimmed)
  next
    case False
    then have "trim (n @ '': '' @ v) = n @ '': '' @ v"
      using t v by (intro trim_trimmed trimmed_graphic) (auto simp: field_value_def)
    with n(2) tn tv show ?thesis by (simp add: header_line_def split_header_def trim_space)
  qed
qed

lemma header_lines_text:
  assumes "\<And>h. h \<in> set hs \<Longrightarrow> field_pair h"
  shows "header_lines f (map header_line hs @ [[]]) = fold_run (\<lambda>f (n, v). fields_append True f n v) f hs"
  using assms
proof (induction hs arbitrary: f)
  case Nil
  show ?case by (simp add: trim_trimmed)
next
  case (Cons h hs)
  obtain n v where h: "h = (n, v)" by (cases h)
  with Cons.prems header_line_parse [of n v] Cons.IH show ?case by (simp add: Let_def)
qed

lemma show_version_facts:
  "trim (show_version Http10) = ''HTTP/1.0''" "trim (show_version Http11) = ''HTTP/1.1''"
  by code_simp+

lemma show_version_token: "token (show_version version)"
proof (cases version)
  case Http10
  show ?thesis unfolding Http10 by code_simp
next
  case Http11
  show ?thesis unfolding Http11 by code_simp
qed

lemma parse_request_line_text:
  assumes "token meth" "CHR ''?'' \<notin> set path" "token (target_text path query)"
  shows "parse_request_line (meth @ '' '' @ target_text path query @ '' '' @ show_version version) =
    bind_run (lift_run (parse_query_string (case query of None \<Rightarrow> [] | Some q \<Rightarrow> q))) (\<lambda>q.
      Inr (map to_ascii_uppercase meth, path, q, version))"
proof -
  have "splitn 3 (CHR '' '') (meth @ '' '' @ target_text path query @ '' '' @ show_version version) =
      [meth, target_text path query, show_version version]"
    using token_facts [OF assms(1)] token_facts [OF assms(3)] by (simp add: numeral_3_eq_3)
  moreover have "(case split_once (CHR ''?'') (target_text path query) of
      Some (p, q) \<Rightarrow> (p, q) | None \<Rightarrow> (target_text path query, [])) =
      (path, case query of None \<Rightarrow> [] | Some q \<Rightarrow> q)"
    using assms(2) by (cases query) (simp_all add: target_text_def)
  moreover have "(if trim (show_version version) = ''HTTP/1.0'' then Http10 else Http11) = version"
    by (cases version) (simp_all only: show_version_facts http_version.distinct, simp_all)
  ultimately show ?thesis
    using token_facts(1) [OF assms(1)] by (simp add: parse_request_line_def)
qed

lemma request_line_facts:
  fixes version :: http_version
  assumes "token meth" "token (target_text path query)"
  defines "l \<equiv> meth @ '' '' @ target_text path query @ '' '' @ show_version version"
  shows "l \<noteq> []" "CHR 0x0A \<notin> set l" "utf8_valid l" "trim l = l"
proof -
  note m = token_facts [OF assms(1)] and t = token_facts [OF assms(2)]
    and v = token_facts [OF show_version_token [of version]]
  show "l \<noteq> []" "CHR 0x0A \<notin> set l" using m t v by (auto simp: l_def)
  have "is_ascii l" using m t v by (auto simp: l_def is_ascii_def)
  then show "utf8_valid l" by (rule is_ascii_utf8_valid)
  show "trim l = l" using m v by (intro trim_trimmed trimmed_graphic) (auto simp: l_def)
qed

lemma header_line_facts:
  assumes "field_pair h"
  shows "header_line h \<noteq> []" "CHR 0x0A \<notin> set (header_line h)" "utf8_valid (header_line h)"
proof -
  obtain n v where h: "h = (n, v)" by (cases h)
  with assms have n: "token n" and v: "field_value v" by (simp_all add: field_pair_def)
  note t = token_facts [OF n]
  from h t v show "header_line h \<noteq> []" "CHR 0x0A \<notin> set (header_line h)"
    by (auto simp: header_line_def field_value_def)
  from h t v show "utf8_valid (header_line h)"
    by (simp add: header_line_def field_value_def utf8_valid_append utf8_valid_ascii is_ascii_utf8_valid)
qed

lemma decode_request_head:
  assumes "token meth" "CHR ''?'' \<notin> set path" "token (target_text path query)"
    and "\<And>h. h \<in> set hs \<Longrightarrow> field_pair h"
  shows "decode_head (request_head meth path query version hs) =
    bind_run (lift_run (parse_query_string (case query of None \<Rightarrow> [] | Some q \<Rightarrow> q))) (\<lambda>q.
      bind_run (lift_run (fold_run (\<lambda>f (n, v). fields_append True f n v) fields_new hs)) (\<lambda>f.
        Inr ((request_new (map to_ascii_uppercase meth) path)
               \<lparr>req_version := version, req_headers := f, req_query := q\<rparr>, content_length_of f)))"
proof -
  let ?l = "meth @ '' '' @ target_text path query @ '' '' @ show_version version"
  note l = request_line_facts [OF assms(1,3), of version]
  have hl: "x \<in> set (?l # map header_line hs) \<Longrightarrow> CHR 0x0A \<notin> set x \<and> utf8_valid x" for x
    using l assms(4) header_line_facts by auto
  have "utf8_valid (request_head meth path query version hs)"
    unfolding request_head_def using hl by (intro utf8_valid_head_text) blast
  moreover have "lines_of (request_head meth path query version hs) = (?l # map header_line hs) @ [[]]"
    unfolding request_head_def using hl by (intro lines_of_head_text) blast
  ultimately show ?thesis
    using parse_request_line_text [OF assms(1-3), of version] l(4) header_lines_text [OF assms(4), where f = fields_new]
    by (cases "parse_query_string (case query of None \<Rightarrow> [] | Some q \<Rightarrow> q)")
      (simp_all add: decode_head_def request_new_def lift_run_def)
qed

lemma find_head_end_request:
  assumes "token meth" "token (target_text path query)" "\<And>h. h \<in> set hs \<Longrightarrow> field_pair h"
  shows "find_head_end (request_head meth path query version hs @ rest) =
    Some (length (request_head meth path query version hs), length hs + 1)"
proof -
  let ?ls = "(meth @ '' '' @ target_text path query @ '' '' @ show_version version) # map header_line hs"
  have "l \<noteq> [] \<and> CHR 0x0A \<notin> set l" if "l \<in> set ?ls" for l
    using that request_line_facts [OF assms(1,2), of version] header_line_facts assms(3) by auto
  then have "head_end_loop ([] @ head_text ?ls @ rest) (length ([] :: string)) 0 =
      Some (length ([] :: string) + length (head_text ?ls), 0 + length ?ls)"
    by (rule head_end_text)
  then show ?thesis
    by (simp add: find_head_end_def request_head_def)
qed

text \<open>The body length that the headers announce: the last \<open>content-length\<close>, 0 when unreadable.\<close>

definition declared_length :: "(string \<times> string) list \<Rightarrow> nat" where
  "declared_length hs =
     (case find (\<lambda>(n, v). same_name True n ''content-length'') (rev hs) of
        None \<Rightarrow> 0
      | Some (n, v) \<Rightarrow> (case parse_u64 v of None \<Rightarrow> 0 | Some k \<Rightarrow> k))"

lemma appended_headers:
  assumes "\<And>h. h \<in> set hs \<Longrightarrow> field_pair h"
    and "fold_run (\<lambda>f (n, v). fields_append True f n v) fields_new hs = Inr f"
  shows "fields_iter f = map (\<lambda>(n, v). (stored_name True n, v)) hs" and "content_length_of f = declared_length hs"
proof -
  have "(n, v) \<in> set hs \<Longrightarrow> utf8_valid n \<and> utf8_valid v" for n v
    using assms(1) token_facts(4) by (fastforce simp: field_pair_def field_value_def intro: is_ascii_utf8_valid)
  from fs.append_all [OF fs.wf_empty this assms(2)]
  have f: "fields_ok True f" "fields_iter f = map (\<lambda>(n, v). (stored_name True n, v)) hs"
    by (auto simp: fs.pairs_empty)
  then show "fields_iter f = map (\<lambda>(n, v). (stored_name True n, v)) hs" by simp
  have "fields_get True f ''content-length'' = map_option snd (find (\<lambda>(n, v). same_name True n ''content-length'') (rev hs))"
    using f map_of_stored [of True "rev hs" "''content-length''"] by (simp add: fs.lookup_law rev_map)
  then show "content_length_of f = declared_length hs"
    by (auto simp: content_length_of_def declared_length_def split: option.splits)
qed

text \<open>A whole request, followed by anything.\<close>

lemma request_parsed:
  assumes tok: "token meth" "CHR ''?'' \<notin> set path" "token (target_text path query)"
    and hs: "\<And>h. h \<in> set hs \<Longrightarrow> field_pair h"
    and size: "length (request_head meth path query version hs) \<le> MAX_HEAD_BYTES"
      "declared_length hs = length body" "length body \<le> MAX_BODY_BYTES"
  shows "\<exists>r. parse_bytes (request_head meth path query version hs @ body @ rest) =
           Inr (Complete r (length (request_head meth path query version hs) + length body)) \<and>
         req_method r = map to_ascii_uppercase meth \<and> req_path r = path \<and> req_version r = version \<and>
         fields_iter (req_headers r) = map (\<lambda>(n, v). (map to_ascii_lowercase n, v)) hs \<and>
         req_body r = body"
proof -
  let ?h = "request_head meth path query version hs"
  have "length ?h \<le> u32_max" using size(1) by (simp add: MAX_HEAD_BYTES_def u32_max_def)
  then have np: "decode_head ?h \<noteq> Inl (Panicked p)" for p by (rule decode_head_no_panic)
  obtain q where q: "parse_query_string (case query of None \<Rightarrow> [] | Some q \<Rightarrow> q) = Inr q"
    using np decode_request_head [OF tok hs, where version = version]
    by (cases "parse_query_string (case query of None \<Rightarrow> [] | Some q \<Rightarrow> q)") (auto simp: lift_run_def)
  obtain f where f: "fold_run (\<lambda>f (n, v). fields_append True f n v) fields_new hs = Inr f"
    using np decode_request_head [OF tok hs, where version = version] q
    by (cases "fold_run (\<lambda>f (n, v). fields_append True f n v) fields_new hs") (auto simp: lift_run_def)
  let ?r = "(request_new (map to_ascii_uppercase meth) path)
              \<lparr>req_version := version, req_headers := f, req_query := q\<rparr>"
  have d: "decode_head ?h = Inr (?r, length body)"
    using decode_request_head [OF tok hs, where version = version] q f appended_headers [OF hs f] size(2)
    by (simp add: lift_run_def)
  have "parse_head_inner (?h @ body @ rest) = Inr (Some (?r, length ?h, length body))"
    using find_head_end_request [OF tok(1,3) hs] size(1) d by (simp add: parse_head_inner_Some)
  then have "parse_bytes (?h @ body @ rest) = Inr (Complete (?r\<lparr>req_body := body\<rparr>) (length ?h + length body))"
    using size(3) by (simp add: parse_bytes_Complete)
  then show ?thesis
    using appended_headers(1) [OF hs f] by (intro exI conjI) (assumption | simp add: request_new_def stored_name_def)+
qed

section \<open>Properties\<close>

text \<open>
  C1: framing of pipelined requests. When \<open>parse_bytes\<close> reports a request that consumed
  \<open>t\<close> bytes, the same bytes followed by anything yield the same request and the same count, and
  every shorter prefix yields \<open>Incomplete\<close>; so the split of a byte stream into requests does
  not depend on how the stream was cut into reads.
\<close>

theorem parse_bytes_framing:
  assumes "parse_bytes b = Inr (Complete r t)"
  shows "0 < t \<and> t \<le> length b \<and> (\<forall>c. parse_bytes (take t b @ c) = Inr (Complete r t)) \<and>
         (\<forall>j<t. parse_bytes (take j b) = Inr Incomplete)"
proof -
  from assms obtain q e n where h: "parse_head_inner b = Inr (Some (q, e, n))"
    and n: "n \<le> MAX_BODY_BYTES" and t: "t = e + n" "t \<le> length b"
    and r: "r = q\<lparr>req_body := take n (drop e b)\<rparr>"
    by (auto simp: parse_bytes_Complete)
  from h have "0 < e" using find_head_end_bounds by (auto simp: parse_head_inner_Some)
  moreover have "parse_bytes (take t b @ c) = Inr (Complete r t)" for c
  proof -
    have "parse_head_inner (take t b) = Inr (Some (q, e, n))"
      using parse_head_inner_take [OF h, of t] t by simp
    then have "parse_head_inner (take t b @ c) = Inr (Some (q, e, n))"
      by (rule parse_head_inner_append)
    moreover have "take n (drop e (take t b @ c)) = take n (drop e b)"
      using t by (simp add: drop_take)
    ultimately show ?thesis using n t r by (auto simp: parse_bytes_Complete)
  qed
  moreover have "parse_bytes (take j b) = Inr Incomplete" if "j < t" for j
    using parse_head_inner_take [OF h, of j] that n t
    by (cases "e \<le> j") (auto simp: parse_bytes_Incomplete)
  ultimately show ?thesis using t by simp
qed

theorem parse_bytes_framing_witness:
  "\<exists>r. parse_bytes (''GET /a HTTP/1.1'' @ [CHR 0x0A, CHR 0x0A] @ ''rest'') = Inr (Complete r 17) \<and>
     parse_bytes (take 16 (''GET /a HTTP/1.1'' @ [CHR 0x0A, CHR 0x0A] @ ''rest'')) = Inr Incomplete"
proof -
  let ?b = "''GET /a HTTP/1.1'' @ [CHR 0x0A, CHR 0x0A] @ ''rest''"
  let ?r = "\<lparr>req_method = ''GET'', req_path = ''/a'', req_version = Http11, req_headers = fields_new,
      req_query = fields_new, req_path_params = [], req_body = [], req_body_spool = None,
      req_remote_addr = None\<rparr>"
  have p: "parse_bytes ?b = Inr (Complete ?r 17)"
    by code_simp
  have "16 < (17 :: nat)" by simp
  with parse_bytes_framing [OF p] have "parse_bytes (take 16 ?b) = Inr Incomplete" by blast
  with p show ?thesis by blast
qed

text \<open>
  What the parser makes the connection hold is bounded, and it never panics: when more
  bytes are asked for, fewer than the head limit plus the body limit are buffered, and a
  completed request has a body of at most the body limit, taken from the bytes after the head.
\<close>

theorem parse_bytes_bounds:
  "parse_bytes b \<noteq> Inl (Panicked p) \<and>
   (parse_bytes b = Inr Incomplete \<longrightarrow> length b < MAX_HEAD_BYTES + MAX_BODY_BYTES + 1) \<and>
   (parse_bytes b = Inr (Complete r t) \<longrightarrow>
      length (req_body r) = content_length_of (req_headers r) \<and>
      length (req_body r) \<le> MAX_BODY_BYTES \<and> t \<le> MAX_HEAD_BYTES + MAX_BODY_BYTES \<and>
      fields_ok True (req_headers r) \<and> fields_ok False (req_query r))"
proof (intro conjI impI)
  show "parse_bytes b \<noteq> Inl (Panicked p)"
    using parse_head_inner_no_panic [of b p]
    by (auto simp: parse_bytes_def bind_run_Inl Let_def split: option.splits if_splits)
  show "parse_bytes b = Inr Incomplete \<Longrightarrow> length b < MAX_HEAD_BYTES + MAX_BODY_BYTES + 1"
    by (auto simp: parse_bytes_Incomplete parse_head_inner_None parse_head_inner_Some)
  assume c: "parse_bytes b = Inr (Complete r t)"
  then obtain q e n where h: "e \<le> MAX_HEAD_BYTES" "decode_head (take e b) = Inr (q, n)"
      "n \<le> MAX_BODY_BYTES" "t = e + n" "t \<le> length b" "r = q\<lparr>req_body := take n (drop e b)\<rparr>"
    by (auto simp: parse_bytes_Complete parse_head_inner_Some)
  from decode_head_ok [OF h(2)] h show "fields_ok True (req_headers r)" "fields_ok False (req_query r)"
    "length (req_body r) = content_length_of (req_headers r)" "length (req_body r) \<le> MAX_BODY_BYTES"
    "t \<le> MAX_HEAD_BYTES + MAX_BODY_BYTES"
    by auto
qed

theorem parse_bytes_bounds_witness:
  "parse_bytes ''GET'' = Inr Incomplete \<and> length ''GET'' < MAX_HEAD_BYTES + MAX_BODY_BYTES + 1"
proof -
  have i: "parse_bytes ''GET'' = Inr Incomplete" by code_simp
  show ?thesis using parse_bytes_bounds [of "''GET''"] i by blast
qed

text \<open>
  C2: a request written as RFC 9112 text, with any graphic method and target, any number of
  headers and a body of the announced length, is parsed back: the parser reports exactly the
  bytes of the request and returns its method in upper case, its path, version, headers in
  order with lower-case names, and its body, whatever follows in the buffer.
\<close>

theorem request_roundtrip:
  assumes tok: "token meth" "CHR ''?'' \<notin> set path" "token (target_text path query)"
    and hs: "\<And>h. h \<in> set hs \<Longrightarrow> field_pair h"
    and size: "length (request_head meth path query version hs) \<le> MAX_HEAD_BYTES"
      "declared_length hs = length body" "length body \<le> MAX_BODY_BYTES"
  shows "\<exists>r. parse_bytes (request_head meth path query version hs @ body @ rest) =
           Inr (Complete r (length (request_head meth path query version hs) + length body)) \<and>
         req_method r = map to_ascii_uppercase meth \<and> req_path r = path \<and> req_version r = version \<and>
         fields_iter (req_headers r) = map (\<lambda>(n, v). (map to_ascii_lowercase n, v)) hs \<and>
         req_body r = body"
  using assms by (rule request_parsed)

theorem request_roundtrip_witness:
  "\<exists>r. parse_bytes (request_head ''post'' ''/a'' (Some ''k=v'') Http10 [(''Content-Length'', ''2'')] @ ''ok'' @ ''GET'') =
         Inr (Complete r 45) \<and> req_method r = ''POST'' \<and> req_body r = ''ok''"
proof -
  let ?h = "request_head ''post'' ''/a'' (Some ''k=v'') Http10 [(''Content-Length'', ''2'')]"
  have 1: "token ''post''" "CHR ''?'' \<notin> set ''/a''" "token (target_text ''/a'' (Some ''k=v''))"
    by code_simp+
  have "field_pair (''Content-Length'', ''2'')" by code_simp
  then have 2: "h \<in> set [(''Content-Length'', ''2'')] \<Longrightarrow> field_pair h" for h by simp
  have 3: "length ?h \<le> MAX_HEAD_BYTES" "declared_length [(''Content-Length'', ''2'')] = length ''ok''"
    "length ''ok'' \<le> MAX_BODY_BYTES"
    by code_simp+
  have "length ?h + length ''ok'' = 45" "map to_ascii_uppercase ''post'' = ''POST''"
    by code_simp+
  with request_roundtrip [OF 1 2 3, where rest = "''GET''"] show ?thesis by metis
qed

end
