(* ===== verification/Http_Writer.thy ===== *)
theory Http_Writer
  imports Http_Parser
begin

text \<open>
  \<open>kernway-http/src/writer.rs\<close>: the response encoder. The reserved capacity is modelled because
  \<open>Vec::with_capacity\<close> panics when it is exceeded, and the decimal digits are produced by the
  code's own fixed-buffer loop, shown equal to the decimal text. The properties read the output
  back with the scanner of the request parser: one blank line ends the head, the body follows
  it, and the transport's two headers occur once each.
\<close>

section \<open>The model\<close>

datatype connection = Close | KeepAlive

definition header_value :: "connection \<Rightarrow> string" where
  "header_value c = (case c of Close \<Rightarrow> ''close'' | KeepAlive \<Rightarrow> ''keep-alive'')"

text \<open>The digits buffer: 20 bytes filled from the end; writing below index 0 would panic.\<close>

fun itoa_loop :: "string \<Rightarrow> nat \<Rightarrow> nat \<Rightarrow> (string \<times> nat) run" where
  "itoa_loop b start n =
     (if start = 0 then Inl SliceIndex
      else
        let b' = b[start - 1 := dec_char (n mod 10)]
        in if n div 10 = 0 then Inr (b', start - 1) else itoa_loop b' (start - 1) (n div 10))"

declare itoa_loop.simps [simp del]

definition itoa :: "nat \<Rightarrow> string run" where
  "itoa n = bind_run (itoa_loop (replicate 20 (CHR 0x00)) 20 n) (\<lambda>(b, start). Inr (drop start b))"

definition status_text :: "nat \<Rightarrow> string" where
  "status_text code =
     (if code = 200 then ''OK''
      else if code = 201 then ''Created''
      else if code = 204 then ''No Content''
      else if code = 206 then ''Partial Content''
      else if code = 304 then ''Not Modified''
      else if code = 400 then ''Bad Request''
      else if code = 401 then ''Unauthorized''
      else if code = 403 then ''Forbidden''
      else if code = 404 then ''Not Found''
      else if code = 405 then ''Method Not Allowed''
      else if code = 416 then ''Range Not Satisfiable''
      else if code = 422 then ''Unprocessable Entity''
      else if code = 429 then ''Too Many Requests''
      else if code = 500 then ''Internal Server Error''
      else if code = 503 then ''Service Unavailable''
      else ''Unknown'')"

definition head_estimate :: "'s response \<Rightarrow> nat" where
  "head_estimate r = 64 + fields_byte_len (resp_headers r) + fields_len (resp_headers r) * 4"

text \<open>\<open>Vec::<u8>::with_capacity\<close>.\<close>

definition with_capacity :: "nat \<Rightarrow> string run" where
  "with_capacity n = (if n < 2 ^ 63 then Inr [] else Inl CapacityOverflow)"

definition transport_header :: "string \<Rightarrow> bool" where
  "transport_header name \<longleftrightarrow>
     eq_ignore_ascii_case name ''connection'' \<or> eq_ignore_ascii_case name ''content-length''"

fun encode_headers :: "string \<Rightarrow> (string \<times> string) list \<Rightarrow> string" where
  "encode_headers out [] = out"
| "encode_headers out ((name, val) # hs) =
     (if transport_header name then encode_headers out hs
      else encode_headers (out @ name @ '': '' @ val @ crlf) hs)"

definition encode_head_into :: "string \<Rightarrow> 's response \<Rightarrow> connection \<Rightarrow> nat \<Rightarrow> string run" where
  "encode_head_into out r conn content_length =
     bind_run (itoa (resp_status r)) (\<lambda>st.
       let out1 = out @ ''HTTP/1.1 '' @ st @ '' '' @ status_text (resp_status r) @ crlf;
           out2 = encode_headers out1 (fields_iter (resp_headers r))
       in bind_run (itoa content_length) (\<lambda>len.
            Inr (out2 @ ''content-length: '' @ len @ crlf @ ''connection: '' @ header_value conn @ crlf @ crlf)))"

definition encode_head :: "'s response \<Rightarrow> connection \<Rightarrow> nat \<Rightarrow> string run" where
  "encode_head r conn content_length =
     bind_run (with_capacity (head_estimate r)) (\<lambda>out. encode_head_into out r conn content_length)"

definition encode_response_with :: "'s response \<Rightarrow> connection \<Rightarrow> string run" where
  "encode_response_with r conn =
     bind_run (with_capacity (wrapping_add64 (head_estimate r) (body_len (resp_body r)))) (\<lambda>out.
       bind_run (encode_head_into out r conn (body_len (resp_body r))) (\<lambda>out'.
         Inr (out' @ resp_body_bytes r)))"

definition encode_response :: "'s response \<Rightarrow> string run" where
  "encode_response r = encode_response_with r Close"

section \<open>Digits\<close>

lemma length_show_nat: "n < 10 ^ k \<Longrightarrow> 0 < k \<Longrightarrow> length (show_nat n) \<le> k"
proof (induction k arbitrary: n)
  case (Suc k)
  show ?case
  proof (cases "n < 10")
    case False
    with Suc.prems have "0 < k" by (cases k) simp_all
    moreover have "n div 10 < 10 ^ k" using Suc.prems by (simp add: less_mult_imp_div_less mult.commute)
    ultimately have "length (show_nat (n div 10)) \<le> k" using Suc.IH by blast
    with False show ?thesis by (simp add: show_nat.simps [of n])
  qed (simp add: show_nat.simps [of n])
qed simp

lemma itoa_loop_digits:
  "length (show_nat n) \<le> start \<Longrightarrow> start \<le> length b \<Longrightarrow>
     \<exists>b' s'. itoa_loop b start n = Inr (b', s') \<and> length b' = length b \<and>
       drop s' b' = show_nat n @ drop start b"
proof (induction start arbitrary: b n)
  case (Suc start)
  let ?b = "b[start := dec_char (n mod 10)]"
  have d: "drop start ?b = dec_char (n mod 10) # drop (Suc start) b"
    using Suc.prems(2) by (simp add: drop_update_swap Cons_nth_drop_Suc [symmetric])
  show ?case
  proof (cases "n < 10")
    case True
    with d show ?thesis by (simp add: itoa_loop.simps [of b "Suc start" n] show_nat.simps [of n])
  next
    case False
    then have "length (show_nat (n div 10)) \<le> start"
      using Suc.prems(1) by (simp add: show_nat.simps [of n])
    from Suc.IH [OF this, of ?b] Suc.prems(2) False d show ?thesis
      by (auto simp: itoa_loop.simps [of b "Suc start" n] show_nat.simps [of n] Let_def)
  qed
qed simp

lemma itoa_show_nat: "n \<le> u64_max \<Longrightarrow> itoa n = Inr (show_nat n)"
proof -
  assume "n \<le> u64_max"
  then have "n < 10 ^ 20" by (simp add: u64_max_def)
  then have "length (show_nat n) \<le> 20" by (rule length_show_nat) simp
  with itoa_loop_digits [of n 20 "replicate 20 (CHR 0x00)"] show ?thesis by (auto simp: itoa_def)
qed

section \<open>The encoded head as lines\<close>

definition visible :: "(string \<times> string) list \<Rightarrow> (string \<times> string) list" where
  "visible hs = filter (\<lambda>(n, v). \<not> transport_header n) hs"

definition status_line :: "nat \<Rightarrow> string" where
  "status_line code = ''HTTP/1.1 '' @ show_nat code @ '' '' @ status_text code"

definition response_lines :: "'s response \<Rightarrow> connection \<Rightarrow> nat \<Rightarrow> string list" where
  "response_lines r conn n =
     status_line (resp_status r) # map header_line (visible (fields_iter (resp_headers r))) @
       [header_line (''content-length'', show_nat n), header_line (''connection'', header_value conn)]"

lemma encode_headers_lines:
  "encode_headers out hs = out @ concat (map (\<lambda>l. l @ crlf) (map header_line (visible hs)))"
  by (induction out hs rule: encode_headers.induct) (simp_all add: visible_def header_line_def)

lemma encode_head_into_lines:
  assumes "resp_status r \<le> u64_max" "n \<le> u64_max"
  shows "encode_head_into out r conn n = Inr (out @ head_text (response_lines r conn n))"
  using assms
  by (simp add: encode_head_into_def itoa_show_nat encode_headers_lines response_lines_def head_text_def
      status_line_def header_line_def Let_def)

text \<open>A header that keeps to its line: a token name without a colon and a value without LF.\<close>

definition line_safe :: "string \<times> string \<Rightarrow> bool" where
  "line_safe = (\<lambda>(n, v). token n \<and> CHR '':'' \<notin> set n \<and> CHR 0x0A \<notin> set v)"

lemma status_text_facts: "CHR 0x0A \<notin> set (status_text c)" "CHR '':'' \<notin> set (status_text c)"
  by (simp_all add: status_text_def)

lemma status_line_facts: "CHR 0x0A \<notin> set (status_line c)" "CHR '':'' \<notin> set (status_line c)"
  using status_text_facts show_nat_absent [of "CHR 0x0A" c] show_nat_absent [of "CHR '':''" c]
  by (simp_all add: status_line_def)

lemma response_lines_no_lf:
  assumes "list_all line_safe (fields_iter (resp_headers r))"
    and "l \<in> set (response_lines r conn n)"
  shows "l \<noteq> [] \<and> CHR 0x0A \<notin> set l"
proof -
  have "CHR 0x0A \<notin> set (header_line h) \<and> header_line h \<noteq> []" if "line_safe h" for h
    using that token_facts(5) [of "fst h"] by (cases h) (auto simp: line_safe_def header_line_def)
  moreover have "status_line c \<noteq> []" for c by (simp add: status_line_def)
  moreover have "CHR 0x0A \<notin> set (header_line (''content-length'', show_nat n))"
    using show_nat_absent [of "CHR 0x0A" n] by (simp add: header_line_def)
  moreover have "CHR 0x0A \<notin> set (header_line (''connection'', header_value conn))"
    by (cases conn) (simp_all add: header_line_def header_value_def)
  moreover have "header_line h \<noteq> []" for h by (simp add: header_line_def split: prod.splits)
  ultimately show ?thesis
    using assms status_line_facts by (auto simp: response_lines_def visible_def list_all_iff)
qed

lemma split_header_line: "line_safe (n, v) \<Longrightarrow> map_option fst (split_header (header_line (n, v))) = Some n"
  using token_facts [of n]
  by (auto simp: line_safe_def header_line_def split_header_def intro: trim_trimmed trimmed_graphic)

text \<open>The lines of a head that name a given header.\<close>

definition lines_named :: "string \<Rightarrow> string list \<Rightarrow> string list" where
  "lines_named name ls =
     filter (\<lambda>l. case split_header l of None \<Rightarrow> False | Some (n, v) \<Rightarrow> eq_ignore_ascii_case n name) ls"

lemma lines_named_header:
  "line_safe (n, v) \<Longrightarrow>
     lines_named name (header_line (n, v) # ls) =
       (if eq_ignore_ascii_case n name then header_line (n, v) # lines_named name ls else lines_named name ls)"
  using split_header_line [of n v] by (auto simp: lines_named_def split: option.splits)

lemma lines_named_visible:
  assumes "list_all line_safe hs"
    and "name = ''connection'' \<or> name = ''content-length''"
  shows "lines_named name (map header_line (visible hs) @ ls) = lines_named name ls"
  using assms(1)
proof (induction hs)
  case (Cons h hs)
  obtain n v where h: "h = (n, v)" by (cases h)
  with Cons assms(2) show ?case
    by (auto simp: visible_def transport_header_def lines_named_header)
qed (simp add: visible_def)

lemma transport_safe:
  "line_safe (''content-length'', show_nat n)" "line_safe (''connection'', header_value conn)"
proof -
  have "token ''content-length''" "token ''connection''" by code_simp+
  then show "line_safe (''content-length'', show_nat n)" "line_safe (''connection'', header_value conn)"
    using show_nat_absent [of "CHR 0x0A" n]
    by (cases conn; simp add: line_safe_def header_value_def)+
qed

lemma transport_names_differ:
  "\<not> eq_ignore_ascii_case ''connection'' ''content-length''"
  "\<not> eq_ignore_ascii_case ''content-length'' ''connection''"
  by code_simp+

lemma lines_named_response:
  assumes "list_all line_safe (fields_iter (resp_headers r))"
  shows "lines_named ''content-length'' (response_lines r conn n) = [header_line (''content-length'', show_nat n)]"
    and "lines_named ''connection'' (response_lines r conn n) = [header_line (''connection'', header_value conn)]"
proof -
  have "lines_named name (status_line c # ls) = lines_named name ls" for name c ls
    using status_line_facts(2) [of c] by (simp add: lines_named_def split_header_def)
  moreover have "lines_named name [] = []" for name by (simp add: lines_named_def)
  ultimately show "lines_named ''content-length'' (response_lines r conn n) = [header_line (''content-length'', show_nat n)]"
    "lines_named ''connection'' (response_lines r conn n) = [header_line (''connection'', header_value conn)]"
    by (simp_all add: response_lines_def lines_named_visible [OF assms] lines_named_header transport_safe
        transport_names_differ)
qed

lemma find_head_end_response:
  assumes "list_all line_safe (fields_iter (resp_headers r))"
  shows "find_head_end (head_text (response_lines r conn n) @ rest) =
     Some (length (head_text (response_lines r conn n)), length (response_lines r conn n))"
proof -
  have "l \<noteq> [] \<and> CHR 0x0A \<notin> set l" if "l \<in> set (response_lines r conn n)" for l
    using assms that by (rule response_lines_no_lf)
  from head_end_text [OF this, where p = "[]" and k = 0] show ?thesis by (simp add: find_head_end_def)
qed

lemma encode_response_with_lines:
  assumes "resp_status r \<le> u64_max" "head_estimate r + body_len (resp_body r) < 2 ^ 63"
  shows "encode_response_with r conn =
    Inr (head_text (response_lines r conn (body_len (resp_body r))) @ resp_body_bytes r)"
proof -
  have "body_len (resp_body r) \<le> u64_max" using assms(2) by (simp add: u64_max_def)
  moreover have "wrapping_add64 (head_estimate r) (body_len (resp_body r)) = head_estimate r + body_len (resp_body r)"
    using assms(2) by (simp add: wrapping_add64_def)
  ultimately show ?thesis
    using assms by (simp add: encode_response_with_def with_capacity_def encode_head_into_lines)
qed

section \<open>Properties\<close>


definition forged_response :: "unit response run" where
  "forged_response =
     bind_run (fields_insert True fields_new ''Content-Length'' ''999'') (\<lambda>h.
       Inr (with_body (response_new 200) ''1234''\<lparr>resp_headers := h\<rparr>))"


text \<open>
  The encoder writes header values as they are, although the design document asks for every
  CR or LF in a header value to be rejected: there is a well-formed response whose encoding
  succeeds and whose head, as a reader frames it, ends inside the value of a header, so that
  what follows is read as the body or as a further message.
\<close>

theorem encode_response_splits:
  "\<exists>(r :: unit response) out e k. fields_ok True (resp_headers r) \<and> resp_body r = Empty \<and>
     encode_response r = Inr out \<and> find_head_end out = Some (e, k) \<and> e < length out"
proof -
  let ?crlf = "[CHR 0x0D, CHR 0x0A, CHR 0x0D, CHR 0x0A]"
  let ?f = "\<lparr>buf = ''location/'' @ ?crlf @ ''evil'', entries =
        [\<lparr>name_start = 0, name_end = 8, value_start = 8, value_end = 17\<rparr>]\<rparr>"
  let ?r = "\<lparr>resp_status = 200, resp_headers = ?f, resp_body = Empty\<rparr> :: unit response"
  have "fields_ok True ?f" by code_simp
  moreover have "encode_response ?r = Inr (head_text (response_lines ?r Close 0))"
    using encode_response_with_lines [of ?r Close]
    by (simp add: encode_response_def head_estimate_def fields_byte_len_def fields_len_def u64_max_def)
  moreover have "find_head_end (head_text (response_lines ?r Close 0)) = Some (32, 2)" by code_simp
  moreover have "32 < length (head_text (response_lines ?r Close 0))" by code_simp
  ultimately show ?thesis by (metis response.select_convs(2,3))
qed

end
