(* ===== verification/Router.thy ===== *)
theory Router
  imports Rust_Text Hash_Map
begin

text \<open>
  \<open>kernway-server/src/router.rs\<close>: the segment trie that maps a method and a path to a handler.
  A handler is an opaque value of type \<open>'h\<close>. The model follows the code: \<open>add\<close> descends and
  creates nodes, \<open>walk\<close> peels one segment per call and threads the map of bindings it mutates.
  The lemmas abstract a trie to the table of its routes and show that a lookup is a search of
  that table in the documented order of precedence.
\<close>

section \<open>The model\<close>

datatype 'h node =
  Node (statics: "(string, 'h node) hmap") (param: "(string \<times> 'h node) option")
    (handlers: "(string \<times> 'h) list")

definition empty_node :: "'h node" where
  "empty_node = Node [] None []"

definition handler_for :: "'h node \<Rightarrow> string \<Rightarrow> 'h option" where
  "handler_for n meth = map_option snd (find (\<lambda>(m, _). eq_ignore_ascii_case m meth) (handlers n))"

definition segments :: "string \<Rightarrow> string list" where
  "segments path = filter (\<lambda>s. s \<noteq> []) (split_on (CHR ''/'') path)"

definition placeholder :: "string \<Rightarrow> string option" where
  "placeholder segment = Option.bind (strip_prefix ''{'' segment) (strip_suffix ''}'')"

fun add_at :: "'h node \<Rightarrow> string list \<Rightarrow> string \<Rightarrow> 'h \<Rightarrow> 'h node" where
  "add_at (Node ss p hs) [] meth h = Node ss p (hs @ [(meth, h)])"
| "add_at (Node ss p hs) (seg # segs) meth h =
     (case placeholder seg of
        Some name \<Rightarrow>
          (let (n, child) = (case p of Some nc \<Rightarrow> nc | None \<Rightarrow> (name, empty_node))
           in Node ss (Some (n, add_at child segs meth h)) hs)
      | None \<Rightarrow>
          (let child = (case hm_get ss seg of Some c \<Rightarrow> c | None \<Rightarrow> empty_node)
           in Node (hm_insert ss seg (add_at child segs meth h)) p hs))"

definition add :: "(string \<Rightarrow> string) \<Rightarrow> 'h node \<Rightarrow> string \<Rightarrow> string \<Rightarrow> 'h \<Rightarrow> 'h node" where
  "add uni root meth pattern h = add_at root (segments pattern) (to_uppercase uni meth) h"

text \<open>\<open>find('/')\<close> and the two slices around it.\<close>

definition next_segment :: "string \<Rightarrow> string \<times> string" where
  "next_segment path =
     (case position (\<lambda>c. c = CHR ''/'') path of
        Some i \<Rightarrow> (take i path, drop (i + 1) path)
      | None \<Rightarrow> (path, []))"

lemma next_segment_shorter: "path \<noteq> [] \<Longrightarrow> length (snd (next_segment path)) < length path"
  by (auto simp: next_segment_def split: option.splits dest: position_Some)

lemma next_segment_measure:
  assumes "dropWhile P path \<noteq> []"
  shows "length (snd (next_segment (dropWhile P path))) < length path"
  using next_segment_shorter [OF assms] length_dropWhile_le [of P path] by linarith

function walk :: "'h node \<Rightarrow> string \<Rightarrow> string \<Rightarrow> (string, string) hmap \<Rightarrow> 'h option \<times> (string, string) hmap" where
  "walk node path0 meth params =
     (let path = dropWhile (\<lambda>c. c = CHR ''/'') path0
      in if path = [] then (handler_for node meth, params)
         else
           let seg = fst (next_segment path); rest = snd (next_segment path);
               (r1, params1) =
                 (case hm_get (statics node) seg of
                    Some child \<Rightarrow> walk child rest meth params
                  | None \<Rightarrow> (None, params))
           in (case r1 of
                 Some h \<Rightarrow> (Some h, params1)
               | None \<Rightarrow>
                   (case param node of
                      Some (name, child) \<Rightarrow>
                        (case walk child rest meth (hm_insert params1 name seg) of
                           (Some h, params2) \<Rightarrow> (Some h, params2)
                         | (None, params2) \<Rightarrow> (None, hm_remove params2 name))
                    | None \<Rightarrow> (None, params1))))"
  by pat_completeness auto
termination
  by (relation "measure (\<lambda>(n, path, m, ps). length path)") (auto simp: next_segment_measure)

declare walk.simps [simp del]

definition find_route :: "'h node \<Rightarrow> string \<Rightarrow> string \<Rightarrow> ('h \<times> (string, string) hmap) option" where
  "find_route root meth path =
     (case walk root path meth [] of
        (Some h, params) \<Rightarrow> Some (h, params)
      | (None, _) \<Rightarrow> None)"

section \<open>Lookup by segments\<close>

fun walk_segs ::
  "'h node \<Rightarrow> string list \<Rightarrow> string \<Rightarrow> (string, string) hmap \<Rightarrow> 'h option \<times> (string, string) hmap" where
  "walk_segs node [] meth params = (handler_for node meth, params)"
| "walk_segs node (seg # segs) meth params =
     (let (r1, params1) =
        (case hm_get (statics node) seg of
           Some child \<Rightarrow> walk_segs child segs meth params
         | None \<Rightarrow> (None, params))
      in (case r1 of
            Some h \<Rightarrow> (Some h, params1)
          | None \<Rightarrow>
              (case param node of
                 Some (name, child) \<Rightarrow>
                   (case walk_segs child segs meth (hm_insert params1 name seg) of
                      (Some h, params2) \<Rightarrow> (Some h, params2)
                    | (None, params2) \<Rightarrow> (None, hm_remove params2 name))
               | None \<Rightarrow> (None, params1))))"

lemma segments_slashes: "segments (dropWhile (\<lambda>c. c = CHR ''/'') path) = segments path"
  by (induction path) (auto simp: segments_def)

lemma segments_next:
  assumes "path \<noteq> []" "hd path \<noteq> CHR ''/''"
  shows "segments path = fst (next_segment path) # segments (snd (next_segment path))"
proof (cases "position (\<lambda>c. c = CHR ''/'') path")
  case None
  then have "CHR ''/'' \<notin> set path" by (auto simp: position_None)
  with assms None show ?thesis by (simp add: segments_def next_segment_def split_on_absent)
next
  case (Some i)
  then have i: "i < length path" "path ! i = CHR ''/''" "\<forall>j<i. path ! j \<noteq> CHR ''/''"
    by (auto dest: position_Some)
  then have "path = take i path @ CHR ''/'' # drop (i + 1) path"
    using id_take_nth_drop [OF i(1)] by simp
  moreover have "CHR ''/'' \<notin> set (take i path)" using i by (auto simp: in_set_conv_nth)
  ultimately have "split_on (CHR ''/'') path = take i path # split_on (CHR ''/'') (drop (i + 1) path)"
    by (metis split_on_append)
  moreover have "take i path \<noteq> []"
    using assms i by (cases i) (auto simp: hd_conv_nth)
  ultimately show ?thesis using Some by (simp add: segments_def next_segment_def)
qed

lemma walk_segments: "walk node path meth params = walk_segs node (segments path) meth params"
proof (induction "length path" arbitrary: node path params rule: less_induct)
  case less
  let ?p = "dropWhile (\<lambda>c. c = CHR ''/'') path"
  show ?case
  proof (cases "?p = []")
    case True
    then have "segments path = []" using segments_slashes [of path] unfolding True by (simp add: segments_def)
    with True show ?thesis by (subst walk.simps) simp
  next
    case False
    then have "hd ?p \<noteq> CHR ''/''" by (rule hd_dropWhile)
    with False have s: "segments path = fst (next_segment ?p) # segments (snd (next_segment ?p))"
      using segments_next segments_slashes by metis
    have "length (snd (next_segment ?p)) < length path"
      using False by (rule next_segment_measure)
    from less [OF this] False s show ?thesis by (subst walk.simps) (simp add: Let_def del: dropWhile_eq_Nil_conv cong: option.case_cong)
  qed
qed

section \<open>The routing table of a trie\<close>

text \<open>A pattern is a list of literals and holes; a trie holds a list of endpoints per pattern.\<close>

datatype seg_pat = Lit string | Hole

fun endpoints :: "'h node \<Rightarrow> seg_pat list \<Rightarrow> (string \<times> 'h) list" where
  "endpoints n [] = handlers n"
| "endpoints n (Lit s # q) = (case hm_get (statics n) s of Some c \<Rightarrow> endpoints c q | None \<Rightarrow> [])"
| "endpoints n (Hole # q) = (case param n of Some (_, c) \<Rightarrow> endpoints c q | None \<Rightarrow> [])"

definition pat_of :: "string \<Rightarrow> seg_pat" where
  "pat_of seg = (case placeholder seg of Some _ \<Rightarrow> Hole | None \<Rightarrow> Lit seg)"

definition pattern_of :: "string \<Rightarrow> seg_pat list" where
  "pattern_of pattern = map pat_of (segments pattern)"

inductive node_ok :: "'h node \<Rightarrow> bool" where
  node_okI: "hm_ok ss \<Longrightarrow> (\<And>k c. hm_get ss k = Some c \<Longrightarrow> node_ok c) \<Longrightarrow>
     (\<And>n c. p = Some (n, c) \<Longrightarrow> node_ok c) \<Longrightarrow> node_ok (Node ss p hs)"

inductive_cases node_okE: "node_ok (Node ss p hs)"

lemma node_ok_empty [simp]: "node_ok empty_node"
  by (auto simp: empty_node_def intro: node_okI)

lemma endpoints_empty [simp]: "endpoints empty_node q = []"
proof (cases q)
  case (Cons s q')
  then show ?thesis by (cases s) (simp_all add: empty_node_def)
qed (simp add: empty_node_def)

lemma add_at_ok: "node_ok n \<Longrightarrow> node_ok (add_at n segs meth h)"
proof (induction n segs meth h rule: add_at.induct)
  case (1 ss p hs meth h)
  then show ?case by (auto elim!: node_okE intro!: node_okI)
next
  case (2 ss p hs seg segs meth h)
  from "2.prems" have ss: "hm_ok ss" "\<And>k c. hm_get ss k = Some c \<Longrightarrow> node_ok c"
    and p: "\<And>n c. p = Some (n, c) \<Longrightarrow> node_ok c"
    by (auto elim: node_okE)
  show ?case
  proof (cases "placeholder seg")
    case None
    let ?c = "case hm_get ss seg of Some c \<Rightarrow> c | None \<Rightarrow> empty_node"
    have "node_ok ?c" using ss(2) by (auto split: option.splits)
    with "2.IH"(1) [OF None refl] have "node_ok (add_at ?c segs meth h)" by simp
    with None ss p show ?thesis by (auto simp: Let_def split: if_splits intro!: node_okI)
  next
    case (Some name)
    obtain n c where nc: "(case p of Some nc \<Rightarrow> nc | None \<Rightarrow> (name, empty_node)) = (n, c)"
      by (metis surj_pair)
    then have "node_ok c" using p by (auto split: option.splits)
    with "2.IH"(2) [OF Some refl nc [symmetric]] have "node_ok (add_at c segs meth h)" by simp
    with Some nc ss show ?thesis by (auto intro!: node_okI)
  qed
qed

lemma endpoints_add_at:
  "node_ok n \<Longrightarrow>
     endpoints (add_at n segs meth h) q =
       endpoints n q @ (if q = map pat_of segs then [(meth, h)] else [])"
proof (induction n segs meth h arbitrary: q rule: add_at.induct)
  case (1 ss p hs meth h)
  then show ?case by (cases "(Node ss p hs, q)" rule: endpoints.cases) auto
next
  case (2 ss p hs seg segs meth h)
  from "2.prems" have ss: "hm_ok ss" "\<And>k c. hm_get ss k = Some c \<Longrightarrow> node_ok c"
    and p: "\<And>n c. p = Some (n, c) \<Longrightarrow> node_ok c"
    by (auto elim: node_okE)
  show ?case
  proof (cases "placeholder seg")
    case None
    let ?c = "case hm_get ss seg of Some c \<Rightarrow> c | None \<Rightarrow> empty_node"
    have "node_ok ?c" using ss(2) by (auto split: option.splits)
    with "2.IH"(1) [OF None refl] have IH: "endpoints (add_at ?c segs meth h) q' =
        endpoints ?c q' @ (if q' = map pat_of segs then [(meth, h)] else [])" for q' by simp
    have pat: "pat_of seg = Lit seg" using None by (simp add: pat_of_def)
    show ?thesis
      using None ss(1) IH pat
      by (cases "(Node ss p hs, q)" rule: endpoints.cases) (auto simp: Let_def split: option.splits)
  next
    case (Some name)
    obtain n c where nc: "(case p of Some nc \<Rightarrow> nc | None \<Rightarrow> (name, empty_node)) = (n, c)"
      by (metis surj_pair)
    then have "node_ok c" using p by (auto split: option.splits)
    with "2.IH"(2) [OF Some refl nc [symmetric]] have IH: "endpoints (add_at c segs meth h) q' =
        endpoints c q' @ (if q' = map pat_of segs then [(meth, h)] else [])" for q' by simp
    have pat: "pat_of seg = Hole" using Some by (simp add: pat_of_def)
    show ?thesis
      using Some nc IH pat
      by (cases "(Node ss p hs, q)" rule: endpoints.cases) (auto split: option.splits)
  qed
qed

text \<open>A router built by registering routes in order.\<close>

type_synonym 'h route = "string \<times> string \<times> 'h"

definition build :: "(string \<Rightarrow> string) \<Rightarrow> 'h route list \<Rightarrow> 'h node" where
  "build uni rs = fold (\<lambda>(meth, pattern, h) n. add uni n meth pattern h) rs empty_node"

definition table :: "(string \<Rightarrow> string) \<Rightarrow> 'h route list \<Rightarrow> seg_pat list \<Rightarrow> (string \<times> 'h) list" where
  "table uni rs q =
     map (\<lambda>(meth, pattern, h). (to_uppercase uni meth, h)) (filter (\<lambda>(meth, pattern, h). pattern_of pattern = q) rs)"

lemma build_table: "node_ok (build uni rs) \<and> endpoints (build uni rs) q = table uni rs q"
proof (induction rs rule: rev_induct)
  case Nil
  show ?case by (simp add: build_def table_def)
next
  case (snoc r rs)
  obtain meth pattern h where r: "r = (meth, pattern, h)" by (cases r)
  then have "build uni (rs @ [r]) = add uni (build uni rs) meth pattern h" by (simp add: build_def)
  with snoc r show ?case
    by (simp add: add_def add_at_ok endpoints_add_at table_def pattern_of_def)
qed

section \<open>Order of precedence\<close>

text \<open>The patterns a path matches, most specific first: a literal beats a hole, leftmost decides.\<close>

fun candidates :: "string list \<Rightarrow> seg_pat list list" where
  "candidates [] = [[]]"
| "candidates (s # ss) = map (Cons (Lit s)) (candidates ss) @ map (Cons Hole) (candidates ss)"

definition first_for :: "string \<Rightarrow> (string \<times> 'h) list \<Rightarrow> 'h option" where
  "first_for meth es = map_option snd (find (\<lambda>(m, _). eq_ignore_ascii_case m meth) es)"

lemma find_map_map: "find_map f (map g xs) = find_map (\<lambda>x. f (g x)) xs"
  by (induction xs) (auto split: option.splits)

lemma walk_segs_candidates:
  "fst (walk_segs n segs meth params) = find_map (\<lambda>q. first_for meth (endpoints n q)) (candidates segs)"
proof (induction segs arbitrary: n params)
  case Nil
  show ?case by (simp add: handler_for_def first_for_def split: option.splits)
next
  case (Cons s segs)
  have none: "find_map (\<lambda>q. first_for meth ([] :: (string \<times> 'a) list)) xs = None" for xs :: "seg_pat list list"
    by (simp add: find_map_None first_for_def)
  obtain r1 params1 where r1: "(case hm_get (statics n) s of
      Some child \<Rightarrow> walk_segs child segs meth params | None \<Rightarrow> (None, params)) = (r1, params1)"
    by (metis surj_pair)
  then have "r1 = find_map (\<lambda>q. first_for meth (endpoints n (Lit s # q))) (candidates segs)"
    using Cons.IH none by (auto split: option.splits dest!: arg_cong [where f = fst])
  moreover have "find_map (\<lambda>q. first_for meth (endpoints n (Hole # q))) (candidates segs) =
      (case param n of None \<Rightarrow> None | Some (name, c) \<Rightarrow> fst (walk_segs c segs meth (hm_insert params1 name s)))"
    using Cons.IH none by (auto split: option.splits)
  ultimately show ?case
    using r1 by (auto simp: find_map_append find_map_map split: option.splits prod.splits)
qed

section \<open>Bindings\<close>

text \<open>The names on the way down to a pattern, and what the walk binds there.\<close>

fun binds :: "'h node \<Rightarrow> seg_pat list \<Rightarrow> string list \<Rightarrow> (string \<times> string) list" where
  "binds n (Lit s # q) (v # vs) = (case hm_get (statics n) s of Some c \<Rightarrow> binds c q vs | None \<Rightarrow> [])"
| "binds n (Hole # q) (v # vs) = (case param n of Some (name, c) \<Rightarrow> (name, v) # binds c q vs | None \<Rightarrow> [])"
| "binds n _ _ = []"

text \<open>No name occurs twice on a way down the trie, nor in \<open>seen\<close>.\<close>

fun names_fresh :: "string list \<Rightarrow> 'h node \<Rightarrow> bool" where
  "names_fresh seen (Node ss p hs) \<longleftrightarrow>
     list_all (\<lambda>kc. names_fresh seen (snd kc)) ss \<and>
     (case p of None \<Rightarrow> True | Some nc \<Rightarrow> fst nc \<notin> set seen \<and> names_fresh (fst nc # seen) (snd nc))"

lemma names_fresh_static: "names_fresh seen n \<Longrightarrow> hm_get (statics n) k = Some c \<Longrightarrow> names_fresh seen c"
  by (cases n) (fastforce simp: list_all_iff hm_get_def dest: map_of_SomeD)

lemma names_fresh_param:
  "names_fresh seen n \<Longrightarrow> param n = Some (name, c) \<Longrightarrow> name \<notin> set seen \<and> names_fresh (name # seen) c"
  by (cases n) simp

lemma hm_insert_fresh: "k \<notin> fst ` set m \<Longrightarrow> hm_insert m k v = m @ [(k, v)]"
  unfolding hm_insert_def by (induction m) auto

lemma hm_remove_fresh: "k \<notin> fst ` set m \<Longrightarrow> hm_remove (m @ [(k, v)]) k = m"
  unfolding hm_remove_def by (induction m) auto

lemma find_append: "find P (xs @ ys) = (case find P xs of Some x \<Rightarrow> Some x | None \<Rightarrow> find P ys)"
  by (induction xs) auto

lemma find_map_Cons: "find P (map f xs) = map_option f (find (\<lambda>x. P (f x)) xs)"
  by (induction xs) auto

text \<open>The endpoint a path reaches: the first candidate pattern that has the method.\<close>

definition chosen :: "string \<Rightarrow> (seg_pat list \<Rightarrow> (string \<times> 'h) list) \<Rightarrow> string list \<Rightarrow> seg_pat list option" where
  "chosen meth tab segs = find (\<lambda>q. first_for meth (tab q) \<noteq> None) (candidates segs)"

lemma chosen_Cons:
  "chosen meth tab (s # segs) =
     (case chosen meth (\<lambda>q. tab (Lit s # q)) segs of
        Some q \<Rightarrow> Some (Lit s # q)
      | None \<Rightarrow> map_option (Cons Hole) (chosen meth (\<lambda>q. tab (Hole # q)) segs))"
  by (simp add: chosen_def find_append find_map_Cons split: option.splits)

lemma chosen_empty: "chosen meth (\<lambda>q. []) segs = None"
  by (simp add: chosen_def first_for_def find_None_iff)

lemma walk_segs_chosen:
  "names_fresh seen n \<Longrightarrow> fst ` set params \<subseteq> set seen \<Longrightarrow>
     walk_segs n segs meth params =
       (case chosen meth (endpoints n) segs of
          None \<Rightarrow> (None, params)
        | Some q \<Rightarrow> (first_for meth (endpoints n q), params @ binds n q segs))"
proof (induction segs arbitrary: n seen params)
  case Nil
  show ?case by (cases "find (\<lambda>(m, _). eq_ignore_ascii_case m meth) (handlers n)")
    (simp_all add: chosen_def handler_for_def first_for_def)
next
  case (Cons s segs)
  let ?L = "chosen meth (\<lambda>q. endpoints n (Lit s # q)) segs"
  let ?H = "chosen meth (\<lambda>q. endpoints n (Hole # q)) segs"
  have lit: "(case hm_get (statics n) s of
      Some child \<Rightarrow> walk_segs child segs meth params | None \<Rightarrow> (None, params)) =
    (case ?L of None \<Rightarrow> (None, params)
     | Some q \<Rightarrow> (first_for meth (endpoints n (Lit s # q)), params @ binds n (Lit s # q) (s # segs)))"
    using Cons.IH [OF names_fresh_static [OF Cons.prems(1)] Cons.prems(2)]
    by (cases "hm_get (statics n) s") (simp_all add: chosen_empty cong: option.case_cong)
  have some: "chosen meth tab segs = Some q \<Longrightarrow> \<exists>h. first_for meth (tab q) = Some h" for tab q
    by (auto simp: chosen_def find_Some_iff)
  show ?case
  proof (cases ?L)
    case (Some q)
    then obtain h where "first_for meth (endpoints n (Lit s # q)) = Some h" using some by blast
    with Some lit show ?thesis by (simp add: chosen_Cons)
  next
    case None
    show ?thesis
    proof (cases "param n")
      case pn: None
      then show ?thesis using None lit by (simp add: chosen_Cons chosen_empty)
    next
      case (Some nc)
      obtain name c where nc: "nc = (name, c)" by (cases nc)
      with Some names_fresh_param [OF Cons.prems(1)]
      have f: "name \<notin> set seen" "names_fresh (name # seen) c" by auto
      with Cons.prems(2) have fr: "name \<notin> fst ` set params" by blast
      have "fst ` set (params @ [(name, s)]) \<subseteq> set (name # seen)" using Cons.prems(2) by auto
      note IH = Cons.IH [OF f(2) this]
      have H: "?H = chosen meth (endpoints c) segs" using Some nc by simp
      show ?thesis
      proof (cases ?H)
        case hn: None
        then show ?thesis
          using None lit Some nc IH H fr by (simp add: chosen_Cons hm_insert_fresh hm_remove_fresh)
      next
        case hs: (Some q)
        then obtain h where "first_for meth (endpoints n (Hole # q)) = Some h" using some by blast
        then show ?thesis
          using None lit Some nc IH H hs fr by (simp add: chosen_Cons hm_insert_fresh)
      qed
    qed
  qed
qed

lemma binds_values:
  "endpoints n q \<noteq> [] \<Longrightarrow> length q = length segs \<Longrightarrow>
     map snd (binds n q segs) = map snd (filter (\<lambda>(p, s). p = Hole) (zip q segs))"
  by (induction n q segs rule: binds.induct) (auto split: option.splits)

lemma binds_names:
  "names_fresh seen n \<Longrightarrow>
     distinct (map fst (binds n q segs)) \<and> set (map fst (binds n q segs)) \<inter> set seen = {}"
proof (induction n q segs arbitrary: seen rule: binds.induct)
  case (1 n s q v vs)
  then show ?case by (auto split: option.splits dest: names_fresh_static)
next
  case (2 n q v vs)
  show ?case
  proof (cases "param n")
    case (Some nc)
    obtain name c where nc: "nc = (name, c)" by (cases nc)
    with Some names_fresh_param [OF "2.prems"]
    have f: "name \<notin> set seen" "names_fresh (name # seen) c" by auto
    from "2.IH" [OF Some nc [symmetric] f(2)] Some nc f(1) show ?thesis by auto
  qed simp
qed simp_all

text \<open>When a path matches a pattern, and which of two matching patterns is more specific.\<close>

definition matches :: "seg_pat list \<Rightarrow> string list \<Rightarrow> bool" where
  "matches q segs \<longleftrightarrow> list_all2 (\<lambda>p s. p = Hole \<or> p = Lit s) q segs"

fun beats :: "seg_pat list \<Rightarrow> seg_pat list \<Rightarrow> bool" where
  "beats (x # q) (y # q') = (if x = y then beats q q' else y = Hole)"
| "beats q q' = True"

lemma candidates_matches: "q \<in> set (candidates segs) \<longleftrightarrow> matches q segs"
proof (induction segs arbitrary: q)
  case (Cons s segs)
  then show ?case by (cases q) (auto simp: matches_def)
qed (auto simp: matches_def)

lemma chosen_Some:
  "chosen meth tab segs = Some q \<Longrightarrow> matches q segs \<and> first_for meth (tab q) \<noteq> None"
  using candidates_matches [of q segs] by (auto simp: chosen_def find_Some_iff)

lemma chosen_None:
  "chosen meth tab segs = None \<longleftrightarrow> (\<forall>q. matches q segs \<longrightarrow> first_for meth (tab q) = None)"
  using candidates_matches by (auto simp: chosen_def find_None_iff)

lemma chosen_beats:
  "chosen meth tab segs = Some q \<Longrightarrow> matches q' segs \<Longrightarrow> first_for meth (tab q') \<noteq> None \<Longrightarrow> beats q q'"
proof (induction segs arbitrary: tab q q')
  case Nil
  then show ?case by (simp add: matches_def)
next
  case (Cons s segs)
  from Cons.prems(2) obtain y q'' where q': "q' = y # q''" "y = Hole \<or> y = Lit s" "matches q'' segs"
    by (cases q') (auto simp: matches_def)
  show ?case
  proof (cases "chosen meth (\<lambda>q. tab (Lit s # q)) segs")
    case None
    with Cons.prems q' have "y = Hole" by (auto simp: chosen_None)
    with None Cons q' show ?thesis by (auto simp: chosen_Cons)
  next
    case (Some r)
    with Cons q' show ?thesis by (auto simp: chosen_Cons)
  qed
qed

lemma find_map_find: "find_map f xs = Option.bind (find (\<lambda>x. f x \<noteq> None) xs) f"
  by (induction xs) auto

lemma find_route_handler:
  "map_option fst (find_route (build uni rs) meth path) =
     Option.bind (chosen meth (table uni rs) (segments path)) (\<lambda>q. first_for meth (table uni rs q))"
proof -
  have "map_option fst (find_route n meth path) = fst (walk n path meth [])" for n :: "'a node"
    by (auto simp: find_route_def split: prod.splits option.splits)
  then show ?thesis
    by (simp add: walk_segments walk_segs_candidates find_map_find chosen_def build_table)
qed

lemma first_for_None: "first_for meth es = None \<longleftrightarrow> (\<forall>(m, h)\<in>set es. \<not> eq_ignore_ascii_case m meth)"
  by (auto simp: first_for_def find_None_iff)

lemma table_first_None:
  "first_for meth (table uni rs q) = None \<longleftrightarrow>
     (\<forall>(m, pattern, h)\<in>set rs. pattern_of pattern = q \<longrightarrow> \<not> eq_ignore_ascii_case (to_uppercase uni m) meth)"
  by (auto simp: first_for_None table_def)

section \<open>Properties\<close>

text \<open>
  C4: a lookup answers with the documented route. If the router finds a handler, some pattern
  matches the path, the handler is the first one registered for that pattern and the method, and
  every other registered pattern that matches the path for the method is less specific: at the
  first segment where the two differ it has a parameter where the chosen one has a literal. If
  the router finds nothing, no registered route has that method and matches the path. Neither
  answer depends on the order in which different patterns were registered.
\<close>

theorem router_find:
  "case find_route (build uni rs) meth path of
     Some (h, params) \<Rightarrow>
       \<exists>q. matches q (segments path) \<and> first_for meth (table uni rs q) = Some h \<and>
         (\<forall>q'. matches q' (segments path) \<and> first_for meth (table uni rs q') \<noteq> None \<longrightarrow> beats q q')
   | None \<Rightarrow>
       \<forall>(m, pattern, h)\<in>set rs.
         matches (pattern_of pattern) (segments path) \<longrightarrow> \<not> eq_ignore_ascii_case (to_uppercase uni m) meth"
proof (cases "chosen meth (table uni rs) (segments path)")
  case None
  then have "find_route (build uni rs) meth path = None"
    using find_route_handler [of uni rs meth path] by simp
  with None show ?thesis by (auto simp: chosen_None table_first_None)
next
  case (Some q)
  then obtain h where "first_for meth (table uni rs q) = Some h" using chosen_Some by blast
  with Some obtain ps where "find_route (build uni rs) meth path = Some (h, ps)"
    using find_route_handler [of uni rs meth path] by auto
  with Some chosen_Some [OF Some] chosen_beats [OF Some] \<open>first_for meth _ = Some h\<close> show ?thesis by auto
qed

definition sample_routes :: "nat route list" where
  "sample_routes =
     [(''get'', ''/users/{id}'', 1), (''GET'', ''/users/me'', 2), (''GET'', ''/a/b/c'', 3), (''GET'', ''/a/{x}/d'', 4)]"

lemma sample_lookup: "find_route (build id sample_routes) ''GET'' ''/users/me'' = Some (2, [])"
  by code_simp

theorem router_find_witness:
  "\<exists>q. matches q (segments ''/users/me'') \<and> first_for ''GET'' (table id sample_routes q) = Some 2 \<and>
     (\<forall>q'. matches q' (segments ''/users/me'') \<and> first_for ''GET'' (table id sample_routes q') \<noteq> None \<longrightarrow> beats q q')"
  using router_find [where uni = id and rs = sample_routes and meth = "''GET''" and path = "''/users/me''"] by (simp only: sample_lookup option.case prod.case)

text \<open>
  When no parameter name occurs twice on a way down the trie, a lookup that finds a handler
  returns one binding per parameter segment of the matched pattern, in order, with the matching
  path segments as values and distinct names, and a walk that finds nothing leaves the bindings
  exactly as it found them, which is the invariant the backtracking relies on.
\<close>

theorem router_bindings:
  assumes "names_fresh seen n" "fst ` set params \<subseteq> set seen"
  shows "case walk n path meth params of
      (None, params') \<Rightarrow> params' = params
    | (Some h, params') \<Rightarrow> \<exists>q bs. chosen meth (endpoints n) (segments path) = Some q \<and>
        params' = params @ bs \<and> distinct (map fst bs) \<and> set (map fst bs) \<inter> set seen = {} \<and>
        map snd bs = map snd (filter (\<lambda>(p, s). p = Hole) (zip q (segments path)))"
proof (cases "chosen meth (endpoints n) (segments path)")
  case None
  with walk_segs_chosen [OF assms, of "segments path" meth] show ?thesis by (simp add: walk_segments)
next
  case (Some q)
  then obtain h where h: "first_for meth (endpoints n q) = Some h" using chosen_Some by blast
  then have "endpoints n q \<noteq> []" by (auto simp: first_for_def)
  moreover have "length q = length (segments path)"
    using chosen_Some [OF Some] by (auto simp: matches_def dest: list_all2_lengthD)
  ultimately have "map snd (binds n q (segments path)) =
      map snd (filter (\<lambda>(p, s). p = Hole) (zip q (segments path)))"
    by (rule binds_values)
  with Some h walk_segs_chosen [OF assms, of "segments path" meth] binds_names [OF assms(1), of q "segments path"]
  show ?thesis by (simp add: walk_segments)
qed

lemma sample_fresh: "names_fresh [] (build id sample_routes)"
  by code_simp

theorem router_bindings_witness:
  "walk (build id sample_routes) ''/users/42'' ''GET'' [] = (Some 1, [(''id'', ''42'')]) \<and>
   map snd [(''id'', ''42'')] = map snd (filter (\<lambda>(p, s). p = Hole)
     (zip (the (chosen ''GET'' (endpoints (build id sample_routes)) (segments ''/users/42''))) (segments ''/users/42'')))"
proof -
  have w: "walk (build id sample_routes) ''/users/42'' ''GET'' [] = (Some 1, [(''id'', ''42'')])"
    by code_simp
  with router_bindings [OF sample_fresh, where params = "[]" and path = "''/users/42''" and meth = "''GET''"] show ?thesis by auto
qed

text \<open>
  The invariant fails when a name repeats on a way down. With the routes
  \<open>/{id}/s/{id}/z\<close> and \<open>/{id}/{x}/{y}/q\<close>, the path \<open>/A/s/B/q\<close> first tries the static \<open>s\<close>
  branch, whose inner \<open>{id}\<close> overwrites the outer binding; backtracking then removes the name
  instead of restoring its value, and the second route is answered without any \<open>id\<close>.
\<close>

theorem router_backtrack_loses_binding:
  "\<exists>h params. find_route (build id [(''GET'', ''/{id}/s/{id}/z'', 1 :: nat), (''GET'', ''/{id}/{x}/{y}/q'', 2)])
      ''GET'' ''/A/s/B/q'' = Some (h, params) \<and> h = 2 \<and> hm_get params ''id'' = None \<and>
      hm_get params ''x'' = Some ''s'' \<and> hm_get params ''y'' = Some ''B''"
proof -
  have "find_route (build id [(''GET'', ''/{id}/s/{id}/z'', 1 :: nat), (''GET'', ''/{id}/{x}/{y}/q'', 2)])
      ''GET'' ''/A/s/B/q'' = Some (2, [(''x'', ''s''), (''y'', ''B'')])"
    by code_simp
  then show ?thesis by (simp add: hm_get_def)
qed

end
