(* ===== verification/Resp.thy ===== *)
theory Resp
  imports Rust_Text
begin

text \<open>
  \<open>kernway-redis/src/resp.rs\<close> and \<open>error.rs\<close>: the RESP2 codec of the Redis client. The size of a
  \<open>Value\<close> in memory is the argument \<open>vsz\<close>, since \<open>Vec::with_capacity\<close> panics when the array
  count times that size exceeds \<open>isize::MAX\<close>. Offsets are natural numbers: the buffer and the
  announced length are each below \<open>2 ^ 63\<close>, so their sum does not wrap. The lemmas show that a
  verdict on a buffer is final whatever bytes follow, and that no proper prefix of a reply is
  taken for a reply.
\<close>

section \<open>The model\<close>

datatype resp_value = NilV | Simple string | IntV int | Bulk string | Array "resp_value list"

datatype redis_error =
    Io | Server string | Protocol string | Unexpected string resp_value | Closed | Panic panic

definition as_bulk :: "resp_value \<Rightarrow> string option" where
  "as_bulk v = (case v of Bulk b \<Rightarrow> Some b | _ \<Rightarrow> None)"

definition as_int_value :: "resp_value \<Rightarrow> int option" where
  "as_int_value v = (case v of IntV n \<Rightarrow> Some n | _ \<Rightarrow> None)"

definition CRLF :: string where
  "CRLF = [CHR 0x0D, CHR 0x0A]"

fun encode_args :: "string list \<Rightarrow> string \<Rightarrow> string" where
  "encode_args [] out = out"
| "encode_args (arg # args) out =
     encode_args args (out @ ''$'' @ show_nat (length arg) @ CRLF @ arg @ CRLF)"

definition encode :: "string list \<Rightarrow> string \<Rightarrow> string" where
  "encode args out = encode_args args (out @ ''*'' @ show_nat (length args) @ CRLF)"

text \<open>\<open>windows(2).position(|w| w == b"\r\n")\<close>.\<close>

fun find_crlf :: "string \<Rightarrow> nat option" where
  "find_crlf (x # y # b) =
     (if x = CHR 0x0D \<and> y = CHR 0x0A then Some 0 else map_option Suc (find_crlf (y # b)))"
| "find_crlf _ = None"

definition as_str :: "string \<Rightarrow> redis_error + string" where
  "as_str b = (if utf8_valid b then Inr b else Inl (Protocol ''reply is not UTF-8''))"

definition as_int :: "string \<Rightarrow> redis_error + int" where
  "as_int b =
     bind_run (as_str b) (\<lambda>s.
       case parse_i64 s of
         Some n \<Rightarrow> Inr n
       | None \<Rightarrow> Inl (Protocol ''reply is not an integer''))"

text \<open>\<open>{other:#x}\<close> on a byte.\<close>

definition low_hex :: "nat \<Rightarrow> char" where
  "low_hex d = (if d < 10 then char_of (48 + d) else char_of (87 + d))"

definition show_byte_hex :: "nat \<Rightarrow> string" where
  "show_byte_hex n = ''0x'' @ (if n < 16 then [low_hex n] else [low_hex (n div 16), low_hex (n mod 16)])"

lemma find_crlf_bound: "find_crlf b = Some i \<Longrightarrow> i + 2 \<le> length b"
  by (induction b arbitrary: i rule: find_crlf.induct) (auto split: if_splits)

function parse :: "nat \<Rightarrow> string \<Rightarrow> redis_error + (resp_value \<times> nat) option"
  and parse_items :: "nat \<Rightarrow> string \<Rightarrow> nat \<Rightarrow> nat \<Rightarrow> resp_value list \<Rightarrow> redis_error + (resp_value \<times> nat) option" where
  "parse vsz b =
     (case find_crlf b of
        None \<Rightarrow> Inr None
      | Some crlf \<Rightarrow>
          if crlf < 1 then Inl (Panic SliceIndex)
          else
            let line = take (crlf - 1) (drop 1 b); after = crlf + 2; t = b ! 0
            in if t = CHR ''+'' then bind_run (as_str line) (\<lambda>s. Inr (Some (Simple s, after)))
               else if t = CHR ''-'' then bind_run (as_str line) (\<lambda>s. Inl (Server s))
               else if t = CHR '':'' then bind_run (as_int line) (\<lambda>n. Inr (Some (IntV n, after)))
               else if t = CHR ''$'' then
                 bind_run (as_int line) (\<lambda>len.
                   if len < 0 then Inr (Some (NilV, after))
                   else
                     let end = after + nat len
                     in if length b < end + 2 then Inr None
                        else Inr (Some (Bulk (take (end - after) (drop after b)), end + 2)))
               else if t = CHR ''*'' then
                 (case as_int line of
                    Inl e \<Rightarrow> Inl e
                  | Inr count \<Rightarrow>
                      if count < 0 then Inr (Some (NilV, after))
                      else if nat count * vsz \<ge> 2 ^ 63 then Inl (Panic CapacityOverflow)
                      else parse_items vsz b after (nat count) [])
               else Inl (Protocol (''unknown reply type byte '' @ show_byte_hex (ord t))))"
| "parse_items vsz b off n items =
     (if n = 0 then Inr (Some (Array items, off))
      else if length b < off then Inl (Panic SliceIndex)
      else
        (case parse vsz (drop off b) of
           Inl e \<Rightarrow> Inl e
         | Inr None \<Rightarrow> Inr None
         | Inr (Some (val, used)) \<Rightarrow> parse_items vsz b (off + used) (n - 1) (items @ [val])))"
  by pat_completeness auto
termination
proof (relation "inv_image (less_than <*lex*> less_than)
    (\<lambda>x. case x of Inl (vsz, b) \<Rightarrow> (2 * length b, 0)
                 | Inr (vsz, b, off, n, items) \<Rightarrow> (2 * (length b - off) + 1, n))", goal_cases)
  case (2 vsz b crlf)
  then show ?case using find_crlf_bound [of b crlf] by simp
qed auto

declare parse.simps [simp del] parse_items.simps [simp del]

section \<open>A reference printer\<close>

fun show_value :: "resp_value \<Rightarrow> string" where
  "show_value NilV = ''$-1'' @ CRLF"
| "show_value (Simple s) = ''+'' @ s @ CRLF"
| "show_value (IntV i) = '':'' @ show_int i @ CRLF"
| "show_value (Bulk b) = ''$'' @ show_nat (length b) @ CRLF @ b @ CRLF"
| "show_value (Array vs) = ''*'' @ show_nat (length vs) @ CRLF @ concat (map show_value vs)"

text \<open>The values that have a RESP2 text: one-line simple strings, 64-bit integers, counts in range.\<close>

fun value_ok :: "nat \<Rightarrow> resp_value \<Rightarrow> bool" where
  "value_ok vsz NilV = True"
| "value_ok vsz (Simple s) = (utf8_valid s \<and> CHR 0x0D \<notin> set s)"
| "value_ok vsz (IntV i) = (- (2 ^ 63) \<le> i \<and> i < 2 ^ 63)"
| "value_ok vsz (Bulk b) = (length b < 2 ^ 63)"
| "value_ok vsz (Array vs) = (length vs * vsz < 2 ^ 63 \<and> length vs < 2 ^ 63 \<and> list_all (value_ok vsz) vs)"

lemma encode_args_out: "encode_args args out = out @ concat (map (\<lambda>a. show_value (Bulk a)) args)"
  by (induction args out rule: encode_args.induct) simp_all

lemma encode_show: "encode args out = out @ show_value (Array (map Bulk args))"
  by (simp add: encode_def encode_args_out comp_def)

lemma find_crlf_line: "CHR 0x0D \<notin> set l \<Longrightarrow> find_crlf (l @ CRLF @ r) = Some (length l)"
proof (induction l)
  case (Cons x l)
  then show ?case by (cases "l @ CRLF @ r") (auto simp: CRLF_def)
qed (simp add: CRLF_def)

lemma show_int_no_cr: "CHR 0x0D \<notin> set (show_int i)"
  using show_nat_absent [of "CHR 0x0D"] by (simp add: show_int_def)

lemma show_nat_ascii: "is_ascii (show_nat n)"
  using show_nat_digits by (fastforce simp: is_ascii_def list_all_iff)

lemma parse_i64_show_int: "- (2 ^ 63) \<le> i \<Longrightarrow> i < 2 ^ 63 \<Longrightarrow> parse_i64 (show_int i) = Some i"
proof (cases "i < 0")
  case True
  assume "- (2 ^ 63) \<le> i"
  then have "nat (- i) \<le> 2 ^ 63" by (simp add: nat_le_iff)
  from parse_digits_show [OF this] True show ?thesis by (simp add: show_int_def parse_i64_def)
next
  case False
  assume "i < 2 ^ 63"
  with False have "nat i < 2 ^ 63" by (simp add: nat_less_iff)
  from parse_i64_show [OF this] False show ?thesis by (simp add: show_int_def)
qed

lemma as_int_show_int: "- (2 ^ 63) \<le> i \<Longrightarrow> i < 2 ^ 63 \<Longrightarrow> as_int (show_int i) = Inr i"
proof -
  assume i: "- (2 ^ 63) \<le> i" "i < 2 ^ 63"
  have "is_ascii (show_int i)" using show_nat_ascii by (simp add: show_int_def is_ascii_def)
  with i show ?thesis by (simp add: as_int_def as_str_def is_ascii_utf8_valid parse_i64_show_int)
qed

lemma as_int_show_nat: "n < 2 ^ 63 \<Longrightarrow> as_int (show_nat n) = Inr (int n)"
proof -
  assume "n < 2 ^ 63"
  then have "int n < 2 ^ 63" by simp
  with as_int_show_int [of "int n"] show ?thesis by (simp add: show_int_def)
qed

text \<open>A reply line: type byte, content, CRLF.\<close>

lemma parse_line:
  assumes "CHR 0x0D \<notin> set l" "t \<noteq> CHR 0x0D"
  shows "find_crlf (t # l @ CRLF @ r) = Some (length l + 1)"
    and "take (length l + 1 - 1) (drop 1 (t # l @ CRLF @ r)) = l"
  using find_crlf_line [of "t # l" r] assms by simp_all

lemma parse_Simple:
  "CHR 0x0D \<notin> set s \<Longrightarrow> utf8_valid s \<Longrightarrow> parse vsz (''+'' @ s @ CRLF @ r) = Inr (Some (Simple s, length s + 3))"
  using parse_line [of s "CHR ''+''" r] by (simp add: parse.simps as_str_def)

lemma parse_Int:
  "- (2 ^ 63) \<le> i \<Longrightarrow> i < 2 ^ 63 \<Longrightarrow>
     parse vsz ('':'' @ show_int i @ CRLF @ r) = Inr (Some (IntV i, length (show_int i) + 3))"
  using parse_line [OF show_int_no_cr, of "CHR '':''" i r] by (simp add: parse.simps as_int_show_int)

lemma parse_Bulk:
  assumes "length b < 2 ^ 63"
  shows "parse vsz (''$'' @ show_nat (length b) @ CRLF @ b @ CRLF @ r) =
    Inr (Some (Bulk b, length (show_nat (length b)) + 5 + length b))"
  using parse_line [of "show_nat (length b)" "CHR ''$''" "b @ CRLF @ r"] show_nat_absent [of "CHR 0x0D"]
    as_int_show_nat [OF assms]
  by (simp add: parse.simps CRLF_def Let_def)

lemma parse_Nil: "parse vsz (''$-1'' @ CRLF @ r) = Inr (Some (NilV, 5))"
proof -
  have "as_int ''-1'' = Inr (- 1)" by code_simp
  then show ?thesis using parse_line [of "''-1''" "CHR ''$''" r] by (simp add: parse.simps Let_def)
qed

lemma parse_Array:
  assumes "n < 2 ^ 63" "n * vsz < 2 ^ 63"
  shows "parse vsz (''*'' @ show_nat n @ CRLF @ r) =
    parse_items vsz (''*'' @ show_nat n @ CRLF @ r) (length (show_nat n) + 3) n []"
  using parse_line [of "show_nat n" "CHR ''*''" r] show_nat_absent [of "CHR 0x0D"]
    as_int_show_nat [OF assms(1)] assms(2)
  by (simp add: parse.simps Let_def numeral_3_eq_3)

lemma parse_items_show:
  assumes "\<And>v r. v \<in> set vs \<Longrightarrow> parse vsz (show_value v @ r) = Inr (Some (v, length (show_value v)))"
  shows "parse_items vsz (p @ concat (map show_value vs) @ r) (length p) (length vs) acc =
    Inr (Some (Array (acc @ vs), length p + length (concat (map show_value vs))))"
  using assms
proof (induction vs arbitrary: p acc)
  case (Cons v vs)
  let ?b = "p @ concat (map show_value (v # vs)) @ r"
  have "parse vsz (drop (length p) ?b) = Inr (Some (v, length (show_value v)))"
    using Cons.prems [of v] by simp
  then have "parse_items vsz ?b (length p) (length (v # vs)) acc =
      parse_items vsz ((p @ show_value v) @ concat (map show_value vs) @ r) (length (p @ show_value v)) (length vs) (acc @ [v])"
    by (subst parse_items.simps) simp
  with Cons.IH [of "p @ show_value v" "acc @ [v]"] Cons.prems show ?case by simp
qed (simp add: parse_items.simps)

lemma parse_show: "value_ok vsz v \<Longrightarrow> parse vsz (show_value v @ r) = Inr (Some (v, length (show_value v)))"
proof (induction v arbitrary: r)
  case NilV
  show ?case using parse_Nil [of vsz r] by (simp add: CRLF_def)
next
  case (Simple s)
  then show ?case using parse_Simple [of s vsz r] by (simp add: CRLF_def)
next
  case (IntV i)
  then show ?case using parse_Int [of i vsz r] by (simp add: CRLF_def)
next
  case (Bulk b)
  then show ?case using parse_Bulk [of b vsz r] by (simp add: CRLF_def)
next
  case (Array vs)
  let ?h = "''*'' @ show_nat (length vs) @ CRLF"
  have "parse vsz (?h @ concat (map show_value vs) @ r) =
      parse_items vsz (?h @ concat (map show_value vs) @ r) (length ?h) (length vs) []"
    using Array.prems parse_Array [of "length vs" vsz "concat (map show_value vs) @ r"] by (simp add: CRLF_def numeral_3_eq_3)
  also have "\<dots> = Inr (Some (Array ([] @ vs), length ?h + length (concat (map show_value vs))))"
    using Array by (intro parse_items_show) (auto simp: list_all_iff)
  finally show ?case by simp
qed

section \<open>Verdicts are final\<close>

lemma find_crlf_append: "find_crlf b = Some i \<Longrightarrow> find_crlf (b @ c) = Some i"
  by (induction b arbitrary: i rule: find_crlf.induct) (auto split: if_splits)

lemma find_crlf_take: "find_crlf b = Some i \<Longrightarrow> find_crlf (take n b) = (if i + 2 \<le> n then Some i else None)"
proof (induction b arbitrary: i n rule: find_crlf.induct)
  case (1 x y b)
  show ?case
  proof (cases n)
    case (Suc m)
    show ?thesis
    proof (cases m)
      case (Suc k)
      show ?thesis
      proof (cases "x = CHR 0x0D \<and> y = CHR 0x0A")
        case False
        with "1.prems" obtain j where j: "find_crlf (y # b) = Some j" "i = Suc j" by auto
        from "1.IH" [OF False j(1), of m] \<open>m = Suc k\<close>
        have "find_crlf (y # take k b) = (if j + 2 \<le> m then Some j else None)" by simp
        with False j \<open>n = Suc m\<close> Suc show ?thesis by auto
      qed (use "1.prems" \<open>n = Suc m\<close> Suc in auto)
    qed (use \<open>n = Suc m\<close> in simp)
  qed simp
qed simp_all

lemma parse_items_Inr:
  assumes "0 < n" "parse_items vsz b off n items = Inr (Some r)"
  obtains v used where "off \<le> length b" "parse vsz (drop off b) = Inr (Some (v, used))"
    "parse_items vsz b (off + used) (n - 1) (items @ [v]) = Inr (Some r)"
  using assms by (subst (asm) parse_items.simps) (auto split: if_splits sum.splits option.splits)

lemma as_str_Inl: "as_str l = Inl e \<Longrightarrow> \<exists>m. e = Protocol m"
  by (auto simp: as_str_def split: if_splits)

lemma parse_used:
  "parse vsz b = Inr (Some (v, n)) \<Longrightarrow> 0 < n \<and> n \<le> length b"
  "off \<le> length b \<Longrightarrow> parse_items vsz b off m items = Inr (Some (v, n)) \<Longrightarrow> off \<le> n \<and> n \<le> length b"
proof (induction vsz b and vsz b off m items arbitrary: v n and v n rule: parse_parse_items.induct)
  case (1 vsz b)
  then obtain i where i: "find_crlf b = Some i" "1 \<le> i"
    by (subst (asm) parse.simps) (auto split: option.splits if_splits)
  note l = find_crlf_bound [OF i(1)]
  show ?case
  proof (cases "b ! 0 = CHR ''*''")
    case True
    with "1.prems" i obtain count where c: "as_int (take (i - 1) (drop 1 b)) = Inr count"
      "count < 0 \<and> n = i + 2 \<or> \<not> count < 0 \<and> \<not> nat count * vsz \<ge> 2 ^ 63 \<and>
        parse_items vsz b (i + 2) (nat count) [] = Inr (Some (v, n))"
      by (subst (asm) parse.simps) (auto simp: Let_def split: sum.splits if_splits)
    then show ?thesis
    proof (elim disjE conjE)
      assume p: "\<not> count < 0" "\<not> nat count * vsz \<ge> 2 ^ 63" "parse_items vsz b (i + 2) (nat count) [] = Inr (Some (v, n))"
      have "i + 2 \<le> n \<and> n \<le> length b"
        using i True c(1) p l by (intro "1.IH" [OF i(1) _ refl refl refl]) auto
      then show ?thesis by simp
    qed (use l in simp)
  next
    case False
    with "1.prems" i l show ?thesis
      by (subst (asm) parse.simps) (auto simp: Let_def bind_run_Inr split: if_splits)
  qed
next
  case (2 vsz b off m items)
  show ?case
  proof (cases "m = 0")
    case True
    with 2 show ?thesis by (subst (asm) parse_items.simps) auto
  next
    case False
    then obtain w used where s: "off \<le> length b" "parse vsz (drop off b) = Inr (Some (w, used))"
      "parse_items vsz b (off + used) (m - 1) (items @ [w]) = Inr (Some (v, n))"
      using "2.prems" parse_items_Inr by blast
    have "0 < used \<and> used \<le> length (drop off b)"
      using False s by (intro "2.IH"(1)) auto
    moreover have "off + used \<le> n \<and> n \<le> length b"
      using False s calculation by (intro "2.IH"(2) [OF _ _ s(2) refl refl]) auto
    ultimately show ?thesis by simp
  qed
qed

lemma parse_final:
  "parse vsz b \<noteq> Inr None \<Longrightarrow> parse vsz (b @ c) = parse vsz b"
  "off \<le> length b \<Longrightarrow> parse_items vsz b off m items \<noteq> Inr None \<Longrightarrow>
     parse_items vsz (b @ c) off m items = parse_items vsz b off m items"
proof (induction vsz b and vsz b off m items rule: parse_parse_items.induct)
  case (1 vsz b)
  then obtain i where i: "find_crlf b = Some i"
    by (subst (asm) parse.simps) (auto split: option.splits)
  note l = find_crlf_bound [OF i] and i' = find_crlf_append [OF i, of c]
  have h: "(b @ c) ! 0 = b ! 0" "take (i - 1) (drop 1 (b @ c)) = take (i - 1) (drop 1 b)"
    using l by (cases b; simp)+
  show ?case
  proof (cases "1 \<le> i \<and> b ! 0 = CHR ''*''")
    case True
    have "parse_items vsz (b @ c) (i + 2) (nat count) [] = parse_items vsz b (i + 2) (nat count) []"
      if "as_int (take (i - 1) (drop 1 b)) = Inr count" "\<not> count < 0" "\<not> nat count * vsz \<ge> 2 ^ 63" for count
      using "1.prems" i True that l
      by (intro "1.IH" [OF i _ refl refl refl]) (auto simp: parse.simps [of vsz b])
    with True i i' h show ?thesis
      by (simp add: parse.simps [of vsz] Let_def del: drop_append take_append split: sum.splits)
  next
    case False
    from "1.prems" i i' h l False show ?thesis
      by (auto simp: parse.simps [of vsz] Let_def bind_run_def split: sum.splits if_splits)
  qed
next
  case (2 vsz b off m items)
  show ?case
  proof (cases "m = 0")
    case True
    then show ?thesis by (simp add: parse_items.simps)
  next
    case False
    have p: "parse vsz (drop off b) \<noteq> Inr None"
      using False "2.prems" by (subst (asm) parse_items.simps) auto
    with False "2.prems"(1) have p': "parse vsz (drop off (b @ c)) = parse vsz (drop off b)"
      using "2.IH"(1) by simp
    show ?thesis
    proof (cases "parse vsz (drop off b)")
      case (Inl e)
      with False "2.prems"(1) p' show ?thesis by (simp add: parse_items.simps [of vsz])
    next
      case (Inr o1)
      with p obtain w used where w: "parse vsz (drop off b) = Inr (Some (w, used))" by auto
      with parse_used(1) "2.prems"(1) have u: "off + used \<le> length b" by fastforce
      have "parse_items vsz b off m items = parse_items vsz b (off + used) (m - 1) (items @ [w])"
        using False "2.prems"(1) w by (subst parse_items.simps) simp
      with "2.prems"(2) have "parse_items vsz (b @ c) (off + used) (m - 1) (items @ [w]) = parse_items vsz b (off + used) (m - 1) (items @ [w])"
        using False "2.prems"(1) u by (intro "2.IH"(2) [OF _ _ w refl refl]) auto
      with False "2.prems"(1) p' w show ?thesis by (simp add: parse_items.simps [of vsz _ off])
    qed
  qed
qed

lemma parse_take:
  "parse vsz b = Inr (Some (v, n)) \<Longrightarrow> parse vsz (take k b) = (if n \<le> k then Inr (Some (v, n)) else Inr None)"
  "off \<le> k \<Longrightarrow> parse_items vsz b off m items = Inr (Some (v, n)) \<Longrightarrow>
     parse_items vsz (take k b) off m items = (if n \<le> k then Inr (Some (v, n)) else Inr None)"
proof (induction vsz b and vsz b off m items arbitrary: v n k and v n k rule: parse_parse_items.induct)
  case (1 vsz b)
  then obtain i where i: "find_crlf b = Some i" "1 \<le> i"
    by (subst (asm) parse.simps) (auto split: option.splits if_splits)
  note l = find_crlf_bound [OF i(1)] and t = find_crlf_take [OF i(1), of k]
  let ?line = "take (i - 1) (drop 1 b)"
  have n: "i + 2 \<le> n"
  proof (cases "b ! 0 = CHR ''*''")
    case True
    with "1.prems" i l show ?thesis
      by (subst (asm) parse.simps) (auto simp: Let_def split: sum.splits if_splits dest: parse_used(2) [rotated])
  next
    case False
    with "1.prems" i show ?thesis
      by (subst (asm) parse.simps) (auto simp: Let_def bind_run_Inr split: if_splits)
  qed
  show ?case
  proof (cases "i + 2 \<le> k")
    case False
    with t n show ?thesis by (subst parse.simps) simp
  next
    case True
    then have h: "take k b ! 0 = b ! 0" "take (i - 1) (drop 1 (take k b)) = ?line"
      by (simp_all add: drop_take min_def)
    note eqs = parse.simps [of vsz b] parse.simps [of vsz "take k b"]
    consider (star) "b ! 0 = CHR ''*''" | (bulk) "b ! 0 = CHR ''$''"
      | (other) "b ! 0 \<noteq> CHR ''*''" "b ! 0 \<noteq> CHR ''$''" by blast
    then show ?thesis
    proof cases
      case star
      with "1.prems" i obtain count where c: "as_int ?line = Inr count"
        "count < 0 \<and> v = NilV \<and> n = i + 2 \<or> \<not> count < 0 \<and> \<not> nat count * vsz \<ge> 2 ^ 63 \<and>
          parse_items vsz b (i + 2) (nat count) [] = Inr (Some (v, n))"
        by (subst (asm) parse.simps) (auto simp: Let_def split: sum.splits if_splits)
      from c(2) show ?thesis
      proof (elim disjE conjE)
        assume p: "\<not> count < 0" "\<not> nat count * vsz \<ge> 2 ^ 63" "parse_items vsz b (i + 2) (nat count) [] = Inr (Some (v, n))"
        have "parse_items vsz (take k b) (i + 2) (nat count) [] = (if n \<le> k then Inr (Some (v, n)) else Inr None)"
          using i star c(1) p True by (intro "1.IH" [OF i(1) _ refl refl refl]) auto
        with star c(1) p h t True i show ?thesis
          by (simp add: parse.simps [of vsz "take k b"] Let_def del: drop_take take_take)
      next
        assume "count < 0" "v = NilV" "n = i + 2"
        with star c(1) h t True i show ?thesis
          by (simp add: parse.simps [of vsz "take k b"] Let_def del: drop_take take_take)
      qed
    next
      case bulk
      with "1.prems" i obtain len where c: "as_int ?line = Inr len"
        "len < 0 \<and> v = NilV \<and> n = i + 2 \<or> \<not> len < 0 \<and> i + 2 + nat len + 2 \<le> length b \<and>
          v = Bulk (take (nat len) (drop (i + 2) b)) \<and> n = i + 2 + nat len + 2"
        by (subst (asm) parse.simps) (auto simp: Let_def bind_run_Inr split: if_splits)
      have "length (take k b) < i + 2 + nat len + 2 \<longleftrightarrow> k < i + 2 + nat len + 2"
        if "i + 2 + nat len + 2 \<le> length b" using that by (auto simp: min_def)
      moreover have "take (nat len) (drop (i + 2) (take k b)) = take (nat len) (drop (i + 2) b)"
        if "i + 2 + nat len + 2 \<le> k" using that by (simp add: drop_take min_def)
      ultimately show ?thesis
        using bulk c h t True i
        by (auto simp: parse.simps [of vsz "take k b"] Let_def simp del: drop_take take_take length_take)
    next
      case other
      then have "n = i + 2"
        using "1.prems" i by (subst (asm) parse.simps) (auto simp: Let_def bind_run_Inr split: if_splits)
      moreover have "parse vsz (take k b) = parse vsz b"
        using other i h t True by (simp add: eqs Let_def del: drop_take take_take)
      ultimately show ?thesis using "1.prems" True by simp
    qed
  qed
next
  case (2 vsz b off m items)
  show ?case
  proof (cases "m = 0")
    case True
    with "2.prems" show ?thesis by (simp add: parse_items.simps)
  next
    case False
    then obtain w used where s: "off \<le> length b" "parse vsz (drop off b) = Inr (Some (w, used))"
      "parse_items vsz b (off + used) (m - 1) (items @ [w]) = Inr (Some (v, n))"
      using "2.prems" parse_items_Inr by blast
    have u: "off + used \<le> length b" using parse_used(1) [OF s(2)] s(1) by auto
    have n: "off + used \<le> n" using parse_used(2) [OF u s(3)] by simp
    have p: "parse vsz (drop off (take k b)) = (if used \<le> k - off then Inr (Some (w, used)) else Inr None)"
      unfolding drop_take using False s by (intro "2.IH"(1)) auto
    have len: "\<not> length (take k b) < off" using "2.prems"(1) s(1) by simp
    show ?thesis
    proof (cases "off + used \<le> k")
      case True
      then have "used \<le> k - off" by simp
      with p have p: "parse vsz (drop off (take k b)) = Inr (Some (w, used))" by simp
      have "parse_items vsz (take k b) (off + used) (m - 1) (items @ [w]) = (if n \<le> k then Inr (Some (v, n)) else Inr None)"
        using False s True by (intro "2.IH"(2) [OF _ _ s(2) refl refl]) auto
      with False p len True "2.prems"(1) show ?thesis
        by (simp add: parse_items.simps [of vsz "take k b" off] del: drop_take length_take)
    next
      case below: False
      then have "\<not> used \<le> k - off" using "2.prems"(1) by simp
      with p have "parse vsz (drop off (take k b)) = Inr None" by simp
      with False len n below show ?thesis
        by (simp add: parse_items.simps [of vsz "take k b" off] del: drop_take length_take)
    qed
  qed
qed

section \<open>Properties\<close>

text \<open>
  The codec round-trips. Every RESP2 value written in the protocol's text parses back to
  itself and consumes exactly its own bytes, whatever follows; in particular a command written by
  \<open>encode\<close> is read back as the array of its arguments.
\<close>

theorem resp_roundtrip:
  assumes "value_ok vsz v" "value_ok vsz (Array (map Bulk args))"
  shows "parse vsz (show_value v @ rest) = Inr (Some (v, length (show_value v))) \<and>
    parse vsz (encode args [] @ rest) = Inr (Some (Array (map Bulk args), length (encode args [])))"
  using assms parse_show [of vsz] by (simp add: encode_show del: value_ok.simps show_value.simps)

theorem resp_roundtrip_witness:
  "parse 24 (encode [''SET'', ''k'', ''v''] [] @ ''rest'') =
     Inr (Some (Array [Bulk ''SET'', Bulk ''k'', Bulk ''v''], length (encode [''SET'', ''k'', ''v''] [])))"
proof -
  have "value_ok 24 (Array [IntV (- 5), NilV])" "value_ok 24 (Array (map Bulk [''SET'', ''k'', ''v'']))"
    by code_simp+
  from resp_roundtrip [OF this, of "''rest''"] show ?thesis by simp
qed

text \<open>
  Replies may be cut anywhere. A verdict of \<open>parse\<close>, a reply or an error, is not changed by
  the bytes that follow, and a reply of \<open>n\<close> bytes is reported by exactly the prefixes that hold
  those \<open>n\<close> bytes: every shorter prefix yields \<open>Ok(None)\<close>, so the caller reads more.
\<close>

theorem resp_incremental:
  "(parse vsz b \<noteq> Inr None \<longrightarrow> parse vsz (b @ c) = parse vsz b) \<and>
   (parse vsz b = Inr (Some (v, n)) \<longrightarrow> 0 < n \<and> n \<le> length b \<and>
      parse vsz (take k b) = (if n \<le> k then Inr (Some (v, n)) else Inr None))"
  using parse_final(1) [of vsz b c] parse_used(1) [of vsz b v n] parse_take(1) [of vsz b v n k] by auto

theorem resp_incremental_witness:
  "parse 24 (take 9 (''$5'' @ CRLF @ ''hello'' @ CRLF)) = Inr None"
proof -
  have "parse 24 (''$5'' @ CRLF @ ''hello'' @ CRLF) = Inr (Some (Bulk ''hello'', 11))" by code_simp
  with resp_incremental [of 24 "''$5'' @ CRLF @ ''hello'' @ CRLF" "[]" "Bulk ''hello''" 11 9]
  show ?thesis by simp
qed

text \<open>
  Bytes from the server can panic the client. An empty line makes the slice between the type
  byte and the CRLF run backwards, and an array header with a count near \<open>i64::MAX\<close> overflows
  the capacity that is reserved before any element is read; the documentation lists only
  \<open>Ok\<close>, a server error and a protocol error as outcomes.
\<close>

theorem resp_panics:
  assumes "2 \<le> vsz"
  shows "parse vsz (CRLF @ rest) = Inl (Panic SliceIndex) \<and>
    parse vsz (''*9223372036854775807'' @ CRLF @ rest) = Inl (Panic CapacityOverflow)"
proof -
  have "as_int ''9223372036854775807'' = Inr 9223372036854775807" by code_simp
  moreover have "(2 :: nat) ^ 63 \<le> nat 9223372036854775807 * vsz"
    using assms by (intro order_trans [OF _ mult_le_mono2 [of 2 vsz]]) auto
  ultimately show ?thesis
    using parse_line [of "''9223372036854775807''" "CHR ''*''" rest] find_crlf_line [of "[]" rest]
    by (simp add: parse.simps Let_def)
qed

theorem resp_panics_witness:
  "parse 24 CRLF = Inl (Panic SliceIndex)"
  using resp_panics [of 24 "[]"] by simp

end
