(* ===== verification/Redis_Client.thy ===== *)
theory Redis_Client
  imports Resp
begin

text \<open>
  \<open>kernway-redis/src/conn.rs\<close> and \<open>lib.rs\<close>: a connection with its read buffer, the typed
  commands, and the pool. The socket is explicit: \<open>incoming\<close> is the sequence of results its reads
  will give (its end is end-of-file), \<open>sent\<close> what was written, and a dial is a parameter of the
  pool's operations. An unexpected reply is kept as a value where the code formats it.
\<close>

section \<open>The connection\<close>

datatype net_event = Data string | Failing

record conn =
  cbuf :: string
  cpos :: nat
  incoming :: "net_event list"
  sent :: string
  writable :: bool

definition connect :: "net_event list \<Rightarrow> bool \<Rightarrow> conn" where
  "connect inc w = \<lparr>cbuf = [], cpos = 0, incoming = inc, sent = [], writable = w\<rparr>"

definition buffered_reply :: "nat \<Rightarrow> string \<Rightarrow> nat \<Rightarrow> redis_error + (resp_value \<times> nat) option" where
  "buffered_reply vsz b pos = (if pos < length b then parse vsz (drop pos b) else Inr None)"

fun read_loop :: "nat \<Rightarrow> string \<Rightarrow> nat \<Rightarrow> net_event list \<Rightarrow>
    (string \<times> nat \<times> net_event list) \<times> (redis_error + resp_value)" where
  "read_loop vsz b pos inc =
     (case buffered_reply vsz b pos of
        Inl e \<Rightarrow> ((b, pos, inc), Inl e)
      | Inr (Some (val, used)) \<Rightarrow>
          if pos + used = length b then (([], 0, inc), Inr val) else ((b, pos + used, inc), Inr val)
      | Inr None \<Rightarrow>
          (case inc of
             [] \<Rightarrow> ((b, pos, []), Inl Closed)
           | Failing # inc' \<Rightarrow> ((b, pos, inc'), Inl Io)
           | Data d # inc' \<Rightarrow>
               if d = [] then ((b, pos, inc'), Inl Closed) else read_loop vsz (b @ d) pos inc'))"

declare read_loop.simps [simp del]

definition read_reply :: "nat \<Rightarrow> conn \<Rightarrow> conn \<times> (redis_error + resp_value)" where
  "read_reply vsz c =
     (let ((b, pos, inc), r) = read_loop vsz (cbuf c) (cpos c) (incoming c)
      in (c\<lparr>cbuf := b, cpos := pos, incoming := inc\<rparr>, r))"

definition write_all :: "string \<Rightarrow> conn \<Rightarrow> conn \<times> (redis_error + unit)" where
  "write_all out c = (if writable c then (c\<lparr>sent := sent c @ out\<rparr>, Inr ()) else (c, Inl Io))"

definition command :: "nat \<Rightarrow> string list \<Rightarrow> conn \<Rightarrow> conn \<times> (redis_error + resp_value)" where
  "command vsz args c =
     (case write_all (encode args []) c of
        (c1, Inl e) \<Rightarrow> (c1, Inl e)
      | (c1, Inr _) \<Rightarrow> read_reply vsz c1)"

text \<open>Continue with the reply of a command, as \<open>?\<close> does.\<close>

definition and_then :: "conn \<times> ('e + 'a) \<Rightarrow> ('a \<Rightarrow> 'e + 'b) \<Rightarrow> conn \<times> ('e + 'b)" where
  "and_then p f = (fst p, bind_run (snd p) f)"

definition int_or_zero :: "resp_value \<Rightarrow> int" where
  "int_or_zero v = (case as_int_value v of Some n \<Rightarrow> n | None \<Rightarrow> 0)"

section \<open>Typed commands\<close>

definition ping :: "nat \<Rightarrow> conn \<Rightarrow> conn \<times> (redis_error + unit)" where
  "ping vsz c = and_then (command vsz [''PING''] c) (\<lambda>_. Inr ())"

definition auth :: "nat \<Rightarrow> string option \<Rightarrow> string \<Rightarrow> conn \<Rightarrow> conn \<times> (redis_error + unit)" where
  "auth vsz user password c =
     and_then (command vsz (case user of Some u \<Rightarrow> [''AUTH'', u, password] | None \<Rightarrow> [''AUTH'', password]) c)
       (\<lambda>_. Inr ())"

definition get :: "nat \<Rightarrow> string \<Rightarrow> conn \<Rightarrow> conn \<times> (redis_error + string option)" where
  "get vsz key c =
     and_then (command vsz [''GET'', key] c) (\<lambda>v.
       case v of Bulk b \<Rightarrow> Inr (Some b) | NilV \<Rightarrow> Inr None | other \<Rightarrow> Inl (Unexpected ''GET'' other))"

definition set_ex :: "nat \<Rightarrow> string \<Rightarrow> string \<Rightarrow> nat \<Rightarrow> conn \<Rightarrow> conn \<times> (redis_error + unit)" where
  "set_ex vsz key val ttl c = and_then (command vsz [''SET'', key, val, ''EX'', show_nat ttl] c) (\<lambda>_. Inr ())"

definition del :: "nat \<Rightarrow> string list \<Rightarrow> conn \<Rightarrow> conn \<times> (redis_error + int)" where
  "del vsz keys c = and_then (command vsz (''DEL'' # keys) c) (\<lambda>v. Inr (int_or_zero v))"

definition sadd :: "nat \<Rightarrow> string \<Rightarrow> string \<Rightarrow> conn \<Rightarrow> conn \<times> (redis_error + unit)" where
  "sadd vsz key member c = and_then (command vsz [''SADD'', key, member] c) (\<lambda>_. Inr ())"

definition srem :: "nat \<Rightarrow> string \<Rightarrow> string \<Rightarrow> conn \<Rightarrow> conn \<times> (redis_error + unit)" where
  "srem vsz key member c = and_then (command vsz [''SREM'', key, member] c) (\<lambda>_. Inr ())"

definition bulk_strings :: "resp_value list \<Rightarrow> string list" where
  "bulk_strings vs =
     List.map_filter (\<lambda>v. case v of Bulk b \<Rightarrow> if utf8_valid b then Some b else None | _ \<Rightarrow> None) vs"

definition members :: "string \<Rightarrow> resp_value \<Rightarrow> redis_error + string list" where
  "members cmd v =
     (case v of Array vs \<Rightarrow> Inr (bulk_strings vs) | NilV \<Rightarrow> Inr [] | other \<Rightarrow> Inl (Unexpected cmd other))"

definition smembers :: "nat \<Rightarrow> string \<Rightarrow> conn \<Rightarrow> conn \<times> (redis_error + string list)" where
  "smembers vsz key c = and_then (command vsz [''SMEMBERS'', key] c) (members ''SMEMBERS'')"

definition expire :: "nat \<Rightarrow> string \<Rightarrow> nat \<Rightarrow> conn \<Rightarrow> conn \<times> (redis_error + unit)" where
  "expire vsz key ttl c = and_then (command vsz [''EXPIRE'', key, show_nat ttl] c) (\<lambda>_. Inr ())"

definition scard :: "nat \<Rightarrow> string \<Rightarrow> conn \<Rightarrow> conn \<times> (redis_error + int)" where
  "scard vsz key c = and_then (command vsz [''SCARD'', key] c) (\<lambda>v. Inr (int_or_zero v))"

definition zadd :: "nat \<Rightarrow> string \<Rightarrow> int \<Rightarrow> string \<Rightarrow> conn \<Rightarrow> conn \<times> (redis_error + unit)" where
  "zadd vsz key score member c = and_then (command vsz [''ZADD'', key, show_int score, member] c) (\<lambda>_. Inr ())"

definition zscore :: "nat \<Rightarrow> string \<Rightarrow> string \<Rightarrow> conn \<Rightarrow> conn \<times> (redis_error + int option)" where
  "zscore vsz key member c =
     and_then (command vsz [''ZSCORE'', key, member] c) (\<lambda>v.
       case v of
         Bulk b \<Rightarrow> Inr (if utf8_valid b then parse_i64 b else None)
       | NilV \<Rightarrow> Inr None
       | other \<Rightarrow> Inl (Unexpected ''ZSCORE'' other))"

definition zrangebyscore :: "nat \<Rightarrow> string \<Rightarrow> string \<Rightarrow> string \<Rightarrow> conn \<Rightarrow> conn \<times> (redis_error + string list)" where
  "zrangebyscore vsz key mn mx c =
     and_then (command vsz [''ZRANGEBYSCORE'', key, mn, mx] c) (members ''ZRANGEBYSCORE'')"

definition zcount :: "nat \<Rightarrow> string \<Rightarrow> string \<Rightarrow> string \<Rightarrow> conn \<Rightarrow> conn \<times> (redis_error + int)" where
  "zcount vsz key mn mx c = and_then (command vsz [''ZCOUNT'', key, mn, mx] c) (\<lambda>v. Inr (int_or_zero v))"

definition zremrangebyscore :: "nat \<Rightarrow> string \<Rightarrow> string \<Rightarrow> string \<Rightarrow> conn \<Rightarrow> conn \<times> (redis_error + int)" where
  "zremrangebyscore vsz key mn mx c =
     and_then (command vsz [''ZREMRANGEBYSCORE'', key, mn, mx] c) (\<lambda>v. Inr (int_or_zero v))"

definition publish :: "nat \<Rightarrow> string \<Rightarrow> string \<Rightarrow> conn \<Rightarrow> conn \<times> (redis_error + int)" where
  "publish vsz channel payload c =
     and_then (command vsz [''PUBLISH'', channel, payload] c) (\<lambda>v. Inr (int_or_zero v))"

fun read_replies :: "nat \<Rightarrow> nat \<Rightarrow> conn \<Rightarrow> conn \<times> (redis_error + unit)" where
  "read_replies vsz 0 c = (c, Inr ())"
| "read_replies vsz (Suc n) c =
     (case read_reply vsz c of
        (c1, Inl e) \<Rightarrow> (c1, Inl e)
      | (c1, Inr _) \<Rightarrow> read_replies vsz n c1)"

definition subscribe :: "nat \<Rightarrow> string list \<Rightarrow> conn \<Rightarrow> conn \<times> (redis_error + unit)" where
  "subscribe vsz channels c =
     (case write_all (encode (''SUBSCRIBE'' # channels) []) c of
        (c1, Inl e) \<Rightarrow> (c1, Inl e)
      | (c1, Inr _) \<Rightarrow> read_replies vsz (length channels) c1)"

definition message_of :: "resp_value \<Rightarrow> (string \<times> string) option" where
  "message_of v =
     (case v of
        Array [Bulk kind, Bulk channel, Bulk payload] \<Rightarrow>
          if kind = ''message'' then Some (from_utf8_lossy channel, payload) else None
      | _ \<Rightarrow> None)"

text \<open>\<open>next_message\<close> skips frames until one is a message; every frame it reads consumes input.\<close>

partial_function (option) next_message :: "nat \<Rightarrow> conn \<Rightarrow> (conn \<times> (redis_error + string \<times> string)) option" where
  "next_message vsz c =
     (case read_reply vsz c of
        (c1, Inl e) \<Rightarrow> Some (c1, Inl e)
      | (c1, Inr v) \<Rightarrow>
          (case message_of v of
             Some m \<Rightarrow> Some (c1, Inr m)
           | None \<Rightarrow> next_message vsz c1))"

section \<open>The pool\<close>

record pool =
  pool_auth :: "(string option \<times> string) option"
  idle :: "conn list"
  max_idle :: nat

definition pool_new :: pool where
  "pool_new = \<lparr>pool_auth = None, idle = [], max_idle = 16\<rparr>"

definition with_auth :: "pool \<Rightarrow> string \<Rightarrow> pool" where
  "with_auth p password = p\<lparr>pool_auth := Some (None, password)\<rparr>"

definition with_user_auth :: "pool \<Rightarrow> string \<Rightarrow> string \<Rightarrow> pool" where
  "with_user_auth p user password = p\<lparr>pool_auth := Some (Some user, password)\<rparr>"

definition with_max_idle :: "pool \<Rightarrow> nat \<Rightarrow> pool" where
  "with_max_idle p n = p\<lparr>max_idle := n\<rparr>"

definition checkout :: "nat \<Rightarrow> redis_error + conn \<Rightarrow> pool \<Rightarrow> pool \<times> (redis_error + conn)" where
  "checkout vsz dial p =
     (if idle p \<noteq> [] then (p\<lparr>idle := butlast (idle p)\<rparr>, Inr (last (idle p)))
      else
        (p, bind_run dial (\<lambda>c.
           case pool_auth p of
             None \<Rightarrow> Inr c
           | Some (user, password) \<Rightarrow>
               (case auth vsz user password c of
                  (c1, Inl e) \<Rightarrow> Inl e
                | (c1, Inr _) \<Rightarrow> Inr c1))))"

definition checkin :: "pool \<Rightarrow> conn \<Rightarrow> pool" where
  "checkin p c = (if length (idle p) < max_idle p then p\<lparr>idle := idle p @ [c]\<rparr> else p)"

definition with_conn ::
  "nat \<Rightarrow> redis_error + conn \<Rightarrow> pool \<Rightarrow> (conn \<Rightarrow> conn \<times> (redis_error + 'a)) \<Rightarrow> pool \<times> (redis_error + 'a)" where
  "with_conn vsz dial p f =
     (case checkout vsz dial p of
        (p1, Inl e) \<Rightarrow> (p1, Inl e)
      | (p1, Inr c) \<Rightarrow>
          (case f c of
             (c1, Inr v) \<Rightarrow> (checkin p1 c1, Inr v)
           | (c1, Inl e) \<Rightarrow> (p1, Inl e)))"

section \<open>Replies in order\<close>

text \<open>The bytes a connection has received or will receive and not yet handed out.\<close>

fun chunks :: "net_event list \<Rightarrow> string" where
  "chunks [] = []"
| "chunks (Data d # inc) = d @ chunks inc"
| "chunks (Failing # inc) = []"

definition unread :: "conn \<Rightarrow> string" where
  "unread c = drop (cpos c) (cbuf c) @ chunks (incoming c)"

definition flowing :: "net_event list \<Rightarrow> bool" where
  "flowing inc \<longleftrightarrow> list_all (\<lambda>e. case e of Data d \<Rightarrow> d \<noteq> [] | Failing \<Rightarrow> False) inc"

definition conn_ok :: "conn \<Rightarrow> bool" where
  "conn_ok c \<longleftrightarrow> cpos c \<le> length (cbuf c) \<and> flowing (incoming c) \<and> writable c"

lemma parse_empty [simp]: "parse vsz [] = Inr None"
  by (simp add: parse.simps)

lemma buffered_parse: "buffered_reply vsz b pos = parse vsz (drop pos b)"
  by (simp add: buffered_reply_def)

lemma read_loop_reply:
  assumes "parse vsz (drop pos b @ chunks inc) = Inr (Some (v, n))" "flowing inc" "pos \<le> length b"
  shows "\<exists>b' pos' inc'. read_loop vsz b pos inc = ((b', pos', inc'), Inr v) \<and> flowing inc' \<and>
    pos' \<le> length b' \<and> drop pos' b' @ chunks inc' = drop n (drop pos b @ chunks inc)"
  using assms
proof (induction inc arbitrary: b)
  case Nil
  then have p: "parse vsz (drop pos b) = Inr (Some (v, n))" by simp
  with parse_used(1) [OF p] Nil show ?case
    by (auto simp: read_loop.simps [of vsz b] buffered_parse add.commute)
next
  case (Cons e inc)
  then obtain d where e: "e = Data d" "d \<noteq> []" "flowing inc"
    by (cases e) (auto simp: flowing_def)
  let ?whole = "drop pos b @ d @ chunks inc"
  have t: "parse vsz (drop pos b) = (if n \<le> length (drop pos b) then Inr (Some (v, n)) else Inr None)"
    using parse_take(1) [of vsz ?whole v n "length (drop pos b)"] Cons.prems(1) e by simp
  show ?case
  proof (cases "n \<le> length (drop pos b)")
    case True
    with t have p: "parse vsz (drop pos b) = Inr (Some (v, n))" by simp
    from True Cons.prems(3) have "pos + n \<le> length b" by auto
    with p e True Cons.prems show ?thesis
      by (auto simp: read_loop.simps [of vsz b] buffered_parse flowing_def add.commute)
  next
    case False
    with t e have "read_loop vsz b pos (e # inc) = read_loop vsz (b @ d) pos inc"
      by (simp add: read_loop.simps [of vsz b] buffered_parse)
    with Cons.IH [of "b @ d"] Cons.prems e show ?thesis by simp
  qed
qed

lemma command_reply:
  assumes "conn_ok c" "value_ok vsz v" "unread c = show_value v @ rest"
  obtains c' where "command vsz args c = (c', Inr v)" "conn_ok c'" "unread c' = rest"
    "sent c' = sent c @ encode args []"
proof -
  have "parse vsz (drop (cpos c) (cbuf c) @ chunks (incoming c)) = Inr (Some (v, length (show_value v)))"
    using assms parse_show by (simp add: unread_def)
  with assms(1) obtain b' pos' inc' where r: "read_loop vsz (cbuf c) (cpos c) (incoming c) = ((b', pos', inc'), Inr v)"
    "flowing inc'" "pos' \<le> length b'" "drop pos' b' @ chunks inc' = drop (length (show_value v)) (unread c)"
    using read_loop_reply unfolding conn_ok_def unread_def by blast
  let ?c = "c\<lparr>sent := sent c @ encode args [], cbuf := b', cpos := pos', incoming := inc'\<rparr>"
  have "command vsz args c = (?c, Inr v)"
    using assms(1) r(1) by (simp add: command_def write_all_def conn_ok_def read_reply_def)
  moreover have "conn_ok ?c" using assms(1) r by (simp add: conn_ok_def)
  moreover have "unread ?c = drop pos' b' @ chunks inc'" by (simp add: unread_def)
  moreover have "\<dots> = rest" unfolding r(4) assms(3) by simp
  ultimately show thesis using that by simp
qed

fun run_commands :: "nat \<Rightarrow> string list list \<Rightarrow> conn \<Rightarrow> conn \<times> (redis_error + resp_value) list" where
  "run_commands vsz [] c = (c, [])"
| "run_commands vsz (args # cmds) c =
     (let (c1, r) = command vsz args c; (c2, rs) = run_commands vsz cmds c1 in (c2, r # rs))"

lemma run_commands_replies:
  "conn_ok c \<Longrightarrow> list_all (value_ok vsz) vs \<Longrightarrow> length cmds = length vs \<Longrightarrow>
   unread c = concat (map show_value vs) @ rest \<Longrightarrow>
   \<exists>c'. run_commands vsz cmds c = (c', map Inr vs) \<and> conn_ok c' \<and> unread c' = rest \<and>
     sent c' = sent c @ concat (map (\<lambda>args. encode args []) cmds)"
proof (induction vs arbitrary: c cmds)
  case (Cons v vs)
  then obtain args cmds' where cmds: "cmds = args # cmds'" "length cmds' = length vs"
    by (cases cmds) auto
  have v: "value_ok vsz v" "unread c = show_value v @ (concat (map show_value vs) @ rest)"
    using Cons.prems by simp_all
  obtain c1 where c1: "command vsz args c = (c1, Inr v)" "conn_ok c1"
    "unread c1 = concat (map show_value vs) @ rest" "sent c1 = sent c @ encode args []"
    using command_reply [OF Cons.prems(1) v] by metis
  have "list_all (value_ok vsz) vs" using Cons.prems(2) by simp
  from Cons.IH [OF c1(2) this cmds(2) c1(3)] c1 cmds show ?case by auto
qed simp

section \<open>After an error reply\<close>

lemma read_loop_Server:
  "read_loop vsz b pos inc = ((b', pos', inc'), Inl (Server m)) \<Longrightarrow>
     pos' < length b' \<and> parse vsz (drop pos' b') = Inl (Server m)"
proof (induction vsz b pos inc rule: read_loop.induct)
  case (1 vsz b pos inc)
  show ?case
  proof (cases "buffered_reply vsz b pos" rule: sum.exhaust)
    case (Inl e)
    with "1.prems" show ?thesis
      by (subst (asm) read_loop.simps) (auto simp: buffered_reply_def split: if_splits)
  next
    case (Inr x)
    with "1.prems" have x: "x = None"
      by (subst (asm) read_loop.simps) (auto split: option.splits if_splits)
    with Inr "1.prems" obtain d inc1 where d: "inc = Data d # inc1" "d \<noteq> []"
      "read_loop vsz (b @ d) pos inc1 = ((b', pos', inc'), Inl (Server m))"
      by (subst (asm) read_loop.simps) (auto split: list.splits net_event.splits if_splits)
    from "1.IH" [OF Inr x d(1) refl d(2,3)] show ?thesis .
  qed
qed

section \<open>Properties\<close>

text \<open>
  Replies are matched to commands in order. On a healthy connection whose unread bytes are
  the texts of some replies, in whatever chunks the socket delivers them, issuing as many
  commands returns those replies one by one, writes exactly the encoded commands, and leaves
  precisely the rest unread, so the connection stays usable.
\<close>

theorem redis_replies_in_order:
  assumes "conn_ok c" "list_all (value_ok vsz) vs" "length cmds = length vs"
    and "unread c = concat (map show_value vs) @ rest"
  shows "\<exists>c'. run_commands vsz cmds c = (c', map Inr vs) \<and> conn_ok c' \<and> unread c' = rest \<and>
     sent c' = sent c @ concat (map (\<lambda>args. encode args []) cmds)"
  using assms by (rule run_commands_replies)

theorem redis_replies_in_order_witness:
  "\<exists>c'. run_commands 24 [[''GET'', ''k''], [''DEL'', ''k'']]
      (connect [Data ''$5'', Data (CRLF @ ''he''), Data (''llo'' @ CRLF @ '':1''), Data CRLF] True) =
    (c', [Inr (Bulk ''hello''), Inr (IntV 1)]) \<and> unread c' = []"
proof -
  let ?c = "connect [Data ''$5'', Data (CRLF @ ''he''), Data (''llo'' @ CRLF @ '':1''), Data CRLF] True"
  have "conn_ok ?c" "list_all (value_ok 24) [Bulk ''hello'', IntV 1]"
    "length [[''GET'', ''k''], [''DEL'', ''k'']] = length [Bulk ''hello'', IntV 1]"
    "unread ?c = concat (map show_value [Bulk ''hello'', IntV 1]) @ []"
    by code_simp+
  from redis_replies_in_order [OF this] show ?thesis by auto
qed

text \<open>
  An error reply is never consumed. When a command returns a server error, the error's bytes
  stay at the front of the buffer, so every later command on that connection returns the same
  error again, whatever the server answers. The pool is safe because it drops a connection after
  an error; a caller that keeps the connection, as the documentation of \<open>command\<close> allows, or that
  handles the error inside the closure given to the pool, is not.
\<close>

theorem redis_error_sticks:
  assumes "command vsz args c = (c', Inl (Server m))"
  shows "snd (command vsz args' c') = Inl (Server m)"
proof -
  from assms have w: "writable c" by (auto simp: command_def write_all_def split: if_splits)
  with assms obtain b pos inc where r: "read_loop vsz (cbuf c) (cpos c) (incoming c) = ((b, pos, inc), Inl (Server m))"
    "cbuf c' = b" "cpos c' = pos" "writable c'"
    by (auto simp: command_def write_all_def read_reply_def split: prod.splits)
  from read_loop_Server [OF r(1)]
  have "read_loop vsz b pos inc' = ((b, pos, inc'), Inl (Server m))" for inc'
    by (simp add: read_loop.simps [of vsz b] buffered_reply_def)
  with r show ?thesis by (simp add: command_def write_all_def read_reply_def)
qed

theorem redis_error_sticks_witness:
  "snd (command 24 [''PING''] (fst (command 24 [''NOPE'']
     (connect [Data (''-ERR'' @ CRLF), Data (''+PONG'' @ CRLF)] True)))) = Inl (Server ''ERR'')"
proof -
  let ?c = "connect [Data (''-ERR'' @ CRLF), Data (''+PONG'' @ CRLF)] True"
  have "snd (command 24 [''NOPE''] ?c) = Inl (Server ''ERR'')" by code_simp
  then have "command 24 [''NOPE''] ?c = (fst (command 24 [''NOPE''] ?c), Inl (Server ''ERR''))"
    by (rule prod_eqI [OF fst_conv [symmetric] trans [OF _ snd_conv [symmetric]]])
  from redis_error_sticks [OF this] show ?thesis .
qed

text \<open>
  The pool never keeps more connections than its limit, hands out the most recently returned
  one, and keeps the connection of an operation exactly when the operation succeeded: an
  operation that fails leaves the pool without the connection it used.
\<close>

theorem pool_discipline:
  assumes "length (idle p) \<le> max_idle p" "with_conn vsz dial p f = (p', r)"
  shows "length (idle p') \<le> max_idle p' \<and> max_idle p' = max_idle p \<and>
    (\<forall>c rest. idle p = rest @ [c] \<longrightarrow>
       (case f c of (c1, Inl e) \<Rightarrow> r = Inl e \<and> idle p' = rest
                  | (c1, Inr v) \<Rightarrow> r = Inr v \<and> idle p' = rest @ [c1]))"
proof (cases "idle p = []")
  case True
  with assms show ?thesis
    by (auto simp: with_conn_def checkout_def checkin_def split: prod.splits sum.splits if_splits)
next
  case False
  then obtain rest c where p: "idle p = rest @ [c]" by (metis append_butlast_last_id)
  show ?thesis
  proof (cases "f c")
    case (Pair c1 x)
    with p assms show ?thesis
      by (cases x) (auto simp: with_conn_def checkout_def checkin_def)
  qed
qed

theorem pool_discipline_witness:
  "idle (fst (with_conn 24 (Inl Io) (checkin pool_new (connect [Data (''-ERR'' @ CRLF)] True)) (ping 24))) = []"
proof -
  let ?c = "connect [Data (''-ERR'' @ CRLF)] True"
  let ?p = "checkin pool_new ?c"
  have i: "idle ?p = [] @ [?c]" "length (idle ?p) \<le> max_idle ?p" by (simp_all add: checkin_def pool_new_def)
  have "snd (ping 24 ?c) = Inl (Server ''ERR'')" by code_simp
  then obtain c1 where "ping 24 ?c = (c1, Inl (Server ''ERR''))" by (metis surjective_pairing)
  with pool_discipline [OF i(2), where vsz = 24 and dial = "Inl Io" and f = "ping 24", OF prod.collapse [symmetric]] i(1)
  show ?thesis by fastforce
qed

end
