(* ===== verification/Lockout.thy ===== *)
theory Lockout
  imports Hash_Map
begin

text \<open>
  \<open>kernway-security/src/lockout.rs\<close>: the login guard that locks a key after too many failed
  logins. Times are unix seconds in a \<open>u64\<close>. Each method is a definition; a use of the guard is
  a sequence of timed calls, so that what one key's caller sees can be compared with and without
  the calls made for other keys, whose bookkeeping shares the map and its periodic sweep.
\<close>

section \<open>The model\<close>

record attempts_rec =
  failures :: nat
  window_start :: nat
  locked_until :: nat

record login_guard =
  max_failures :: nat
  lockout_secs :: nat
  window_secs :: nat
  attempts :: "(string, attempts_rec) hmap"

definition guard_new :: "nat \<Rightarrow> nat \<Rightarrow> login_guard" where
  "guard_new mx secs =
     \<lparr>max_failures = max mx 1, lockout_secs = secs, window_secs = secs, attempts = []\<rparr>"

definition with_window :: "login_guard \<Rightarrow> nat \<Rightarrow> login_guard" where
  "with_window g secs = g\<lparr>window_secs := secs\<rparr>"

definition check_at :: "login_guard \<Rightarrow> string \<Rightarrow> nat \<Rightarrow> bool" where
  "check_at g key now =
     (case hm_get (attempts g) key of None \<Rightarrow> True | Some a \<Rightarrow> locked_until a \<le> now)"

definition swept :: "login_guard \<Rightarrow> nat \<Rightarrow> (string, attempts_rec) hmap" where
  "swept g now =
     (if hm_len (attempts g) > 1024
      then hm_retain (\<lambda>_ a. now < locked_until a \<or> now - window_start a < window_secs g) (attempts g)
      else attempts g)"

definition record_failure_at :: "login_guard \<Rightarrow> string \<Rightarrow> nat \<Rightarrow> login_guard \<times> nat option" where
  "record_failure_at g key now =
     (let m = swept g now;
          e0 = (case hm_get m key of
                  Some a \<Rightarrow> a
                | None \<Rightarrow> \<lparr>failures = 0, window_start = now, locked_until = 0\<rparr>);
          e1 = (if now - window_start e0 \<ge> window_secs g
                then e0\<lparr>failures := 0, window_start := now\<rparr> else e0);
          e2 = e1\<lparr>failures := (failures e1 + 1) mod 2 ^ 32\<rparr>
      in if failures e2 \<ge> max_failures g
         then let until = wrapping_add64 now (lockout_secs g)
              in (g\<lparr>attempts := hm_insert m key (e2\<lparr>locked_until := until, failures := 0\<rparr>)\<rparr>, Some until)
         else (g\<lparr>attempts := hm_insert m key e2\<rparr>, None))"

definition record_success :: "login_guard \<Rightarrow> string \<Rightarrow> login_guard" where
  "record_success g key = g\<lparr>attempts := hm_remove (attempts g) key\<rparr>"

definition locked_for_at :: "login_guard \<Rightarrow> string \<Rightarrow> nat \<Rightarrow> nat option" where
  "locked_for_at g key now =
     (case hm_get (attempts g) key of
        None \<Rightarrow> None
      | Some a \<Rightarrow> if now < locked_until a then Some (locked_until a - now) else None)"

section \<open>Sequences of calls\<close>

datatype call = Check string | Failure string | Success string | LockedFor string

datatype answer = May bool | Tripped "nat option" | Cleared | Remaining "nat option"

fun call_key :: "call \<Rightarrow> string" where
  "call_key (Check k) = k"
| "call_key (Failure k) = k"
| "call_key (Success k) = k"
| "call_key (LockedFor k) = k"

fun guard_step :: "login_guard \<Rightarrow> nat \<Rightarrow> call \<Rightarrow> login_guard \<times> answer" where
  "guard_step g now (Check k) = (g, May (check_at g k now))"
| "guard_step g now (Failure k) = (let (g', r) = record_failure_at g k now in (g', Tripped r))"
| "guard_step g now (Success k) = (record_success g k, Cleared)"
| "guard_step g now (LockedFor k) = (g, Remaining (locked_for_at g k now))"

fun run_guard :: "login_guard \<Rightarrow> (nat \<times> call) list \<Rightarrow> login_guard \<times> (string \<times> answer) list" where
  "run_guard g [] = (g, [])"
| "run_guard g ((now, c) # cs) =
     (let (g1, a) = guard_step g now c; (g2, as) = run_guard g1 cs in (g2, (call_key c, a) # as))"

section \<open>What a key's record means from a time on\<close>

text \<open>
  Two records are the same from \<open>now\<close> on when they have the same residue: a record whose lock and
  window are both over is no record, and a lock that is over does not matter.
\<close>

definition residue :: "nat \<Rightarrow> nat \<Rightarrow> attempts_rec option \<Rightarrow> attempts_rec option" where
  "residue w now x =
     (case x of
        None \<Rightarrow> None
      | Some a \<Rightarrow>
          if locked_until a \<le> now \<and> w \<le> now - window_start a then None
          else Some (a\<lparr>locked_until := (if locked_until a \<le> now then 0 else locked_until a)\<rparr>))"

text \<open>The two halves of a recorded failure: opening the window, and counting.\<close>

definition opened :: "nat \<Rightarrow> nat \<Rightarrow> attempts_rec option \<Rightarrow> attempts_rec" where
  "opened w now x =
     (let e0 = (case x of Some a \<Rightarrow> a | None \<Rightarrow> \<lparr>failures = 0, window_start = now, locked_until = 0\<rparr>)
      in if now - window_start e0 \<ge> w then e0\<lparr>failures := 0, window_start := now\<rparr> else e0)"

definition counted :: "nat \<Rightarrow> nat \<Rightarrow> nat \<Rightarrow> attempts_rec \<Rightarrow> attempts_rec \<times> nat option" where
  "counted mx secs now e =
     (let n = (failures e + 1) mod 2 ^ 32
      in if mx \<le> n
         then (e\<lparr>locked_until := wrapping_add64 now secs, failures := 0\<rparr>, Some (wrapping_add64 now secs))
         else (e\<lparr>failures := n\<rparr>, None))"

definition failed :: "nat \<Rightarrow> nat \<Rightarrow> nat \<Rightarrow> nat \<Rightarrow> attempts_rec option \<Rightarrow> attempts_rec \<times> nat option" where
  "failed mx secs w now x = counted mx secs now (opened w now x)"

definition guard_ok :: "login_guard \<Rightarrow> bool" where
  "guard_ok g \<longleftrightarrow> hm_ok (attempts g)"

abbreviation same_config :: "login_guard \<Rightarrow> login_guard \<Rightarrow> bool" where
  "same_config g g' \<equiv> max_failures g = max_failures g' \<and> lockout_secs g = lockout_secs g' \<and>
     window_secs g = window_secs g'"

lemma residue_idem: "now \<le> now' \<Longrightarrow> residue w now' (residue w now x) = residue w now' x"
  by (auto simp: residue_def split: option.splits if_splits)

lemma residue_later: "residue w now x = residue w now y \<Longrightarrow> now \<le> now' \<Longrightarrow> residue w now' x = residue w now' y"
  by (metis residue_idem)

lemma swept_ok: "guard_ok g \<Longrightarrow> hm_ok (swept g now)"
  by (simp add: guard_ok_def swept_def)

lemma swept_residue:
  "guard_ok g \<Longrightarrow> residue (window_secs g) now (hm_get (swept g now) k) = residue (window_secs g) now (hm_get (attempts g) k)"
  by (auto simp: guard_ok_def swept_def hm.get_retain residue_def split: option.splits bind_splits if_splits)

lemma record_failure_failed:
  "record_failure_at g k now =
     (let (a, r) = failed (max_failures g) (lockout_secs g) (window_secs g) now (hm_get (swept g now) k)
      in (g\<lparr>attempts := hm_insert (swept g now) k a\<rparr>, r))"
  by (simp add: record_failure_at_def failed_def opened_def counted_def Let_def)

lemma opened_residue:
  "\<exists>l. opened w now (residue w now x) = opened w now x\<lparr>locked_until := l\<rparr> \<and>
     (l = locked_until (opened w now x) \<or> l \<le> now \<and> locked_until (opened w now x) \<le> now)"
proof (cases x)
  case None
  then show ?thesis by (intro exI [of _ 0]) (simp add: residue_def opened_def Let_def)
next
  case (Some a)
  show ?thesis
  proof (cases "locked_until a \<le> now")
    case True
    then have "opened w now (residue w now x) = opened w now x\<lparr>locked_until := 0\<rparr>"
      by (cases "w \<le> now - window_start a") (simp_all add: Some residue_def opened_def Let_def)
    moreover have "locked_until (opened w now x) \<le> now" using True by (simp add: Some opened_def)
    ultimately show ?thesis by blast
  next
    case False
    then have "residue w now x = x" by (simp add: Some residue_def)
    then show ?thesis by (metis attempts_rec.surjective attempts_rec.update_convs(3))
  qed
qed

lemma counted_residue:
  assumes "l = locked_until e \<or> l \<le> now \<and> locked_until e \<le> now"
  shows "snd (counted mx secs now (e\<lparr>locked_until := l\<rparr>)) = snd (counted mx secs now e)"
    and "residue w now (Some (fst (counted mx secs now (e\<lparr>locked_until := l\<rparr>)))) =
         residue w now (Some (fst (counted mx secs now e)))"
  using assms by (auto simp: counted_def Let_def residue_def)

lemma failed_residue:
  assumes "residue w now x = residue w now y"
  shows "snd (failed mx secs w now x) = snd (failed mx secs w now y)"
    and "residue w now (Some (fst (failed mx secs w now x))) = residue w now (Some (fst (failed mx secs w now y)))"
proof -
  have "snd (failed mx secs w now (residue w now z)) = snd (failed mx secs w now z) \<and>
      residue w now (Some (fst (failed mx secs w now (residue w now z)))) =
      residue w now (Some (fst (failed mx secs w now z)))" for z
    using opened_residue [of w now z] counted_residue [where e = "opened w now z" and now = now and mx = mx and secs = secs]
    unfolding failed_def by metis
  from this [of x] this [of y] assms
  show "snd (failed mx secs w now x) = snd (failed mx secs w now y)"
    "residue w now (Some (fst (failed mx secs w now x))) = residue w now (Some (fst (failed mx secs w now y)))"
    by simp_all
qed

lemma guard_step_facts:
  assumes "guard_ok g"
  shows "guard_ok (fst (guard_step g now c))" and "same_config (fst (guard_step g now c)) g"
    and "k \<noteq> call_key c \<Longrightarrow>
      residue (window_secs g) now (hm_get (attempts (fst (guard_step g now c))) k) =
      residue (window_secs g) now (hm_get (attempts g) k)"
proof -
  note ok = assms swept_ok [OF assms, of now]
  show "guard_ok (fst (guard_step g now c))"
    using ok by (cases c) (auto simp: record_failure_failed record_success_def guard_ok_def split: prod.splits)
  show "same_config (fst (guard_step g now c)) g"
    by (cases c) (auto simp: record_failure_failed record_success_def split: prod.splits)
  show "k \<noteq> call_key c \<Longrightarrow>
      residue (window_secs g) now (hm_get (attempts (fst (guard_step g now c))) k) =
      residue (window_secs g) now (hm_get (attempts g) k)"
    using ok swept_residue [OF assms, of now k]
    by (cases c) (auto simp: record_failure_failed record_success_def guard_ok_def split: prod.splits)
qed

lemma check_residue:
  "residue w now x = residue w now y \<Longrightarrow>
     (case x of None \<Rightarrow> True | Some a \<Rightarrow> locked_until a \<le> now) =
     (case y of None \<Rightarrow> True | Some a \<Rightarrow> locked_until a \<le> now)"
proof -
  have "(case x of None \<Rightarrow> True | Some a \<Rightarrow> locked_until a \<le> now) =
     (case residue w now x of None \<Rightarrow> True | Some a \<Rightarrow> locked_until a \<le> now)" for x
    by (auto simp: residue_def split: option.splits)
  from this [of x] this [of y] show "residue w now x = residue w now y \<Longrightarrow> ?thesis" by simp
qed

lemma remaining_residue:
  "residue w now x = residue w now y \<Longrightarrow>
     (case x of None \<Rightarrow> None | Some a \<Rightarrow> if now < locked_until a then Some (locked_until a - now) else None) =
     (case y of None \<Rightarrow> None | Some a \<Rightarrow> if now < locked_until a then Some (locked_until a - now) else None)"
proof -
  have "(case x of None \<Rightarrow> None | Some a \<Rightarrow> if now < locked_until a then Some (locked_until a - now) else None) =
     (case residue w now x of None \<Rightarrow> None | Some a \<Rightarrow> if now < locked_until a then Some (locked_until a - now) else None)" for x
    by (auto simp: residue_def split: option.splits)
  from this [of x] this [of y] show "residue w now x = residue w now y \<Longrightarrow> ?thesis" by simp
qed

lemma guard_step_congr:
  assumes "guard_ok g" "guard_ok g'" "same_config g g'"
    and "residue (window_secs g) now (hm_get (attempts g) (call_key c)) =
         residue (window_secs g) now (hm_get (attempts g') (call_key c))"
  shows "snd (guard_step g now c) = snd (guard_step g' now c)"
    and "residue (window_secs g) now (hm_get (attempts (fst (guard_step g now c))) (call_key c)) =
         residue (window_secs g) now (hm_get (attempts (fst (guard_step g' now c))) (call_key c))"
proof -
  note sw = swept_ok [OF assms(1), of now] swept_ok [OF assms(2), of now]
  have "residue (window_secs g) now (hm_get (swept g now) (call_key c)) =
      residue (window_secs g) now (hm_get (swept g' now) (call_key c))"
    using assms swept_residue [OF assms(1), of now "call_key c"] swept_residue [OF assms(2), of now "call_key c"]
    by simp
  note f = failed_residue [OF this, of "max_failures g" "lockout_secs g"]
  show "snd (guard_step g now c) = snd (guard_step g' now c)"
    using f assms(3) check_residue [OF assms(4)] remaining_residue [OF assms(4)]
    by (cases c) (auto simp: check_at_def locked_for_at_def record_failure_failed split: prod.splits)
  show "residue (window_secs g) now (hm_get (attempts (fst (guard_step g now c))) (call_key c)) =
        residue (window_secs g) now (hm_get (attempts (fst (guard_step g' now c))) (call_key c))"
    using f assms sw
    by (cases c) (auto simp: record_failure_failed record_success_def guard_ok_def split: prod.splits)
qed

lemma run_isolated:
  "guard_ok g \<Longrightarrow> guard_ok g' \<Longrightarrow> same_config g g' \<Longrightarrow> sorted (map fst cs) \<Longrightarrow>
   (\<And>t. t \<in> set (map fst cs) \<Longrightarrow> t0 \<le> t) \<Longrightarrow>
   residue (window_secs g) t0 (hm_get (attempts g) k) = residue (window_secs g) t0 (hm_get (attempts g') k) \<Longrightarrow>
   filter (\<lambda>p. fst p = k) (snd (run_guard g cs)) =
     snd (run_guard g' (filter (\<lambda>p. call_key (snd p) = k) cs))"
proof (induction cs arbitrary: g g' t0)
  case (Cons p cs)
  obtain now c where p: "p = (now, c)" by (cases p)
  let ?g = "fst (guard_step g now c)" and ?g' = "fst (guard_step g' now c)"
  have t0: "t0 \<le> now" using Cons.prems(5) p by simp
  have now: "residue (window_secs g) now (hm_get (attempts g) k) = residue (window_secs g) now (hm_get (attempts g') k)"
    using Cons.prems(6) t0 by (rule residue_later)
  note g = guard_step_facts [OF Cons.prems(1), where now = now and c = c] and g' = guard_step_facts [OF Cons.prems(2), where now = now and c = c]
  have later: "sorted (map fst cs)" "t \<in> set (map fst cs) \<Longrightarrow> now \<le> t" for t
    using Cons.prems(4) p by auto
  show ?case
  proof (cases "call_key c = k")
    case True
    note s = guard_step_congr [OF Cons.prems(1-3) now [folded True]]
    have "filter (\<lambda>p. fst p = k) (snd (run_guard ?g cs)) =
        snd (run_guard ?g' (filter (\<lambda>p. call_key (snd p) = k) cs))"
      using g g' s(2) True Cons.prems(3) by (intro Cons.IH [OF _ _ _ later]) auto
    with p True s(1) show ?thesis by (simp add: split_beta)
  next
    case False
    have "filter (\<lambda>p. fst p = k) (snd (run_guard ?g cs)) =
        snd (run_guard g' (filter (\<lambda>p. call_key (snd p) = k) cs))"
      using g Cons.prems(2,3) now False by (intro Cons.IH [OF _ _ _ later]) auto
    with p False show ?thesis by (simp add: split_beta)
  qed
qed simp

section \<open>Bursts\<close>

definition failures_at :: "string \<Rightarrow> nat list \<Rightarrow> (nat \<times> call) list" where
  "failures_at k ts = map (\<lambda>t. (t, Failure k)) ts"

lemma failed_counts:
  assumes "window_start a \<le> t" "t - window_start a < w" "failures a + 1 < 2 ^ 32"
  shows "failed mx secs w t (Some a) =
    (if mx \<le> failures a + 1
     then (a\<lparr>failures := 0, locked_until := wrapping_add64 t secs\<rparr>, Some (wrapping_add64 t secs))
     else (a\<lparr>failures := failures a + 1\<rparr>, None))"
  using assms by (simp add: failed_def opened_def counted_def Let_def)

text \<open>The failures of one key alone, while the map is small enough not to be swept.\<close>

fun strikes :: "nat \<Rightarrow> nat \<Rightarrow> nat \<Rightarrow> attempts_rec option \<Rightarrow> nat list \<Rightarrow> attempts_rec option \<times> nat option list" where
  "strikes mx secs w x [] = (x, [])"
| "strikes mx secs w x (t # ts) =
     (let (a, r) = failed mx secs w t x; (x', rs) = strikes mx secs w (Some a) ts in (x', r # rs))"

lemma failure_step:
  assumes "guard_ok g" "hm_get (attempts g) k = x"
    and "hm_len (attempts g) \<le> 1023 \<or> x \<noteq> None \<and> hm_len (attempts g) \<le> 1024"
    and "failed (max_failures g) (lockout_secs g) (window_secs g) t x = (a, r)"
  obtains g1 where "guard_step g t (Failure k) = (g1, Tripped r)" "guard_ok g1" "same_config g1 g"
    "hm_get (attempts g1) k = Some a" "hm_len (attempts g1) \<le> 1024"
proof -
  have sw: "swept g t = attempts g" using assms(3) by (auto simp: swept_def)
  with assms have "guard_step g t (Failure k) = (g\<lparr>attempts := hm_insert (attempts g) k a\<rparr>, Tripped r)"
    by (simp add: record_failure_failed)
  moreover have "hm_ok (attempts g)" using assms(1) by (simp add: guard_ok_def)
  ultimately show thesis
    using assms that by (auto simp: guard_ok_def hm.len_insert)
qed

lemma run_failures:
  "guard_ok g \<Longrightarrow> hm_get (attempts g) k = x \<Longrightarrow>
   hm_len (attempts g) \<le> 1023 \<or> x \<noteq> None \<and> hm_len (attempts g) \<le> 1024 \<Longrightarrow>
   snd (run_guard g (failures_at k ts)) =
      map (\<lambda>r. (k, Tripped r)) (snd (strikes (max_failures g) (lockout_secs g) (window_secs g) x ts)) \<and>
   hm_get (attempts (fst (run_guard g (failures_at k ts)))) k =
      fst (strikes (max_failures g) (lockout_secs g) (window_secs g) x ts)"
proof (induction ts arbitrary: g x)
  case (Cons t ts)
  obtain a r where ar: "failed (max_failures g) (lockout_secs g) (window_secs g) t x = (a, r)"
    by (metis surj_pair)
  obtain g1 where s: "guard_step g t (Failure k) = (g1, Tripped r)" "guard_ok g1" "same_config g1 g"
      "hm_get (attempts g1) k = Some a" "hm_len (attempts g1) \<le> 1024"
    using failure_step [OF Cons.prems ar] by blast
  with ar Cons.IH [of g1 "Some a"] show ?case by (auto simp: failures_at_def split: prod.splits)
qed (simp add: failures_at_def)

lemma strikes_window:
  assumes "\<And>t. t \<in> set ts \<Longrightarrow> window_start a \<le> t \<and> t - window_start a < w"
    and "failures a + length ts \<le> mx" "mx < 2 ^ 32" "failures a < mx"
  shows "strikes mx secs w (Some a) ts =
    (if failures a + length ts < mx
     then (Some (a\<lparr>failures := failures a + length ts\<rparr>), replicate (length ts) None)
     else (Some (a\<lparr>failures := 0, locked_until := wrapping_add64 (last ts) secs\<rparr>),
           replicate (length ts - 1) None @ [Some (wrapping_add64 (last ts) secs)]))"
  using assms
proof (induction ts arbitrary: a)
  case (Cons t ts)
  have f: "failed mx secs w t (Some a) =
    (if mx \<le> failures a + 1
     then (a\<lparr>failures := 0, locked_until := wrapping_add64 t secs\<rparr>, Some (wrapping_add64 t secs))
     else (a\<lparr>failures := failures a + 1\<rparr>, None))"
    using Cons.prems by (intro failed_counts) auto
  show ?case
  proof (cases "mx \<le> failures a + 1")
    case True
    with Cons.prems(2) have "length ts = 0" by (simp only: list.size)
    then have "ts = []" by simp
    with f True Cons.prems show ?thesis by simp
  next
    case False
    let ?a = "a\<lparr>failures := failures a + 1\<rparr>"
    have "strikes mx secs w (Some ?a) ts =
      (if failures ?a + length ts < mx
       then (Some (?a\<lparr>failures := failures ?a + length ts\<rparr>), replicate (length ts) None)
       else (Some (?a\<lparr>failures := 0, locked_until := wrapping_add64 (last ts) secs\<rparr>),
             replicate (length ts - 1) None @ [Some (wrapping_add64 (last ts) secs)]))"
      using Cons.prems False by (intro Cons.IH) auto
    with f False Cons.prems show ?thesis
      by (cases ts) (auto simp: replicate_append_same [symmetric])
  qed
qed simp

lemma sorted_last: "sorted ts \<Longrightarrow> u \<in> set ts \<Longrightarrow> u \<le> last (ts :: nat list)"
  by (induction ts) auto

lemma first_strike:
  "0 < mx \<Longrightarrow> failed mx secs w t None =
     (if mx = 1 then (\<lparr>failures = 0, window_start = t, locked_until = wrapping_add64 t secs\<rparr>, Some (wrapping_add64 t secs))
      else (\<lparr>failures = 1, window_start = t, locked_until = 0\<rparr>, None))"
  by (auto simp: failed_def opened_def counted_def Let_def)

lemma strikes_burst:
  assumes "ts \<noteq> []" "sorted ts" "last ts - hd ts < w" "length ts \<le> mx" "mx < 2 ^ 32"
  shows "snd (strikes mx secs w None ts) =
      (if length ts < mx then replicate (length ts) None
       else replicate (length ts - 1) None @ [Some (wrapping_add64 (last ts) secs)])"
    and "\<exists>a. fst (strikes mx secs w None ts) = Some a \<and>
      locked_until a = (if length ts < mx then 0 else wrapping_add64 (last ts) secs)"
proof -
  obtain t us where ts: "ts = t # us" using assms(1) by (cases ts) auto
  let ?a = "\<lparr>failures = 1, window_start = t, locked_until = 0\<rparr>"
  have "snd (strikes mx secs w None ts) =
      (if length ts < mx then replicate (length ts) None
       else replicate (length ts - 1) None @ [Some (wrapping_add64 (last ts) secs)]) \<and>
    (\<exists>a. fst (strikes mx secs w None ts) = Some a \<and>
      locked_until a = (if length ts < mx then 0 else wrapping_add64 (last ts) secs))"
  proof (cases "mx = 1")
    case True
    with assms(4) ts have "us = []" by simp
    with ts True show ?thesis by (simp add: first_strike)
  next
    case False
    have "window_start ?a \<le> u \<and> u - window_start ?a < w" if "u \<in> set us" for u
    proof -
      have "t \<le> u" using assms(2) ts that by auto
      moreover have "u \<le> last ts" using assms(2) ts that by (intro sorted_last) auto
      ultimately show ?thesis using assms(3) ts by simp
    qed
    moreover have "failures ?a + length us \<le> mx" "failures ?a < mx" using assms(4) False ts by auto
    ultimately have "strikes mx secs w (Some ?a) us =
      (if failures ?a + length us < mx
       then (Some (?a\<lparr>failures := failures ?a + length us\<rparr>), replicate (length us) None)
       else (Some (?a\<lparr>failures := 0, locked_until := wrapping_add64 (last us) secs\<rparr>),
             replicate (length us - 1) None @ [Some (wrapping_add64 (last us) secs)]))"
      using assms(5) by (intro strikes_window) auto
    moreover have "us \<noteq> []" if "\<not> length ts < mx" using that False assms(4,5) ts by auto
    ultimately show ?thesis
      using ts False assms(4) by (cases us) (auto simp: first_strike)
  qed
  then show "snd (strikes mx secs w None ts) =
      (if length ts < mx then replicate (length ts) None
       else replicate (length ts - 1) None @ [Some (wrapping_add64 (last ts) secs)])"
    "\<exists>a. fst (strikes mx secs w None ts) = Some a \<and>
      locked_until a = (if length ts < mx then 0 else wrapping_add64 (last ts) secs)" by blast+
qed

section \<open>Properties\<close>

text \<open>
  Keys do not interfere. In any sequence of calls whose times do not go backwards, on any
  guard, the answers that the calls for one key get are exactly those they would get if no call
  for any other key had been made, although all keys share the map and recording a failure for
  one key may sweep the records of the others.
\<close>

theorem lockout_isolation:
  assumes "guard_ok g" "sorted (map fst cs)"
  shows "filter (\<lambda>p. fst p = k) (snd (run_guard g cs)) =
    snd (run_guard g (filter (\<lambda>p. call_key (snd p) = k) cs))"
  using assms by (intro run_isolated [where ?t0.0 = 0]) auto

theorem lockout_isolation_witness:
  "filter (\<lambda>p. fst p = ''a'') (snd (run_guard (guard_new 2 60)
       [(0, Failure ''a''), (1, Failure ''b''), (2, Failure ''a''), (3, Success ''b''), (4, Check ''a'')])) =
     [(''a'', Tripped None), (''a'', Tripped (Some 62)), (''a'', May False)]"
proof -
  let ?cs = "[(0 :: nat, Failure ''a''), (1, Failure ''b''), (2, Failure ''a''), (3, Success ''b''), (4, Check ''a'')]"
  have "guard_ok (guard_new 2 60)" "sorted (map fst ?cs)" by code_simp+
  then have "filter (\<lambda>p. fst p = ''a'') (snd (run_guard (guard_new 2 60) ?cs)) =
      snd (run_guard (guard_new 2 60) (filter (\<lambda>p. call_key (snd p) = ''a'') ?cs))"
    by (rule lockout_isolation)
  also have "\<dots> = [(''a'', Tripped None), (''a'', Tripped (Some 62)), (''a'', May False)]"
    by code_simp
  finally show ?thesis .
qed

text \<open>
  A burst locks, and only a full burst. Starting from a key without a record, a run of at
  most \<open>max_failures\<close> failures inside one window reports no lock before the last one; if there
  are \<open>max_failures\<close> of them the last reports a lock until its time plus the lockout, and the
  guard then refuses the key exactly until that time; if there are fewer the key stays allowed.
\<close>

theorem lockout_burst:
  assumes "guard_ok g" "hm_get (attempts g) k = None" "hm_len (attempts g) \<le> 1023"
    and "ts \<noteq> []" "sorted ts" "last ts - hd ts < window_secs g"
    and "length ts \<le> max_failures g" "max_failures g < 2 ^ 32" "last ts + lockout_secs g < 2 ^ 64"
  shows "snd (run_guard g (failures_at k ts)) =
      map (\<lambda>r. (k, Tripped r))
        (if length ts < max_failures g then replicate (length ts) None
         else replicate (length ts - 1) None @ [Some (last ts + lockout_secs g)]) \<and>
    check_at (fst (run_guard g (failures_at k ts))) k now =
      (length ts < max_failures g \<or> last ts + lockout_secs g \<le> now)"
proof -
  let ?st = "strikes (max_failures g) (lockout_secs g) (window_secs g) None ts"
  have w: "wrapping_add64 (last ts) (lockout_secs g) = last ts + lockout_secs g"
    using assms(9) by (simp add: wrapping_add64_def)
  have run: "snd (run_guard g (failures_at k ts)) = map (\<lambda>r. (k, Tripped r)) (snd ?st) \<and>
      hm_get (attempts (fst (run_guard g (failures_at k ts)))) k = fst ?st"
    using assms(1-3) by (intro run_failures) auto
  obtain a where "fst ?st = Some a"
    "locked_until a = (if length ts < max_failures g then 0 else last ts + lockout_secs g)"
    using strikes_burst(2) [OF assms(4-8), of "lockout_secs g"] w by auto
  with run w strikes_burst(1) [OF assms(4-8), of "lockout_secs g"] show ?thesis
    by (simp add: check_at_def)
qed

theorem lockout_burst_witness:
  "check_at (fst (run_guard (guard_new 3 60) (failures_at ''u'' [10, 20, 30]))) ''u'' 89 = False"
proof -
  let ?g = "guard_new 3 60" and ?ts = "[10, 20, 30] :: nat list"
  have "guard_ok ?g" "hm_get (attempts ?g) ''u'' = None" "hm_len (attempts ?g) \<le> 1023"
    "?ts \<noteq> []" "sorted ?ts" "last ?ts - hd ?ts < window_secs ?g"
    "length ?ts \<le> max_failures ?g" "max_failures ?g < 2 ^ 32" "last ?ts + lockout_secs ?g < 2 ^ 64"
    by code_simp+
  from lockout_burst [OF this, of 89] show ?thesis by (simp add: guard_new_def)
qed

text \<open>
  Two promises of the module's documentation that the code does not keep. The window is not
  rolling: it is anchored at the first failure, so a burst that straddles its end is not counted
  together (three failures within two seconds pass a limit of three per ten seconds). And a
  failure recorded during a lockout returns \<open>None\<close>, because the count was reset when the lock
  was set, although it is documented to return the end of the lock.
\<close>

theorem lockout_divergences:
  "snd (run_guard (guard_new 3 10) (failures_at ''u'' [0, 9, 10, 11])) =
     map (\<lambda>r. (''u'', Tripped r)) [None, None, None, None] \<and>
   snd (run_guard (guard_new 2 60) (failures_at ''u'' [0, 1] @ [(2, Check ''u''), (2, Failure ''u'')])) =
     [(''u'', Tripped None), (''u'', Tripped (Some 61)), (''u'', May False), (''u'', Tripped None)]"
  by code_simp

end
