(* ===== verification/Dns_Message.thy ===== *)
theory Dns_Message
  imports Rust_Text
begin

text \<open>
  \<open>kernway-dns/src/message.rs\<close> (and the error type of \<open>lib.rs\<close>): the DNS wire format. A packet is
  a \<^typ>\<open>string\<close> of bytes, read through a cursor; every reader returns an error or a value with
  the new cursor. The decompression loop has no fuel: its termination proof uses exactly the two
  caps of the code, the number of pointer jumps and the length of the name.
\<close>

unbundle bit_operations_syntax

section \<open>The model\<close>

datatype dns_error =
    Truncated | MalformedName | NameTooLong | Mismatch | NameNotFound | ServerFailure nat
  | NoAddresses | DnsIo string

definition TYPE_A :: nat where "TYPE_A = 1"
definition TYPE_AAAA :: nat where "TYPE_AAAA = 28"
definition TYPE_OPT :: nat where "TYPE_OPT = 41"
definition CLASS_IN :: nat where "CLASS_IN = 1"
definition EDNS_UDP_SIZE :: nat where "EDNS_UDP_SIZE = 1232"
definition MAX_LABEL :: nat where "MAX_LABEL = 63"
definition MAX_NAME :: nat where "MAX_NAME = 255"
definition MAX_JUMPS :: nat where "MAX_JUMPS = 32"

record resolved_addr =
  ip :: ip_addr
  ttl :: nat

record dns_response =
  rid :: nat
  truncated :: bool
  rcode :: nat
  addresses :: "resolved_addr list"

text \<open>\<open>u16::to_be_bytes\<close>.\<close>

definition be16 :: "nat \<Rightarrow> string" where
  "be16 n = [char_of (n div 256), char_of (n mod 256)]"

fun encode_labels :: "string list \<Rightarrow> nat \<Rightarrow> string \<Rightarrow> dns_error + string" where
  "encode_labels [] tot out = Inr out"
| "encode_labels (l # ls) tot out =
     (if l = [] \<or> length l > MAX_LABEL then Inl NameTooLong
      else if tot + 1 + length l > MAX_NAME then Inl NameTooLong
      else encode_labels ls (tot + 1 + length l) (out @ [char_of (length l)] @ l))"

definition encode_name :: "string \<Rightarrow> string \<Rightarrow> dns_error + string" where
  "encode_name out name =
     (let trimmed_name = (case strip_suffix ''.'' name of Some t \<Rightarrow> t | None \<Rightarrow> name)
      in bind_run (if trimmed_name \<noteq> [] then encode_labels (split_on (CHR ''.'') trimmed_name) 1 out else Inr out)
           (\<lambda>out'. Inr (out' @ [CHR 0x00])))"

definition encode_query_inner :: "nat \<Rightarrow> string \<Rightarrow> nat \<Rightarrow> nat option \<Rightarrow> dns_error + string" where
  "encode_query_inner qid name qtype edns =
     bind_run (encode_name (be16 qid @ be16 0x0100 @ be16 1 @ be16 0 @ be16 0 @
                 be16 (if edns = None then 0 else 1)) name) (\<lambda>b.
       Inr (b @ be16 qtype @ be16 CLASS_IN @
            (case edns of
               None \<Rightarrow> []
             | Some udp \<Rightarrow> [CHR 0x00] @ be16 TYPE_OPT @ be16 udp @ replicate 4 (CHR 0x00) @ be16 0)))"

definition encode_query :: "nat \<Rightarrow> string \<Rightarrow> nat \<Rightarrow> dns_error + string" where
  "encode_query qid name qtype = encode_query_inner qid name qtype None"

definition encode_query_edns :: "nat \<Rightarrow> string \<Rightarrow> nat \<Rightarrow> nat \<Rightarrow> dns_error + string" where
  "encode_query_edns qid name qtype udp = encode_query_inner qid name qtype (Some udp)"

text \<open>The cursor: each reader maps a buffer and a position to a value and a new position.\<close>

type_synonym 'a reader = "string \<Rightarrow> nat \<Rightarrow> dns_error + ('a \<times> nat)"

definition byte_get :: "string \<Rightarrow> nat \<Rightarrow> dns_error + nat" where
  "byte_get b i = (if i < length b then Inr (ord (b ! i)) else Inl Truncated)"

definition r_u8 :: "nat reader" where
  "r_u8 b pos = bind_run (byte_get b pos) (\<lambda>x. Inr (x, pos + 1))"

definition r_u16 :: "nat reader" where
  "r_u16 b pos =
     bind_run (r_u8 b pos) (\<lambda>(hi, p1). bind_run (r_u8 b p1) (\<lambda>(lo, p2).
       Inr (push_bit 8 hi OR lo, p2)))"

definition r_u32 :: "nat reader" where
  "r_u32 b pos =
     bind_run (r_u16 b pos) (\<lambda>(hi, p1). bind_run (r_u16 b p1) (\<lambda>(lo, p2).
       Inr (push_bit 16 hi OR lo, p2)))"

definition r_take :: "nat \<Rightarrow> string reader" where
  "r_take n b pos =
     (if pos + n \<le> length b then Inr (take n (drop pos b), pos + n) else Inl Truncated)"

text \<open>
  The loop of \<open>name\<close>: the labels read so far, the length counted, the current offset, where the
  caller's cursor goes once a pointer was followed, and the number of jumps.
\<close>

function name_loop :: "string \<Rightarrow> string \<Rightarrow> nat \<Rightarrow> nat \<Rightarrow> nat option \<Rightarrow> nat \<Rightarrow> dns_error + (string \<times> nat)" where
  "name_loop b labels name_len pos ret jumps =
     (case byte_get b pos of
        Inl e \<Rightarrow> Inl e
      | Inr len \<Rightarrow>
          if len AND 0xC0 = 0 then
            if len = 0 then Inr (labels, case ret of None \<Rightarrow> pos + 1 | Some p \<Rightarrow> p)
            else if pos + 1 + len > length b then Inl Truncated
            else if name_len + len + 1 > MAX_NAME then Inl NameTooLong
            else name_loop b ((if labels = [] then [] else labels @ ''.'') @ take len (drop (pos + 1) b))
                   (name_len + len + 1) (pos + 1 + len) ret jumps
          else if len AND 0xC0 = 0xC0 then
            (case byte_get b (pos + 1) of
               Inl e \<Rightarrow> Inl e
             | Inr b2 \<Rightarrow>
                 let target = push_bit 8 (len AND 0x3F) OR b2;
                     ret' = (case ret of None \<Rightarrow> pos + 2 | Some p \<Rightarrow> p)
                 in if jumps + 1 > MAX_JUMPS \<or> target \<ge> pos then Inl MalformedName
                    else name_loop b labels name_len target (Some ret') (jumps + 1))
          else Inl MalformedName)"
  by pat_completeness auto
termination
  by (relation "measure (\<lambda>(b, labels, name_len, pos, ret, jumps). (MAX_NAME - name_len) + (MAX_JUMPS - jumps))") auto

declare name_loop.simps [simp del]

definition r_name :: "string reader" where
  "r_name b pos = bind_run (name_loop b [] 0 pos None 0) (\<lambda>(labels, p). Inr (from_utf8_lossy labels, p))"

definition skip_name :: "unit reader" where
  "skip_name b pos = bind_run (r_name b pos) (\<lambda>(_, p). Inr ((), p))"

fun skip_questions :: "nat \<Rightarrow> unit reader" where
  "skip_questions 0 b pos = Inr ((), pos)"
| "skip_questions (Suc n) b pos =
     bind_run (skip_name b pos) (\<lambda>(_, p1). bind_run (r_u16 b p1) (\<lambda>(_, p2). bind_run (r_u16 b p2) (\<lambda>(_, p3).
       skip_questions n b p3)))"

definition record_addr :: "nat \<Rightarrow> nat \<Rightarrow> nat \<Rightarrow> string \<Rightarrow> resolved_addr list" where
  "record_addr rtype rdlen secs rdata =
     (if rtype = TYPE_A \<and> rdlen = 4 then
        [\<lparr>ip = IpV4 (ord (rdata ! 0)) (ord (rdata ! 1)) (ord (rdata ! 2)) (ord (rdata ! 3)), ttl = secs\<rparr>]
      else if rtype = TYPE_AAAA \<and> rdlen = 16 then [\<lparr>ip = IpV6 (map ord rdata), ttl = secs\<rparr>]
      else [])"

fun read_answers :: "nat \<Rightarrow> resolved_addr list \<Rightarrow> resolved_addr list reader" where
  "read_answers 0 acc b pos = Inr (acc, pos)"
| "read_answers (Suc n) acc b pos =
     bind_run (skip_name b pos) (\<lambda>(_, p1).
     bind_run (r_u16 b p1) (\<lambda>(rtype, p2).
     bind_run (r_u16 b p2) (\<lambda>(_, p3).
     bind_run (r_u32 b p3) (\<lambda>(secs, p4).
     bind_run (r_u16 b p4) (\<lambda>(rdlen, p5).
     bind_run (r_take rdlen b p5) (\<lambda>(rdata, p6).
       read_answers n (acc @ record_addr rtype rdlen secs rdata) b p6))))))"

definition parse_response :: "string \<Rightarrow> dns_error + dns_response" where
  "parse_response b =
     bind_run (r_u16 b 0) (\<lambda>(i, p1).
     bind_run (r_u16 b p1) (\<lambda>(flags, p2).
     bind_run (r_u16 b p2) (\<lambda>(qdcount, p3).
     bind_run (r_u16 b p3) (\<lambda>(ancount, p4).
     bind_run (r_u16 b p4) (\<lambda>(_, p5).
     bind_run (r_u16 b p5) (\<lambda>(_, p6).
     bind_run (skip_questions qdcount b p6) (\<lambda>(_, p7).
     bind_run (read_answers ancount [] b p7) (\<lambda>(addrs, p8).
       Inr \<lparr>rid = i, truncated = (drop_bit 9 flags AND 1 = 1), rcode = flags AND 0x000F, addresses = addrs\<rparr>))))))))"

section \<open>Bytes\<close>

lemma be16_length [simp]: "length (be16 n) = 2"
  by (simp add: be16_def)

lemma r_u8_Inr: "r_u8 b pos = Inr (x, p) \<longleftrightarrow> pos < length b \<and> x = ord (b ! pos) \<and> p = pos + 1"
  by (auto simp: r_u8_def byte_get_def)

lemma r_u16_Inr:
  "r_u16 b pos = Inr (x, p) \<longleftrightarrow>
     pos + 1 < length b \<and> x = ord (b ! pos) * 256 + ord (b ! (pos + 1)) \<and> p = pos + 2"
proof -
  have "push_bit 8 (ord (b ! pos)) OR ord (b ! (pos + 1)) = ord (b ! pos) * 256 + ord (b ! (pos + 1))"
    by (subst push_or_add) simp_all
  then show ?thesis by (auto simp: r_u16_def bind_run_Inr r_u8_Inr)
qed

lemma r_u16_bound: "r_u16 b pos = Inr (x, p) \<Longrightarrow> x < 65536"
proof -
  assume "r_u16 b pos = Inr (x, p)"
  then have "x = ord (b ! pos) * 256 + ord (b ! (pos + 1))" by (simp add: r_u16_Inr)
  with ord_less [of "b ! pos"] ord_less [of "b ! (pos + 1)"] show ?thesis by linarith
qed

lemma r_u32_Inr:
  "r_u32 b pos = Inr (x, p) \<longleftrightarrow>
     (\<exists>hi lo. r_u16 b pos = Inr (hi, pos + 2) \<and> r_u16 b (pos + 2) = Inr (lo, pos + 4) \<and>
        x = hi * 65536 + lo \<and> p = pos + 4)"
proof -
  have "push_bit 16 hi OR lo = hi * 65536 + lo" if "r_u16 b q = Inr (lo, q')" for hi lo q q'
    using r_u16_bound [OF that] by (subst push_or_add) simp_all
  then show ?thesis by (fastforce simp: r_u32_def bind_run_Inr r_u16_Inr)
qed

lemma r_u32_bound: "r_u32 b pos = Inr (x, p) \<Longrightarrow> x < 2 ^ 32"
proof -
  assume "r_u32 b pos = Inr (x, p)"
  then obtain hi lo where "x = hi * 65536 + lo" "hi < 65536" "lo < 65536"
    by (auto simp: r_u32_Inr dest!: r_u16_bound)
  then show ?thesis by simp
qed

lemma r_take_Inr: "r_take n b pos = Inr (x, p) \<longleftrightarrow> pos + n \<le> length b \<and> x = take n (drop pos b) \<and> p = pos + n"
  by (auto simp: r_take_def)

text \<open>Reading back what was written at the cursor.\<close>

lemma r_u16_be16: "n < 65536 \<Longrightarrow> r_u16 (p @ be16 n @ r) (length p) = Inr (n, length p + 2)"
  by (simp add: r_u16_Inr be16_def nth_append)

section \<open>Names\<close>

lemma len_class:
  fixes len :: nat
  assumes "len < 256"
  shows "(len AND 0xC0 = 0) = (len < 64)" and "(len AND 0xC0 = 0xC0) = (192 \<le> len)"
proof -
  have c: "(0xC0 :: nat) = push_bit 6 (mask 2)" by (simp add: mask_eq_exp_minus_1 push_bit_eq_mult)
  have "len AND 0xC0 = push_bit 6 (take_bit 2 (drop_bit 6 len))"
    unfolding c by (rule bit_eqI) (auto simp: bit_simps)
  then have "len AND 0xC0 = 64 * (len div 64 mod 4)"
    by (simp add: push_bit_eq_mult take_bit_eq_mod drop_bit_eq_div mult.commute)
  moreover have "len div 64 < 4" using assms by simp
  ultimately show "(len AND 0xC0 = 0) = (len < 64)" "(len AND 0xC0 = 0xC0) = (192 \<le> len)" by auto
qed

text \<open>A name read without a jump leaves the cursor past it; with one, past the first pointer.\<close>

lemma name_loop_pos:
  "name_loop b labels name_len pos ret jumps = Inr (l, p) \<Longrightarrow> (case ret of None \<Rightarrow> True | Some q \<Rightarrow> q \<le> length b) \<Longrightarrow>
     p \<le> length b \<and> (case ret of None \<Rightarrow> pos < p | Some q \<Rightarrow> p = q)"
proof (induction b labels name_len pos ret jumps rule: name_loop.induct)
  case (1 b labels name_len pos ret jumps)
  from "1.prems"(1) obtain len where len: "byte_get b pos = Inr len" "pos < length b"
    by (subst (asm) name_loop.simps) (auto simp: byte_get_def split: if_splits)
  show ?case
  proof (cases "len AND 0xC0 = 0")
    case True
    show ?thesis
    proof (cases "len = 0")
      case z: True
      with "1.prems" len show ?thesis by (subst (asm) name_loop.simps) (auto split: option.splits)
    next
      case False
      with "1.prems" len True have s: "\<not> pos + 1 + len > length b" "\<not> name_len + len + 1 > MAX_NAME"
        "name_loop b ((if labels = [] then [] else labels @ ''.'') @ take len (drop (pos + 1) b))
           (name_len + len + 1) (pos + 1 + len) ret jumps = Inr (l, p)"
        by (subst (asm) name_loop.simps, auto split: if_splits)+
      from "1.IH"(1) [OF len(1) True False s(1,2,3) "1.prems"(2)] show ?thesis
        by (auto split: option.splits)
    qed
  next
    case False
    with "1.prems" len obtain b2 where b2: "len AND 0xC0 = 0xC0" "byte_get b (pos + 1) = Inr b2"
      "\<not> (jumps + 1 > MAX_JUMPS \<or> push_bit 8 (len AND 0x3F) OR b2 \<ge> pos)"
      "name_loop b labels name_len (push_bit 8 (len AND 0x3F) OR b2)
         (Some (case ret of None \<Rightarrow> pos + 2 | Some p \<Rightarrow> p)) (jumps + 1) = Inr (l, p)"
      by (subst (asm) name_loop.simps) (auto simp: Let_def split: if_splits sum.splits)
    have "pos + 2 \<le> length b" using b2(2) by (auto simp: byte_get_def split: if_splits)
    with "1.IH"(2) [OF len(1) False b2(1) b2(2) refl refl b2(3) b2(4)] "1.prems"(2)
    show ?thesis by (auto split: option.splits)
  qed
qed

lemma skip_name_Inr:
  "skip_name b pos = Inr (u, p) \<Longrightarrow> pos < p \<and> p \<le> length b"
  by (auto simp: skip_name_def r_name_def bind_run_Inr dest: name_loop_pos)

lemma skip_questions_pos: "skip_questions n b pos = Inr (u, p) \<Longrightarrow> pos \<le> length b \<Longrightarrow> pos \<le> p \<and> p \<le> length b"
proof (induction n arbitrary: pos)
  case (Suc n)
  then obtain p1 where "skip_name b pos = Inr ((), p1)" "p1 + 3 < length b" "skip_questions n b (p1 + 4) = Inr (u, p)"
    by (auto simp: bind_run_Inr r_u16_Inr add.commute simp del: add_2_eq_Suc add_2_eq_Suc')
  with Suc.IH [of "p1 + 4"] skip_name_Inr show ?case by fastforce
qed simp

lemma record_addr_length: "length (record_addr t n s d) \<le> 1 \<and> (record_addr t n s d \<noteq> [] \<longrightarrow> 4 \<le> n)"
  by (simp add: record_addr_def)

lemma r_u32_pos: "r_u32 b pos = Inr (x, p) \<Longrightarrow> p = pos + 4 \<and> pos + 4 \<le> length b"
  by (auto simp: r_u32_Inr r_u16_Inr)

lemma read_answers_step:
  assumes "read_answers (Suc n) acc b pos = Inr r"
  obtains p1 t secs n' d where "skip_name b pos = Inr ((), p1)" "r_u32 b (p1 + 4) = Inr (secs, p1 + 8)"
    "p1 + 10 + n' \<le> length b" "read_answers n (acc @ record_addr t n' secs d) b (p1 + 10 + n') = Inr r"
proof -
  from assms obtain p1 t p2 c p3 secs p4 n' p5 d p6 where
    s: "skip_name b pos = Inr ((), p1)" "r_u16 b p1 = Inr (t, p2)" "r_u16 b p2 = Inr (c, p3)"
      "r_u32 b p3 = Inr (secs, p4)" "r_u16 b p4 = Inr (n', p5)" "r_take n' b p5 = Inr (d, p6)"
      "read_answers n (acc @ record_addr t n' secs d) b p6 = Inr r"
    by (auto simp: bind_run_Inr)
  then have p: "p2 = p1 + 2" "p3 = p1 + 4" "p4 = p1 + 8" "p5 = p1 + 10" "p6 = p1 + 10 + n'" "p1 + 10 + n' \<le> length b"
    using r_u32_pos [OF s(4)] by (auto simp: r_u16_Inr r_take_Inr)
  from that [of p1 secs n' t d] s p show thesis by simp
qed

lemma read_answers_bound:
  "read_answers n acc b pos = Inr (acc', p) \<Longrightarrow> pos \<le> length b \<Longrightarrow> list_all (\<lambda>a. ttl a < 2 ^ 32) acc \<Longrightarrow>
     p \<le> length b \<and> pos + 15 * length acc' \<le> p + 15 * length acc \<and> list_all (\<lambda>a. ttl a < 2 ^ 32) acc'"
proof (induction n arbitrary: pos acc)
  case (Suc n)
  from Suc.prems(1) obtain p1 t secs n' d where s: "skip_name b pos = Inr ((), p1)" "r_u32 b (p1 + 4) = Inr (secs, p1 + 8)"
    "p1 + 10 + n' \<le> length b" "read_answers n (acc @ record_addr t n' secs d) b (p1 + 10 + n') = Inr (acc', p)"
    by (rule read_answers_step)
  have "list_all (\<lambda>a. ttl a < 2 ^ 32) (acc @ record_addr t n' secs d)"
    using Suc.prems(3) r_u32_bound [OF s(2)] by (simp add: record_addr_def)
  from Suc.IH [OF s(4,3) this] skip_name_Inr [OF s(1)] record_addr_length [of t n' secs d] show ?case
    by (cases "record_addr t n' secs d") auto
qed simp

section \<open>Well-formed names and replies\<close>

definition label_ok :: "string \<Rightarrow> bool" where
  "label_ok l \<longleftrightarrow> l \<noteq> [] \<and> length l \<le> MAX_LABEL"

definition label_text :: "string \<Rightarrow> string" where
  "label_text l = char_of (length l) # l"

definition labels_len :: "string list \<Rightarrow> nat" where
  "labels_len ls = sum_list (map (\<lambda>l. length l + 1) ls)"

definition name_text :: "string list \<Rightarrow> string" where
  "name_text ls = concat (map label_text ls) @ [CHR 0x00]"

lemma encode_labels_Inr:
  "encode_labels ls tot out = Inr out' \<longleftrightarrow>
     list_all label_ok ls \<and> (ls = [] \<or> tot + labels_len ls \<le> MAX_NAME) \<and> out' = out @ concat (map label_text ls)"
proof (induction ls arbitrary: tot out)
  case (Cons l ls)
  then show ?case
    by (cases ls) (auto simp: label_ok_def label_text_def labels_len_def split: if_splits)
qed (auto simp: labels_len_def)

fun glue :: "string \<Rightarrow> string list \<Rightarrow> string" where
  "glue acc [] = acc"
| "glue acc (l # ls) = glue ((if acc = [] then [] else acc @ ''.'') @ l) ls"

lemma join_append: "join s ((a @ b) # ls) = a @ join s (b # ls)"
  by (cases ls) simp_all

lemma glue_join: "list_all label_ok ls \<Longrightarrow> acc \<noteq> [] \<Longrightarrow> glue acc ls = join ''.'' (acc # ls)"
proof (induction ls arbitrary: acc)
  case (Cons l ls)
  then show ?case using join_append [of "''.''" "acc @ ''.''" l ls] by (simp add: label_ok_def)
qed simp

lemma glue_Nil: "list_all label_ok ls \<Longrightarrow> glue [] ls = join ''.'' ls"
proof (cases ls)
  case (Cons l ls')
  assume "list_all label_ok ls"
  with Cons show ?thesis using glue_join [of ls' l] by (simp add: label_ok_def)
qed simp

lemma name_loop_text:
  "list_all label_ok ls \<Longrightarrow> name_len + labels_len ls \<le> MAX_NAME \<Longrightarrow>
     name_loop (p @ name_text ls @ r) acc name_len (length p) ret jumps =
       Inr (glue acc ls, case ret of None \<Rightarrow> length p + length (name_text ls) | Some q \<Rightarrow> q)"
proof (induction ls arbitrary: p acc name_len)
  case Nil
  show ?case by (subst name_loop.simps) (simp add: name_text_def byte_get_def nth_append split: option.splits)
next
  case (Cons l ls)
  let ?b = "p @ name_text (l # ls) @ r" and ?p = "p @ label_text l"
  have l: "l \<noteq> []" "length l < 64" using Cons.prems(1) by (auto simp: label_ok_def MAX_LABEL_def)
  have g: "byte_get ?b (length p) = Inr (length l)"
    using l by (simp add: byte_get_def name_text_def label_text_def nth_append)
  have c: "length l AND 0xC0 = 0" using l by (simp add: len_class)
  have n: "name_len + length l + 1 \<le> MAX_NAME" using Cons.prems(2) by (simp add: labels_len_def)
  have "length p + 1 + length l \<le> length ?b" "take (length l) (drop (length p + 1) ?b) = l"
    by (simp_all add: name_text_def label_text_def)
  with g c n l(1) have "name_loop ?b acc name_len (length p) ret jumps =
      name_loop ?b ((if acc = [] then [] else acc @ ''.'') @ l) (name_len + length l + 1) (length p + 1 + length l) ret jumps"
    by (subst name_loop.simps) simp
  also have "?b = ?p @ name_text ls @ r" by (simp add: name_text_def)
  also have "length p + 1 + length l = length ?p" by (simp add: label_text_def)
  also have "name_loop (?p @ name_text ls @ r) ((if acc = [] then [] else acc @ ''.'') @ l) (name_len + length l + 1) (length ?p) ret jumps =
      Inr (glue ((if acc = [] then [] else acc @ ''.'') @ l) ls, case ret of None \<Rightarrow> length ?p + length (name_text ls) | Some q \<Rightarrow> q)"
    using Cons.prems by (intro Cons.IH) (auto simp: labels_len_def)
  finally show ?case by (simp add: name_text_def label_text_def split: option.splits)
qed

definition dns_labels :: "string \<Rightarrow> string list" where
  "dns_labels name =
     (let t = (case strip_suffix ''.'' name of Some t \<Rightarrow> t | None \<Rightarrow> name) in if t = [] then [] else split_on (CHR ''.'') t)"

definition dns_name_ok :: "string \<Rightarrow> bool" where
  "dns_name_ok name \<longleftrightarrow> list_all label_ok (dns_labels name) \<and> labels_len (dns_labels name) < MAX_NAME"

lemma encode_name_Inr:
  "encode_name out name = Inr out' \<longleftrightarrow> dns_name_ok name \<and> out' = out @ name_text (dns_labels name)"
  by (auto simp: encode_name_def bind_run_Inr encode_labels_Inr dns_name_ok_def dns_labels_def Let_def name_text_def
      labels_len_def MAX_NAME_def)

lemma skip_name_text:
  assumes "list_all label_ok ls" "labels_len ls \<le> MAX_NAME"
  shows "skip_name (p @ name_text ls @ r) (length p) = Inr ((), length p + length (name_text ls))"
  using name_loop_text [OF assms(1), of 0 p r "[]" None 0] assms(2) by (simp add: skip_name_def r_name_def)

text \<open>A name that is a pointer to the name at offset \<open>t\<close>.\<close>

lemma skip_name_pointer:
  assumes "list_all label_ok ls" "labels_len ls \<le> MAX_NAME" "length h = 12" "12 < length q"
    and "q = h @ name_text ls @ q'"
  shows "skip_name (q @ [CHR 0xC0, CHR 0x0C] @ r) (length q) = Inr ((), length q + 2)"
proof -
  let ?b = "q @ [CHR 0xC0, CHR 0x0C] @ r"
  have "byte_get ?b (length q) = Inr 0xC0" "byte_get ?b (length q + 1) = Inr 0x0C"
    by (simp_all add: byte_get_def nth_append)
  moreover have "push_bit 8 ((0xC0 :: nat) AND 0x3F) OR 0x0C = 12" by code_simp
  ultimately have "name_loop ?b [] 0 (length q) None 0 = name_loop ?b [] 0 12 (Some (length q + 2)) 1"
    using assms(4) by (subst name_loop.simps) (simp add: MAX_JUMPS_def)
  also have "\<dots> = Inr (glue [] ls, length q + 2)"
    using name_loop_text [OF assms(1), of 0 h "q' @ [CHR 0xC0, CHR 0x0C] @ r" "[]" "Some (length q + 2)" 1] assms(2,3,5)
    by simp
  finally show ?thesis by (simp add: skip_name_def r_name_def)
qed

text \<open>
  A reply as a server writes it: header, the question, and answer records whose names point back
  to the question.
\<close>

definition be32 :: "nat \<Rightarrow> string" where
  "be32 n = be16 (n div 65536) @ be16 (n mod 65536)"

type_synonym answer_rec = "nat \<times> nat \<times> string"

definition rec_text :: "answer_rec \<Rightarrow> string" where
  "rec_text = (\<lambda>(rtype, secs, d).
     [CHR 0xC0, CHR 0x0C] @ be16 rtype @ be16 CLASS_IN @ be32 secs @ be16 (length d) @ d)"

definition rec_ok :: "answer_rec \<Rightarrow> bool" where
  "rec_ok = (\<lambda>(rtype, secs, d). rtype < 65536 \<and> secs < 2 ^ 32 \<and> length d < 65536)"

definition rec_addrs :: "answer_rec \<Rightarrow> resolved_addr list" where
  "rec_addrs = (\<lambda>(rtype, secs, d). record_addr rtype (length d) secs d)"

definition question_text :: "string \<Rightarrow> nat \<Rightarrow> string" where
  "question_text name qtype = name_text (dns_labels name) @ be16 qtype @ be16 CLASS_IN"

definition dns_header :: "nat \<Rightarrow> nat \<Rightarrow> nat \<Rightarrow> nat \<Rightarrow> string" where
  "dns_header i flags an ar = be16 i @ be16 flags @ be16 1 @ be16 an @ be16 0 @ be16 ar"

definition reply_flags :: "bool \<Rightarrow> nat \<Rightarrow> nat" where
  "reply_flags tc rc = 0x8180 + (if tc then 512 else 0) + rc"

definition dns_reply :: "nat \<Rightarrow> bool \<Rightarrow> nat \<Rightarrow> string \<Rightarrow> nat \<Rightarrow> answer_rec list \<Rightarrow> string" where
  "dns_reply i tc rc name qtype rs =
     dns_header i (reply_flags tc rc) (length rs) 0 @ question_text name qtype @ concat (map rec_text rs)"

lemma r_take_text: "r_take (length d) (p @ d @ r) (length p) = Inr (d, length p + length d)"
  by (simp add: r_take_def)

lemma r_u32_be32: "n < 2 ^ 32 \<Longrightarrow> r_u32 (p @ be32 n @ r) (length p) = Inr (n, length p + 4)"
proof -
  assume "n < 2 ^ 32"
  then have "n div 65536 < 65536" by simp
  then have "r_u16 (p @ be32 n @ r) (length p) = Inr (n div 65536, length p + 2)"
    using r_u16_be16 [of "n div 65536" p "be16 (n mod 65536) @ r"] by (simp add: be32_def)
  moreover have "r_u16 (p @ be32 n @ r) (length p + 2) = Inr (n mod 65536, length p + 4)"
    using r_u16_be16 [of "n mod 65536" "p @ be16 (n div 65536)" r] by (simp add: be32_def add.commute)
  ultimately show ?thesis by (simp add: r_u32_Inr)
qed

lemma read_answers_text:
  assumes "list_all label_ok ls" "labels_len ls \<le> MAX_NAME" "length h = 12"
  shows "list_all rec_ok rs \<Longrightarrow>
    read_answers (length rs) acc ((h @ name_text ls @ q) @ concat (map rec_text rs) @ r) (length (h @ name_text ls @ q)) =
      Inr (acc @ concat (map rec_addrs rs), length (h @ name_text ls @ q) + length (concat (map rec_text rs)))"
proof (induction rs arbitrary: q acc)
  case (Cons x rs)
  obtain t secs d where x: "x = (t, secs, d)" by (cases x)
  with Cons.prems have ok: "t < 65536" "secs < 2 ^ 32" "length d < 65536" by (auto simp: rec_ok_def)
  let ?q = "h @ name_text ls @ q" and ?rest = "concat (map rec_text rs) @ r"
  let ?b = "?q @ concat (map rec_text (x # rs)) @ r"
  let ?p1 = "?q @ [CHR 0xC0, CHR 0x0C]"
  let ?p2 = "?p1 @ be16 t" let ?p3 = "?p2 @ be16 CLASS_IN" let ?p4 = "?p3 @ be32 secs" let ?p5 = "?p4 @ be16 (length d)"
  have b: "?b = ?p5 @ d @ ?rest" by (simp add: x rec_text_def)
  have "0 < length (name_text ls)" by (simp add: name_text_def)
  then have "12 < length ?q" using assms(3) by simp
  with skip_name_pointer [OF assms(1-3) _ refl]
  have 1: "skip_name ?b (length ?q) = Inr ((), length ?p1)" by (simp add: x rec_text_def)
  have 2: "r_u16 ?b (length ?p1) = Inr (t, length ?p2)"
    using r_u16_be16 [OF ok(1), of ?p1 "be16 CLASS_IN @ be32 secs @ be16 (length d) @ d @ ?rest"] by (simp add: x rec_text_def)
  have 3: "r_u16 ?b (length ?p2) = Inr (CLASS_IN, length ?p3)"
    using r_u16_be16 [of CLASS_IN ?p2 "be32 secs @ be16 (length d) @ d @ ?rest"] by (simp add: x rec_text_def CLASS_IN_def)
  have 4: "r_u32 ?b (length ?p3) = Inr (secs, length ?p4)"
    using r_u32_be32 [OF ok(2), of ?p3 "be16 (length d) @ d @ ?rest"] by (simp add: x rec_text_def be32_def)
  have 5: "r_u16 ?b (length ?p4) = Inr (length d, length ?p5)"
    using r_u16_be16 [OF ok(3), of ?p4 "d @ ?rest"] by (simp add: x rec_text_def)
  have 6: "r_take (length d) ?b (length ?p5) = Inr (d, length (?p5 @ d))"
    unfolding b using r_take_text [of d ?p5 ?rest] by simp
  have "read_answers (length (x # rs)) acc ?b (length ?q) =
      read_answers (length rs) (acc @ rec_addrs x) ?b (length (?p5 @ d))"
    by (simp only: list.size(4) One_nat_def add_Suc_right add_0_right read_answers.simps bind_run_simps prod.case
        1 2 3 4 5 6) (simp add: x rec_addrs_def)
  also have "\<dots> = Inr ((acc @ rec_addrs x) @ concat (map rec_addrs rs), length (?p5 @ d) + length (concat (map rec_text rs)))"
    unfolding b using Cons.IH [where q = "q @ drop (length ?q) (?p5 @ d)" and acc = "acc @ rec_addrs x"] Cons.prems by simp
  finally show ?case by (simp add: x rec_text_def be32_def)
qed simp

lemma reply_flags_bits:
  assumes "rc < 16"
  shows "reply_flags tc rc < 65536" "(drop_bit 9 (reply_flags tc rc) AND 1 = 1) = tc" "reply_flags tc rc AND 0x000F = rc"
proof -
  have m: "(0x000F :: nat) = mask 4" by (simp add: mask_eq_exp_minus_1)
  show "reply_flags tc rc < 65536" using assms by (simp add: reply_flags_def)
  have "reply_flags tc rc div 512 = (if tc then 65 else 64)"
    using assms by (auto simp: reply_flags_def intro: div_nat_eqI)
  then show "(drop_bit 9 (reply_flags tc rc) AND 1 = 1) = tc"
    by (simp add: drop_bit_eq_div and_one_eq)
  have "reply_flags tc rc = rc + (if tc then 2104 else 2072) * 16" by (simp add: reply_flags_def)
  then have "reply_flags tc rc mod 16 = rc" using assms by (simp only: mod_mult_self1 mod_less)
  then show "reply_flags tc rc AND 0x000F = rc" unfolding m take_bit_eq_mask [symmetric] by (simp add: take_bit_eq_mod)
qed

lemma header_reads:
  fixes r :: string
  assumes "i < 65536" "flags < 65536" "an < 65536" "ar < 65536"
  defines "b \<equiv> dns_header i flags an ar @ r"
  shows "r_u16 b 0 = Inr (i, 2)" "r_u16 b 2 = Inr (flags, 4)" "r_u16 b 4 = Inr (1, 6)"
    "r_u16 b 6 = Inr (an, 8)" "r_u16 b 8 = Inr (0, 10)" "r_u16 b 10 = Inr (ar, 12)"
  using assms(1-4) by (simp_all add: b_def dns_header_def r_u16_Inr be16_def)

lemma parse_response_text:
  assumes "i < 65536" "flags < 65536" "length rs < 65536" "ar < 65536" "dns_name_ok name" "qtype < 65536" "list_all rec_ok rs"
  shows "parse_response (dns_header i flags (length rs) ar @ question_text name qtype @ concat (map rec_text rs) @ r) =
    Inr \<lparr>rid = i, truncated = (drop_bit 9 flags AND 1 = 1), rcode = flags AND 0x000F,
         addresses = concat (map rec_addrs rs)\<rparr>"
proof -
  let ?h = "dns_header i flags (length rs) ar" and ?ls = "dns_labels name"
  let ?q = "be16 qtype @ be16 CLASS_IN"
  let ?b = "?h @ question_text name qtype @ concat (map rec_text rs) @ r"
  have h: "length ?h = 12" by (simp add: dns_header_def)
  have ls: "list_all label_ok ?ls" "labels_len ?ls \<le> MAX_NAME" using assms(5) by (auto simp: dns_name_ok_def)
  let ?p = "?h @ name_text ?ls"
  have "skip_name ?b 12 = Inr ((), length ?p)"
    using skip_name_text [OF ls, of ?h "?q @ concat (map rec_text rs) @ r"] h by (simp add: question_text_def)
  moreover have "r_u16 ?b (length ?p) = Inr (qtype, length (?p @ be16 qtype))"
    using r_u16_be16 [OF assms(6), of ?p "be16 CLASS_IN @ concat (map rec_text rs) @ r"] by (simp add: question_text_def)
  moreover have "r_u16 ?b (length (?p @ be16 qtype)) = Inr (CLASS_IN, length (?p @ ?q))"
    using r_u16_be16 [of CLASS_IN "?p @ be16 qtype" "concat (map rec_text rs) @ r"]
    by (simp add: question_text_def CLASS_IN_def)
  ultimately have q: "skip_questions 1 ?b 12 = Inr ((), length (?p @ ?q))"
    by (simp only: One_nat_def skip_questions.simps bind_run_simps prod.case)
  have "read_answers (length rs) [] ?b (length (?p @ ?q)) =
      Inr (concat (map rec_addrs rs), length (?p @ ?q) + length (concat (map rec_text rs)))"
    using read_answers_text [OF ls h assms(7), of "[]" ?q r] by (simp add: question_text_def)
  with q show ?thesis
    unfolding parse_response_def
    by (simp only: header_reads [OF assms(1-4)] bind_run_simps prod.case)
qed

lemma query_Inr:
  "encode_query i name qtype = Inr q \<longleftrightarrow>
     dns_name_ok name \<and> q = dns_header i 0x0100 0 0 @ question_text name qtype"
  by (auto simp: encode_query_def encode_query_inner_def bind_run_Inr encode_name_Inr dns_header_def question_text_def)

lemma encode_labels_Inl: "encode_labels ls tot out = Inl e \<Longrightarrow> e = NameTooLong"
  by (induction ls tot out rule: encode_labels.induct) (auto split: if_splits)

section \<open>Properties\<close>

text \<open>
  C5: a reply is read as its server wrote it. For a well-formed name and any list of records
  whose names are compression pointers to the question, parsing the packet returns the
  transaction id, the truncation bit, the response code and exactly the addresses of the A and
  AAAA records, in order, other records being skipped.
\<close>

theorem dns_reply_parsed:
  assumes "i < 65536" "rc < 16" "length rs < 65536" "dns_name_ok name" "qtype < 65536" "list_all rec_ok rs"
  shows "parse_response (dns_reply i tc rc name qtype rs) =
    Inr \<lparr>rid = i, truncated = tc, rcode = rc, addresses = concat (map rec_addrs rs)\<rparr>"
  using parse_response_text [OF assms(1) reply_flags_bits(1) [OF assms(2), of tc] assms(3) _ assms(4-6),
      where ar = 0 and r = "[]"]
    reply_flags_bits(2,3) [OF assms(2), of tc]
  by (simp add: dns_reply_def)

theorem dns_reply_parsed_witness:
  "parse_response (dns_reply 7 False 0 ''a.bc'' 1 [(5, 9, ''x''), (1, 60, map char_of [127, 0, 0, 1 :: nat])]) =
     Inr \<lparr>rid = 7, truncated = False, rcode = 0, addresses = [\<lparr>ip = IpV4 127 0 0 1, ttl = 60\<rparr>]\<rparr>"
proof -
  let ?rs = "[(5, 9, ''x''), (1, 60, map char_of [127, 0, 0, 1 :: nat])]"
  have "(7 :: nat) < 65536" "(0 :: nat) < 16" "length ?rs < 65536" "dns_name_ok ''a.bc''" "(1 :: nat) < 65536" "list_all rec_ok ?rs"
    by code_simp+
  from dns_reply_parsed [OF this, of False] show ?thesis
    by (simp add: rec_addrs_def record_addr_def TYPE_A_def TYPE_AAAA_def)
qed

text \<open>
  Encoding a query succeeds exactly for names whose labels have 1 to 63 bytes and which take
  at most 255 bytes on the wire, a trailing dot being ignored; the packet then carries the id
  and the question, and reading the encoded name back gives the dotted name.
\<close>

theorem dns_query_encoding:
  assumes "i < 65536" "qtype < 65536"
  shows "case encode_query i name qtype of
      Inl e \<Rightarrow> e = NameTooLong \<and> \<not> dns_name_ok name
    | Inr q \<Rightarrow> dns_name_ok name \<and>
        parse_response q = Inr \<lparr>rid = i, truncated = False, rcode = 0, addresses = []\<rparr> \<and>
        r_name q 12 = Inr (from_utf8_lossy (join ''.'' (dns_labels name)), length q - 4)"
proof (cases "encode_query i name qtype")
  case (Inl e)
  have "encode_query i name qtype = Inr (dns_header i 0x0100 0 0 @ question_text name qtype)" if "dns_name_ok name"
    using that query_Inr by blast
  with Inl have "\<not> dns_name_ok name" by auto
  moreover have "e = NameTooLong"
    using Inl by (auto simp: encode_query_def encode_query_inner_def encode_name_def bind_run_Inl Let_def
        split: if_splits dest: encode_labels_Inl)
  ultimately show ?thesis using Inl by simp
next
  case (Inr q)
  let ?h = "dns_header i 0x0100 0 0"
  from Inr have q: "q = ?h @ question_text name qtype" and ok: "dns_name_ok name" by (simp_all add: query_Inr)
  have b: "\<not> (drop_bit 9 (0x0100 :: nat) AND 1 = 1)" "(0x0100 :: nat) AND 0x000F = 0" by code_simp+
  have "parse_response q = Inr \<lparr>rid = i, truncated = False, rcode = 0, addresses = []\<rparr>"
    using parse_response_text [OF assms(1), where flags = "0x0100" and rs = "[]" and ar = 0 and name = name and qtype = qtype and r = "[]"] ok assms(2) b q by simp
  moreover have "list_all label_ok (dns_labels name)" "0 + labels_len (dns_labels name) \<le> MAX_NAME"
    using ok by (auto simp: dns_name_ok_def)
  from name_loop_text [OF this, of ?h "be16 qtype @ be16 CLASS_IN" "[]" None 0]
  have "r_name q 12 = Inr (from_utf8_lossy (join ''.'' (dns_labels name)), length q - 4)"
    using ok q by (simp add: r_name_def question_text_def dns_header_def glue_Nil dns_name_ok_def)
  ultimately show ?thesis using Inr ok by simp
qed

theorem dns_query_encoding_witness:
  "dns_name_ok ''a.bc.'' \<and> (\<exists>q. encode_query 1 ''a.bc.'' 28 = Inr q \<and>
     parse_response q = Inr \<lparr>rid = 1, truncated = False, rcode = 0, addresses = []\<rparr>)"
proof -
  have "(1 :: nat) < 65536" "(28 :: nat) < 65536" by simp_all
  note enc = dns_query_encoding [OF this, of "''a.bc.''"]
  have ok: "dns_name_ok ''a.bc.''" by code_simp
  with enc show ?thesis by (cases "encode_query 1 ''a.bc.'' 28") auto
qed

text \<open>
  C21: what a hostile packet can make the parser produce is bounded by the packet: every reported
  address took at least 15 bytes of it besides the 12-byte header, lifetimes are below \<open>2 ^ 32\<close>
  and the id below \<open>2 ^ 16\<close>.
\<close>

theorem dns_parse_bounds:
  assumes "parse_response b = Inr r"
  shows "12 + 15 * length (addresses r) \<le> length b \<and> rid r < 65536 \<and>
    list_all (\<lambda>a. ttl a < 2 ^ 32) (addresses r)"
proof -
  from assms obtain i p1 fl p2 qd p3 an p4 ns p5 ar p6 u p7 addrs p8 where
    h: "r_u16 b 0 = Inr (i, p1)" "r_u16 b p1 = Inr (fl, p2)" "r_u16 b p2 = Inr (qd, p3)" "r_u16 b p3 = Inr (an, p4)"
      "r_u16 b p4 = Inr (ns, p5)" "r_u16 b p5 = Inr (ar, p6)"
    and s: "skip_questions qd b p6 = Inr (u, p7)" "read_answers an [] b p7 = Inr (addrs, p8)"
      "addresses r = addrs" "rid r = i"
    by (auto simp: parse_response_def bind_run_Inr)
  from h have p6: "p6 = 12" "p6 \<le> length b" by (auto simp: r_u16_Inr)
  have "12 \<le> p7 \<and> p7 \<le> length b" using skip_questions_pos [OF s(1) p6(2)] p6(1) by simp
  with read_answers_bound [OF s(2)] r_u16_bound [OF h(1)] s(3,4) show ?thesis by auto
qed

theorem dns_parse_bounds_witness:
  "12 + 15 * length (addresses \<lparr>rid = 7, truncated = False, rcode = 0, addresses = [\<lparr>ip = IpV4 127 0 0 1, ttl = 60\<rparr>]\<rparr>)
     \<le> length (dns_reply 7 False 0 ''a'' 1 [(1, 60, map char_of [127, 0, 0, 1 :: nat])])"
proof -
  have "parse_response (dns_reply 7 False 0 ''a'' 1 [(1, 60, map char_of [127, 0, 0, 1 :: nat])]) =
      Inr \<lparr>rid = 7, truncated = False, rcode = 0, addresses = [\<lparr>ip = IpV4 127 0 0 1, ttl = 60\<rparr>]\<rparr>"
    by code_simp
  from dns_parse_bounds [OF this] show ?thesis by blast
qed

text \<open>
  C24: the comment that a strictly backward pointer makes a loop impossible is wrong, and the
  jump cap is what ends such a loop: in a packet with a label at offset 12 followed by a pointer
  back to offset 12, every jump goes backwards and is accepted, the name is read again and
  again, and only the 33rd jump is refused.
\<close>

definition looping_packet :: string where
  "looping_packet = replicate 12 (CHR 0x00) @ [char_of (1 :: nat), CHR ''a'', CHR 0xC0, CHR 0x0C]"

theorem dns_backward_pointers_loop:
  "(jumps < MAX_JUMPS \<and> name_len + 2 \<le> MAX_NAME \<longrightarrow>
      name_loop looping_packet labels name_len 12 (Some p) jumps =
        name_loop looping_packet ((if labels = [] then [] else labels @ ''.'') @ ''a'') (name_len + 2) 12 (Some p) (jumps + 1)) \<and>
   r_name looping_packet 12 = Inl MalformedName"
proof -
  have g: "byte_get looping_packet 12 = Inr 1" "byte_get looping_packet 14 = Inr 0xC0"
    "byte_get looping_packet 15 = Inr 0x0C" "take 1 (drop 13 looping_packet) = ''a''" "length looping_packet = 16"
    by code_simp+
  have t: "push_bit 8 ((0xC0 :: nat) AND 0x3F) OR 0x0C = 12" "(1 :: nat) AND 0xC0 = 0" by code_simp+
  have "name_loop looping_packet labels name_len 12 (Some p) jumps =
      name_loop looping_packet ((if labels = [] then [] else labels @ ''.'') @ ''a'') (name_len + 2) 14 (Some p) jumps"
    if "name_len + 2 \<le> MAX_NAME"
    using that g t by (subst name_loop.simps) simp
  moreover have "name_loop looping_packet l n 14 (Some p) jumps = name_loop looping_packet l n 12 (Some p) (jumps + 1)"
    if "jumps < MAX_JUMPS" for l n
    using that g t by (subst name_loop.simps) simp
  moreover have "r_name looping_packet 12 = Inl MalformedName" by code_simp
  ultimately show ?thesis by simp
qed

theorem dns_backward_pointers_loop_witness:
  "name_loop looping_packet [] 0 12 (Some 14) 0 = name_loop looping_packet ''a'' 2 12 (Some 14) 1"
  using dns_backward_pointers_loop [of 0 0 "[]" 14] by (simp add: MAX_JUMPS_def MAX_NAME_def numeral_2_eq_2)

end
