(* ===== verification/Dns_Resolver.thy ===== *)
theory Dns_Resolver
  imports Dns_Message Hash_Map
begin

text \<open>
  \<open>kernway-dns/src/cache.rs\<close> and \<open>resolver.rs\<close>: the per-shard cache and the stub resolver. An
  instant is a number of nanoseconds. The network is a record of functions indexed by the number
  of exchanges made so far: the transaction ids, the clock, and what a UDP or a TCP exchange with
  a server returns for the bytes sent. The code's timeouts and socket errors are values of these
  functions.
\<close>

section \<open>The cache\<close>

definition secs :: "nat \<Rightarrow> nat" where
  "secs n = n * 1000000000"

definition MIN_TTL :: nat where "MIN_TTL = secs 1"
definition MAX_TTL :: nat where "MAX_TTL = secs 3600"
definition NEGATIVE_TTL :: nat where "NEGATIVE_TTL = secs 30"
definition SOFT_CAP :: nat where "SOFT_CAP = 1024"

datatype cached = Hit "ip_addr list" | Negative

record cache_entry =
  kind :: cached
  expires :: nat

type_synonym dns_cache = "(string, cache_entry) hmap"

definition cache_get :: "dns_cache \<Rightarrow> string \<Rightarrow> nat \<Rightarrow> cached option" where
  "cache_get c host now =
     (case hm_get c host of
        None \<Rightarrow> None
      | Some e \<Rightarrow> if expires e \<le> now then None else Some (kind e))"

definition maybe_sweep :: "dns_cache \<Rightarrow> nat \<Rightarrow> dns_cache" where
  "maybe_sweep c now = (if hm_len c \<ge> SOFT_CAP then hm_retain (\<lambda>_ e. now < expires e) c else c)"

definition put_positive :: "dns_cache \<Rightarrow> string \<Rightarrow> ip_addr list \<Rightarrow> nat \<Rightarrow> nat \<Rightarrow> dns_cache" where
  "put_positive c host ips life now =
     hm_insert (maybe_sweep c now) host \<lparr>kind = Hit ips, expires = now + min (max life MIN_TTL) MAX_TTL\<rparr>"

definition put_negative :: "dns_cache \<Rightarrow> string \<Rightarrow> nat \<Rightarrow> nat \<Rightarrow> dns_cache" where
  "put_negative c host life now =
     hm_insert (maybe_sweep c now) host \<lparr>kind = Negative, expires = now + life\<rparr>"

definition cache_clear :: "dns_cache \<Rightarrow> dns_cache" where
  "cache_clear c = []"

section \<open>The resolver\<close>

record resolver =
  servers :: "socket_addr list"
  attempts :: nat
  search :: "string list"
  ndots :: nat

record net =
  rng :: "nat \<Rightarrow> nat"
  clock :: "nat \<Rightarrow> nat"
  udp :: "nat \<Rightarrow> socket_addr \<Rightarrow> string \<Rightarrow> dns_error + string"
  tcp :: "nat \<Rightarrow> socket_addr \<Rightarrow> string \<Rightarrow> dns_error + string"

record shard =
  shard_cache :: dns_cache
  exchanges :: nat

definition UDP_BUF :: nat where "UDP_BUF = EDNS_UDP_SIZE"
definition RCODE_NXDOMAIN :: nat where "RCODE_NXDOMAIN = 3"

definition resolver_new :: "socket_addr list \<Rightarrow> resolver" where
  "resolver_new ss = \<lparr>servers = ss, attempts = 2, search = [], ndots = 1\<rparr>"

definition with_attempts :: "resolver \<Rightarrow> nat \<Rightarrow> resolver" where
  "with_attempts r n = r\<lparr>attempts := max n 1\<rparr>"

definition with_search :: "resolver \<Rightarrow> string list \<Rightarrow> nat \<Rightarrow> resolver" where
  "with_search r ds n = r\<lparr>search := ds, ndots := n\<rparr>"

definition candidates :: "resolver \<Rightarrow> string \<Rightarrow> string list" where
  "candidates r host =
     (case strip_suffix ''.'' host of
        Some absolute \<Rightarrow> [absolute]
      | None \<Rightarrow>
          if search r = [] then [host]
          else
            let suffixed = map (\<lambda>d. host @ ''.'' @ d) (search r)
            in if length (filter (\<lambda>c. c = CHR ''.'') host) \<ge> ndots r then host # suffixed else suffixed @ [host])"

definition cache_key :: "nat \<Rightarrow> string \<Rightarrow> string" where
  "cache_key qtype name = show_nat qtype @ '':'' @ name"

definition checked_reply :: "nat \<Rightarrow> string \<Rightarrow> dns_error + dns_response" where
  "checked_reply i reply =
     bind_run (parse_response reply) (\<lambda>resp.
       if rid resp \<noteq> i then Inl Mismatch
       else if rcode resp = 0 then Inr resp
       else if rcode resp = RCODE_NXDOMAIN then Inl NameNotFound
       else Inl (ServerFailure (rcode resp)))"

text \<open>\<open>read_exact\<close> on the bytes a stream still delivers before its end.\<close>

definition read_exact :: "nat \<Rightarrow> string \<Rightarrow> dns_error + (string \<times> string)" where
  "read_exact n s = (if length s < n then Inl Truncated else Inr (take n s, drop n s))"

definition query_tcp :: "net \<Rightarrow> nat \<Rightarrow> socket_addr \<Rightarrow> string \<Rightarrow> nat \<Rightarrow> dns_error + resolved_addr list" where
  "query_tcp n k server host qtype =
     (let i = rng n k in
      bind_run (encode_query i host qtype) (\<lambda>query.
      bind_run (tcp n k server (be16 (length query mod 65536) @ query)) (\<lambda>stream.
      bind_run (read_exact 2 stream) (\<lambda>(len_buf, rest).
      bind_run (read_exact (ord (len_buf ! 0) * 256 + ord (len_buf ! 1)) rest) (\<lambda>(reply, _).
      bind_run (checked_reply i reply) (\<lambda>resp. Inr (addresses resp)))))))"

definition query_one :: "net \<Rightarrow> nat \<Rightarrow> socket_addr \<Rightarrow> string \<Rightarrow> nat \<Rightarrow> (dns_error + resolved_addr list) \<times> nat" where
  "query_one n k server host qtype =
     (let i = rng n k in
      case encode_query_edns i host qtype EDNS_UDP_SIZE of
        Inl e \<Rightarrow> (Inl e, k + 1)
      | Inr query \<Rightarrow>
          (case bind_run (udp n k server query) (\<lambda>reply. checked_reply i (take UDP_BUF reply)) of
             Inl e \<Rightarrow> (Inl e, k + 1)
           | Inr resp \<Rightarrow>
               if truncated resp then (query_tcp n (k + 1) server host qtype, k + 2)
               else (Inr (addresses resp), k + 1)))"

definition min_ttl :: "resolved_addr list \<Rightarrow> nat" where
  "min_ttl addrs = (case map ttl addrs of [] \<Rightarrow> 0 | t # ts \<Rightarrow> fold min ts t)"

text \<open>One pass over a list of servers, returning at the first final answer.\<close>

fun try_servers :: "net \<Rightarrow> string \<Rightarrow> string \<Rightarrow> nat \<Rightarrow> socket_addr list \<Rightarrow> shard \<Rightarrow> dns_error \<Rightarrow>
    (dns_error + ip_addr list) option \<times> shard \<times> dns_error" where
  "try_servers n key name qtype [] sh lst = (None, sh, lst)"
| "try_servers n key name qtype (server # rest) sh lst =
     (case query_one n (exchanges sh) server name qtype of
        (Inr addrs, k) \<Rightarrow>
          if addrs \<noteq> [] then
            let life = min_ttl addrs; ips = map ip addrs;
                c = (if life > 0 then put_positive (shard_cache sh) key ips (secs life) (clock n k) else shard_cache sh)
            in (Some (Inr ips), \<lparr>shard_cache = c, exchanges = k\<rparr>, lst)
          else try_servers n key name qtype rest (sh\<lparr>exchanges := k\<rparr>) NoAddresses
      | (Inl e, k) \<Rightarrow>
          if e = NameNotFound then
            (Some (Inl NameNotFound),
             \<lparr>shard_cache = put_negative (shard_cache sh) key NEGATIVE_TTL (clock n k), exchanges = k\<rparr>, lst)
          else try_servers n key name qtype rest (sh\<lparr>exchanges := k\<rparr>) e)"

fun try_attempts :: "nat \<Rightarrow> net \<Rightarrow> resolver \<Rightarrow> string \<Rightarrow> string \<Rightarrow> nat \<Rightarrow> shard \<Rightarrow> dns_error \<Rightarrow>
    (dns_error + ip_addr list) \<times> shard" where
  "try_attempts 0 n r key name qtype sh lst = (Inl lst, sh)"
| "try_attempts (Suc a) n r key name qtype sh lst =
     (case try_servers n key name qtype (servers r) sh lst of
        (Some res, sh', _) \<Rightarrow> (res, sh')
      | (None, sh', lst') \<Rightarrow> try_attempts a n r key name qtype sh' lst')"

definition resolve_cached :: "net \<Rightarrow> resolver \<Rightarrow> string \<Rightarrow> nat \<Rightarrow> shard \<Rightarrow> (dns_error + ip_addr list) \<times> shard" where
  "resolve_cached n r name qtype sh =
     (let key = cache_key qtype name
      in case cache_get (shard_cache sh) key (clock n (exchanges sh)) of
           Some (Hit ips) \<Rightarrow> (Inr ips, sh)
         | Some Negative \<Rightarrow> (Inl NameNotFound, sh)
         | None \<Rightarrow>
             if servers r = [] then (Inl (DnsIo ''no nameservers configured''), sh)
             else try_attempts (attempts r) n r key name qtype sh NoAddresses)"

fun try_candidates :: "net \<Rightarrow> resolver \<Rightarrow> nat \<Rightarrow> string list \<Rightarrow> shard \<Rightarrow> dns_error \<Rightarrow> (dns_error + ip_addr list) \<times> shard" where
  "try_candidates n r qtype [] sh lst = (Inl lst, sh)"
| "try_candidates n r qtype (cand # cs) sh lst =
     (case resolve_cached n r cand qtype sh of
        (Inr ips, sh') \<Rightarrow> if ips \<noteq> [] then (Inr ips, sh') else try_candidates n r qtype cs sh' NoAddresses
      | (Inl e, sh') \<Rightarrow> try_candidates n r qtype cs sh' e)"

definition lookup_family :: "net \<Rightarrow> resolver \<Rightarrow> string \<Rightarrow> nat \<Rightarrow> shard \<Rightarrow> (dns_error + ip_addr list) \<times> shard" where
  "lookup_family n r host qtype sh = try_candidates n r qtype (candidates r host) sh NoAddresses"

definition lookup_a :: "net \<Rightarrow> resolver \<Rightarrow> string \<Rightarrow> shard \<Rightarrow> (dns_error + ip_addr list) \<times> shard" where
  "lookup_a n r host sh = lookup_family n r host TYPE_A sh"

definition lookup_aaaa :: "net \<Rightarrow> resolver \<Rightarrow> string \<Rightarrow> shard \<Rightarrow> (dns_error + ip_addr list) \<times> shard" where
  "lookup_aaaa n r host sh = lookup_family n r host TYPE_AAAA sh"

definition lookup :: "net \<Rightarrow> resolver \<Rightarrow> string \<Rightarrow> shard \<Rightarrow> (dns_error + ip_addr list) \<times> shard" where
  "lookup n r host sh =
     (case lookup_a n r host sh of
        (Inr v, sh') \<Rightarrow> if v \<noteq> [] then (Inr v, sh') else lookup_aaaa n r host sh'
      | (Inl e, sh') \<Rightarrow> if e = NameNotFound then (Inl NameNotFound, sh') else lookup_aaaa n r host sh')"

section \<open>The cache contract\<close>

text \<open>
  What the resolver relies on: a put is seen until it expires, other names are untouched, and
  nothing a reader could see is lost to a sweep.
\<close>

locale ttl_cache =
  fixes get :: "'c \<Rightarrow> string \<Rightarrow> nat \<Rightarrow> 'v option"
    and put :: "'c \<Rightarrow> string \<Rightarrow> 'a \<Rightarrow> nat \<Rightarrow> nat \<Rightarrow> 'c"
    and val :: "'a \<Rightarrow> 'v"
    and wf :: "'c \<Rightarrow> bool"
    and life :: "nat \<Rightarrow> nat"
  assumes wf_put: "wf c \<Longrightarrow> wf (put c h v l now)"
    and get_put: "wf c \<Longrightarrow> now \<le> now' \<Longrightarrow>
      get (put c h v l now) h' now' = (if h' = h then if now' < now + life l then Some (val v) else None else get c h' now')"
begin

lemma put_put:
  assumes "wf c" "t1 \<le> t2" "t2 \<le> now"
  shows "get (put (put c h v l t1) h w m t2) h' now = get (put c h w m t2) h' now"
  using assms by (simp add: get_put wf_put)

end

lemma sweep_ok: "hm_ok c \<Longrightarrow> hm_ok (maybe_sweep c now)"
  by (simp add: maybe_sweep_def)

lemma get_sweep: "hm_ok c \<Longrightarrow> now \<le> now' \<Longrightarrow> cache_get (maybe_sweep c now) h now' = cache_get c h now'"
  by (auto simp: cache_get_def maybe_sweep_def hm.get_retain split: option.splits bind_splits if_splits)

lemma get_insert_swept:
  "hm_ok c \<Longrightarrow> now \<le> now' \<Longrightarrow>
     cache_get (hm_insert (maybe_sweep c now) h \<lparr>kind = v, expires = t\<rparr>) h' now' =
       (if h' = h then if now' < t then Some v else None else cache_get c h' now')"
  using get_sweep [of c now now' h'] by (auto simp: cache_get_def sweep_ok)

interpretation positive: ttl_cache cache_get put_positive Hit hm_ok "\<lambda>l. min (max l MIN_TTL) MAX_TTL"
  by unfold_locales (simp_all add: put_positive_def sweep_ok get_insert_swept)

interpretation negative: ttl_cache cache_get "\<lambda>c h (u :: unit). put_negative c h" "\<lambda>u. Negative" hm_ok "\<lambda>l. l"
  by unfold_locales (simp_all add: put_negative_def sweep_ok get_insert_swept)

section \<open>What a resolution leaves in the cache\<close>

definition shard_ok :: "shard \<Rightarrow> bool" where
  "shard_ok sh \<longleftrightarrow> hm_ok (shard_cache sh)"

definition monotone_clock :: "net \<Rightarrow> bool" where
  "monotone_clock n \<longleftrightarrow> (\<forall>i j. i \<le> j \<longrightarrow> clock n i \<le> clock n j)"

lemma checked_reply_Inr:
  "checked_reply i b = Inr resp \<longleftrightarrow> parse_response b = Inr resp \<and> rid resp = i \<and> rcode resp = 0"
  by (auto simp: checked_reply_def bind_run_Inr)

lemma query_one_exchanges: "query_one n k s h q = (r, k') \<Longrightarrow> k < k'"
  by (auto simp: query_one_def Let_def split: sum.splits if_splits)

definition first_answer :: "net \<Rightarrow> resolver \<Rightarrow> string \<Rightarrow> nat \<Rightarrow> shard \<Rightarrow> (dns_error + resolved_addr list) \<times> nat" where
  "first_answer n r name q sh = query_one n (exchanges sh) (hd (servers r)) name q"

lemma resolve_miss:
  assumes "cache_get (shard_cache sh) (cache_key q name) (clock n (exchanges sh)) = None"
    and "servers r \<noteq> []" "0 < attempts r" "first_answer n r name q sh = (Inr addrs, k)" "addrs \<noteq> []"
  shows "resolve_cached n r name q sh =
    (Inr (map ip addrs),
     \<lparr>shard_cache = (if min_ttl addrs > 0
        then put_positive (shard_cache sh) (cache_key q name) (map ip addrs) (secs (min_ttl addrs)) (clock n k)
        else shard_cache sh), exchanges = k\<rparr>)"
proof -
  obtain a where a: "attempts r = Suc a" using assms(3) by (cases "attempts r") auto
  obtain s ss where s: "servers r = s # ss" using assms(2) by (cases "servers r") auto
  show ?thesis using assms a s by (simp add: resolve_cached_def first_answer_def Let_def)
qed

lemma resolve_hit:
  "cache_get (shard_cache sh) (cache_key q name) (clock n (exchanges sh)) = Some (Hit ips) \<Longrightarrow>
     resolve_cached n r name q sh = (Inr ips, sh)"
  by (simp add: resolve_cached_def)

section \<open>Properties\<close>


text \<open>A server at 192.0.2.1 whose answer to every query is the same packet.\<close>

definition fixed_net :: "string \<Rightarrow> net" where
  "fixed_net reply = \<lparr>rng = (\<lambda>k. 7), clock = (\<lambda>k. 0), udp = (\<lambda>k s q. Inr reply), tcp = (\<lambda>k s q. Inl Truncated)\<rparr>"

definition test_server :: socket_addr where
  "test_server = (IpV4 192 0 2 1, 53)"

definition loopback_reply :: "string \<Rightarrow> nat \<Rightarrow> string" where
  "loopback_reply name qtype = dns_reply 7 False 0 name qtype [(1, 60, map char_of [127, 0, 0, 1 :: nat])]"


text \<open>
  Nothing else of the reply is compared with the query. A reply with the right id whose
  question names another host and another record type is accepted, so an AAAA lookup of one name
  returns, and caches, the IPv4 address of another, although the error \<open>Mismatch\<close> is documented
  to cover a reply whose question did not match.
\<close>

theorem resolver_question_unchecked:
  "let n = fixed_net (loopback_reply ''other.example'' 1); r = resolver_new [test_server];
       (res, sh) = lookup_aaaa n r ''bank.example'' \<lparr>shard_cache = [], exchanges = 0\<rparr>
   in res = Inr [IpV4 127 0 0 1] \<and> cache_get (shard_cache sh) (cache_key TYPE_AAAA ''bank.example'') 1 = Some (Hit [IpV4 127 0 0 1])"
  by code_simp

text \<open>
  Caching is transparent and bounded in time. When the cache holds nothing for a name and the
  first server answers with addresses of non-zero lifetime, the resolution returns them and any
  later resolution of that name and type, on any network, returns the same addresses without an
  exchange until the shortest lifetime, clamped between a second and an hour, has passed; entries
  of other names are unaffected even when the insertion swept the cache.
\<close>

theorem resolver_caches:
  assumes "shard_ok sh" "cache_get (shard_cache sh) (cache_key q name) (clock n (exchanges sh)) = None"
    and "servers r \<noteq> []" "0 < attempts r" "first_answer n r name q sh = (Inr addrs, k)" "addrs \<noteq> []" "0 < min_ttl addrs"
  shows "\<exists>sh'. resolve_cached n r name q sh = (Inr (map ip addrs), sh') \<and> shard_ok sh' \<and>
    (\<forall>n' t. t = clock n' (exchanges sh') \<and> clock n k \<le> t \<longrightarrow>
       (t < clock n k + min (max (secs (min_ttl addrs)) MIN_TTL) MAX_TTL \<longrightarrow>
          resolve_cached n' r name q sh' = (Inr (map ip addrs), sh')) \<and>
       (\<forall>key. key \<noteq> cache_key q name \<longrightarrow> cache_get (shard_cache sh') key t = cache_get (shard_cache sh) key t))"
proof -
  let ?c = "put_positive (shard_cache sh) (cache_key q name) (map ip addrs) (secs (min_ttl addrs)) (clock n k)"
  let ?sh = "\<lparr>shard_cache = ?c, exchanges = k\<rparr>"
  have ok: "hm_ok (shard_cache sh)" using assms(1) by (simp add: shard_ok_def)
  have "resolve_cached n r name q sh = (Inr (map ip addrs), ?sh)"
    using resolve_miss [OF assms(2-6)] assms(7) by simp
  moreover have "shard_ok ?sh" using positive.wf_put [OF ok] by (simp add: shard_ok_def)
  moreover have "resolve_cached n' r name q ?sh = (Inr (map ip addrs), ?sh)"
    if "clock n k \<le> clock n' k" "clock n' k < clock n k + min (max (secs (min_ttl addrs)) MIN_TTL) MAX_TTL" for n'
    using that positive.get_put [OF ok that(1)] by (intro resolve_hit) simp
  moreover have "cache_get ?c key t = cache_get (shard_cache sh) key t"
    if "clock n k \<le> t" "key \<noteq> cache_key q name" for key t
    using positive.get_put [OF ok that(1)] that(2) by simp
  ultimately show ?thesis by (intro exI [of _ ?sh]) auto
qed

theorem resolver_caches_witness:
  "\<exists>sh'. resolve_cached (fixed_net (loopback_reply ''a.b'' 1)) (resolver_new [test_server]) ''a.b'' 1
      \<lparr>shard_cache = [], exchanges = 0\<rparr> = (Inr [IpV4 127 0 0 1], sh') \<and>
    resolve_cached (fixed_net []) (resolver_new [test_server]) ''a.b'' 1 sh' = (Inr [IpV4 127 0 0 1], sh')"
proof -
  let ?n = "fixed_net (loopback_reply ''a.b'' 1)" and ?r = "resolver_new [test_server]"
  let ?sh = "\<lparr>shard_cache = [], exchanges = 0\<rparr>" and ?a = "[\<lparr>ip = IpV4 127 0 0 1, ttl = 60\<rparr>]"
  have q: "first_answer ?n ?r ''a.b'' 1 ?sh = (Inr ?a, 1)" by code_simp
  have m: "shard_ok ?sh" "cache_get (shard_cache ?sh) (cache_key 1 ''a.b'') (clock ?n (exchanges ?sh)) = None"
    "servers ?r \<noteq> []" "0 < attempts ?r" "0 < min_ttl ?a" by code_simp+
  have "(0 :: nat) < 0 + min (max (secs (min_ttl ?a)) MIN_TTL) MAX_TTL" by code_simp
  with resolver_caches [OF m(1-4) q _ m(5)] show ?thesis by (fastforce simp: fixed_net_def)
qed

end
