(* ===== verification/Sha256.thy ===== *)
theory Sha256
  imports Rust_Text "HOL-Library.Word"
begin

text \<open>
  \<open>kernway-security/src/hash.rs\<close>: SHA-256 and HMAC-SHA256 over 32-bit words. The model keeps the
  code's arrays and loops (the schedule filled by index, the state rotated by rebuilding the
  array, the padding pushed byte by byte). The reference is FIPS 180-4: padding by the least
  number of zeros, the schedule as a recurrence, and rounds on eight working variables.
\<close>

unbundle bit_operations_syntax

section \<open>The model\<close>

type_synonym u32 = "32 word"

definition K :: "u32 list" where
  "K = concat
    [[0x428a2f98, 0x71374491, 0xb5c0fbcf, 0xe9b5dba5, 0x3956c25b, 0x59f111f1, 0x923f82a4, 0xab1c5ed5],
     [0xd807aa98, 0x12835b01, 0x243185be, 0x550c7dc3, 0x72be5d74, 0x80deb1fe, 0x9bdc06a7, 0xc19bf174],
     [0xe49b69c1, 0xefbe4786, 0x0fc19dc6, 0x240ca1cc, 0x2de92c6f, 0x4a7484aa, 0x5cb0a9dc, 0x76f988da],
     [0x983e5152, 0xa831c66d, 0xb00327c8, 0xbf597fc7, 0xc6e00bf3, 0xd5a79147, 0x06ca6351, 0x14292967],
     [0x27b70a85, 0x2e1b2138, 0x4d2c6dfc, 0x53380d13, 0x650a7354, 0x766a0abb, 0x81c2c92e, 0x92722c85],
     [0xa2bfe8a1, 0xa81a664b, 0xc24b8b70, 0xc76c51a3, 0xd192e819, 0xd6990624, 0xf40e3585, 0x106aa070],
     [0x19a4c116, 0x1e376c08, 0x2748774c, 0x34b0bcb5, 0x391c0cb3, 0x4ed8aa4a, 0x5b9cca4f, 0x682e6ff3],
     [0x748f82ee, 0x78a5636f, 0x84c87814, 0x8cc70208, 0x90befffa, 0xa4506ceb, 0xbef9a3f7, 0xc67178f2]]"

definition H0 :: "u32 list" where
  "H0 = [0x6a09e667, 0xbb67ae85, 0x3c6ef372, 0xa54ff53a, 0x510e527f, 0x9b05688c, 0x1f83d9ab, 0x5be0cd19]"

definition BLOCK :: nat where "BLOCK = 64"

text \<open>\<open>u32::from_be_bytes\<close>, \<open>u32::to_be_bytes\<close> and \<open>u64::to_be_bytes\<close>.\<close>

definition be_word :: "string \<Rightarrow> u32" where
  "be_word b = of_nat (foldl (\<lambda>acc c. acc * 256 + ord c) 0 b)"

fun be_bytes :: "nat \<Rightarrow> nat \<Rightarrow> string" where
  "be_bytes 0 n = []"
| "be_bytes (Suc k) n = be_bytes k (n div 256) @ [char_of (n mod 256)]"

function pad_loop :: "string \<Rightarrow> string" where
  "pad_loop data = (if length data mod BLOCK = 56 then data else pad_loop (data @ [CHR 0x00]))"
  by pat_completeness auto
termination
proof (relation "measure (\<lambda>data. let m = length data mod 64 in if m \<le> 56 then 56 - m else 120 - m)")
  fix data :: string
  assume a: "length data mod BLOCK \<noteq> 56"
  have "length (data @ [CHR 0x00]) mod 64 = (if length data mod 64 = 63 then 0 else length data mod 64 + 1)"
    by (simp add: mod_Suc)
  moreover have "length data mod 64 < 64" by simp
  ultimately show "(data @ [CHR 0x00], data) \<in>
      measure (\<lambda>data. let m = length data mod 64 in if m \<le> 56 then 56 - m else 120 - m)"
    using a by (auto simp: BLOCK_def Let_def)
qed simp

declare pad_loop.simps [simp del]

definition padded :: "string \<Rightarrow> string" where
  "padded msg = pad_loop (msg @ [CHR 0x80]) @ be_bytes 8 (length msg * 8 mod 2 ^ 64)"

text \<open>\<open>chunks_exact(n)\<close>.\<close>

function chunks_exact :: "nat \<Rightarrow> string \<Rightarrow> string list" where
  "chunks_exact n s = (if n = 0 \<or> length s < n then [] else take n s # chunks_exact n (drop n s))"
  by pat_completeness auto
termination
  by (relation "measure (\<lambda>(n, s). length s)") auto

declare chunks_exact.simps [simp del]

definition small_s0 :: "u32 \<Rightarrow> u32" where
  "small_s0 x = word_rotr 7 x XOR word_rotr 18 x XOR drop_bit 3 x"

definition small_s1 :: "u32 \<Rightarrow> u32" where
  "small_s1 x = word_rotr 17 x XOR word_rotr 19 x XOR drop_bit 10 x"

definition extend_at :: "nat \<Rightarrow> u32 list \<Rightarrow> u32 list" where
  "extend_at i w = w[i := w ! (i - 16) + small_s0 (w ! (i - 15)) + w ! (i - 7) + small_s1 (w ! (i - 2))]"

definition schedule :: "string \<Rightarrow> u32 list" where
  "schedule block = fold extend_at [16..<64] (map be_word (chunks_exact 4 block) @ replicate 48 0)"

definition round_at :: "u32 list \<Rightarrow> nat \<Rightarrow> u32 list \<Rightarrow> u32 list" where
  "round_at w i v =
     (let s1 = word_rotr 6 (v ! 4) XOR word_rotr 11 (v ! 4) XOR word_rotr 25 (v ! 4);
          ch = ((v ! 4) AND (v ! 5)) XOR ((NOT (v ! 4)) AND (v ! 6));
          t1 = v ! 7 + s1 + ch + K ! i + w ! i;
          s0 = word_rotr 2 (v ! 0) XOR word_rotr 13 (v ! 0) XOR word_rotr 22 (v ! 0);
          maj = ((v ! 0) AND (v ! 1)) XOR ((v ! 0) AND (v ! 2)) XOR ((v ! 1) AND (v ! 2));
          t2 = s0 + maj
      in [t1 + t2, v ! 0, v ! 1, v ! 2, v ! 3 + t1, v ! 4, v ! 5, v ! 6])"

definition compress :: "u32 list \<Rightarrow> string \<Rightarrow> u32 list" where
  "compress h block = map2 (+) h (fold (round_at (schedule block)) [0..<64] h)"

definition sha256 :: "string \<Rightarrow> string" where
  "sha256 msg =
     concat (map (\<lambda>w. be_bytes 4 (unat w)) (fold (\<lambda>b h. compress h b) (chunks_exact BLOCK (padded msg)) H0))"

definition xor_byte :: "nat \<Rightarrow> char \<Rightarrow> char" where
  "xor_byte m c = char_of (ord c XOR m)"

definition hmac_sha256 :: "string \<Rightarrow> string \<Rightarrow> string" where
  "hmac_sha256 key msg =
     (let k0 = (if length key > BLOCK then sha256 key else key);
          k = k0 @ replicate (BLOCK - length k0) (CHR 0x00);
          ipad = map (xor_byte 0x36) k;
          opad = map (xor_byte 0x5c) k
      in sha256 (opad @ sha256 (ipad @ msg)))"

section \<open>FIPS 180-4\<close>

text \<open>Padding (5.1.1): one bit, the least number of zeros, the length in bits.\<close>

definition fips_padded :: "string \<Rightarrow> string" where
  "fips_padded msg =
     msg @ [CHR 0x80] @ replicate (LEAST k. (length msg + 1 + k) mod 64 = 56) (CHR 0x00) @
     be_bytes 8 (8 * length msg mod 2 ^ 64)"

definition fips_blocks :: "string \<Rightarrow> string list" where
  "fips_blocks p = map (\<lambda>i. take 64 (drop (64 * i) p)) [0..<length p div 64]"

text \<open>The message schedule (6.2.2, step 1).\<close>

definition fips_word :: "string \<Rightarrow> nat \<Rightarrow> u32" where
  "fips_word block t = be_word (take 4 (drop (4 * t) block))"

fun fips_W :: "string \<Rightarrow> nat \<Rightarrow> u32" where
  "fips_W block t =
     (if t < 16 then fips_word block t
      else small_s1 (fips_W block (t - 2)) + fips_W block (t - 7) + small_s0 (fips_W block (t - 15)) + fips_W block (t - 16))"

declare fips_W.simps [simp del]

text \<open>The functions of 4.1.2 and the round of 6.2.2, step 3.\<close>

definition fips_Ch :: "u32 \<Rightarrow> u32 \<Rightarrow> u32 \<Rightarrow> u32" where
  "fips_Ch x y z = (x AND y) XOR (NOT x AND z)"

definition fips_Maj :: "u32 \<Rightarrow> u32 \<Rightarrow> u32 \<Rightarrow> u32" where
  "fips_Maj x y z = (x AND y) XOR (x AND z) XOR (y AND z)"

definition big_s0 :: "u32 \<Rightarrow> u32" where
  "big_s0 x = word_rotr 2 x XOR word_rotr 13 x XOR word_rotr 22 x"

definition big_s1 :: "u32 \<Rightarrow> u32" where
  "big_s1 x = word_rotr 6 x XOR word_rotr 11 x XOR word_rotr 25 x"

type_synonym fips_state = "u32 \<times> u32 \<times> u32 \<times> u32 \<times> u32 \<times> u32 \<times> u32 \<times> u32"

fun fips_round :: "string \<Rightarrow> nat \<Rightarrow> fips_state \<Rightarrow> fips_state" where
  "fips_round block t (a, b, c, d, e, f, g, h) =
     (let T1 = h + big_s1 e + fips_Ch e f g + K ! t + fips_W block t;
          T2 = big_s0 a + fips_Maj a b c
      in (T1 + T2, a, b, c, d + T1, e, f, g))"

fun fips_rounds :: "string \<Rightarrow> nat \<Rightarrow> fips_state \<Rightarrow> fips_state" where
  "fips_rounds block 0 s = s"
| "fips_rounds block (Suc n) s = fips_round block n (fips_rounds block n s)"

fun fips_block :: "string \<Rightarrow> fips_state \<Rightarrow> fips_state" where
  "fips_block block (a0, b0, c0, d0, e0, f0, g0, h0) =
     (let (a, b, c, d, e, f, g, h) = fips_rounds block 64 (a0, b0, c0, d0, e0, f0, g0, h0)
      in (a0 + a, b0 + b, c0 + c, d0 + d, e0 + e, f0 + f, g0 + g, h0 + h))"

definition fips_initial :: fips_state where
  "fips_initial =
     (0x6a09e667, 0xbb67ae85, 0x3c6ef372, 0xa54ff53a, 0x510e527f, 0x9b05688c, 0x1f83d9ab, 0x5be0cd19)"

fun state_list :: "fips_state \<Rightarrow> u32 list" where
  "state_list (a, b, c, d, e, f, g, h) = [a, b, c, d, e, f, g, h]"

definition fips_sha256 :: "string \<Rightarrow> string" where
  "fips_sha256 msg =
     concat (map (\<lambda>w. be_bytes 4 (unat w)) (state_list (fold fips_block (fips_blocks (fips_padded msg)) fips_initial)))"

section \<open>Equivalence\<close>

lemma be_bytes_length [simp]: "length (be_bytes k n) = k"
  by (induction k arbitrary: n) simp_all

lemma pad_loop_least:
  "\<exists>k. pad_loop d = d @ replicate k (CHR 0x00) \<and> (length d + k) mod 64 = 56 \<and>
     (\<forall>j<k. (length d + j) mod 64 \<noteq> 56)"
proof (induction d rule: pad_loop.induct)
  case (1 d)
  show ?case
  proof (cases "length d mod 64 = 56")
    case True
    then have "pad_loop d = d @ replicate 0 (CHR 0x00)" by (subst pad_loop.simps) (simp add: BLOCK_def)
    with True show ?thesis by (intro exI [of _ 0]) auto
  next
    case False
    with "1.IH" obtain k where k: "pad_loop (d @ [CHR 0x00]) = (d @ [CHR 0x00]) @ replicate k (CHR 0x00)"
      "(length (d @ [CHR 0x00]) + k) mod 64 = 56" "\<forall>j<k. (length (d @ [CHR 0x00]) + j) mod 64 \<noteq> 56"
      by (auto simp: BLOCK_def)
    have "pad_loop d = d @ replicate (Suc k) (CHR 0x00)"
      using False k(1) by (subst pad_loop.simps) (simp add: BLOCK_def)
    moreover have "\<forall>j<Suc k. (length d + j) mod 64 \<noteq> 56"
      using False k(3) by (auto simp: less_Suc_eq_0_disj)
    ultimately show ?thesis using k(2) by (intro exI [of _ "Suc k"]) simp
  qed
qed

lemma padded_fips: "padded msg = fips_padded msg"
proof -
  obtain k where k: "pad_loop (msg @ [CHR 0x80]) = (msg @ [CHR 0x80]) @ replicate k (CHR 0x00)"
    "(length msg + 1 + k) mod 64 = 56" "\<forall>j<k. (length msg + 1 + j) mod 64 \<noteq> 56"
    using pad_loop_least [of "msg @ [CHR 0x80]"] by auto
  then have "(LEAST k. (length msg + 1 + k) mod 64 = 56) = k"
    by (intro Least_equality) (auto simp: not_less [symmetric])
  with k(1) show ?thesis by (simp add: padded_def fips_padded_def mult.commute)
qed

lemma padded_length: "length (padded msg) mod 64 = 0"
proof -
  have "length (pad_loop (msg @ [CHR 0x80])) mod 64 = 56"
    using pad_loop_least [of "msg @ [CHR 0x80]"] by auto
  then have "(length (pad_loop (msg @ [CHR 0x80])) + 8) mod 64 = 0"
    using mod_add_left_eq [of "length (pad_loop (msg @ [CHR 0x80]))" 64 8] by simp
  then show ?thesis by (simp add: padded_def)
qed

lemma chunks_exact_map:
  "0 < n \<Longrightarrow> chunks_exact n s = map (\<lambda>i. take n (drop (n * i) s)) [0..<length s div n]"
proof (induction n s rule: chunks_exact.induct)
  case (1 n s)
  show ?case
  proof (cases "length s < n")
    case False
    with "1.IH" "1.prems" have IH: "chunks_exact n (drop n s) =
        map (\<lambda>i. take n (drop (n * i) (drop n s))) [0..<length (drop n s) div n]" by simp
    have "length s div n = Suc (length (drop n s) div n)"
      using False "1.prems" by (simp add: le_div_geq)
    then have "[0..<length s div n] = 0 # map Suc [0..<length (drop n s) div n]"
      by (simp add: upt_conv_Cons map_Suc_upt del: upt_Suc)
    with False "1.prems" IH show ?thesis
      by (subst chunks_exact.simps) (simp add: add.commute)
  qed (simp add: chunks_exact.simps)
qed

lemma block_words: "length block = 64 \<Longrightarrow> map be_word (chunks_exact 4 block) = map (fips_word block) [0..<16]"
  by (simp add: chunks_exact_map fips_word_def comp_def)

lemma extend_at_length [simp]: "length (extend_at i w) = length w"
  by (simp add: extend_at_def)

lemma schedule_prefix:
  assumes "length block = 64" "16 \<le> n" "n \<le> 64"
  defines "w \<equiv> fold extend_at [16..<n] (map be_word (chunks_exact 4 block) @ replicate 48 0)"
  shows "length w = 64 \<and> (\<forall>t<n. w ! t = fips_W block t)"
  using assms(2,3) unfolding w_def
proof (induction n rule: nat_induct_at_least)
  case base
  show ?case using assms(1) by (auto simp: block_words nth_append fips_W.simps)
next
  case (Suc n)
  let ?w = "fold extend_at [16..<n] (map be_word (chunks_exact 4 block) @ replicate 48 0)"
  have IH: "length ?w = 64" "\<forall>t<n. ?w ! t = fips_W block t" using Suc by auto
  have "fold extend_at [16..<Suc n] (map be_word (chunks_exact 4 block) @ replicate 48 0) = extend_at n ?w"
    using Suc.hyps by simp
  moreover have "extend_at n ?w ! n = fips_W block n"
    using IH Suc.hyps Suc.prems
    by (simp add: extend_at_def fips_W.simps [of block n] add.commute add.left_commute)
  moreover have "extend_at n ?w ! t = fips_W block t" if "t < n" for t
    using IH that by (simp add: extend_at_def)
  ultimately show ?case using IH(1) by (auto simp: less_Suc_eq)
qed

lemma schedule_fips: "length block = 64 \<Longrightarrow> t < 64 \<Longrightarrow> schedule block ! t = fips_W block t"
  using schedule_prefix [of block 64] by (simp add: schedule_def)

lemma fips_state_cases:
  fixes s :: fips_state
  obtains a b c d e f g h where "s = (a, b, c, d, e, f, g, h)"
proof -
  obtain a b c d e f p where s: "s = (a, b, c, d, e, f, p)" by (rule prod_cases7)
  obtain g h where "p = (g, h)" by (cases p)
  with s that show thesis by simp
qed

lemma round_fips:
  "length block = 64 \<Longrightarrow> t < 64 \<Longrightarrow>
     round_at (schedule block) t (state_list s) = state_list (fips_round block t s)"
  by (cases s rule: fips_state_cases) (simp add: round_at_def schedule_fips big_s0_def big_s1_def fips_Ch_def fips_Maj_def Let_def)

lemma rounds_fips:
  "length block = 64 \<Longrightarrow> n \<le> 64 \<Longrightarrow>
     fold (round_at (schedule block)) [0..<n] (state_list s) = state_list (fips_rounds block n s)"
  by (induction n) (simp_all add: round_fips)

lemma compress_fips:
  assumes "length block = 64"
  shows "compress (state_list s) block = state_list (fips_block block s)"
proof -
  obtain a b c d e f g h where r: "fips_rounds block 64 s = (a, b, c, d, e, f, g, h)"
    by (rule fips_state_cases)
  with rounds_fips [OF assms, of 64 s] show ?thesis
    by (cases s rule: fips_state_cases) (simp add: compress_def)
qed

lemma blocks_fold:
  "(\<And>b. b \<in> set bs \<Longrightarrow> length b = 64) \<Longrightarrow>
     fold (\<lambda>b h. compress h b) bs (state_list s) = state_list (fold fips_block bs s)"
  by (induction bs arbitrary: s) (simp_all add: compress_fips)

section \<open>Properties\<close>

text \<open>
  \<open>sha256\<close> is the function of FIPS 180-4: its index loops, its padding loop and its rotated
  state array compute the standard's padding, message schedule and rounds on every message, and
  the digest has 32 bytes.
\<close>

theorem sha256_fips: "sha256 msg = fips_sha256 msg \<and> length (sha256 msg) = 32"
proof -
  have b: "chunks_exact BLOCK (padded msg) = fips_blocks (fips_padded msg)"
    by (simp add: chunks_exact_map fips_blocks_def padded_fips BLOCK_def)
  have "length x = 64" if "x \<in> set (fips_blocks (fips_padded msg))" for x
    using that padded_length [of msg] unfolding padded_fips
    by (auto simp: fips_blocks_def min_def)
  from blocks_fold [OF this, where s = fips_initial]
  have e: "fold (\<lambda>b h. compress h b) (chunks_exact BLOCK (padded msg)) H0 =
      state_list (fold fips_block (fips_blocks (fips_padded msg)) fips_initial)"
    by (simp add: b H0_def fips_initial_def)
  moreover have "length (state_list s) = 8" for s by (cases s rule: fips_state_cases) simp
  ultimately show ?thesis
    by (simp add: sha256_def fips_sha256_def length_concat comp_def sum_list_triv)
qed

end
