(* ===== verification/Web_Security.thy ===== *)
theory Web_Security
  imports Http_Message
begin

text \<open>
  \<open>kernway-security/src/lib.rs\<close>: the security response headers, the double-submit CSRF check and
  the authorization context. The operating system's random bytes are an argument of the token
  generator. A \<open>HashSet\<close> of names is a \<^typ>\<open>string set\<close>.
\<close>

unbundle bit_operations_syntax

section \<open>Response headers\<close>

record security_headers =
  sh_content_type_options :: bool
  sh_frame_options :: "string option"
  sh_csp :: "string option"
  sh_referrer_policy :: "string option"
  sh_hsts :: "string option"
  sh_permissions_policy :: "string option"

definition headers_new :: security_headers where
  "headers_new =
     \<lparr>sh_content_type_options = False, sh_frame_options = None, sh_csp = None,
      sh_referrer_policy = None, sh_hsts = None, sh_permissions_policy = None\<rparr>"

definition strict :: security_headers where
  "strict =
     \<lparr>sh_content_type_options = True, sh_frame_options = Some ''DENY'',
      sh_csp = Some (''default-src '' @ [CHR 0x27] @ ''self'' @ [CHR 0x27]),
      sh_referrer_policy = Some ''no-referrer'', sh_hsts = Some ''max-age=31536000; includeSubDomains'',
      sh_permissions_policy = Some ''geolocation=(), microphone=(), camera=()''\<rparr>"

definition content_security_policy :: "security_headers \<Rightarrow> string \<Rightarrow> security_headers" where
  "content_security_policy h v = h\<lparr>sh_csp := Some v\<rparr>"

definition frame_options :: "security_headers \<Rightarrow> string \<Rightarrow> security_headers" where
  "frame_options h v = h\<lparr>sh_frame_options := Some v\<rparr>"

definition referrer_policy :: "security_headers \<Rightarrow> string \<Rightarrow> security_headers" where
  "referrer_policy h v = h\<lparr>sh_referrer_policy := Some v\<rparr>"

definition hsts :: "security_headers \<Rightarrow> string \<Rightarrow> security_headers" where
  "hsts h v = h\<lparr>sh_hsts := Some v\<rparr>"

definition content_type_options :: "security_headers \<Rightarrow> bool \<Rightarrow> security_headers" where
  "content_type_options h b = h\<lparr>sh_content_type_options := b\<rparr>"

definition opt_pair :: "string \<Rightarrow> string option \<Rightarrow> (string \<times> string) list" where
  "opt_pair name v = (case v of Some x \<Rightarrow> [(name, x)] | None \<Rightarrow> [])"

definition headers :: "security_headers \<Rightarrow> (string \<times> string) list" where
  "headers h =
     (if sh_content_type_options h then [(''x-content-type-options'', ''nosniff'')] else []) @
     opt_pair ''x-frame-options'' (sh_frame_options h) @
     opt_pair ''content-security-policy'' (sh_csp h) @
     opt_pair ''referrer-policy'' (sh_referrer_policy h) @
     opt_pair ''strict-transport-security'' (sh_hsts h) @
     opt_pair ''permissions-policy'' (sh_permissions_policy h)"

definition apply_headers :: "security_headers \<Rightarrow> 's response \<Rightarrow> 's response run" where
  "apply_headers h r =
     bind_run (fold_run (\<lambda>f (name, v). fields_insert True f name v) (resp_headers r) (headers h))
       (\<lambda>f. Inr (r\<lparr>resp_headers := f\<rparr>))"

section \<open>CSRF\<close>

definition CSRF_COOKIE :: string where "CSRF_COOKIE = ''kw_csrf''"
definition CSRF_FIELD :: string where "CSRF_FIELD = ''_csrf''"
definition CSRF_HEADER :: string where "CSRF_HEADER = ''x-csrf-token''"

definition hex_low :: "nat \<Rightarrow> char" where
  "hex_low d = (if d < 10 then char_of (48 + d) else char_of (87 + d))"

definition csrf_generate :: "string \<Rightarrow> string" where
  "csrf_generate bytes = concat (map (\<lambda>b. [hex_low (ord b div 16), hex_low (ord b mod 16)]) bytes)"

definition csrf_set_cookie :: "string \<Rightarrow> bool \<Rightarrow> string" where
  "csrf_set_cookie token secure =
     CSRF_COOKIE @ ''='' @ token @ ''; Path=/; HttpOnly; SameSite=Lax'' @ (if secure then ''; Secure'' else [])"

fun diff_loop :: "nat \<Rightarrow> string \<Rightarrow> string \<Rightarrow> nat" where
  "diff_loop diff (x # xs) (y # ys) = diff_loop (diff OR (ord x XOR ord y)) xs ys"
| "diff_loop diff _ _ = diff"

definition csrf_verify :: "string \<Rightarrow> string \<Rightarrow> bool" where
  "csrf_verify submitted expected \<longleftrightarrow>
     (if length submitted \<noteq> length expected then False else diff_loop 0 submitted expected = 0)"

definition cookie_token :: "string \<Rightarrow> string \<Rightarrow> string option" where
  "cookie_token name cookie_header = find_map (cookie_pair name) (split_on (CHR '';'') cookie_header)"

definition token_from_cookie :: "string \<Rightarrow> string option" where
  "token_from_cookie cookie_header = cookie_token CSRF_COOKIE cookie_header"

text \<open>The byte loop of \<open>url_decode\<close>.\<close>

fun url_bytes :: "string \<Rightarrow> string" where
  "url_bytes [] = []"
| "url_bytes (c # cs) =
     (if c = CHR ''+'' then CHR '' '' # url_bytes cs
      else if c = CHR ''%'' then
        (case cs of
           a # b # rest \<Rightarrow>
             (case (hex_digit a, hex_digit b) of
                (Some h, Some l) \<Rightarrow> char_of (h * 16 + l) # url_bytes rest
              | _ \<Rightarrow> c # url_bytes cs)
         | _ \<Rightarrow> c # url_bytes cs)
      else c # url_bytes cs)"

definition url_decode :: "string \<Rightarrow> string" where
  "url_decode s = from_utf8_lossy (url_bytes s)"

definition csrf_form_field :: "string \<Rightarrow> string \<Rightarrow> string option" where
  "csrf_form_field body name =
     find_map (\<lambda>pair.
       case split_once (CHR ''='') pair of
         None \<Rightarrow> None
       | Some (k, v) \<Rightarrow> if k = name then Some (url_decode v) else None) (split_on (CHR ''&'') body)"

definition submitted_token :: "request \<Rightarrow> string option" where
  "submitted_token r =
     (case header r CSRF_HEADER of
        Some h \<Rightarrow> Some h
      | None \<Rightarrow> if utf8_valid (req_body r) then csrf_form_field (req_body r) CSRF_FIELD else None)"

definition verify_request :: "request \<Rightarrow> bool" where
  "verify_request r =
     (let expected = Option.bind (header r ''cookie'') token_from_cookie
      in case (submitted_token r, expected) of
           (Some s, Some e) \<Rightarrow> csrf_verify s e
         | _ \<Rightarrow> False)"

section \<open>The authorization context\<close>

record security_context =
  is_authenticated :: bool
  principal :: "string option"
  ctx_roles :: "string set"
  ctx_authorities :: "string set"

definition anonymous :: security_context where
  "anonymous = \<lparr>is_authenticated = False, principal = None, ctx_roles = {}, ctx_authorities = {}\<rparr>"

definition authenticated :: "string \<Rightarrow> string list \<Rightarrow> security_context" where
  "authenticated user roles =
     \<lparr>is_authenticated = True, principal = Some user, ctx_roles = set roles, ctx_authorities = {}\<rparr>"

definition with_authorities :: "security_context \<Rightarrow> string list \<Rightarrow> security_context" where
  "with_authorities c as = c\<lparr>ctx_authorities := set as\<rparr>"

definition has_role :: "security_context \<Rightarrow> string \<Rightarrow> bool" where
  "has_role c role \<longleftrightarrow> role \<in> ctx_roles c"

definition has_any_role :: "security_context \<Rightarrow> string list \<Rightarrow> bool" where
  "has_any_role c roles \<longleftrightarrow> list_ex (\<lambda>r. r \<in> ctx_roles c) roles"

definition has_authority :: "security_context \<Rightarrow> string \<Rightarrow> bool" where
  "has_authority c a \<longleftrightarrow> a \<in> ctx_authorities c"

definition has_any_authority :: "security_context \<Rightarrow> string list \<Rightarrow> bool" where
  "has_any_authority c as \<longleftrightarrow> list_ex (\<lambda>a. a \<in> ctx_authorities c) as"

section \<open>Lemmas\<close>

lemma or_eq_0: "(a :: nat) OR b = 0 \<longleftrightarrow> a = 0 \<and> b = 0"
  by (auto simp: bit_eq_iff bit_or_iff)

lemma xor_eq_0: "(a :: nat) XOR b = 0 \<longleftrightarrow> a = b"
  by (auto simp: bit_eq_iff bit_xor_iff)

lemma diff_loop_0:
  "length xs = length ys \<Longrightarrow> diff_loop diff xs ys = 0 \<longleftrightarrow> diff = 0 \<and> xs = ys"
  by (induction diff xs ys rule: diff_loop.induct) (auto simp: or_eq_0 xor_eq_0)

lemma csrf_verify_eq: "csrf_verify s e \<longleftrightarrow> s = e"
  by (auto simp: csrf_verify_def diff_loop_0)

text \<open>The pairs that \<open>apply\<close> writes, and lookup after it.\<close>

lemma headers_facts:
  "distinct (map fst (headers h)) \<and> list_all (\<lambda>(n, v). is_ascii n \<and> map to_ascii_lowercase n = n) (headers h)"
proof -
  have "list_all (\<lambda>n. is_ascii n \<and> map to_ascii_lowercase n = n)
    [''x-content-type-options'', ''x-frame-options'', ''content-security-policy'', ''referrer-policy'',
     ''strict-transport-security'', ''permissions-policy'']" by code_simp
  then show ?thesis by (auto simp: headers_def opt_pair_def split: option.splits)
qed

lemma fold_insert_lookup:
  "fields_ok True f \<Longrightarrow> list_all (\<lambda>(n, v). utf8_valid n \<and> utf8_valid v) ps \<Longrightarrow>
   fold_run (\<lambda>f (n, v). fields_insert True f n v) f ps = Inr g \<Longrightarrow>
   fields_ok True g \<and> fields_get True g m =
     (case find (\<lambda>(n, v). stored_name True n = stored_name True m) (rev ps) of
        Some (n, v) \<Rightarrow> Some v | None \<Rightarrow> fields_get True f m)"
proof (induction ps arbitrary: g rule: rev_induct)
  case Nil
  then show ?case by simp
next
  case (snoc p ps)
  obtain n v where p: "p = (n, v)" by (cases p)
  have "fold_run (\<lambda>f (n, v). fields_insert True f n v) f (ps @ [p]) =
      bind_run (fold_run (\<lambda>f (n, v). fields_insert True f n v) f ps) (\<lambda>f. fields_insert True f n v)" for f
    by (induction ps arbitrary: f) (auto simp: p bind_run_def split: sum.splits)
  with snoc.prems(3) obtain g1 where g1: "fold_run (\<lambda>f (n, v). fields_insert True f n v) f ps = Inr g1"
    "fields_insert True g1 n v = Inr g" by (auto simp: bind_run_Inr)
  have ok: "fields_ok True g1" using snoc.IH [OF snoc.prems(1) _ g1(1)] snoc.prems(2) by simp
  have v: "utf8_valid n" "utf8_valid v" using snoc.prems(2) p by auto
  have "fields_ok True g" using fs.insert_law [OF ok v g1(2)] by blast
  moreover have "fields_get True g m = (if stored_name True m = stored_name True n then Some v else fields_get True g1 m)"
    using fs.lookup_insert [OF ok v g1(2)] .
  moreover have "fields_get True g1 m =
      (case find (\<lambda>(n, v). stored_name True n = stored_name True m) (rev ps) of
        Some (n, v) \<Rightarrow> Some v | None \<Rightarrow> fields_get True f m)"
    using snoc.IH [OF snoc.prems(1) _ g1(1)] snoc.prems(2) by simp
  ultimately show ?case using p by auto
qed

lemma apply_headers_total:
  assumes "fields_byte_len (resp_headers r) + sum_list (map (\<lambda>(n, v). length n + length v) (headers h)) \<le> u32_max"
  shows "\<exists>r'. apply_headers h r = Inr r'"
proof -
  have step: "\<exists>f'. (\<lambda>f (name, v). fields_insert True f name v) f p = Inr f' \<and>
      fields_byte_len f' \<le> fields_byte_len f + (\<lambda>(n, v). length n + length v) p"
    if "fields_byte_len f + (\<lambda>(n, v). length n + length v) p \<le> u32_max" for f and p :: "string \<times> string"
    using that by (cases p) (simp add: fields_insert_def fields_push_Inr fields_byte_len_def)
  from fold_run_total [where sz = fields_byte_len and f = "\<lambda>f (name, v). fields_insert True f name v", OF step assms]
  show ?thesis by (auto simp: apply_headers_def)
qed

lemma find_SomeD: "find P xs = Some x \<Longrightarrow> P x \<and> x \<in> set xs"
  by (induction xs) (auto split: if_splits)

section \<open>Properties\<close>

text \<open>
  The CSRF check accepts exactly a matching double submit. A request passes if and only if
  its \<open>Cookie\<close> header carries the token cookie and the token submitted in the header, or failing
  that in the form field, is byte for byte the same; in particular the constant-time comparison
  is equality, and a request without a cookie or without a submitted token is refused.
\<close>

theorem csrf_double_submit:
  "verify_request r \<longleftrightarrow>
     (\<exists>token. submitted_token r = Some token \<and>
        Option.bind (header r ''cookie'') (\<lambda>c. find_map (cookie_pair ''kw_csrf'') (split_on (CHR '';'') c)) = Some token)"
proof -
  have "token_from_cookie = (\<lambda>c. find_map (cookie_pair ''kw_csrf'') (split_on (CHR '';'') c))"
    by (simp add: token_from_cookie_def cookie_token_def CSRF_COOKIE_def fun_eq_iff)
  then show ?thesis
    by (auto simp: verify_request_def csrf_verify_eq Let_def split: option.splits)
qed

text \<open>
  The configured headers end up on the response. After \<open>apply\<close>, every header of the
  configuration is looked up with its configured value, in any spelling of its name and whatever
  the handler had set, and every other header is unchanged.
\<close>

theorem security_headers_applied:
  assumes "fields_ok True (resp_headers r)" "list_all (\<lambda>(n, v). utf8_valid v) (headers h)"
    and "apply_headers h r = Inr r'"
  shows "(\<forall>n v. (n, v) \<in> set (headers h) \<longrightarrow> fields_get True (resp_headers r') n = Some v) \<and>
    (\<forall>m. map to_ascii_lowercase m \<notin> fst ` set (headers h) \<longrightarrow>
       fields_get True (resp_headers r') m = fields_get True (resp_headers r) m) \<and>
    resp_status r' = resp_status r \<and> resp_body r' = resp_body r"
proof -
  let ?hs = "headers h"
  from assms(3) obtain g where g: "fold_run (\<lambda>f (n, v). fields_insert True f n v) (resp_headers r) ?hs = Inr g"
    and r': "r' = r\<lparr>resp_headers := g\<rparr>" by (auto simp: apply_headers_def bind_run_Inr)
  have low: "stored_name True n = n" "utf8_valid n" if "(n, v) \<in> set ?hs" for n v
    using headers_facts [of h] that by (auto simp: list_all_iff stored_name_def is_ascii_utf8_valid)
  have valid: "list_all (\<lambda>(n, v). utf8_valid n \<and> utf8_valid v) ?hs"
    using assms(2) low(2) by (auto simp: list_all_iff)
  note get = fold_insert_lookup [OF assms(1) valid g]
  have "fields_get True g n = Some v" if "(n, v) \<in> set ?hs" for n v
  proof -
    have "find (\<lambda>(k, w). stored_name True k = stored_name True n) (rev ?hs) = Some (n, v)"
    proof (cases "find (\<lambda>(k, w). stored_name True k = stored_name True n) (rev ?hs)")
      case None
      with that show ?thesis by (auto simp: find_None_iff)
    next
      case (Some kw)
      then obtain k w where kw: "kw = (k, w)" "(k, w) \<in> set ?hs" "stored_name True k = stored_name True n"
        using find_SomeD [OF Some] by (cases kw) auto
      then have "k = n" using low(1) that by metis
      moreover have "w = v" using headers_facts [of h] kw(2) that \<open>k = n\<close> by (metis eq_key_imp_eq_value)
      ultimately show ?thesis using Some kw(1) by simp
    qed
    with get [of n] show ?thesis by simp
  qed
  moreover have "fields_get True g m = fields_get True (resp_headers r) m"
    if "map to_ascii_lowercase m \<notin> fst ` set ?hs" for m
  proof -
    have "find (\<lambda>(k, w). stored_name True k = stored_name True m) (rev ?hs) = None"
      using that low(1) by (force simp: find_None_iff stored_name_def)
    with get [of m] show ?thesis by simp
  qed
  ultimately show ?thesis using r' by simp
qed

theorem security_headers_applied_witness:
  "\<exists>r' :: unit response. apply_headers strict (response_new 200) = Inr r' \<and>
     fields_get True (resp_headers r') ''x-frame-options'' = Some ''DENY''"
proof -
  let ?r = "response_new 200 :: unit response"
  have "fields_byte_len (resp_headers ?r) + sum_list (map (\<lambda>(n, v). length n + length v) (headers strict)) \<le> u32_max"
    by code_simp
  from apply_headers_total [OF this] obtain r' where r': "apply_headers strict ?r = Inr r'" by blast
  have ok: "fields_ok True (resp_headers ?r)" "list_all (\<lambda>(n, v). utf8_valid v) (headers strict)" by code_simp+
  have "(''x-frame-options'', ''DENY'') \<in> set (headers strict)" by code_simp
  with security_headers_applied [OF ok r'] r' show ?thesis by blast
qed

end
