(* ===== verification/Session_Token.thy ===== *)
theory Session_Token
  imports Sha256 Web_Security
begin

text \<open>
  \<open>kernway-security/src/token.rs\<close>: the signed session token. The payload is the claims joined by
  a control character, in base64url, followed by a dot and the base64url of an HMAC-SHA256 over
  the payload text. The lemmas show the two codecs invertible and reduce acceptance of a token
  to the authenticity of its MAC.
\<close>

section \<open>base64url\<close>

definition ALPHABET :: string where
  "ALPHABET = ''ABCDEFGHIJKLMNOPQRSTUVWXYZabcdefghijklmnopqrstuvwxyz0123456789-_''"

function chunks :: "nat \<Rightarrow> string \<Rightarrow> string list" where
  "chunks n s = (if n = 0 \<or> s = [] then [] else take n s # chunks n (drop n s))"
  by pat_completeness auto
termination
  by (relation "measure (\<lambda>(n, s). length s)") auto

declare chunks.simps [simp del]

definition get_or_0 :: "string \<Rightarrow> nat \<Rightarrow> nat" where
  "get_or_0 c i = (if i < length c then ord (c ! i) else 0)"

definition encode_chunk :: "string \<Rightarrow> string" where
  "encode_chunk c =
     (let n = (push_bit 16 (get_or_0 c 0) OR push_bit 8 (get_or_0 c 1)) OR get_or_0 c 2
      in [ALPHABET ! (drop_bit 18 n AND 63), ALPHABET ! (drop_bit 12 n AND 63)] @
         (if length c > 1 then [ALPHABET ! (drop_bit 6 n AND 63)] else []) @
         (if length c > 2 then [ALPHABET ! (n AND 63)] else []))"

definition b64url_encode :: "string \<Rightarrow> string" where
  "b64url_encode data = concat (map encode_chunk (chunks 3 data))"

definition b64_value :: "char \<Rightarrow> nat option" where
  "b64_value c =
     (if 65 \<le> ord c \<and> ord c \<le> 90 then Some (ord c - 65)
      else if 97 \<le> ord c \<and> ord c \<le> 122 then Some (ord c - 97 + 26)
      else if 48 \<le> ord c \<and> ord c \<le> 57 then Some (ord c - 48 + 52)
      else if c = CHR ''-'' then Some 62
      else if c = CHR ''_'' then Some 63
      else None)"

text \<open>The accumulator is a \<open>u32\<close> whose high bits fall off on the left shift.\<close>

fun decode_loop :: "nat \<Rightarrow> nat \<Rightarrow> string \<Rightarrow> string \<Rightarrow> string option" where
  "decode_loop acc bits out [] = Some out"
| "decode_loop acc bits out (c # cs) =
     (if c = CHR ''='' then decode_loop acc bits out cs
      else
        (case b64_value c of
           None \<Rightarrow> None
         | Some v \<Rightarrow>
             let acc' = (push_bit 6 acc mod 2 ^ 32) OR v
             in if bits + 6 \<ge> 8
                then decode_loop acc' (bits + 6 - 8) (out @ [char_of (drop_bit (bits + 6 - 8) acc' mod 256)]) cs
                else decode_loop acc' (bits + 6) out cs))"

definition b64url_decode :: "string \<Rightarrow> string option" where
  "b64url_decode s = decode_loop 0 0 [] s"

section \<open>Claims\<close>

record claims =
  sid :: string
  user :: string
  roles :: "string list"
  version :: nat
  exp :: nat

definition SEP :: char where
  "SEP = CHR 0x1F"

definition encode_claims :: "claims \<Rightarrow> string" where
  "encode_claims c =
     sid c @ [SEP] @ user c @ [SEP] @ join '','' (roles c) @ [SEP] @ show_nat (version c) @ [SEP] @ show_nat (exp c)"

definition decode_claims :: "string \<Rightarrow> claims option" where
  "decode_claims b =
     (if \<not> utf8_valid b then None
      else
        (case split_on SEP b of
           [s, u, r, v, e] \<Rightarrow>
             (case (parse_u64 v, parse_u64 e) of
                (Some v', Some e') \<Rightarrow>
                  Some \<lparr>sid = s, user = u, roles = (if r = [] then [] else split_on (CHR '','') r),
                        version = v', exp = e'\<rparr>
              | _ \<Rightarrow> None)
         | _ \<Rightarrow> None))"

section \<open>Signing\<close>

definition sign :: "string \<Rightarrow> claims \<Rightarrow> string" where
  "sign key c =
     (let payload = b64url_encode (encode_claims c); sig = b64url_encode (hmac_sha256 key payload)
      in payload @ ''.'' @ sig)"

definition verify :: "string \<Rightarrow> string \<Rightarrow> claims option" where
  "verify key token =
     (case split_once (CHR ''.'') token of
        None \<Rightarrow> None
      | Some (payload, sig) \<Rightarrow>
          if \<not> csrf_verify sig (b64url_encode (hmac_sha256 key payload)) then None
          else Option.bind (b64url_decode payload) decode_claims)"

section \<open>base64url inverts\<close>

lemma alphabet_ranges: "ALPHABET = map char_of ([65..<91] @ [97..<123] @ [48..<58] @ [45, 95 :: nat])"
  by code_simp

lemma alphabet_nth:
  "v < 64 \<Longrightarrow> ord (ALPHABET ! v) =
     (if v < 26 then 65 + v else if v < 52 then 97 + (v - 26) else if v < 62 then 48 + (v - 52) else if v = 62 then 45 else 95)"
  by (auto simp: alphabet_ranges nth_append nth_Cons split: nat.splits)

lemma alphabet_values: "v < 64 \<Longrightarrow> b64_value (ALPHABET ! v) = Some v \<and> ALPHABET ! v \<noteq> CHR ''='' \<and> ALPHABET ! v \<noteq> CHR ''.''"
proof -
  assume v: "v < 64"
  have eq: "c = CHR ''-'' \<longleftrightarrow> ord c = 45" "c = CHR ''_'' \<longleftrightarrow> ord c = 95" "c = CHR ''='' \<longleftrightarrow> ord c = 61"
    "c = CHR ''.'' \<longleftrightarrow> ord c = 46" for c
    using ord_eq_iff [of c "CHR ''-''"] ord_eq_iff [of c "CHR ''_''"] ord_eq_iff [of c "CHR ''=''"] ord_eq_iff [of c "CHR ''.''"]
    by simp_all
  show ?thesis using v by (auto simp: b64_value_def eq alphabet_nth)
qed

lemma and_63: "(n :: nat) AND 63 = n mod 64"
proof -
  have m: "(63 :: nat) = mask 6" by (simp add: mask_eq_exp_minus_1)
  show ?thesis unfolding m take_bit_eq_mask [symmetric] by (simp add: take_bit_eq_mod)
qed

lemma sextets:
  fixes q0 r0 q1 r1 q2 r2 :: nat
  assumes "q0 < 64" "r0 < 4" "q1 < 16" "r1 < 16" "q2 < 4" "r2 < 64"
  defines "n \<equiv> (4 * q0 + r0) * 65536 + (16 * q1 + r1) * 256 + (64 * q2 + r2)"
  shows "n div 262144 mod 64 = q0" "n div 4096 mod 64 = r0 * 16 + q1" "n div 64 mod 64 = r1 * 4 + q2" "n mod 64 = r2"
proof -
  have "n div 262144 = q0" using assms(1-6) unfolding n_def by (intro div_nat_eqI) simp_all
  then show "n div 262144 mod 64 = q0" using assms(1) by simp
  have "n div 4096 = 64 * q0 + (r0 * 16 + q1)" using assms(1-6) unfolding n_def by (intro div_nat_eqI) simp_all
  then show "n div 4096 mod 64 = r0 * 16 + q1" using assms(2,3) by simp
  have "n div 64 = 64 * (64 * q0 + 16 * r0 + q1) + (r1 * 4 + q2)"
    using assms(1-6) unfolding n_def by (intro div_nat_eqI) simp_all
  then show "n div 64 mod 64 = r1 * 4 + q2" using assms(4,5) by (simp only: mod_mult_self4) simp
  have "n = 64 * (4096 * q0 + 1024 * r0 + 64 * q1 + 4 * r1 + q2) + r2" unfolding n_def by simp
  then show "n mod 64 = r2" using assms(6) by (simp only: mod_mult_self4) simp
qed

lemma encode_chunk_values:
  fixes c :: string
  defines "b0 \<equiv> get_or_0 c 0" and "b1 \<equiv> get_or_0 c 1" and "b2 \<equiv> get_or_0 c 2"
  shows "encode_chunk c = [ALPHABET ! (b0 div 4), ALPHABET ! (b0 mod 4 * 16 + b1 div 16)] @
    (if length c > 1 then [ALPHABET ! (b1 mod 16 * 4 + b2 div 64)] else []) @
    (if length c > 2 then [ALPHABET ! (b2 mod 64)] else [])"
proof -
  have b: "b0 < 256" "b1 < 256" "b2 < 256" by (auto simp: b0_def b1_def b2_def get_or_0_def)
  have "push_bit 16 b0 OR push_bit 8 b1 = b0 * 65536 + b1 * 256"
    using push_or_add [of "push_bit 8 b1" 16 b0] b by (simp add: push_bit_eq_mult)
  then have "push_bit 16 b0 OR push_bit 8 b1 = push_bit 8 (b0 * 256 + b1)"
    by (simp add: push_bit_eq_mult)
  then have n: "(push_bit 16 b0 OR push_bit 8 b1) OR b2 = b0 * 65536 + b1 * 256 + b2"
    using push_or_add [of b2 8 "b0 * 256 + b1"] b by simp
  have s: "(b0 * 65536 + b1 * 256 + b2) div 262144 mod 64 = b0 div 4"
    "(b0 * 65536 + b1 * 256 + b2) div 4096 mod 64 = b0 mod 4 * 16 + b1 div 16"
    "(b0 * 65536 + b1 * 256 + b2) div 64 mod 64 = b1 mod 16 * 4 + b2 div 64"
    "(b0 * 65536 + b1 * 256 + b2) mod 64 = b2 mod 64"
    using sextets [of "b0 div 4" "b0 mod 4" "b1 div 16" "b1 mod 16" "b2 div 64" "b2 mod 64"] b by simp_all
  show ?thesis
    unfolding encode_chunk_def b0_def [symmetric] b1_def [symmetric] b2_def [symmetric] n
    by (simp add: Let_def and_63 drop_bit_eq_div s)
qed

text \<open>One sextet shifted into the accumulator; only its low 24 bits matter.\<close>

lemma shl6_mod: "(acc :: nat) * 64 mod 2 ^ 32 = 64 * (acc mod 2 ^ 26)"
  using mod_mult_mult2 [of acc 64 "2 ^ 26"] by simp

lemma shift_in: "v < 64 \<Longrightarrow> (push_bit 6 acc mod 2 ^ 32) OR v = (acc * 64) mod 2 ^ 32 + (v :: nat)"
proof -
  assume v: "v < 64"
  have "push_bit 6 acc mod 2 ^ 32 = push_bit 6 (acc mod 2 ^ 26)"
    using shl6_mod [of acc] by (simp add: push_bit_eq_mult mult.commute)
  with push_or_add [of v 6 "acc mod 2 ^ 26"] v shl6_mod [of acc] show ?thesis by simp
qed

definition shifted :: "nat \<Rightarrow> nat \<Rightarrow> nat" where
  "shifted acc v = (acc * 64) mod 2 ^ 32 + v"

lemma shifted_low:
  assumes "v < 64" "m dvd 2 ^ 26"
  shows "shifted acc v mod (64 * m) = 64 * (acc mod m) + v"
proof -
  have "shifted acc v = 64 * (acc mod 2 ^ 26) + v" using shl6_mod [of acc] by (simp add: shifted_def)
  then have "shifted acc v div 64 = acc mod 2 ^ 26" "shifted acc v mod 64 = v" using assms(1) by simp_all
  then show ?thesis using mod_mod_cancel [OF assms(2), of acc] by (simp add: mod_mult2_eq)
qed

lemma shifted_mod: "v < 64 \<Longrightarrow> k dvd 64 \<Longrightarrow> shifted acc v mod k = v mod k"
  using shifted_low [of v 1 acc] mod_mod_cancel [of k 64 "shifted acc v"] by simp

lemma div_mod_swap: "(a :: nat) div b mod c = a mod (b * c) div b"
  by (cases "b = 0") (simp_all add: mod_mult2_eq)

lemma decode_step:
  assumes "v < 64"
  shows "decode_loop acc bits out (ALPHABET ! v # cs) =
    (if 2 \<le> bits
     then decode_loop (shifted acc v) (bits - 2) (out @ [char_of (shifted acc v div 2 ^ (bits - 2) mod 256)]) cs
     else decode_loop (shifted acc v) (bits + 6) out cs)"
proof -
  have "(push_bit 6 acc mod 2 ^ 32) OR v = shifted acc v" using shift_in [OF assms] by (simp add: shifted_def)
  with alphabet_values [OF assms] show ?thesis by (auto simp: Let_def drop_bit_eq_div)
qed

lemma decode_sextets:
  fixes b0 b1 b2 acc :: nat
  assumes "b0 < 256" "b1 < 256" "b2 < 256"
  defines "v1 \<equiv> b0 div 4" and "v2 \<equiv> b0 mod 4 * 16 + b1 div 16" and "v3 \<equiv> b1 mod 16 * 4 + b2 div 64" and "v4 \<equiv> b2 mod 64"
  defines "a2 \<equiv> shifted (shifted acc v1) v2"
  defines "a3 \<equiv> shifted a2 v3"
  shows "v1 < 64" "v2 < 64" "v3 < 64" "v4 < 64" "a2 div 16 mod 256 = b0" "a3 div 4 mod 256 = b1" "shifted a3 v4 mod 256 = b2"
proof -
  show v: "v1 < 64" "v2 < 64" "v3 < 64" "v4 < 64"
    using assms(1-3) less_mult_imp_div_less [of b1 16 16] less_mult_imp_div_less [of b2 4 64]
      mod_less_divisor [of 4 b0] mod_less_divisor [of 16 b1] unfolding v1_def v2_def v3_def v4_def
    by (simp_all add: less_mult_imp_div_less)
  have "a2 mod 4096 = 64 * v1 + v2"
    using shifted_low [OF v(2), of 64 "shifted acc v1"] shifted_mod [OF v(1), of 64 acc] v(1) by (simp add: a2_def)
  then have "a2 div 16 mod 256 = (64 * v1 + v2) div 16" by (simp add: div_mod_swap)
  also have "64 * v1 + v2 = 16 * b0 + b1 div 16"
    using mult_div_mod_eq [of 4 b0] unfolding v1_def v2_def by linarith
  also have "(16 * b0 + b1 div 16) div 16 = b0" using assms(2) by (simp add: less_mult_imp_div_less)
  finally show "a2 div 16 mod 256 = b0" .
  have d: "b1 div 16 < 16" "b2 div 64 < 4" using assms by (simp_all add: less_mult_imp_div_less)
  have "a2 mod 16 = b1 div 16"
    using shifted_mod [OF v(2), of 16 "shifted acc v1"] d by (simp add: a2_def v2_def)
  then have "a3 mod 1024 = 64 * (b1 div 16) + v3"
    using shifted_low [OF v(3), of 16 a2] by (simp add: a3_def)
  then have "a3 div 4 mod 256 = (64 * (b1 div 16) + v3) div 4" by (simp add: div_mod_swap)
  also have "64 * (b1 div 16) + v3 = 4 * b1 + b2 div 64"
    using mult_div_mod_eq [of 16 b1] unfolding v3_def by linarith
  also have "(4 * b1 + b2 div 64) div 4 = b1" using d by simp
  finally show "a3 div 4 mod 256 = b1" .
  have "a3 mod 4 = b2 div 64"
    using shifted_mod [OF v(3), of 4 a2] d by (simp add: a3_def v3_def)
  then show "shifted a3 v4 mod 256 = b2"
    using shifted_low [OF v(4), of 4 a3] by (simp add: v4_def)
qed

lemma decode_steps:
  fixes acc v1 v2 v3 v4 :: nat
  assumes "v1 < 64" "v2 < 64" "v3 < 64" "v4 < 64"
  defines "a2 \<equiv> shifted (shifted acc v1) v2"
  shows "decode_loop acc 0 out (ALPHABET ! v1 # ALPHABET ! v2 # cs) = decode_loop a2 4 (out @ [char_of (a2 div 16 mod 256)]) cs"
    "decode_loop a2 4 out (ALPHABET ! v3 # cs) = decode_loop (shifted a2 v3) 2 (out @ [char_of (shifted a2 v3 div 4 mod 256)]) cs"
    "decode_loop (shifted a2 v3) 2 out (ALPHABET ! v4 # cs) =
       decode_loop (shifted (shifted a2 v3) v4) 0 (out @ [char_of (shifted (shifted a2 v3) v4 mod 256)]) cs"
  by (simp_all add: decode_step assms(1-4) a2_def del: decode_loop.simps(2))

lemma decode_chunk:
  fixes x y z :: char and acc :: nat
  defines "v1 \<equiv> ord x div 4" and "v2 \<equiv> ord x mod 4 * 16 + ord y div 16"
    and "v3 \<equiv> ord y mod 16 * 4 + ord z div 64" and "v4 \<equiv> ord z mod 64"
  defines "a2 \<equiv> shifted (shifted acc v1) v2"
  shows "decode_loop acc 0 out (ALPHABET ! v1 # ALPHABET ! v2 # cs) = decode_loop a2 4 (out @ [x]) cs"
    "decode_loop a2 4 out (ALPHABET ! v3 # cs) = decode_loop (shifted a2 v3) 2 (out @ [y]) cs"
    "decode_loop (shifted a2 v3) 2 out (ALPHABET ! v4 # cs) = decode_loop (shifted (shifted a2 v3) v4) 0 (out @ [z]) cs"
proof -
  have b: "ord c < 256" for c :: char by simp
  note v = decode_sextets(1-4) [where ?b0.0 = "ord x" and ?b1.0 = "ord y" and ?b2.0 = "ord z", OF b b b,
      folded v1_def v2_def v3_def v4_def]
  note e = decode_sextets(5-7) [where ?b0.0 = "ord x" and ?b1.0 = "ord y" and ?b2.0 = "ord z" and acc = acc, OF b b b,
      folded v1_def v2_def v3_def v4_def, folded a2_def]
  note d = decode_steps [OF v, where acc = acc, folded a2_def, unfolded e char_of_char]
  show "decode_loop acc 0 out (ALPHABET ! v1 # ALPHABET ! v2 # cs) = decode_loop a2 4 (out @ [x]) cs"
    using d(1) [of out cs] by (simp only:)
  show "decode_loop a2 4 out (ALPHABET ! v3 # cs) = decode_loop (shifted a2 v3) 2 (out @ [y]) cs"
    using d(2) [of out cs] by (simp only:)
  show "decode_loop (shifted a2 v3) 2 out (ALPHABET ! v4 # cs) = decode_loop (shifted (shifted a2 v3) v4) 0 (out @ [z]) cs"
    using d(3) [of out cs] by (simp only:)
qed

lemma encode_chunk_lists:
  "encode_chunk [x, y, z] = [ALPHABET ! (ord x div 4), ALPHABET ! (ord x mod 4 * 16 + ord y div 16),
     ALPHABET ! (ord y mod 16 * 4 + ord z div 64), ALPHABET ! (ord z mod 64)]"
  "encode_chunk [x, y] = [ALPHABET ! (ord x div 4), ALPHABET ! (ord x mod 4 * 16 + ord y div 16),
     ALPHABET ! (ord y mod 16 * 4 + ord CHR 0x00 div 64)]"
  "encode_chunk [x] = [ALPHABET ! (ord x div 4), ALPHABET ! (ord x mod 4 * 16 + ord CHR 0x00 div 16)]"
  by (simp_all add: encode_chunk_values get_or_0_def)

lemma decode_full_chunk: "\<exists>acc'. decode_loop acc 0 out (encode_chunk [x, y, z] @ cs) = decode_loop acc' 0 (out @ [x, y, z]) cs"
  unfolding encode_chunk_lists append_Cons append_Nil decode_chunk by auto

lemma decode_two: "decode_loop acc 0 out (encode_chunk [x, y]) = Some (out @ [x, y])"
  unfolding encode_chunk_lists decode_chunk by simp

lemma decode_one: "decode_loop acc 0 out (encode_chunk [x]) = Some (out @ [x])"
  unfolding encode_chunk_lists decode_chunk by simp

lemma chunks_Cons: "chunks 3 (x # y # z # s) = [x, y, z] # chunks 3 s" "chunks 3 [x, y] = [[x, y]]"
  "chunks 3 [x] = [[x]]" "chunks 3 [] = []"
  using chunks.simps [of 3 "x # y # z # s"] chunks.simps [of 3 "[x, y]"] chunks.simps [of 3 "[x]"] chunks.simps [of 3 "[]"]
  by simp_all

fun by_threes :: "string \<Rightarrow> bool" where
  "by_threes (x # y # z # s) = by_threes s"
| "by_threes _ = True"

lemma decode_encode: "decode_loop acc 0 out (b64url_encode s) = Some (out @ s)"
proof (induction s arbitrary: acc out rule: by_threes.induct)
  case (1 x y z s)
  obtain acc' where "decode_loop acc 0 out (encode_chunk [x, y, z] @ b64url_encode s) =
      decode_loop acc' 0 (out @ [x, y, z]) (b64url_encode s)" using decode_full_chunk by blast
  with "1.IH" show ?case by (simp add: b64url_encode_def chunks_Cons)
qed (simp_all add: b64url_encode_def chunks_Cons decode_one decode_two)

lemma b64url_roundtrip: "b64url_decode (b64url_encode s) = Some s"
  by (simp add: b64url_decode_def decode_encode)

lemma encode_chunk_no_dot: "CHR ''.'' \<notin> set (encode_chunk c)"
proof -
  have b: "get_or_0 c i < 256" for i by (simp add: get_or_0_def)
  note v = decode_sextets(1-4) [where ?b0.0 = "get_or_0 c 0" and ?b1.0 = "get_or_0 c 1" and ?b2.0 = "get_or_0 c 2", OF b b b]
  note ne = v [THEN alphabet_values, THEN conjunct2, THEN conjunct2]
  have "CHR ''.'' \<notin> set ([ALPHABET ! (get_or_0 c 0 div 4), ALPHABET ! (get_or_0 c 0 mod 4 * 16 + get_or_0 c 1 div 16)] @
    [ALPHABET ! (get_or_0 c 1 mod 16 * 4 + get_or_0 c 2 div 64)] @ [ALPHABET ! (get_or_0 c 2 mod 64)])"
    using ne [symmetric] by simp
  then show ?thesis by (auto simp: encode_chunk_values)
qed

lemma b64url_no_dot: "CHR ''.'' \<notin> set (b64url_encode s)"
  using encode_chunk_no_dot by (auto simp: b64url_encode_def)

section \<open>Claims invert\<close>

definition claims_ok :: "claims \<Rightarrow> bool" where
  "claims_ok c \<longleftrightarrow>
     list_all (\<lambda>s. utf8_valid s \<and> SEP \<notin> set s) (sid c # user c # roles c) \<and>
     list_all (\<lambda>r. CHR '','' \<notin> set r) (roles c) \<and> roles c \<noteq> [[]] \<and> version c \<le> u64_max \<and> exp c \<le> u64_max"

lemma utf8_valid_commas: "list_all utf8_valid ps \<Longrightarrow> utf8_valid (join '','' ps)"
  by (induction "'',''" ps rule: join.induct) (simp_all add: utf8_valid_append utf8_valid_ascii)

lemma set_join: "set (join s ps) \<subseteq> set s \<union> (\<Union>p\<in>set ps. set p)"
  by (induction s ps rule: join.induct) auto

lemma split_join_roles:
  assumes "list_all (\<lambda>r. CHR '','' \<notin> set r) rs" "rs \<noteq> [[]]"
  shows "(if join '','' rs = [] then [] else split_on (CHR '','') (join '','' rs)) = rs"
proof (cases rs rule: remdups_adj.cases)
  case (3 x y zs)
  then have "join '','' rs \<noteq> []" by simp
  moreover have "split_on (CHR '','') (join '','' rs) = rs"
    using assms(1) 3 by (intro split_on_join) (auto simp: list_all_iff)
  ultimately show ?thesis by simp
qed (use assms in \<open>auto simp: split_on_absent\<close>)

lemma show_nat_valid: "utf8_valid (show_nat n)" "SEP \<notin> set (show_nat n)"
proof -
  have "is_ascii (show_nat n)" using show_nat_digits by (fastforce simp: is_ascii_def list_all_iff)
  then show "utf8_valid (show_nat n)" by (rule is_ascii_utf8_valid)
  show "SEP \<notin> set (show_nat n)" by (rule show_nat_absent) (simp add: SEP_def)
qed

lemma claims_fields:
  assumes "claims_ok c"
  shows "split_on SEP (encode_claims c) = [sid c, user c, join '','' (roles c), show_nat (version c), show_nat (exp c)]"
    and "utf8_valid (encode_claims c)"
proof -
  have ns: "SEP \<notin> set (sid c)" "SEP \<notin> set (user c)" "\<And>r. r \<in> set (roles c) \<Longrightarrow> SEP \<notin> set r"
    and v: "utf8_valid (sid c)" "utf8_valid (user c)" "list_all utf8_valid (roles c)"
    using assms by (auto simp: claims_ok_def list_all_iff)
  have "SEP \<noteq> CHR '',''" by (simp add: SEP_def)
  then have j: "SEP \<notin> set (join '','' (roles c))" using set_join [of "'',''" "roles c"] ns(3) by auto
  show "split_on SEP (encode_claims c) = [sid c, user c, join '','' (roles c), show_nat (version c), show_nat (exp c)]"
    using ns j show_nat_valid by (simp add: encode_claims_def split_on_append split_on_absent)
  have "utf8_valid (SEP # s) = utf8_valid s" for s by (rule utf8_valid_ascii) (simp add: SEP_def)
  then show "utf8_valid (encode_claims c)"
    using v show_nat_valid by (simp add: encode_claims_def utf8_valid_append utf8_valid_commas)
qed

lemma claims_roundtrip: "claims_ok c \<Longrightarrow> decode_claims (encode_claims c) = Some c"
proof -
  assume ok: "claims_ok c"
  then have "(if join '','' (roles c) = [] then [] else split_on (CHR '','') (join '','' (roles c))) = roles c"
    by (intro split_join_roles) (auto simp: claims_ok_def)
  moreover have "version c \<le> u64_max" "exp c \<le> u64_max" using ok by (auto simp: claims_ok_def)
  ultimately show ?thesis using claims_fields [OF ok] by (simp add: decode_claims_def)
qed

lemma verify_sign: "verify key (sign key c) = decode_claims (encode_claims c)"
proof -
  have "split_once (CHR ''.'') (sign key c) =
      Some (b64url_encode (encode_claims c), b64url_encode (hmac_sha256 key (b64url_encode (encode_claims c))))"
    using b64url_no_dot by (simp add: sign_def Let_def)
  then show ?thesis by (simp add: verify_def csrf_verify_eq b64url_roundtrip)
qed

lemma verify_Some:
  "verify key token = Some c \<longleftrightarrow>
     (\<exists>payload. CHR ''.'' \<notin> set payload \<and> token = payload @ ''.'' @ b64url_encode (hmac_sha256 key payload) \<and>
        Option.bind (b64url_decode payload) decode_claims = Some c)"
proof
  assume "verify key token = Some c"
  then show "\<exists>payload. CHR ''.'' \<notin> set payload \<and> token = payload @ ''.'' @ b64url_encode (hmac_sha256 key payload) \<and>
        Option.bind (b64url_decode payload) decode_claims = Some c"
    by (auto simp: verify_def csrf_verify_eq split_once_Some split: option.splits if_splits)
next
  assume "\<exists>payload. CHR ''.'' \<notin> set payload \<and> token = payload @ ''.'' @ b64url_encode (hmac_sha256 key payload) \<and>
        Option.bind (b64url_decode payload) decode_claims = Some c"
  then show "verify key token = Some c" by (auto simp: verify_def csrf_verify_eq)
qed

section \<open>Properties\<close>

text \<open>
  Tokens are complete and sound. Verifying a signed token under the same key returns the
  claims that were signed, for claims whose texts avoid the separators; and any token that
  verifies consists of a payload that decodes to the claims and, after the first dot, exactly the
  base64url of the HMAC of that payload under the key, so accepting a token with other contents
  requires a matching MAC.
\<close>

theorem token_sign_verify:
  assumes "claims_ok c"
  shows "verify key (sign key c) = Some c \<and>
    (verify key token = Some c' \<longrightarrow>
       (\<exists>payload. CHR ''.'' \<notin> set payload \<and> token = payload @ ''.'' @ b64url_encode (hmac_sha256 key payload) \<and>
          Option.bind (b64url_decode payload) decode_claims = Some c'))"
  using verify_sign [of key c] claims_roundtrip [OF assms] verify_Some [of key token c'] by simp

definition sample_claims :: claims where
  "sample_claims = \<lparr>sid = ''s1'', user = ''alice'', roles = [''ADMIN'', ''USER''], version = 3, exp = 4600\<rparr>"

theorem token_sign_verify_witness:
  "verify ''k'' (sign ''k'' sample_claims) = Some sample_claims"
proof -
  have "claims_ok sample_claims" by code_simp
  from token_sign_verify [OF this] show ?thesis by blast
qed

text \<open>
  Role names are not protected against the role separator. A user logged in with the single
  role \<open>user,ADMIN\<close> is returned with the two roles \<open>user\<close> and \<open>ADMIN\<close>, and a single empty role
  is returned as no role, although the token is documented to carry the roles of the login.
\<close>

theorem token_roles_resplit:
  "map_option roles (verify key (sign key (sample_claims\<lparr>roles := [''user,ADMIN'']\<rparr>))) = Some [''user'', ''ADMIN''] \<and>
   map_option roles (verify key (sign key (sample_claims\<lparr>roles := [[]]\<rparr>))) = Some []"
proof -
  have "map_option roles (decode_claims (encode_claims (sample_claims\<lparr>roles := [''user,ADMIN'']\<rparr>))) = Some [''user'', ''ADMIN'']"
    "map_option roles (decode_claims (encode_claims (sample_claims\<lparr>roles := [[]]\<rparr>))) = Some []"
    by code_simp+
  then show ?thesis by (simp add: verify_sign)
qed

end
