(* ===== verification/Session.thy ===== *)
theory Session
  imports Session_Token Hash_Map
begin

text \<open>
  \<open>kernway-security/src/session.rs\<close>: the session registry interface with its in-memory store,
  and the session manager that signs a token at login and decides on every request whether the
  token still stands for a user. A store is a record of operations on a store state, each with
  the \<open>Result\<close> of the trait; the laws a store promises are the locale \<open>session_registry\<close>, in
  which the manager's theorems are proved, and which the in-memory store satisfies. The clock
  is the explicit argument \<open>at\<close>, as in the code's own \<open>_at\<close> functions; the random bytes of a
  session id are an argument of the login.
\<close>

section \<open>Cookies\<close>

definition SESSION_COOKIE :: string where "SESSION_COOKIE = ''kw_session''"

definition session_set_cookie :: "string \<Rightarrow> bool \<Rightarrow> string" where
  "session_set_cookie token secure =
     SESSION_COOKIE @ ''='' @ token @ ''; Path=/; HttpOnly; SameSite=Lax'' @ (if secure then ''; Secure'' else [])"

definition clear_cookie :: string where
  "clear_cookie = SESSION_COOKIE @ ''=; Path=/; HttpOnly; SameSite=Lax; Max-Age=0''"

definition session_token_from_cookie :: "string \<Rightarrow> string option" where
  "session_token_from_cookie cookie_header = cookie_token SESSION_COOKIE cookie_header"

section \<open>The registry\<close>

record session_record =
  sr_user :: string
  sr_created :: nat
  sr_last_seen :: nat
  sr_meta :: string

datatype store_error = Backend string

record 's session_ops =
  op_insert :: "'s \<Rightarrow> string \<Rightarrow> session_record \<Rightarrow> (store_error + unit) \<times> 's"
  op_get :: "'s \<Rightarrow> string \<Rightarrow> (store_error + session_record option) \<times> 's"
  op_touch :: "'s \<Rightarrow> string \<Rightarrow> nat \<Rightarrow> (store_error + unit) \<times> 's"
  op_remove :: "'s \<Rightarrow> string \<Rightarrow> (store_error + unit) \<times> 's"
  op_remove_user :: "'s \<Rightarrow> string \<Rightarrow> (store_error + unit) \<times> 's"
  op_sessions_of :: "'s \<Rightarrow> string \<Rightarrow> (store_error + (string \<times> session_record) list) \<times> 's"
  op_len :: "'s \<Rightarrow> (store_error + nat) \<times> 's"

type_synonym memory_store = "(string, session_record) hmap"

definition mem_insert :: "memory_store \<Rightarrow> string \<Rightarrow> session_record \<Rightarrow> (store_error + unit) \<times> memory_store" where
  "mem_insert s k r = (Inr (), hm_insert s k r)"

definition mem_get :: "memory_store \<Rightarrow> string \<Rightarrow> (store_error + session_record option) \<times> memory_store" where
  "mem_get s k = (Inr (hm_get s k), s)"

definition mem_touch :: "memory_store \<Rightarrow> string \<Rightarrow> nat \<Rightarrow> (store_error + unit) \<times> memory_store" where
  "mem_touch s k at =
     (Inr (), case hm_get s k of None \<Rightarrow> s | Some r \<Rightarrow> hm_insert s k (r\<lparr>sr_last_seen := at\<rparr>))"

definition mem_remove :: "memory_store \<Rightarrow> string \<Rightarrow> (store_error + unit) \<times> memory_store" where
  "mem_remove s k = (Inr (), hm_remove s k)"

definition mem_remove_user :: "memory_store \<Rightarrow> string \<Rightarrow> (store_error + unit) \<times> memory_store" where
  "mem_remove_user s u = (Inr (), hm_retain (\<lambda>k r. sr_user r \<noteq> u) s)"

definition mem_sessions_of ::
  "memory_store \<Rightarrow> string \<Rightarrow> (store_error + (string \<times> session_record) list) \<times> memory_store" where
  "mem_sessions_of s u = (Inr (filter (\<lambda>(k, r). sr_user r = u) s), s)"

definition mem_len :: "memory_store \<Rightarrow> (store_error + nat) \<times> memory_store" where
  "mem_len s = (Inr (hm_len s), s)"

definition mem_snapshot :: "memory_store \<Rightarrow> (string \<times> session_record) list" where
  "mem_snapshot s = s"

definition memory_ops :: "memory_store session_ops" where
  "memory_ops = \<lparr>op_insert = mem_insert, op_get = mem_get, op_touch = mem_touch, op_remove = mem_remove,
     op_remove_user = mem_remove_user, op_sessions_of = mem_sessions_of, op_len = mem_len\<rparr>"

section \<open>The manager\<close>

text \<open>A \<open>Duration\<close> in nanoseconds, with its \<open>from_secs\<close> and \<open>as_secs\<close>.\<close>

type_synonym duration = nat

definition from_secs :: "nat \<Rightarrow> duration" where "from_secs n = n * 1000000000"
definition as_secs :: "duration \<Rightarrow> nat" where "as_secs d = d div 1000000000"

record session_config =
  token_ttl :: duration
  absolute_timeout :: duration
  idle_timeout :: "duration option"
  max_sessions :: "nat option"

definition default_config :: session_config where
  "default_config = \<lparr>token_ttl = from_secs (60 * 60), absolute_timeout = from_secs (24 * 60 * 60),
     idle_timeout = None, max_sessions = None\<rparr>"

record account =
  acc_active :: bool
  acc_expires :: "nat option"
  acc_version :: nat

datatype login_error = AtCapacity | Store store_error

record 's session_manager =
  sm_ops :: "'s session_ops"
  sm_store :: 's
  sm_key :: string
  sm_config :: session_config
  sm_accounts :: "(string \<Rightarrow> account option) option"

definition manager_new :: "'s session_ops \<Rightarrow> 's \<Rightarrow> string \<Rightarrow> session_config \<Rightarrow> 's session_manager" where
  "manager_new ops s k cfg =
     \<lparr>sm_ops = ops, sm_store = s, sm_key = k, sm_config = cfg, sm_accounts = None\<rparr>"

definition with_accounts :: "'s session_manager \<Rightarrow> (string \<Rightarrow> account option) \<Rightarrow> 's session_manager" where
  "with_accounts m a = m\<lparr>sm_accounts := Some a\<rparr>"

definition reconfigure :: "'s session_manager \<Rightarrow> (session_config \<Rightarrow> session_config) \<Rightarrow> 's session_manager" where
  "reconfigure m f = m\<lparr>sm_config := f (sm_config m)\<rparr>"

text \<open>The capacity check: \<open>None\<close> lets the login go on.\<close>

definition capacity_check :: "'s session_manager \<Rightarrow> login_error option \<times> 's session_manager" where
  "capacity_check m =
     (case max_sessions (sm_config m) of
        None \<Rightarrow> (None, m)
      | Some mx \<Rightarrow>
          (case op_len (sm_ops m) (sm_store m) of
             (Inl e, s) \<Rightarrow> (Some (Store e), m\<lparr>sm_store := s\<rparr>)
           | (Inr n, s) \<Rightarrow> (if n \<ge> mx then Some AtCapacity else None, m\<lparr>sm_store := s\<rparr>)))"

definition login_version :: "'s session_manager \<Rightarrow> string \<Rightarrow> nat" where
  "login_version m u =
     (case Option.bind (sm_accounts m) (\<lambda>a. a u) of None \<Rightarrow> 0 | Some acc \<Rightarrow> acc_version acc)"

definition login_at ::
  "'s session_manager \<Rightarrow> string \<Rightarrow> string \<Rightarrow> string list \<Rightarrow> string \<Rightarrow> nat \<Rightarrow>
     (login_error + string) \<times> 's session_manager" where
  "login_at m rng u rs meta at =
     (case capacity_check m of
        (Some e, m') \<Rightarrow> (Inl e, m')
      | (None, m') \<Rightarrow>
          let k = csrf_generate rng; v = login_version m' u
          in case op_insert (sm_ops m') (sm_store m') k
                    \<lparr>sr_user = u, sr_created = at, sr_last_seen = at, sr_meta = meta\<rparr> of
               (Inl e, s) \<Rightarrow> (Inl (Store e), m'\<lparr>sm_store := s\<rparr>)
             | (Inr _, s) \<Rightarrow>
                 (Inr (sign (sm_key m) \<lparr>sid = k, user = u, roles = rs, version = v,
                    exp = wrapping_add64 at (as_secs (token_ttl (sm_config m)))\<rparr>),
                  m'\<lparr>sm_store := s\<rparr>))"

definition evict :: "'s session_manager \<Rightarrow> string \<Rightarrow> security_context \<times> 's session_manager" where
  "evict m k = (anonymous, m\<lparr>sm_store := snd (op_remove (sm_ops m) (sm_store m) k)\<rparr>)"

definition account_invalid :: "account \<Rightarrow> claims \<Rightarrow> nat \<Rightarrow> bool" where
  "account_invalid acc c at \<longleftrightarrow>
     \<not> acc_active acc \<or> (case acc_expires acc of None \<Rightarrow> False | Some e \<Rightarrow> e < at) \<or>
     acc_version acc \<noteq> version c"

definition admit :: "'s session_manager \<Rightarrow> claims \<Rightarrow> session_record \<Rightarrow> nat \<Rightarrow> security_context \<times> 's session_manager" where
  "admit m c r at =
     (authenticated (user c) (roles c),
      if at > wrapping_add64 (sr_last_seen r) 60
      then m\<lparr>sm_store := snd (op_touch (sm_ops m) (sm_store m) (sid c) at)\<rparr> else m)"

definition check_record ::
  "'s session_manager \<Rightarrow> claims \<Rightarrow> session_record \<Rightarrow> nat \<Rightarrow> security_context \<times> 's session_manager" where
  "check_record m c r at =
     (if at > saturating_add64 (sr_created r) (as_secs (absolute_timeout (sm_config m))) then evict m (sid c)
      else if (case idle_timeout (sm_config m) of
                 None \<Rightarrow> False
               | Some idle \<Rightarrow> at > saturating_add64 (sr_last_seen r) (as_secs idle)) then evict m (sid c)
      else
        (case sm_accounts m of
           None \<Rightarrow> admit m c r at
         | Some accounts \<Rightarrow>
             (case accounts (user c) of
                None \<Rightarrow> evict m (sid c)
              | Some acc \<Rightarrow> if account_invalid acc c at then evict m (sid c) else admit m c r at)))"

definition authenticate_at ::
  "'s session_manager \<Rightarrow> string option \<Rightarrow> nat \<Rightarrow> security_context \<times> 's session_manager" where
  "authenticate_at m token at =
     (case token of
        None \<Rightarrow> (anonymous, m)
      | Some t \<Rightarrow>
          (case verify (sm_key m) t of
             None \<Rightarrow> (anonymous, m)
           | Some c \<Rightarrow>
               if exp c < at then (anonymous, m)
               else
                 (case op_get (sm_ops m) (sm_store m) (sid c) of
                    (Inr (Some r), s) \<Rightarrow> check_record (m\<lparr>sm_store := s\<rparr>) c r at
                  | (Inr None, s) \<Rightarrow> (anonymous, m\<lparr>sm_store := s\<rparr>)
                  | (Inl e, s) \<Rightarrow> (anonymous, m\<lparr>sm_store := s\<rparr>))))"

definition store_call :: "'s session_manager \<Rightarrow> (store_error + unit) \<times> 's \<Rightarrow> (store_error + unit) \<times> 's session_manager" where
  "store_call m p = (fst p, m\<lparr>sm_store := snd p\<rparr>)"

definition logout :: "'s session_manager \<Rightarrow> string \<Rightarrow> (store_error + unit) \<times> 's session_manager" where
  "logout m k = store_call m (op_remove (sm_ops m) (sm_store m) k)"

definition logout_token :: "'s session_manager \<Rightarrow> string \<Rightarrow> (store_error + unit) \<times> 's session_manager" where
  "logout_token m token =
     (case verify (sm_key m) token of
        Some c \<Rightarrow> store_call m (op_remove (sm_ops m) (sm_store m) (sid c))
      | None \<Rightarrow> (Inr (), m))"

definition logout_user :: "'s session_manager \<Rightarrow> string \<Rightarrow> (store_error + unit) \<times> 's session_manager" where
  "logout_user m u = store_call m (op_remove_user (sm_ops m) (sm_store m) u)"

definition sessions_of ::
  "'s session_manager \<Rightarrow> string \<Rightarrow> (store_error + (string \<times> session_record) list) \<times> 's session_manager" where
  "sessions_of m u =
     (let p = op_sessions_of (sm_ops m) (sm_store m) u in (fst p, m\<lparr>sm_store := snd p\<rparr>))"

text \<open>The calls an application makes, in any order; the account store may change between them.\<close>

datatype session_event =
    Login string string "string list" string nat
  | Authenticate "string option" nat
  | Logout string
  | Logout_token string
  | Logout_user string
  | Reconfigure "session_config \<Rightarrow> session_config"
  | Accounts "string \<Rightarrow> account option"

fun session_step :: "'s session_manager \<Rightarrow> session_event \<Rightarrow> 's session_manager" where
  "session_step m (Login rng u rs meta at) = snd (login_at m rng u rs meta at)"
| "session_step m (Authenticate token at) = snd (authenticate_at m token at)"
| "session_step m (Logout k) = snd (logout m k)"
| "session_step m (Logout_token token) = snd (logout_token m token)"
| "session_step m (Logout_user u) = snd (logout_user m u)"
| "session_step m (Reconfigure f) = reconfigure m f"
| "session_step m (Accounts a) = with_accounts m a"

definition session_run :: "'s session_manager \<Rightarrow> session_event list \<Rightarrow> 's session_manager" where
  "session_run m es = foldl session_step m es"

section \<open>What a registry promises\<close>

text \<open>
  An operation that reports success has had its effect on every session; one that reports an
  error may have had it on some and not on others, as a remote store that lost its answer.
\<close>

definition effect :: "'e + 'a \<Rightarrow> ('k \<rightharpoonup> 'v) \<Rightarrow> ('k \<rightharpoonup> 'v) \<Rightarrow> ('k \<rightharpoonup> 'v) \<Rightarrow> bool" where
  "effect res before after seen \<longleftrightarrow> (\<forall>k. seen k = after k \<or> (isl res \<and> seen k = before k))"

definition touched :: "(string \<rightharpoonup> session_record) \<Rightarrow> string \<Rightarrow> nat \<Rightarrow> (string \<rightharpoonup> session_record)" where
  "touched a k at = a(k := map_option (\<lambda>r. r\<lparr>sr_last_seen := at\<rparr>) (a k))"

definition without_user :: "(string \<rightharpoonup> session_record) \<Rightarrow> string \<Rightarrow> (string \<rightharpoonup> session_record)" where
  "without_user a u = (\<lambda>k. Option.bind (a k) (\<lambda>r. if sr_user r = u then None else Some r))"

text \<open>The conditions the manager puts on a registered session.\<close>

definition session_valid :: "'s session_manager \<Rightarrow> claims \<Rightarrow> session_record \<Rightarrow> nat \<Rightarrow> bool" where
  "session_valid m c r at \<longleftrightarrow>
     at \<le> saturating_add64 (sr_created r) (as_secs (absolute_timeout (sm_config m))) \<and>
     (case idle_timeout (sm_config m) of None \<Rightarrow> True | Some i \<Rightarrow> at \<le> saturating_add64 (sr_last_seen r) (as_secs i)) \<and>
     (case sm_accounts m of None \<Rightarrow> True
      | Some a \<Rightarrow> (case a (user c) of None \<Rightarrow> False | Some acc \<Rightarrow> \<not> account_invalid acc c at))"

lemma check_record_valid:
  "check_record m c r at = (if session_valid m c r at then admit m c r at else evict m (sid c))"
  by (auto simp: check_record_def session_valid_def not_less split: option.splits)

lemma session_valid_store [simp]: "session_valid (m\<lparr>sm_store := s\<rparr>) c r at = session_valid m c r at"
  by (simp add: session_valid_def)

lemma anonymous_not_authenticated [simp]: "authenticated u rs \<noteq> anonymous" "anonymous \<noteq> authenticated u rs"
  by (auto simp: authenticated_def anonymous_def)

lemma fst_admit [simp]: "fst (admit m c r at) = authenticated (user c) (roles c)"
  by (simp add: admit_def)

lemma fst_evict [simp]: "fst (evict m k) = anonymous"
  by (simp add: evict_def)

lemma effect_refl [simp]: "effect res a a b \<longleftrightarrow> b = a"
  by (auto simp: effect_def)

lemma effect_at: "effect res a b a' \<Longrightarrow> a' k = b k \<or> a' k = a k"
  by (auto simp: effect_def)

lemma effect_Inr [simp]: "effect (Inr x) a b a' \<longleftrightarrow> a' = b"
  by (auto simp: effect_def)

text \<open>Events by what they may do to a session: issue its id, change the configuration, or end it.\<close>

fun issues :: "string \<Rightarrow> session_event \<Rightarrow> bool" where
  "issues k (Login rng u rs meta at) = (csrf_generate rng = k)"
| "issues k _ = False"

fun reconfigures :: "session_event \<Rightarrow> bool" where
  "reconfigures (Reconfigure f) = True"
| "reconfigures _ = False"

fun spares :: "string \<Rightarrow> claims \<Rightarrow> nat \<Rightarrow> nat \<Rightarrow> session_event \<Rightarrow> bool" where
  "spares k c t0 t1 (Login rng u rs meta at) \<longleftrightarrow> csrf_generate rng \<noteq> sid c"
| "spares k c t0 t1 (Authenticate token at) \<longleftrightarrow> t0 \<le> at \<and> at \<le> t1 \<and>
     (\<forall>t c'. token = Some t \<and> verify k t = Some c' \<and> sid c' = sid c \<longrightarrow> c' = c)"
| "spares k c t0 t1 (Logout j) \<longleftrightarrow> j \<noteq> sid c"
| "spares k c t0 t1 (Logout_token t) \<longleftrightarrow> (\<forall>c'. verify k t = Some c' \<longrightarrow> sid c' \<noteq> sid c)"
| "spares k c t0 t1 (Logout_user u) \<longleftrightarrow> u \<noteq> user c"
| "spares k c t0 t1 (Reconfigure f) \<longleftrightarrow> False"
| "spares k c t0 t1 (Accounts a) \<longleftrightarrow> False"

text \<open>The period in which a session registered at \<open>t0\<close> cannot time out or lose its account.\<close>

definition admissible :: "'s session_manager \<Rightarrow> claims \<Rightarrow> nat \<Rightarrow> nat \<Rightarrow> bool" where
  "admissible m c t0 t1 \<longleftrightarrow>
     t1 \<le> exp c \<and> t1 \<le> saturating_add64 t0 (as_secs (absolute_timeout (sm_config m))) \<and>
     (case idle_timeout (sm_config m) of None \<Rightarrow> True | Some i \<Rightarrow> t1 \<le> saturating_add64 t0 (as_secs i)) \<and>
     (case sm_accounts m of None \<Rightarrow> True
      | Some a \<Rightarrow> (case a (user c) of None \<Rightarrow> False | Some acc \<Rightarrow> \<not> account_invalid acc c t1))"

lemma saturating_add64_mono: "a \<le> b \<Longrightarrow> saturating_add64 a i \<le> saturating_add64 b i"
  by (simp add: saturating_add64_def)

lemma admissible_valid:
  assumes "admissible m c t0 t1" "at \<le> t1" "sr_created r = t0" "t0 \<le> sr_last_seen r"
    "sm_config m' = sm_config m" "sm_accounts m' = sm_accounts m"
  shows "session_valid m' c r at" "at \<le> exp c"
proof -
  show "at \<le> exp c" using assms by (simp add: admissible_def)
  have "at \<le> saturating_add64 (sr_last_seen r) (as_secs i)" if "idle_timeout (sm_config m) = Some i" for i
    using that assms saturating_add64_mono [OF assms(4), of "as_secs i"] by (simp add: admissible_def)
  moreover have "\<not> account_invalid acc c at" if "\<not> account_invalid acc c t1" for acc
    using that assms(2) by (auto simp: account_invalid_def split: option.splits)
  ultimately show "session_valid m' c r at"
    using assms by (auto simp: admissible_def session_valid_def split: option.splits)
qed

locale session_registry =
  fixes ops :: "'s session_ops"
    and sessions :: "'s \<Rightarrow> string \<Rightarrow> session_record option"
    and ok :: "'s \<Rightarrow> bool"
  assumes insert_law: "ok s \<Longrightarrow> op_insert ops s k r = (res, s') \<Longrightarrow>
      ok s' \<and> effect res (sessions s) ((sessions s)(k \<mapsto> r)) (sessions s')"
    and get_law: "ok s \<Longrightarrow> op_get ops s k = (ro, s') \<Longrightarrow>
      ok s' \<and> sessions s' = sessions s \<and> (\<forall>x. ro = Inr x \<longrightarrow> x = sessions s k)"
    and touch_law: "ok s \<Longrightarrow> op_touch ops s k at = (res, s') \<Longrightarrow>
      ok s' \<and> effect res (sessions s) (touched (sessions s) k at) (sessions s')"
    and remove_law: "ok s \<Longrightarrow> op_remove ops s k = (res, s') \<Longrightarrow>
      ok s' \<and> effect res (sessions s) ((sessions s)(k := None)) (sessions s')"
    and remove_user_law: "ok s \<Longrightarrow> op_remove_user ops s u = (res, s') \<Longrightarrow>
      ok s' \<and> effect res (sessions s) (without_user (sessions s) u) (sessions s')"
    and sessions_of_law: "ok s \<Longrightarrow> op_sessions_of ops s u = (rl, s') \<Longrightarrow>
      ok s' \<and> sessions s' = sessions s \<and>
      (\<forall>l. rl = Inr l \<longrightarrow> distinct (map fst l) \<and> set l = {(k, r). sessions s k = Some r \<and> sr_user r = u})"
    and len_law: "ok s \<Longrightarrow> op_len ops s = (rn, s') \<Longrightarrow>
      ok s' \<and> sessions s' = sessions s \<and> (\<forall>n. rn = Inr n \<longrightarrow> n = card (dom (sessions s)))"
    and finite_sessions: "ok s \<Longrightarrow> finite (dom (sessions s))"
begin

definition managed :: "'s session_manager \<Rightarrow> bool" where
  "managed m \<longleftrightarrow> sm_ops m = ops \<and> ok (sm_store m)"

definition live :: "'s session_manager \<Rightarrow> string \<Rightarrow> session_record option" where
  "live m = sessions (sm_store m)"

text \<open>What a call leaves of the manager, with the new registry described per session.\<close>

definition steps_to :: "'s session_manager \<Rightarrow> (string \<Rightarrow> session_record option \<Rightarrow> bool) \<Rightarrow> 's session_manager \<Rightarrow> bool" where
  "steps_to m new m' \<longleftrightarrow>
     managed m' \<and> sm_key m' = sm_key m \<and> sm_config m' = sm_config m \<and> sm_accounts m' = sm_accounts m \<and>
     (\<forall>k. live m' k = live m k \<or> new k (live m' k))"

lemma steps_to_same: "managed m \<Longrightarrow> ok s \<Longrightarrow> sessions s = live m \<Longrightarrow> steps_to m new (m\<lparr>sm_store := s\<rparr>)"
  by (simp add: steps_to_def managed_def live_def)

lemma steps_to_effect:
  assumes "managed m" "ok s" "effect res (live m) after (sessions s)" "\<And>k. after k = live m k \<or> new k (after k)"
  shows "steps_to m new (m\<lparr>sm_store := s\<rparr>)"
  using assms(1,2,4) effect_at [OF assms(3)] by (auto simp: steps_to_def managed_def live_def) metis

lemma capacity_check_steps:
  assumes "managed m" "capacity_check m = (e, m')"
  shows "managed m' \<and> sm_key m' = sm_key m \<and> sm_config m' = sm_config m \<and> sm_accounts m' = sm_accounts m \<and> live m' = live m"
    "e = Some AtCapacity \<Longrightarrow> \<exists>mx. max_sessions (sm_config m) = Some mx \<and> mx \<le> card (dom (live m))"
    "e = None \<Longrightarrow> max_sessions (sm_config m) = Some mx \<Longrightarrow> card (dom (live m)) < mx"
  using assms len_law [of "sm_store m"]
  by (auto simp: capacity_check_def managed_def live_def split: option.splits sum.splits prod.splits if_splits)

lemma login_steps:
  assumes "managed m"
  shows "steps_to m (\<lambda>k x. k = csrf_generate rng \<and>
      x = Some \<lparr>sr_user = u, sr_created = at, sr_last_seen = at, sr_meta = meta\<rparr> \<and>
      (\<forall>mx. max_sessions (sm_config m) = Some mx \<longrightarrow> card (dom (live m)) < mx))
    (snd (login_at m rng u rs meta at))"
proof -
  obtain e m' where c: "capacity_check m = (e, m')" by (cases "capacity_check m")
  note cs = capacity_check_steps [OF assms c]
  show ?thesis
  proof (cases e)
    case None
    let ?r = "\<lparr>sr_user = u, sr_created = at, sr_last_seen = at, sr_meta = meta\<rparr>"
    obtain res s where i: "op_insert ops (sm_store m') (csrf_generate rng) ?r = (res, s)"
      by (cases "op_insert ops (sm_store m') (csrf_generate rng) ?r")
    have ops: "sm_ops m' = ops" "ok (sm_store m')" using cs(1) by (auto simp: managed_def)
    have n: "snd (login_at m rng u rs meta at) = m'\<lparr>sm_store := s\<rparr>"
      using c None i ops by (auto simp: login_at_def Let_def split: sum.splits)
    have "ok s" "effect res (live m') ((live m')(csrf_generate rng \<mapsto> ?r)) (sessions s)"
      using insert_law [OF ops(2) i] by (auto simp: live_def)
    then have "steps_to m' (\<lambda>k x. k = csrf_generate rng \<and> x = Some ?r) (m'\<lparr>sm_store := s\<rparr>)"
      using cs(1) by (intro steps_to_effect) (auto split: if_splits)
    then show ?thesis using cs None unfolding n by (auto simp: steps_to_def)
  qed (use c cs in \<open>auto simp: login_at_def steps_to_def\<close>)
qed

lemma evict_steps:
  assumes "managed m"
  shows "steps_to m (\<lambda>j x. j = k \<and> x = None) (snd (evict m k))"
proof -
  obtain res s where r: "op_remove ops (sm_store m) k = (res, s)" by (cases "op_remove ops (sm_store m) k")
  with assms remove_law [of "sm_store m" k res s] have "ok s" "effect res (live m) ((live m)(k := None)) (sessions s)"
    by (auto simp: managed_def live_def)
  with assms r show ?thesis
    using steps_to_effect [of m s res "(live m)(k := None)"] by (auto simp: evict_def managed_def)
qed

lemma admit_steps:
  assumes "managed m" "live m (sid c) = Some r"
  shows "steps_to m (\<lambda>j x. j = sid c \<and> x = Some (r\<lparr>sr_last_seen := at\<rparr>)) (snd (admit m c r at))"
proof -
  obtain res s where t: "op_touch ops (sm_store m) (sid c) at = (res, s)" by (cases "op_touch ops (sm_store m) (sid c) at")
  with assms(1) touch_law [of "sm_store m" "sid c" at res s]
  have "ok s" "effect res (live m) (touched (live m) (sid c) at) (sessions s)"
    by (auto simp: managed_def live_def)
  with assms t show ?thesis
    using steps_to_effect [of m s res "touched (live m) (sid c) at"] steps_to_same [of m "sm_store m"]
    by (auto simp: admit_def managed_def live_def touched_def)
qed

lemma authenticate_registered:
  assumes m: "managed m" and v: "verify (sm_key m) t = Some c" "at \<le> exp c"
    and g: "op_get ops (sm_store m) (sid c) = (Inr x, s)"
  shows "managed (m\<lparr>sm_store := s\<rparr>)" "live (m\<lparr>sm_store := s\<rparr>) = live m"
    "authenticate_at m (Some t) at =
       (case live m (sid c) of
          None \<Rightarrow> (anonymous, m\<lparr>sm_store := s\<rparr>)
        | Some r \<Rightarrow> if session_valid m c r at then admit (m\<lparr>sm_store := s\<rparr>) c r at else evict (m\<lparr>sm_store := s\<rparr>) (sid c))"
  using assms get_law [of "sm_store m" "sid c" "Inr x" s]
  by (auto simp: authenticate_at_def managed_def live_def check_record_valid split: option.splits)

lemma steps_to_store:
  "steps_to (m\<lparr>sm_store := s\<rparr>) new m' \<Longrightarrow> live (m\<lparr>sm_store := s\<rparr>) = live m \<Longrightarrow> steps_to m new m'"
  by (simp add: steps_to_def)

text \<open>
  A request either concerns a registered session, which it touches or evicts according to its
  validity, or is anonymous and leaves the registry as it was.
\<close>

lemma authenticate_steps:
  fixes token :: "string option" and at :: nat
  assumes m: "managed m"
  defines "m' \<equiv> snd (authenticate_at m token at)"
  shows "(fst (authenticate_at m token at) = anonymous \<and> steps_to m (\<lambda>_ _. False) m') \<or>
    (\<exists>t c r. token = Some t \<and> verify (sm_key m) t = Some c \<and> at \<le> exp c \<and> live m (sid c) = Some r \<and>
       (if session_valid m c r at
        then fst (authenticate_at m token at) = authenticated (user c) (roles c) \<and>
             steps_to m (\<lambda>j x. j = sid c \<and> x = Some (r\<lparr>sr_last_seen := at\<rparr>)) m'
        else fst (authenticate_at m token at) = anonymous \<and> steps_to m (\<lambda>j x. j = sid c \<and> x = None) m'))"
proof (cases "\<exists>t c. token = Some t \<and> verify (sm_key m) t = Some c \<and> at \<le> exp c")
  case False
  then have "authenticate_at m token at = (anonymous, m)"
    by (auto simp: authenticate_at_def split: option.splits)
  then show ?thesis using m by (simp add: m'_def steps_to_def)
next
  case True
  then obtain t c where t: "token = Some t" "verify (sm_key m) t = Some c" "at \<le> exp c" by blast
  obtain ro s where g: "op_get ops (sm_store m) (sid c) = (ro, s)" by (cases "op_get ops (sm_store m) (sid c)")
  show ?thesis
  proof (cases ro)
    case (Inl e)
    with t g m have a: "authenticate_at m token at = (anonymous, m\<lparr>sm_store := s\<rparr>)"
      by (simp add: authenticate_at_def managed_def)
    have "ok s" "sessions s = live m" using get_law [OF _ g] m by (simp_all add: managed_def live_def)
    with a show ?thesis using steps_to_same [OF m, of s] by (simp add: m'_def)
  next
    case (Inr x)
    note reg = authenticate_registered [OF m t(2,3) g [unfolded Inr]]
    show ?thesis
    proof (cases "live m (sid c)")
      case None
      then show ?thesis
        using reg t(1) steps_to_store [of s m "\<lambda>_ _. False" "m\<lparr>sm_store := s\<rparr>"]
        by (simp add: m'_def steps_to_def)
    next
      case (Some r)
      note st = steps_to_store [OF evict_steps [OF reg(1)] reg(2)] steps_to_store [OF admit_steps [OF reg(1)] reg(2)]
      show ?thesis
        using reg(2,3) st t Some unfolding m'_def by simp
    qed
  qed
qed

lemma steps_to_mono: "steps_to m new m' \<Longrightarrow> (\<And>k x. new k x \<Longrightarrow> new' k x) \<Longrightarrow> steps_to m new' m'"
  unfolding steps_to_def by blast

lemma authenticate_registry:
  assumes "managed m"
  shows "steps_to m (\<lambda>j x. \<exists>t c r. token = Some t \<and> verify (sm_key m) t = Some c \<and> at \<le> exp c \<and> j = sid c \<and>
      live m j = Some r \<and> x = (if session_valid m c r at then Some (r\<lparr>sr_last_seen := at\<rparr>) else None))
    (snd (authenticate_at m token at))"
  using authenticate_steps [OF assms, of token at] by (auto elim!: steps_to_mono split: if_splits)

lemma authenticate_sound:
  assumes "managed m" "fst (authenticate_at m token at) \<noteq> anonymous"
  shows "\<exists>t c r. token = Some t \<and> verify (sm_key m) t = Some c \<and> at \<le> exp c \<and> live m (sid c) = Some r \<and>
    session_valid m c r at \<and> fst (authenticate_at m token at) = authenticated (user c) (roles c)"
  using authenticate_steps [OF assms(1), of token at] assms(2) by (auto split: if_splits)

lemma removal_steps:
  assumes "managed m"
  shows "steps_to m (\<lambda>j x. j = k \<and> x = None) (snd (logout m k))"
    "steps_to m (\<lambda>j x. (\<exists>c. verify (sm_key m) token = Some c \<and> j = sid c) \<and> x = None) (snd (logout_token m token))"
    "steps_to m (\<lambda>j x. (\<exists>r. live m j = Some r \<and> sr_user r = u) \<and> x = None) (snd (logout_user m u))"
proof -
  have e: "snd (logout m k) = snd (evict m k)" for k by (simp add: logout_def store_call_def evict_def)
  show l: "steps_to m (\<lambda>j x. j = k \<and> x = None) (snd (logout m k))" for k
    using evict_steps [OF assms] by (simp add: e)
  show "steps_to m (\<lambda>j x. (\<exists>c. verify (sm_key m) token = Some c \<and> j = sid c) \<and> x = None) (snd (logout_token m token))"
  proof (cases "verify (sm_key m) token")
    case (Some c)
    then have "logout_token m token = logout m (sid c)" by (simp add: logout_token_def logout_def)
    with Some l [of "sid c"] show ?thesis by simp
  qed (use assms in \<open>simp add: logout_token_def steps_to_def\<close>)
  obtain res s where r: "op_remove_user ops (sm_store m) u = (res, s)" by (cases "op_remove_user ops (sm_store m) u")
  with assms remove_user_law [of "sm_store m" u res s]
  have "ok s" "effect res (live m) (without_user (live m) u) (sessions s)" by (auto simp: managed_def live_def)
  with assms r show "steps_to m (\<lambda>j x. (\<exists>r. live m j = Some r \<and> sr_user r = u) \<and> x = None) (snd (logout_user m u))"
    using steps_to_effect [of m s res "without_user (live m) u"]
    by (auto simp: logout_user_def store_call_def managed_def without_user_def split: bind_splits)
qed

lemma step_absent:
  assumes m: "managed m" and k: "live m k = None" "\<not> issues k e"
  shows "managed (session_step m e) \<and> live (session_step m e) k = None \<and> sm_key (session_step m e) = sm_key m"
proof -
  have gen: "managed m' \<and> live m' k = None \<and> sm_key m' = sm_key m"
    if "steps_to m new m'" "\<And>x. new k x \<Longrightarrow> x = None" for new m'
    using that k(1) unfolding steps_to_def by metis
  show ?thesis
  proof (cases e)
    case (Login rng u rs meta at)
    then show ?thesis using gen [OF login_steps [OF m, of rng u at meta rs]] k(2) by simp
  next
    case (Authenticate token at)
    then show ?thesis using gen [OF authenticate_registry [OF m, of token at]] k(1) by auto
  next
    case (Logout j)
    then show ?thesis using gen [OF removal_steps(1) [OF m, of j]] by simp
  next
    case (Logout_token t)
    then show ?thesis using gen [OF removal_steps(2) [OF m, of t]] by simp
  next
    case (Logout_user u)
    then show ?thesis using gen [OF removal_steps(3) [OF m, of u]] by simp
  qed (use m k in \<open>simp_all add: reconfigure_def with_accounts_def managed_def live_def\<close>)
qed

lemma run_absent:
  assumes "managed m" "live m k = None" "list_all (\<lambda>e. \<not> issues k e) es"
  shows "managed (session_run m es) \<and> live (session_run m es) k = None \<and> sm_key (session_run m es) = sm_key m"
  using assms
proof (induction es arbitrary: m)
  case (Cons e es)
  then show ?case using step_absent [of m k e] by (simp add: session_run_def)
qed (simp add: session_run_def)

lemma run_managed: "managed m \<Longrightarrow> managed (session_run m es)"
proof (induction es arbitrary: m)
  case (Cons e es)
  have "managed (session_step m e)"
    using Cons.prems login_steps authenticate_registry removal_steps
    by (cases e) (auto simp: steps_to_def reconfigure_def with_accounts_def managed_def)
  with Cons.IH show ?case by (simp add: session_run_def)
qed (simp add: session_run_def)

lemma revoked_stays_out:
  assumes "managed m" "live m (sid c) = None" "verify (sm_key m) t = Some c" "list_all (\<lambda>e. \<not> issues (sid c) e) es"
  shows "fst (authenticate_at (session_run m es) (Some t) at) = anonymous"
proof (rule ccontr)
  note r = run_absent [OF assms(1,2,4)]
  assume "fst (authenticate_at (session_run m es) (Some t) at) \<noteq> anonymous"
  with authenticate_sound [of "session_run m es" "Some t" at] r assms(3) show False by auto
qed

lemma dom_steps:
  assumes "steps_to m new m'" "\<And>k r. new k (Some r) \<Longrightarrow> k \<in> D"
  shows "dom (live m') \<subseteq> dom (live m) \<union> D"
proof
  fix k assume "k \<in> dom (live m')"
  then obtain r where "live m' k = Some r" by blast
  with assms show "k \<in> dom (live m) \<union> D" unfolding steps_to_def by (metis UnI1 UnI2 domI)
qed

lemma card_steps:
  assumes "steps_to m new m'" "managed m" "\<And>k r. new k (Some r) \<Longrightarrow> k \<in> dom (live m)"
  shows "card (dom (live m')) \<le> card (dom (live m))"
proof -
  have "dom (live m') \<subseteq> dom (live m)" using dom_steps [OF assms(1), of "dom (live m)"] assms(3) by blast
  then show ?thesis using assms(2) finite_sessions by (simp add: card_mono managed_def live_def)
qed

lemma step_capacity:
  assumes m: "managed m" and mx: "max_sessions (sm_config m) = Some mx" and le: "card (dom (live m)) \<le> mx"
    and e: "\<not> reconfigures e"
  defines "m' \<equiv> session_step m e"
  shows "managed m' \<and> sm_config m' = sm_config m \<and> card (dom (live m')) \<le> mx"
proof -
  have gen: "managed n \<and> sm_config n = sm_config m \<and> card (dom (live n)) \<le> mx"
    if "steps_to m new n" "\<And>k r. new k (Some r) \<Longrightarrow> k \<in> dom (live m)" for new n
  proof -
    have "card (dom (live n)) \<le> card (dom (live m))" by (rule card_steps [OF that(1) m]) (rule that(2))
    with that(1) le show ?thesis by (simp add: steps_to_def)
  qed
  show ?thesis
  proof (cases e)
    case (Login rng u rs meta at)
    note st = login_steps [OF m, of rng u at meta rs]
    show ?thesis
    proof (cases "card (dom (live m)) < mx")
      case True
      have "dom (live m') \<subseteq> insert (csrf_generate rng) (dom (live m))"
        using dom_steps [OF st, of "{csrf_generate rng}"] Login by (auto simp: m'_def)
      then have "card (dom (live m')) \<le> card (insert (csrf_generate rng) (dom (live m)))"
        using m finite_sessions by (intro card_mono) (simp_all add: managed_def live_def)
      also have "\<dots> \<le> Suc (card (dom (live m)))" using m finite_sessions by (simp add: card_insert_le_m1 card_insert_if)
      finally show ?thesis using True st Login by (simp add: m'_def steps_to_def)
    qed (use gen [OF st] mx Login in \<open>auto simp: m'_def\<close>)
  next
    case (Authenticate token at)
    then show ?thesis using gen [OF authenticate_registry [OF m, of token at]] by (auto simp: m'_def)
  next
    case (Logout j)
    then show ?thesis using gen [OF removal_steps(1) [OF m, of j]] by (simp add: m'_def)
  next
    case (Logout_token t)
    then show ?thesis using gen [OF removal_steps(2) [OF m, of t]] by (simp add: m'_def)
  next
    case (Logout_user u)
    then show ?thesis using gen [OF removal_steps(3) [OF m, of u]] by (simp add: m'_def)
  qed (use m e le in \<open>simp_all add: m'_def with_accounts_def managed_def live_def\<close>)
qed

lemma run_capacity:
  assumes "managed m" "max_sessions (sm_config m) = Some mx" "card (dom (live m)) \<le> mx"
    "list_all (\<lambda>e. \<not> reconfigures e) es"
  shows "card (dom (live (session_run m es))) \<le> mx"
  using assms
proof (induction es arbitrary: m)
  case (Cons e es)
  then show ?case using step_capacity [of m mx e] by (simp add: session_run_def)
qed (simp add: session_run_def)

definition alive :: "'s session_manager \<Rightarrow> claims \<Rightarrow> nat \<Rightarrow> 's session_manager \<Rightarrow> bool" where
  "alive m c t0 m' \<longleftrightarrow>
     managed m' \<and> sm_key m' = sm_key m \<and> sm_config m' = sm_config m \<and> sm_accounts m' = sm_accounts m \<and>
     (\<exists>r. live m' (sid c) = Some r \<and> sr_user r = user c \<and> sr_created r = t0 \<and> t0 \<le> sr_last_seen r)"

lemma alive_steps:
  assumes "alive m c t0 n" "steps_to n new n'" "\<not> new (sid c) (live n' (sid c))"
  shows "alive m c t0 n'"
proof -
  have "live n' (sid c) = live n (sid c)" using assms(2,3) by (auto simp: steps_to_def)
  with assms(1,2) show ?thesis by (simp add: alive_def steps_to_def)
qed

lemma alive_step:
  assumes a: "alive m c t0 n" and adm: "admissible m c t0 t1" and sp: "spares (sm_key m) c t0 t1 e"
  shows "alive m c t0 (session_step n e)"
proof -
  have n: "managed n" "sm_key n = sm_key m" using a by (auto simp: alive_def)
  show ?thesis
  proof (cases e)
    case (Login rng u rs meta at)
    then show ?thesis using alive_steps [OF a login_steps [OF n(1), of rng u at meta rs]] sp by auto
  next
    case (Authenticate token at)
    obtain r where r: "live n (sid c) = Some r" "sr_user r = user c" "sr_created r = t0" "t0 \<le> sr_last_seen r"
      using a by (auto simp: alive_def)
    have at: "t0 \<le> at" "at \<le> t1" using sp Authenticate by auto
    have v: "session_valid n c r at"
      using admissible_valid(1) [OF adm at(2) r(3,4), of n] a by (simp add: alive_def)
    let ?n' = "snd (authenticate_at n token at)"
    note step = authenticate_registry [OF n(1), of token at, unfolded steps_to_def]
    have "live ?n' (sid c) = Some r \<or> live ?n' (sid c) = Some (r\<lparr>sr_last_seen := at\<rparr>)"
      using step [THEN conjunct2, THEN conjunct2, THEN conjunct2, THEN conjunct2, THEN spec, of "sid c"]
    proof
      assume "\<exists>t c' r'. token = Some t \<and> verify (sm_key n) t = Some c' \<and> at \<le> exp c' \<and> sid c = sid c' \<and>
        live n (sid c) = Some r' \<and>
        live ?n' (sid c) = (if session_valid n c' r' at then Some (r'\<lparr>sr_last_seen := at\<rparr>) else None)"
      then obtain t c' r' where *: "token = Some t" "verify (sm_key m) t = Some c'" "sid c' = sid c" "live n (sid c) = Some r'"
        "live ?n' (sid c) = (if session_valid n c' r' at then Some (r'\<lparr>sr_last_seen := at\<rparr>) else None)"
        unfolding n(2) by auto
      then have "c' = c" "r' = r" using sp Authenticate r(1) by simp_all
      with * v show ?thesis by simp
    qed (simp add: r(1))
    then have "\<exists>r'. live ?n' (sid c) = Some r' \<and> sr_user r' = user c \<and> sr_created r' = t0 \<and> t0 \<le> sr_last_seen r'"
      using r at(1) by auto
    then show ?thesis using step a Authenticate by (simp add: alive_def)
  next
    case (Logout j)
    then show ?thesis using alive_steps [OF a removal_steps(1) [OF n(1), of j]] sp by auto
  next
    case (Logout_token t)
    then have "\<forall>c'. verify (sm_key n) t = Some c' \<longrightarrow> sid c \<noteq> sid c'" using sp n(2) by auto
    then show ?thesis using alive_steps [OF a removal_steps(2) [OF n(1), of t]] Logout_token by auto
  next
    case (Logout_user u)
    then show ?thesis using alive_steps [OF a removal_steps(3) [OF n(1), of u]] sp a by (auto simp: alive_def)
  qed (use sp in simp_all)
qed

lemma alive_run:
  assumes "alive m c t0 n" "admissible m c t0 t1" "list_all (spares (sm_key m) c t0 t1) es"
  shows "alive m c t0 (session_run n es)"
  using assms
proof (induction es arbitrary: n)
  case (Cons e es)
  then show ?case using alive_step [of m c t0 n t1 e] by (simp add: session_run_def)
qed (simp add: session_run_def)

lemma login_alive:
  assumes "managed m" "login_at m rng u rs meta at = (Inr token, m')"
  defines "c \<equiv> \<lparr>sid = csrf_generate rng, user = u, roles = rs, version = login_version m u,
     exp = wrapping_add64 at (as_secs (token_ttl (sm_config m)))\<rparr>"
  shows "token = sign (sm_key m) c" "alive m c at m'"
proof -
  let ?r = "\<lparr>sr_user = u, sr_created = at, sr_last_seen = at, sr_meta = meta\<rparr>"
  obtain e n where cc: "capacity_check m = (e, n)" by (cases "capacity_check m")
  note cs = capacity_check_steps(1) [OF assms(1) cc]
  have e: "e = None" using assms(2) cc by (auto simp: login_at_def split: option.splits)
  have n: "sm_ops n = ops" "ok (sm_store n)" "login_version n u = login_version m u"
    using cs by (auto simp: managed_def login_version_def)
  obtain res s where i: "op_insert ops (sm_store n) (csrf_generate rng) ?r = (res, s)"
    by (cases "op_insert ops (sm_store n) (csrf_generate rng) ?r")
  then have res: "res = Inr ()" "m' = n\<lparr>sm_store := s\<rparr>" "token = sign (sm_key m) c"
    using assms(2) cc e n by (auto simp: login_at_def Let_def c_def split: sum.splits)
  show "token = sign (sm_key m) c" by (rule res(3))
  show "alive m c at m'"
    using insert_law [OF n(2) i] cs n(1) res(1) by (auto simp: alive_def managed_def live_def res(2) c_def)
qed

end

text \<open>A store whose operations never fail, as the in-memory store.\<close>

locale reliable_registry = session_registry +
  assumes get_ok: "ok s \<Longrightarrow> \<not> isl (fst (op_get ops s k))"
    and insert_ok: "ok s \<Longrightarrow> \<not> isl (fst (op_insert ops s k r))"
    and remove_ok: "ok s \<Longrightarrow> \<not> isl (fst (op_remove ops s k))"
    and remove_user_ok: "ok s \<Longrightarrow> \<not> isl (fst (op_remove_user ops s u))"
    and len_ok: "ok s \<Longrightarrow> \<not> isl (fst (op_len ops s))"
begin

lemma authenticate_complete:
  assumes "managed m" "verify (sm_key m) t = Some c" "at \<le> exp c" "live m (sid c) = Some r" "session_valid m c r at"
  shows "fst (authenticate_at m (Some t) at) = authenticated (user c) (roles c)"
proof -
  obtain ro s where g: "op_get ops (sm_store m) (sid c) = (ro, s)" by (cases "op_get ops (sm_store m) (sid c)")
  with get_ok [of "sm_store m" "sid c"] assms(1) obtain x where "ro = Inr x" by (cases ro) (auto simp: managed_def)
  with authenticate_registered(3) [OF assms(1-3), of x s] g assms(4,5) show ?thesis by simp
qed

lemma session_lives:
  assumes "managed m" "login_at m rng u rs meta at = (Inr token, m')"
  defines "c \<equiv> \<lparr>sid = csrf_generate rng, user = u, roles = rs, version = login_version m u,
     exp = wrapping_add64 at (as_secs (token_ttl (sm_config m)))\<rparr>"
  assumes "claims_ok c" "admissible m c at t1" "at \<le> t1" "list_all (spares (sm_key m) c at t1) es"
  shows "fst (authenticate_at (session_run m' es) (Some token) t1) = authenticated u rs"
proof -
  note l = login_alive [OF assms(1,2), folded c_def]
  have a: "alive m c at (session_run m' es)" by (rule alive_run [OF l(2) assms(5,7)])
  then obtain r where r: "managed (session_run m' es)" "sm_key (session_run m' es) = sm_key m"
      "live (session_run m' es) (sid c) = Some r" "sr_created r = at" "at \<le> sr_last_seen r"
      "sm_config (session_run m' es) = sm_config m" "sm_accounts (session_run m' es) = sm_accounts m"
    by (auto simp: alive_def)
  have "verify (sm_key (session_run m' es)) token = Some c"
    using r(2) l(1) verify_sign [of "sm_key m" c] claims_roundtrip [OF assms(4)] by simp
  then have "fst (authenticate_at (session_run m' es) (Some token) t1) = authenticated (user c) (roles c)"
    using authenticate_complete [OF r(1) _ _ r(3)] admissible_valid [OF assms(5) le_refl r(4,5) r(6,7)] by simp
  then show ?thesis by (simp add: c_def)
qed

lemma logout_complete:
  assumes "managed m"
  shows "live (snd (logout m k)) = (live m)(k := None)" "managed (snd (logout m k))"
    "live (snd (logout_user m u)) = without_user (live m) u" "managed (snd (logout_user m u))"
proof -
  obtain res s where r: "op_remove ops (sm_store m) k = (res, s)" by (cases "op_remove ops (sm_store m) k")
  with remove_ok [of "sm_store m" k] remove_law [of "sm_store m" k res s] assms
  show "live (snd (logout m k)) = (live m)(k := None)" "managed (snd (logout m k))"
    by (cases res; auto simp: managed_def live_def logout_def store_call_def)+
  obtain res s where r: "op_remove_user ops (sm_store m) u = (res, s)" by (cases "op_remove_user ops (sm_store m) u")
  with remove_user_ok [of "sm_store m" u] remove_user_law [of "sm_store m" u res s] assms
  show "live (snd (logout_user m u)) = without_user (live m) u" "managed (snd (logout_user m u))"
    by (cases res; auto simp: managed_def live_def logout_user_def store_call_def)+
qed

end

section \<open>The in-memory registry\<close>

lemma mem_sessions_set:
  "hm_ok s \<Longrightarrow> distinct (map fst (filter (\<lambda>(k, r). P r) s)) \<and>
     set (filter (\<lambda>(k, r). P r) s) = {(k, r). hm_get s k = Some r \<and> P r}"
  by (auto simp: hm_ok_def hm_get_def distinct_map_filter dest: map_of_SomeD)

interpretation mem: reliable_registry memory_ops hm_get hm_ok
proof unfold_locales
  show "hm_ok s \<Longrightarrow> op_sessions_of memory_ops s u = (rl, s') \<Longrightarrow>
      hm_ok s' \<and> hm_get s' = hm_get s \<and>
      (\<forall>l. rl = Inr l \<longrightarrow> distinct (map fst l) \<and> set l = {(k, r). hm_get s k = Some r \<and> sr_user r = u})"
    for s u rl s'
    using mem_sessions_set [of s "\<lambda>r. sr_user r = u"] by (auto simp: memory_ops_def mem_sessions_of_def)
qed (auto simp: memory_ops_def mem_insert_def mem_get_def mem_touch_def mem_remove_def mem_remove_user_def
    mem_len_def touched_def without_user_def hm.len_card hm.get_retain fun_eq_iff split: option.splits
    intro!: arg_cong [where f = "Option.bind _"])

lemma mem_managed: "mem.managed m \<longleftrightarrow> sm_ops m = memory_ops \<and> hm_ok (sm_store m)"
  by (rule mem.managed_def)

lemma mem_live: "mem.live m = hm_get (sm_store m)"
  by (rule mem.live_def)

section \<open>Properties\<close>

text \<open>
  C7: the decision of the session manager over the in-memory store. A token authenticates at
  time \<open>at\<close> as a user with roles exactly when its signature verifies to claims with that user and
  those roles, the claims have not expired, the session is registered, neither timeout of the
  current configuration has passed, and the account, if a provider is set, exists, is active and
  unexpired and has the version of the login. Every other token is anonymous.
\<close>

theorem session_authenticate_exact:
  assumes "sm_ops m = memory_ops" "hm_ok (sm_store m)"
  shows "(fst (authenticate_at m (Some t) at) \<noteq> anonymous \<longleftrightarrow>
      (\<exists>c r. verify (sm_key m) t = Some c \<and> at \<le> exp c \<and> hm_get (sm_store m) (sid c) = Some r \<and> session_valid m c r at)) \<and>
    (fst (authenticate_at m (Some t) at) \<noteq> anonymous \<longrightarrow>
      (\<exists>c. verify (sm_key m) t = Some c \<and> fst (authenticate_at m (Some t) at) = authenticated (user c) (roles c)))"
proof -
  have m: "mem.managed m" using assms by (simp add: mem_managed)
  have "fst (authenticate_at m (Some t) at) \<noteq> anonymous"
    if "verify (sm_key m) t = Some c" "at \<le> exp c" "hm_get (sm_store m) (sid c) = Some r" "session_valid m c r at" for c r
    using mem.authenticate_complete [OF m that(1,2)] that(3,4) by (simp add: mem_live)
  with mem.authenticate_sound [OF m, of "Some t" at] show ?thesis by (auto simp: mem_live)
qed

definition sample_manager :: "memory_store session_manager" where
  "sample_manager = manager_new memory_ops [] ''k'' (default_config\<lparr>max_sessions := Some 1, idle_timeout := Some (from_secs 60)\<rparr>)"

definition sample_claims_of :: "string \<Rightarrow> claims" where
  "sample_claims_of rng = \<lparr>sid = csrf_generate rng, user = ''ann'', roles = [''USER''], version = 0, exp = 4600\<rparr>"

definition sample_registered :: "memory_store session_manager" where
  "sample_registered = sample_manager\<lparr>sm_store :=
     [(csrf_generate ''r'', \<lparr>sr_user = ''ann'', sr_created = 1000, sr_last_seen = 1000, sr_meta = []\<rparr>)]\<rparr>"

lemma sample_login:
  "login_at sample_manager ''r'' ''ann'' [''USER''] [] 1000 = (Inr (sign ''k'' (sample_claims_of ''r'')), sample_registered)"
proof -
  have c: "capacity_check sample_manager = (None, sample_manager)"
    by (simp add: capacity_check_def sample_manager_def manager_new_def memory_ops_def mem_len_def hm_len_def)
  have v: "login_version sample_manager ''ann'' = 0" by code_simp
  have i: "op_insert (sm_ops sample_manager) (sm_store sample_manager) (csrf_generate ''r'')
      \<lparr>sr_user = ''ann'', sr_created = 1000, sr_last_seen = 1000, sr_meta = []\<rparr> = (Inr (), sm_store sample_registered)"
    by (simp add: sample_manager_def sample_registered_def manager_new_def memory_ops_def mem_insert_def hm_insert_def)
  have e: "wrapping_add64 1000 (as_secs (token_ttl (sm_config sample_manager))) = 4600" by code_simp
  have k: "sm_key sample_manager = ''k''" "sample_manager\<lparr>sm_store := sm_store sample_registered\<rparr> = sample_registered"
    by (simp_all add: sample_manager_def sample_registered_def manager_new_def)
  show ?thesis by (simp add: login_at_def c v i e k Let_def sample_claims_of_def)
qed

lemma sample_claims_ok: "claims_ok (sample_claims_of ''r'')"
  by code_simp

lemma sample_verify: "verify ''k'' (sign ''k'' (sample_claims_of ''r'')) = Some (sample_claims_of ''r'')"
  using verify_sign claims_roundtrip [OF sample_claims_ok] by simp

theorem session_authenticate_exact_witness:
  "fst (authenticate_at sample_registered (Some (sign ''k'' (sample_claims_of ''r''))) 1050) \<noteq> anonymous"
proof -
  have m: "sm_ops sample_registered = memory_ops" "sm_key sample_registered = ''k''"
    by (simp_all add: sample_registered_def sample_manager_def manager_new_def)
  have ok: "hm_ok (sm_store sample_registered)" by code_simp
  have g: "hm_get (sm_store sample_registered) (sid (sample_claims_of ''r'')) =
      Some \<lparr>sr_user = ''ann'', sr_created = 1000, sr_last_seen = 1000, sr_meta = []\<rparr>" by code_simp
  have v: "session_valid sample_registered (sample_claims_of ''r'')
      \<lparr>sr_user = ''ann'', sr_created = 1000, sr_last_seen = 1000, sr_meta = []\<rparr> 1050" by code_simp
  have "1050 \<le> exp (sample_claims_of ''r'')" by (simp add: sample_claims_of_def)
  with session_authenticate_exact [OF m(1) ok, of "sign ''k'' (sample_claims_of ''r'')" 1050] g v sample_verify m(2)
  show ?thesis by metis
qed

text \<open>
  C8: a login lasts. Whatever calls follow a successful login - logins with other session ids,
  requests of any clients within the period, logouts of other sessions, tokens and users - the
  token authenticates as the user with the roles of the login up to the end of the period set by
  the token lifetime, the absolute and idle timeouts and the account; the login itself fails only
  at the capacity limit.
\<close>

theorem session_lives_on:
  assumes "sm_ops m = memory_ops" "hm_ok (sm_store m)"
    and "c = \<lparr>sid = csrf_generate rng, user = u, roles = rs, version = login_version m u,
       exp = wrapping_add64 at (as_secs (token_ttl (sm_config m)))\<rparr>"
    and "claims_ok c" "admissible m c at t1" "at \<le> t1" "list_all (spares (sm_key m) c at t1) es"
  shows "(\<exists>mx. max_sessions (sm_config m) = Some mx \<and> mx \<le> hm_len (sm_store m) \<and>
      login_at m rng u rs meta at = (Inl AtCapacity, m)) \<or>
    (\<exists>token m'. login_at m rng u rs meta at = (Inr token, m') \<and>
      fst (authenticate_at (session_run m' es) (Some token) t1) = authenticated u rs)"
proof (cases "fst (login_at m rng u rs meta at)")
  case (Inl e)
  have "fst (capacity_check m) \<noteq> None"
    using Inl assms(1) by (auto simp: login_at_def Let_def capacity_check_def memory_ops_def mem_insert_def mem_len_def
      split: option.splits prod.splits)
  then show ?thesis
    using assms(1) by (auto simp: login_at_def capacity_check_def memory_ops_def mem_len_def split: option.splits if_splits)
next
  case (Inr token)
  then have "login_at m rng u rs meta at = (Inr token, snd (login_at m rng u rs meta at))"
    by (metis prod.collapse)
  moreover have "fst (authenticate_at (session_run (snd (login_at m rng u rs meta at)) es) (Some token) t1) = authenticated u rs"
    by (rule mem.session_lives [OF _ calculation]) (use assms in \<open>simp_all add: mem_managed\<close>)
  ultimately show ?thesis by blast
qed

theorem session_lives_on_witness:
  "fst (authenticate_at (session_run sample_registered [Logout ''x'', Logout_user ''bob'']) (Some (sign ''k'' (sample_claims_of ''r''))) 1060) =
     authenticated ''ann'' [''USER'']"
proof -
  have m: "sm_ops sample_manager = memory_ops" "sm_key sample_manager = ''k''"
    by (simp_all add: sample_manager_def manager_new_def)
  have ok: "hm_ok (sm_store sample_manager)" by code_simp
  have c: "sample_claims_of ''r'' = \<lparr>sid = csrf_generate ''r'', user = ''ann'', roles = [''USER''],
      version = login_version sample_manager ''ann'',
      exp = wrapping_add64 1000 (as_secs (token_ttl (sm_config sample_manager)))\<rparr>" by code_simp
  have a: "admissible sample_manager (sample_claims_of ''r'') 1000 1060" by code_simp
  have "sid (sample_claims_of ''r'') \<noteq> ''x''" by code_simp
  then have sp: "list_all (spares (sm_key sample_manager) (sample_claims_of ''r'') 1000 1060) [Logout ''x'', Logout_user ''bob'']"
    by (simp add: sample_claims_of_def)
  show ?thesis
    using session_lives_on [OF m(1) ok c sample_claims_ok a _ sp, where meta = "[]"] sample_login by auto
qed

text \<open>
  C9: revocation is final. Once a session is logged out by its id, by its token, or with all
  sessions of its user, no later sequence of calls lets a token of that session authenticate
  again, at whatever time, unless the very same id is issued to a new login.
\<close>

theorem session_revocation:
  assumes "sm_ops m = memory_ops" "hm_ok (sm_store m)" "verify (sm_key m) t = Some c"
    and "m' = snd (logout m (sid c)) \<or> m' = snd (logout_token m t) \<or>
      m' = snd (logout_user m u) \<and> (\<forall>r. hm_get (sm_store m) (sid c) = Some r \<longrightarrow> sr_user r = u)"
    and "list_all (\<lambda>e. \<not> issues (sid c) e) es"
  shows "fst (authenticate_at (session_run m' es) (Some t) at) = anonymous"
proof -
  have m: "mem.managed m" using assms by (simp add: mem_managed)
  have t: "logout_token m t = logout m (sid c)" using assms(3) by (simp add: logout_token_def logout_def)
  have "mem.managed m'" "mem.live m' (sid c) = None"
    using assms(4) mem.logout_complete(1,2) [OF m, of "sid c"] mem.logout_complete(3,4) [OF m, of u] t
    by (auto simp: mem_live without_user_def split: bind_splits)
  moreover have "sm_key m' = sm_key m"
    using assms(4) t by (auto simp: logout_def logout_user_def store_call_def)
  ultimately show ?thesis using mem.revoked_stays_out assms(3,5) by simp
qed

theorem session_revocation_witness:
  "fst (authenticate_at (session_run (snd (logout_user sample_registered ''ann'')) [Authenticate None 5])
     (Some (sign ''k'' (sample_claims_of ''r''))) 1050) = anonymous"
proof -
  have m: "sm_ops sample_registered = memory_ops" "sm_key sample_registered = ''k''"
    by (simp_all add: sample_registered_def sample_manager_def manager_new_def)
  have ok: "hm_ok (sm_store sample_registered)" by code_simp
  have g: "hm_get (sm_store sample_registered) (sid (sample_claims_of ''r'')) =
      Some \<lparr>sr_user = ''ann'', sr_created = 1000, sr_last_seen = 1000, sr_meta = []\<rparr>" by code_simp
  show ?thesis
    by (rule session_revocation [OF m(1) ok, where c = "sample_claims_of ''r''" and u = "''ann''"])
      (simp_all add: m(2) sample_verify g)
qed

text \<open>
  C10: the registry respects its cap. As long as the configuration is not changed, no sequence of
  calls takes the number of live sessions above \<open>max_sessions\<close>.
\<close>

theorem session_capacity:
  assumes "sm_ops m = memory_ops" "hm_ok (sm_store m)" "max_sessions (sm_config m) = Some mx"
    and "hm_len (sm_store m) \<le> mx" "list_all (\<lambda>e. \<not> reconfigures e) es"
  shows "hm_len (sm_store (session_run m es)) \<le> mx"
proof -
  have m: "mem.managed m" using assms by (simp add: mem_managed)
  have "card (dom (mem.live m)) \<le> mx" using assms hm.len_card [of "sm_store m"] by (simp add: mem_live)
  from mem.run_capacity [OF m assms(3) this assms(5)]
  have "card (dom (hm_get (sm_store (session_run m es)))) \<le> mx" by (simp add: mem_live)
  moreover have "hm_ok (sm_store (session_run m es))"
    using mem.run_managed [OF m, of es] by (simp add: mem_managed)
  ultimately show ?thesis using hm.len_card by metis
qed

theorem session_capacity_witness:
  "hm_len (sm_store (session_run sample_manager [Login ''r'' ''ann'' [] [] 1000, Login ''s'' ''bob'' [] [] 1001])) \<le> 1"
  by (rule session_capacity)
    (simp_all add: sample_manager_def manager_new_def hm_ok_def hm_len_def)

text \<open>
  Errors of a store. With any store, whatever its answers, a session the store cannot look up
  is not authenticated, a login the store cannot count or record is refused with the store's
  error, and a logout reports the store's error to its caller.
\<close>

theorem session_fail_closed:
  "(isl (fst (op_get (sm_ops m) (sm_store m) k)) \<and> verify (sm_key m) t = Some c \<and> sid c = k \<longrightarrow>
      fst (authenticate_at m (Some t) at) = anonymous) \<and>
   (fst (op_len (sm_ops m) (sm_store m)) = Inl e \<and> max_sessions (sm_config m) \<noteq> None \<longrightarrow>
      fst (login_at m rng u rs meta at) = Inl (Store e)) \<and>
   (fst (capacity_check m) = None \<and>
    fst (op_insert (sm_ops m) (sm_store (snd (capacity_check m))) (csrf_generate rng)
      \<lparr>sr_user = u, sr_created = at, sr_last_seen = at, sr_meta = meta\<rparr>) = Inl e \<longrightarrow>
      fst (login_at m rng u rs meta at) = Inl (Store e)) \<and>
   fst (logout m k) = fst (op_remove (sm_ops m) (sm_store m) k)"
proof -
  have ops: "sm_ops (snd (capacity_check m)) = sm_ops m"
    by (auto simp: capacity_check_def split: option.splits sum.splits prod.splits)
  show ?thesis
    using ops
    by (cases "capacity_check m")
      (auto simp: authenticate_at_def login_at_def capacity_check_def logout_def store_call_def Let_def
        split: option.splits sum.splits prod.splits)
qed

text \<open>A store that is down: every operation reports an error.\<close>

definition down_ops :: "unit session_ops" where
  "down_ops = (let e = Inl (Backend ''down'') in
     \<lparr>op_insert = \<lambda>s k r. (e, s), op_get = \<lambda>s k. (Inl (Backend ''down''), s), op_touch = \<lambda>s k at. (e, s), op_remove = \<lambda>s k. (e, s),
      op_remove_user = \<lambda>s u. (e, s), op_sessions_of = \<lambda>s u. (Inl (Backend ''down''), s), op_len = \<lambda>s. (Inl (Backend ''down''), s)\<rparr>)"

theorem session_fail_closed_witness:
  "fst (authenticate_at (manager_new down_ops () ''k'' default_config) (Some (sign ''k'' (sample_claims_of ''r''))) 0) = anonymous \<and>
   fst (login_at (manager_new down_ops () ''k'' default_config) ''r'' ''ann'' [] [] 0) = Inl (Store (Backend ''down''))"
proof -
  let ?m = "manager_new down_ops () ''k'' default_config"
  have "isl (fst (op_get (sm_ops ?m) (sm_store ?m) (sid (sample_claims_of ''r''))))" "sm_key ?m = ''k''"
    "fst (capacity_check ?m) = None"
    "fst (op_insert (sm_ops ?m) (sm_store (snd (capacity_check ?m))) (csrf_generate ''r'')
      \<lparr>sr_user = ''ann'', sr_created = 0, sr_last_seen = 0, sr_meta = []\<rparr>) = Inl (Backend ''down'')"
    by (simp_all add: manager_new_def down_ops_def capacity_check_def default_config_def Let_def)
  then show ?thesis
    using session_fail_closed [of ?m "sid (sample_claims_of ''r'')" "sign ''k'' (sample_claims_of ''r'')" "sample_claims_of ''r''" 0
        "Backend ''down''" "''r''" "''ann''" "[]" "[]"] sample_verify by simp
qed

text \<open>
  The activity of a session is recorded only when more than a minute has passed since the last
  record, so an idle timeout of a minute ends a session that is used every few seconds: here
  the session is used 50 seconds after the login and refused 11 seconds later.
\<close>

theorem session_idle_lazy:
  "fst (authenticate_at sample_registered (Some (sign ''k'' (sample_claims_of ''r''))) 1050) = authenticated ''ann'' [''USER''] \<and>
   fst (authenticate_at (snd (authenticate_at sample_registered (Some (sign ''k'' (sample_claims_of ''r''))) 1050))
     (Some (sign ''k'' (sample_claims_of ''r''))) 1061) = anonymous"
proof -
  let ?c = "sample_claims_of ''r''"
  let ?r = "\<lparr>sr_user = ''ann'', sr_created = 1000, sr_last_seen = 1000, sr_meta = []\<rparr>"
  have m: "sm_key sample_registered = ''k''" by (simp add: sample_registered_def sample_manager_def manager_new_def)
  have g: "op_get (sm_ops sample_registered) (sm_store sample_registered) (sid ?c) = (Inr (Some ?r), sm_store sample_registered)"
    by (simp add: sample_registered_def sample_manager_def manager_new_def memory_ops_def mem_get_def hm_get_def sample_claims_of_def)
  have s: "sample_registered\<lparr>sm_store := sm_store sample_registered\<rparr> = sample_registered" by simp
  have v: "session_valid sample_registered ?c ?r 1050" "\<not> session_valid sample_registered ?c ?r 1061" by code_simp+
  have w: "wrapping_add64 1000 60 = 1060" by code_simp
  have c: "exp ?c = 4600" "user ?c = ''ann''" "roles ?c = [''USER'']" by (simp_all add: sample_claims_of_def)
  have a: "authenticate_at sample_registered (Some (sign ''k'' ?c)) at =
      (if session_valid sample_registered ?c ?r at then admit sample_registered ?c ?r at else evict sample_registered (sid ?c))"
    if "at \<le> 4600" for at
    using that by (simp add: authenticate_at_def m sample_verify g s c check_record_valid)
  show ?thesis using a [of 1050] a [of 1061] v by (simp add: admit_def w c)
qed

end
