(* ===== verification/Leaf_Escape.thy ===== *)
theory Leaf_Escape
  imports Rust_Text "HOL-Library.Sublist"
begin

text \<open>
  The context-aware escaping of \<open>kernleaf/src/lib.rs\<close>: \<open>escape_html_into\<close>, \<open>escape_js_into\<close>,
  \<open>escape_css_into\<close> and \<open>escape_for\<close>. Each routine appends to a buffer; here it returns what it
  appends. The readers at the end are the reference each routine is checked against: what an
  HTML, JavaScript or CSS reader makes of the escaped text.
\<close>

section \<open>Characters of a text\<close>

text \<open>The code points of \<open>str::chars\<close>, from the bytes of valid UTF-8.\<close>

definition code_point :: "string \<Rightarrow> nat" where
  "code_point s =
     (let b0 = byte_at s 0; w = utf8_width b0; c = (\<lambda>i. byte_at s i mod 64)
      in if w = 2 then b0 mod 32 * 64 + c 1
         else if w = 3 then b0 mod 16 * 4096 + c 1 * 64 + c 2
         else if w = 4 then b0 mod 8 * 262144 + c 1 * 4096 + c 2 * 64 + c 3
         else b0)"

function chars :: "string \<Rightarrow> nat list" where
  "chars s = (if s = [] then [] else code_point s # chars (drop (snd (utf8_step s)) s))"
  by pat_completeness auto
termination
  by (relation "measure length") (auto simp: utf8_step_pos)

declare chars.simps [simp del]

lemma chars_Nil [simp]: "chars [] = []"
  by (subst chars.simps) simp

section \<open>Escaping\<close>

datatype inline_mode = Html | JavaScript | Css

definition html_char :: "char \<Rightarrow> string" where
  "html_char c =
     (if c = CHR ''&'' then ''&amp;''
      else if c = CHR ''<'' then ''&lt;''
      else if c = CHR ''>'' then ''&gt;''
      else if c = CHR 0x22 then ''&quot;''
      else if c = CHR 0x27 then ''&#x27;''
      else [c])"

definition escape_html :: "string \<Rightarrow> string" where
  "escape_html s = concat (map html_char s)"

definition js_char :: "char \<Rightarrow> string" where
  "js_char c =
     (if c = CHR 0x5C then [CHR 0x5C, CHR 0x5C]
      else if c = CHR 0x27 then [CHR 0x5C, CHR 0x27]
      else if c = CHR 0x22 then [CHR 0x5C, CHR 0x22]
      else if c = CHR 0x0A then CHR 0x5C # ''n''
      else if c = CHR 0x0D then CHR 0x5C # ''r''
      else if c = CHR 0x09 then CHR 0x5C # ''t''
      else if c = CHR ''<'' then CHR 0x5C # ''u003C''
      else if c = CHR ''>'' then CHR 0x5C # ''u003E''
      else if c = CHR ''&'' then CHR 0x5C # ''u0026''
      else if c = CHR ''/'' then CHR 0x5C # ''/''
      else [c])"

definition escape_js :: "string \<Rightarrow> string" where
  "escape_js s = concat (map js_char s)"

text \<open>\<open>{:X}\<close> of a number.\<close>

fun show_hex :: "nat \<Rightarrow> string" where
  "show_hex n = (if n < 16 then [hex_char n] else show_hex (n div 16) @ [hex_char (n mod 16)])"

declare show_hex.simps [simp del]

definition alnum :: "nat \<Rightarrow> bool" where
  "alnum n \<longleftrightarrow> 48 \<le> n \<and> n \<le> 57 \<or> 65 \<le> n \<and> n \<le> 90 \<or> 97 \<le> n \<and> n \<le> 122"

definition css_char :: "nat \<Rightarrow> string" where
  "css_char n = (if alnum n then [char_of n] else CHR 0x5C # show_hex n @ '' '')"

definition escape_css :: "string \<Rightarrow> string" where
  "escape_css s = concat (map css_char (chars s))"

definition escape_for :: "inline_mode \<Rightarrow> string \<Rightarrow> string" where
  "escape_for mode s = (case mode of Html \<Rightarrow> escape_html s | JavaScript \<Rightarrow> escape_js s | Css \<Rightarrow> escape_css s)"

section \<open>Readers\<close>

text \<open>The character references an HTML reader knows, among those the engine writes.\<close>

fun read_html :: "string \<Rightarrow> string" where
  "read_html [] = []"
| "read_html (c # s) =
     (case find (\<lambda>d. prefix (html_char d) (c # s)) [CHR ''&'', CHR ''<'', CHR ''>'', CHR 0x22, CHR 0x27] of
        Some d \<Rightarrow> d # read_html (drop (length (html_char d) - 1) s)
      | None \<Rightarrow> c # read_html s)"

text \<open>
  The body of a JavaScript string literal in a script element: \<open>None\<close> when a quote or a line
  end closes or breaks the literal, or an angle bracket could end the element.
\<close>

fun read_js :: "string \<Rightarrow> string option" where
  "read_js [] = Some []"
| "read_js (c # s) =
     (if c = CHR 0x5C then
        (case s of
           [] \<Rightarrow> None
         | a # t \<Rightarrow>
             if a = CHR ''u'' then
               (if prefix ''003C'' t then map_option ((#) (CHR ''<'')) (read_js (drop 4 t))
                else if prefix ''003E'' t then map_option ((#) (CHR ''>'')) (read_js (drop 4 t))
                else if prefix ''0026'' t then map_option ((#) (CHR ''&'')) (read_js (drop 4 t))
                else None)
             else map_option ((#) (if a = CHR ''n'' then CHR 0x0A else if a = CHR ''r'' then CHR 0x0D
                                   else if a = CHR ''t'' then CHR 0x09 else a)) (read_js t))
      else if c \<in> {CHR 0x27, CHR 0x22, CHR 0x0A, CHR 0x0D, CHR ''<'', CHR ''>''} then None
      else map_option ((#) c) (read_js s))"

text \<open>CSS: a backslash, hexadecimal digits and a space stand for the character of that number.\<close>

fun hex_value :: "nat \<Rightarrow> string \<Rightarrow> nat option" where
  "hex_value acc [] = Some acc"
| "hex_value acc (c # s) = (case hex_digit c of None \<Rightarrow> None | Some d \<Rightarrow> hex_value (16 * acc + d) s)"

lemma split_once_shorter: "split_once c s = Some (a, b) \<Longrightarrow> length b < length s"
  by (induction s arbitrary: a) (auto split: if_splits option.splits)

function read_css :: "string \<Rightarrow> nat list option" where
  "read_css [] = Some []"
| "read_css (c # s) =
     (if c = CHR 0x5C then
        (case split_once (CHR '' '') s of
           None \<Rightarrow> None
         | Some (h, t) \<Rightarrow> (case hex_value 0 h of None \<Rightarrow> None | Some n \<Rightarrow> map_option ((#) n) (read_css t)))
      else if alnum (ord c) then map_option ((#) (ord c)) (read_css s) else None)"
  by pat_completeness auto

termination
  by (relation "measure length") (auto dest: split_once_shorter)

section \<open>What the readers see\<close>

lemma html_char_absent: "c \<in> set (html_char d) \<Longrightarrow> c \<notin> {CHR ''<'', CHR ''>'', CHR 0x22, CHR 0x27}"
  by (auto simp: html_char_def split: if_splits)

lemma escape_html_absent: "set (escape_html s) \<inter> {CHR ''<'', CHR ''>'', CHR 0x22, CHR 0x27} = {}"
  using html_char_absent by (fastforce simp: escape_html_def)

lemma read_html_char: "read_html (html_char c @ s) = c # read_html s"
  by (auto simp: html_char_def)

lemma read_escape_html: "read_html (escape_html s) = s"
  by (induction s) (simp_all add: escape_html_def read_html_char)

lemma read_js_char: "read_js (js_char c @ s) = map_option ((#) c) (read_js s)"
  by (simp add: js_char_def)

lemma read_escape_js: "read_js (escape_js s) = Some s"
  by (induction s) (simp_all add: escape_js_def read_js_char del: read_js.simps(2))

lemma hex_value_append: "hex_value acc (a @ b) = Option.bind (hex_value acc a) (\<lambda>n. hex_value n b)"
  by (induction a arbitrary: acc) (auto split: option.splits)

lemma hex_value_show: "hex_value 0 (show_hex n) = Some n"
  by (induction n rule: show_hex.induct) (subst show_hex.simps, auto simp: hex_value_append)

lemma hex_char_range: "d < 16 \<Longrightarrow> alnum (ord (hex_char d))"
  by (auto simp: hex_char_def alnum_def)

lemma show_hex_alnum: "c \<in> set (show_hex n) \<Longrightarrow> alnum (ord c)"
  by (induction n rule: show_hex.induct) (subst (asm) show_hex.simps, auto simp: hex_char_range split: if_splits)

lemma ord_char_of_alnum: "alnum n \<Longrightarrow> ord (char_of n :: char) = n"
  by (auto simp: alnum_def)

lemma read_css_char: "read_css (css_char n @ s) = map_option ((#) n) (read_css s)"
proof (cases "alnum n")
  case True
  then have o: "ord (char_of n :: char) = n" by (rule ord_char_of_alnum)
  have "ord (CHR 0x5C) \<noteq> n" using True by (auto simp: alnum_def)
  then have "(char_of n :: char) \<noteq> CHR 0x5C" using o by metis
  then show ?thesis using True o by (simp add: css_char_def)
next
  case False
  have "CHR '' '' \<notin> set (show_hex n)" using show_hex_alnum [of "CHR '' ''" n] by (auto simp: alnum_def)
  then have "split_once (CHR '' '') (show_hex n @ '' '' @ s) = Some (show_hex n, s)"
    by (simp add: split_once_append)
  then show ?thesis using False by (simp add: css_char_def hex_value_show)
qed

lemma read_escape_css: "read_css (escape_css s) = Some (chars s)"
proof -
  have "read_css (concat (map css_char ns)) = Some ns" for ns
    by (induction ns) (simp_all add: read_css_char)
  then show ?thesis by (simp add: escape_css_def)
qed

text \<open>No mode lets an angle bracket through.\<close>

definition angle :: "char \<Rightarrow> bool" where
  "angle c \<longleftrightarrow> c = CHR ''<'' \<or> c = CHR ''>''"

lemma escape_for_angle: "\<not> list_ex angle (escape_for mode s)"
proof (cases mode)
  case Html
  then show ?thesis using escape_html_absent [of s] by (auto simp: escape_for_def angle_def list_ex_iff)
next
  case JavaScript
  have "\<not> angle c" if "c \<in> set (js_char d)" for c d
    using that by (auto simp: js_char_def angle_def split: if_splits)
  then show ?thesis using JavaScript by (auto simp: escape_for_def escape_js_def list_ex_iff)
next
  case Css
  have "\<not> alnum (ord c)" if "angle c" for c using that by (auto simp: angle_def alnum_def)
  moreover have "alnum (ord c) \<or> c = CHR 0x5C \<or> c = CHR '' ''" if "c \<in> set (css_char n)" for c n
    using that show_hex_alnum [of c n] ord_char_of_alnum [of n] by (auto simp: css_char_def split: if_splits)
  moreover have "\<not> angle (CHR 0x5C)" "\<not> angle (CHR '' '')" by (simp_all add: angle_def)
  ultimately have "\<not> angle c" if "c \<in> set (css_char n)" for c n using that by metis
  then show ?thesis using Css by (auto simp: escape_for_def escape_css_def list_ex_iff)
qed

lemma filter_angle_escape [simp]: "filter angle (escape_for mode s) = []"
  using escape_for_angle [of mode s] by (auto simp: filter_empty_conv list_ex_iff)

end
