(* ===== verification/Expr_Parser.thy ===== *)
theory Expr_Parser
  imports Rust_Text "HOL-Library.Sublist"
begin

text \<open>
  \<open>kernleaf/src/expr.rs\<close>, the parsing half: the tokenizer and the precedence-climbing parser of
  the template expression language. The numbers of the language are the machine's \<open>f64\<close>, an
  opaque type \<open>'f\<close> here; the reading of a numeral is an argument. The parser's functions take a
  fuel that bounds their nesting and return \<open>None\<close> when it runs out, which the theorem on
  totality excludes for the fuel \<open>parse\<close> supplies. A nested expression text (inside a
  literal substitution, a URL or a message) is parsed through the argument \<open>sub\<close>, the parser itself at a smaller depth.
\<close>

section \<open>Syntax trees, tokens and errors\<close>

datatype un_op = Neg | Not

datatype bin_op = Or | And | Eq | Ne | Gt | Lt | Ge | Le | Add | Sub | Mul | Div | Rem

datatype 'f expr =
    Var "string list"
  | Str string
  | Num 'f
  | Bool bool
  | Null
  | Template "'f expr list"
  | Url string "(string \<times> 'f expr) list"
  | Msg string "'f expr list"
  | Util string string "'f expr list"
  | Unary un_op "'f expr"
  | Binary bin_op "'f expr" "'f expr"
  | Ternary "'f expr" "'f expr" "'f expr"
  | Elvis "'f expr" "'f expr"

datatype 'f tok =
    TNum 'f
  | TStr string
  | TIdent string
  | TTemplateRaw string
  | TUrlRaw string
  | TMsgRaw string
  | TTrue
  | TFalse
  | TNull
  | TDollarOpen
  | TStarOpen
  | TRBrace
  | TLParen
  | TRParen
  | TPlus
  | TMinus
  | TStar
  | TSlash
  | TPercent
  | TGt
  | TLt
  | TGe
  | TLe
  | TEqEq
  | TNe
  | TAnd
  | TOr
  | TNot
  | TQuestion
  | TColon
  | TElvis
  | TComma

datatype 'f expr_error =
    Unterminated_string
  | Unterminated_template
  | Unclosed_url
  | Unclosed_message
  | Single_equals
  | Bad_number string
  | Unexpected_character char
  | Empty_expression
  | Trailing_tokens string
  | Argument_list
  | Ternary_without_colon
  | Unexpected_end
  | Util_needs_method string
  | Util_needs_paren string
  | Unclosed_brace
  | Unclosed_paren
  | Unexpected_token "'f tok"
  | Malformed_path string
  | Url_parameter string
  | Empty_message_key
  | Unclosed_embed

section \<open>The tokenizer\<close>

definition is_digit :: "char \<Rightarrow> bool" where
  "is_digit c \<longleftrightarrow> 48 \<le> ord c \<and> ord c \<le> 57"

definition is_alphabetic :: "char \<Rightarrow> bool" where
  "is_alphabetic c \<longleftrightarrow> 65 \<le> ord c \<and> ord c \<le> 90 \<or> 97 \<le> ord c \<and> ord c \<le> 122"

definition is_ascii_whitespace :: "char \<Rightarrow> bool" where
  "is_ascii_whitespace c \<longleftrightarrow> ord c \<in> {9, 10, 12, 13, 32}"

definition is_ident_start :: "char \<Rightarrow> bool" where
  "is_ident_start c \<longleftrightarrow> is_alphabetic c \<or> c = CHR ''_''"

definition is_ident_part :: "char \<Rightarrow> bool" where
  "is_ident_part c \<longleftrightarrow> is_alphabetic c \<or> is_digit c \<or> c = CHR ''_'' \<or> c = CHR ''.''"

text \<open>The text up to the brace that closes depth 1, and the text after it.\<close>

fun scan_braced :: "nat \<Rightarrow> string \<Rightarrow> (string \<times> string) option" where
  "scan_braced depth [] = None"
| "scan_braced depth (c # s) =
     (if c = CHR ''{'' then map_option (\<lambda>(a, b). (c # a, b)) (scan_braced (depth + 1) s)
      else if c = CHR ''}'' then
        (if depth - 1 = 0 then Some ([], s) else map_option (\<lambda>(a, b). (c # a, b)) (scan_braced (depth - 1) s))
      else map_option (\<lambda>(a, b). (c # a, b)) (scan_braced depth s))"

text \<open>A dot belongs to a number only once, and only before another digit.\<close>

fun scan_number :: "bool \<Rightarrow> string \<Rightarrow> string \<times> string" where
  "scan_number seen_dot [] = ([], [])"
| "scan_number seen_dot (c # s) =
     (if is_digit c then (c # fst (scan_number seen_dot s), snd (scan_number seen_dot s))
      else if c = CHR ''.'' \<and> \<not> seen_dot then
        (if s = [] \<or> \<not> is_digit (hd s) then ([], c # s)
         else (c # fst (scan_number True s), snd (scan_number True s)))
      else ([], c # s))"

definition keyword :: "string \<Rightarrow> 'f tok" where
  "keyword word =
     (if word = ''and'' then TAnd else if word = ''or'' then TOr else if word = ''not'' then TNot
      else if word = ''gt'' then TGt else if word = ''lt'' then TLt else if word = ''ge'' then TGe
      else if word = ''le'' then TLe else if word = ''eq'' then TEqEq else if word = ''ne'' then TNe
      else if word = ''true'' then TTrue else if word = ''false'' then TFalse
      else if word = ''null'' then TNull else TIdent word)"

definition starts :: "char \<Rightarrow> string \<Rightarrow> bool" where
  "starts c s \<longleftrightarrow> s \<noteq> [] \<and> hd s = c"

text \<open>The token that starts with the byte \<open>c\<close>, and the bytes after it.\<close>

definition lex :: "(string \<Rightarrow> 'f option) \<Rightarrow> char \<Rightarrow> string \<Rightarrow> 'f expr_error + 'f tok \<times> string" where
  "lex parse_f64 c s =
     (if c = CHR 0x27 then
        (case split_once (CHR 0x27) s of None \<Rightarrow> Inl Unterminated_string | Some (x, rest) \<Rightarrow> Inr (TStr x, rest))
      else if c = CHR ''|'' then
        (case split_once (CHR ''|'') s of None \<Rightarrow> Inl Unterminated_template | Some (x, rest) \<Rightarrow> Inr (TTemplateRaw x, rest))
      else if c = CHR ''@'' \<and> starts (CHR ''{'') s then
        (case scan_braced 1 (tl s) of None \<Rightarrow> Inl Unclosed_url | Some (x, rest) \<Rightarrow> Inr (TUrlRaw x, rest))
      else if c = CHR ''#'' \<and> starts (CHR ''{'') s then
        (case scan_braced 1 (tl s) of None \<Rightarrow> Inl Unclosed_message | Some (x, rest) \<Rightarrow> Inr (TMsgRaw x, rest))
      else if c = CHR ''#'' then Inr (TIdent (c # takeWhile is_ident_part s), dropWhile is_ident_part s)
      else if c = CHR '','' then Inr (TComma, s)
      else if c = CHR ''$'' \<and> starts (CHR ''{'') s then Inr (TDollarOpen, tl s)
      else if c = CHR ''*'' \<and> starts (CHR ''{'') s then Inr (TStarOpen, tl s)
      else if c = CHR ''}'' then Inr (TRBrace, s)
      else if c = CHR ''('' then Inr (TLParen, s)
      else if c = CHR '')'' then Inr (TRParen, s)
      else if c = CHR ''+'' then Inr (TPlus, s)
      else if c = CHR ''-'' then Inr (TMinus, s)
      else if c = CHR ''*'' then Inr (TStar, s)
      else if c = CHR ''/'' then Inr (TSlash, s)
      else if c = CHR ''%'' then Inr (TPercent, s)
      else if c = CHR ''>'' then (if starts (CHR ''='') s then Inr (TGe, tl s) else Inr (TGt, s))
      else if c = CHR ''<'' then (if starts (CHR ''='') s then Inr (TLe, tl s) else Inr (TLt, s))
      else if c = CHR ''='' then (if starts (CHR ''='') s then Inr (TEqEq, tl s) else Inl Single_equals)
      else if c = CHR ''!'' then (if starts (CHR ''='') s then Inr (TNe, tl s) else Inr (TNot, s))
      else if c = CHR ''?'' then (if starts (CHR '':'') s then Inr (TElvis, tl s) else Inr (TQuestion, s))
      else if c = CHR '':'' then Inr (TColon, s)
      else if is_digit c then
        (let (text, rest) = scan_number False (c # s)
         in case parse_f64 text of None \<Rightarrow> Inl (Bad_number text) | Some n \<Rightarrow> Inr (TNum n, rest))
      else if is_ident_start c then
        Inr (keyword (c # takeWhile is_ident_part s), dropWhile is_ident_part s)
      else Inl (Unexpected_character c))"

lemma scan_braced_length: "scan_braced d s = Some (x, rest) \<Longrightarrow> length x + length rest < length s"
proof (induction d s arbitrary: x rest rule: scan_braced.induct)
  case (2 depth c s)
  then show ?case by (fastforce split: if_splits)
qed simp

lemma split_once_length: "split_once c s = Some (x, rest) \<Longrightarrow> length x + length rest < length s"
  by (auto simp: split_once_Some)

lemma scan_number_length: "length (snd (scan_number d s)) \<le> length s"
  by (induction d s rule: scan_number.induct) auto

lemma lex_length: "lex pf c s = Inr (t, rest) \<Longrightarrow> length rest \<le> length s"
  using scan_number_length [of False s]
  by (auto simp: lex_def starts_def length_dropWhile_le Let_def neq_Nil_conv split: if_splits option.splits prod.splits
      dest!: scan_braced_length split_once_length)

function tokenize :: "(string \<Rightarrow> 'f option) \<Rightarrow> string \<Rightarrow> 'f expr_error + 'f tok list" where
  "tokenize parse_f64 [] = Inr []"
| "tokenize parse_f64 (c # s) =
     (if is_ascii_whitespace c then tokenize parse_f64 s
      else
        (case lex parse_f64 c s of
           Inl e \<Rightarrow> Inl e
         | Inr (t, rest) \<Rightarrow>
             (case tokenize parse_f64 rest of Inl e \<Rightarrow> Inl e | Inr toks \<Rightarrow> Inr (t # toks))))"
  by pat_completeness auto
termination
  by (relation "measure (\<lambda>(pf, s). length s)") (auto dest: lex_length)

section \<open>The parser\<close>

text \<open>An answer: an error or a result, or \<open>None\<close> when the fuel of a recursion has run out.\<close>

type_synonym ('e, 'a) answer = "('e + 'a) option"

type_synonym ('f, 'a) outcome = "('f expr_error, 'a) answer"

definition ok :: "'a \<Rightarrow> ('e, 'a) answer" where
  "ok x = Some (Inr x)"

definition err :: "'e \<Rightarrow> ('e, 'a) answer" where
  "err e = Some (Inl e)"

definition seq :: "('e, 'a) answer \<Rightarrow> ('a \<Rightarrow> ('e, 'b) answer) \<Rightarrow> ('e, 'b) answer" where
  "seq r k = (case r of None \<Rightarrow> None | Some (Inl e) \<Rightarrow> Some (Inl e) | Some (Inr x) \<Rightarrow> k x)"

type_synonym 'f sub_parser = "string \<Rightarrow> ('f, 'f expr) outcome"

definition split_path :: "string \<Rightarrow> ('f, string list) outcome" where
  "split_path s =
     (let path = map trim (split_on (CHR ''.'') s)
      in if list_ex (\<lambda>seg. seg = []) path then err (Malformed_path s) else ok path)"

text \<open>Splitting at the commas outside braces, parentheses and string literals.\<close>

fun top_commas :: "int \<Rightarrow> bool \<Rightarrow> string \<Rightarrow> string \<Rightarrow> string list" where
  "top_commas depth in_str part [] = [part]"
| "top_commas depth in_str part (c # s) =
     (if c = CHR 0x27 then top_commas depth (\<not> in_str) (part @ [c]) s
      else if (c = CHR ''{'' \<or> c = CHR ''('') \<and> \<not> in_str then top_commas (depth + 1) in_str (part @ [c]) s
      else if (c = CHR ''}'' \<or> c = CHR '')'') \<and> \<not> in_str then top_commas (depth - 1) in_str (part @ [c]) s
      else if c = CHR '','' \<and> \<not> in_str \<and> depth = 0 then part # top_commas depth in_str [] s
      else top_commas depth in_str (part @ [c]) s)"

definition split_top_commas :: "string \<Rightarrow> string list" where
  "split_top_commas s = (if s = [] then [] else top_commas 0 False [] s)"

text \<open>The text before the first parenthesis and the text it encloses, when it closes at the end.\<close>

definition split_params :: "string \<Rightarrow> string \<times> string" where
  "split_params raw =
     (case position (\<lambda>c. c = CHR ''('') raw of
        Some open_at \<Rightarrow>
          if raw \<noteq> [] \<and> last raw = CHR '')'' then (take open_at raw, butlast (drop (open_at + 1) raw)) else (raw, [])
      | None \<Rightarrow> (raw, []))"

fun url_params :: "'f sub_parser \<Rightarrow> string list \<Rightarrow> ('f, (string \<times> 'f expr) list) outcome" where
  "url_params sub [] = ok []"
| "url_params sub (p # ps) =
     (let part = trim p
      in if part = [] then url_params sub ps
         else
           (case split_once (CHR ''='') part of
              None \<Rightarrow> err (Url_parameter part)
            | Some (name, v) \<Rightarrow>
                seq (sub (trim v)) (\<lambda>e. seq (url_params sub ps) (\<lambda>rest. ok ((trim name, e) # rest)))))"

definition parse_url :: "'f sub_parser \<Rightarrow> string \<Rightarrow> ('f, 'f expr) outcome" where
  "parse_url sub raw0 =
     (let (base, src) = split_params (trim raw0)
      in seq (url_params sub (split_top_commas src)) (\<lambda>params. ok (Url (trim base) params)))"

fun msg_args :: "'f sub_parser \<Rightarrow> string list \<Rightarrow> ('f, 'f expr list) outcome" where
  "msg_args sub [] = ok []"
| "msg_args sub (p # ps) =
     (if trim p = [] then msg_args sub ps
      else seq (sub (trim p)) (\<lambda>e. seq (msg_args sub ps) (\<lambda>rest. ok (e # rest))))"

definition parse_msg :: "'f sub_parser \<Rightarrow> string \<Rightarrow> ('f, 'f expr) outcome" where
  "parse_msg sub raw0 =
     (let (k, src) = split_params (trim raw0); key = trim k
      in if key = [] then err Empty_message_key
         else seq (msg_args sub (split_top_commas src)) (\<lambda>args. ok (Msg key args)))"

text \<open>The text before and after the first occurrence of a pattern.\<close>

fun split_once_str :: "string \<Rightarrow> string \<Rightarrow> (string \<times> string) option" where
  "split_once_str pat [] = (if pat = [] then Some ([], []) else None)"
| "split_once_str pat (c # s) =
     (if prefix pat (c # s) then Some ([], drop (length pat) (c # s))
      else map_option (\<lambda>(a, b). (c # a, b)) (split_once_str pat s))"

lemma split_once_str_Some: "split_once_str pat s = Some (a, b) \<Longrightarrow> s = a @ pat @ b"
  by (induction s arbitrary: a) (auto simp: prefix_def split: if_splits)

function template_parts :: "'f sub_parser \<Rightarrow> string \<Rightarrow> ('f, 'f expr list) outcome" where
  "template_parts sub rest =
     (case split_once_str ''${'' rest of
        None \<Rightarrow> ok (if rest \<noteq> [] then [Str rest] else [])
      | Some (text, after) \<Rightarrow>
          (case split_once (CHR ''}'') after of
             None \<Rightarrow> err Unclosed_embed
           | Some (inner, rest') \<Rightarrow>
               seq (sub inner) (\<lambda>e. seq (template_parts sub rest') (\<lambda>ps.
                 ok ((if text \<noteq> [] then [Str text] else []) @ e # ps)))))"
  by pat_completeness auto
termination
  by (relation "measure (\<lambda>(sub, s). length s)") (auto dest!: split_once_str_Some split_once_length)

declare template_parts.simps [simp del]

definition parse_template :: "'f sub_parser \<Rightarrow> string \<Rightarrow> ('f, 'f expr) outcome" where
  "parse_template sub raw = seq (template_parts sub raw) (\<lambda>ps. ok (Template ps))"

text \<open>
  The methods of the parser. Those that descend into a whole subexpression take it as the
  argument \<open>expr_of\<close>, which is \<open>ternary\<close> at a smaller depth.
\<close>

type_synonym 'f parser = "'f tok list \<Rightarrow> ('f, 'f expr \<times> 'f tok list) outcome"

definition eat :: "'f tok \<Rightarrow> 'f tok list \<Rightarrow> 'f tok list option" where
  "eat t ts = (if ts \<noteq> [] \<and> hd ts = t then Some (tl ts) else None)"

fun arg_loop :: "'f parser \<Rightarrow> nat \<Rightarrow> 'f tok list \<Rightarrow> ('f, 'f expr list \<times> 'f tok list) outcome" where
  "arg_loop expr_of 0 ts = None"
| "arg_loop expr_of (Suc n) ts =
     seq (expr_of ts) (\<lambda>(e, ts1).
       case eat TRParen ts1 of
         Some ts2 \<Rightarrow> ok ([e], ts2)
       | None \<Rightarrow>
           (case eat TComma ts1 of
              None \<Rightarrow> err Argument_list
            | Some ts2 \<Rightarrow> seq (arg_loop expr_of n ts2) (\<lambda>(es, ts3). ok (e # es, ts3))))"

definition arg_list :: "'f parser \<Rightarrow> 'f tok list \<Rightarrow> ('f, 'f expr list \<times> 'f tok list) outcome" where
  "arg_list expr_of ts =
     (case eat TRParen ts of Some ts1 \<Rightarrow> ok ([], ts1) | None \<Rightarrow> arg_loop expr_of (Suc (length ts)) ts)"

definition rsplit_once :: "char \<Rightarrow> string \<Rightarrow> (string \<times> string) option" where
  "rsplit_once c s = map_option (\<lambda>(a, b). (rev b, rev a)) (split_once c (rev s))"

definition util_call :: "'f parser \<Rightarrow> string \<Rightarrow> 'f parser" where
  "util_call expr_of util ts =
     (case rsplit_once (CHR ''.'') util of
        None \<Rightarrow> err (Util_needs_method util)
      | Some (obj, meth) \<Rightarrow>
          (case eat TLParen ts of
             None \<Rightarrow> err (Util_needs_paren util)
           | Some ts1 \<Rightarrow> seq (arg_list expr_of ts1) (\<lambda>(args, ts2). ok (Util obj meth args, ts2))))"

definition closed_by :: "'f tok \<Rightarrow> 'f expr_error \<Rightarrow> 'f parser \<Rightarrow> 'f parser" where
  "closed_by close e expr_of ts =
     seq (expr_of ts) (\<lambda>(inner, ts1). case eat close ts1 of None \<Rightarrow> err e | Some ts2 \<Rightarrow> ok (inner, ts2))"

definition primary_tok :: "'f parser \<Rightarrow> 'f sub_parser \<Rightarrow> 'f tok \<Rightarrow> 'f parser" where
  "primary_tok expr_of sub t ts =
     (case t of
        TNum x \<Rightarrow> ok (Num x, ts)
      | TStr s \<Rightarrow> ok (Str s, ts)
      | TTrue \<Rightarrow> ok (Bool True, ts)
      | TFalse \<Rightarrow> ok (Bool False, ts)
      | TNull \<Rightarrow> ok (Null, ts)
      | TIdent path \<Rightarrow>
          (case strip_prefix ''#'' path of
             Some util \<Rightarrow> util_call expr_of util ts
           | None \<Rightarrow> seq (split_path path) (\<lambda>p. ok (Var p, ts)))
      | TTemplateRaw raw \<Rightarrow> seq (parse_template sub raw) (\<lambda>e. ok (e, ts))
      | TUrlRaw raw \<Rightarrow> seq (parse_url sub raw) (\<lambda>e. ok (e, ts))
      | TMsgRaw raw \<Rightarrow> seq (parse_msg sub raw) (\<lambda>e. ok (e, ts))
      | TDollarOpen \<Rightarrow> closed_by TRBrace Unclosed_brace expr_of ts
      | TStarOpen \<Rightarrow> closed_by TRBrace Unclosed_brace expr_of ts
      | TLParen \<Rightarrow> closed_by TRParen Unclosed_paren expr_of ts
      | _ \<Rightarrow> err (Unexpected_token t))"

definition primary :: "'f parser \<Rightarrow> 'f sub_parser \<Rightarrow> 'f parser" where
  "primary expr_of sub ts = (case ts of [] \<Rightarrow> err Unexpected_end | t # ts1 \<Rightarrow> primary_tok expr_of sub t ts1)"

fun unary :: "'f parser \<Rightarrow> 'f sub_parser \<Rightarrow> 'f parser" where
  "unary expr_of sub [] = primary expr_of sub []"
| "unary expr_of sub (t # ts) =
     (if t = TMinus then seq (unary expr_of sub ts) (\<lambda>(e, ts1). ok (Unary Neg e, ts1))
      else if t = TNot then seq (unary expr_of sub ts) (\<lambda>(e, ts1). ok (Unary Not e, ts1))
      else primary expr_of sub (t # ts))"

text \<open>The loop of a level of left-associative operators over the next level.\<close>

fun left_loop :: "'f parser \<Rightarrow> ('f tok \<Rightarrow> bin_op option) \<Rightarrow> nat \<Rightarrow> 'f expr \<Rightarrow> 'f parser" where
  "left_loop p ops 0 e ts = None"
| "left_loop p ops (Suc n) e ts =
     (case ts of
        [] \<Rightarrow> ok (e, ts)
      | t # ts1 \<Rightarrow>
          (case ops t of
             None \<Rightarrow> ok (e, ts)
           | Some op \<Rightarrow> seq (p ts1) (\<lambda>(r, ts2). left_loop p ops n (Binary op e r) ts2)))"

definition left_assoc :: "('f tok \<Rightarrow> bin_op option) \<Rightarrow> 'f parser \<Rightarrow> 'f parser" where
  "left_assoc ops p ts = seq (p ts) (\<lambda>(e, ts1). left_loop p ops (Suc (length ts1)) e ts1)"

definition mul_op :: "'f tok \<Rightarrow> bin_op option" where
  "mul_op t = (case t of TStar \<Rightarrow> Some Mul | TSlash \<Rightarrow> Some Div | TPercent \<Rightarrow> Some Rem | _ \<Rightarrow> None)"

definition add_op :: "'f tok \<Rightarrow> bin_op option" where
  "add_op t = (case t of TPlus \<Rightarrow> Some Add | TMinus \<Rightarrow> Some Sub | _ \<Rightarrow> None)"

definition cmp_op :: "'f tok \<Rightarrow> bin_op option" where
  "cmp_op t = (case t of TGt \<Rightarrow> Some Gt | TLt \<Rightarrow> Some Lt | TGe \<Rightarrow> Some Ge | TLe \<Rightarrow> Some Le | _ \<Rightarrow> None)"

definition eq_op :: "'f tok \<Rightarrow> bin_op option" where
  "eq_op t = (case t of TEqEq \<Rightarrow> Some Eq | TNe \<Rightarrow> Some Ne | _ \<Rightarrow> None)"

definition and_op :: "'f tok \<Rightarrow> bin_op option" where
  "and_op t = (case t of TAnd \<Rightarrow> Some And | _ \<Rightarrow> None)"

definition or_op :: "'f tok \<Rightarrow> bin_op option" where
  "or_op t = (case t of TOr \<Rightarrow> Some Or | _ \<Rightarrow> None)"

definition multiplicative :: "'f parser \<Rightarrow> 'f sub_parser \<Rightarrow> 'f parser" where
  "multiplicative expr_of sub = left_assoc mul_op (unary expr_of sub)"

definition additive :: "'f parser \<Rightarrow> 'f sub_parser \<Rightarrow> 'f parser" where
  "additive expr_of sub = left_assoc add_op (multiplicative expr_of sub)"

definition comparison :: "'f parser \<Rightarrow> 'f sub_parser \<Rightarrow> 'f parser" where
  "comparison expr_of sub = left_assoc cmp_op (additive expr_of sub)"

definition equality :: "'f parser \<Rightarrow> 'f sub_parser \<Rightarrow> 'f parser" where
  "equality expr_of sub = left_assoc eq_op (comparison expr_of sub)"

definition and_level :: "'f parser \<Rightarrow> 'f sub_parser \<Rightarrow> 'f parser" where
  "and_level expr_of sub = left_assoc and_op (equality expr_of sub)"

definition or_level :: "'f parser \<Rightarrow> 'f sub_parser \<Rightarrow> 'f parser" where
  "or_level expr_of sub = left_assoc or_op (and_level expr_of sub)"

fun ternary :: "'f sub_parser \<Rightarrow> nat \<Rightarrow> 'f parser" where
  "ternary sub 0 ts = None"
| "ternary sub (Suc n) ts =
     seq (or_level (ternary sub n) sub ts) (\<lambda>(cond, ts1).
       case eat TElvis ts1 of
         Some ts2 \<Rightarrow> seq (ternary sub n ts2) (\<lambda>(alt, ts3). ok (Elvis cond alt, ts3))
       | None \<Rightarrow>
           (case eat TQuestion ts1 of
              Some ts2 \<Rightarrow>
                seq (ternary sub n ts2) (\<lambda>(th, ts3).
                  case eat TColon ts3 of
                    None \<Rightarrow> err Ternary_without_colon
                  | Some ts4 \<Rightarrow> seq (ternary sub n ts4) (\<lambda>(els, ts5). ok (Ternary cond th els, ts5)))
            | None \<Rightarrow> ok (cond, ts1)))"

fun parse_at :: "(string \<Rightarrow> 'f option) \<Rightarrow> nat \<Rightarrow> 'f sub_parser" where
  "parse_at parse_f64 0 s = None"
| "parse_at parse_f64 (Suc d) s =
     (case tokenize parse_f64 s of
        Inl e \<Rightarrow> err e
      | Inr toks \<Rightarrow>
          if toks = [] then err Empty_expression
          else seq (ternary (parse_at parse_f64 d) (Suc (length toks)) toks) (\<lambda>(e, ts).
                 if ts \<noteq> [] then err (Trailing_tokens s) else ok e))"

definition parse :: "(string \<Rightarrow> 'f option) \<Rightarrow> string \<Rightarrow> ('f, 'f expr) outcome" where
  "parse parse_f64 s = parse_at parse_f64 (Suc (length s)) s"

section \<open>The parser always answers\<close>

named_theorems outcome \<open>evaluation of outcomes\<close>

lemma seq_simps [simp, outcome]:
  "seq None k = None" "seq (Some (Inl e)) k = Some (Inl e)" "seq (Some (Inr x)) k = k x"
  "seq (ok x) k = k x" "seq (err e) k = err e"
  by (simp_all add: seq_def ok_def err_def)

lemma ok_err_simps [simp]:
  "ok x = Some r \<longleftrightarrow> r = Inr x" "err e = Some r \<longleftrightarrow> r = Inl e" "ok x \<noteq> None" "err e \<noteq> None"
  "ok x = ok y \<longleftrightarrow> x = y" "ok x \<noteq> err e" "err e \<noteq> ok x"
  by (auto simp: ok_def err_def)

definition answered :: "('e, 'a) answer \<Rightarrow> bool" where
  "answered r \<longleftrightarrow> r \<noteq> None"

lemma answered_simps [simp]:
  "answered (ok x)" "answered (err e)" "\<not> answered None" "answered (Some res)"
  "answered (seq r k) \<longleftrightarrow> answered r \<and> (\<forall>x. r = ok x \<longrightarrow> answered (k x))"
  by (auto simp: answered_def seq_def ok_def err_def split: option.splits sum.splits)

lemma seq_None: "seq r k = None \<longleftrightarrow> r = None \<or> (\<exists>x. r = ok x \<and> k x = None)"
  by (auto simp: seq_def ok_def split: option.splits sum.splits)

lemma seq_ok: "seq r k = ok y \<longleftrightarrow> (\<exists>x. r = ok x \<and> k x = ok y)"
  by (auto simp: seq_def ok_def split: option.splits sum.splits)

lemma eat_Some: "eat t ts = Some ts' \<longleftrightarrow> ts = t # ts'"
  by (cases ts) (auto simp: eat_def)

lemma eat_Cons [simp]: "eat t (x # ts) = (if x = t then Some ts else None)" "eat t [] = None"
  by (auto simp: eat_def)

text \<open>
  A parser below a length: on every token list that is shorter and whose tokens satisfy \<open>P\<close> it
  has an outcome, and a success leaves a proper suffix.
\<close>

definition answers_below :: "('f tok \<Rightarrow> bool) \<Rightarrow> nat \<Rightarrow> ('f tok list \<Rightarrow> ('f, 'a \<times> 'f tok list) outcome) \<Rightarrow> bool" where
  "answers_below P n p \<longleftrightarrow>
     (\<forall>ts. length ts < n \<longrightarrow> list_all P ts \<longrightarrow>
        answered (p ts) \<and> (\<forall>e ts'. p ts = ok (e, ts') \<longrightarrow> strict_suffix ts' ts))"

lemma answers_belowI:
  assumes "\<And>ts. length ts < n \<Longrightarrow> list_all P ts \<Longrightarrow> answered (p ts)"
    "\<And>ts e ts'. length ts < n \<Longrightarrow> list_all P ts \<Longrightarrow> p ts = ok (e, ts') \<Longrightarrow> strict_suffix ts' ts"
  shows "answers_below P n p"
  using assms by (auto simp: answers_below_def)

lemma answers_belowD:
  assumes "answers_below P n p" "length ts < n" "list_all P ts"
  shows "answered (p ts)" "p ts = ok (e, ts') \<Longrightarrow> strict_suffix ts' ts"
  using assms by (auto simp: answers_below_def)

lemma suffix_facts:
  "strict_suffix ts' ts \<Longrightarrow> length ts' < length ts" "strict_suffix ts' ts \<Longrightarrow> list_all P ts \<Longrightarrow> list_all P ts'"
  "suffix ts' ts \<Longrightarrow> length ts' \<le> length ts" "suffix ts' ts \<Longrightarrow> list_all P ts \<Longrightarrow> list_all P ts'"
  by (auto simp: strict_suffix_def suffix_def list_all_append)

lemma suffix_trans:
  "strict_suffix a b \<Longrightarrow> suffix b c \<Longrightarrow> strict_suffix a c" "suffix a b \<Longrightarrow> strict_suffix b c \<Longrightarrow> strict_suffix a c"
  "strict_suffix (x # a) b \<Longrightarrow> strict_suffix a b" "suffix (x # a) b \<Longrightarrow> strict_suffix a b" "strict_suffix a b \<Longrightarrow> suffix a b"
  "strict_suffix a b \<Longrightarrow> strict_suffix b c \<Longrightarrow> strict_suffix a c"
  by (auto simp: strict_suffix_def suffix_def)

lemma left_loop_answers:
  assumes p: "answers_below P n p"
  shows "length ts < m \<Longrightarrow> length ts < n \<Longrightarrow> list_all P ts \<Longrightarrow>
    answered (left_loop p ops m e ts) \<and> (\<forall>r ts'. left_loop p ops m e ts = ok (r, ts') \<longrightarrow> suffix ts' ts)"
proof (induction m arbitrary: e ts)
  case (Suc m)
  show ?case
  proof (cases ts)
    case (Cons t ts1)
    show ?thesis
    proof (cases "ops t")
      case (Some op)
      have a: "length ts1 < n" "list_all P ts1" "length ts1 < Suc m" using Suc.prems Cons by auto
      note d = answers_belowD [OF p a(1,2)]
      have ih: "answered (left_loop p ops m (Binary op e r) ts2) \<and>
          (\<forall>r' ts'. left_loop p ops m (Binary op e r) ts2 = ok (r', ts') \<longrightarrow> suffix ts' ts)"
        if "p ts1 = ok (r, ts2)" for r ts2
      proof -
        have s: "strict_suffix ts2 ts1" using d(2) [OF that] .
        then have "length ts2 < m" "length ts2 < n" "list_all P ts2"
          using suffix_facts(1,2) [OF s] a Suc.prems(1) Cons by auto
        from Suc.IH [OF this] suffix_trans(2) [OF _ s] Cons show ?thesis
          by (metis suffix_ConsI suffix_trans(5))
      qed
      then show ?thesis using d(1) Cons Some by (auto simp: seq_ok)
    qed (use Cons in auto)
  qed auto
qed simp

lemma left_assoc_answers:
  assumes p: "answers_below P n p"
  shows "answers_below P n (left_assoc ops p)"
proof (rule answers_belowI)
  fix ts :: "'a tok list" assume ts: "length ts < n" "list_all P ts"
  note d = answers_belowD [OF p ts]
  have l: "answered (left_loop p ops (Suc (length ts1)) e ts1) \<and>
      (\<forall>r ts'. left_loop p ops (Suc (length ts1)) e ts1 = ok (r, ts') \<longrightarrow> strict_suffix ts' ts)"
    if "p ts = ok (e, ts1)" for e ts1
    using left_loop_answers [OF p, of ts1 "Suc (length ts1)" ops e] suffix_facts(1,2) [OF d(2) [OF that]]
      suffix_trans(2) [OF _ d(2) [OF that]] ts by auto
  show "answered (left_assoc ops p ts)" using d(1) l by (auto simp: left_assoc_def)
  show "left_assoc ops p ts = ok (e, ts') \<Longrightarrow> strict_suffix ts' ts" for e ts'
    using l by (auto simp: left_assoc_def seq_ok)
qed

lemma arg_loop_ok:
  "arg_loop p (Suc m) ts = ok (r, ts') \<Longrightarrow>
     \<exists>e. p ts = ok (e, TRParen # ts') \<or> (\<exists>ts2 es. p ts = ok (e, TComma # ts2) \<and> arg_loop p m ts2 = ok (es, ts'))"
  by (auto simp: seq_ok eat_Some split: option.splits)

lemma arg_loop_answers:
  assumes p: "answers_below P n p"
  shows "length ts < m \<Longrightarrow> length ts < n \<Longrightarrow> list_all P ts \<Longrightarrow>
    answered (arg_loop p m ts) \<and> (\<forall>r ts'. arg_loop p m ts = ok (r, ts') \<longrightarrow> strict_suffix ts' ts)"
proof (induction m arbitrary: ts)
  case (Suc m)
  note d = answers_belowD [OF p Suc.prems(2,3)]
  have ih: "answered (arg_loop p m ts2) \<and> (\<forall>r' ts'. arg_loop p m ts2 = ok (r', ts') \<longrightarrow> strict_suffix ts' ts)"
    if "p ts = ok (e, TComma # ts2)" for e ts2
  proof -
    have s: "strict_suffix ts2 ts" by (rule suffix_trans(3) [OF d(2) [OF that]])
    have "length (TComma # ts2) < length ts" using suffix_facts(1) [OF d(2) [OF that]] .
    with s Suc.prems have "length ts2 < m" "length ts2 < n" "list_all P ts2" using suffix_facts(2) [OF s] by auto
    from Suc.IH [OF this] show ?thesis using suffix_trans(6) [OF _ s] by blast
  qed
  have "answered (arg_loop p (Suc m) ts)"
    using d(1) ih by (auto simp: eat_Some split: option.split)
  moreover have "strict_suffix ts' ts" if "arg_loop p (Suc m) ts = ok (r, ts')" for r ts'
    using arg_loop_ok [OF that]
  proof (elim exE disjE conjE)
    fix e assume "p ts = ok (e, TRParen # ts')"
    then show ?thesis by (rule d(2) [THEN suffix_trans(3)])
  next
    fix e ts2 es assume "p ts = ok (e, TComma # ts2)" "arg_loop p m ts2 = ok (es, ts')"
    with ih show ?thesis by blast
  qed
  ultimately show ?case by blast
qed simp

lemma arg_list_answers: "answers_below P n p \<Longrightarrow> answers_below P n (arg_list p)"
proof (rule answers_belowI)
  fix ts :: "'a tok list" assume p: "answers_below P n p" and ts: "length ts < n" "list_all P ts"
  note l = arg_loop_answers [OF p, of ts "Suc (length ts)"]
  show "answered (arg_list p ts)" using l ts by (auto simp: arg_list_def split: option.splits)
  show "arg_list p ts = ok (e, ts') \<Longrightarrow> strict_suffix ts' ts" for e ts'
    using l ts by (auto simp: arg_list_def eat_Some strict_suffix_def suffix_ConsI split: option.splits)
qed

lemma closed_by_answers: "answers_below P n p \<Longrightarrow> answers_below P n (closed_by t e p)"
proof (rule answers_belowI)
  fix ts :: "'a tok list" assume p: "answers_below P n p" and ts: "length ts < n" "list_all P ts"
  note d = answers_belowD [OF p ts]
  show "answered (closed_by t e p ts)" using d(1) by (auto simp: closed_by_def split: option.splits)
  show "closed_by t e p ts = ok (r, ts') \<Longrightarrow> strict_suffix ts' ts" for r ts'
    using d(2) suffix_trans(3) by (fastforce simp: closed_by_def seq_ok eat_Some split: option.splits)
qed

definition tok_ok :: "'f sub_parser \<Rightarrow> 'f tok \<Rightarrow> bool" where
  "tok_ok sub t \<longleftrightarrow>
     (case t of
        TTemplateRaw raw \<Rightarrow> answered (parse_template sub raw)
      | TUrlRaw raw \<Rightarrow> answered (parse_url sub raw)
      | TMsgRaw raw \<Rightarrow> answered (parse_msg sub raw)
      | _ \<Rightarrow> True)"

lemma util_call_answers:
  assumes p: "answers_below P n p" and ts: "length ts < n" "list_all P ts"
  shows "answered (util_call p util ts)" "util_call p util ts = ok (e, ts') \<Longrightarrow> strict_suffix ts' ts"
proof -
  have a: "answered (arg_list p ts1)" "arg_list p ts1 = ok (r, ts2) \<Longrightarrow> strict_suffix ts2 ts1" if "ts = TLParen # ts1" for ts1 r ts2
    using answers_belowD [OF arg_list_answers [OF p], of ts1] ts that by auto
  show "answered (util_call p util ts)"
    using a by (auto simp: util_call_def eat_Some split: option.splits)
  show "util_call p util ts = ok (e, ts') \<Longrightarrow> strict_suffix ts' ts"
  proof -
    assume "util_call p util ts = ok (e, ts')"
    then obtain ts1 r where "ts = TLParen # ts1" "arg_list p ts1 = ok (r, ts')"
      by (auto simp: util_call_def seq_ok eat_Some split: option.splits)
    with a(2) have "suffix ts' ts1" "ts = TLParen # ts1" using suffix_trans(5) by blast+
    then show ?thesis by (auto simp: strict_suffix_def suffix_def)
  qed
qed

lemma primary_tok_answers:
  assumes p: "answers_below (tok_ok sub) n p" and ts: "length ts < n" "list_all (tok_ok sub) ts" and t: "tok_ok sub t"
  shows "answered (primary_tok p sub t ts)" "primary_tok p sub t ts = ok (e, ts') \<Longrightarrow> suffix ts' ts"
proof -
  note u = util_call_answers [OF p ts] and c = answers_belowD [OF closed_by_answers [OF p] ts]
  have sp: "answered (split_path s)" for s by (auto simp: split_path_def Let_def)
  show "answered (primary_tok p sub t ts)"
    using t u(1) c(1) sp by (cases t) (auto simp: primary_tok_def tok_ok_def split: option.splits)
  show "primary_tok p sub t ts = ok (e, ts') \<Longrightarrow> suffix ts' ts"
    by (cases t) (auto simp: primary_tok_def seq_ok split: option.splits dest: u(2) c(2) suffix_trans(5))
qed

lemma unary_answers:
  assumes p: "answers_below (tok_ok sub) n p"
  shows "answers_below (tok_ok sub) (Suc n) (unary p sub)"
proof (rule answers_belowI)
  have "length ts < Suc n \<Longrightarrow> list_all (tok_ok sub) ts \<Longrightarrow>
      answered (unary p sub ts) \<and> (\<forall>e ts'. unary p sub ts = ok (e, ts') \<longrightarrow> strict_suffix ts' ts)" for ts
  proof (induction ts)
    case (Cons t ts)
    then have ih: "answered (unary p sub ts)" "\<And>e ts'. unary p sub ts = ok (e, ts') \<Longrightarrow> strict_suffix ts' ts" by auto
    have c: "suffix ts' ts \<Longrightarrow> strict_suffix ts' (t # ts)" for ts' by (auto simp: strict_suffix_def suffix_def)
    show ?case
      using ih primary_tok_answers [OF p, of ts t] Cons.prems c suffix_trans(5)
      by (auto simp: seq_ok primary_def)
  qed (simp add: primary_def)
  then show "length ts < Suc n \<Longrightarrow> list_all (tok_ok sub) ts \<Longrightarrow> answered (unary p sub ts)"
    "length ts < Suc n \<Longrightarrow> list_all (tok_ok sub) ts \<Longrightarrow> unary p sub ts = ok (e, ts') \<Longrightarrow> strict_suffix ts' ts" for ts e ts'
    by blast+
qed

lemma or_level_answers:
  "answers_below (tok_ok sub) n p \<Longrightarrow> answers_below (tok_ok sub) (Suc n) (or_level p sub)"
  unfolding or_level_def and_level_def equality_def comparison_def additive_def multiplicative_def
  by (intro left_assoc_answers unary_answers)

lemma ternary_ok:
  "ternary sub (Suc n) ts = ok (r, ts') \<Longrightarrow>
     \<exists>c. or_level (ternary sub n) sub ts = ok (c, ts') \<or>
       (\<exists>x ts2 e. or_level (ternary sub n) sub ts = ok (c, x # ts2) \<and>
          (ternary sub n ts2 = ok (e, ts') \<or>
           (\<exists>ts4 e'. ternary sub n ts2 = ok (e, TColon # ts4) \<and> ternary sub n ts4 = ok (e', ts'))))"
  by (auto simp: seq_ok eat_Some split: option.splits) blast

lemma ternary_answers: "answers_below (tok_ok sub) n (ternary sub n)"
proof (induction n)
  case 0
  then show ?case by (simp add: answers_below_def)
next
  case (Suc n)
  show ?case
  proof (rule answers_belowI)
    fix ts assume ts: "length ts < Suc n" "list_all (tok_ok sub) ts"
    note o = answers_belowD [OF or_level_answers [OF Suc] ts]
    have t: "answered (ternary sub n ts2)" "\<And>e ts3. ternary sub n ts2 = ok (e, ts3) \<Longrightarrow> strict_suffix ts3 ts2"
      if "strict_suffix ts2 ts" for ts2
      using answers_belowD [OF Suc, of ts2] suffix_facts(1,2) [OF that] ts by auto
    have s: "strict_suffix ts2 ts" if "or_level (ternary sub n) sub ts = ok (e, x # ts2)" for e x ts2
      by (rule suffix_trans(3) [OF o(2) [OF that]])
    have s2: "strict_suffix ts3 ts"
      if "or_level (ternary sub n) sub ts = ok (e, x # ts2)" "ternary sub n ts2 = ok (e', ts3)" for e x ts2 e' ts3
      by (rule suffix_trans(6) [OF t(2) [OF s [OF that(1)] that(2)] s [OF that(1)]])
    show "answered (ternary sub (Suc n) ts)"
      using o(1) t(1) [OF s] t(1) [OF suffix_trans(3) [OF s2]] by (auto simp: eat_Some split: option.splits)
    show "strict_suffix ts' ts" if "ternary sub (Suc n) ts = ok (e, ts')" for e ts'
      using ternary_ok [OF that]
    proof (elim exE disjE conjE)
      fix c x ts2 e ts4 e'
      assume a: "or_level (ternary sub n) sub ts = ok (c, x # ts2)" "ternary sub n ts2 = ok (e, TColon # ts4)"
        "ternary sub n ts4 = ok (e', ts')"
      have ts4: "strict_suffix ts4 ts" by (rule suffix_trans(3) [OF s2 [OF a(1,2)]])
      show ?thesis by (rule suffix_trans(6) [OF t(2) [OF ts4 a(3)] ts4])
    qed (use o(2) s2 in blast)+
  qed
qed

text \<open>The nested texts of a token are shorter than the text it was read from.\<close>

fun raw_text :: "'f tok \<Rightarrow> string" where
  "raw_text (TTemplateRaw raw) = raw"
| "raw_text (TUrlRaw raw) = raw"
| "raw_text (TMsgRaw raw) = raw"
| "raw_text _ = []"

lemma raw_text_keyword [simp]: "raw_text (keyword w) = []"
  by (simp add: keyword_def)

lemma lex_raw: "lex pf c s = Inr (t, rest) \<Longrightarrow> length (raw_text t) \<le> length s"
  by (auto simp: lex_def starts_def Let_def neq_Nil_conv split: if_splits option.splits prod.splits
      dest!: scan_braced_length split_once_length)

lemma tokenize_raw: "tokenize pf s = Inr ts \<Longrightarrow> list_all (\<lambda>t. length (raw_text t) < length s) ts"
proof (induction pf s arbitrary: ts rule: tokenize.induct)
  case (2 pf c s)
  show ?case
  proof (cases "is_ascii_whitespace c")
    case True
    then have "list_all (\<lambda>t. length (raw_text t) < length s) ts" using "2.IH"(1) "2.prems" by simp
    then show ?thesis by (rule list.pred_mono_strong) simp
  next
    case False
    then obtain t rest us where l: "lex pf c s = Inr (t, rest)" "tokenize pf rest = Inr us" "ts = t # us"
      using "2.prems" by (auto split: sum.splits)
    have "list_all (\<lambda>t. length (raw_text t) < length rest) us" using "2.IH"(2) False l by auto
    then have "list_all (\<lambda>t. length (raw_text t) < length (c # s)) us"
      by (rule list.pred_mono_strong) (use lex_length [OF l(1)] in simp)
    with lex_raw [OF l(1)] l(3) show ?thesis by simp
  qed
qed simp

definition answers_texts :: "nat \<Rightarrow> 'f sub_parser \<Rightarrow> bool" where
  "answers_texts n sub \<longleftrightarrow> (\<forall>x. length x < n \<longrightarrow> answered (sub x))"

lemma template_parts_answers: "answers_texts n sub \<Longrightarrow> length raw < n \<Longrightarrow> answered (template_parts sub raw)"
proof (induction sub raw rule: template_parts.induct)
  case (1 sub rest)
  show ?case
  proof (cases "split_once_str ''${'' rest")
    case (Some p)
    obtain lit after where p: "p = (lit, after)" by (cases p)
    note sp = Some
    have l: "length after < length rest" using Some p split_once_str_Some by force
    show ?thesis
    proof (cases "split_once (CHR ''}'') after")
      case (Some q)
      obtain inner rest' where q: "q = (inner, rest')" by (cases q)
      have "length inner < n" "length rest' < n" using split_once_length Some q l "1.prems"(2) by fastforce+
      then have "answered (sub inner)" "answered (template_parts sub rest')"
        using "1.prems"(1) "1.IH" [OF sp p [symmetric] Some q [symmetric]]
        by (auto simp: answers_texts_def)
      then show ?thesis
        by (subst template_parts.simps) (simp add: sp p Some q)
    qed (subst template_parts.simps, simp add: Some p)
  qed (subst template_parts.simps, simp)
qed

lemma top_commas_length: "part \<in> set (top_commas d b acc s) \<Longrightarrow> length part \<le> length acc + length s"
  by (induction d b acc s rule: top_commas.induct) (auto split: if_splits)

lemma split_params_length: "split_params raw = (a, src) \<Longrightarrow> length src \<le> length raw"
  by (auto simp: split_params_def split: option.splits if_splits)

lemma param_parts_length:
  assumes "split_params (trim raw) = (a, src)" "p \<in> set (split_top_commas src)"
  shows "length p \<le> length raw"
  using split_params_length [OF assms(1)] length_trim [of raw] assms(2) top_commas_length [of p 0 False "[]" src]
  by (auto simp: split_top_commas_def split: if_splits)

lemma url_params_answers:
  "answers_texts n sub \<Longrightarrow> list_all (\<lambda>p. length p < n) ps \<Longrightarrow> answered (url_params sub ps)"
proof (induction sub ps rule: url_params.induct)
  case (2 sub p ps)
  have "answered (sub (trim v))" if "split_once (CHR ''='') (trim p) = Some (k, v)" for k v
    using split_once_length [OF that] length_trim [of p] length_trim [of v] "2.prems" by (simp add: answers_texts_def)
  with 2 show ?case by (auto simp: Let_def split: option.splits)
qed simp

lemma msg_args_answers:
  "answers_texts n sub \<Longrightarrow> list_all (\<lambda>p. length p < n) ps \<Longrightarrow> answered (msg_args sub ps)"
proof (induction sub ps rule: msg_args.induct)
  case (2 sub p ps)
  have "answered (sub (trim p))" using length_trim [of p] "2.prems" by (simp add: answers_texts_def)
  with 2 show ?case by auto
qed simp

lemma tok_ok_answers:
  assumes "answers_texts n sub" "length (raw_text t) < n"
  shows "tok_ok sub t"
proof -
  have p: "list_all (\<lambda>p. length p < n) (split_top_commas src)" if "split_params (trim (raw_text t)) = (a, src)" for a src
    using param_parts_length [OF that] assms(2) by (auto simp: list_all_iff dest: le_less_trans)
  have u: "answered (url_params sub (split_top_commas src))" "answered (msg_args sub (split_top_commas src))"
    if "split_params (trim (raw_text t)) = (a, src)" for a src
    using url_params_answers [OF assms(1) p [OF that]] msg_args_answers [OF assms(1) p [OF that]] by auto
  show ?thesis
    using u template_parts_answers [OF assms]
    by (cases t) (auto simp: tok_ok_def parse_template_def parse_url_def parse_msg_def Let_def split: prod.splits)
qed

lemma parse_at_answers: "answers_texts d (parse_at pf d)"
proof (induction d)
  case (Suc d)
  have "answered (parse_at pf (Suc d) s)" if s: "length s < Suc d" for s
  proof (cases "tokenize pf s")
    case (Inr toks)
    have "list_all (tok_ok (parse_at pf d)) toks"
      using tokenize_raw [OF Inr] tok_ok_answers [OF Suc] s by (auto elim!: list.pred_mono_strong)
    then have "answered (ternary (parse_at pf d) (Suc (length toks)) toks)"
      using answers_belowD(1) [OF ternary_answers, of toks "Suc (length toks)"] by simp
    then show ?thesis using Inr by auto
  qed simp
  then show ?case by (simp add: answers_texts_def)
qed (simp add: answers_texts_def)

section \<open>Printing\<close>

text \<open>
  A reference printer with as few parentheses as the grammar allows: the precedence levels are
  0 for the conditional, 1 to 6 for the binary operators from \<open>or\<close> to \<open>*\<close>, 7 for the prefix
  operators and 8 for primaries. Numbers are printed by an argument.
\<close>

fun op_level :: "bin_op \<Rightarrow> nat" where
  "op_level Or = 1" | "op_level And = 2" | "op_level Eq = 3" | "op_level Ne = 3"
| "op_level Gt = 4" | "op_level Lt = 4" | "op_level Ge = 4" | "op_level Le = 4"
| "op_level Add = 5" | "op_level Sub = 5" | "op_level Mul = 6" | "op_level Div = 6" | "op_level Rem = 6"

fun op_tok :: "bin_op \<Rightarrow> 'f tok" where
  "op_tok Or = TOr" | "op_tok And = TAnd" | "op_tok Eq = TEqEq" | "op_tok Ne = TNe"
| "op_tok Gt = TGt" | "op_tok Lt = TLt" | "op_tok Ge = TGe" | "op_tok Le = TLe"
| "op_tok Add = TPlus" | "op_tok Sub = TMinus" | "op_tok Mul = TStar" | "op_tok Div = TSlash" | "op_tok Rem = TPercent"

fun prec :: "'f expr \<Rightarrow> nat" where
  "prec (Binary op l r) = op_level op"
| "prec (Unary op e) = 7"
| "prec (Ternary c a b) = 0"
| "prec (Elvis a b) = 0"
| "prec _ = 8"

definition wrap :: "bool \<Rightarrow> 'f tok list \<Rightarrow> 'f tok list" where
  "wrap b ts = (if b then TLParen # ts @ [TRParen] else ts)"

fun commas :: "'f tok list list \<Rightarrow> 'f tok list" where
  "commas [] = []"
| "commas [a] = a"
| "commas (a # b # as) = a @ TComma # commas (b # as)"

fun toks :: "nat \<Rightarrow> 'f expr \<Rightarrow> 'f tok list" where
  "toks k (Var p) = [TIdent (join ''.'' p)]"
| "toks k (Str s) = [TStr s]"
| "toks k (Num x) = [TNum x]"
| "toks k (Bool b) = [if b then TTrue else TFalse]"
| "toks k Null = [TNull]"
| "toks k (Util obj meth args) = TIdent (''#'' @ obj @ ''.'' @ meth) # TLParen # commas (map (toks 0) args) @ [TRParen]"
| "toks k (Unary op e) = wrap (7 < k) ((case op of Neg \<Rightarrow> TMinus | Not \<Rightarrow> TNot) # toks 7 e)"
| "toks k (Binary op l r) =
     wrap (op_level op < k) (toks (op_level op) l @ op_tok op # toks (op_level op + 1) r)"
| "toks k (Ternary c a b) = wrap (0 < k) (toks 1 c @ TQuestion # toks 0 a @ TColon # toks 0 b)"
| "toks k (Elvis a b) = wrap (0 < k) (toks 1 a @ TElvis # toks 0 b)"
| "toks k _ = []"

definition path_ok :: "string list \<Rightarrow> bool" where
  "path_ok p \<longleftrightarrow> p \<noteq> [] \<and> list_all (\<lambda>seg. seg \<noteq> [] \<and> list_all (\<lambda>c. is_ident_part c \<and> c \<noteq> CHR ''.'') seg) p \<and>
     is_ident_start (hd (hd p)) \<and> (keyword (join ''.'' p) :: unit tok) = TIdent (join ''.'' p)"

definition numeral_text :: "string \<Rightarrow> bool" where
  "numeral_text t \<longleftrightarrow>
     (case split_once (CHR ''.'') t of
        None \<Rightarrow> t \<noteq> [] \<and> list_all is_digit t
      | Some (a, b) \<Rightarrow> a \<noteq> [] \<and> b \<noteq> [] \<and> list_all is_digit (a @ b))"

fun printable :: "('f \<Rightarrow> string) \<Rightarrow> (string \<Rightarrow> 'f option) \<Rightarrow> 'f expr \<Rightarrow> bool" where
  "printable fmt pf (Var p) = path_ok p"
| "printable fmt pf (Str s) = (CHR 0x27 \<notin> set s)"
| "printable fmt pf (Num x) = (numeral_text (fmt x) \<and> pf (fmt x) = Some x)"
| "printable fmt pf (Bool b) = True"
| "printable fmt pf Null = True"
| "printable fmt pf (Util obj meth args) =
     (list_all is_ident_part (obj @ meth) \<and> CHR ''.'' \<notin> set meth \<and> list_all (printable fmt pf) args)"
| "printable fmt pf (Unary op e) = printable fmt pf e"
| "printable fmt pf (Binary op l r) = (printable fmt pf l \<and> printable fmt pf r)"
| "printable fmt pf (Ternary c a b) = (printable fmt pf c \<and> printable fmt pf a \<and> printable fmt pf b)"
| "printable fmt pf (Elvis a b) = (printable fmt pf a \<and> printable fmt pf b)"
| "printable fmt pf _ = False"

section \<open>The parser inverts the printer\<close>

declare ternary.simps(2) [simp del]

definition ops_of :: "nat \<Rightarrow> 'f tok \<Rightarrow> bin_op option" where
  "ops_of k = (if k = 1 then or_op else if k = 2 then and_op else if k = 3 then eq_op else if k = 4 then cmp_op
     else if k = 5 then add_op else if k = 6 then mul_op else (\<lambda>t. None))"

definition lvl :: "nat \<Rightarrow> 'f parser \<Rightarrow> 'f sub_parser \<Rightarrow> 'f parser" where
  "lvl k = (if k = 1 then or_level else if k = 2 then and_level else if k = 3 then equality else if k = 4 then comparison
     else if k = 5 then additive else if k = 6 then multiplicative else if k = 7 then unary else primary)"

lemma lvl_left: "1 \<le> k \<Longrightarrow> k \<le> 6 \<Longrightarrow> lvl k p sub = left_assoc (ops_of k) (lvl (k + 1) p sub)"
proof -
  assume "1 \<le> k" "k \<le> 6"
  then consider "k = 1" | "k = 2" | "k = 3" | "k = 4" | "k = 5" | "k = 6" by linarith
  then show ?thesis
    by cases (simp_all add: lvl_def ops_of_def or_level_def and_level_def equality_def comparison_def additive_def multiplicative_def)
qed

lemmas op_defs = ops_of_def or_op_def and_op_def eq_op_def cmp_op_def add_op_def mul_op_def

lemma ops_of_tok: "ops_of k (op_tok op) = (if k = op_level op then Some op else None)"
  by (cases op) (simp_all add: op_defs)

text \<open>A token list at which the parser of level \<open>k\<close> stops.\<close>

definition stops :: "nat \<Rightarrow> 'f tok list \<Rightarrow> bool" where
  "stops k ts \<longleftrightarrow>
     (case ts of [] \<Rightarrow> True
      | t # _ \<Rightarrow> (\<forall>j. k \<le> j \<longrightarrow> ops_of j t = None) \<and> (k = 0 \<longrightarrow> t \<noteq> TElvis \<and> t \<noteq> TQuestion))"

lemma stops_mono: "stops k ts \<Longrightarrow> k \<le> k' \<Longrightarrow> stops k' ts"
  by (auto simp: stops_def split: list.splits)

lemma stops_tok:
  "stops k (TRParen # ts)" "stops k (TComma # ts)" "stops k (TColon # ts)" "stops k []"
  "stops (Suc k) (TQuestion # ts)" "stops (Suc k) (TElvis # ts)"
  by (auto simp: stops_def op_defs)

lemma stops_op: "op_level op < k \<Longrightarrow> stops k (op_tok op # ts)"
  by (auto simp: stops_def ops_of_tok)

lemma left_loop_stops: "stops k ts \<Longrightarrow> left_loop q (ops_of k) (Suc m) e ts = ok (e, ts)"
  by (auto simp: stops_def split: list.splits)

lemma lvl_descend:
  assumes "lvl k' p sub ts = ok (e, rest)" "k \<le> k'" "1 \<le> k" "k' \<le> 7" "stops k rest"
  shows "lvl k p sub ts = ok (e, rest)"
  using assms(2,1,3,4,5)
proof (induction k rule: inc_induct)
  case (step k)
  then have "lvl (Suc k) p sub ts = ok (e, rest)" using stops_mono [of k rest "Suc k"] by simp
  with step.prems step.hyps show ?case
    using left_loop_stops [OF step.prems(4)] by (simp add: lvl_left left_assoc_def)
qed simp

lemma unary_primary: "t \<noteq> TMinus \<Longrightarrow> t \<noteq> TNot \<Longrightarrow> unary p sub (t # ts) = primary_tok p sub t ts"
  by (simp add: primary_def)

lemma op_level_range: "1 \<le> op_level op" "op_level op \<le> 6"
  by (cases op; simp)+

lemma toks_same: "(prec e < k \<longleftrightarrow> prec e < k') \<Longrightarrow> toks k e = toks k' e"
  by (cases e) (auto simp: wrap_def)

lemma toks_wrapped: "prec e < k \<Longrightarrow> k \<le> 7 \<Longrightarrow> toks k e = TLParen # toks 0 e @ [TRParen]"
  by (cases e) (auto simp: wrap_def)

text \<open>
  What the induction carries for an expression: at the top (\<open>reads0\<close>), at a level (\<open>reads\<close>), and
  for the left spine of a level (\<open>spine\<close>): after the first operand the loop gets to the whole
  expression in as many rounds as it has operators.
\<close>

definition reads0 :: "'f sub_parser \<Rightarrow> nat \<Rightarrow> 'f expr \<Rightarrow> bool" where
  "reads0 sub n e \<longleftrightarrow> (\<forall>rest. stops 0 rest \<longrightarrow> ternary sub (Suc n) (toks 0 e @ rest) = ok (e, rest))"

definition reads :: "'f sub_parser \<Rightarrow> nat \<Rightarrow> nat \<Rightarrow> 'f expr \<Rightarrow> bool" where
  "reads sub n k e \<longleftrightarrow> (\<forall>rest. stops k rest \<longrightarrow> lvl k (ternary sub n) sub (toks k e @ rest) = ok (e, rest))"

definition spine :: "'f sub_parser \<Rightarrow> nat \<Rightarrow> nat \<Rightarrow> 'f expr \<Rightarrow> bool" where
  "spine sub n k e \<longleftrightarrow>
     (\<forall>rest. stops (k + 1) rest \<longrightarrow>
        (\<exists>x ts j. lvl (k + 1) (ternary sub n) sub (toks k e @ rest) = ok (x, ts) \<and> length rest + j \<le> length ts \<and>
           (\<forall>m. left_loop (lvl (k + 1) (ternary sub n) sub) (ops_of k) (m + j) x ts =
                left_loop (lvl (k + 1) (ternary sub n) sub) (ops_of k) m e rest)))"

definition good :: "'f sub_parser \<Rightarrow> 'f expr \<Rightarrow> bool" where
  "good sub e \<longleftrightarrow>
     (\<forall>n k. length (toks k e) \<le> n \<longrightarrow>
        (k = 0 \<longrightarrow> reads0 sub n e) \<and> (1 \<le> k \<and> k \<le> 7 \<longrightarrow> reads sub n k e) \<and> (1 \<le> k \<and> k \<le> 6 \<longrightarrow> spine sub n k e))"

lemma goodD:
  assumes "good sub e" "length (toks k e) \<le> n"
  shows "k = 0 \<Longrightarrow> reads0 sub n e" "1 \<le> k \<Longrightarrow> k \<le> 7 \<Longrightarrow> reads sub n k e" "1 \<le> k \<Longrightarrow> k \<le> 6 \<Longrightarrow> spine sub n k e"
  using assms by (auto simp: good_def)

lemma spine_reads: "spine sub n k e \<Longrightarrow> 1 \<le> k \<Longrightarrow> k \<le> 6 \<Longrightarrow> reads sub n k e"
  unfolding reads_def
proof (intro allI impI)
  fix rest :: "'a tok list" assume s: "spine sub n k e" and k: "1 \<le> k" "k \<le> 6" and st: "stops k rest"
  let ?q = "lvl (k + 1) (ternary sub n) sub"
  have "stops (k + 1) rest" using stops_mono [OF st] by simp
  with s obtain x ts j where *: "?q (toks k e @ rest) = ok (x, ts)" "length rest + j \<le> length ts"
      "left_loop ?q (ops_of k) (m + j) x ts = left_loop ?q (ops_of k) m e rest" for m
    unfolding spine_def by blast
  have "left_loop ?q (ops_of k) (Suc (length ts)) x ts = ok (e, rest)"
    using *(3) [of "Suc (length ts - j)"] *(2) left_loop_stops [OF st] by simp
  then show "lvl k (ternary sub n) sub (toks k e @ rest) = ok (e, rest)"
    using *(1) by (simp add: lvl_left [OF k] left_assoc_def)
qed

lemma reads_spine:
  assumes "reads sub n (k + 1) e" "prec e \<noteq> k"
  shows "spine sub n k e"
proof -
  have "toks k e = toks (k + 1) e" by (rule toks_same) (use assms(2) in linarith)
  with assms(1) show ?thesis unfolding spine_def reads_def by (metis add.right_neutral le_refl)
qed

lemma reads_descend:
  assumes "reads sub n k' e" "1 \<le> k" "k \<le> k'" "k' \<le> 7" "toks k e = toks k' e"
  shows "reads sub n k e"
  unfolding reads_def
proof (intro allI impI)
  fix rest :: "'a tok list" assume st: "stops k rest"
  then have "lvl k' (ternary sub n) sub (toks k' e @ rest) = ok (e, rest)"
    using assms(1,3) stops_mono unfolding reads_def by blast
  then show "lvl k (ternary sub n) sub (toks k e @ rest) = ok (e, rest)"
    unfolding assms(5) by (rule lvl_descend [OF _ assms(3,2,4) st])
qed

lemma reads0_of_reads:
  assumes "reads sub n 1 e" "toks 0 e = toks 1 e"
  shows "reads0 sub n e"
  unfolding reads0_def
proof (intro allI impI)
  fix rest :: "'a tok list" assume st: "stops 0 rest"
  then have "lvl 1 (ternary sub n) sub (toks 1 e @ rest) = ok (e, rest)"
    using assms(1) stops_mono [of 0 rest 1] unfolding reads_def by simp
  moreover have "eat TElvis rest = None" "eat TQuestion rest = None"
    using st by (auto simp: stops_def split: list.splits)
  ultimately show "ternary sub (Suc n) (toks 0 e @ rest) = ok (e, rest)" by (simp add: lvl_def assms(2) ternary.simps(2))
qed

lemma reads_wrapped:
  assumes "reads0 sub n e" "prec e < 7"
  shows "reads sub (Suc n) 7 e"
  unfolding reads_def
proof (intro allI impI)
  fix rest :: "'a tok list" assume "stops 7 rest"
  have "ternary sub (Suc n) (toks 0 e @ TRParen # rest) = ok (e, TRParen # rest)"
    using assms(1) stops_tok(1) unfolding reads0_def by blast
  then show "lvl 7 (ternary sub (Suc n)) sub (toks 7 e @ rest) = ok (e, rest)"
    using assms(2) by (simp add: lvl_def toks_wrapped unary_primary primary_tok_def closed_by_def del: unary.simps)
qed

lemma good_high:
  assumes "7 \<le> prec e" "\<And>n. length (toks 7 e) \<le> n \<Longrightarrow> reads sub n 7 e"
  shows "good sub e"
proof -
  have t: "toks k e = toks 7 e" if "k \<le> 7" for k by (rule toks_same) (use that assms(1) in simp)
  have r: "reads sub n k e" if "length (toks 7 e) \<le> n" "1 \<le> k" "k \<le> 7" for n k
    using reads_descend [OF assms(2) [OF that(1)] that(2,3)] t [OF that(3)] by simp
  show ?thesis unfolding good_def
  proof (intro allI impI conjI)
    fix n k assume l: "length (toks k e) \<le> n"
    show "reads0 sub n e" if "k = 0"
    proof (rule reads0_of_reads)
      show "reads sub n 1 e" using r [of n 1] l that t [of 0] by simp
      show "toks 0 e = toks 1 e" using t [of 0] t [of 1] by simp
    qed
    show r': "reads sub n k e" if "1 \<le> k \<and> k \<le> 7" using r [of n k] l t [of k] that by simp
    show "spine sub n k e" if "1 \<le> k \<and> k \<le> 6"
    proof (rule reads_spine)
      show "reads sub n (k + 1) e" using r [of n "k + 1"] l t [of k] that by simp
      show "prec e \<noteq> k" using that assms(1) by linarith
    qed
  qed
qed

lemma good_low:
  assumes "prec e = 0" "\<And>n. length (toks 0 e) \<le> n \<Longrightarrow> reads0 sub n e"
  shows "good sub e"
proof -
  have t: "toks k e = toks 7 e" if "1 \<le> k" "k \<le> 7" for k by (rule toks_same) (use that assms(1) in simp)
  have r7: "reads sub n 7 e" if "length (toks 7 e) \<le> n" for n
  proof -
    have "length (toks 0 e) \<le> n - 1" "n = Suc (n - 1)" using that assms(1) by (simp_all add: toks_wrapped)
    then show ?thesis using reads_wrapped [OF assms(2), of "n - 1"] assms(1) by simp
  qed
  have r: "reads sub n k e" if "length (toks 7 e) \<le> n" "1 \<le> k" "k \<le> 7" for n k
    using reads_descend [OF r7 [OF that(1)] that(2,3)] t [OF that(2,3)] by simp
  show ?thesis unfolding good_def
  proof (intro allI impI conjI)
    fix n k assume l: "length (toks k e) \<le> n"
    show "reads0 sub n e" if "k = 0" using assms(2) l that by simp
    show "reads sub n k e" if "1 \<le> k \<and> k \<le> 7" using r [of n k] l t [of k] that by simp
    show "spine sub n k e" if "1 \<le> k \<and> k \<le> 6"
    proof (rule reads_spine)
      show "reads sub n (k + 1) e" using r [of n "k + 1"] l t [of k] that by simp
      show "prec e \<noteq> k" using that assms(1) by linarith
    qed
  qed
qed

lemma spine_binary:
  assumes "spine sub n k l" "reads sub n (k + 1) r" "op_level op = k"
  shows "spine sub n k (Binary op l r)"
  unfolding spine_def
proof (intro allI impI)
  let ?q = "lvl (k + 1) (ternary sub n) sub"
  fix rest :: "'a tok list" assume st: "stops (k + 1) rest"
  let ?rest = "op_tok op # toks (k + 1) r @ rest"
  have "stops (k + 1) ?rest" using assms(3) by (intro stops_op) simp
  with assms(1) obtain x ts j where *: "?q (toks k l @ ?rest) = ok (x, ts)" "length ?rest + j \<le> length ts"
      "left_loop ?q (ops_of k) (m + j) x ts = left_loop ?q (ops_of k) m l ?rest" for m
    unfolding spine_def by blast
  have r: "?q (toks (k + 1) r @ rest) = ok (r, rest)" using assms(2) st unfolding reads_def by blast
  have "left_loop ?q (ops_of k) (m + Suc j) x ts = left_loop ?q (ops_of k) m (Binary op l r) rest" for m
    using *(3) [of "Suc m"] r assms(3) by (simp add: ops_of_tok)
  moreover have "toks k (Binary op l r) @ rest = toks k l @ ?rest" using assms(3) by (simp add: wrap_def)
  ultimately show "\<exists>x ts j. ?q (toks k (Binary op l r) @ rest) = ok (x, ts) \<and> length rest + j \<le> length ts \<and>
      (\<forall>m. left_loop ?q (ops_of k) (m + j) x ts = left_loop ?q (ops_of k) m (Binary op l r) rest)"
    using *(1,2) by (intro exI [of _ x] exI [of _ ts] exI [of _ "Suc j"]) auto
qed

lemma good_binary:
  assumes l: "good sub l" and r: "good sub r"
  shows "good sub (Binary op l r)"
proof -
  let ?e = "Binary op l r" and ?p = "op_level op"
  note p = op_level_range [of op]
  have low: "toks k ?e = toks ?p ?e" if "k \<le> ?p" for k by (rule toks_same) (use that in simp)
  have high: "toks k ?e = toks 7 ?e" if "?p < k" "k \<le> 7" for k by (rule toks_same) (use that p in simp)
  have sp: "spine sub n ?p ?e" if "length (toks ?p ?e) \<le> n" for n
    using goodD(3) [OF l, of ?p n] goodD(2) [OF r, of "?p + 1" n] that p
    by (intro spine_binary) (simp_all add: wrap_def)
  have rl: "reads sub n k ?e" if "length (toks ?p ?e) \<le> n" "1 \<le> k" "k \<le> ?p" for n k
    using reads_descend [OF spine_reads [OF sp [OF that(1)] p] that(2,3)] low [OF that(3)] p by simp
  have r0: "reads0 sub n ?e" if "length (toks 0 ?e) \<le> n" for n
  proof (rule reads0_of_reads)
    show "reads sub n 1 ?e" using rl [of n 1] that low [of 0] p by simp
    show "toks 0 ?e = toks 1 ?e" using low [of 0] low [of 1] p by simp
  qed
  have r7: "reads sub n 7 ?e" if "length (toks 7 ?e) \<le> n" for n
  proof -
    have w: "toks 7 ?e = TLParen # toks 0 ?e @ [TRParen]" by (rule toks_wrapped) (use p in simp_all)
    have "length (toks 0 ?e) \<le> n - 1" "n = Suc (n - 1)" using that w by simp_all
    then show ?thesis using reads_wrapped [OF r0, of "n - 1"] p by simp
  qed
  have rh: "reads sub n k ?e" if "length (toks 7 ?e) \<le> n" "?p < k" "k \<le> 7" for n k
    using reads_descend [OF r7 [OF that(1)], of k] high [OF that(2,3)] that p by simp
  show ?thesis unfolding good_def
  proof (intro allI impI conjI)
    fix n k assume len: "length (toks k ?e) \<le> n"
    show "reads0 sub n ?e" if "k = 0" using r0 len that by simp
    show "reads sub n k ?e" if "1 \<le> k \<and> k \<le> 7"
      using rl [of n k] rh [of n k] low [of k] high [of k] len that by (cases "k \<le> ?p") simp_all
    show "spine sub n k ?e" if k: "1 \<le> k \<and> k \<le> 6"
    proof (cases "k = ?p")
      case True
      then show ?thesis using sp len by simp
    next
      case False
      then have "reads sub n (k + 1) ?e"
        using rl [of n "k + 1"] rh [of n "k + 1"] low [of k] high [of k] len k by (cases "k < ?p") simp_all
      then show ?thesis using False by (intro reads_spine) simp_all
    qed
  qed
qed

lemma ident_part_graphic: "is_ident_part c \<Longrightarrow> graphic c \<and> c \<noteq> CHR ''#'' \<and> c \<noteq> CHR '' ''"
  by (auto simp: is_ident_part_def is_alphabetic_def is_digit_def graphic_def)

lemma trim_ident: "seg \<noteq> [] \<Longrightarrow> list_all is_ident_part seg \<Longrightarrow> trim seg = seg"
  using ident_part_graphic by (intro trim_trimmed trimmed_graphic) (auto simp: list_all_iff)

lemma join_hd: "p \<noteq> [] \<Longrightarrow> hd p \<noteq> [] \<Longrightarrow> join sep p \<noteq> [] \<and> hd (join sep p) = hd (hd p)"
  by (induction sep p rule: join.induct) auto

lemma path_facts:
  assumes "path_ok p"
  shows "split_path (join ''.'' p) = ok p" "strip_prefix ''#'' (join ''.'' p) = None"
proof -
  have segs: "\<And>seg. seg \<in> set p \<Longrightarrow> seg \<noteq> [] \<and> list_all is_ident_part seg \<and> CHR ''.'' \<notin> set seg"
    using assms by (auto simp: path_ok_def list_all_iff)
  have ne: "p \<noteq> []" "hd p \<noteq> []" using assms segs by (auto simp: path_ok_def)
  have "split_on (CHR ''.'') (join ''.'' p) = p" using segs ne by (intro split_on_join) auto
  moreover have "map trim p = p" using segs trim_ident by (intro map_idI) blast
  moreover have "\<not> list_ex (\<lambda>seg. seg = []) p" using segs by (auto simp: list_ex_iff)
  ultimately show "split_path (join ''.'' p) = ok p" by (simp add: split_path_def)
  have "list_all is_ident_part (hd p)" using segs [of "hd p"] ne by simp
  then have "is_ident_part (hd (hd p))" using ne by (cases "hd p") auto
  then have "hd (hd p) \<noteq> CHR ''#''" using ident_part_graphic by blast
  then show "strip_prefix ''#'' (join ''.'' p) = None"
    using join_hd [OF ne, of "''.''"] by (cases "join ''.'' p") (auto simp: strip_prefix_def)
qed

lemma rsplit_once_append: "c \<notin> set b \<Longrightarrow> rsplit_once c (a @ c # b) = Some (a, b)"
  by (simp add: rsplit_once_def)

lemma toks_Cons: "printable fmt pf e \<Longrightarrow> \<exists>t ts. toks k e = t # ts \<and> t \<noteq> TRParen"
proof (induction e arbitrary: k)
  case (Binary op l r)
  then obtain t ts where "toks (op_level op) l = t # ts" "t \<noteq> TRParen" by fastforce
  then show ?case by (auto simp: wrap_def)
next
  case (Ternary c a b)
  then obtain t ts where "toks 1 c = t # ts" "t \<noteq> TRParen" by fastforce
  then show ?case by (auto simp: wrap_def)
next
  case (Elvis a b)
  then obtain t ts where "toks 1 a = t # ts" "t \<noteq> TRParen" by fastforce
  then show ?case by (auto simp: wrap_def)
qed (auto simp: wrap_def split: un_op.splits)

lemma arg_loop_commas:
  assumes "\<And>a. a \<in> set args \<Longrightarrow> reads0 sub n a" "args \<noteq> []" "length args \<le> m"
  shows "arg_loop (ternary sub (Suc n)) m (commas (map (toks 0) args) @ TRParen # rest) = ok (args, rest)"
  using assms
proof (induction args arbitrary: m)
  case (Cons a as)
  then obtain m' where m: "m = Suc m'" by (cases m) auto
  have r: "ternary sub (Suc n) (toks 0 a @ ts) = ok (a, ts)" if "stops 0 ts" for ts
    using Cons.prems(1) [of a] that by (simp add: reads0_def)
  show ?case
  proof (cases as)
    case Nil
    then show ?thesis using r [OF stops_tok(1)] by (simp add: m)
  next
    case (Cons b bs)
    then have "arg_loop (ternary sub (Suc n)) m' (commas (map (toks 0) as) @ TRParen # rest) = ok (as, rest)"
      using Cons.IH [of m'] Cons.prems m by simp
    then show ?thesis using r [OF stops_tok(2)] Cons by (simp add: m)
  qed
qed simp

lemma commas_length: "length args \<le> Suc (length (commas (map (toks 0) args)))"
  "a \<in> set args \<Longrightarrow> length (toks 0 a) \<le> length (commas (map (toks 0) args))"
proof -
  show "length args \<le> Suc (length (commas (map (toks 0) args)))"
    by (induction args rule: induct_list012) auto
  show "a \<in> set args \<Longrightarrow> length (toks 0 a) \<le> length (commas (map (toks 0) args))"
    by (induction args rule: induct_list012) auto
qed

lemma arg_list_commas:
  assumes "\<And>a. a \<in> set args \<Longrightarrow> good sub a \<and> printable fmt pf a" "length (commas (map (toks 0) args)) \<le> n"
  shows "arg_list (ternary sub (Suc n)) (commas (map (toks 0) args) @ TRParen # rest) = ok (args, rest)"
proof (cases args)
  case (Cons a as)
  obtain t ts where t: "toks 0 a = t # ts" "t \<noteq> TRParen" using toks_Cons assms(1) Cons by (metis list.set_intros(1))
  then have e: "eat TRParen (commas (map (toks 0) args) @ TRParen # rest) = None" using Cons by (cases as) simp_all
  have "reads0 sub n a" if "a \<in> set args" for a
    using goodD(1) [of sub a 0 n] assms that commas_length(2) [OF that] by simp
  from arg_loop_commas [OF this, of args] Cons commas_length(1) [of args] e
  show ?thesis by (simp add: arg_list_def del: arg_loop.simps)
qed (simp add: arg_list_def)

lemma good_unary: "good sub e \<Longrightarrow> good sub (Unary op e)"
proof (rule good_high)
  fix n assume g: "good sub e" and n: "length (toks 7 (Unary op e)) \<le> n"
  then have "reads sub n 7 e" using goodD(2) [OF g, of 7 n] by (simp add: wrap_def)
  then show "reads sub n 7 (Unary op e)"
    by (auto simp: reads_def lvl_def wrap_def split: un_op.splits)
qed simp

lemma good_ternary:
  assumes c: "good sub c" and a: "good sub a" and b: "good sub b"
  shows "good sub (Ternary c a b)"
proof (rule good_low)
  fix n assume n: "length (toks 0 (Ternary c a b)) \<le> n"
  then obtain n' where n': "n = Suc n'" by (cases n) (simp_all add: wrap_def)
  have rc: "reads sub n 1 c" using goodD(2) [OF c, of 1 n] n by (simp add: wrap_def)
  have "reads0 sub n' a" "reads0 sub n' b"
    using goodD(1) [OF a, of 0 n'] goodD(1) [OF b, of 0 n'] n n' by (simp_all add: wrap_def)
  then have r: "stops 0 ts \<Longrightarrow> ternary sub n (toks 0 a @ ts) = ok (a, ts)" "stops 0 ts \<Longrightarrow> ternary sub n (toks 0 b @ ts) = ok (b, ts)" for ts
    by (simp_all add: reads0_def n')
  have o: "stops 1 ts \<Longrightarrow> or_level (ternary sub n) sub (toks 1 c @ ts) = ok (c, ts)" for ts
    using rc by (simp add: reads_def lvl_def)
  show "reads0 sub n (Ternary c a b)"
    unfolding reads0_def
    using r o by (simp add: wrap_def ternary.simps(2) stops_tok)
qed simp

lemma good_elvis:
  assumes a: "good sub a" and b: "good sub b"
  shows "good sub (Elvis a b)"
proof (rule good_low)
  fix n assume n: "length (toks 0 (Elvis a b)) \<le> n"
  then obtain n' where n': "n = Suc n'" by (cases n) (simp_all add: wrap_def)
  have ra: "reads sub n 1 a" using goodD(2) [OF a, of 1 n] n by (simp add: wrap_def)
  have "reads0 sub n' b" using goodD(1) [OF b, of 0 n'] n n' by (simp add: wrap_def)
  then have r: "stops 0 ts \<Longrightarrow> ternary sub n (toks 0 b @ ts) = ok (b, ts)" for ts by (simp add: reads0_def n')
  have o: "stops 1 ts \<Longrightarrow> or_level (ternary sub n) sub (toks 1 a @ ts) = ok (a, ts)" for ts
    using ra by (simp add: reads_def lvl_def)
  show "reads0 sub n (Elvis a b)"
    unfolding reads0_def
    using r o by (simp add: wrap_def ternary.simps(2) stops_tok)
qed simp

lemma good_util:
  assumes "printable fmt pf (Util obj meth args)" "\<And>a. a \<in> set args \<Longrightarrow> good sub a"
  shows "good sub (Util obj meth args)"
proof (rule good_high)
  fix n assume n: "length (toks 7 (Util obj meth args)) \<le> n"
  then obtain n' where n': "n = Suc n'" by (cases n) simp_all
  have "arg_list (ternary sub n) (commas (map (toks 0) args) @ TRParen # rest) = ok (args, rest)" for rest
    unfolding n' using assms n n' by (intro arg_list_commas [where fmt = fmt and pf = pf]) (auto simp: list_all_iff)
  moreover have "strip_prefix ''#'' (CHR ''#'' # obj @ CHR ''.'' # meth) = Some (obj @ CHR ''.'' # meth)"
    by (simp add: strip_prefix_def)
  moreover have "rsplit_once (CHR ''.'') (obj @ CHR ''.'' # meth) = Some (obj, meth)"
    using assms(1) by (intro rsplit_once_append) simp
  ultimately show "reads sub n 7 (Util obj meth args)"
    by (simp add: reads_def lvl_def unary_primary primary_tok_def util_call_def del: unary.simps)
qed simp

lemma good_atom:
  "good sub (Str s)" "good sub (Num x)" "good sub (Bool b)" "good sub Null" "path_ok p \<Longrightarrow> good sub (Var p)"
  by (rule good_high; simp add: path_facts reads_def lvl_def unary_primary primary_tok_def del: unary.simps)+

lemma printable_good: "printable fmt pf e \<Longrightarrow> good sub e"
proof (induction e)
  case (Util obj meth args)
  then show ?case by (intro good_util) (auto simp: list_all_iff)
qed (simp_all add: good_atom good_unary good_binary good_ternary good_elvis)

lemma ternary_toks:
  assumes "printable fmt pf e"
  shows "ternary sub (Suc (length (toks 0 e))) (toks 0 e) = ok (e, [])"
  using goodD(1) [OF printable_good [OF assms], of 0 "length (toks 0 e)" sub] stops_tok(4) [of 0]
  by (auto simp: reads0_def dest: spec [of _ "[]"])

section \<open>The tokenizer inverts the text of tokens\<close>

fun tok_text :: "('f \<Rightarrow> string) \<Rightarrow> 'f tok \<Rightarrow> string" where
  "tok_text fmt (TNum x) = fmt x"
| "tok_text fmt (TStr s) = CHR 0x27 # s @ [CHR 0x27]"
| "tok_text fmt (TIdent s) = s"
| "tok_text fmt (TTemplateRaw s) = ''|'' @ s @ ''|''"
| "tok_text fmt (TUrlRaw s) = ''@'' @ ''{'' @ s @ ''}''"
| "tok_text fmt (TMsgRaw s) = ''#{'' @ s @ ''}''"
| "tok_text fmt TTrue = ''true''"
| "tok_text fmt TFalse = ''false''"
| "tok_text fmt TNull = ''null''"
| "tok_text fmt TDollarOpen = ''${''"
| "tok_text fmt TStarOpen = ''*{''"
| "tok_text fmt TRBrace = ''}''"
| "tok_text fmt TLParen = ''(''"
| "tok_text fmt TRParen = '')''"
| "tok_text fmt TPlus = ''+''"
| "tok_text fmt TMinus = ''-''"
| "tok_text fmt TStar = ''*''"
| "tok_text fmt TSlash = ''/''"
| "tok_text fmt TPercent = ''%''"
| "tok_text fmt TGt = ''>''"
| "tok_text fmt TLt = ''<''"
| "tok_text fmt TGe = ''>=''"
| "tok_text fmt TLe = ''<=''"
| "tok_text fmt TEqEq = ''==''"
| "tok_text fmt TNe = ''!=''"
| "tok_text fmt TAnd = ''and''"
| "tok_text fmt TOr = ''or''"
| "tok_text fmt TNot = ''not''"
| "tok_text fmt TQuestion = ''?''"
| "tok_text fmt TColon = '':''"
| "tok_text fmt TElvis = ''?:''"
| "tok_text fmt TComma = '',''"

definition text_of :: "('f \<Rightarrow> string) \<Rightarrow> 'f tok list \<Rightarrow> string" where
  "text_of fmt ts = concat (map (\<lambda>t. tok_text fmt t @ '' '') ts)"

definition show_expr :: "('f \<Rightarrow> string) \<Rightarrow> 'f expr \<Rightarrow> string" where
  "show_expr fmt e = text_of fmt (toks 0 e)"

text \<open>The tokens the printer makes.\<close>

definition ident_ok :: "string \<Rightarrow> bool" where
  "ident_ok w \<longleftrightarrow> w \<noteq> [] \<and> list_all is_ident_part (tl w) \<and>
     (hd w = CHR ''#'' \<or> is_ident_start (hd w) \<and> (keyword w :: unit tok) = TIdent w)"

fun tok_good :: "('f \<Rightarrow> string) \<Rightarrow> (string \<Rightarrow> 'f option) \<Rightarrow> 'f tok \<Rightarrow> bool" where
  "tok_good fmt pf (TNum x) = (numeral_text (fmt x) \<and> pf (fmt x) = Some x)"
| "tok_good fmt pf (TStr s) = (CHR 0x27 \<notin> set s)"
| "tok_good fmt pf (TIdent w) = ident_ok w"
| "tok_good fmt pf (TTemplateRaw s) = False"
| "tok_good fmt pf (TUrlRaw s) = False"
| "tok_good fmt pf (TMsgRaw s) = False"
| "tok_good fmt pf _ = True"

lemma keyword_ident: "(keyword w :: 'f tok) = TIdent w \<longleftrightarrow> (keyword w :: 'g tok) = TIdent w"
  by (simp add: keyword_def)

lemma takeWhile_space: "list_all is_ident_part w \<Longrightarrow>
    takeWhile is_ident_part (w @ '' '' @ s) = w \<and> dropWhile is_ident_part (w @ '' '' @ s) = '' '' @ s"
  using ident_part_graphic [of "CHR '' ''"] by (induction w) auto

lemma scan_digits: "list_all is_digit a \<Longrightarrow> \<not> (rest \<noteq> [] \<and> is_digit (hd rest)) \<Longrightarrow>
    scan_number True (a @ rest) = (a, rest)"
  by (induction a) (cases rest; auto simp: is_digit_def)+

lemma scan_numeral:
  assumes "numeral_text t"
  shows "scan_number False (t @ '' '' @ s) = (t, '' '' @ s)"
proof (cases "split_once (CHR ''.'') t")
  case None
  have "list_all is_digit t" using assms None by (simp add: numeral_text_def)
  then show ?thesis by (induction t) (auto simp: is_digit_def)
next
  case (Some p)
  obtain a b where p: "p = (a, b)" by (cases p)
  then have t: "t = a @ CHR ''.'' # b" "list_all is_digit a" "b \<noteq> []" "list_all is_digit b"
    using assms Some by (auto simp: numeral_text_def split_once_Some)
  have d: "is_digit (hd b)" using t(3,4) by (cases b) auto
  have "scan_number True (b @ '' '' @ s) = (b, '' '' @ s)" using t(4) by (intro scan_digits) (simp_all add: is_digit_def)
  then have "scan_number False (CHR ''.'' # b @ '' '' @ s) = (CHR ''.'' # b, '' '' @ s)"
    using t(3) d by (simp add: is_digit_def)
  then show ?thesis unfolding t(1) using t(2) by (induction a) auto
qed

definition symbols :: string where
  "symbols = CHR 0x27 # ''|@#,$*}()+-/%><=!?:''"

lemma class_symbols: "is_digit c \<or> is_ident_start c \<Longrightarrow> c \<notin> set symbols \<and> \<not> is_ascii_whitespace c"
  by (auto simp: symbols_def is_digit_def is_ident_start_def is_alphabetic_def is_ascii_whitespace_def)

lemma lex_symbols: "c \<notin> set symbols \<Longrightarrow> lex pf c s =
    (if is_digit c then
        (let (text, rest) = scan_number False (c # s)
         in case pf text of None \<Rightarrow> Inl (Bad_number text) | Some n \<Rightarrow> Inr (TNum n, rest))
     else if is_ident_start c then Inr (keyword (c # takeWhile is_ident_part s), dropWhile is_ident_part s)
     else Inl (Unexpected_character c))"
  by (simp add: lex_def symbols_def)

lemma lex_word:
  assumes "is_ident_start c" "list_all is_ident_part w"
  shows "lex pf c (w @ '' '' @ s) = Inr (keyword (c # w), '' '' @ s)"
proof -
  have "\<not> is_digit c" using assms(1) by (auto simp: is_digit_def is_ident_start_def is_alphabetic_def)
  then show ?thesis
    using assms takeWhile_space [OF assms(2), of s] class_symbols [of c] lex_symbols [of c pf "w @ '' '' @ s"] by simp
qed

lemma lex_number:
  assumes "numeral_text (c # w)" "pf (c # w) = Some x"
  shows "lex pf c (w @ '' '' @ s) = Inr (TNum x, '' '' @ s)" "is_digit c"
proof -
  show d: "is_digit c" using assms(1) by (auto simp: numeral_text_def split_once_Some Cons_eq_append_conv split: option.splits if_splits)
  show "lex pf c (w @ '' '' @ s) = Inr (TNum x, '' '' @ s)"
    using scan_numeral [OF assms(1), of s] assms(2) d class_symbols [of c] lex_symbols [of c pf "w @ '' '' @ s"] by simp
qed

lemma lex_hash:
  assumes "list_all is_ident_part w"
  shows "lex pf (CHR ''#'') (w @ '' '' @ s) = Inr (TIdent (CHR ''#'' # w), '' '' @ s)"
proof -
  have "\<not> starts (CHR ''{'') (w @ '' '' @ s)"
    using assms by (cases w) (auto simp: starts_def is_ident_part_def is_alphabetic_def is_digit_def)
  then show ?thesis using takeWhile_space [OF assms, of s] by (simp add: lex_def)
qed

lemma lex_keyword: "lex pf c (w @ '' '' @ s) = Inr (t, '' '' @ s) \<and> \<not> is_ascii_whitespace c"
  if "c # w \<in> set [''true'', ''false'', ''null'', ''and'', ''or'', ''not'']" "t = keyword (c # w)"
proof -
  have "is_ident_start c" "list_all is_ident_part w"
    using that(1) by (auto simp: is_ident_start_def is_ident_part_def is_alphabetic_def)
  then show ?thesis using lex_word [of c w pf s] class_symbols [of c] that(2) by simp
qed

lemma lex_good:
  assumes "tok_good fmt pf t"
  shows "\<exists>c w. tok_text fmt t = c # w \<and> lex pf c (w @ '' '' @ s) = Inr (t, '' '' @ s) \<and> \<not> is_ascii_whitespace c"
proof (cases t)
  case (TNum x)
  then obtain c w where "fmt x = c # w" using assms by (cases "fmt x") (auto simp: numeral_text_def)
  then show ?thesis using assms TNum lex_number(1) [of c w pf x s] lex_number(2) [of c w pf x] class_symbols [of c] by simp
next
  case (TIdent v)
  then obtain c w where v: "v = c # w" "list_all is_ident_part w" using assms by (cases v) (auto simp: ident_ok_def)
  show ?thesis
  proof (cases "c = CHR ''#''")
    case True
    then show ?thesis using TIdent v lex_hash [OF v(2), of pf s] by (simp add: is_ascii_whitespace_def)
  next
    case False
    then have "is_ident_start c" "(keyword v :: 'a tok) = TIdent v"
      using assms TIdent v keyword_ident [where 'f = unit and 'g = 'a] by (auto simp: ident_ok_def)
    then show ?thesis using TIdent v lex_word [of c w pf s] class_symbols [of c] by simp
  qed
next
  case TTrue
  then show ?thesis using lex_keyword [of "CHR ''t''" "''rue''" t pf s] by (simp add: keyword_def)
next
  case TFalse
  then show ?thesis using lex_keyword [of "CHR ''f''" "''alse''" t pf s] by (simp add: keyword_def)
next
  case TNull
  then show ?thesis using lex_keyword [of "CHR ''n''" "''ull''" t pf s] by (simp add: keyword_def)
next
  case TAnd
  then show ?thesis using lex_keyword [of "CHR ''a''" "''nd''" t pf s] by (simp add: keyword_def)
next
  case TOr
  then show ?thesis using lex_keyword [of "CHR ''o''" "''r''" t pf s] by (simp add: keyword_def)
next
  case TNot
  then show ?thesis using lex_keyword [of "CHR ''n''" "''ot''" t pf s] by (simp add: keyword_def)
qed (use assms in \<open>simp_all add: lex_def starts_def is_ascii_whitespace_def\<close>)

lemma tokenize_text:
  "list_all (tok_good fmt pf) ts \<Longrightarrow> tokenize pf (text_of fmt ts) = Inr ts"
proof (induction ts)
  case (Cons t ts)
  then obtain c w where l: "tok_text fmt t = c # w" "lex pf c (w @ '' '' @ text_of fmt ts) = Inr (t, '' '' @ text_of fmt ts)"
      "\<not> is_ascii_whitespace c"
    using lex_good [of fmt pf t "text_of fmt ts"] by auto
  have "text_of fmt (t # ts) = c # w @ '' '' @ text_of fmt ts" using l(1) by (simp add: text_of_def)
  moreover have "tokenize pf ('' '' @ text_of fmt ts) = Inr ts" using Cons by (simp add: is_ascii_whitespace_def)
  ultimately show ?case using l by simp
qed (simp add: text_of_def)

lemma list_all_commas: "list_all P (commas tss) \<longleftrightarrow> list_all (list_all P) tss" if "P TComma"
  using that by (induction tss rule: commas.induct) auto

lemma list_all_join: "list_all (list_all P) ps \<Longrightarrow> list_all P sep \<Longrightarrow> list_all P (join sep ps)"
  by (induction sep ps rule: join.induct) auto

lemma path_ident: "path_ok p \<Longrightarrow> ident_ok (join ''.'' p)"
proof -
  assume p: "path_ok p"
  then have ne: "p \<noteq> []" "hd p \<noteq> []" by (auto simp: path_ok_def list_all_iff)
  have "list_all is_ident_part (join ''.'' p)"
    using p by (intro list_all_join) (auto simp: path_ok_def list_all_iff is_ident_part_def)
  then have "list_all is_ident_part (tl (join ''.'' p))" by (cases "join ''.'' p") auto
  then show ?thesis using join_hd [OF ne, of "''.''"] p by (auto simp: ident_ok_def path_ok_def)
qed

lemma toks_good: "printable fmt pf e \<Longrightarrow> list_all (tok_good fmt pf) (toks k e)"
proof (induction e arbitrary: k)
  case (Util obj meth args)
  have "list_all (list_all (tok_good fmt pf)) (map (toks 0) args)" using Util by (auto simp: list_all_iff)
  then have "list_all (tok_good fmt pf) (commas (map (toks 0) args))" by (simp add: list_all_commas)
  then show ?case using Util.prems by (auto simp: ident_ok_def is_ident_part_def list_all_append)
next
  case (Binary op l r)
  have "tok_good fmt pf (op_tok op)" by (cases op) simp_all
  then show ?case using Binary by (simp add: wrap_def)
qed (auto simp: wrap_def path_ident split: un_op.splits)

lemma parse_show_expr:
  assumes "printable fmt pf e"
  shows "parse pf (show_expr fmt e) = ok e"
proof -
  obtain t ts where t: "toks 0 e = t # ts" using toks_Cons [OF assms, of 0] by auto
  have "tokenize pf (show_expr fmt e) = Inr (toks 0 e)"
    using tokenize_text [OF toks_good [OF assms, of 0]] by (simp add: show_expr_def)
  then show ?thesis using ternary_toks [OF assms] t by (simp add: parse_def)
qed

lemma stops_brace: "stops k [TRBrace]"
  by (auto simp: stops_def op_defs)

lemma wrapper_transparent:
  assumes e: "printable fmt pf e" and t: "t = TDollarOpen \<or> t = TStarOpen"
  shows "ternary sub (Suc (length (t # toks 0 e @ [TRBrace]))) (t # toks 0 e @ [TRBrace]) = ok (e, [])"
proof -
  let ?ts = "t # toks 0 e @ [TRBrace]" and ?n = "length (t # toks 0 e @ [TRBrace])"
  have "reads0 sub (length (toks 0 e) + 1) e" using goodD(1) [OF printable_good [OF e], of 0] by simp
  then have "ternary sub ?n (toks 0 e @ [TRBrace]) = ok (e, [TRBrace])" by (simp add: reads0_def stops_brace)
  then have "lvl 7 (ternary sub ?n) sub ?ts = ok (e, [])"
    using t by (auto simp: lvl_def unary_primary primary_tok_def closed_by_def simp del: unary.simps)
  then have "lvl 1 (ternary sub ?n) sub ?ts = ok (e, [])" by (rule lvl_descend) (simp_all add: stops_tok)
  then show ?thesis by (simp add: lvl_def ternary.simps(2))
qed

lemma parse_wrapped:
  assumes "printable fmt pf e" "t = TDollarOpen \<or> t = TStarOpen"
  shows "parse pf (tok_text fmt t @ '' '' @ show_expr fmt e @ ''} '') = ok e"
proof -
  have "list_all (tok_good fmt pf) (t # toks 0 e @ [TRBrace])"
    using toks_good [OF assms(1), of 0] assms(2) by auto
  from tokenize_text [OF this] have "tokenize pf (tok_text fmt t @ '' '' @ show_expr fmt e @ ''} '') = Inr (t # toks 0 e @ [TRBrace])"
    by (simp add: text_of_def show_expr_def)
  then show ?thesis using wrapper_transparent [OF assms] by (simp add: parse_def)
qed

section \<open>Properties\<close>

text \<open>
  C11: the parser inverts a printer that uses only the parentheses the grammar needs, so the six
  levels of left-associative operators, the prefix operators, the conditional and elvis forms,
  paths, literals and utility calls have the precedence the language documents; and the
  wrappers \<open>${..}\<close> and \<open>*{..}\<close> around an expression do not change what it means. Printed are
  identifiers and paths that are not keywords, strings without a quote, and numbers by any
  function whose texts are numerals that read back.
\<close>

theorem expr_roundtrip:
  assumes "printable fmt parse_f64 e"
  shows "parse parse_f64 (show_expr fmt e) = ok e \<and>
    parse parse_f64 (''${ '' @ show_expr fmt e @ ''} '') = ok e \<and> parse parse_f64 (''*{ '' @ show_expr fmt e @ ''} '') = ok e"
  using parse_show_expr [OF assms] parse_wrapped [OF assms, of TDollarOpen] parse_wrapped [OF assms, of TStarOpen] by simp

definition sample_expr :: "nat expr" where
  "sample_expr =
     Ternary (Binary And (Binary Ge (Var [''user'', ''age'']) (Num 18)) (Unary un_op.Not (Var [''banned''])))
       (Binary Sub (Binary Sub (Num 9) (Num 3)) (Binary Mul (Num 2) (Binary Add (Num 1) (Num 4))))
       (Elvis (Util ''strings'' ''trim'' [Str ''a b'', Null]) (Bool True))"

theorem expr_roundtrip_witness:
  "parse parse_u64 (show_expr show_nat sample_expr) = ok sample_expr \<and>
   show_expr show_nat sample_expr =
     ''user.age >= 18 and not banned ? 9 - 3 - 2 * ( 1 + 4 ) : #strings.trim ( '' @ [CHR 0x27] @ ''a b'' @ [CHR 0x27] @ '' , null ) ?: true ''"
proof -
  have "printable show_nat parse_u64 sample_expr" by code_simp
  moreover have "show_expr show_nat sample_expr =
     ''user.age >= 18 and not banned ? 9 - 3 - 2 * ( 1 + 4 ) : #strings.trim ( '' @ [CHR 0x27] @ ''a b'' @ [CHR 0x27] @ '' , null ) ?: true ''"
    by code_simp
  ultimately show ?thesis using expr_roundtrip by blast
qed

text \<open>
  C12: the parser answers on every text. Neither the fuel that bounds the nesting of parentheses
  and operators nor the depth that bounds nested substitution, URL and message texts ever runs out:
  the number of tokens and the length of the text are enough.
\<close>

theorem expr_parser_total: "\<exists>r. parse parse_f64 s = Some r"
  using parse_at_answers [of "Suc (length s)" parse_f64]
  by (auto simp: answers_texts_def answered_def parse_def)

end
