(* ===== verification/Expr_Eval.thy ===== *)
theory Expr_Eval
  imports Expr_Parser Url Http_Parser
begin

text \<open>
  \<open>kernway-core/src/template.rs\<close>, the model a template renders, and the evaluating half of
  \<open>kernleaf/src/expr.rs\<close>. The operations of the machine's \<open>f64\<close> and the Unicode case tables are
  those of the standard library; they are collected in a record of functions and every
  definition takes it as its first argument, so that the theorems hold for whatever they
  compute.
\<close>

section \<open>The model\<close>

datatype 'f template_value =
    VNull
  | VBool bool
  | VInt int
  | VFloat 'f
  | VStr string
  | VSeq "'f template_value list"
  | VMap "(string \<times> 'f template_value) list"

datatype ordering = Less | Equal | Greater

record 'f std_ops =
  f_parse :: "string \<Rightarrow> 'f option"
  f_of_int :: "int \<Rightarrow> 'f"
  f_zero :: 'f
  f_one :: 'f
  f_neg :: "'f \<Rightarrow> 'f"
  f_abs :: "'f \<Rightarrow> 'f"
  f_add :: "'f \<Rightarrow> 'f \<Rightarrow> 'f"
  f_sub :: "'f \<Rightarrow> 'f \<Rightarrow> 'f"
  f_mul :: "'f \<Rightarrow> 'f \<Rightarrow> 'f"
  f_div :: "'f \<Rightarrow> 'f \<Rightarrow> 'f"
  f_rem :: "'f \<Rightarrow> 'f \<Rightarrow> 'f"
  f_eq :: "'f \<Rightarrow> 'f \<Rightarrow> bool"
  f_cmp :: "'f \<Rightarrow> 'f \<Rightarrow> ordering option"
  f_is_finite :: "'f \<Rightarrow> bool"
  f_fract :: "'f \<Rightarrow> 'f"
  f_1e15 :: 'f
  f_to_i64 :: "'f \<Rightarrow> int"
  f_to_usize :: "'f \<Rightarrow> nat"
  f_show :: "'f \<Rightarrow> string"
  f_show_fixed :: "nat \<Rightarrow> 'f \<Rightarrow> string"
  to_upper :: "string \<Rightarrow> string"
  to_lower :: "string \<Rightarrow> string"

definition value_get :: "'f template_value \<Rightarrow> string \<Rightarrow> 'f template_value option" where
  "value_get v k =
     (case v of VMap pairs \<Rightarrow> map_option snd (find (\<lambda>(n, _). n = k) (rev pairs)) | _ \<Rightarrow> None)"

definition value_as_str :: "'f template_value \<Rightarrow> string option" where
  "value_as_str v = (case v of VStr s \<Rightarrow> Some s | _ \<Rightarrow> None)"

definition is_truthy :: "'f std_ops \<Rightarrow> 'f template_value \<Rightarrow> bool" where
  "is_truthy F v =
     (case v of
        VNull \<Rightarrow> False
      | VBool b \<Rightarrow> b
      | VInt n \<Rightarrow> n \<noteq> 0
      | VFloat x \<Rightarrow> \<not> f_eq F x (f_zero F)
      | VStr s \<Rightarrow> s \<noteq> []
      | VSeq xs \<Rightarrow> xs \<noteq> []
      | VMap kv \<Rightarrow> kv \<noteq> [])"

section \<open>Results\<close>

record 'f env =
  env_model :: "'f template_value"
  env_messages :: "(string, string) hmap"
  env_context_path :: string

datatype 'f eval_val =
    Ref "'f template_value"
  | EStr string
  | ENum 'f
  | EBool bool
  | ENull

definition to_bool :: "'f std_ops \<Rightarrow> 'f eval_val \<Rightarrow> bool" where
  "to_bool F v =
     (case v of
        Ref x \<Rightarrow> is_truthy F x
      | EStr s \<Rightarrow> s \<noteq> []
      | ENum n \<Rightarrow> \<not> f_eq F n (f_zero F)
      | EBool b \<Rightarrow> b
      | ENull \<Rightarrow> False)"

definition as_seq :: "'f eval_val \<Rightarrow> 'f template_value list option" where
  "as_seq v = (case v of Ref (VSeq xs) \<Rightarrow> Some xs | _ \<Rightarrow> None)"

definition show_bool :: "bool \<Rightarrow> string" where
  "show_bool b = (if b then ''true'' else ''false'')"

definition write_num :: "'f std_ops \<Rightarrow> 'f \<Rightarrow> string" where
  "write_num F n =
     (if f_is_finite F n \<and> f_eq F (f_fract F n) (f_zero F) \<and> f_cmp F (f_abs F n) (f_1e15 F) = Some Less
      then show_int (f_to_i64 F n) else f_show F n)"

definition value_to_string :: "'f std_ops \<Rightarrow> 'f template_value \<Rightarrow> string" where
  "value_to_string F v =
     (case v of
        VNull \<Rightarrow> []
      | VSeq _ \<Rightarrow> []
      | VMap _ \<Rightarrow> []
      | VBool b \<Rightarrow> show_bool b
      | VInt n \<Rightarrow> show_int n
      | VFloat x \<Rightarrow> write_num F x
      | VStr s \<Rightarrow> s)"

definition to_text :: "'f std_ops \<Rightarrow> 'f eval_val \<Rightarrow> string" where
  "to_text F v =
     (case v of
        Ref x \<Rightarrow> value_to_string F x
      | EStr s \<Rightarrow> s
      | EBool b \<Rightarrow> show_bool b
      | ENum n \<Rightarrow> write_num F n
      | ENull \<Rightarrow> [])"

definition as_num :: "'f std_ops \<Rightarrow> 'f eval_val \<Rightarrow> 'f option" where
  "as_num F v =
     (case v of
        ENum n \<Rightarrow> Some n
      | EBool b \<Rightarrow> Some (if b then f_one F else f_zero F)
      | Ref (VInt n) \<Rightarrow> Some (f_of_int F n)
      | Ref (VFloat x) \<Rightarrow> Some x
      | Ref (VStr s) \<Rightarrow> f_parse F (trim s)
      | EStr s \<Rightarrow> f_parse F (trim s)
      | _ \<Rightarrow> None)"

definition is_null :: "'f eval_val \<Rightarrow> bool" where
  "is_null v \<longleftrightarrow> (case v of ENull \<Rightarrow> True | Ref VNull \<Rightarrow> True | _ \<Rightarrow> False)"

definition num_or_zero :: "'f std_ops \<Rightarrow> 'f option \<Rightarrow> 'f" where
  "num_or_zero F x = (case x of Some n \<Rightarrow> n | None \<Rightarrow> f_zero F)"

section \<open>Operators\<close>

definition values_equal :: "'f std_ops \<Rightarrow> 'f eval_val \<Rightarrow> 'f eval_val \<Rightarrow> bool" where
  "values_equal F l r =
     (if is_null l \<or> is_null r then is_null l \<and> is_null r
      else
        (case (as_num F l, as_num F r) of
           (Some a, Some b) \<Rightarrow> f_eq F a b
         | _ \<Rightarrow> to_text F l = to_text F r))"

text \<open>The byte-wise order of \<open>str::cmp\<close>.\<close>

fun str_cmp :: "string \<Rightarrow> string \<Rightarrow> ordering" where
  "str_cmp [] [] = Equal"
| "str_cmp [] (_ # _) = Less"
| "str_cmp (_ # _) [] = Greater"
| "str_cmp (a # as) (b # bs) =
     (if ord a < ord b then Less else if ord b < ord a then Greater else str_cmp as bs)"

definition compare_vals :: "'f std_ops \<Rightarrow> 'f eval_val \<Rightarrow> 'f eval_val \<Rightarrow> ordering option" where
  "compare_vals F l r =
     (case (as_num F l, as_num F r) of
        (Some a, Some b) \<Rightarrow> f_cmp F a b
      | _ \<Rightarrow> Some (str_cmp (to_text F l) (to_text F r)))"

definition eval_binary :: "'f std_ops \<Rightarrow> bin_op \<Rightarrow> 'f eval_val \<Rightarrow> 'f eval_val \<Rightarrow> 'f eval_val" where
  "eval_binary F op l r =
     (case op of
        Or \<Rightarrow> EBool (to_bool F l \<or> to_bool F r)
      | And \<Rightarrow> EBool (to_bool F l \<and> to_bool F r)
      | Eq \<Rightarrow> EBool (values_equal F l r)
      | Ne \<Rightarrow> EBool (\<not> values_equal F l r)
      | Gt \<Rightarrow> EBool (compare_vals F l r = Some Greater)
      | Lt \<Rightarrow> EBool (compare_vals F l r = Some Less)
      | Ge \<Rightarrow> EBool (case compare_vals F l r of None \<Rightarrow> False | Some x \<Rightarrow> x \<noteq> Less)
      | Le \<Rightarrow> EBool (case compare_vals F l r of None \<Rightarrow> False | Some x \<Rightarrow> x \<noteq> Greater)
      | Add \<Rightarrow>
          (case (as_num F l, as_num F r) of
             (Some a, Some b) \<Rightarrow> ENum (f_add F a b)
           | _ \<Rightarrow> EStr (to_text F l @ to_text F r))
      | Sub \<Rightarrow> ENum (f_sub F (num_or_zero F (as_num F l)) (num_or_zero F (as_num F r)))
      | Mul \<Rightarrow> ENum (f_mul F (num_or_zero F (as_num F l)) (num_or_zero F (as_num F r)))
      | Div \<Rightarrow> ENum (f_div F (num_or_zero F (as_num F l)) (num_or_zero F (as_num F r)))
      | Rem \<Rightarrow> ENum (f_rem F (num_or_zero F (as_num F l)) (num_or_zero F (as_num F r))))"

section \<open>Variables\<close>

fun follow :: "'f template_value \<Rightarrow> string list \<Rightarrow> 'f template_value option" where
  "follow cur [] = Some cur"
| "follow cur (seg # segs) = (case value_get cur seg of None \<Rightarrow> None | Some v \<Rightarrow> follow v segs)"

definition resolve ::
  "string list \<Rightarrow> 'f template_value \<Rightarrow> (string \<times> 'f template_value) list \<Rightarrow> 'f template_value option" where
  "resolve path model scope =
     (case path of
        [] \<Rightarrow> None
      | head # tail \<Rightarrow>
          (case find (\<lambda>(name, _). name = head) (rev scope) of
             Some (_, v) \<Rightarrow> follow v tail
           | None \<Rightarrow> (case value_get model head of None \<Rightarrow> None | Some v \<Rightarrow> follow v tail)))"

section \<open>URLs, messages and utilities\<close>

definition contains :: "string \<Rightarrow> string \<Rightarrow> bool" where
  "contains s pat \<longleftrightarrow> split_once_str pat s \<noteq> None"

text \<open>\<open>str::replace\<close> for a non-empty pattern, the only one the code uses.\<close>

function replace :: "string \<Rightarrow> string \<Rightarrow> string \<Rightarrow> string" where
  "replace pat new s =
     (if pat = [] then s
      else (case split_once_str pat s of None \<Rightarrow> s | Some (a, b) \<Rightarrow> a @ new @ replace pat new b))"
  by pat_completeness auto
termination
  by (relation "measure (\<lambda>(pat, new, s). length s)") (auto dest!: split_once_str_Some)

declare replace.simps [simp del]

definition url_encode :: "string \<Rightarrow> string" where
  "url_encode s = concat (map (\<lambda>b. if unreserved b then [b] else CHR ''%'' # show_hex2 (ord b)) s)"

fun url_loop :: "string \<Rightarrow> (string \<times> string) list \<Rightarrow> (string \<times> string) list \<Rightarrow> string \<times> (string \<times> string) list" where
  "url_loop url query [] = (url, query)"
| "url_loop url query ((name, val) # params) =
     (let placeholder = ''{'' @ name @ ''}''
      in if contains url placeholder then url_loop (replace placeholder (url_encode val) url) query params
         else url_loop url (query @ [(name, val)]) params)"

definition query_text :: "(string \<times> string) list \<Rightarrow> string" where
  "query_text query = join ''&'' (map (\<lambda>(k, v). url_encode k @ ''='' @ url_encode v) query)"

definition eval_url :: "string \<Rightarrow> (string \<times> string) list \<Rightarrow> string \<Rightarrow> string" where
  "eval_url base params context_path =
     (let (url, query) = url_loop base [] params;
          url' = (if query = [] then url else url @ ''?'' @ query_text query)
      in if context_path = [] then url' else context_path @ url')"

fun fill_args :: "nat \<Rightarrow> string \<Rightarrow> string list \<Rightarrow> string" where
  "fill_args i msg [] = msg"
| "fill_args i msg (a # as) = fill_args (i + 1) (replace (''{'' @ show_nat i @ ''}'') a msg) as"

definition eval_msg :: "string \<Rightarrow> string list \<Rightarrow> (string, string) hmap \<Rightarrow> string" where
  "eval_msg key args messages =
     (case hm_get messages key of
        Some t \<Rightarrow> fill_args 0 t args
      | None \<Rightarrow> ''??'' @ key @ ''??'')"

definition char_count :: "string \<Rightarrow> nat" where
  "char_count s = length (filter (\<lambda>c. \<not> is_cont (ord c)) s)"

definition capitalize :: "'f std_ops \<Rightarrow> string \<Rightarrow> string" where
  "capitalize F s =
     (if s = [] then []
      else let w = utf8_width (ord (hd s)) in to_upper F (take w s) @ drop w s)"

definition format_decimal :: "'f std_ops \<Rightarrow> 'f \<Rightarrow> nat \<Rightarrow> nat \<Rightarrow> string" where
  "format_decimal F n min_int decimals =
     (let sign = (if f_cmp F n (f_zero F) = Some Less then ''-'' else []);
          s = f_show_fixed F decimals (f_abs F n);
          (int_part, frac_part) = (case split_once (CHR ''.'') s of Some (i, f) \<Rightarrow> (i, Some f) | None \<Rightarrow> (s, None));
          padded = (if length int_part < min_int then replicate (min_int - length int_part) (CHR ''0'') @ int_part else int_part)
      in case frac_part of Some f \<Rightarrow> sign @ padded @ ''.'' @ f | None \<Rightarrow> sign @ padded)"

definition arg_at :: "'f eval_val list \<Rightarrow> nat \<Rightarrow> 'f eval_val option" where
  "arg_at args i = (if i < length args then Some (args ! i) else None)"

definition eval_util :: "'f std_ops \<Rightarrow> string \<Rightarrow> string \<Rightarrow> 'f eval_val list \<Rightarrow> 'f eval_val" where
  "eval_util F object meth args =
     (let txt = (\<lambda>i. case arg_at args i of Some v \<Rightarrow> to_text F v | None \<Rightarrow> []);
          num = (\<lambda>i. num_or_zero F (Option.bind (arg_at args i) (as_num F)));
          num1 = (case Option.bind (arg_at args 1) (as_num F) of Some n \<Rightarrow> n | None \<Rightarrow> f_one F);
          xs = Option.bind (arg_at args 0) as_seq
      in if object = ''strings'' \<and> meth = ''toUpperCase'' then EStr (to_upper F (txt 0))
         else if object = ''strings'' \<and> meth = ''toLowerCase'' then EStr (to_lower F (txt 0))
         else if object = ''strings'' \<and> meth = ''trim'' then EStr (trim (txt 0))
         else if object = ''strings'' \<and> meth = ''length'' then ENum (f_of_int F (int (char_count (txt 0))))
         else if object = ''strings'' \<and> meth = ''isEmpty'' then EBool (txt 0 = [])
         else if object = ''strings'' \<and> meth = ''contains'' then EBool (contains (txt 0) (txt 1))
         else if object = ''strings'' \<and> meth = ''capitalize'' then EStr (capitalize F (txt 0))
         else if object = ''strings'' \<and> meth = ''defaultString'' then EStr (if txt 0 = [] then txt 1 else txt 0)
         else if object = ''numbers'' \<and> meth = ''abs'' then ENum (f_abs F (num 0))
         else if object = ''numbers'' \<and> meth = ''formatInteger'' then EStr (format_decimal F (num 0) (f_to_usize F num1) 0)
         else if object = ''numbers'' \<and> meth = ''formatDecimal'' then
           EStr (format_decimal F (num 0) (f_to_usize F num1) (f_to_usize F (num 2)))
         else if object = ''lists'' \<and> meth = ''size'' then
           ENum (f_of_int F (case xs of Some l \<Rightarrow> int (length l) | None \<Rightarrow> 0))
         else if object = ''lists'' \<and> meth = ''isEmpty'' then EBool (case xs of Some l \<Rightarrow> l = [] | None \<Rightarrow> True)
         else if object = ''lists'' \<and> meth = ''contains'' then
           EBool (case xs of Some l \<Rightarrow> list_ex (\<lambda>v. value_to_string F v = txt 1) l | None \<Rightarrow> False)
         else if object = ''bools'' \<and> meth = ''isTrue'' then
           EBool (case arg_at args 0 of Some v \<Rightarrow> to_bool F v | None \<Rightarrow> False)
         else ENull)"

section \<open>Evaluation\<close>

fun eval :: "'f std_ops \<Rightarrow> 'f expr \<Rightarrow> 'f env \<Rightarrow> (string \<times> 'f template_value) list \<Rightarrow> 'f eval_val" where
  "eval F (Var p) env scope = (case resolve p (env_model env) scope of Some v \<Rightarrow> Ref v | None \<Rightarrow> ENull)"
| "eval F (Str s) env scope = EStr s"
| "eval F (Num n) env scope = ENum n"
| "eval F (Bool b) env scope = EBool b"
| "eval F Null env scope = ENull"
| "eval F (Template parts) env scope = EStr (concat (map (\<lambda>e. to_text F (eval F e env scope)) parts))"
| "eval F (Expr_Parser.Url base params) env scope =
     EStr (eval_url base (map (\<lambda>(n, e). (n, to_text F (eval F e env scope))) params) (env_context_path env))"
| "eval F (Msg key args) env scope =
     EStr (eval_msg key (map (\<lambda>e. to_text F (eval F e env scope)) args) (env_messages env))"
| "eval F (Util object meth args) env scope = eval_util F object meth (map (\<lambda>e. eval F e env scope) args)"
| "eval F (Unary op x) env scope =
     (case op of
        un_op.Not \<Rightarrow> EBool (\<not> to_bool F (eval F x env scope))
      | Neg \<Rightarrow> ENum (f_neg F (num_or_zero F (as_num F (eval F x env scope)))))"
| "eval F (Ternary c a b) env scope =
     (if to_bool F (eval F c env scope) then eval F a env scope else eval F b env scope)"
| "eval F (Elvis a b) env scope =
     (let av = eval F a env scope in if to_bool F av then av else eval F b env scope)"
| "eval F (Binary op l r) env scope = eval_binary F op (eval F l env scope) (eval F r env scope)"

section \<open>Lemmas\<close>

lemma url_encode_percent: "url_encode s = percent_encode s"
  by (simp add: url_encode_def percent_encode_def encode_byte_def [abs_def])

lemma replace_set: "set (replace pat new s) \<subseteq> set s \<union> set new"
proof (induction pat new s rule: replace.induct)
  case (1 pat new s)
  show ?case
  proof (cases "pat = [] \<or> split_once_str pat s = None")
    case True
    then show ?thesis by (subst replace.simps) auto
  next
    case False
    then obtain a b where ab: "split_once_str pat s = Some (a, b)" by auto
    then have "s = a @ pat @ b" by (rule split_once_str_Some)
    with 1 [of "(a, b)" a b] False ab show ?thesis by (subst replace.simps) auto
  qed
qed

lemma hex_unreserved: "d < 16 \<Longrightarrow> unreserved (hex_char d)"
  by (auto simp: hex_char_def unreserved_def)

lemma url_encode_set: "c \<in> set (url_encode s) \<Longrightarrow> unreserved c \<or> c = CHR ''%''"
  by (auto simp: url_encode_def show_hex2_def hex_unreserved nibbles split: if_splits)

lemma set_join_parts: "set (join sep ps) \<subseteq> set sep \<union> (\<Union>p\<in>set ps. set p)"
  by (induction sep ps rule: join.induct) auto

lemma query_text_set: "c \<in> set (query_text q) \<Longrightarrow> unreserved c \<or> c \<in> set ''%&=''"
  using set_join_parts [of "''&''" "map (\<lambda>(k, v). url_encode k @ ''='' @ url_encode v) q"] url_encode_set
  by (fastforce simp: query_text_def)

lemma url_loop_set: "c \<in> set (fst (url_loop url q params)) \<Longrightarrow> c \<in> set url \<or> unreserved c \<or> c = CHR ''%''"
proof (induction url q params rule: url_loop.induct)
  case (2 url q name val params)
  show ?case
    using 2 url_encode_set [of c val] replace_set [of "''{'' @ name @ ''}''" "url_encode val" url]
    by (auto simp: Let_def split: if_splits)
qed simp

lemma url_loop_query:
  "list_all (\<lambda>(n, v). \<not> contains url (''{'' @ n @ ''}'')) params \<Longrightarrow> url_loop url q params = (url, q @ params)"
  by (induction params arbitrary: q) (auto simp: Let_def)

lemma split_once_encoded:
  "split_once (CHR ''='') (url_encode k @ CHR ''='' # url_encode v) = Some (url_encode k, url_encode v)"
  by (rule split_once_append) (auto dest!: url_encode_set simp: unreserved_def)

lemma url_encode_ne: "k \<noteq> [] \<Longrightarrow> url_encode k \<noteq> []"
  by (cases k) (auto simp: url_encode_def)

lemma query_fold:
  "list_all (\<lambda>(n, v). n \<noteq> []) params \<Longrightarrow>
     fold_run query_pair f (map (\<lambda>(k, v). url_encode k @ ''='' @ url_encode v) params) =
     fold_run (\<lambda>f (n, v). fields_append False f n v) f (map (\<lambda>(k, v). (url_encode k, url_encode v)) params)"
proof (induction params arbitrary: f)
  case (Cons p params)
  then show ?case
    using split_once_encoded [of "fst p" "snd p"] url_encode_ne [of "fst p"]
    by (cases p) (auto simp: bind_run_def split: sum.splits)
qed simp

lemma query_split:
  "params \<noteq> [] \<Longrightarrow> split_on (CHR ''&'') (query_text params) = map (\<lambda>(k, v). url_encode k @ ''='' @ url_encode v) params"
  unfolding query_text_def
  by (rule split_on_join) (auto dest!: url_encode_set simp: unreserved_def)

lemma encoded_valid: "utf8_valid (url_encode s)"
  unfolding url_encode_percent by (rule is_ascii_utf8_valid) (rule percent_encode_ascii)

lemma eval_url_set: "set (eval_url b ps ctx) \<subseteq> set ctx \<union> set b \<union> set ''%?&='' \<union> {c. unreserved c}"
proof -
  obtain u q where uq: "url_loop b [] ps = (u, q)" by (cases "url_loop b [] ps")
  have "set (eval_url b ps ctx) \<subseteq> set ctx \<union> set u \<union> set (CHR ''?'' # query_text q)"
    by (auto simp: eval_url_def uq Let_def)
  moreover have "set u \<subseteq> set b \<union> set ''%?&='' \<union> {c. unreserved c}" using url_loop_set [of _ b "[]" ps] uq by auto
  moreover have "set (query_text q) \<subseteq> set ''%?&='' \<union> {c. unreserved c}" using query_text_set [of _ q] by auto
  ultimately show ?thesis by auto
qed

section \<open>Properties\<close>

text \<open>
  A URL built by a template reaches the server with its parameters. When no parameter is a
  path variable of the base, the URL is the context path, the base, a question mark and a query
  that the request parser splits into exactly the parameters in their order, each name and
  value decoding to the original text; and whatever the parameters are, no byte of the URL other
  than those of the context path and the base is outside the unreserved characters, the percent
  sign and the three query separators, so no value can break out of its place.
\<close>

theorem template_url_roundtrip:
  assumes "params \<noteq> []" "list_all (\<lambda>(n, v). n \<noteq> [] \<and> utf8_valid n \<and> utf8_valid v) params"
    and "list_all (\<lambda>(n, v). \<not> contains base (''{'' @ n @ ''}'')) params"
    and "CHR ''?'' \<notin> set (context_path @ base)" "length (query_text params) \<le> u32_max"
  shows "(\<exists>q f. split_once (CHR ''?'') (eval_url base params context_path) = Some (context_path @ base, q) \<and>
      parse_query_string q = Inr f \<and>
      map (\<lambda>(k, v). (percent_decode k, percent_decode v)) (fields_iter f) = map (\<lambda>(k, v). (Inr k, Inr v)) params) \<and>
    (\<forall>b ps ctx. set (eval_url b ps ctx) \<subseteq> set ctx \<union> set b \<union> set ''%?&='' \<union> {c. unreserved c})"
proof (intro conjI allI)
  let ?enc = "map (\<lambda>(k, v). (url_encode k, url_encode v)) params"
  have "eval_url base params context_path = (context_path @ base) @ CHR ''?'' # query_text params"
    using url_loop_query [OF assms(3), of "[]"] assms(1) by (simp add: eval_url_def Let_def)
  then have s: "split_once (CHR ''?'') (eval_url base params context_path) = Some (context_path @ base, query_text params)"
    using assms(4) by (simp del: append_assoc)
  obtain f where f: "parse_query_string (query_text params) = Inr f" using parse_query_total [OF assms(5)] by blast
  have ne: "list_all (\<lambda>(n, v). n \<noteq> []) params" using assms(2) by (rule list.pred_mono_strong) auto
  have "fold_run (\<lambda>f (n, v). fields_append False f n v) fields_new ?enc = Inr f"
    using f query_fold [OF ne, of fields_new] query_split [OF assms(1)] by (simp add: parse_query_string_def)
  moreover have v: "utf8_valid n \<and> utf8_valid v" if "(n, v) \<in> set ?enc" for n v using that encoded_valid by auto
  ultimately have "fields_iter f = fields_iter fields_new @ map (\<lambda>(n, v). (stored_name False n, v)) ?enc"
    using fs.append_all [OF fs.wf_empty v] by blast
  then have "fields_iter f = map (\<lambda>(n, v). (stored_name False n, v)) ?enc" by (simp add: fs.pairs_empty)
  then have "map (\<lambda>(k, v). (percent_decode k, percent_decode v)) (fields_iter f) = map (\<lambda>(k, v). (Inr k, Inr v)) params"
    using assms(2) by (auto simp: stored_name_def url_encode_percent percent_decode_encode list_all_iff)
  with s f show "\<exists>q f. split_once (CHR ''?'') (eval_url base params context_path) = Some (context_path @ base, q) \<and>
      parse_query_string q = Inr f \<and>
      map (\<lambda>(k, v). (percent_decode k, percent_decode v)) (fields_iter f) = map (\<lambda>(k, v). (Inr k, Inr v)) params"
    by blast
  fix b ps ctx
  show "set (eval_url b ps ctx) \<subseteq> set ctx \<union> set b \<union> set ''%?&='' \<union> {c. unreserved c}"
    by (rule eval_url_set)
qed

theorem template_url_roundtrip_witness:
  "\<exists>q f. split_once (CHR ''?'') (eval_url ''/search'' [(''q'', ''a b&c''), (''page'', ''2'')] ''/app'') = Some (''/app/search'', q) \<and>
      parse_query_string q = Inr f \<and>
      map (\<lambda>(k, v). (percent_decode k, percent_decode v)) (fields_iter f) =
        [(Inr ''q'', Inr ''a b&c''), (Inr ''page'', Inr ''2'')]"
proof -
  let ?ps = "[(''q'', ''a b&c''), (''page'', ''2'')]"
  have h: "list_all (\<lambda>(n, v). n \<noteq> [] \<and> utf8_valid n \<and> utf8_valid v) ?ps"
    "list_all (\<lambda>(n, v). \<not> contains ''/search'' (''{'' @ n @ ''}'')) ?ps"
    "CHR ''?'' \<notin> set (''/app'' @ ''/search'')" "length (query_text ?ps) \<le> u32_max"
    by code_simp+
  show ?thesis using conjunct1 [OF template_url_roundtrip [OF _ h]] by simp
qed

text \<open>
  Message arguments are substituted one after the other into the same text, so an argument that
  contains a later placeholder is itself filled: with the message \<open>{0} and {1}\<close>, a first argument
  \<open>{1}\<close> is rendered as the second one.
\<close>

theorem message_argument_refilled:
  "eval_msg ''k'' [''{1}'', ''x''] [(''k'', ''{0} and {1}'')] = ''x and x''"
  by code_simp

end
