(* ===== verification/Leaf_Render.thy ===== *)
theory Leaf_Render
  imports Leaf_Escape Expr_Eval Web_Security Hash_Map
begin

text \<open>
  The compiled templates of \<open>kernleaf/src/lib.rs\<close> and their rendering: the node types, the
  authorization checks of \<open>th:authorize\<close>, fragment lookup, the injection of the CSRF field and
  \<open>render_nodes\<close>, \<open>render_element\<close>, \<open>render_instance\<close>. The code appends to one buffer that is
  dropped on an error; here each step returns what it appends, or the error.
\<close>

section \<open>Compiled templates\<close>

datatype 'f inline_part =
    Lit string
  | Escaped "'f expr"
  | Raw "'f expr"

record fragment_ref =
  fr_template :: "string option"
  fr_name :: string

datatype authz_expr =
    PermitAll
  | DenyAll
  | IsAuthenticated
  | IsAnonymous
  | HasRole string
  | HasAnyRole "string list"
  | HasAuthority string
  | HasAnyAuthority "string list"

text \<open>The attributes and directives of an element; its tag and children are in the node.\<close>

record 'f directives =
  static_attrs :: "(string \<times> string) list"
  dynamic_attrs :: "(string \<times> 'f expr) list"
  th_if :: "'f expr option"
  th_unless :: "'f expr option"
  th_each :: "(string \<times> 'f expr) option"
  th_text :: "'f expr option"
  th_utext :: "'f expr option"
  th_inline :: "inline_mode option"
  th_authorize :: "authz_expr option"
  th_fragment :: "string option"
  th_insert :: "fragment_ref option"
  th_replace :: "fragment_ref option"

datatype 'f dom =
    Text string
  | Inline "'f inline_part list"
  | Comment string
  | Declaration string
  | Element string bool "'f directives" "'f dom list"

type_synonym 'f templates = "(string, 'f dom list) hmap"

datatype 'f template_error =
    No_template string
  | Fragments_too_deep
  | Comment_unterminated
  | Declaration_unterminated
  | Tag_without_name
  | Tag_unterminated
  | Inline_unclosed bool
  | Bad_expression "'f expr_error"
  | Each_without_colon string
  | Each_without_variable string
  | Unsupported_authorize string

definition MAX_FRAGMENT_DEPTH :: nat where
  "MAX_FRAGMENT_DEPTH = 32"

definition CSRF_FIELD :: string where
  "CSRF_FIELD = ''_csrf''"

section \<open>The context of a rendering\<close>

text \<open>\<open>dyn Authorization\<close>: the application supplies the three answers.\<close>

record authorization =
  az_authenticated :: bool
  az_role :: "string \<Rightarrow> bool"
  az_authority :: "string \<Rightarrow> bool"

definition ANONYMOUS :: authorization where
  "ANONYMOUS = \<lparr>az_authenticated = False, az_role = (\<lambda>_. False), az_authority = (\<lambda>_. False)\<rparr>"

text \<open>The implementation of the trait by \<open>SecurityContext\<close>.\<close>

definition context_authorization :: "security_context \<Rightarrow> authorization" where
  "context_authorization c =
     \<lparr>az_authenticated = is_authenticated c, az_role = has_role c, az_authority = has_authority c\<rparr>"

record render_context =
  rc_authz :: "authorization option"
  rc_csrf :: "string option"

record 'f render_env =
  re_env :: "'f env"
  re_authz :: authorization
  re_csrf :: "string option"

definition allows :: "authorization \<Rightarrow> authz_expr \<Rightarrow> bool" where
  "allows az e =
     (case e of
        PermitAll \<Rightarrow> True
      | DenyAll \<Rightarrow> False
      | IsAuthenticated \<Rightarrow> az_authenticated az
      | IsAnonymous \<Rightarrow> \<not> az_authenticated az
      | HasRole r \<Rightarrow> az_role az r
      | HasAnyRole rs \<Rightarrow> list_ex (az_role az) rs
      | HasAuthority a \<Rightarrow> az_authority az a
      | HasAnyAuthority as \<Rightarrow> list_ex (az_authority az) as)"

section \<open>Fragments and forms\<close>

lemma find_map_fun_cong [fundef_cong]:
  "xs = ys \<Longrightarrow> (\<And>x. x \<in> set ys \<Longrightarrow> f x = g x) \<Longrightarrow> find_map f xs = find_map g ys"
  by (induction ys arbitrary: xs) (auto split: option.splits)

text \<open>The fragment at a node or below it, depth first.\<close>

fun fragment_in :: "string \<Rightarrow> 'f dom \<Rightarrow> 'f dom option" where
  "fragment_in name (Element tag void d children) =
     (if th_fragment d = Some name then Some (Element tag void d children)
      else find_map (fragment_in name) children)"
| "fragment_in name _ = None"

definition find_fragment :: "'f dom list \<Rightarrow> string \<Rightarrow> 'f dom option" where
  "find_fragment nodes name = find_map (fragment_in name) nodes"

definition resolve_fragment :: "'f templates \<Rightarrow> fragment_ref \<Rightarrow> 'f dom list option" where
  "resolve_fragment T fref =
     (let search = (case fr_template fref of
            Some tpl \<Rightarrow> (case hm_get T tpl of None \<Rightarrow> [] | Some nodes \<Rightarrow> [nodes])
          | None \<Rightarrow> map snd T)
      in if fr_name fref = [] then (case search of [] \<Rightarrow> None | nodes # _ \<Rightarrow> Some nodes)
         else map_option (\<lambda>node. [node]) (find_map (\<lambda>nodes. find_fragment nodes (fr_name fref)) search))"

definition is_state_changing_form :: "'f directives \<Rightarrow> bool" where
  "is_state_changing_form d =
     (case find (\<lambda>(n, _). eq_ignore_ascii_case n ''method'') (static_attrs d) of
        None \<Rightarrow> False
      | Some (_, v) \<Rightarrow> \<not> eq_ignore_ascii_case v ''get'')"

section \<open>Rendering\<close>

text \<open>The outputs of a sequence of steps, one after the other; the first error ends it.\<close>

fun emit_all :: "('a \<Rightarrow> 'e + string) \<Rightarrow> 'a list \<Rightarrow> 'e + string" where
  "emit_all f [] = Inr []"
| "emit_all f (x # xs) = bind_run (f x) (\<lambda>a. bind_run (emit_all f xs) (\<lambda>b. Inr (a @ b)))"

lemma emit_all_cong [fundef_cong]:
  "xs = ys \<Longrightarrow> (\<And>x. x \<in> set ys \<Longrightarrow> f x = g x) \<Longrightarrow> emit_all f xs = emit_all g ys"
  by (induction ys arbitrary: xs) auto

type_synonym 'f bindings = "(string \<times> 'f template_value) list"

definition expr_text :: "'f std_ops \<Rightarrow> 'f render_env \<Rightarrow> 'f bindings \<Rightarrow> 'f expr \<Rightarrow> string" where
  "expr_text F E scope e = to_text F (eval F e (re_env E) scope)"

definition render_inline :: "'f std_ops \<Rightarrow> 'f render_env \<Rightarrow> 'f bindings \<Rightarrow> inline_mode \<Rightarrow> 'f inline_part list \<Rightarrow> string" where
  "render_inline F E scope mode parts =
     concat (map (\<lambda>part. case part of
         Lit s \<Rightarrow> s
       | Raw e \<Rightarrow> expr_text F E scope e
       | Escaped e \<Rightarrow> escape_for mode (expr_text F E scope e)) parts)"

definition attr_text :: "string \<Rightarrow> string \<Rightarrow> string" where
  "attr_text name val = '' '' @ name @ [CHR ''='', CHR 0x22] @ escape_html val @ [CHR 0x22]"

definition open_tag :: "'f std_ops \<Rightarrow> 'f render_env \<Rightarrow> 'f bindings \<Rightarrow> string \<Rightarrow> 'f directives \<Rightarrow> string" where
  "open_tag F E scope tag d =
     ''<'' @ tag @ concat (map (\<lambda>(n, v). attr_text n v) (static_attrs d)) @
     concat (map (\<lambda>(n, e). attr_text n (expr_text F E scope e)) (dynamic_attrs d)) @ ''>''"

definition csrf_input :: "string \<Rightarrow> string" where
  "csrf_input tok =
     ''<input type='' @ [CHR 0x22] @ ''hidden'' @ [CHR 0x22] @ '' name='' @ [CHR 0x22] @ CSRF_FIELD @ [CHR 0x22] @
     '' value='' @ [CHR 0x22] @ escape_html tok @ [CHR 0x22] @ ''>''"

definition csrf_part :: "'f render_env \<Rightarrow> string \<Rightarrow> 'f directives \<Rightarrow> string" where
  "csrf_part E tag d =
     (case re_csrf E of
        Some tok \<Rightarrow> if eq_ignore_ascii_case tag ''form'' \<and> is_state_changing_form d then csrf_input tok else []
      | None \<Rightarrow> [])"

text \<open>
  One instance of an element. \<open>body\<close> renders its children and \<open>incl\<close> a fragment, both in the
  given inline mode.
\<close>

definition element_body :: "'f std_ops \<Rightarrow> 'f render_env \<Rightarrow> 'f directives \<Rightarrow> 'f bindings \<Rightarrow> inline_mode \<Rightarrow>
    (inline_mode \<Rightarrow> 'f template_error + string) \<Rightarrow> (inline_mode \<Rightarrow> fragment_ref \<Rightarrow> 'f template_error + string) \<Rightarrow>
    'f template_error + string" where
  "element_body F E d scope mode body incl =
     (let child_mode = (case th_inline d of Some m \<Rightarrow> m | None \<Rightarrow> mode)
      in case th_insert d of
           Some fref \<Rightarrow> incl child_mode fref
         | None \<Rightarrow>
             (case th_text d of
                Some e \<Rightarrow> Inr (escape_html (expr_text F E scope e))
              | None \<Rightarrow>
                  (case th_utext d of
                     Some e \<Rightarrow> Inr (expr_text F E scope e)
                   | None \<Rightarrow> body child_mode)))"

definition hidden :: "'f std_ops \<Rightarrow> 'f render_env \<Rightarrow> 'f directives \<Rightarrow> 'f bindings \<Rightarrow> bool" where
  "hidden F E d scope \<longleftrightarrow>
     (case th_authorize d of None \<Rightarrow> False | Some auth \<Rightarrow> \<not> allows (re_authz E) auth) \<or>
     (case th_if d of None \<Rightarrow> False | Some c \<Rightarrow> \<not> to_bool F (eval F c (re_env E) scope)) \<or>
     (case th_unless d of None \<Rightarrow> False | Some c \<Rightarrow> to_bool F (eval F c (re_env E) scope))"

definition render_instance :: "'f std_ops \<Rightarrow> 'f render_env \<Rightarrow> string \<Rightarrow> bool \<Rightarrow> 'f directives \<Rightarrow> 'f bindings \<Rightarrow> inline_mode \<Rightarrow>
    (inline_mode \<Rightarrow> 'f template_error + string) \<Rightarrow> (inline_mode \<Rightarrow> fragment_ref \<Rightarrow> 'f template_error + string) \<Rightarrow>
    'f template_error + string" where
  "render_instance F E tag void d scope mode body incl =
     (if hidden F E d scope then Inr []
      else
        (case th_replace d of
           Some fref \<Rightarrow> incl mode fref
         | None \<Rightarrow>
             if void then Inr (open_tag F E scope tag d)
             else bind_run (element_body F E d scope mode body incl)
                    (\<lambda>inner. Inr (open_tag F E scope tag d @ csrf_part E tag d @ inner @ ''</'' @ tag @ ''>''))))"

text \<open>The scopes of the instances of an element: one, or one for each item of \<open>th:each\<close>.\<close>

definition each_scopes :: "'f std_ops \<Rightarrow> 'f render_env \<Rightarrow> 'f bindings \<Rightarrow> 'f directives \<Rightarrow> 'f bindings list" where
  "each_scopes F E scope d =
     (case th_each d of
        None \<Rightarrow> [scope]
      | Some (var, sequ) \<Rightarrow>
          (case as_seq (eval F sequ (re_env E) scope) of
             None \<Rightarrow> []
           | Some items \<Rightarrow> map (\<lambda>item. scope @ [(var, item)]) items))"

definition render_element :: "'f std_ops \<Rightarrow> 'f render_env \<Rightarrow> string \<Rightarrow> bool \<Rightarrow> 'f directives \<Rightarrow> 'f bindings \<Rightarrow> inline_mode \<Rightarrow>
    ('f bindings \<Rightarrow> inline_mode \<Rightarrow> 'f template_error + string) \<Rightarrow>
    ('f bindings \<Rightarrow> inline_mode \<Rightarrow> fragment_ref \<Rightarrow> 'f template_error + string) \<Rightarrow> 'f template_error + string" where
  "render_element F E tag void d scope mode body incl =
     emit_all (\<lambda>sc. render_instance F E tag void d sc mode (body sc) (incl sc)) (each_scopes F E scope d)"

lemma size_child: "n \<in> set ns \<Longrightarrow> size n < Suc (size_list size ns)"
  by (induction ns) auto

function render_node :: "'f std_ops \<Rightarrow> 'f templates \<Rightarrow> 'f render_env \<Rightarrow> 'f bindings \<Rightarrow> inline_mode \<Rightarrow> nat \<Rightarrow> 'f dom \<Rightarrow>
    'f template_error + string" where
  "render_node F T E scope mode depth (Text t) = Inr t"
| "render_node F T E scope mode depth (Inline parts) = Inr (render_inline F E scope mode parts)"
| "render_node F T E scope mode depth (Comment c) = Inr (''<!--'' @ c @ ''-->'')"
| "render_node F T E scope mode depth (Declaration t) = Inr t"
| "render_node F T E scope mode depth (Element tag void d children) =
     render_element F E tag void d scope mode
       (\<lambda>sc m. emit_all (render_node F T E sc m depth) children)
       (\<lambda>sc m fref.
          if depth \<ge> MAX_FRAGMENT_DEPTH then Inl Fragments_too_deep
          else (case resolve_fragment T fref of
                  None \<Rightarrow> Inr []
                | Some frag \<Rightarrow> emit_all (render_node F T E sc m (depth + 1)) frag))"
  by pat_completeness auto

termination
  by (relation "measures [\<lambda>(F, T, E, scope, mode, depth, n). MAX_FRAGMENT_DEPTH - depth,
        \<lambda>(F, T, E, scope, mode, depth, n). size n]") (auto simp: size_child)

declare render_node.simps(5) [simp del]

abbreviation render_nodes :: "'f std_ops \<Rightarrow> 'f templates \<Rightarrow> 'f render_env \<Rightarrow> 'f bindings \<Rightarrow> inline_mode \<Rightarrow> nat \<Rightarrow> 'f dom list \<Rightarrow>
    'f template_error + string" where
  "render_nodes F T E scope mode depth nodes \<equiv> emit_all (render_node F T E scope mode depth) nodes"

section \<open>The engine\<close>

record 'f kernleaf =
  templates :: "'f templates"
  messages :: "(string, string) hmap"

definition message :: "'f kernleaf \<Rightarrow> string \<Rightarrow> string \<Rightarrow> 'f kernleaf" where
  "message k key val = k\<lparr>messages := hm_insert (messages k) key val\<rparr>"

definition is_compiled :: "'f kernleaf \<Rightarrow> string \<Rightarrow> bool" where
  "is_compiled k name \<longleftrightarrow> hm_get (templates k) name \<noteq> None"

definition env_of :: "'f kernleaf \<Rightarrow> 'f template_value \<Rightarrow> render_context \<Rightarrow> 'f render_env" where
  "env_of k model ctx =
     \<lparr>re_env = \<lparr>env_model = model, env_messages = messages k, env_context_path = []\<rparr>,
      re_authz = (case rc_authz ctx of Some az \<Rightarrow> az | None \<Rightarrow> ANONYMOUS),
      re_csrf = rc_csrf ctx\<rparr>"

definition render_with :: "'f std_ops \<Rightarrow> 'f kernleaf \<Rightarrow> string \<Rightarrow> 'f template_value \<Rightarrow> render_context \<Rightarrow> 'f template_error + string" where
  "render_with F k template model ctx =
     (case hm_get (templates k) template of
        None \<Rightarrow> Inl (No_template template)
      | Some nodes \<Rightarrow> render_nodes F (templates k) (env_of k model ctx) [] Html 0 nodes)"

definition render_plain :: "'f std_ops \<Rightarrow> 'f kernleaf \<Rightarrow> string \<Rightarrow> 'f template_value \<Rightarrow> 'f template_error + string" where
  "render_plain F k template model = render_with F k template model \<lparr>rc_authz = None, rc_csrf = None\<rparr>"


section \<open>Nodes below a node\<close>

fun subnodes :: "'f dom \<Rightarrow> 'f dom set" where
  "subnodes (Element tag void d children) =
     Set.insert (Element tag void d children) (\<Union>n\<in>set children. subnodes n)"
| "subnodes n = {n}"

lemma subnodes_self [simp]: "n \<in> subnodes n"
  by (cases n) auto

lemma find_map_Some_obtain:
  assumes "find_map f xs = Some y"
  obtains x where "x \<in> set xs" "f x = Some y"
  using assms by (induction xs) (auto split: option.splits)

lemma fragment_in_subnodes: "fragment_in name n = Some m \<Longrightarrow> m \<in> subnodes n"
  by (induction name n rule: fragment_in.induct) (auto split: if_splits elim!: find_map_Some_obtain)

lemma resolve_fragment_subnodes:
  assumes "resolve_fragment T fref = Some frag" "n \<in> set frag"
  obtains name nodes m where "(name, nodes) \<in> set T" "m \<in> set nodes" "n \<in> subnodes m"
proof -
  let ?search = "case fr_template fref of
            Some tpl \<Rightarrow> (case hm_get T tpl of None \<Rightarrow> [] | Some nodes \<Rightarrow> [nodes])
          | None \<Rightarrow> map snd T"
  have sub: "nodes \<in> snd ` set T" if "nodes \<in> set ?search" for nodes
    using that by (cases "fr_template fref")
      (auto simp: hm_get_def image_iff split: option.splits dest!: map_of_SomeD [OF sym], force)
  show thesis
  proof (cases "fr_name fref = []")
    case True
    then have "frag \<in> set ?search"
      using assms(1) by (auto simp: resolve_fragment_def Let_def split: list.splits)
    with sub assms(2) that show thesis by (metis (no_types) imageE prod.collapse subnodes_self)
  next
    case False
    then obtain node where node: "frag = [node]"
      and found: "find_map (\<lambda>nodes. find_fragment nodes (fr_name fref)) ?search = Some node"
      using assms(1) by (auto simp: resolve_fragment_def Let_def)
    obtain nodes where "nodes \<in> set ?search" "find_fragment nodes (fr_name fref) = Some node"
      using found by (rule find_map_Some_obtain)
    moreover from this(2) obtain m where "m \<in> set nodes" "node \<in> subnodes m"
      unfolding find_fragment_def by (elim find_map_Some_obtain) (blast dest: fragment_in_subnodes)
    ultimately show thesis using that sub node assms(2) by force
  qed
qed

lemma emit_all_induct:
  assumes "emit_all f xs = Inr out" "\<And>x a. x \<in> set xs \<Longrightarrow> f x = Inr a \<Longrightarrow> P a"
    "P []" "\<And>a b. P a \<Longrightarrow> P b \<Longrightarrow> P (a @ b)"
  shows "P out"
  using assms(1,2)
proof (induction xs arbitrary: out)
  case Nil
  then show ?case using assms(3) by simp
next
  case (Cons x xs)
  then show ?case by (auto simp: bind_run_def split: sum.splits intro!: assms(4))
qed

section \<open>What a rendering is made of\<close>

datatype piece = Markup string | Data inline_mode string

fun piece_text :: "piece \<Rightarrow> string" where
  "piece_text (Markup t) = t"
| "piece_text (Data mode s) = escape_for mode s"

definition markups :: "piece list \<Rightarrow> string list" where
  "markups ps = List.map_filter (\<lambda>p. case p of Markup t \<Rightarrow> Some t | _ \<Rightarrow> None) ps"

text \<open>The strings a node writes apart from escaped text.\<close>

definition attr_open :: "string \<Rightarrow> string" where
  "attr_open name = '' '' @ name @ [CHR ''='', CHR 0x22]"

definition tag_markup :: "string \<Rightarrow> 'f directives \<Rightarrow> string set" where
  "tag_markup tag d =
     {''<'' @ tag, ''>'', [CHR 0x22], ''</'' @ tag @ ''>''} \<union>
     attr_open ` (fst ` set (static_attrs d) \<union> fst ` set (dynamic_attrs d))"

fun node_markup :: "'f dom \<Rightarrow> string set" where
  "node_markup (Text t) = {t}"
| "node_markup (Inline parts) = {s. Lit s \<in> set parts}"
| "node_markup (Comment c) = {''<!--'' @ c @ ''-->''}"
| "node_markup (Declaration t) = {t}"
| "node_markup (Element tag void d children) = tag_markup tag d \<union> (\<Union>n\<in>set children. node_markup n)"

definition csrf_markup :: "string set" where
  "csrf_markup =
     {''<input type='' @ [CHR 0x22] @ ''hidden'' @ [CHR 0x22] @ '' name='' @ [CHR 0x22] @ CSRF_FIELD @ [CHR 0x22] @
      '' value='' @ [CHR 0x22], [CHR 0x22] @ ''>''}"

definition templates_markup :: "'f templates \<Rightarrow> string set" where
  "templates_markup T = csrf_markup \<union> (\<Union>(name, nodes)\<in>set T. \<Union>n\<in>set nodes. node_markup n)"

text \<open>No node asks for unescaped output.\<close>

fun raw_free :: "'f dom \<Rightarrow> bool" where
  "raw_free (Inline parts) = list_all (\<lambda>p. case p of Raw _ \<Rightarrow> False | _ \<Rightarrow> True) parts"
| "raw_free (Element tag void d children) = (th_utext d = None \<and> list_all raw_free children)"
| "raw_free _ = True"

definition made_from :: "string set \<Rightarrow> string \<Rightarrow> bool" where
  "made_from V out \<longleftrightarrow> (\<exists>ps. out = concat (map piece_text ps) \<and> set (markups ps) \<subseteq> V)"

lemma markups_simps [simp]:
  "markups [] = []" "markups (Markup t # ps) = t # markups ps" "markups (Data mode s # ps) = markups ps"
  "markups (ps @ qs) = markups ps @ markups qs"
  by (simp_all add: markups_def List.map_filter_def)

lemma made_from_Nil [simp, intro]: "made_from V []"
  unfolding made_from_def by (rule exI [of _ "[]"]) simp

lemma made_from_append [intro]: "made_from V a \<Longrightarrow> made_from V b \<Longrightarrow> made_from V (a @ b)"
  unfolding made_from_def by (metis (no_types) concat_append le_sup_iff map_append markups_simps(4) set_append)

lemma made_from_markup: "t \<in> V \<Longrightarrow> made_from V t"
  unfolding made_from_def by (rule exI [of _ "[Markup t]"]) simp

lemma made_from_data [simp, intro]: "made_from V (escape_for mode s)" "made_from V (escape_html s)"
  unfolding made_from_def
  by (rule exI [of _ "[Data mode s]"], simp) (rule exI [of _ "[Data Html s]"], simp add: escape_for_def)

lemma made_from_concat: "(\<And>x. x \<in> set xs \<Longrightarrow> made_from V x) \<Longrightarrow> made_from V (concat xs)"
  by (induction xs) auto

lemma made_from_attr: "attr_open name \<in> V \<Longrightarrow> [CHR 0x22] \<in> V \<Longrightarrow> made_from V (attr_text name val)"
proof -
  assume "attr_open name \<in> V" "[CHR 0x22] \<in> V"
  then have "made_from V (attr_open name @ escape_html val @ [CHR 0x22])"
    by (intro made_from_append made_from_markup made_from_data)
  then show ?thesis by (simp add: attr_text_def attr_open_def)
qed

lemma made_from_tag:
  assumes "tag_markup tag d \<subseteq> V"
  shows "made_from V (''<'' @ tag)" "made_from V ''>''" "made_from V (''</'' @ tag @ ''>'')"
    "\<And>n v t. (n, v) \<in> set (static_attrs d) \<Longrightarrow> made_from V (attr_text n t)"
    "\<And>n e t. (n, e) \<in> set (dynamic_attrs d) \<Longrightarrow> made_from V (attr_text n t)"
proof -
  have "''<'' @ tag \<in> V" "''>'' \<in> V" "''</'' @ tag @ ''>'' \<in> V" and q: "[CHR 0x22] \<in> V"
    using assms by (auto simp: tag_markup_def)
  then show "made_from V (''<'' @ tag)" "made_from V ''>''" "made_from V (''</'' @ tag @ ''>'')"
    by (blast intro: made_from_markup)+
  have "attr_open n \<in> V" if "n \<in> fst ` set (static_attrs d) \<union> fst ` set (dynamic_attrs d)" for n
    using assms that by (auto simp: tag_markup_def)
  then show "\<And>n v t. (n, v) \<in> set (static_attrs d) \<Longrightarrow> made_from V (attr_text n t)"
    "\<And>n e t. (n, e) \<in> set (dynamic_attrs d) \<Longrightarrow> made_from V (attr_text n t)"
    using q made_from_attr by (metis UnI1 UnI2 fst_conv image_eqI)+
qed

lemma made_from_open_tag:
  assumes "tag_markup tag d \<subseteq> V"
  shows "made_from V (open_tag F E scope tag d)"
proof -
  note tag = made_from_tag [OF assms]
  have "made_from V (concat (map (\<lambda>(n, v). attr_text n v) (static_attrs d)))"
    by (auto intro!: made_from_concat tag(4))
  moreover have "made_from V (concat (map (\<lambda>(n, e). attr_text n (expr_text F E scope e)) (dynamic_attrs d)))"
    by (auto intro!: made_from_concat tag(5))
  ultimately have "made_from V ((''<'' @ tag) @ concat (map (\<lambda>(n, v). attr_text n v) (static_attrs d)) @
     concat (map (\<lambda>(n, e). attr_text n (expr_text F E scope e)) (dynamic_attrs d)) @ ''>'')"
    by (intro made_from_append [OF tag(1)] made_from_append [OF _ made_from_append [OF _ tag(2)]])
  then show ?thesis by (simp add: open_tag_def)
qed

lemma made_from_csrf:
  assumes "csrf_markup \<subseteq> V"
  shows "made_from V (csrf_part E tag d)"
proof -
  let ?pre = "''<input type='' @ [CHR 0x22] @ ''hidden'' @ [CHR 0x22] @ '' name='' @ [CHR 0x22] @ CSRF_FIELD @
      [CHR 0x22] @ '' value='' @ [CHR 0x22]"
  have "?pre \<in> V" "[CHR 0x22] @ ''>'' \<in> V" using assms by (simp_all only: csrf_markup_def insert_subset)
  then have "made_from V (?pre @ escape_html tok @ [CHR 0x22] @ ''>'')" for tok
    by (intro made_from_append [OF made_from_markup made_from_append [OF made_from_data(2) made_from_markup]])
  then have "made_from V (csrf_input tok)" for tok by (simp add: csrf_input_def)
  then show ?thesis by (auto simp: csrf_part_def split: option.splits)
qed

lemma raw_free_subnode: "raw_free m \<Longrightarrow> n \<in> subnodes m \<Longrightarrow> raw_free n"
  by (induction m rule: subnodes.induct) (auto simp: list_all_iff)

lemma node_markup_subnode: "n \<in> subnodes m \<Longrightarrow> node_markup n \<subseteq> node_markup m"
  by (induction m rule: subnodes.induct) auto

lemma raw_free_inline:
  assumes "list_all (\<lambda>p. case p of Raw _ \<Rightarrow> False | _ \<Rightarrow> True) parts" "{s. Lit s \<in> set parts} \<subseteq> V"
  shows "made_from V (render_inline F E scope mode parts)"
  unfolding render_inline_def
proof (rule made_from_concat, unfold set_map, elim imageE, hypsubst)
  fix p assume p: "p \<in> set parts"
  show "made_from V (case p of Lit s \<Rightarrow> s | Escaped e \<Rightarrow> escape_for mode (expr_text F E scope e)
      | Raw e \<Rightarrow> expr_text F E scope e)"
  proof (cases p)
    case (Lit t)
    then show ?thesis using p assms(2) by (auto intro: made_from_markup)
  next
    case (Raw e)
    then show ?thesis using p assms(1) by (auto simp: list_all_iff)
  qed simp
qed

lemma templates_markup_node: "(name, nodes) \<in> set T \<Longrightarrow> r \<in> set nodes \<Longrightarrow> node_markup r \<subseteq> templates_markup T"
  by (force simp: templates_markup_def)

lemma render_instance_made_from:
  assumes out: "render_instance F E tag void d scope mode body incl = Inr out"
    and V: "tag_markup tag d \<subseteq> V" "csrf_markup \<subseteq> V" and utext: "th_utext d = None"
    and body: "\<And>m a. body m = Inr a \<Longrightarrow> made_from V a" and incl: "\<And>m fref a. incl m fref = Inr a \<Longrightarrow> made_from V a"
  shows "made_from V out"
proof -
  let ?open = "open_tag F E scope tag d"
  have op: "made_from V ?open" using V(1) by (rule made_from_open_tag)
  have cl: "made_from V (''</'' @ tag @ ''>'')"
    using V(1) by (intro made_from_markup) (auto simp: tag_markup_def)
  have all: "made_from V (?open @ csrf_part E tag d @ inner @ ''</'' @ tag @ ''>'')" if "made_from V inner" for inner
    by (rule made_from_append [OF op made_from_append [OF made_from_csrf [OF V(2)] made_from_append [OF that cl]]])
  have inner: "made_from V a" if "element_body F E d scope mode body incl = Inr a" for a
    using that utext body incl by (auto simp: element_body_def Let_def split: option.splits)
  show ?thesis
    using out op incl all inner
    by (auto simp: render_instance_def bind_run_def simp del: append_assoc split: if_splits option.splits sum.splits)
qed

lemma render_element_made_from:
  assumes "render_element F E tag void d scope mode body incl = Inr out"
    and "tag_markup tag d \<subseteq> V" "csrf_markup \<subseteq> V" "th_utext d = None"
    and "\<And>sc m a. body sc m = Inr a \<Longrightarrow> made_from V a" "\<And>sc m fref a. incl sc m fref = Inr a \<Longrightarrow> made_from V a"
  shows "made_from V out"
  using assms(1) unfolding render_element_def
proof (rule emit_all_induct)
  fix sc a assume "render_instance F E tag void d sc mode (body sc) (incl sc) = Inr a"
  then show "made_from V a" using assms(2-6) by (rule render_instance_made_from)
qed auto

lemma emit_all_made_from:
  assumes "emit_all f xs = Inr out" "\<And>x a. x \<in> set xs \<Longrightarrow> f x = Inr a \<Longrightarrow> made_from V a"
  shows "made_from V out"
  using assms by (rule emit_all_induct) auto

lemma render_node_made_from:
  assumes "\<forall>(name, nodes)\<in>set T. list_all raw_free nodes" "templates_markup T \<subseteq> V"
  shows "raw_free n \<Longrightarrow> node_markup n \<subseteq> V \<Longrightarrow> render_node F T E scope mode depth n = Inr out \<Longrightarrow> made_from V out"
  using assms
proof (induction F T E scope mode depth n arbitrary: out rule: render_node.induct)
  case (5 F T E scope mode depth tag void d children)
  have child: "made_from V a" if "render_nodes F T E sc m depth children = Inr a" for sc m a
  proof (rule emit_all_made_from [OF that])
    fix n c assume n: "n \<in> set children" "render_node F T E sc m depth n = Inr c"
    moreover from n(1) have "raw_free n" "node_markup n \<subseteq> V" using 5(3,4) by (auto simp: list_all_iff)
    ultimately show "made_from V c" using 5(1) [OF n(1)] 5(6,7) by blast
  qed
  have frag: "made_from V a"
    if F: "\<not> MAX_FRAGMENT_DEPTH \<le> depth" "resolve_fragment T fref = Some frag"
      "render_nodes F T E sc m (depth + 1) frag = Inr a" for sc m fref frag a
  proof (rule emit_all_made_from [OF F(3)])
    fix n b assume n: "n \<in> set frag" "render_node F T E sc m (depth + 1) n = Inr b"
    obtain name nodes r where r: "(name, nodes) \<in> set T" "r \<in> set nodes" "n \<in> subnodes r"
      using resolve_fragment_subnodes [OF F(2) n(1)] .
    then have "raw_free r" "node_markup r \<subseteq> V"
      using 5(6,7) templates_markup_node [OF r(1,2)] by (auto simp: list_all_iff)
    with r(3) have "raw_free n" "node_markup n \<subseteq> V"
      using raw_free_subnode node_markup_subnode by blast+
    then show "made_from V b"
      using 5(2) [OF F(1,2) n(1)] n(2) 5(6,7) by blast
  qed
  show ?case
  proof (rule render_element_made_from [OF 5(5) [unfolded render_node.simps(5)]])
    show "tag_markup tag d \<subseteq> V" "csrf_markup \<subseteq> V" "th_utext d = None"
      using 5(3,4,7) by (auto simp: templates_markup_def)
  qed (use child frag in \<open>auto split: if_splits option.splits\<close>)
next
  case (2 F T E scope mode depth parts)
  then show ?case using raw_free_inline [of parts V F E scope mode] by auto
qed (auto intro: made_from_markup)

lemma filter_angle_pieces: "filter angle (concat (map piece_text ps)) = filter angle (concat (markups ps))"
proof (induction ps)
  case (Cons p ps)
  then show ?case by (cases p) auto
qed simp

section \<open>Rewriting the templates\<close>

text \<open>
  A change \<open>g\<close> to every node of every template, together with a change of the environment, that
  no rendering notices: it keeps the fragments where they are, and an element renders alike
  whenever its children and the fragments do.
\<close>

definition map_templates :: "('f dom \<Rightarrow> 'f dom) \<Rightarrow> 'f templates \<Rightarrow> 'f templates" where
  "map_templates g T = map (\<lambda>(name, nodes). (name, map g nodes)) T"

definition all_nodes :: "('f dom \<Rightarrow> bool) \<Rightarrow> 'f templates \<Rightarrow> bool" where
  "all_nodes P T \<longleftrightarrow> (\<forall>(name, nodes)\<in>set T. list_all P nodes)"

locale node_rewriting =
  fixes g :: "'f dom \<Rightarrow> 'f dom"
    and good :: "'f dom \<Rightarrow> bool"
    and F :: "'f std_ops"
    and E E' :: "'f render_env"
  assumes same_env: "re_env E' = re_env E"
    and leaf: "g (Text t) = Text t" "g (Inline parts) = Inline parts" "g (Comment c) = Comment c" "g (Declaration t) = Declaration t"
    and fragment: "good n \<Longrightarrow> fragment_in name (g n) = map_option g (fragment_in name n)"
    and fragment_good: "good n \<Longrightarrow> fragment_in name n = Some m \<Longrightarrow> good m"
    and element: "good (Element tag void d children) \<Longrightarrow> g (Element tag void d children) = Element tag void' d' children' \<Longrightarrow>
      (\<And>sc m c. c \<in> set children \<Longrightarrow> good c \<Longrightarrow> R' sc m (g c) = R sc m c) \<Longrightarrow> (\<And>sc m t. R' sc m (Text t) = Inr t) \<Longrightarrow>
      render_element F E' tag void' d' scope mode (\<lambda>sc m. emit_all (R' sc m) children') incl =
      render_element F E tag void d scope mode (\<lambda>sc m. emit_all (R sc m) children) incl"
    and element_tag: "\<exists>void' d' children'. g (Element tag void d children) = Element tag void' d' children'"
begin

lemma expr_text_same: "expr_text F E' = expr_text F E"
  by (intro ext) (simp add: expr_text_def same_env)

lemma render_inline_same: "render_inline F E' = render_inline F E"
  by (intro ext, unfold render_inline_def expr_text_same, rule refl)

lemma find_fragment_map:
  assumes "list_all good nodes"
  shows "find_fragment (map g nodes) name = map_option g (find_fragment nodes name)"
  using assms by (induction nodes) (auto simp: find_fragment_def fragment split: option.splits)

lemma find_fragment_good: "list_all good nodes \<Longrightarrow> find_fragment nodes name = Some m \<Longrightarrow> good m"
  by (induction nodes) (auto simp: find_fragment_def fragment_good split: option.splits)

lemma find_fragments_map:
  "\<forall>nodes\<in>set search. list_all good nodes \<Longrightarrow>
     find_map (\<lambda>nodes. find_fragment nodes name) (map (map g) search) =
     map_option g (find_map (\<lambda>nodes. find_fragment nodes name) search)"
  by (induction search) (auto simp: find_fragment_map split: option.splits)

lemma search_map:
  "(case tpl of Some t \<Rightarrow> (case hm_get (map_templates g T) t of None \<Rightarrow> [] | Some nodes \<Rightarrow> [nodes])
     | None \<Rightarrow> map snd (map_templates g T)) =
   map (map g) (case tpl of Some t \<Rightarrow> (case hm_get T t of None \<Rightarrow> [] | Some nodes \<Rightarrow> [nodes]) | None \<Rightarrow> map snd T)"
proof (cases tpl)
  case None
  then show ?thesis by (simp add: map_templates_def comp_def case_prod_unfold)
next
  case (Some t)
  have "map_of (map (\<lambda>(name, nodes). (name, map g nodes)) T) t = map_option (map g) (map_of T t)"
    by (simp add: map_of_map [unfolded comp_def])
  with Some show ?thesis by (simp add: map_templates_def hm_get_def split: option.splits)
qed

lemma search_good:
  "all_nodes good T \<Longrightarrow>
   nodes \<in> set (case tpl of Some t \<Rightarrow> (case hm_get T t of None \<Rightarrow> [] | Some nodes \<Rightarrow> [nodes]) | None \<Rightarrow> map snd T) \<Longrightarrow>
   list_all good nodes"
  by (auto simp: all_nodes_def hm_get_def split: option.splits dest!: map_of_SomeD [OF sym])

lemma resolve_fragment_map:
  assumes "all_nodes good T"
  shows "resolve_fragment (map_templates g T) fref = map_option (map g) (resolve_fragment T fref)"
  using find_fragments_map [OF ballI [OF search_good [OF assms]], where name = "fr_name fref"]
  unfolding resolve_fragment_def Let_def search_map
  by (auto split: list.splits simp: option.map_comp comp_def)

lemma resolve_fragment_good:
  assumes "all_nodes good T" "resolve_fragment T fref = Some frag"
  shows "list_all good frag"
proof -
  note good = search_good [OF assms(1), of _ "fr_template fref"]
  show ?thesis
    using assms(2) find_fragment_good [OF good] good unfolding resolve_fragment_def Let_def
    by (auto split: if_splits list.splits elim!: find_map_Some_obtain)
qed

lemma emit_all_map: "(\<And>x. x \<in> set xs \<Longrightarrow> f' (h x) = f x) \<Longrightarrow> emit_all f' (map h xs) = emit_all f xs"
  by (induction xs) auto

lemma render_node_map:
  "F' = F \<Longrightarrow> E0 = E \<Longrightarrow> all_nodes good T \<Longrightarrow> good n \<Longrightarrow>
     render_node F' (map_templates g T) E' scope mode depth (g n) = render_node F' T E0 scope mode depth n"
proof (induction F' T E0 scope mode depth n rule: render_node.induct)
  case (5 F' T E0 scope mode depth tag void d children)
  obtain void' d' children' where g: "g (Element tag void d children) = Element tag void' d' children'"
    using element_tag by blast
  have frag: "(case resolve_fragment (map_templates g T) fref of None \<Rightarrow> Inr []
        | Some frag \<Rightarrow> render_nodes F (map_templates g T) E' sc m (depth + 1) frag) =
      (case resolve_fragment T fref of None \<Rightarrow> Inr []
        | Some frag \<Rightarrow> render_nodes F T E sc m (depth + 1) frag)"
    if "\<not> MAX_FRAGMENT_DEPTH \<le> depth" for sc m fref
  proof (cases "resolve_fragment T fref")
    case (Some frag)
    with 5(5) have "list_all good frag" by (intro resolve_fragment_good)
    then have "render_nodes F (map_templates g T) E' sc m (depth + 1) (map g frag) =
        render_nodes F T E sc m (depth + 1) frag"
      using 5(2) [OF that Some] 5(3-5) by (intro emit_all_map) (auto simp: list_all_iff)
    with Some 5(5) show ?thesis by (simp add: resolve_fragment_map)
  qed (use 5(5) in \<open>simp add: resolve_fragment_map\<close>)
  have "render_node F (map_templates g T) E' sc m depth (g c) = render_node F T E sc m depth c"
    if "c \<in> set children" "good c" for sc m c
    using 5(1) [OF that(1)] 5(3-5) that(2) by simp
  note el = element [OF 5(6) g this render_node.simps(1)]
  have "(\<lambda>sc m fref. if MAX_FRAGMENT_DEPTH \<le> depth then Inl Fragments_too_deep
        else (case resolve_fragment (map_templates g T) fref of None \<Rightarrow> Inr []
              | Some frag \<Rightarrow> render_nodes F (map_templates g T) E' sc m (depth + 1) frag)) =
      (\<lambda>sc m fref. if MAX_FRAGMENT_DEPTH \<le> depth then Inl Fragments_too_deep
        else (case resolve_fragment T fref of None \<Rightarrow> Inr []
              | Some frag \<Rightarrow> render_nodes F T E sc m (depth + 1) frag))"
    by (intro ext) (simp add: frag)
  then show ?case unfolding g 5(3,4) render_node.simps(5) by (simp only: el)
qed (simp_all add: leaf render_inline_same)

lemma render_nodes_map:
  "all_nodes good T \<Longrightarrow> list_all good nodes \<Longrightarrow>
     render_nodes F (map_templates g T) E' scope mode depth (map g nodes) = render_nodes F T E scope mode depth nodes"
  by (rule emit_all_map) (auto simp: render_node_map list_all_iff)

end

lemma all_nodes_get: "all_nodes P T \<Longrightarrow> hm_get T name = Some nodes \<Longrightarrow> list_all P nodes"
  by (auto simp: all_nodes_def hm_get_def dest: map_of_SomeD)

lemma hm_get_map_templates: "hm_get (map_templates g T) name = map_option (map g) (hm_get T name)"
  by (simp add: map_templates_def hm_get_def map_of_map [unfolded comp_def])

section \<open>What an authorization check hides\<close>

definition denied :: "authorization \<Rightarrow> 'f directives \<Rightarrow> bool" where
  "denied az d \<longleftrightarrow> (case th_authorize d of None \<Rightarrow> False | Some auth \<Rightarrow> \<not> allows az auth)"

text \<open>An element of which only the check and the name of the fragment are left.\<close>

definition bare :: "'f directives \<Rightarrow> 'f directives" where
  "bare d =
     \<lparr>static_attrs = [], dynamic_attrs = [], th_if = None, th_unless = None, th_each = None, th_text = None,
      th_utext = None, th_inline = None, th_authorize = th_authorize d, th_fragment = th_fragment d,
      th_insert = None, th_replace = None\<rparr>"

fun hide :: "authorization \<Rightarrow> 'f dom \<Rightarrow> 'f dom" where
  "hide az (Element tag void d children) =
     (if denied az d then Element tag void (bare d) [] else Element tag void d (map (hide az) children))"
| "hide az n = n"

fun no_fragment :: "'f dom \<Rightarrow> bool" where
  "no_fragment (Element tag void d children) = (th_fragment d = None \<and> list_all no_fragment children)"
| "no_fragment n = True"

text \<open>No fragment is declared inside an element that is denied.\<close>

fun hides_no_fragment :: "authorization \<Rightarrow> 'f dom \<Rightarrow> bool" where
  "hides_no_fragment az (Element tag void d children) =
     (if denied az d then list_all no_fragment children else list_all (hides_no_fragment az) children)"
| "hides_no_fragment az n = True"

lemma no_fragment_in: "no_fragment n \<Longrightarrow> fragment_in name n = None"
  by (induction name n rule: fragment_in.induct) (auto simp: find_map_None list_all_iff)

lemma find_map_map_option:
  "(\<And>x. x \<in> set xs \<Longrightarrow> f (h x) = map_option h (f x)) \<Longrightarrow> find_map f (map h xs) = map_option h (find_map f xs)"
  by (induction xs) (auto split: option.splits)

lemma fragment_in_hide: "hides_no_fragment az n \<Longrightarrow> fragment_in name (hide az n) = map_option (hide az) (fragment_in name n)"
proof (induction az n rule: hide.induct)
  case (1 az tag void d children)
  show ?case
  proof (cases "denied az d")
    case True
    then have "find_map (fragment_in name) children = None"
      using 1 by (auto simp: find_map_None list_all_iff no_fragment_in)
    with True show ?thesis by (simp add: bare_def)
  next
    case False
    then have "find_map (fragment_in name) (map (hide az) children) = map_option (hide az) (find_map (fragment_in name) children)"
      using 1 by (intro find_map_map_option) (simp add: list_all_iff)
    with False show ?thesis by simp
  qed
qed simp_all

lemma fragment_in_hides_no_fragment:
  "hides_no_fragment az n \<Longrightarrow> fragment_in name n = Some m \<Longrightarrow> hides_no_fragment az m"
proof (induction az n rule: hides_no_fragment.induct)
  case (1 az tag void d children)
  show ?case
  proof (cases "th_fragment d = Some name")
    case False
    then have "find_map (fragment_in name) children = Some m" using 1(3) by simp
    then obtain c where c: "c \<in> set children" "fragment_in name c = Some m" by (rule find_map_Some_obtain)
    then have "\<not> denied az d" using 1(2) no_fragment_in [of c name] by (auto simp: list_all_iff)
    then show ?thesis using 1(1,2) c by (auto simp: list_all_iff)
  qed (use 1 in auto)
qed simp_all

lemma emit_nothing: "(\<And>x. x \<in> set xs \<Longrightarrow> f x = Inr []) \<Longrightarrow> emit_all f xs = Inr []"
  by (induction xs) auto

lemma render_element_denied: "denied (re_authz E) d \<Longrightarrow> render_element F E tag void d scope mode body incl = Inr []"
  unfolding render_element_def by (rule emit_nothing) (simp add: render_instance_def hidden_def denied_def)

interpretation hiding: node_rewriting "hide (re_authz E)" "hides_no_fragment (re_authz E)" F E E for F :: "'f std_ops" and E :: "'f render_env"
proof unfold_locales
  fix tag void d and children :: "'f dom list" and void' d' children' and R R' :: "'f bindings \<Rightarrow> inline_mode \<Rightarrow> 'f dom \<Rightarrow> 'f template_error + string" and scope mode incl
  assume good: "hides_no_fragment (re_authz E) (Element tag void d children)"
    and g: "hide (re_authz E) (Element tag void d children) = Element tag void' d' children'"
    and R: "\<And>sc m c. c \<in> set children \<Longrightarrow> hides_no_fragment (re_authz E) c \<Longrightarrow> R' sc m (hide (re_authz E) c) = R sc m c"
  show "render_element F E tag void' d' scope mode (\<lambda>sc m. emit_all (R' sc m) children') incl =
      render_element F E tag void d scope mode (\<lambda>sc m. emit_all (R sc m) children) incl"
  proof (cases "denied (re_authz E) d")
    case True
    then have "denied (re_authz E) d'" using g by (auto simp: bare_def denied_def)
    with True show ?thesis by (simp add: render_element_denied)
  next
    case False
    have "emit_all (R' sc m) (map (hide (re_authz E)) children) = emit_all (R sc m) children" for sc m
      using R good False by (induction children) auto
    with False g show ?thesis by auto
  qed
qed (auto simp: fragment_in_hide intro: fragment_in_hides_no_fragment)


section \<open>The CSRF field as a child\<close>

definition guarded_form :: "string \<Rightarrow> 'f directives \<Rightarrow> bool" where
  "guarded_form tag d \<longleftrightarrow> eq_ignore_ascii_case tag ''form'' \<and> is_state_changing_form d"

text \<open>The template an author would write: the field as the first child of every such form.\<close>

fun with_field :: "string \<Rightarrow> 'f dom \<Rightarrow> 'f dom" where
  "with_field tok (Element tag void d children) =
     Element tag void d ((if guarded_form tag d then [Text (csrf_input tok)] else []) @ map (with_field tok) children)"
| "with_field tok n = n"

text \<open>The forms get their content from their children.\<close>

fun plain_forms :: "'f dom \<Rightarrow> bool" where
  "plain_forms (Element tag void d children) =
     ((guarded_form tag d \<longrightarrow> void \<or> th_insert d = None \<and> th_text d = None \<and> th_utext d = None) \<and> list_all plain_forms children)"
| "plain_forms n = True"

definition without_token :: "'f render_env \<Rightarrow> 'f render_env" where
  "without_token E = E\<lparr>re_csrf := None\<rparr>"

lemma without_token_simps [simp]:
  "re_env (without_token E) = re_env E" "re_authz (without_token E) = re_authz E" "re_csrf (without_token E) = None"
  by (simp_all add: without_token_def)

lemma expr_text_without_token: "expr_text F (without_token E) = expr_text F E"
  by (intro ext, unfold expr_text_def without_token_simps, rule refl)

lemma hidden_without_token: "hidden F (without_token E) = hidden F E"
  by (intro ext, unfold hidden_def without_token_simps, rule refl)

lemma open_tag_without_token: "open_tag F (without_token E) = open_tag F E"
  by (intro ext, unfold open_tag_def expr_text_def without_token_simps, rule refl)

lemma each_scopes_without_token: "each_scopes F (without_token E) = each_scopes F E"
  by (intro ext, unfold each_scopes_def without_token_simps, rule refl)

lemmas without_token_same = expr_text_without_token hidden_without_token open_tag_without_token each_scopes_without_token

lemma fragment_in_with_field:
  "fragment_in name (with_field tok n) = map_option (with_field tok) (fragment_in name n)"
proof (induction tok n rule: with_field.induct)
  case (1 tok tag void d children)
  then have "find_map (fragment_in name) (map (with_field tok) children) =
      map_option (with_field tok) (find_map (fragment_in name) children)"
    by (intro find_map_map_option)
  then show ?case by simp
qed simp_all

lemma fragment_in_plain_forms: "plain_forms n \<Longrightarrow> fragment_in name n = Some m \<Longrightarrow> plain_forms m"
proof (induction n rule: plain_forms.induct)
  case (1 tag void d children)
  then show ?case by (cases "th_fragment d = Some name") (auto simp: list_all_iff elim!: find_map_Some_obtain)
qed simp_all

lemma render_instance_with_field:
  assumes "re_csrf E = Some tok" "guarded_form tag d \<Longrightarrow> void \<or> th_insert d = None \<and> th_text d = None \<and> th_utext d = None"
    "\<And>m. body' m = bind_run (body m) (\<lambda>t. Inr ((if guarded_form tag d then csrf_input tok else []) @ t))"
  shows "render_instance F (without_token E) tag void d sc mode body' incl = render_instance F E tag void d sc mode body incl"
proof -
  note same = without_token_same
  have none: "csrf_part (without_token E) tag d = []" by (simp add: csrf_part_def)
  have some: "csrf_part E tag d = (if guarded_form tag d then csrf_input tok else [])"
    using assms(1) by (simp add: csrf_part_def guarded_form_def)
  have body: "bind_run (element_body F (without_token E) d sc mode body' incl) (\<lambda>inner. Inr (inner @ rest)) =
      bind_run (element_body F E d sc mode body incl) (\<lambda>inner. Inr (csrf_part E tag d @ inner @ rest))"
    if "\<not> void" for rest
    using assms(2) that unfolding some element_body_def Let_def same
    by (cases "guarded_form tag d")
      (auto simp: assms(3) bind_run_def split: option.splits sum.splits)
  show ?thesis
  proof (cases "void \<or> hidden F E d sc \<or> th_replace d \<noteq> None")
    case True
    then show ?thesis by (auto simp: render_instance_def same split: option.splits)
  next
    case False
    have "bind_run (element_body F (without_token E) d sc mode body' incl) (\<lambda>inner. Inr (p @ inner @ rest)) =
      bind_run (element_body F E d sc mode body incl) (\<lambda>inner. Inr (p @ csrf_part E tag d @ inner @ rest))" for p rest :: string
      using body [of rest] False by (auto simp: bind_run_def split: sum.splits)
    with False show ?thesis by (simp add: render_instance_def same none)
  qed
qed

lemma emit_all_append: "emit_all f (xs @ ys) = bind_run (emit_all f xs) (\<lambda>a. bind_run (emit_all f ys) (\<lambda>b. Inr (a @ b)))"
  by (induction xs) (auto simp: bind_run_def split: sum.splits)

lemma field_rewriting:
  fixes E :: "'f render_env"
  assumes "re_csrf E = Some tok"
  shows "node_rewriting (with_field tok) plain_forms F E (without_token E)"
proof unfold_locales
  fix tag void d and children :: "'f dom list" and void' d' children' and scope mode incl
    and R R' :: "'f bindings \<Rightarrow> inline_mode \<Rightarrow> 'f dom \<Rightarrow> 'f template_error + string"
  assume good: "plain_forms (Element tag void d children)"
    and g: "with_field tok (Element tag void d children) = Element tag void' d' children'"
    and R: "\<And>sc m c. c \<in> set children \<Longrightarrow> plain_forms c \<Longrightarrow> R' sc m (with_field tok c) = R sc m c"
    and field: "\<And>sc m t. R' sc m (Text t) = Inr t"
  have "emit_all (R' sc m) (map (with_field tok) children) = emit_all (R sc m) children" for sc m
    using R good by (induction children) auto
  then have "emit_all (R' sc m) children' =
      bind_run (emit_all (R sc m) children) (\<lambda>t. Inr ((if guarded_form tag d then csrf_input tok else []) @ t))" for sc m
    using g field by (auto simp: emit_all_append bind_run_def split: sum.splits)
  then show "render_element F (without_token E) tag void' d' scope mode (\<lambda>sc m. emit_all (R' sc m) children') incl =
      render_element F E tag void d scope mode (\<lambda>sc m. emit_all (R sc m) children) incl"
    using g good unfolding render_element_def without_token_same
    by (auto intro!: emit_all_cong render_instance_with_field [OF assms])
qed (auto simp: fragment_in_with_field without_token_def intro: fragment_in_plain_forms)


section \<open>When rendering succeeds\<close>

fun fragment_refs :: "'f dom \<Rightarrow> fragment_ref list" where
  "fragment_refs (Element tag void d children) =
     (case th_replace d of None \<Rightarrow> [] | Some r \<Rightarrow> [r]) @ (case th_insert d of None \<Rightarrow> [] | Some r \<Rightarrow> [r]) @
     concat (map fragment_refs children)"
| "fragment_refs n = []"

text \<open>Fragments nest at most \<open>k\<close> deep below a node.\<close>

fun nests :: "'f templates \<Rightarrow> nat \<Rightarrow> 'f dom \<Rightarrow> bool" where
  "nests T 0 n \<longleftrightarrow> fragment_refs n = []"
| "nests T (Suc k) n \<longleftrightarrow>
     list_all (\<lambda>r. case resolve_fragment T r of None \<Rightarrow> True | Some frag \<Rightarrow> list_all (nests T k) frag) (fragment_refs n)"

lemma nests_child: "nests T k (Element tag void d children) \<Longrightarrow> c \<in> set children \<Longrightarrow> nests T k c"
  by (cases k) (auto simp: list_all_iff)

lemma nests_ref:
  assumes "nests T k (Element tag void d children)" "th_insert d = Some r \<or> th_replace d = Some r"
  obtains k' where "k = Suc k'" "\<And>frag. resolve_fragment T r = Some frag \<Longrightarrow> list_all (nests T k') frag"
  using assms by (cases k) (auto simp: list_all_iff split: option.splits)

definition succeeds :: "'e + 'a \<Rightarrow> bool" where
  "succeeds r \<longleftrightarrow> (\<exists>x. r = Inr x)"

lemma succeeds_simps [simp]: "succeeds (Inr x)" "\<not> succeeds (Inl e)"
  by (simp_all add: succeeds_def)

lemma succeeds_emit_all: "(\<And>x. x \<in> set xs \<Longrightarrow> succeeds (f x)) \<Longrightarrow> succeeds (emit_all f xs)"
proof (induction xs)
  case (Cons x xs)
  then have "succeeds (f x)" "succeeds (emit_all f xs)" by auto
  then show ?case by (auto simp: succeeds_def)
qed simp

lemma succeeds_element:
  assumes "\<And>sc m. succeeds (body sc m)"
    "\<And>sc m r. th_insert d = Some r \<or> th_replace d = Some r \<Longrightarrow> succeeds (incl sc m r)"
  shows "succeeds (render_element F E tag void d scope mode body incl)"
  unfolding render_element_def
proof (rule succeeds_emit_all)
  fix sc
  have "succeeds (element_body F E d sc mode (body sc) (incl sc))"
    using assms by (auto simp: element_body_def Let_def split: option.splits)
  then show "succeeds (render_instance F E tag void d sc mode (body sc) (incl sc))"
    using assms(2) by (auto simp: render_instance_def bind_run_def split: option.splits sum.splits)
qed

lemma render_node_succeeds:
  "nests T (MAX_FRAGMENT_DEPTH - depth) n \<Longrightarrow> depth \<le> MAX_FRAGMENT_DEPTH \<Longrightarrow> succeeds (render_node F T E scope mode depth n)"
proof (induction F T E scope mode depth n rule: render_node.induct)
  case (5 F T E scope mode depth tag void d children)
  show ?case
    unfolding render_node.simps(5)
  proof (rule succeeds_element)
    fix sc m
    show "succeeds (render_nodes F T E sc m depth children)"
      using 5(1,4) nests_child [OF 5(3)] by (intro succeeds_emit_all) blast
  next
    fix sc m r assume "th_insert d = Some r \<or> th_replace d = Some r"
    then obtain k where k: "MAX_FRAGMENT_DEPTH - depth = Suc k"
      "\<And>frag. resolve_fragment T r = Some frag \<Longrightarrow> list_all (nests T k) frag"
      using nests_ref [OF 5(3)] by metis
    then have "\<not> MAX_FRAGMENT_DEPTH \<le> depth" "k = MAX_FRAGMENT_DEPTH - (depth + 1)" by simp_all
    then show "succeeds (if MAX_FRAGMENT_DEPTH \<le> depth then Inl Fragments_too_deep
          else (case resolve_fragment T r of None \<Rightarrow> Inr []
                | Some frag \<Rightarrow> render_nodes F T E sc m (depth + 1) frag))"
      using 5(2) k(2) by (auto simp: list_all_iff split: option.splits intro!: succeeds_emit_all)
  qed
qed simp_all

section \<open>Properties\<close>

text \<open>
  Escaping is invertible and inert. What an HTML, JavaScript or CSS reader makes of the escaped
  text is the text itself, so no value can be misread; the HTML form contains no angle bracket and
  no quote, the JavaScript form is the body of one string literal, and none of the forms contains
  an angle bracket.
\<close>

theorem escaping_inert:
  "read_html (escape_for Html s) = s \<and> set (escape_for Html s) \<inter> {CHR ''<'', CHR ''>'', CHR 0x22, CHR 0x27} = {} \<and>
   read_js (escape_for JavaScript s) = Some s \<and> read_css (escape_for Css s) = Some (chars s) \<and>
   filter angle (escape_for mode s) = []"
  using escape_html_absent by (simp add: escape_for_def read_escape_html read_escape_js read_escape_css
      filter_angle_escape [of mode s, unfolded escape_for_def])

text \<open>
  C26: rendering is safe by default. When no template asks for raw output, a page consists of strings
  the templates themselves contain and of escaped text: whatever the model, the expressions and
  the CSRF token evaluate to, they add no tag, attribute or comment, and every angle bracket of
  the page is one of the markup strings in their order.
\<close>

theorem template_escapes_data:
  assumes "\<forall>(name, nodes)\<in>set (templates k). list_all raw_free nodes"
    and "render_with F k tpl model ctx = Inr out"
  shows "\<exists>ps. out = concat (map piece_text ps) \<and> set (markups ps) \<subseteq> templates_markup (templates k) \<and>
    filter angle out = filter angle (concat (markups ps))"
proof -
  obtain nodes where nodes: "hm_get (templates k) tpl = Some nodes"
    "render_nodes F (templates k) (env_of k model ctx) [] Html 0 nodes = Inr out"
    using assms(2) by (auto simp: render_with_def split: option.splits)
  then have mem: "(tpl, nodes) \<in> set (templates k)" by (auto simp: hm_get_def dest: map_of_SomeD)
  have "made_from (templates_markup (templates k)) out"
  proof (rule emit_all_made_from [OF nodes(2)])
    fix n a assume n: "n \<in> set nodes" "render_node F (templates k) (env_of k model ctx) [] Html 0 n = Inr a"
    have "raw_free n" using assms(1) mem n(1) by (auto simp: list_all_iff)
    then show "made_from (templates_markup (templates k)) a"
      using render_node_made_from [OF assms(1) order_refl _ templates_markup_node [OF mem n(1)] n(2)] by blast
  qed
  then show ?thesis unfolding made_from_def using filter_angle_pieces by metis
qed

definition no_directives :: "'f directives" where
  "no_directives =
     \<lparr>static_attrs = [], dynamic_attrs = [], th_if = None, th_unless = None, th_each = None, th_text = None,
      th_utext = None, th_inline = None, th_authorize = None, th_fragment = None, th_insert = None, th_replace = None\<rparr>"

definition one_template :: "'f dom list \<Rightarrow> 'f kernleaf" where
  "one_template nodes = \<lparr>templates = [(''page'', nodes)], messages = []\<rparr>"

theorem template_escapes_data_witness:
  "\<forall>F :: unit std_ops. \<exists>ps.
     ''<p>&lt;b&gt;</p>'' = concat (map piece_text ps) \<and>
     set (markups ps) \<subseteq> templates_markup [(''page'', [Element ''p'' False (no_directives\<lparr>th_text := Some (Var [''x''] :: unit expr)\<rparr>) []])] \<and>
     filter angle ''<p>&lt;b&gt;</p>'' = filter angle (concat (markups ps))"
proof
  fix F :: "unit std_ops"
  let ?k = "one_template [Element ''p'' False (no_directives\<lparr>th_text := Some (Var [''x''] :: unit expr)\<rparr>) []]"
  have r: "render_with F ?k ''page'' (VMap [(''x'', VStr ''<b>'')]) \<lparr>rc_authz = None, rc_csrf = None\<rparr> = Inr ''<p>&lt;b&gt;</p>''"
    by (simp add: render_with_def one_template_def hm_get_def render_node.simps(5) render_element_def each_scopes_def
        no_directives_def render_instance_def hidden_def element_body_def expr_text_def env_of_def resolve_def
        value_get_def to_text_def value_to_string_def escape_html_def html_char_def open_tag_def csrf_part_def)
  have "\<forall>(name, nodes)\<in>set (templates ?k). list_all raw_free nodes" by (simp add: one_template_def no_directives_def)
  from template_escapes_data [OF this r] show "\<exists>ps. ''<p>&lt;b&gt;</p>'' = concat (map piece_text ps) \<and>
     set (markups ps) \<subseteq> templates_markup [(''page'', [Element ''p'' False (no_directives\<lparr>th_text := Some (Var [''x''] :: unit expr)\<rparr>) []])] \<and>
     filter angle ''<p>&lt;b&gt;</p>'' = filter angle (concat (markups ps))"
    by (simp add: one_template_def)
qed




text \<open>
  C28: the CSRF field cannot be forgotten. With a token in the context, a page is the one an author
  would have got by writing the hidden field, with that token, as the first child of every form
  whose method attribute is not GET, and rendering without a token; no other element changes.
\<close>

theorem csrf_field_injected:
  assumes "rc_csrf ctx = Some tok" "all_nodes plain_forms (templates k)"
  shows "render_with F k tpl model ctx =
    render_with F (k\<lparr>templates := map_templates (with_field tok) (templates k)\<rparr>) tpl model (ctx\<lparr>rc_csrf := None\<rparr>)"
proof -
  let ?E = "env_of k model ctx"
  have rw: "node_rewriting (with_field tok) plain_forms F ?E (without_token ?E)"
    using assms(1) by (intro field_rewriting) (simp add: env_of_def)
  have E: "env_of (k\<lparr>templates := map_templates (with_field tok) (templates k)\<rparr>) model (ctx\<lparr>rc_csrf := None\<rparr>) = without_token ?E"
    by (simp add: env_of_def without_token_def)
  have "render_nodes F (map_templates (with_field tok) (templates k)) (without_token ?E) [] Html 0 (map (with_field tok) nodes) =
      render_nodes F (templates k) ?E [] Html 0 nodes" if "hm_get (templates k) tpl = Some nodes" for nodes
    using node_rewriting.render_nodes_map [OF rw assms(2)] all_nodes_get [OF assms(2) that] by blast
  then show ?thesis
    unfolding render_with_def E by (simp add: hm_get_map_templates split: option.splits)
qed

theorem csrf_field_injected_witness:
  "\<forall>F :: unit std_ops.
     render_with F (one_template [Element ''form'' False (no_directives\<lparr>static_attrs := [(''method'', ''post'')]\<rparr>) []])
       ''page'' VNull \<lparr>rc_authz = None, rc_csrf = Some ''t0''\<rparr> =
     render_with F (one_template [Element ''form'' False (no_directives\<lparr>static_attrs := [(''method'', ''post'')]\<rparr>) [Text (csrf_input ''t0'')]])
       ''page'' VNull \<lparr>rc_authz = None, rc_csrf = None\<rparr>"
proof
  fix F :: "unit std_ops"
  let ?d = "no_directives\<lparr>static_attrs := [(''method'', ''post'')]\<rparr> :: unit directives"
  let ?k = "one_template [Element ''form'' False ?d []]"
  have g: "guarded_form ''form'' ?d" by code_simp
  have "all_nodes plain_forms (templates ?k)"
    by (simp add: all_nodes_def one_template_def no_directives_def)
  from csrf_field_injected [OF _ this, of "\<lparr>rc_authz = None, rc_csrf = Some ''t0''\<rparr>" "''t0''" F "''page''" VNull]
  show "render_with F ?k ''page'' VNull \<lparr>rc_authz = None, rc_csrf = Some ''t0''\<rparr> =
     render_with F (one_template [Element ''form'' False ?d [Text (csrf_input ''t0'')]])
       ''page'' VNull \<lparr>rc_authz = None, rc_csrf = None\<rparr>"
    using g by (simp add: one_template_def map_templates_def)
qed

text \<open>
  Rendering always answers. The only errors are a template that is not loaded and fragments
  nested more than \<open>MAX_FRAGMENT_DEPTH\<close> deep; when the fragments of a loaded template nest at
  most that deep, the page is rendered for every model and context.
\<close>

theorem template_renders:
  assumes "hm_get (templates k) tpl = Some nodes" "list_all (nests (templates k) MAX_FRAGMENT_DEPTH) nodes"
  shows "\<exists>out. render_with F k tpl model ctx = Inr out"
proof -
  have "succeeds (render_nodes F (templates k) (env_of k model ctx) [] Html 0 nodes)"
    using assms(2) by (intro succeeds_emit_all render_node_succeeds) (auto simp: list_all_iff)
  with assms(1) show ?thesis by (simp add: render_with_def succeeds_def)
qed

theorem template_renders_witness:
  "\<forall>F :: unit std_ops. \<exists>out. render_with F (one_template [Element ''p'' False
       (no_directives\<lparr>th_insert := Some \<lparr>fr_template = None, fr_name = ''footer''\<rparr>\<rparr>) []]) ''page'' VNull
       \<lparr>rc_authz = None, rc_csrf = None\<rparr> = Inr out"
proof
  fix F :: "unit std_ops"
  let ?nodes = "[Element ''p'' False (no_directives\<lparr>th_insert := Some \<lparr>fr_template = None, fr_name = ''footer''\<rparr>\<rparr>) []] :: unit dom list"
  have "hm_get (templates (one_template ?nodes)) ''page'' = Some ?nodes" by (simp add: one_template_def hm_get_def)
  moreover have "list_all (nests (templates (one_template ?nodes)) (Suc 31)) ?nodes" by code_simp
  ultimately show "\<exists>out. render_with F (one_template ?nodes) ''page'' VNull \<lparr>rc_authz = None, rc_csrf = None\<rparr> = Inr out"
    using template_renders [of "one_template ?nodes" "''page''" ?nodes] by (simp add: MAX_FRAGMENT_DEPTH_def)
qed


section \<open>Where the code and its documentation part\<close>

text \<open>
  \<open>is_state_changing_form\<close> is documented to accept a method set by \<open>th:method\<close>; it looks at the
  static attributes only, so such a form gets no CSRF field.
\<close>

lemma dynamic_method_unguarded:
  "render_with F (one_template [Element ''form'' False (no_directives\<lparr>dynamic_attrs := [(''method'', Str ''post'')]\<rparr>) []])
     ''page'' VNull \<lparr>rc_authz = None, rc_csrf = Some ''t0''\<rparr> =
   Inr (''<form method='' @ [CHR 0x22] @ ''post'' @ [CHR 0x22] @ ''></form>'')"
  by (simp add: render_with_def one_template_def hm_get_def render_node.simps(5) render_element_def each_scopes_def
      no_directives_def render_instance_def hidden_def element_body_def expr_text_def env_of_def
      to_text_def escape_html_def html_char_def open_tag_def csrf_part_def attr_text_def is_state_changing_form_def)

text \<open>
  An element whose check fails, with its whole subtree, is documented to be never rendered; a
  fragment declared inside it is, wherever it is included.
\<close>

lemma denied_fragment_rendered:
  "render_with F (one_template
       [Element ''div'' False (no_directives\<lparr>th_authorize := Some DenyAll\<rparr>)
          [Element ''b'' False (no_directives\<lparr>th_fragment := Some ''f''\<rparr>) [Text ''secret'']],
        Element ''p'' False (no_directives\<lparr>th_replace := Some \<lparr>fr_template = None, fr_name = ''f''\<rparr>\<rparr>) []])
     ''page'' VNull \<lparr>rc_authz = None, rc_csrf = None\<rparr> = Inr ''<b>secret</b>''"
  by (simp add: render_with_def one_template_def hm_get_def render_node.simps(5) render_element_def each_scopes_def
      no_directives_def render_instance_def hidden_def element_body_def allows_def resolve_fragment_def find_fragment_def
      MAX_FRAGMENT_DEPTH_def open_tag_def csrf_part_def env_of_def)

text \<open>
  A reference without a template name is documented to mean the template it stands in; it is
  looked up in every template, in the order of the hash map.
\<close>

lemma fragment_depends_on_map_order:
  fixes d :: "'f directives"
  assumes "d = no_directives\<lparr>th_fragment := Some ''f''\<rparr>"
  shows "resolve_fragment [(''a'', [Element ''p'' False d []]), (''b'', [Element ''q'' False d []])] \<lparr>fr_template = None, fr_name = ''f''\<rparr> =
      Some [Element ''p'' False d []] \<and>
    resolve_fragment [(''b'', [Element ''q'' False d []]), (''a'', [Element ''p'' False d []])] \<lparr>fr_template = None, fr_name = ''f''\<rparr> =
      Some [Element ''q'' False d []]"
  using assms by (simp add: resolve_fragment_def find_fragment_def no_directives_def)

end
