(* ===== verification/Leaf_Parser.thy ===== *)
theory Leaf_Parser
  imports Leaf_Render
begin

text \<open>
  The template parser of \<open>kernleaf/src/lib.rs\<close>: HTML with \<open>th:*\<close> attributes to the nodes of
  \<open>Leaf_Render\<close>. The parser's position is the rest of the text: every step of the code stops at
  an ASCII byte or at the end, so its slices are always at character boundaries.
  \<open>parse_nodes\<close> and \<open>read_element\<close> call each other; the model counts the calls down from the
  length of the text, and \<open>parse_source_answers\<close> shows that the count never runs out.
\<close>

section \<open>Directives\<close>

definition parse_expr :: "(string \<Rightarrow> 'f option) \<Rightarrow> string \<Rightarrow> ('f template_error, 'f expr) answer" where
  "parse_expr pf s =
     (case parse pf s of None \<Rightarrow> None | Some (Inl e) \<Rightarrow> err (Bad_expression e) | Some (Inr x) \<Rightarrow> ok x)"

text \<open>\<open>str::trim_matches\<close> of a character and \<open>str::trim_end_matches\<close> of a text.\<close>

definition trim_matches :: "char \<Rightarrow> string \<Rightarrow> string" where
  "trim_matches c s = rev (dropWhile (\<lambda>x. x = c) (rev (dropWhile (\<lambda>x. x = c) s)))"

lemma strip_suffix_length: "strip_suffix pat s = Some t \<Longrightarrow> length s = length t + length pat"
  by (auto simp: strip_suffix_def strip_prefix_def split: if_splits)
    (metis append_take_drop_id length_append length_rev length_take min.absorb_iff2 nat_le_linear take_all_iff
      length_drop add.commute le_add_diff_inverse min_def)

function trim_end_str :: "string \<Rightarrow> string \<Rightarrow> string" where
  "trim_end_str pat s =
     (case strip_suffix pat s of None \<Rightarrow> s | Some t \<Rightarrow> if pat = [] then s else trim_end_str pat t)"
  by pat_completeness auto

termination
  by (relation "measure (\<lambda>(pat, s). length s)") (auto dest: strip_suffix_length)

declare trim_end_str.simps [simp del]

definition first_part :: "char \<Rightarrow> string \<Rightarrow> string" where
  "first_part c s = (case split_on c s of [] \<Rightarrow> [] | p # _ \<Rightarrow> p)"

definition parse_each :: "(string \<Rightarrow> 'f option) \<Rightarrow> string \<Rightarrow> ('f template_error, string \<times> 'f expr) answer" where
  "parse_each pf val =
     (case split_once (CHR '':'') val of
        None \<Rightarrow> err (Each_without_colon val)
      | Some (v, s) \<Rightarrow>
          let var = trim (first_part (CHR '','') (trim v))
          in if var = [] then err (Each_without_variable val)
             else seq (parse_expr pf (trim s)) (\<lambda>e. ok (var, e)))"

definition fn_call :: "string \<Rightarrow> string \<Rightarrow> string option" where
  "fn_call s name =
     Option.bind (strip_prefix name s) (\<lambda>rest.
     Option.bind (strip_prefix ''('' (trim_start rest)) (\<lambda>r. strip_suffix '')'' r))"

definition unquote :: "string \<Rightarrow> string" where
  "unquote s = trim_matches (CHR 0x22) (trim_matches (CHR 0x27) (trim s))"

definition quoted_list :: "string \<Rightarrow> string list" where
  "quoted_list args = filter (\<lambda>r. r \<noteq> []) (map unquote (split_on (CHR '','') args))"

definition parse_authorize :: "string \<Rightarrow> ('f template_error, authz_expr) answer" where
  "parse_authorize val =
     (let v = trim (trim_end_str ''()'' (trim val))
      in if v = ''permitAll'' then ok PermitAll
         else if v = ''denyAll'' then ok DenyAll
         else if v = ''isAuthenticated'' then ok IsAuthenticated
         else if v = ''isAnonymous'' then ok IsAnonymous
         else
           (case fn_call (trim val) ''hasRole'' of
              Some args \<Rightarrow> ok (HasRole (unquote args))
            | None \<Rightarrow>
           (case fn_call (trim val) ''hasAnyRole'' of
              Some args \<Rightarrow> ok (HasAnyRole (quoted_list args))
            | None \<Rightarrow>
           (case fn_call (trim val) ''hasAnyAuthority'' of
              Some args \<Rightarrow> ok (HasAnyAuthority (quoted_list args))
            | None \<Rightarrow>
           (case fn_call (trim val) ''hasAuthority'' of
              Some args \<Rightarrow> ok (HasAuthority (unquote args))
            | None \<Rightarrow> err (Unsupported_authorize val))))))"

definition parse_fragment_ref :: "string \<Rightarrow> fragment_ref" where
  "parse_fragment_ref val =
     (let v = trim val;
          v = trim (case Option.bind (strip_prefix ''~{'' v) (strip_suffix ''}'') of Some r \<Rightarrow> r | None \<Rightarrow> v);
          (template, name) =
            (case split_once_str ''::'' v of
               Some (tpl, name) \<Rightarrow> (if trim tpl = [] then None else Some (trim tpl), trim name)
             | None \<Rightarrow> (Some v, []))
      in \<lparr>fr_template = template, fr_name = trim (first_part (CHR ''('') name)\<rparr>)"

definition parse_inline_mode :: "string \<Rightarrow> inline_mode" where
  "parse_inline_mode val =
     (let m = trim_matches (CHR 0x27) (trim val)
      in if m = ''javascript'' \<or> m = ''js'' then JavaScript else if m = ''css'' then Css else Html)"

text \<open>One attribute of \<open>build_element\<close>.\<close>

definition add_attr :: "(string \<Rightarrow> 'f option) \<Rightarrow> string \<times> string \<Rightarrow> 'f directives \<Rightarrow> ('f template_error, 'f directives) answer" where
  "add_attr pf a d =
     (let (name, val) = a
      in if name = ''xmlns:th'' then ok d
         else
           (case strip_prefix ''th:'' name of
              None \<Rightarrow> ok (d\<lparr>static_attrs := static_attrs d @ [(name, val)]\<rparr>)
            | Some dir \<Rightarrow>
                if dir = ''text'' then seq (parse_expr pf val) (\<lambda>e. ok (d\<lparr>th_text := Some e\<rparr>))
                else if dir = ''utext'' then seq (parse_expr pf val) (\<lambda>e. ok (d\<lparr>th_utext := Some e\<rparr>))
                else if dir = ''if'' then seq (parse_expr pf val) (\<lambda>e. ok (d\<lparr>th_if := Some e\<rparr>))
                else if dir = ''unless'' then seq (parse_expr pf val) (\<lambda>e. ok (d\<lparr>th_unless := Some e\<rparr>))
                else if dir = ''each'' then seq (parse_each pf val) (\<lambda>e. ok (d\<lparr>th_each := Some e\<rparr>))
                else if dir = ''inline'' then ok (d\<lparr>th_inline := Some (parse_inline_mode val)\<rparr>)
                else if dir = ''authorize'' then seq (parse_authorize val) (\<lambda>e. ok (d\<lparr>th_authorize := Some e\<rparr>))
                else if dir = ''fragment'' then ok (d\<lparr>th_fragment := Some (trim (first_part (CHR ''('') val))\<rparr>)
                else if dir = ''insert'' then ok (d\<lparr>th_insert := Some (parse_fragment_ref val)\<rparr>)
                else if dir = ''replace'' then ok (d\<lparr>th_replace := Some (parse_fragment_ref val)\<rparr>)
                else seq (parse_expr pf val) (\<lambda>e. ok (d\<lparr>dynamic_attrs := dynamic_attrs d @ [(dir, e)]\<rparr>))))"

fun add_attrs :: "(string \<Rightarrow> 'f option) \<Rightarrow> (string \<times> string) list \<Rightarrow> 'f directives \<Rightarrow> ('f template_error, 'f directives) answer" where
  "add_attrs pf [] d = ok d"
| "add_attrs pf (a # as) d = seq (add_attr pf a d) (add_attrs pf as)"

definition build_element :: "(string \<Rightarrow> 'f option) \<Rightarrow> string \<Rightarrow> bool \<Rightarrow> (string \<times> string) list \<Rightarrow> 'f dom list \<Rightarrow>
    ('f template_error, 'f dom) answer" where
  "build_element pf tag void raw_attrs children =
     seq (add_attrs pf raw_attrs no_directives) (\<lambda>d. ok (Element tag void d children))"

section \<open>Inline expressions\<close>

text \<open>The text before the first inline expression, the text after its opening, and its kind.\<close>

definition next_inline :: "string \<Rightarrow> (string \<times> string \<times> bool) option" where
  "next_inline rest =
     (case (split_once_str ''[['' rest, split_once_str ''[('' rest) of
        (Some (a, r), Some (b, q)) \<Rightarrow> if length a < length b then Some (a, r, True) else Some (b, q, False)
      | (Some (a, r), None) \<Rightarrow> Some (a, r, True)
      | (None, Some (b, q)) \<Rightarrow> Some (b, q, False)
      | (None, None) \<Rightarrow> None)"

lemma split_once_str_length: "split_once_str pat s = Some (a, b) \<Longrightarrow> length a + length pat + length b = length s"
proof (induction pat s arbitrary: a rule: split_once_str.induct)
  case (2 pat c s)
  then show ?case by (auto split: if_splits dest!: prefix_length_le)
qed (auto split: if_splits)

lemma next_inline_length: "next_inline rest = Some (a, r, k) \<Longrightarrow> length r < length rest"
  by (auto simp: next_inline_def split: option.splits if_splits dest!: split_once_str_length)

function inline_parts :: "(string \<Rightarrow> 'f option) \<Rightarrow> string \<Rightarrow> ('f template_error, 'f inline_part list) answer" where
  "inline_parts pf rest =
     (case next_inline rest of
        None \<Rightarrow> ok (if rest = [] then [] else [Lit rest])
      | Some (before, after, is_escaped) \<Rightarrow>
          (case split_once_str (if is_escaped then '']]'' else '')]'') after of
             None \<Rightarrow> err (Inline_unclosed is_escaped)
           | Some (inner, rest') \<Rightarrow>
               seq (parse_expr pf (trim inner)) (\<lambda>e.
               seq (inline_parts pf rest') (\<lambda>ps.
                 ok ((if before = [] then [] else [Lit before]) @ (if is_escaped then Escaped e else Raw e) # ps)))))"
  by pat_completeness auto

termination
  by (relation "measure (\<lambda>(pf, s). length s)") (auto dest!: next_inline_length split_once_str_length)

declare inline_parts.simps [simp del]

definition compile_text :: "(string \<Rightarrow> 'f option) \<Rightarrow> string \<Rightarrow> ('f template_error, 'f dom) answer" where
  "compile_text pf raw =
     (if \<not> contains raw ''[['' \<and> \<not> contains raw ''[('' then ok (Text raw)
      else seq (inline_parts pf raw) (\<lambda>ps. ok (Inline ps)))"

section \<open>Markup\<close>

definition VOID :: "string list" where
  "VOID = [''area'', ''base'', ''br'', ''col'', ''embed'', ''hr'', ''img'', ''input'', ''link'', ''meta'', ''param'',
     ''source'', ''track'', ''wbr'']"

definition RAW_TEXT :: "string list" where
  "RAW_TEXT = [''script'', ''style'', ''textarea'', ''title'']"

definition name_char :: "char \<Rightarrow> bool" where
  "name_char c \<longleftrightarrow> \<not> is_ascii_whitespace c \<and> c \<noteq> CHR ''>'' \<and> c \<noteq> CHR ''/'' \<and> c \<noteq> CHR ''=''"

definition read_name :: "string \<Rightarrow> string \<times> string" where
  "read_name s = (takeWhile name_char s, dropWhile name_char s)"

definition skip_ws :: "string \<Rightarrow> string" where
  "skip_ws s = dropWhile is_ascii_whitespace s"

definition read_attr_value :: "string \<Rightarrow> string \<times> string" where
  "read_attr_value s =
     (case s of
        [] \<Rightarrow> ([], [])
      | q # t \<Rightarrow>
          if q = CHR 0x22 \<or> q = CHR 0x27 then
            (let r = dropWhile (\<lambda>c. c \<noteq> q) t in (takeWhile (\<lambda>c. c \<noteq> q) t, if r = [] then [] else tl r))
          else
            (let plain = (\<lambda>c. \<not> is_ascii_whitespace c \<and> c \<noteq> CHR ''>'' \<and> c \<noteq> CHR ''/'')
             in (takeWhile plain s, dropWhile plain s)))"

lemma skip_ws_length: "length (skip_ws s) \<le> length s"
  by (simp add: skip_ws_def length_dropWhile_le)

lemma read_name_length: "read_name s = (name, s1) \<Longrightarrow> length s = length name + length s1"
  by (auto simp: read_name_def) (metis length_append takeWhile_dropWhile_id)

lemma read_attr_value_length: "read_attr_value s = (v, s') \<Longrightarrow> length s' \<le> length s"
proof -
  have "length (tl (dropWhile P t)) \<le> length t" "length (dropWhile P t) \<le> length t" for P :: "char \<Rightarrow> bool" and t
    using length_dropWhile_le [of P t] by auto
  then show "read_attr_value s = (v, s') \<Longrightarrow> length s' \<le> length s"
    by (auto simp: read_attr_value_def Let_def le_Suc_eq split: list.splits if_splits)
qed

function read_attrs :: "string \<Rightarrow> ('f template_error, (string \<times> string) list \<times> bool \<times> string) answer" where
  "read_attrs s0 =
     (let s = skip_ws s0
      in if s = [] then err Tag_unterminated
         else if hd s = CHR ''>'' then ok ([], False, tl s)
         else if prefix ''/>'' s then ok ([], True, drop 2 s)
         else
           let (name, s1) = read_name s
           in if name = [] then read_attrs (tl s)
              else
                let s2 = skip_ws s1;
                    (val, s3) = (if s2 \<noteq> [] \<and> hd s2 = CHR ''='' then read_attr_value (skip_ws (tl s2)) else ([], s2))
                in seq (read_attrs s3) (\<lambda>(as, self_closing, rest). ok ((name, val) # as, self_closing, rest)))"
  by pat_completeness auto

termination
proof (relation "measure length", goal_cases)
  case (2 s0 x xa y)
  then show ?case using skip_ws_length [of s0] by (cases "skip_ws s0") auto
next
  case (3 s0 s p name s1 s2 q val s3)
  have "length s3 \<le> length s2"
    using 3 read_attr_value_length [of "skip_ws (tl s2)" val s3] skip_ws_length [of "tl s2"]
    by (auto split: if_splits)
  then show ?case
    using 3 read_name_length [of s name s1] skip_ws_length [of s0] skip_ws_length [of s1] by (cases name) auto
qed simp

declare read_attrs.simps [simp del]

text \<open>Whether the text starts with the end tag of a raw-text element.\<close>

definition closes :: "string \<Rightarrow> string \<Rightarrow> bool" where
  "closes needle t \<longleftrightarrow>
     2 + length needle \<le> length t \<and> t ! 1 = CHR ''/'' \<and>
     eq_ignore_ascii_case (take (length needle) (drop 2 t)) needle \<and>
     (let e = drop (2 + length needle) t in e = [] \<or> hd e = CHR ''>'' \<or> is_ascii_whitespace (hd e))"

fun split_raw_text :: "string \<Rightarrow> string \<Rightarrow> string \<times> string" where
  "split_raw_text needle [] = ([], [])"
| "split_raw_text needle (c # s) =
     (if c = CHR ''<'' \<and> closes needle (c # s) then ([], c # s)
      else let (a, b) = split_raw_text needle s in (c # a, b))"

definition read_text :: "(string \<Rightarrow> 'f option) \<Rightarrow> string \<Rightarrow> ('f template_error, 'f dom \<times> string) answer" where
  "read_text pf s =
     seq (compile_text pf (takeWhile (\<lambda>c. c \<noteq> CHR ''<'') s)) (\<lambda>n. ok (n, dropWhile (\<lambda>c. c \<noteq> CHR ''<'') s))"

definition read_raw_text :: "(string \<Rightarrow> 'f option) \<Rightarrow> string \<Rightarrow> string \<Rightarrow> ('f template_error, 'f dom \<times> string) answer" where
  "read_raw_text pf needle s =
     (let (a, b) = split_raw_text needle s in seq (compile_text pf a) (\<lambda>n. ok (n, b)))"

definition read_comment :: "string \<Rightarrow> ('f template_error, 'f dom \<times> string) answer" where
  "read_comment s =
     (case split_once_str ''-->'' (drop 4 s) of None \<Rightarrow> err Comment_unterminated | Some (c, rest) \<Rightarrow> ok (Comment c, rest))"

definition read_declaration :: "string \<Rightarrow> ('f template_error, 'f dom \<times> string) answer" where
  "read_declaration s =
     (case split_once (CHR ''>'') s of
        None \<Rightarrow> err Declaration_unterminated | Some (d, rest) \<Rightarrow> ok (Declaration (d @ ''>''), rest))"

text \<open>The close tag of an element, whatever its name.\<close>

definition skip_close :: "string \<Rightarrow> string" where
  "skip_close s =
     (if prefix ''</'' s
      then let r = skip_ws (snd (read_name (drop 2 s))) in if r \<noteq> [] \<and> hd r = CHR ''>'' then tl r else r
      else s)"

text \<open>\<open>children\<close> parses the nodes up to the next close tag.\<close>

definition read_element :: "(string \<Rightarrow> 'f option) \<Rightarrow> (string \<Rightarrow> ('f template_error, 'f dom list \<times> string) answer) \<Rightarrow>
    string \<Rightarrow> ('f template_error, 'f dom \<times> string) answer" where
  "read_element pf children s =
     (let (tag, s1) = read_name (tl s)
      in if tag = [] then err Tag_without_name
         else
           seq (read_attrs s1) (\<lambda>(raw_attrs, self_closing, s2).
             let tag_lower = map to_ascii_lowercase tag;
                 void = (self_closing \<or> tag_lower \<in> set VOID)
             in seq (if void then ok ([], s2)
                     else if tag_lower \<in> set RAW_TEXT then seq (read_raw_text pf tag_lower s2) (\<lambda>(n, r). ok ([n], r))
                     else children s2)
                  (\<lambda>(nodes, s3).
                    seq (build_element pf tag void raw_attrs nodes) (\<lambda>el.
                      ok (el, if void then s3 else skip_close s3)))))"

definition read_node :: "(string \<Rightarrow> 'f option) \<Rightarrow> (string \<Rightarrow> ('f template_error, 'f dom list \<times> string) answer) \<Rightarrow>
    string \<Rightarrow> ('f template_error, 'f dom \<times> string) answer" where
  "read_node pf children s =
     (if hd s = CHR ''<'' then
        (if prefix ''<!--'' s then read_comment s
         else if prefix ''<!'' s then read_declaration s
         else read_element pf children s)
      else read_text pf s)"

fun parse_nodes :: "(string \<Rightarrow> 'f option) \<Rightarrow> nat \<Rightarrow> string \<Rightarrow> ('f template_error, 'f dom list \<times> string) answer" where
  "parse_nodes pf 0 s = None"
| "parse_nodes pf (Suc n) s =
     (if s = [] \<or> prefix ''</'' s then ok ([], s)
      else
        seq (read_node pf (parse_nodes pf n) s) (\<lambda>(d, s1).
        seq (parse_nodes pf n s1) (\<lambda>(ds, s2). ok (d # ds, s2))))"

definition parse_source :: "(string \<Rightarrow> 'f option) \<Rightarrow> string \<Rightarrow> ('f template_error, 'f dom list \<times> string) answer" where
  "parse_source pf src = parse_nodes pf (Suc (length src)) src"

text \<open>\<open>Kernleaf::add\<close>: what is left after the nodes is not looked at.\<close>

definition add_template :: "(string \<Rightarrow> 'f option) \<Rightarrow> 'f kernleaf \<Rightarrow> string \<Rightarrow> string \<Rightarrow> ('f template_error, 'f kernleaf) answer" where
  "add_template pf k name src =
     seq (parse_source pf src) (\<lambda>(nodes, rest). ok (k\<lparr>templates := hm_insert (templates k) name nodes\<rparr>))"


section \<open>The parser always answers\<close>

lemma parse_expr_answers [simp]: "answered (parse_expr pf s)"
  using parse_at_answers [of "Suc (length s)" pf]
  by (auto simp: answers_texts_def parse_expr_def parse_def answered_def split: option.splits sum.splits)

lemma parse_each_answers [simp]: "answered (parse_each pf s)"
  by (auto simp: parse_each_def Let_def split: option.splits)

lemma parse_authorize_answers [simp]: "answered (parse_authorize s)"
  by (auto simp: parse_authorize_def Let_def split: option.splits)

lemma add_attr_answers [simp]: "answered (add_attr pf a d)"
  by (cases a) (simp add: add_attr_def split: option.splits)

lemma add_attrs_answers [simp]: "answered (add_attrs pf as d)"
  by (induction as arbitrary: d) auto

lemma build_element_answers [simp]: "answered (build_element pf tag void as ns)"
  by (simp add: build_element_def)

lemma inline_parts_answers [simp]: "answered (inline_parts pf s)"
proof (induction pf s rule: inline_parts.induct)
  case (1 pf rest)
  then show ?case by (subst inline_parts.simps) (auto split: option.splits)
qed

lemma compile_text_answers [simp]: "answered (compile_text pf s)"
  by (simp add: compile_text_def)

lemma read_attrs_answers [simp]: "answered (read_attrs s)"
proof (induction s rule: read_attrs.induct)
  case (1 s0)
  then show ?case by (subst read_attrs.simps) (auto simp: Let_def split: prod.splits)
qed

lemma read_attrs_length:
  "(read_attrs s0 :: ('f template_error, (string \<times> string) list \<times> bool \<times> string) answer) = ok (as, sc, rest) \<Longrightarrow>
     length rest < length s0"
proof (induction s0 arbitrary: as sc rest rule: read_attrs.induct)
  case (1 s0)
  let ?s = "skip_ws s0"
  obtain name s1 where name: "read_name ?s = (name, s1)" by (cases "read_name ?s")
  let ?s2 = "skip_ws s1"
  obtain v s3 where v: "(if ?s2 \<noteq> [] \<and> hd ?s2 = CHR ''='' then read_attr_value (skip_ws (tl ?s2)) else ([], ?s2)) = (v, s3)"
    by (cases "if ?s2 \<noteq> [] \<and> hd ?s2 = CHR ''='' then read_attr_value (skip_ws (tl ?s2)) else ([], ?s2)")
  have le: "length ?s \<le> length s0" "length ?s2 \<le> length s1" "length ?s = length name + length s1"
    using skip_ws_length [of s0] skip_ws_length [of s1] read_name_length [OF name] by simp_all
  have s3: "length s3 \<le> length ?s2"
    using v read_attr_value_length [of "skip_ws (tl ?s2)" v s3] skip_ws_length [of "tl ?s2"] by (auto split: if_splits)
  note IH1 = 1(1) [OF refl _ _ _ name [symmetric] refl] and IH2 = 1(2) [OF refl _ _ _ name [symmetric] refl _ refl v [symmetric] refl]
  let ?r = "read_attrs :: string \<Rightarrow> ('f template_error, (string \<times> string) list \<times> bool \<times> string) answer"
  have eq: "?r s0 =
     (if ?s = [] then err Tag_unterminated
      else if hd ?s = CHR ''>'' then ok ([], False, tl ?s)
      else if prefix ''/>'' ?s then ok ([], True, drop 2 ?s)
      else if name = [] then read_attrs (tl ?s)
      else seq (read_attrs s3) (\<lambda>(as, self_closing, rest). ok ((name, v) # as, self_closing, rest)))"
    by (subst read_attrs.simps) (simp add: name v Let_def)
  show ?case
  proof (cases "?s = [] \<or> hd ?s = CHR ''>'' \<or> prefix ''/>'' ?s")
    case True
    then show ?thesis using 1(3) le(1) by (cases ?s) (auto simp: eq split: if_splits)
  next
    case more: False
    show ?thesis
    proof (cases "name = []")
      case True
      then have "?r (tl ?s) = ok (as, sc, rest)" using 1(3) more unfolding eq by simp
      then have "length rest < length (tl ?s)" using IH1 True more by auto
      then show ?thesis using le(1) by simp
    next
      case False
      then obtain as' where "?r s3 = ok (as', sc, rest)"
        using 1(3) more unfolding eq by (auto simp: seq_ok split: prod.splits)
      then have "length rest < length s3" using IH2 more False by auto
      then show ?thesis using le s3 by simp
    qed
  qed
qed

lemma split_raw_text_length: "split_raw_text needle s = (a, b) \<Longrightarrow> length a + length b = length s"
  by (induction needle s arbitrary: a b rule: split_raw_text.induct) (auto split: if_splits prod.splits)

lemma skip_close_length: "length (skip_close s) \<le> length s"
proof -
  obtain n r where r: "read_name (drop 2 s) = (n, r)" by (cases "read_name (drop 2 s)")
  show ?thesis
    using read_name_length [OF r] skip_ws_length [of r] by (auto simp: skip_close_def Let_def r)
qed

text \<open>An answer that is given, and leaves at most \<open>n\<close> bytes when it is a result.\<close>

definition leaves :: "nat \<Rightarrow> ('e, 'a \<times> string) answer \<Rightarrow> bool" where
  "leaves n r \<longleftrightarrow> answered r \<and> (\<forall>x rest. r = ok (x, rest) \<longrightarrow> length rest \<le> n)"

lemma leaves_simps [simp]: "leaves n (ok (x, rest)) \<longleftrightarrow> length rest \<le> n" "leaves n (err e)"
  by (auto simp: leaves_def)

lemma leaves_seq:
  "answered r \<Longrightarrow> (\<And>x. r = ok x \<Longrightarrow> leaves n (k x)) \<Longrightarrow> leaves n (seq r k)"
  by (auto simp: leaves_def seq_ok)

lemma leaves_seq2:
  "leaves m r \<Longrightarrow> (\<And>x rest. r = ok (x, rest) \<Longrightarrow> length rest \<le> m \<Longrightarrow> leaves n (k (x, rest))) \<Longrightarrow> leaves n (seq r k)"
  by (auto simp: leaves_def seq_ok)

lemma leaves_mono: "leaves m r \<Longrightarrow> m \<le> n \<Longrightarrow> leaves n r"
  by (auto simp: leaves_def intro: order_trans)

lemma read_raw_text_leaves: "leaves (length s) (read_raw_text pf needle s)"
  by (auto simp: read_raw_text_def split: prod.split dest!: split_raw_text_length intro!: leaves_seq)

lemma read_element_leaves:
  fixes children :: "string \<Rightarrow> ('f template_error, 'f dom list \<times> string) answer"
  assumes "s \<noteq> []" "\<And>t. length t < length s \<Longrightarrow> leaves (length t) (children t)"
  shows "leaves (length s - 1) (read_element pf children s)"
proof -
  obtain tag s1 where name: "read_name (tl s) = (tag, s1)" by (cases "read_name (tl s)")
  have s1: "length s1 \<le> length s - 1" using read_name_length [OF name] by simp
  let ?content = "\<lambda>sc s2. if sc \<or> map to_ascii_lowercase tag \<in> set VOID then ok ([], s2)
      else if map to_ascii_lowercase tag \<in> set RAW_TEXT
      then seq (read_raw_text pf (map to_ascii_lowercase tag) s2) (\<lambda>(n, r). ok ([n], r)) else children s2"
  let ?rest = "\<lambda>as sc s2. seq (?content sc s2) (\<lambda>(nodes, s3).
      seq (build_element pf tag (sc \<or> map to_ascii_lowercase tag \<in> set VOID) as nodes) (\<lambda>el.
        ok (el, if sc \<or> map to_ascii_lowercase tag \<in> set VOID then s3 else skip_close s3)))"
  have content: "leaves (length s2) (?content sc s2)" if "length s2 < length s" for sc s2
    using assms(2) [OF that] by (auto intro: leaves_seq2 [OF read_raw_text_leaves])
  have rest: "leaves (length s - 1) (?rest as sc s2)" if "length s2 < length s1" for as sc s2
  proof (rule leaves_seq2 [OF content])
    fix nodes and s3 :: string assume "length s3 \<le> length s2"
    then have "length s3 \<le> length s - 1" "length (skip_close s3) \<le> length s - 1"
      using that s1 skip_close_length [of s3] by simp_all
    then show "leaves (length s - 1) (case (nodes, s3) of (nodes, s3) \<Rightarrow>
        seq (build_element pf tag (sc \<or> map to_ascii_lowercase tag \<in> set VOID) as nodes) (\<lambda>el.
          ok (el, if sc \<or> map to_ascii_lowercase tag \<in> set VOID then s3 else skip_close s3)))"
      by (auto intro!: leaves_seq)
  qed (use that s1 assms(1) in \<open>cases s, auto\<close>)
  have eq: "read_element pf children s = (if tag = [] then err Tag_without_name
      else seq (read_attrs s1) (\<lambda>(as, sc, s2). ?rest as sc s2))"
    by (simp add: read_element_def name Let_def)
  have "leaves (length s - 1) (seq (read_attrs s1) (\<lambda>(as, sc, s2). ?rest as sc s2))"
  proof (rule leaves_seq [OF read_attrs_answers])
    fix x assume x: "read_attrs s1 = (ok x :: ('f template_error, (string \<times> string) list \<times> bool \<times> string) answer)"
    obtain as sc s2 where xs: "x = (as, sc, s2)" by (cases x)
    then have "length s2 < length s1" using x by (auto dest: read_attrs_length)
    then show "leaves (length s - 1) (case x of (as, sc, s2) \<Rightarrow> ?rest as sc s2)"
      unfolding xs prod.case by (rule rest)
  qed
  then show ?thesis unfolding eq by simp
qed

lemma read_node_leaves:
  fixes children :: "string \<Rightarrow> ('f template_error, 'f dom list \<times> string) answer"
  assumes "s \<noteq> []" "\<And>t. length t < length s \<Longrightarrow> leaves (length t) (children t)"
  shows "leaves (length s - 1) (read_node pf children s)"
proof (cases "hd s = CHR ''<''")
  case False
  then have "length (dropWhile (\<lambda>c. c \<noteq> CHR ''<'') s) \<le> length s - 1"
    using assms(1) length_dropWhile_le [of "\<lambda>c. c \<noteq> CHR ''<''" "tl s"] by (cases s) auto
  with False show ?thesis by (auto simp: read_node_def read_text_def intro!: leaves_seq)
next
  case True
  have "leaves (length s - 1) (read_comment s :: ('f template_error, 'f dom \<times> string) answer)"
    using assms(1) by (cases s) (auto simp: read_comment_def split: option.splits dest!: split_once_str_length)
  moreover have "leaves (length s - 1) (read_declaration s :: ('f template_error, 'f dom \<times> string) answer)"
    by (auto simp: read_declaration_def split: option.splits dest!: split_once_shorter)
  ultimately show ?thesis using True read_element_leaves [OF assms] by (simp add: read_node_def)
qed

lemma parse_nodes_leaves: "length s < n \<Longrightarrow> leaves (length s) (parse_nodes pf n s)"
proof (induction n arbitrary: s)
  case (Suc n)
  show ?case
  proof (cases "s = [] \<or> prefix ''</'' s")
    case False
    then have below: "leaves (length t) (parse_nodes pf n t)" if "length t \<le> length s - 1" for t
      using that Suc by (cases s) auto
    have "leaves (length s) (seq (read_node pf (parse_nodes pf n) s) (\<lambda>(d, s1).
        seq (parse_nodes pf n s1) (\<lambda>(ds, s2). ok (d # ds, s2))))"
    proof (rule leaves_seq2 [OF read_node_leaves])
      fix d and s1 :: string assume "length s1 \<le> length s - 1"
      then show "leaves (length s) (case (d, s1) of (d, s1) \<Rightarrow> seq (parse_nodes pf n s1) (\<lambda>(ds, s2). ok (d # ds, s2)))"
        by (auto intro!: leaves_seq2 [OF below])
    qed (use False below in auto)
    with False show ?thesis by simp
  qed auto
qed simp

lemma parse_source_answers: "answered (parse_source pf src)"
  using parse_nodes_leaves [of src "Suc (length src)" pf] by (simp add: parse_source_def leaves_def)

lemma add_template_answers: "answered (add_template pf k name src)"
  by (auto simp: add_template_def parse_source_answers)

end
