(* ===== verification/Leaf_Roundtrip.thy ===== *)
theory Leaf_Roundtrip
  imports Leaf_Parser
begin

text \<open>
  What the template parser makes of well-formed HTML. A document is a tree with raw attributes;
  printed and parsed it becomes the nodes \<open>compile_text\<close> and \<open>build_element\<close> give for its parts, and a
  document without directives is rendered back as it was written.
\<close>

section \<open>Documents\<close>

datatype source =
    SText string
  | SComment string
  | SDeclaration string
  | SVoid string "(string \<times> string) list" bool
  | SRaw string "(string \<times> string) list" string
  | SElement string "(string \<times> string) list" "source list"

definition print_attr :: "string \<Rightarrow> string \<Rightarrow> string" where
  "print_attr n v = '' '' @ n @ [CHR ''='', CHR 0x22] @ v @ [CHR 0x22]"

definition print_attrs :: "(string \<times> string) list \<Rightarrow> string" where
  "print_attrs as = concat (map (\<lambda>(n, v). print_attr n v) as)"

fun print_node :: "source \<Rightarrow> string" where
  "print_node (SText t) = t"
| "print_node (SComment c) = ''<!--'' @ c @ ''-->''"
| "print_node (SDeclaration d) = ''<!'' @ d @ ''>''"
| "print_node (SVoid tag as slash) = ''<'' @ tag @ print_attrs as @ (if slash then ''/>'' else ''>'')"
| "print_node (SRaw tag as t) = ''<'' @ tag @ print_attrs as @ ''>'' @ t @ ''</'' @ tag @ ''>''"
| "print_node (SElement tag as ns) =
     ''<'' @ tag @ print_attrs as @ ''>'' @ concat (map print_node ns) @ ''</'' @ tag @ ''>''"

definition print_nodes :: "source list \<Rightarrow> string" where
  "print_nodes ns = concat (map print_node ns)"

text \<open>Well-formed documents.\<close>

definition attr_ok :: "string \<times> string \<Rightarrow> bool" where
  "attr_ok a \<longleftrightarrow> fst a \<noteq> [] \<and> list_all name_char (fst a) \<and> CHR 0x22 \<notin> set (snd a)"

definition tag_ok :: "string \<Rightarrow> bool" where
  "tag_ok tag \<longleftrightarrow> tag \<noteq> [] \<and> list_all name_char tag \<and> hd tag \<noteq> CHR ''!''"

definition lower :: "string \<Rightarrow> string" where
  "lower s = map to_ascii_lowercase s"

fun is_text :: "source \<Rightarrow> bool" where
  "is_text (SText t) = True"
| "is_text _ = False"

fun texts_apart :: "source list \<Rightarrow> bool" where
  "texts_apart (x # y # ns) = (\<not> (is_text x \<and> is_text y) \<and> texts_apart (y # ns))"
| "texts_apart _ = True"

fun source_ok :: "source \<Rightarrow> bool" where
  "source_ok (SText t) = (t \<noteq> [] \<and> CHR ''<'' \<notin> set t)"
| "source_ok (SComment c) = (\<not> contains c ''-->'')"
| "source_ok (SDeclaration d) = (CHR ''>'' \<notin> set d \<and> \<not> prefix ''--'' d)"
| "source_ok (SVoid tag as slash) = (tag_ok tag \<and> list_all attr_ok as \<and> (slash \<or> lower tag \<in> set VOID))"
| "source_ok (SRaw tag as t) =
     (tag_ok tag \<and> list_all attr_ok as \<and> lower tag \<in> set RAW_TEXT \<and> \<not> contains t ''</'')"
| "source_ok (SElement tag as ns) =
     (tag_ok tag \<and> list_all attr_ok as \<and> lower tag \<notin> set VOID \<and> lower tag \<notin> set RAW_TEXT \<and>
      list_all source_ok ns \<and> texts_apart ns)"

text \<open>The nodes of a document, in the order in which the parser meets errors.\<close>

fun collect :: "('e, 'a) answer list \<Rightarrow> ('e, 'a list) answer" where
  "collect [] = ok []"
| "collect (r # rs) = seq r (\<lambda>x. seq (collect rs) (\<lambda>xs. ok (x # xs)))"

fun compile_node :: "(string \<Rightarrow> 'f option) \<Rightarrow> source \<Rightarrow> ('f template_error, 'f dom) answer" where
  "compile_node pf (SText t) = compile_text pf t"
| "compile_node pf (SComment c) = ok (Comment c)"
| "compile_node pf (SDeclaration d) = ok (Declaration (''<!'' @ d @ ''>''))"
| "compile_node pf (SVoid tag as slash) = build_element pf tag True as []"
| "compile_node pf (SRaw tag as t) = seq (compile_text pf t) (\<lambda>n. build_element pf tag False as [n])"
| "compile_node pf (SElement tag as ns) =
     seq (collect (map (compile_node pf) ns)) (\<lambda>ds. build_element pf tag False as ds)"

section \<open>Reading what was printed\<close>

lemma name_char_not: "name_char c \<Longrightarrow> \<not> is_ascii_whitespace c \<and> c \<noteq> CHR ''>'' \<and> c \<noteq> CHR ''/'' \<and> c \<noteq> CHR ''=''"
  by (simp add: name_char_def)

lemma name_stops [simp]:
  "\<not> name_char (CHR '' '')" "\<not> name_char (CHR ''>'')" "\<not> name_char (CHR ''/'')" "\<not> name_char (CHR ''='')"
  by (simp_all add: name_char_def is_ascii_whitespace_def)

lemma read_name_span: "list_all name_char n \<Longrightarrow> u = [] \<or> \<not> name_char (hd u) \<Longrightarrow> read_name (n @ u) = (n, u)"
  by (cases u) (simp_all add: read_name_def takeWhile_append2 takeWhile_append1 list_all_iff dropWhile_append2)

lemma skip_ws_name: "list_all name_char n \<Longrightarrow> n \<noteq> [] \<Longrightarrow> skip_ws (n @ u) = n @ u"
  by (cases n) (auto simp: skip_ws_def name_char_def)

lemma skip_ws_simps [simp]:
  "skip_ws (CHR '' '' # s) = skip_ws s" "skip_ws (CHR ''>'' # s) = CHR ''>'' # s" "skip_ws (CHR ''='' # s) = CHR ''='' # s"
  "skip_ws (CHR 0x22 # s) = CHR 0x22 # s" "skip_ws (CHR ''/'' # s) = CHR ''/'' # s" "skip_ws [] = []"
  by (simp_all add: skip_ws_def is_ascii_whitespace_def)

lemma read_attr_value_quoted: "CHR 0x22 \<notin> set v \<Longrightarrow> read_attr_value (CHR 0x22 # v @ CHR 0x22 # u) = (v, u)"
proof -
  assume "CHR 0x22 \<notin> set v"
  then have "takeWhile (\<lambda>c. c \<noteq> CHR 0x22) (v @ CHR 0x22 # u) = v" "dropWhile (\<lambda>c. c \<noteq> CHR 0x22) (v @ CHR 0x22 # u) = CHR 0x22 # u"
    by (induction v) auto
  then show ?thesis by (simp add: read_attr_value_def)
qed

lemma read_attrs_end: "read_attrs (CHR ''>'' # u) = ok ([], False, u)" "read_attrs (CHR ''/'' # CHR ''>'' # u) = ok ([], True, u)"
  by (subst read_attrs.simps, simp add: Let_def)+

lemma read_attrs_attr:
  assumes "attr_ok (n, v)"
  shows "read_attrs (print_attr n v @ u) = seq (read_attrs u) (\<lambda>(as, slash, rest). ok ((n, v) # as, slash, rest))"
proof -
  let ?t = "CHR ''='' # CHR 0x22 # v @ CHR 0x22 # u"
  have n: "n \<noteq> []" "list_all name_char n" "CHR 0x22 \<notin> set v" using assms by (auto simp: attr_ok_def)
  have name: "read_name (n @ ?t) = (n, ?t)" using n(2) by (intro read_name_span) auto
  have s: "skip_ws (print_attr n v @ u) = n @ ?t" using skip_ws_name [OF n(2,1)] by (simp add: print_attr_def)
  have c: "hd (n @ ?t) \<noteq> CHR ''>''" "\<not> prefix ''/>'' (n @ ?t)"
    using n(1,2) by (cases n; auto dest: name_char_not)+
  show ?thesis
    by (subst read_attrs.simps) (use n c in \<open>simp add: Let_def s name read_attr_value_quoted split: prod.split\<close>)
qed

lemma read_attrs_print:
  assumes "list_all attr_ok as"
  shows "read_attrs (print_attrs as @ CHR ''>'' # u) = ok (as, False, u)"
    "read_attrs (print_attrs as @ CHR ''/'' # CHR ''>'' # u) = ok (as, True, u)"
  using assms by (induction as) (auto simp: print_attrs_def read_attrs_end read_attrs_attr)


lemma contains_Cons: "contains (c # s) pat \<longleftrightarrow> prefix pat (c # s) \<or> contains s pat"
  by (auto simp: contains_def)

lemma prefix3: "prefix [a, b, c] s \<longleftrightarrow> (\<exists>u. s = a # b # c # u)"
  by (auto simp: prefix_def)

lemma find_comment_end: "\<not> contains c ''-->'' \<Longrightarrow> split_once_str ''-->'' (c @ ''-->'' @ u) = Some (c, u)"
proof (induction c)
  case (Cons x c)
  then have no: "\<not> prefix ''-->'' (x # c)" "\<not> contains c ''-->''" by (auto simp: contains_Cons)
  have "\<not> prefix ''-->'' ((x # c) @ ''-->'' @ u)"
  proof (cases c)
    case Nil
    then show ?thesis by (auto simp: prefix3)
  next
    case (Cons y d)
    then show ?thesis using no(1) by (cases d) (auto simp: prefix3)
  qed
  with Cons no show ?case by simp
qed simp

lemma find_text_end: "CHR ''<'' \<notin> set t \<Longrightarrow> u = [] \<or> hd u = CHR ''<'' \<Longrightarrow>
    takeWhile (\<lambda>c. c \<noteq> CHR ''<'') (t @ u) = t \<and> dropWhile (\<lambda>c. c \<noteq> CHR ''<'') (t @ u) = u"
  by (induction t) (cases u; auto)+

lemma closes_end: "lower tag = needle \<Longrightarrow> closes needle (''</'' @ tag @ ''>'' @ u)"
  by (auto simp: closes_def Let_def lower_def eq_ignore_ascii_case_def)

lemma find_raw_end:
  "\<not> contains t ''</'' \<Longrightarrow> lower tag = needle \<Longrightarrow> split_raw_text needle (t @ ''</'' @ tag @ ''>'' @ u) = (t, ''</'' @ tag @ ''>'' @ u)"
proof (induction t)
  case Nil
  then show ?case using closes_end [of tag needle u] by simp
next
  case (Cons c t)
  then have "\<not> prefix ''</'' (c # t)" "\<not> contains t ''</''" by (auto simp: contains_Cons)
  then have "\<not> (c = CHR ''<'' \<and> closes needle (c # t @ ''</'' @ tag @ ''>'' @ u))"
    by (cases t) (auto simp: closes_def)
  with Cons \<open>\<not> contains t ''</''\<close> show ?case by auto
qed

lemma skip_close_end: "list_all name_char tag \<Longrightarrow> skip_close (''</'' @ tag @ ''>'' @ u) = u"
proof -
  assume "list_all name_char tag"
  then have "read_name (tag @ ''>'' @ u) = (tag, ''>'' @ u)" by (intro read_name_span) auto
  then show ?thesis by (simp add: skip_close_def)
qed

lemma print_attrs_stop: "print_attrs as @ CHR ''>'' # u \<noteq> [] \<and> \<not> name_char (hd (print_attrs as @ CHR ''>'' # u))"
  "print_attrs as @ CHR ''/'' # u \<noteq> [] \<and> \<not> name_char (hd (print_attrs as @ CHR ''/'' # u))"
  by (cases as; auto simp: print_attrs_def print_attr_def)+

text \<open>A printed element after its opening bracket: the name, then the attributes.\<close>

lemma read_element_printed:
  assumes "tag_ok tag" "list_all attr_ok as"
  shows "read_element pf children (''<'' @ tag @ print_attrs as @ (if slash then ''/>'' else ''>'') @ u) =
    (let void = slash \<or> lower tag \<in> set VOID
     in seq (if void then ok ([], u)
             else if lower tag \<in> set RAW_TEXT then seq (read_raw_text pf (lower tag) u) (\<lambda>(n, r). ok ([n], r))
             else children u)
          (\<lambda>(nodes, s3). seq (build_element pf tag void as nodes) (\<lambda>el. ok (el, if void then s3 else skip_close s3))))"
proof -
  have "read_name (tag @ print_attrs as @ (if slash then ''/>'' else ''>'') @ u) =
      (tag, print_attrs as @ (if slash then ''/>'' else ''>'') @ u)"
    using assms(1) print_attrs_stop by (intro read_name_span) (auto simp: tag_ok_def)
  then show ?thesis
    using assms(1) by (cases slash) (simp_all add: read_element_def Let_def lower_def tag_ok_def read_attrs_print [OF assms(2)])
qed

lemma tag_not_special:
  assumes "tag_ok tag"
  shows "\<not> prefix ''<!'' (''<'' @ tag @ u)" "\<not> prefix ''<!--'' (''<'' @ tag @ u)" "\<not> prefix ''</'' (''<'' @ tag @ u)"
  using assms by (cases tag; auto simp: tag_ok_def name_char_def)+

lemma print_node_starts: "source_ok x \<Longrightarrow> \<not> is_text x \<Longrightarrow> hd (print_node x) = CHR ''<'' \<and> print_node x \<noteq> []"
  by (cases x) auto

lemma print_node_not_close:
  assumes "source_ok x"
  shows "print_node x @ u \<noteq> [] \<and> \<not> prefix ''</'' (print_node x @ u)"
proof (cases x)
  case (SText t)
  then show ?thesis using assms by (cases t) auto
qed (use assms tag_not_special(3) in \<open>auto simp: tag_ok_def\<close>)


section \<open>The round trip\<close>

lemma seq_assoc: "seq (seq r k) h = seq r (\<lambda>x. seq (k x) h)"
  by (auto simp: seq_def split: option.splits sum.splits)

lemma read_node_printed:
  assumes "source_ok x" and after: "is_text x \<Longrightarrow> u = [] \<or> hd u = CHR ''<''"
    and children: "\<And>tag as ns. x = SElement tag as ns \<Longrightarrow>
      children (print_nodes ns @ ''</'' @ tag @ ''>'' @ u) = seq (collect (map (compile_node pf) ns)) (\<lambda>ds. ok (ds, ''</'' @ tag @ ''>'' @ u))"
  shows "read_node pf children (print_node x @ u) = seq (compile_node pf x) (\<lambda>d. ok (d, u))"
proof (cases x)
  case (SText t)
  then have "hd (t @ u) \<noteq> CHR ''<''" using assms(1) by (cases t) auto
  with SText show ?thesis using assms(1) after find_text_end [of t u] by (simp add: read_node_def read_text_def)
next
  case (SComment c)
  then show ?thesis using assms(1) find_comment_end [of c u] by (simp add: read_node_def read_comment_def)
next
  case (SDeclaration d)
  then have "split_once (CHR ''>'') (''<!'' @ d @ ''>'' @ u) = Some (''<!'' @ d, u)"
    using assms(1) split_once_append [of "CHR ''>''" "''<!'' @ d" u] by simp
  moreover have "\<not> prefix ''--'' (d @ ''>'' @ u)" using SDeclaration assms(1) by (cases d; cases "tl d") auto
  ultimately show ?thesis using SDeclaration by (simp add: read_node_def read_declaration_def)
next
  case (SVoid tag as slash)
  then have ok: "tag_ok tag" "list_all attr_ok as" "slash \<or> lower tag \<in> set VOID" using assms(1) by auto
  have "read_node pf children (print_node x @ u) =
      read_element pf children (''<'' @ tag @ print_attrs as @ (if slash then ''/>'' else ''>'') @ u)"
    using SVoid tag_not_special [OF ok(1)] by (simp add: read_node_def)
  with ok SVoid show ?thesis by (simp only: read_element_printed [OF ok(1,2)]) (simp add: Let_def)
next
  case (SRaw tag as t)
  then have ok: "tag_ok tag" "list_all attr_ok as" "lower tag \<in> set RAW_TEXT" "\<not> contains t ''</''" using assms(1) by auto
  then have "lower tag \<notin> set VOID" by (auto simp: RAW_TEXT_def VOID_def)
  have "read_node pf children (print_node x @ u) =
      read_element pf children (''<'' @ tag @ print_attrs as @ (if False then ''/>'' else ''>'') @ (t @ ''</'' @ tag @ ''>'' @ u))"
    using SRaw tag_not_special [OF ok(1)] by (simp add: read_node_def)
  also have "\<dots> = seq (compile_node pf x) (\<lambda>d. ok (d, u))"
    unfolding read_element_printed [OF ok(1,2)]
    using SRaw ok find_raw_end [OF ok(4) refl [of "lower tag"], of u] skip_close_end [of tag u] \<open>lower tag \<notin> set VOID\<close>
    by (simp add: read_raw_text_def seq_assoc Let_def tag_ok_def)
  finally show ?thesis .
next
  case (SElement tag as ns)
  then have ok: "tag_ok tag" "list_all attr_ok as" "lower tag \<notin> set VOID" "lower tag \<notin> set RAW_TEXT" using assms(1) by auto
  have "read_node pf children (print_node x @ u) =
      read_element pf children (''<'' @ tag @ print_attrs as @ (if False then ''/>'' else ''>'') @ (print_nodes ns @ ''</'' @ tag @ ''>'' @ u))"
    using SElement tag_not_special [OF ok(1)] by (simp add: read_node_def print_nodes_def)
  also have "\<dots> = seq (compile_node pf x) (\<lambda>d. ok (d, u))"
    unfolding read_element_printed [OF ok(1,2)]
    using SElement ok children [OF SElement] skip_close_end [of tag u]
    by (simp add: seq_assoc Let_def tag_ok_def)
  finally show ?thesis .
qed

lemma print_nodes_Cons: "print_nodes (x # ns) @ u = print_node x @ print_nodes ns @ u"
  by (simp add: print_nodes_def)

lemma after_text:
  assumes "list_all source_ok (x # ns)" "texts_apart (x # ns)" "is_text x" "u = [] \<or> prefix ''</'' u"
  shows "print_nodes ns @ u = [] \<or> hd (print_nodes ns @ u) = CHR ''<''"
proof (cases ns)
  case Nil
  then show ?thesis using assms(4) by (auto simp: print_nodes_def prefix_def)
next
  case (Cons y ys)
  then show ?thesis using assms print_node_starts [of y] by (simp add: print_nodes_Cons)
qed

lemma texts_apart_tl: "texts_apart (x # ns) \<Longrightarrow> texts_apart ns"
  by (cases ns) auto

lemma parse_nodes_printed:
  "list_all source_ok ns \<Longrightarrow> texts_apart ns \<Longrightarrow> u = [] \<or> prefix ''</'' u \<Longrightarrow> length (print_nodes ns @ u) < n \<Longrightarrow>
     parse_nodes pf n (print_nodes ns @ u) = seq (collect (map (compile_node pf) ns)) (\<lambda>ds. ok (ds, u))"
proof (induction n arbitrary: ns u)
  case (Suc n)
  show ?case
  proof (cases ns)
    case Nil
    with Suc(4) show ?thesis by (auto simp: print_nodes_def)
  next
    case (Cons x xs)
    let ?u = "print_nodes xs @ u"
    have x: "source_ok x" "list_all source_ok xs" "texts_apart xs" using Suc(2,3) Cons texts_apart_tl by auto
    have len: "length ?u < n" using Suc(5) print_node_not_close [OF x(1), of "[]"]
      unfolding Cons print_nodes_Cons by (cases "print_node x") auto
    have node: "read_node pf (parse_nodes pf n) (print_node x @ ?u) = seq (compile_node pf x) (\<lambda>d. ok (d, ?u))"
    proof (rule read_node_printed [OF x(1)])
      show "?u = [] \<or> hd ?u = CHR ''<''" if "is_text x" using after_text that Suc(2-4) Cons by blast
    next
      fix tag as ns' assume e: "x = SElement tag as ns'"
      then have "length (print_nodes ns' @ ''</'' @ tag @ ''>'' @ ?u) < n"
        using Suc(5) unfolding Cons print_nodes_Cons by (simp add: print_nodes_def)
      then show "parse_nodes pf n (print_nodes ns' @ ''</'' @ tag @ ''>'' @ ?u) =
          seq (collect (map (compile_node pf) ns')) (\<lambda>ds. ok (ds, ''</'' @ tag @ ''>'' @ ?u))"
        using x(1) e by (intro Suc(1)) auto
    qed
    have "parse_nodes pf n ?u = seq (collect (map (compile_node pf) xs)) (\<lambda>ds. ok (ds, u))"
      using x len Suc(4) by (intro Suc(1))
    moreover have "parse_nodes pf (Suc n) (print_node x @ ?u) =
        seq (read_node pf (parse_nodes pf n) (print_node x @ ?u)) (\<lambda>(d, s1).
          seq (parse_nodes pf n s1) (\<lambda>(ds, s2). ok (d # ds, s2)))"
      using print_node_not_close [OF x(1), of ?u] by (simp only: parse_nodes.simps if_False simp_thms)
    ultimately show ?thesis
      unfolding Cons print_nodes_Cons node by (simp add: seq_assoc)
  qed
qed simp

lemma parse_source_printed:
  "list_all source_ok ns \<Longrightarrow> texts_apart ns \<Longrightarrow> parse_source pf (print_nodes ns) = seq (collect (map (compile_node pf) ns)) (\<lambda>ds. ok (ds, []))"
  using parse_nodes_printed [of ns "[]" "Suc (length (print_nodes ns))" pf] by (simp add: parse_source_def)

section \<open>Natural templates\<close>

text \<open>No directive and no inline expression.\<close>

definition plain_attr :: "string \<times> string \<Rightarrow> bool" where
  "plain_attr a \<longleftrightarrow> fst a \<noteq> ''xmlns:th'' \<and> \<not> prefix ''th:'' (fst a)"

definition plain_text :: "string \<Rightarrow> bool" where
  "plain_text t \<longleftrightarrow> \<not> contains t ''[['' \<and> \<not> contains t ''[(''"

fun plain :: "source \<Rightarrow> bool" where
  "plain (SText t) = plain_text t"
| "plain (SVoid tag as slash) = list_all plain_attr as"
| "plain (SRaw tag as t) = (list_all plain_attr as \<and> plain_text t)"
| "plain (SElement tag as ns) = (list_all plain_attr as \<and> list_all plain ns)"
| "plain _ = True"

text \<open>The document with escaped attribute values and without the slash of an empty tag.\<close>

definition escape_values :: "(string \<times> string) list \<Rightarrow> (string \<times> string) list" where
  "escape_values as = map (\<lambda>(n, v). (n, escape_html v)) as"

fun normal :: "source \<Rightarrow> source" where
  "normal (SVoid tag as slash) = SVoid tag (escape_values as) False"
| "normal (SRaw tag as t) = SRaw tag (escape_values as) t"
| "normal (SElement tag as ns) = SElement tag (escape_values as) (map normal ns)"
| "normal x = x"

lemma strip_prefix_None: "\<not> prefix p s \<Longrightarrow> strip_prefix p s = None"
  unfolding strip_prefix_def by (metis take_is_prefix)

lemma add_attrs_plain:
  "list_all plain_attr as \<Longrightarrow> add_attrs pf as d = ok (d\<lparr>static_attrs := static_attrs d @ as\<rparr>)"
proof (induction as arbitrary: d)
  case (Cons a as)
  obtain n v where a: "a = (n, v)" by (cases a)
  with Cons(2) have "strip_prefix ''th:'' n = None" by (intro strip_prefix_None) (simp add: plain_attr_def)
  then have "add_attr pf a d = ok (d\<lparr>static_attrs := static_attrs d @ [a]\<rparr>)"
    using Cons a by (simp add: add_attr_def plain_attr_def)
  with Cons show ?case by simp
qed simp

lemma build_element_plain:
  "list_all plain_attr as \<Longrightarrow>
     build_element pf tag void as ns = ok (Element tag void (no_directives\<lparr>static_attrs := as\<rparr>) ns)"
  by (simp add: build_element_def add_attrs_plain no_directives_def)

lemma compile_text_plain: "plain_text t \<Longrightarrow> compile_text pf t = ok (Text t)"
  by (simp add: plain_text_def compile_text_def)

lemma print_attrs_escape: "print_attrs (escape_values as) = concat (map (\<lambda>(n, v). attr_text n v) as)"
  by (induction as) (auto simp: print_attrs_def escape_values_def attr_text_def print_attr_def)

lemma plain_directives:
  fixes d :: "'f directives"
  assumes "d = no_directives\<lparr>static_attrs := as\<rparr>" "re_csrf E = None"
  shows "each_scopes F E sc d = [sc]" "hidden F E d sc = False" "th_replace d = None" "csrf_part E tag d = []"
    "open_tag F E sc tag d = ''<'' @ tag @ print_attrs (escape_values as) @ ''>''"
    "element_body F E d sc mode body incl = body mode"
  using assms by (simp_all add: no_directives_def each_scopes_def hidden_def csrf_part_def open_tag_def element_body_def
      print_attrs_escape)

lemma render_plain_element:
  assumes "re_csrf E = None"
  shows "render_node F T E sc mode depth (Element tag void (no_directives\<lparr>static_attrs := as\<rparr>) ns) =
    (if void then Inr (''<'' @ tag @ print_attrs (escape_values as) @ ''>'')
     else bind_run (render_nodes F T E sc mode depth ns) (\<lambda>inner.
       Inr (''<'' @ tag @ print_attrs (escape_values as) @ ''>'' @ inner @ ''</'' @ tag @ ''>'')))"
  unfolding render_node.simps(5) render_element_def render_instance_def plain_directives [OF refl assms]
  by (simp add: bind_run_def split: sum.split)

text \<open>A rendering that is the text whatever the surroundings, as long as no field is injected.\<close>

definition renders_as :: "'f dom \<Rightarrow> string \<Rightarrow> bool" where
  "renders_as d t \<longleftrightarrow> (\<forall>F T E sc mode depth. re_csrf E = None \<longrightarrow> render_node F T E sc mode depth d = Inr t)"

lemma render_nodes_as:
  "list_all2 renders_as ds ts \<Longrightarrow> re_csrf E = None \<Longrightarrow> render_nodes F T E sc mode depth ds = Inr (concat ts)"
  by (induction rule: list_all2_induct) (auto simp: renders_as_def)

lemma collect_ok: "(\<And>x. x \<in> set xs \<Longrightarrow> \<exists>d. f x = ok d \<and> P d (g x)) \<Longrightarrow> \<exists>ds. collect (map f xs) = ok ds \<and> list_all2 P ds (map g xs)"
proof (induction xs)
  case (Cons x xs)
  then obtain d ds where "f x = ok d" "P d (g x)" "collect (map f xs) = ok ds" "list_all2 P ds (map g xs)" by fastforce
  then show ?case by simp
qed simp

lemma compile_node_plain: "plain x \<Longrightarrow> \<exists>d. compile_node pf x = ok d \<and> renders_as d (print_node (normal x))"
proof (induction pf x rule: compile_node.induct)
  case (1 pf t)
  then show ?case by (simp add: compile_text_plain renders_as_def)
next
  case (4 pf tag as slash)
  then show ?case by (simp add: build_element_plain renders_as_def render_plain_element)
next
  case (5 pf tag as t)
  then show ?case by (simp add: compile_text_plain build_element_plain renders_as_def render_plain_element)
next
  case (6 pf tag as ns)
  then have "\<exists>ds. collect (map (compile_node pf) ns) = ok ds \<and> list_all2 renders_as ds (map (\<lambda>x. print_node (normal x)) ns)"
    by (intro collect_ok) (auto simp: list_all_iff)
  then obtain ds where ds: "collect (map (compile_node pf) ns) = ok ds" "list_all2 renders_as ds (map (\<lambda>x. print_node (normal x)) ns)"
    by blast
  then show ?case
    using 6(2) render_nodes_as [OF ds(2)] by (simp add: build_element_plain renders_as_def render_plain_element comp_def)
qed (simp_all add: renders_as_def)


section \<open>Properties\<close>

text \<open>
  C29: The template parser inverts the printing of documents. For every well-formed document, parsing
  its text gives the nodes of its parts: comments, declarations, void and raw-text elements and
  nested elements come back with their attributes in order, each attribute compiled by
  \<open>build_element\<close> and each text by \<open>compile_text\<close>, with the first error in document order.
\<close>

theorem template_source_roundtrip:
  assumes "list_all source_ok ns" "texts_apart ns"
  shows "add_template pf k name (print_nodes ns) =
    seq (collect (map (compile_node pf) ns)) (\<lambda>nodes. ok (k\<lparr>templates := hm_insert (templates k) name nodes\<rparr>))"
  by (simp add: add_template_def parse_source_printed [OF assms] seq_assoc)

theorem template_source_roundtrip_witness:
  "add_template (\<lambda>_. None :: unit option) \<lparr>templates = [], messages = []\<rparr> ''page''
     (''<p id='' @ [CHR 0x22] @ ''a'' @ [CHR 0x22] @ ''>x<br>y</p>'') =
   ok \<lparr>templates = [(''page'', [Element ''p'' False (no_directives\<lparr>static_attrs := [(''id'', ''a'')]\<rparr>)
          [Text ''x'', Element ''br'' True no_directives [], Text ''y'']])], messages = []\<rparr>"
proof -
  let ?ns = "[SElement ''p'' [(''id'', ''a'')] [SText ''x'', SVoid ''br'' [] False, SText ''y'']]"
  have "list_all source_ok ?ns" "texts_apart ?ns" by code_simp+
  from template_source_roundtrip [OF this, of "\<lambda>_. None :: unit option" "\<lparr>templates = [], messages = []\<rparr>" "''page''"]
  show ?thesis
    by (simp add: print_nodes_def print_attrs_def print_attr_def compile_text_def contains_def build_element_def add_attr_def
        strip_prefix_def no_directives_def hm_insert_def)
qed

text \<open>
  Templates are natural. A well-formed document without directives and inline expressions is
  accepted, and rendering it gives the document back for every model and every security context:
  the tags, attributes, comments and texts in their order, with escaped attribute values and
  without the slash of empty tags. When no value needs escaping and no tag has the slash, the page
  is the file.
\<close>

theorem natural_template:
  assumes "list_all source_ok ns" "texts_apart ns" "list_all plain ns" "hm_ok (templates k)"
  shows "\<exists>k'. add_template pf k name (print_nodes ns) = ok k' \<and>
    (\<forall>F model az. render_with F k' name model \<lparr>rc_authz = az, rc_csrf = None\<rparr> = Inr (print_nodes (map normal ns)))"
proof -
  have "\<exists>ds. collect (map (compile_node pf) ns) = ok ds \<and> list_all2 renders_as ds (map (\<lambda>x. print_node (normal x)) ns)"
    using assms(3) compile_node_plain by (intro collect_ok) (auto simp: list_all_iff)
  then obtain ds where ds: "collect (map (compile_node pf) ns) = ok ds"
    "list_all2 renders_as ds (map (\<lambda>x. print_node (normal x)) ns)" by blast
  let ?k = "k\<lparr>templates := hm_insert (templates k) name ds\<rparr>"
  have "add_template pf k name (print_nodes ns) = ok ?k"
    by (simp add: add_template_def parse_source_printed [OF assms(1,2)] ds(1))
  moreover have "hm_get (templates ?k) name = Some ds" by (simp add: hm_get_def hm_insert_def update_Some_unfold)
  then have "render_with F ?k name model \<lparr>rc_authz = az, rc_csrf = None\<rparr> = Inr (print_nodes (map normal ns))" for F model az
    using render_nodes_as [OF ds(2)] by (simp add: render_with_def env_of_def print_nodes_def comp_def)
  ultimately show ?thesis by blast
qed

theorem natural_template_witness:
  "\<exists>k'. add_template (\<lambda>_. None :: unit option) \<lparr>templates = [], messages = []\<rparr> ''page'' ''<p>x<br/>y</p>'' = ok k' \<and>
    (\<forall>F model az. render_with F k' ''page'' model \<lparr>rc_authz = az, rc_csrf = None\<rparr> = Inr ''<p>x<br>y</p>'')"
proof -
  let ?ns = "[SElement ''p'' [] [SText ''x'', SVoid ''br'' [] True, SText ''y'']]"
  have h: "list_all source_ok ?ns" "texts_apart ?ns" "list_all plain ?ns" by code_simp+
  have "hm_ok (templates (\<lparr>templates = [], messages = []\<rparr> :: unit kernleaf))" by (simp add: hm_ok_def)
  from natural_template [OF h this, of "\<lambda>_. None" "''page''"] show ?thesis
    by (simp add: print_nodes_def print_attrs_def escape_values_def)
qed

section \<open>Where the code and its documentation part\<close>

text \<open>
  A close tag that belongs to no open element ends the template: what follows it is dropped
  without an error, although a mismatched close tag is documented not to abort.
\<close>

lemma stray_close_tag_truncates:
  "add_template (\<lambda>_. None :: unit option) k name ''a</b>c'' =
   ok (k\<lparr>templates := hm_insert (templates k) name [Text ''a'']\<rparr>)"
proof -
  have "parse_source (\<lambda>_. None :: unit option) ''a</b>c'' = ok ([Text ''a''], ''</b>c'')" by code_simp
  then show ?thesis by (simp add: add_template_def)
qed

text \<open>An unquoted attribute value is cut at a slash, and the rest becomes an attribute of its own.\<close>

lemma unquoted_value_cut:
  "(read_attrs ''href=/login>'' :: (unit template_error, (string \<times> string) list \<times> bool \<times> string) answer) = ok ([(''href'', []), (''login'', [])], False, [])"
  by code_simp

text \<open>
  Attribute values are taken from the source as they stand and escaped when written, so a
  character reference in a static attribute is escaped twice.
\<close>

lemma static_reference_escaped_twice:
  "print_node (normal (SElement ''a'' [(''href'', ''?x=1&amp;y=2'')] [])) =
   ''<a href='' @ [CHR 0x22] @ ''?x=1&amp;amp;y=2'' @ [CHR 0x22] @ ''></a>''"
  by code_simp

end
