(* ===== verification/Di_Container.thy ===== *)
theory Di_Container
  imports Rust_Prelude Hash_Map
begin

text \<open>
  The dependency-injection container: registration and lookup of
  \<open>crates/di-core/src/context.rs\<close>, \<open>bean.rs\<close>, \<open>error.rs\<close> and the request scope of \<open>scope.rs\<close>.

  A \<open>TypeId\<close> is the type it identifies. An erased instance \<open>Arc<dyn Any>\<close> is a payload
  together with its concrete type, and \<open>downcast\<close> compares that type; the \<open>expect\<close> on a failed
  downcast is a panic. A call that fails leaves the context as it was changed so far, so an error
  carries a context. The wiring of components by \<open>refresh\<close> is in \<open>Di_Refresh\<close>.
\<close>

section \<open>Beans\<close>

datatype rust_type = Named string | ArcOf rust_type

text \<open>\<open>std::any::type_name\<close>.\<close>

primrec type_name :: "rust_type \<Rightarrow> string" where
  "type_name (Named n) = n"
| "type_name (ArcOf t) = ''alloc::sync::Arc<'' @ type_name t @ ''>''"

datatype bean_origin = FrameworkDefault | User | Builder

record bean_entry =
  entry_type :: rust_type
  entry_name :: string
  origin :: bean_origin
  is_primary :: bool
  qualifier :: "string option"

definition entry_new :: "rust_type \<Rightarrow> string \<Rightarrow> bean_origin \<Rightarrow> bean_entry" where
  "entry_new t n orig =
     \<lparr>entry_type = t, entry_name = n, origin = orig, is_primary = False, qualifier = None\<rparr>"

definition entry_primary :: "bean_entry \<Rightarrow> bean_entry" where
  "entry_primary e = e\<lparr>is_primary := True\<rparr>"

definition entry_qualifier :: "string \<Rightarrow> bean_entry \<Rightarrow> bean_entry" where
  "entry_qualifier q e = e\<lparr>qualifier := Some q\<rparr>"

definition is_default :: "bean_entry \<Rightarrow> bool" where
  "is_default e \<longleftrightarrow> origin e = FrameworkDefault"

datatype di_error =
    NotFound string
  | Ambiguous string
  | CircularDependency string
  | MissingDependency string
  | TypeMismatch string

datatype 'v bean_instance = Instance (dyn_type: rust_type) (payload: 'v)

definition downcast :: "rust_type \<Rightarrow> 'v bean_instance \<Rightarrow> 'v option" where
  "downcast t i = (if dyn_type i = t then Some (payload i) else None)"

section \<open>The context\<close>

type_synonym 'v beans = "(bean_entry \<times> 'v bean_instance) list"

type_synonym 'v instances = "(rust_type, 'v beans) hmap"

record component_def =
  component :: rust_type
  def_name :: string
  deps :: "rust_type list"
  opt_deps :: "rust_type list"
  provides :: "rust_type list"

record 'v app_context =
  instances :: "'v instances"
  pending :: "component_def list"

text \<open>A call ends early with an error or with a panic; the context keeps what was done before.\<close>

datatype failure = Err di_error | Panic panic

type_synonym 'v outcome = "(failure \<times> 'v app_context) + 'v app_context"

type_synonym 'v resolved = "(di_error + 'v) run"

definition app_new :: "'v app_context" where
  "app_new = \<lparr>instances = [], pending = []\<rparr>"

definition bean_list :: "'v app_context \<Rightarrow> rust_type \<Rightarrow> 'v beans" where
  "bean_list c t = (case hm_get (instances c) t of None \<Rightarrow> [] | Some l \<Rightarrow> l)"

definition put_list :: "'v app_context \<Rightarrow> rust_type \<Rightarrow> 'v beans \<Rightarrow> 'v app_context" where
  "put_list c t l = c\<lparr>instances := hm_insert (instances c) t l\<rparr>"

definition register_with_entry :: "'v app_context \<Rightarrow> bean_entry \<Rightarrow> 'v bean_instance \<Rightarrow> 'v outcome" where
  "register_with_entry c e i =
     (if dyn_type i \<noteq> entry_type e then Inl (Err (TypeMismatch (entry_name e)), c)
      else
        let l = bean_list c (entry_type e) in
        if is_default e then
          if list_ex (\<lambda>(e, _). \<not> is_default e) l then Inr (put_list c (entry_type e) l)
          else Inr (put_list c (entry_type e) (l @ [(e, i)]))
        else Inr (put_list c (entry_type e) (filter (\<lambda>(e, _). \<not> is_default e) l @ [(e, i)])))"

definition register_instance :: "'v app_context \<Rightarrow> rust_type \<Rightarrow> 'v \<Rightarrow> 'v outcome" where
  "register_instance c t v = register_with_entry c (entry_new t (type_name t) User) (Instance t v)"

definition register_qualified :: "'v app_context \<Rightarrow> string \<Rightarrow> rust_type \<Rightarrow> 'v \<Rightarrow> 'v outcome" where
  "register_qualified c q t v =
     register_with_entry c (entry_qualifier q (entry_new t (type_name t) User)) (Instance t v)"

text \<open>A trait binding is filed under the type \<open>Arc<T>\<close> of its value.\<close>

definition register_as :: "'v app_context \<Rightarrow> rust_type \<Rightarrow> 'v \<Rightarrow> 'v outcome" where
  "register_as c t v =
     register_with_entry c (entry_new (ArcOf t) (type_name (ArcOf t)) User) (Instance (ArcOf t) v)"

definition expect_type :: "rust_type \<Rightarrow> 'v bean_instance \<Rightarrow> 'v resolved" where
  "expect_type t i = (case downcast t i of None \<Rightarrow> Inl ExpectFailed | Some v \<Rightarrow> Inr (Inr v))"

definition get :: "'v app_context \<Rightarrow> rust_type \<Rightarrow> 'v resolved" where
  "get c t =
     (case hm_get (instances c) t of
        None \<Rightarrow> Inr (Inl (NotFound (type_name t)))
      | Some l \<Rightarrow>
          if length l = 1 then expect_type t (snd (l ! 0))
          else (case filter (\<lambda>(e, _). is_primary e) l of
                  [] \<Rightarrow> Inr (Inl (Ambiguous (type_name t)))
                | [(_, i)] \<Rightarrow> expect_type t i
                | _ \<Rightarrow> Inr (Inl (Ambiguous (type_name t)))))"

definition get_qualified :: "'v app_context \<Rightarrow> rust_type \<Rightarrow> string \<Rightarrow> 'v resolved" where
  "get_qualified c t q =
     (case hm_get (instances c) t of
        None \<Rightarrow> Inr (Inl (NotFound (type_name t)))
      | Some l \<Rightarrow>
          (case filter (\<lambda>(e, _). qualifier e = Some q) l of
             [] \<Rightarrow> Inr (Inl (NotFound (type_name t)))
           | [(_, i)] \<Rightarrow> expect_type t i
           | _ \<Rightarrow> Inr (Inl (Ambiguous (type_name t)))))"

definition get_all :: "'v app_context \<Rightarrow> rust_type \<Rightarrow> 'v list" where
  "get_all c t = List.map_filter (\<lambda>(_, i). downcast t i) (bean_list c t)"

definition get_as :: "'v app_context \<Rightarrow> rust_type \<Rightarrow> 'v resolved" where
  "get_as c t = get c (ArcOf t)"

definition get_all_as :: "'v app_context \<Rightarrow> rust_type \<Rightarrow> 'v list" where
  "get_all_as c t = List.map_filter (\<lambda>(_, i). downcast (ArcOf t) i) (bean_list c (ArcOf t))"

definition bean_count :: "'v app_context \<Rightarrow> nat" where
  "bean_count c = sum_list (map (\<lambda>(_, l). length l) (instances c))"

section \<open>The request scope\<close>

record 'v request_scope =
  local_beans :: "(rust_type, 'v bean_instance) hmap"
  parent :: "'v app_context"

definition scope_new :: "'v app_context \<Rightarrow> 'v request_scope" where
  "scope_new c = \<lparr>local_beans = [], parent = c\<rparr>"

definition scope_set :: "'v request_scope \<Rightarrow> rust_type \<Rightarrow> 'v \<Rightarrow> 'v request_scope" where
  "scope_set s t v = s\<lparr>local_beans := hm_insert (local_beans s) t (Instance t v)\<rparr>"

definition scope_insert :: "'v request_scope \<Rightarrow> rust_type \<Rightarrow> 'v \<Rightarrow> 'v request_scope" where
  "scope_insert s t v = s\<lparr>local_beans := hm_insert (local_beans s) t (Instance t v)\<rparr>"

definition scope_has :: "'v request_scope \<Rightarrow> rust_type \<Rightarrow> bool" where
  "scope_has s t \<longleftrightarrow> hm_get (local_beans s) t \<noteq> None"

definition local_get :: "'v request_scope \<Rightarrow> rust_type \<Rightarrow> 'v option run" where
  "local_get s t =
     (case hm_get (local_beans s) t of
        None \<Rightarrow> Inr None
      | Some i \<Rightarrow> (case downcast t i of None \<Rightarrow> Inl ExpectFailed | Some v \<Rightarrow> Inr (Some v)))"

definition scope_get :: "'v request_scope \<Rightarrow> rust_type \<Rightarrow> 'v resolved" where
  "scope_get s t =
     bind_run (local_get s t) (\<lambda>l. case l of Some v \<Rightarrow> Inr (Inr v) | None \<Rightarrow> get (parent s) t)"

definition scope_get_qualified :: "'v request_scope \<Rightarrow> rust_type \<Rightarrow> string \<Rightarrow> 'v resolved" where
  "scope_get_qualified s t q = get_qualified (parent s) t q"

definition scope_get_as :: "'v request_scope \<Rightarrow> rust_type \<Rightarrow> 'v resolved" where
  "scope_get_as s t = get_as (parent s) t"

definition scope_get_all :: "'v request_scope \<Rightarrow> rust_type \<Rightarrow> 'v list run" where
  "scope_get_all s t =
     bind_run (local_get s t) (\<lambda>l. Inr (get_all (parent s) t @ (case l of None \<Rightarrow> [] | Some v \<Rightarrow> [v])))"

definition scope_get_all_as :: "'v request_scope \<Rightarrow> rust_type \<Rightarrow> 'v list" where
  "scope_get_all_as s t = get_all_as (parent s) t"

section \<open>Registration and lookup\<close>

definition well_typed :: "'v app_context \<Rightarrow> bool" where
  "well_typed c \<longleftrightarrow> hm_ok (instances c) \<and>
     (\<forall>t l. hm_get (instances c) t = Some l \<longrightarrow> l \<noteq> [] \<and>
        (\<forall>(e, i)\<in>set l. entry_type e = t \<and> dyn_type i = t))"

lemma well_typed_list:
  "well_typed c \<Longrightarrow> hm_get (instances c) t = Some l \<Longrightarrow> (e, i) \<in> set l \<Longrightarrow> dyn_type i = t"
  by (fastforce simp: well_typed_def)

lemma expect_type_ok [simp]: "dyn_type i = t \<Longrightarrow> expect_type t i = Inr (Inr (payload i))"
  by (simp add: expect_type_def downcast_def)

lemma well_typed_new [simp]: "well_typed app_new"
  by (simp add: well_typed_def app_new_def)

lemma bean_list_put [simp]:
  "hm_ok (instances c) \<Longrightarrow> bean_list (put_list c t l) t' = (if t' = t then l else bean_list c t')"
  by (simp add: bean_list_def put_list_def)

lemma well_typed_put:
  assumes "well_typed c" "l \<noteq> []" "\<And>e i. (e, i) \<in> set l \<Longrightarrow> entry_type e = t \<and> dyn_type i = t"
  shows "well_typed (put_list c t l)"
  using assms by (fastforce simp: well_typed_def put_list_def)

lemma bean_list_types:
  "well_typed c \<Longrightarrow> (e, i) \<in> set (bean_list c t) \<Longrightarrow> entry_type e = t \<and> dyn_type i = t"
  by (cases "hm_get (instances c) t") (fastforce simp: well_typed_def bean_list_def)+

lemma well_typed_pending [simp]: "well_typed (c\<lparr>pending := ds\<rparr>) = well_typed c"
  by (simp add: well_typed_def)

lemma register_well_typed:
  assumes "well_typed c" "register_with_entry c e i = Inr c'"
  shows "well_typed c'"
proof -
  let ?t = "entry_type e" and ?l = "bean_list c (entry_type e)"
  have i: "dyn_type i = ?t" using assms(2) by (simp add: register_with_entry_def split: if_splits)
  consider "c' = put_list c ?t ?l" "?l \<noteq> []" | "c' = put_list c ?t (?l @ [(e, i)])"
    | "c' = put_list c ?t (filter (\<lambda>(e, _). \<not> is_default e) ?l @ [(e, i)])"
    using assms(2) by (fastforce simp: register_with_entry_def Let_def split: if_splits)
  then show ?thesis
  proof cases
    case 1
    then show ?thesis using bean_list_types [OF assms(1)] by (auto intro!: well_typed_put [OF assms(1)])
  next
    case 2
    then show ?thesis
      using bean_list_types [OF assms(1)] i by (auto intro!: well_typed_put [OF assms(1)])
  next
    case 3
    then show ?thesis
      using bean_list_types [OF assms(1)] i by (auto intro!: well_typed_put [OF assms(1)])
  qed
qed

lemma register_error: "register_with_entry c e i = Inl (x, c') \<Longrightarrow> c' = c"
  by (auto simp: register_with_entry_def Let_def split: if_splits)

lemmas register_defs =
  register_instance_def register_qualified_def register_as_def

lemma filter_one_member: "filter P l = [x] \<Longrightarrow> x \<in> set l"
  by (metis filter_is_subset list.set_intros(1) subsetD)

lemma get_defined:
  assumes "well_typed c"
  shows "\<exists>r. get c t = Inr r" "\<exists>r. get_qualified c t q = Inr r"
proof -
  show "\<exists>r. get c t = Inr r"
  proof (cases "hm_get (instances c) t")
    case (Some l)
    have one: "dyn_type (snd (l ! 0)) = t" if "length l = 1"
      using that well_typed_list [OF assms Some, of "fst (l ! 0)" "snd (l ! 0)"]
      by (simp add: nth_mem)
    show ?thesis
      using Some one
      by (auto simp: get_def split: list.splits dest!: filter_one_member well_typed_list [OF assms Some])
  qed (simp add: get_def)
  show "\<exists>r. get_qualified c t q = Inr r"
    by (cases "hm_get (instances c) t")
       (auto simp: get_qualified_def split: list.splits dest!: filter_one_member well_typed_list [OF assms])
qed

text \<open>
  The specification: of the beans registered for a type, in order, the framework defaults count
  only while there is no other bean; one bean, or the only primary one, answers.
\<close>

definition effective :: "'v beans \<Rightarrow> 'v beans" where
  "effective bs = (if \<exists>b\<in>set bs. \<not> is_default (fst b) then filter (\<lambda>b. \<not> is_default (fst b)) bs else bs)"

definition answer :: "rust_type \<Rightarrow> 'v beans \<Rightarrow> di_error + 'v" where
  "answer t bs =
     (case effective bs of
        [] \<Rightarrow> Inl (NotFound (type_name t))
      | [b] \<Rightarrow> Inr (payload (snd b))
      | bs' \<Rightarrow> (case filter (\<lambda>b. is_primary (fst b)) bs' of
                 [b] \<Rightarrow> Inr (payload (snd b))
               | _ \<Rightarrow> Inl (Ambiguous (type_name t))))"

definition answer_qualified :: "rust_type \<Rightarrow> string \<Rightarrow> 'v beans \<Rightarrow> di_error + 'v" where
  "answer_qualified t q bs =
     (case filter (\<lambda>b. qualifier (fst b) = Some q) (effective bs) of
        [] \<Rightarrow> Inl (NotFound (type_name t))
      | [b] \<Rightarrow> Inr (payload (snd b))
      | _ \<Rightarrow> Inl (Ambiguous (type_name t)))"

definition context_after :: "'v outcome \<Rightarrow> 'v app_context" where
  "context_after r = (case r of Inl (_, c) \<Rightarrow> c | Inr c \<Rightarrow> c)"

definition register_all :: "'v beans \<Rightarrow> 'v app_context" where
  "register_all bs = fold (\<lambda>(e, i) c. context_after (register_with_entry c e i)) bs app_new"

definition beans_for :: "rust_type \<Rightarrow> 'v beans \<Rightarrow> 'v beans" where
  "beans_for t bs = filter (\<lambda>(e, i). entry_type e = t \<and> dyn_type i = t) bs"

lemma register_all_snoc:
  "register_all (bs @ [(e, i)]) = context_after (register_with_entry (register_all bs) e i)"
  by (simp add: register_all_def)

lemma effective_snoc:
  "effective (bs @ [(e, i)]) =
     (if is_default e then if \<exists>b\<in>set bs. \<not> is_default (fst b) then effective bs else bs @ [(e, i)]
      else filter (\<lambda>b. \<not> is_default (fst b)) bs @ [(e, i)])"
  by (auto simp: effective_def)

lemma effective_filter:
  "filter (\<lambda>(e, _). \<not> is_default e) (effective bs) = filter (\<lambda>b. \<not> is_default (fst b)) bs"
  "list_ex (\<lambda>(e, _). \<not> is_default e) (effective bs) = (\<exists>b\<in>set bs. \<not> is_default (fst b))"
  by (auto simp: effective_def list_ex_iff case_prod_beta intro!: filter_cong)

lemma effective_empty [simp]: "effective [] = []"
  by (simp add: effective_def)

lemma effective_Nil [simp]: "effective bs = [] \<longleftrightarrow> bs = []"
  by (auto simp: effective_def filter_empty_conv)

lemma register_all_spec:
  "well_typed (register_all bs) \<and> bean_list (register_all bs) t = effective (beans_for t bs)"
proof (induction bs arbitrary: t rule: rev_induct)
  case Nil
  show ?case by (simp add: register_all_def beans_for_def bean_list_def app_new_def well_typed_def)
next
  case (snoc b bs)
  obtain e i where b: "b = (e, i)" by (cases b)
  let ?c = "register_all bs"
  have wt: "well_typed ?c" and ok: "hm_ok (instances ?c)" and IH: "\<And>t. bean_list ?c t = effective (beans_for t bs)"
    using snoc by (auto simp: well_typed_def)
  show ?case
  proof (cases "dyn_type i = entry_type e")
    case False
    then show ?thesis using snoc
      by (auto simp: b register_all_snoc register_with_entry_def context_after_def beans_for_def)
  next
    case True
    have def: "effective bs' = bs'" if "\<not> (\<exists>b\<in>set bs'. \<not> is_default (fst b))" for bs' :: "'a beans"
      using that by (auto simp: effective_def)
    have bf: "beans_for t (bs @ [(e, i)]) = beans_for t bs @ (if entry_type e = t then [(e, i)] else [])" for t
      using True by (simp add: beans_for_def)
    have "\<exists>c'. register_with_entry ?c e i = Inr c'"
      using True by (auto simp: register_with_entry_def Let_def)
    then obtain c' where c': "register_with_entry ?c e i = Inr c'" by blast
    have "bean_list c' t = effective (beans_for t (bs @ [(e, i)]))"
      using c' True ok
      by (auto simp: register_with_entry_def Let_def bf effective_snoc IH effective_filter def split: if_splits)
    moreover have "well_typed c'" by (rule register_well_typed [OF wt c'])
    ultimately show ?thesis by (simp add: b register_all_snoc c' context_after_def)
  qed
qed

lemma hm_get_bean_list:
  "well_typed c \<Longrightarrow> hm_get (instances c) t = (if bean_list c t = [] then None else Some (bean_list c t))"
  by (auto simp: well_typed_def bean_list_def split: option.splits)

lemma get_answer:
  assumes "well_typed c" "bean_list c t = effective bs"
  shows "get c t = Inr (answer t bs)"
proof -
  have ty: "expect_type t (snd b) = Inr (Inr (payload (snd b)))" if "b \<in> set (effective bs)" for b
    using bean_list_types [OF assms(1), of "fst b" "snd b" t] that assms(2) by simp
  have get: "hm_get (instances c) t = (if effective bs = [] then None else Some (effective bs))"
    using hm_get_bean_list [OF assms(1)] assms(2) by simp
  define p where "p = filter (\<lambda>b. is_primary (fst b)) (effective bs)"
  have prim: "filter (\<lambda>(e, _). is_primary e) (effective bs) = p"
    by (simp add: p_def case_prod_beta')
  have p: "b \<in> set (effective bs)" if "p = [b]" for b
    using that filter_one_member unfolding p_def by metis
  consider "effective bs = []" | b where "effective bs = [b]"
    | b b' l where "effective bs = b # b' # l"
    by (cases "effective bs" rule: remdups_adj.cases) auto
  then show ?thesis
  proof cases
    case 1
    then show ?thesis using get by (simp add: get_def answer_def)
  next
    case 2
    then show ?thesis using get ty [of b] by (simp add: get_def answer_def)
  next
    case 3
    have "get c t = (case p of [] \<Rightarrow> Inr (Inl (Ambiguous (type_name t)))
        | [(_, i)] \<Rightarrow> expect_type t i | _ \<Rightarrow> Inr (Inl (Ambiguous (type_name t))))"
      unfolding get_def get prim [symmetric] using 3 by (simp del: filter.simps)
    moreover have "answer t bs = (case p of [b] \<Rightarrow> Inr (payload (snd b)) | _ \<Rightarrow> Inl (Ambiguous (type_name t)))"
      unfolding answer_def p_def using 3 by (simp del: filter.simps)
    ultimately show ?thesis using p ty by (fastforce split: list.splits)
  qed
qed

lemma get_qualified_answer:
  assumes "well_typed c" "bean_list c t = effective bs"
  shows "get_qualified c t q = Inr (answer_qualified t q bs)"
proof -
  let ?l = "filter (\<lambda>b. qualifier (fst b) = Some q) (effective bs)"
  have ty: "expect_type t i = Inr (Inr (payload i))" if "?l = [(e, i)]" for e i
    using bean_list_types [OF assms(1), of e i t] filter_one_member [OF that] assms(2) by simp
  have q: "filter (\<lambda>(e, _). qualifier e = Some q) l = filter (\<lambda>b. qualifier (fst b) = Some q) l" for l :: "'a beans"
    by (simp add: case_prod_beta')
  show ?thesis
    using hm_get_bean_list [OF assms(1), of t] assms(2) ty
    by (auto simp: get_qualified_def answer_qualified_def q split: list.splits)
qed

lemma map_filter_payloads:
  "\<forall>(e, i)\<in>set l. dyn_type i = t \<Longrightarrow> List.map_filter (\<lambda>(_, i). downcast t i) l = map (payload \<circ> snd) l"
  by (induction l) (auto simp: List.map_filter_simps downcast_def)

lemma get_all_payloads:
  "well_typed c \<Longrightarrow> get_all c t = map (payload \<circ> snd) (bean_list c t)"
  unfolding get_all_def by (rule map_filter_payloads) (fastforce dest: bean_list_types)

text \<open>
  C13: Registration and lookup refine their specification. After any sequence of registrations
  (user beans, framework defaults, primary and qualified beans, trait bindings; ill-typed ones
  are refused and change nothing), looking a type up never panics: it finds nothing if no bean
  was registered, the one bean if there is one, the only primary one among several, and an
  ambiguity otherwise, where framework defaults count only if no other bean was registered,
  before or after them. A qualified lookup finds the only bean with that qualifier. Collecting a type lists the same beans in registration order.
\<close>

theorem di_resolution:
  "get (register_all bs) t = Inr (answer t (beans_for t bs)) \<and>
   get_all (register_all bs) t = map (payload \<circ> snd) (effective (beans_for t bs)) \<and>
   get_qualified (register_all bs) t q = Inr (answer_qualified t q (beans_for t bs))"
  using get_answer [of "register_all bs" t "beans_for t bs"] register_all_spec [of bs t]
    get_qualified_answer [of "register_all bs" t "beans_for t bs" q]
  by (simp add: get_all_payloads)

section \<open>The container interface\<close>

text \<open>
  What the trait \<open>Container\<close> promises its clients, the code \<open>#[derive(Component)]\<close> generates:
  lookups return, and they agree with the collection of all beans of the type.
\<close>

locale container =
  fixes ok :: "'c \<Rightarrow> bool"
    and find :: "'c \<Rightarrow> rust_type \<Rightarrow> 'v resolved"
    and collect :: "'c \<Rightarrow> rust_type \<Rightarrow> 'v list run"
  assumes find_returns: "ok c \<Longrightarrow> \<exists>r. find c t = Inr r"
    and collect_returns: "ok c \<Longrightarrow> \<exists>vs. collect c t = Inr vs"
    and find_member: "ok c \<Longrightarrow> find c t = Inr (Inr v) \<Longrightarrow> collect c t = Inr vs \<Longrightarrow> v \<in> set vs"
    and find_none: "ok c \<Longrightarrow> collect c t = Inr [] \<Longrightarrow> find c t = Inr (Inl (NotFound (type_name t)))"
    and find_only: "ok c \<Longrightarrow> collect c t = Inr [v] \<Longrightarrow> find c t = Inr (Inr v)"
    and find_many: "ok c \<Longrightarrow> collect c t = Inr vs \<Longrightarrow> 2 \<le> length vs \<Longrightarrow>
      find c t = Inr (Inl e) \<Longrightarrow> e = Ambiguous (type_name t)"
begin

lemma not_found_iff:
  assumes "ok c"
  shows "find c t = Inr (Inl (NotFound (type_name t))) \<longleftrightarrow> collect c t = Inr []"
proof
  assume nf: "find c t = Inr (Inl (NotFound (type_name t)))"
  obtain vs where vs: "collect c t = Inr vs" using collect_returns [OF assms] by blast
  then show "collect c t = Inr []"
    using nf find_only [OF assms, of t] find_many [OF assms vs, of "NotFound (type_name t)"]
    by (cases vs rule: remdups_adj.cases) auto
qed (rule find_none [OF assms])

lemma find_cases:
  assumes "ok c" "collect c t = Inr vs"
  shows "(vs = [] \<and> find c t = Inr (Inl (NotFound (type_name t)))) \<or>
    (\<exists>v\<in>set vs. find c t = Inr (Inr v)) \<or>
    (2 \<le> length vs \<and> find c t = Inr (Inl (Ambiguous (type_name t))))"
proof -
  obtain r where r: "find c t = Inr r" using find_returns [OF assms(1)] by blast
  show ?thesis
  proof (cases r)
    case (Inr v)
    then show ?thesis using r find_member [OF assms(1) _ assms(2), of v] by auto
  next
    case (Inl e)
    then show ?thesis
      using r assms find_none [OF assms(1), of t] find_only [OF assms(1), of t]
        find_many [OF assms, of e]
      by (cases vs rule: remdups_adj.cases) auto
  qed
qed

end

definition get_all_run :: "'v app_context \<Rightarrow> rust_type \<Rightarrow> 'v list run" where
  "get_all_run c t = Inr (get_all c t)"

definition scope_ok :: "'v request_scope \<Rightarrow> bool" where
  "scope_ok s \<longleftrightarrow> well_typed (parent s) \<and> hm_ok (local_beans s) \<and>
     (\<forall>t i. hm_get (local_beans s) t = Some i \<longrightarrow> dyn_type i = t)"

lemma local_get_ok:
  "scope_ok s \<Longrightarrow> local_get s t = Inr (map_option payload (hm_get (local_beans s) t))"
  by (auto simp: scope_ok_def local_get_def downcast_def split: option.splits)

lemma bean_list_effective_get:
  assumes "well_typed c" "get c t = Inr r"
  shows "(case r of
      Inl e \<Rightarrow> if length (get_all c t) \<le> 1 then get_all c t = [] \<and> e = NotFound (type_name t)
             else e = Ambiguous (type_name t)
    | Inr v \<Rightarrow> v \<in> set (get_all c t))"
proof -
  let ?l = "bean_list c t"
  have ty: "expect_type t (snd b) = Inr (Inr (payload (snd b)))" if "b \<in> set ?l" for b
    using bean_list_types [OF assms(1), of "fst b" "snd b" t] that by simp
  have "get c t = Inr (Inl (NotFound (type_name t)))" if "?l = []"
    using that hm_get_bean_list [OF assms(1), of t] by (simp add: get_def)
  moreover have "get c t = Inr (Inr (payload (snd b)))" if "?l = [b]" for b
    using that hm_get_bean_list [OF assms(1), of t] ty [of b] by (simp add: get_def)
  moreover have "(\<exists>b\<in>set ?l. get c t = Inr (Inr (payload (snd b)))) \<or> get c t = Inr (Inl (Ambiguous (type_name t)))"
    if "2 \<le> length ?l"
  proof -
    have "length ?l \<noteq> 1" "?l \<noteq> []" using that by auto
    then have get: "get c t = (case filter (\<lambda>(e, _). is_primary e) ?l of [] \<Rightarrow> Inr (Inl (Ambiguous (type_name t)))
        | [(_, i)] \<Rightarrow> expect_type t i | _ \<Rightarrow> Inr (Inl (Ambiguous (type_name t))))"
      using hm_get_bean_list [OF assms(1), of t] by (simp add: get_def)
    show ?thesis
    proof (cases "\<exists>b. filter (\<lambda>(e, _). is_primary e) ?l = [b]")
      case True
      then obtain b where b: "filter (\<lambda>(e, _). is_primary e) ?l = [b]" by blast
      then have "b \<in> set ?l" by (rule filter_one_member)
      moreover have "get c t = Inr (Inr (payload (snd b)))"
        using get b ty [OF \<open>b \<in> set ?l\<close>] by (cases b) simp
      ultimately show ?thesis by blast
    next
      case False
      with get show ?thesis by (auto split: list.splits)
    qed
  qed
  moreover have "?l = [] \<or> (\<exists>b. ?l = [b]) \<or> 2 \<le> length ?l"
    by (cases ?l rule: remdups_adj.cases) auto
  ultimately show ?thesis
    using assms(2) by (auto simp: get_all_payloads [OF assms(1)] split: sum.splits)
qed

interpretation app: container well_typed get get_all_run
proof unfold_locales
  show "well_typed c \<Longrightarrow> \<exists>r. get c t = Inr r" for c :: "'v app_context" and t by (rule get_defined(1))
  show "\<exists>vs. get_all_run c t = Inr vs" for c :: "'v app_context" and t by (simp add: get_all_run_def)
  fix c :: "'v app_context" and t vs e v
  assume wt: "well_typed c"
  obtain r where r: "get c t = Inr r" using get_defined(1) [OF wt] by blast
  note spec = bean_list_effective_get [OF wt r] r
  show "get c t = Inr (Inr v) \<Longrightarrow> get_all_run c t = Inr vs \<Longrightarrow> v \<in> set vs"
    "get_all_run c t = Inr [] \<Longrightarrow> get c t = Inr (Inl (NotFound (type_name t)))"
    "get_all_run c t = Inr [v] \<Longrightarrow> get c t = Inr (Inr v)"
    "get_all_run c t = Inr vs \<Longrightarrow> 2 \<le> length vs \<Longrightarrow> get c t = Inr (Inl e) \<Longrightarrow>
      e = Ambiguous (type_name t)"
    using spec by (auto simp: get_all_run_def split: sum.splits if_splits)
qed

interpretation scope: container scope_ok scope_get scope_get_all
proof unfold_locales
  fix s :: "'v request_scope" and t vs e v
  assume ok: "scope_ok s"
  then have wt: "well_typed (parent s)" by (simp add: scope_ok_def)
  note defs = scope_get_def scope_get_all_def local_get_ok [OF ok]
  show "\<exists>r. scope_get s t = Inr r"
    using get_defined(1) [OF wt, of t] by (auto simp: defs split: option.splits)
  show "\<exists>vs. scope_get_all s t = Inr vs" by (simp add: defs)
  show "scope_get s t = Inr (Inr v) \<Longrightarrow> scope_get_all s t = Inr vs \<Longrightarrow> v \<in> set vs"
    using bean_list_effective_get [OF wt, of t "Inr v"] by (auto simp: defs split: option.splits)
  show "scope_get_all s t = Inr [] \<Longrightarrow> scope_get s t = Inr (Inl (NotFound (type_name t)))"
    using app.find_none [OF wt, of t] by (auto simp: defs get_all_run_def split: option.splits)
  show "scope_get_all s t = Inr [v] \<Longrightarrow> scope_get s t = Inr (Inr v)"
    using app.find_only [OF wt, of t v] by (auto simp: defs get_all_run_def split: option.splits)
  show "scope_get_all s t = Inr vs \<Longrightarrow> 2 \<le> length vs \<Longrightarrow> scope_get s t = Inr (Inl e) \<Longrightarrow>
      e = Ambiguous (type_name t)"
    using app.find_many [OF wt, of t vs e] by (auto simp: defs get_all_run_def split: option.splits)
qed

lemma scope_set_ok: "scope_ok s \<Longrightarrow> scope_ok (scope_set s t v)" "well_typed c \<Longrightarrow> scope_ok (scope_new c)"
  by (auto simp: scope_ok_def scope_set_def scope_new_def split: if_splits)

end
