(* ===== verification/Di_Refresh.thy ===== *)
theory Di_Refresh
  imports Di_Container "HOL-Library.Multiset"
begin

text \<open>
  Automatic wiring: \<open>register_component\<close>, \<open>build\<close> and \<open>refresh\<close> of
  \<open>crates/di-core/src/context.rs\<close>, with the traits of \<open>buildable.rs\<close>.

  What \<open>#[derive(Component)]\<close> generates for a type, the implementation of the traits
  \<open>Buildable\<close> and \<open>RegistersComponent\<close>, is a record of functions, and the components of an
  application are a function from types to such records. A queued component holds its type where
  the code holds a closure: the closures capture nothing but that type. The loop over rounds ends
  because every round but the last builds a component; the outer loop of \<open>refresh\<close> may run
  forever when components keep queueing components, so it is a partial function.
\<close>

section \<open>Components and wiring\<close>

text \<open>The traits \<open>Buildable\<close> and \<open>RegistersComponent\<close> of one type.\<close>

record 'v registers_component =
  build_fn :: "'v app_context \<Rightarrow> failure + 'v"
  bean_origin :: bean_origin
  primary_fn :: bool
  qualifier_fn :: "string option"
  dependencies :: "rust_type list"
  optional_dependencies :: "rust_type list"
  provides_fn :: "rust_type list"
  register_bindings :: "'v app_context \<Rightarrow> 'v \<Rightarrow> 'v outcome"
  post_construct :: "'v app_context \<Rightarrow> 'v \<Rightarrow> di_error option"

type_synonym 'v components = "rust_type \<Rightarrow> 'v registers_component"

text \<open>The metadata of a component: \<open>T::bean_origin()\<close>, \<open>T::is_primary()\<close>, \<open>T::qualifier()\<close>.\<close>

type_synonym metadata = "bean_origin \<times> bool \<times> string option"

definition metadata :: "'v registers_component \<Rightarrow> metadata" where
  "metadata r = (bean_origin r, primary_fn r, qualifier_fn r)"

definition component_entry :: "metadata \<Rightarrow> rust_type \<Rightarrow> string \<Rightarrow> bean_entry" where
  "component_entry m key n =
     (case m of (orig, prim, qual) \<Rightarrow>
        let e = entry_new key n orig;
            e = (if prim then entry_primary e else e)
        in case qual of None \<Rightarrow> e | Some q \<Rightarrow> entry_qualifier q e)"

definition register_as_component :: "metadata \<Rightarrow> rust_type \<Rightarrow> 'v app_context \<Rightarrow> 'v \<Rightarrow> 'v outcome" where
  "register_as_component m tr c v =
     register_with_entry c (component_entry m (ArcOf tr) (type_name (ArcOf tr))) (Instance (ArcOf tr) v)"

definition build :: "'v components \<Rightarrow> rust_type \<Rightarrow> 'v app_context \<Rightarrow> (failure \<times> 'v app_context) + ('v \<times> 'v app_context)" where
  "build impl t c =
     (case build_fn (impl t) c of
        Inl e \<Rightarrow> Inl (e, c)
      | Inr v \<Rightarrow> bind_run (register_instance c t v) (\<lambda>c'. Inr (v, c')))"

definition register_component :: "'v components \<Rightarrow> rust_type \<Rightarrow> 'v app_context \<Rightarrow> 'v app_context" where
  "register_component impl t c =
     c\<lparr>pending := pending c @
        [\<lparr>component = t, def_name = type_name t, deps = dependencies (impl t),
          opt_deps = optional_dependencies (impl t), provides = provides_fn (impl t)\<rparr>]\<rparr>"

text \<open>The closure \<open>register_component\<close> queues.\<close>

definition run_build :: "'v components \<Rightarrow> component_def \<Rightarrow> 'v app_context \<Rightarrow> 'v outcome" where
  "run_build impl d c =
     (let t = component d in
      case build_fn (impl t) c of
        Inl e \<Rightarrow> Inl (e, c)
      | Inr v \<Rightarrow>
          bind_run (register_with_entry c (component_entry (metadata (impl t)) t (type_name t)) (Instance t v)) (\<lambda>c.
          bind_run (register_bindings (impl t) c v) (\<lambda>c.
          (case post_construct (impl t) c v of None \<Rightarrow> Inr c | Some e \<Rightarrow> Inl (Err e, c)))))"

record 'v wiring =
  context_of :: "'v app_context"
  available :: "rust_type set"
  pending_providers :: "(rust_type, nat) hmap"
  built_any :: bool

definition providers_left :: "(rust_type, nat) hmap \<Rightarrow> rust_type \<Rightarrow> nat" where
  "providers_left m t = (case hm_get m t of None \<Rightarrow> 0 | Some n \<Rightarrow> n)"

definition count_providers :: "component_def list \<Rightarrow> (rust_type, nat) hmap" where
  "count_providers ds =
     fold (\<lambda>d. fold (\<lambda>p m. hm_insert m p (providers_left m p + 1)) (provides d)) ds []"

definition ready :: "'v wiring \<Rightarrow> component_def \<Rightarrow> bool" where
  "ready w d \<longleftrightarrow> list_all (\<lambda>t. t \<in> available w) (deps d) \<and>
     list_all (\<lambda>t. providers_left (pending_providers w) t = 0) (opt_deps d)"

definition mark_built :: "component_def \<Rightarrow> 'v wiring \<Rightarrow> 'v wiring" where
  "mark_built d w =
     (fold (\<lambda>p w. w\<lparr>available := Set.insert p (available w),
        pending_providers := (case hm_get (pending_providers w) p of
            None \<Rightarrow> pending_providers w
          | Some n \<Rightarrow> hm_insert (pending_providers w) p (n - 1))\<rparr>) (provides d) w)
     \<lparr>built_any := True\<rparr>"

fun build_pass :: "'v components \<Rightarrow> component_def option list \<Rightarrow> 'v wiring \<Rightarrow>
    (failure \<times> 'v app_context) + (component_def option list \<times> 'v wiring)" where
  "build_pass impl [] w = Inr ([], w)"
| "build_pass impl (slot # slots) w =
     (case slot of
        None \<Rightarrow> bind_run (build_pass impl slots w) (\<lambda>(ss, w). Inr (None # ss, w))
      | Some d \<Rightarrow>
          if ready w d then
            bind_run (run_build impl d (context_of w)) (\<lambda>c.
            bind_run (build_pass impl slots (mark_built d (w\<lparr>context_of := c\<rparr>)))
              (\<lambda>(ss, w). Inr (None # ss, w)))
          else bind_run (build_pass impl slots w) (\<lambda>(ss, w). Inr (Some d # ss, w)))"

definition flatten :: "'a option list \<Rightarrow> 'a list" where
  "flatten xs = List.map_filter id xs"

lemma flatten_simps [simp]:
  "flatten [] = []" "flatten (None # xs) = flatten xs" "flatten (Some x # xs) = x # flatten xs"
  by (simp_all add: flatten_def List.map_filter_def)

lemma mark_built_simps [simp]:
  "built_any (mark_built d w)" "context_of (mark_built d w) = context_of w"
  "available (mark_built d w) = available w \<union> set (provides d)"
proof -
  have "context_of (fold (\<lambda>p w. w\<lparr>available := Set.insert p (available w),
        pending_providers := (case hm_get (pending_providers w) p of
            None \<Rightarrow> pending_providers w
          | Some n \<Rightarrow> hm_insert (pending_providers w) p (n - 1))\<rparr>) ps w) = context_of w \<and>
      available (fold (\<lambda>p w. w\<lparr>available := Set.insert p (available w),
        pending_providers := (case hm_get (pending_providers w) p of
            None \<Rightarrow> pending_providers w
          | Some n \<Rightarrow> hm_insert (pending_providers w) p (n - 1))\<rparr>) ps w) = available w \<union> set ps" for ps
    by (induction ps arbitrary: w) auto
  then show "context_of (mark_built d w) = context_of w"
    "available (mark_built d w) = available w \<union> set (provides d)"
    by (simp_all add: mark_built_def)
qed (simp add: mark_built_def)

lemma build_pass_count:
  "build_pass impl slots w = Inr (ss, w') \<Longrightarrow>
     length (flatten ss) \<le> length (flatten slots) \<and>
     (built_any w' \<longrightarrow> built_any w \<or> length (flatten ss) < length (flatten slots))"
proof (induction impl slots w arbitrary: ss w' rule: build_pass.induct)
  case (2 impl slot slots w)
  then show ?case
    by (cases slot) (fastforce simp: bind_run_Inr split: if_splits)+
qed simp

function build_rounds :: "'v components \<Rightarrow> component_def option list \<Rightarrow> 'v wiring \<Rightarrow>
    (failure \<times> 'v app_context) + (component_def option list \<times> 'v wiring)" where
  "build_rounds impl slots w =
     (case build_pass impl slots (w\<lparr>built_any := False\<rparr>) of
        Inl e \<Rightarrow> Inl e
      | Inr (ss, w') \<Rightarrow> if built_any w' then build_rounds impl ss w' else Inr (ss, w'))"
  by pat_completeness auto
termination
  by (relation "measure (\<lambda>(impl, slots, w). length (flatten slots))")
     (auto dest!: build_pass_count)

declare build_rounds.simps [simp del]

definition unmet :: "'v wiring \<Rightarrow> component_def \<Rightarrow> bool" where
  "unmet w d \<longleftrightarrow> list_ex (\<lambda>t. t \<notin> available w) (deps d)"

definition stalled :: "'v components \<Rightarrow> rust_type set \<Rightarrow> component_def list \<Rightarrow> 'v wiring \<Rightarrow> 'v outcome" where
  "stalled impl provided_by_batch rest w =
     (case find_map (\<lambda>d. if list_ex (\<lambda>t. t \<notin> available w \<and> t \<notin> provided_by_batch) (deps d)
                        then Some (def_name d) else None) rest of
        Some n \<Rightarrow> Inl (Err (MissingDependency n), context_of w)
      | None \<Rightarrow>
          if list_ex (unmet w) rest
          then Inl (Err (CircularDependency (join '', '' (map def_name (filter (unmet w) rest)))), context_of w)
          else fold_run (\<lambda>c d. run_build impl d c) (context_of w) rest)"

text \<open>One turn of the outer loop of \<open>refresh\<close>.\<close>

definition refresh_batch :: "'v components \<Rightarrow> 'v app_context \<Rightarrow> 'v outcome" where
  "refresh_batch impl c =
     (let defs = pending c; c = c\<lparr>pending := []\<rparr>;
          providers = count_providers defs;
          w = \<lparr>context_of = c, available = set (map fst (instances c)),
               pending_providers = providers, built_any = True\<rparr>
      in bind_run (build_rounds impl (map Some defs) w) (\<lambda>(remaining, w).
           if flatten remaining = [] then Inr (context_of w)
           else stalled impl (set (map fst providers)) (flatten remaining) w))"

partial_function (option) refresh :: "'v components \<Rightarrow> 'v app_context \<Rightarrow> 'v outcome option" where
  "refresh impl c =
     (if pending c = [] then Some (Inr c)
      else (case refresh_batch impl c of Inl e \<Rightarrow> Some (Inl e) | Inr c \<Rightarrow> refresh impl c))"

section \<open>Building in dependency order\<close>

definition keys :: "'v app_context \<Rightarrow> rust_type set" where
  "keys c = set (map fst (instances c))"

abbreviation provided :: "component_def list \<Rightarrow> rust_type set" where
  "provided ds \<equiv> \<Union>(set ` provides ` set ds)"

abbreviation build_all :: "'v components \<Rightarrow> 'v app_context \<Rightarrow> component_def list \<Rightarrow> 'v outcome" where
  "build_all impl c ds \<equiv> fold_run (\<lambda>c d. run_build impl d c) c ds"

text \<open>
  Every component comes after providers of the types it requires; in \<open>topo\<close> also after all
  providers, among the components \<open>M\<close> to be built, of the types it takes if they are there.
\<close>

fun ordered :: "rust_type set \<Rightarrow> component_def list \<Rightarrow> bool" where
  "ordered A [] \<longleftrightarrow> True"
| "ordered A (d # ds) \<longleftrightarrow> set (deps d) \<subseteq> A \<and> ordered (A \<union> set (provides d)) ds"

definition settled :: "component_def multiset \<Rightarrow> component_def \<Rightarrow> bool" where
  "settled M d \<longleftrightarrow> (\<forall>t\<in>set (opt_deps d). \<forall>x\<in>#M. t \<notin> set (provides x))"

fun topo :: "rust_type set \<Rightarrow> component_def multiset \<Rightarrow> component_def list \<Rightarrow> bool" where
  "topo A M [] \<longleftrightarrow> True"
| "topo A M (d # ds) \<longleftrightarrow> d \<in># M \<and> set (deps d) \<subseteq> A \<and> settled M d \<and>
     topo (A \<union> set (provides d)) (M - {#d#}) ds"

lemma fold_run_append: "fold_run f s (xs @ ys) = bind_run (fold_run f s xs) (\<lambda>s. fold_run f s ys)"
proof (induction xs arbitrary: s)
  case (Cons x xs)
  then show ?case by (cases "f s x") auto
qed simp

lemma ordered_append: "ordered A (xs @ ys) \<longleftrightarrow> ordered A xs \<and> ordered (A \<union> provided xs) ys"
  by (induction xs arbitrary: A) (auto simp: Un_assoc)

lemma ordered_all: "(\<And>d. d \<in> set ds \<Longrightarrow> set (deps d) \<subseteq> A) \<Longrightarrow> ordered A ds"
proof (induction ds arbitrary: A)
  case (Cons d ds)
  have "ordered (A \<union> set (provides d)) ds" using Cons.prems by (intro Cons.IH le_supI1) simp
  with Cons.prems [of d] show ?case by simp
qed simp

lemma topo_append: "topo A M (xs @ ys) \<longleftrightarrow> topo A M xs \<and> topo (A \<union> provided xs) (M - mset xs) ys"
  by (induction xs arbitrary: A M) (auto simp: Un_assoc)

lemma topo_ordered: "topo A M ds \<Longrightarrow> ordered A ds"
  by (induction ds arbitrary: A M) auto

lemma topo_subset: "topo A M ds \<Longrightarrow> mset ds \<subseteq># M"
  by (induction ds arbitrary: A M) (auto simp: insert_subset_eq_iff)

section \<open>The provider counts\<close>

definition tracks :: "component_def multiset \<Rightarrow> (rust_type, nat) hmap \<Rightarrow> bool" where
  "tracks M m \<longleftrightarrow> hm_ok m \<and> (\<forall>t. providers_left m t = (\<Sum>x\<in>#M. count_list (provides x) t))"

lemma providers_left_insert [simp]:
  "hm_ok m \<Longrightarrow> providers_left (hm_insert m p n) t = (if t = p then n else providers_left m t)"
  by (simp add: providers_left_def)

lemma count_providers_aux:
  "hm_ok m \<Longrightarrow> hm_ok (fold (\<lambda>p m. hm_insert m p (providers_left m p + 1)) ps m) \<and>
     providers_left (fold (\<lambda>p m. hm_insert m p (providers_left m p + 1)) ps m) t =
       providers_left m t + count_list ps t \<and>
     set (map fst (fold (\<lambda>p m. hm_insert m p (providers_left m p + 1)) ps m)) = fst ` set m \<union> set ps"
proof (induction ps arbitrary: m)
  case (Cons p ps)
  have "fst ` set (hm_insert m p n) = insert p (fst ` set m)" for n :: nat
    by (simp add: hm_insert_def dom_update)
  with Cons show ?case by simp
qed simp

lemma count_providers_fold:
  "hm_ok m \<Longrightarrow>
     hm_ok (fold (\<lambda>d. fold (\<lambda>p m. hm_insert m p (providers_left m p + 1)) (provides d)) ds m) \<and>
     providers_left (fold (\<lambda>d. fold (\<lambda>p m. hm_insert m p (providers_left m p + 1)) (provides d)) ds m) t =
       providers_left m t + (\<Sum>x\<in>#mset ds. count_list (provides x) t) \<and>
     fst ` set (fold (\<lambda>d. fold (\<lambda>p m. hm_insert m p (providers_left m p + 1)) (provides d)) ds m) =
       fst ` set m \<union> provided ds"
proof (induction ds arbitrary: m)
  case (Cons d ds)
  then show ?case using count_providers_aux [of m "provides d"] by auto
qed simp

lemma tracks_start: "tracks (mset ds) (count_providers ds)"
  using count_providers_fold [of "[]" ds] by (simp add: tracks_def count_providers_def providers_left_def)

lemma count_providers_keys: "set (map fst (count_providers ds)) = provided ds"
  using count_providers_fold [of "[]" ds] by (simp add: count_providers_def)

lemma mark_built_left:
  assumes "hm_ok (pending_providers w)"
  shows "hm_ok (pending_providers (mark_built d w)) \<and>
    providers_left (pending_providers (mark_built d w)) t =
      providers_left (pending_providers w) t - count_list (provides d) t"
proof -
  let ?f = "\<lambda>p w. w\<lparr>available := Set.insert p (available w),
        pending_providers := (case hm_get (pending_providers w) p of
            None \<Rightarrow> pending_providers w
          | Some n \<Rightarrow> hm_insert (pending_providers w) p (n - 1))\<rparr>"
  have "hm_ok (pending_providers w) \<Longrightarrow> hm_ok (pending_providers (fold ?f ps w)) \<and>
      providers_left (pending_providers (fold ?f ps w)) t =
        providers_left (pending_providers w) t - count_list ps t" for ps
  proof (induction ps arbitrary: w)
    case (Cons p ps)
    have "hm_ok (pending_providers (?f p w))"
      using Cons.prems by (simp split: option.splits)
    moreover have "providers_left (pending_providers (?f p w)) t =
        providers_left (pending_providers w) t - (if p = t then 1 else 0)"
      using Cons.prems by (auto simp: providers_left_def split: option.splits)
    ultimately show ?case using Cons.IH [of "?f p w"] by auto
  qed simp
  then show ?thesis using assms by (simp add: mark_built_def)
qed

lemma tracks_mark_built:
  assumes "tracks (M + {#d#}) (pending_providers w)"
  shows "tracks M (pending_providers (mark_built d w))"
  using assms mark_built_left [of w d] by (simp add: tracks_def)

lemma ready_settled:
  assumes "tracks M (pending_providers w)"
  shows "ready w d \<longleftrightarrow> set (deps d) \<subseteq> available w \<and> settled M d"
proof -
  have "providers_left (pending_providers w) t = 0 \<longleftrightarrow> (\<forall>x\<in>#M. t \<notin> set (provides x))" for t
    using assms by (auto simp: tracks_def count_list_0_iff)
  then show ?thesis by (auto simp: ready_def settled_def list_all_iff)
qed

section \<open>Progress\<close>

text \<open>
  The components \<open>ds\<close> were reduced to \<open>ds'\<close>: those that left were built one after the other in
  topological order, with the components \<open>K\<close> waiting elsewhere.
\<close>

definition progress :: "'v components \<Rightarrow> component_def multiset \<Rightarrow> component_def list \<Rightarrow> 'v wiring \<Rightarrow>
    component_def list \<Rightarrow> 'v wiring \<Rightarrow> bool" where
  "progress impl K ds w ds' w' \<longleftrightarrow> (\<exists>bs. mset ds = mset bs + mset ds' \<and>
     topo (available w) (K + mset ds) bs \<and> build_all impl (context_of w) bs = Inr (context_of w') \<and>
     available w' = available w \<union> provided bs \<and> tracks (K + mset ds') (pending_providers w'))"

lemma progress_refl: "tracks (K + mset ds) (pending_providers w) \<Longrightarrow> progress impl K ds w ds w"
  unfolding progress_def by (rule exI [of _ "[]"]) simp

lemma progress_trans:
  assumes "progress impl K ds w ds1 w1" "progress impl K ds1 w1 ds2 w2"
  shows "progress impl K ds w ds2 w2"
proof -
  from assms(1) obtain bs1 where 1:
    "mset ds = mset bs1 + mset ds1" "topo (available w) (K + mset ds) bs1"
    "build_all impl (context_of w) bs1 = Inr (context_of w1)" "available w1 = available w \<union> provided bs1"
    unfolding progress_def by (elim exE conjE)
  from assms(2) obtain bs2 where 2:
    "mset ds1 = mset bs2 + mset ds2" "topo (available w1) (K + mset ds1) bs2"
    "build_all impl (context_of w1) bs2 = Inr (context_of w2)" "available w2 = available w1 \<union> provided bs2"
    "tracks (K + mset ds2) (pending_providers w2)"
    unfolding progress_def by (elim exE conjE)
  have "available w2 = available w \<union> provided (bs1 @ bs2)" using 1(4) 2(4) by auto
  moreover have "build_all impl (context_of w) (bs1 @ bs2) = Inr (context_of w2)"
    using 1(3) 2(3) by (simp add: fold_run_append)
  moreover have "topo (available w) (K + mset ds) (bs1 @ bs2)"
    using 1(1,2,4) 2(2) by (simp add: topo_append)
  moreover have "mset ds = mset (bs1 @ bs2) + mset ds2" using 1(1) 2(1) by simp
  ultimately show ?thesis using 2(5) unfolding progress_def by blast
qed

lemma progress_skip:
  "progress impl (K + {#d#}) ds w ds' w' \<Longrightarrow> progress impl K (d # ds) w (d # ds') w'"
  by (auto simp: progress_def)

lemma progress_build:
  assumes "ready w d" "tracks (K + mset (d # ds)) (pending_providers w)"
    "run_build impl d (context_of w) = Inr c"
  shows "progress impl K (d # ds) w ds (mark_built d (w\<lparr>context_of := c\<rparr>))"
proof -
  have "set (deps d) \<subseteq> available w" "settled (K + mset (d # ds)) d"
    using assms(1) by (simp_all add: ready_settled [OF assms(2)])
  moreover have "tracks (K + mset ds) (pending_providers (mark_built d (w\<lparr>context_of := c\<rparr>)))"
    using assms(2) by (intro tracks_mark_built) (simp add: ac_simps)
  ultimately show ?thesis using assms(3) unfolding progress_def
    by (intro exI [of _ "[d]"]) auto
qed

lemma progress_tracks: "progress impl K ds w ds' w' \<Longrightarrow> tracks (K + mset ds') (pending_providers w')"
  by (auto simp: progress_def)

lemma build_pass_progress:
  "build_pass impl slots w = Inr (ss, w') \<Longrightarrow> tracks (K + mset (flatten slots)) (pending_providers w) \<Longrightarrow>
     progress impl K (flatten slots) w (flatten ss) w'"
proof (induction impl slots w arbitrary: ss w' K rule: build_pass.induct)
  case (1 impl w)
  then show ?case by (simp add: progress_refl)
next
  case (2 impl slot slots w)
  show ?case
  proof (cases slot)
    case None
    with 2 show ?thesis by (auto simp: bind_run_Inr)
  next
    case (Some d)
    show ?thesis
    proof (cases "ready w d")
      case True
      obtain c ss1 where c: "run_build impl d (context_of w) = Inr c" "ss = None # ss1"
        "build_pass impl slots (mark_built d (w\<lparr>context_of := c\<rparr>)) = Inr (ss1, w')"
        using 2(4) Some True by (auto simp: bind_run_Inr)
      have step: "progress impl K (d # flatten slots) w (flatten slots) (mark_built d (w\<lparr>context_of := c\<rparr>))"
        using True 2(5) c(1) Some by (intro progress_build) auto
      from 2(2) [OF Some True c(3) progress_tracks [OF step]] step show ?thesis
        unfolding Some c(2) flatten_simps by (rule progress_trans [rotated])
    next
      case False
      then obtain ss1 where ss: "ss = Some d # ss1" "build_pass impl slots w = Inr (ss1, w')"
        using 2(4) Some by (auto simp: bind_run_Inr)
      have "progress impl (K + {#d#}) (flatten slots) w (flatten ss1) w'"
        using 2(5) Some by (intro 2(3) [OF Some False ss(2)]) simp
      then show ?thesis unfolding Some ss(1) flatten_simps by (rule progress_skip)
    qed
  qed
qed

text \<open>A pass that builds nothing changes nothing, and no component was ready.\<close>

lemma build_pass_built: "build_pass impl slots w = Inr (ss, w') \<Longrightarrow> built_any w \<Longrightarrow> built_any w'"
proof (induction impl slots w arbitrary: ss w' rule: build_pass.induct)
  case (2 impl slot slots w)
  then show ?case by (cases slot) (auto simp: bind_run_Inr split: if_splits)
qed simp

lemma build_pass_idle:
  "build_pass impl slots w = Inr (ss, w') \<Longrightarrow> \<not> built_any w' \<Longrightarrow>
     ss = slots \<and> w' = w \<and> (\<forall>d\<in>set (flatten slots). \<not> ready w d)"
proof (induction impl slots w arbitrary: ss w' rule: build_pass.induct)
  case (2 impl slot slots w)
  show ?case
  proof (cases slot)
    case None
    with 2 show ?thesis by (auto simp: bind_run_Inr)
  next
    case (Some d)
    have "\<not> ready w d"
      using 2(4,5) Some by (auto simp: bind_run_Inr dest: build_pass_built split: if_splits)
    with 2 Some show ?thesis by (auto simp: bind_run_Inr)
  qed
qed simp

lemma progress_built_any [simp]:
  "progress impl K ds (w\<lparr>built_any := b\<rparr>) ds' w' \<longleftrightarrow> progress impl K ds w ds' w'"
  by (simp add: progress_def)

lemma build_rounds_progress:
  "build_rounds impl slots w = Inr (ss, w') \<Longrightarrow> tracks (mset (flatten slots)) (pending_providers w) \<Longrightarrow>
     progress impl {#} (flatten slots) w (flatten ss) w' \<and> (\<forall>d\<in>set (flatten ss). \<not> ready w' d)"
proof (induction impl slots w arbitrary: ss w' rule: build_rounds.induct)
  case (1 impl slots w)
  obtain ss1 w1 where pass: "build_pass impl slots (w\<lparr>built_any := False\<rparr>) = Inr (ss1, w1)"
    using 1(2) by (auto simp: build_rounds.simps [of impl slots w] split: sum.splits)
  have prog: "progress impl {#} (flatten slots) w (flatten ss1) w1"
    using build_pass_progress [OF pass, of "{#}"] 1(3) by simp
  show ?case
  proof (cases "built_any w1")
    case True
    then have "build_rounds impl ss1 w1 = Inr (ss, w')"
      using 1(2) pass by (simp add: build_rounds.simps [of impl slots w])
    from 1(1) [OF pass refl True this] prog progress_tracks [OF prog] show ?thesis
      by (auto intro: progress_trans)
  next
    case False
    then have "ss = ss1" "w' = w1"
      using 1(2) pass by (auto simp: build_rounds.simps [of impl slots w])
    with build_pass_idle [OF pass False] prog show ?thesis by simp
  qed
qed

lemma flatten_map_Some [simp]: "flatten (map Some ds) = ds"
  by (induction ds) auto

definition wiring_start :: "'v app_context \<Rightarrow> 'v wiring" where
  "wiring_start c = \<lparr>context_of = c\<lparr>pending := []\<rparr>, available = keys c,
     pending_providers = count_providers (pending c), built_any = True\<rparr>"

lemma refresh_batch_unfold:
  "refresh_batch impl c =
     bind_run (build_rounds impl (map Some (pending c)) (wiring_start c)) (\<lambda>(remaining, w).
       if flatten remaining = [] then Inr (context_of w)
       else stalled impl (provided (pending c)) (flatten remaining) w)"
  unfolding refresh_batch_def Let_def count_providers_keys by (simp add: wiring_start_def keys_def)

lemma rounds_result:
  assumes "build_rounds impl (map Some (pending c)) (wiring_start c) = Inr (ss, w)"
  obtains bs where "mset (pending c) = mset bs + mset (flatten ss)" "topo (keys c) (mset (pending c)) bs"
    "build_all impl (c\<lparr>pending := []\<rparr>) bs = Inr (context_of w)" "available w = keys c \<union> provided bs"
    "\<forall>d\<in>set (flatten ss). \<not> set (deps d) \<subseteq> available w \<or> \<not> settled (mset (flatten ss)) d"
proof -
  have start: "tracks (mset (flatten (map Some (pending c)))) (pending_providers (wiring_start c))"
    by (simp add: wiring_start_def tracks_start)
  have prog: "progress impl {#} (pending c) (wiring_start c) (flatten ss) w"
    and idle: "\<forall>d\<in>set (flatten ss). \<not> ready w d"
    using build_rounds_progress [OF assms start] by simp_all
  from prog obtain bs where "mset (pending c) = mset bs + mset (flatten ss)"
    "topo (keys c) (mset (pending c)) bs" "build_all impl (c\<lparr>pending := []\<rparr>) bs = Inr (context_of w)"
    "available w = keys c \<union> provided bs" "tracks (mset (flatten ss)) (pending_providers w)"
    unfolding progress_def wiring_start_def by auto
  with idle that show thesis by (auto simp: ready_settled)
qed

lemma refresh_batch_order:
  assumes "refresh_batch impl c = Inr c'"
  shows "\<exists>ds. mset ds = mset (pending c) \<and> ordered (keys c) ds \<and> build_all impl (c\<lparr>pending := []\<rparr>) ds = Inr c'"
proof -
  obtain ss w where rounds: "build_rounds impl (map Some (pending c)) (wiring_start c) = Inr (ss, w)"
    and rest: "(if flatten ss = [] then Inr (context_of w)
       else stalled impl (provided (pending c)) (flatten ss) w) = Inr c'"
    using assms unfolding refresh_batch_unfold by (auto simp: bind_run_Inr)
  obtain bs where bs: "mset (pending c) = mset bs + mset (flatten ss)" "topo (keys c) (mset (pending c)) bs"
    "build_all impl (c\<lparr>pending := []\<rparr>) bs = Inr (context_of w)" "available w = keys c \<union> provided bs"
    using rounds_result [OF rounds] by metis
  have "build_all impl (context_of w) (flatten ss) = Inr c'"
    using rest by (auto simp: stalled_def split: if_splits option.splits)
  moreover have "ordered (available w) (flatten ss)"
    using rest by (intro ordered_all)
      (auto simp: stalled_def unmet_def list_ex_iff split: if_splits option.splits)
  ultimately show ?thesis using bs topo_ordered [OF bs(2)]
    by (intro exI [of _ "bs @ flatten ss"]) (simp add: fold_run_append ordered_append)
qed

text \<open>
  The specification of \<open>refresh\<close>: while components are queued, take them all and build them in
  some order in which every component comes after providers of what it depends on.
\<close>

inductive batch_step :: "'v components \<Rightarrow> 'v app_context \<Rightarrow> 'v app_context \<Rightarrow> bool" for impl where
  batch: "pending c \<noteq> [] \<Longrightarrow> mset ds = mset (pending c) \<Longrightarrow> ordered (keys c) ds \<Longrightarrow>
     build_all impl (c\<lparr>pending := []\<rparr>) ds = Inr c' \<Longrightarrow> batch_step impl c c'"

lemma refresh_batch_step:
  "pending c \<noteq> [] \<Longrightarrow> refresh_batch impl c = Inr c' \<Longrightarrow> batch_step impl c c'"
  by (blast intro: batch dest: refresh_batch_order)

lemma refresh_steps:
  assumes "refresh impl c = Some r"
  shows "(case r of
      Inr c' \<Rightarrow> (batch_step impl)\<^sup>*\<^sup>* c c' \<and> pending c' = []
    | Inl x \<Rightarrow> \<exists>c1. (batch_step impl)\<^sup>*\<^sup>* c c1 \<and> pending c1 \<noteq> [] \<and> refresh_batch impl c1 = Inl x)"
  using assms
proof (induction rule: refresh.raw_induct [rotated, consumes 1, case_names step])
  case (step rec impl c r)
  show ?case
  proof (cases "pending c = []")
    case True
    with step show ?thesis by auto
  next
    case False
    show ?thesis
    proof (cases "refresh_batch impl c")
      case (Inl x)
      with False step(2) show ?thesis by auto
    next
      case (Inr c1)
      then have "rec impl c1 = Some r" using False step(2) by simp
      from step(1) [OF this] refresh_batch_step [OF False Inr] show ?thesis
        by (auto split: sum.splits intro: converse_rtranclp_into_rtranclp)
    qed
  qed
qed

section \<open>Errors\<close>

definition build_failed :: "'v components \<Rightarrow> component_def multiset \<Rightarrow> rust_type set \<Rightarrow> 'v app_context \<Rightarrow>
    failure \<times> 'v app_context \<Rightarrow> bool" where
  "build_failed impl M A c x \<longleftrightarrow> (\<exists>bs. topo A M bs \<and> build_all impl c bs = Inl x)"

lemma progress_failed:
  assumes "progress impl K ds w ds1 w1"
    "build_failed impl (K + mset ds1) (available w1) (context_of w1) x"
  shows "build_failed impl (K + mset ds) (available w) (context_of w) x"
proof -
  from assms(1) obtain bs1 where 1:
    "mset ds = mset bs1 + mset ds1" "topo (available w) (K + mset ds) bs1"
    "build_all impl (context_of w) bs1 = Inr (context_of w1)" "available w1 = available w \<union> provided bs1"
    unfolding progress_def by (elim exE conjE)
  from assms(2) obtain bs2 where 2: "topo (available w1) (K + mset ds1) bs2"
    "build_all impl (context_of w1) bs2 = Inl x"
    unfolding build_failed_def by (elim exE conjE)
  have "topo (available w) (K + mset ds) (bs1 @ bs2)" using 1(1,2,4) 2(1) by (simp add: topo_append)
  moreover have "build_all impl (context_of w) (bs1 @ bs2) = Inl x"
    using 1(3) 2(2) by (simp add: fold_run_append)
  ultimately show ?thesis unfolding build_failed_def by blast
qed

lemma build_pass_failed:
  "build_pass impl slots w = Inl x \<Longrightarrow> tracks (K + mset (flatten slots)) (pending_providers w) \<Longrightarrow>
     build_failed impl (K + mset (flatten slots)) (available w) (context_of w) x"
proof (induction impl slots w arbitrary: K rule: build_pass.induct)
  case (2 impl slot slots w)
  show ?case
  proof (cases slot)
    case None
    with 2 show ?thesis by (auto simp: bind_run_Inl)
  next
    case (Some d)
    show ?thesis
    proof (cases "ready w d")
      case False
      then have "build_pass impl slots w = Inl x" using 2(4) Some by (auto simp: bind_run_Inl)
      from 2(3) [OF Some False this, of "K + {#d#}"] 2(5) Some show ?thesis by simp
    next
      case True
      have tr: "tracks (K + mset (d # flatten slots)) (pending_providers w)" using 2(5) Some by simp
      show ?thesis
      proof (cases "run_build impl d (context_of w)")
        case (Inl y)
        with 2(4) Some True have "y = x" by simp
        with True Inl ready_settled [OF tr] show ?thesis unfolding build_failed_def Some
          by (intro exI [of _ "[d]"]) simp
      next
        case (Inr c)
        note step = progress_build [OF True tr Inr]
        have "build_pass impl slots (mark_built d (w\<lparr>context_of := c\<rparr>)) = Inl x"
          using 2(4) Some True Inr by (auto simp: bind_run_Inl)
        from progress_failed [OF step 2(2) [OF Some True this progress_tracks [OF step]]]
        show ?thesis by (simp add: Some)
      qed
    qed
  qed
qed simp

lemma build_rounds_failed:
  "build_rounds impl slots w = Inl x \<Longrightarrow> tracks (mset (flatten slots)) (pending_providers w) \<Longrightarrow>
     build_failed impl (mset (flatten slots)) (available w) (context_of w) x"
proof (induction impl slots w rule: build_rounds.induct)
  case (1 impl slots w)
  show ?case
  proof (cases "build_pass impl slots (w\<lparr>built_any := False\<rparr>)")
    case (Inl y)
    with 1(2) have "y = x" by (simp add: build_rounds.simps [of impl slots w])
    with build_pass_failed [OF Inl, of "{#}"] 1(3) show ?thesis by simp
  next
    case (Inr r)
    obtain ss w1 where r: "r = (ss, w1)" by (cases r)
    have prog: "progress impl {#} (flatten slots) w (flatten ss) w1"
      using build_pass_progress [of impl slots "w\<lparr>built_any := False\<rparr>" ss w1 "{#}"] Inr r 1(3) by simp
    have "built_any w1" "build_rounds impl ss w1 = Inl x"
      using 1(2) Inr r by (auto simp: build_rounds.simps [of impl slots w] split: if_splits)
    with 1(1) [OF Inr r [symmetric]] progress_tracks [OF prog]
    have "build_failed impl ({#} + mset (flatten ss)) (available w1) (context_of w1) x" by simp
    from progress_failed [OF prog this] show ?thesis by simp
  qed
qed

text \<open>
  The reasons for a batch to fail: a component was built with everything it requires available
  and its own construction failed; a component requires a type that is neither registered nor
  provided by any component of the batch; or the components not yet built wait for each other.
\<close>

definition unmet_after :: "'v app_context \<Rightarrow> component_def list \<Rightarrow> component_def \<Rightarrow> bool" where
  "unmet_after c bs d \<longleftrightarrow> \<not> set (deps d) \<subseteq> keys c \<union> provided bs"

definition deadlock :: "'v app_context \<Rightarrow> component_def list \<Rightarrow> component_def list \<Rightarrow> bool" where
  "deadlock c bs rest \<longleftrightarrow> (\<forall>d\<in>set rest. (unmet_after c bs d \<or> \<not> settled (mset rest) d) \<and>
     set (deps d) \<subseteq> keys c \<union> provided bs \<union> provided rest)"

definition batch_error :: "'v components \<Rightarrow> 'v app_context \<Rightarrow> failure \<times> 'v app_context \<Rightarrow> bool" where
  "batch_error impl c x \<longleftrightarrow>
     (\<exists>ds. mset ds \<subseteq># mset (pending c) \<and> ordered (keys c) ds \<and> build_all impl (c\<lparr>pending := []\<rparr>) ds = Inl x) \<or>
     (\<exists>bs. \<exists>d\<in>set (pending c). mset bs \<subseteq># mset (pending c) \<and> ordered (keys c) bs \<and>
        build_all impl (c\<lparr>pending := []\<rparr>) bs = Inr (snd x) \<and>
        \<not> set (deps d) \<subseteq> keys c \<union> provided (pending c) \<and>
        fst x = Err (MissingDependency (def_name d))) \<or>
     (\<exists>bs rest. mset (pending c) = mset bs + mset rest \<and> ordered (keys c) bs \<and>
        build_all impl (c\<lparr>pending := []\<rparr>) bs = Inr (snd x) \<and> deadlock c bs rest \<and>
        filter (unmet_after c bs) rest \<noteq> [] \<and>
        fst x = Err (CircularDependency (join '', '' (map def_name (filter (unmet_after c bs) rest)))))"

lemma find_map_Some: "find_map f xs = Some y \<Longrightarrow> \<exists>x\<in>set xs. f x = Some y"
  by (induction xs) (auto split: option.splits)

lemma refresh_batch_error:
  assumes "refresh_batch impl c = Inl x"
  shows "batch_error impl c x"
proof (cases "build_rounds impl (map Some (pending c)) (wiring_start c)")
  case (Inl y)
  with assms have "y = x" by (simp add: refresh_batch_unfold)
  with build_rounds_failed [OF Inl] have "build_failed impl (mset (pending c)) (keys c) (c\<lparr>pending := []\<rparr>) x"
    by (simp add: wiring_start_def tracks_start)
  then show ?thesis unfolding batch_error_def build_failed_def by (blast dest: topo_ordered topo_subset)
next
  case (Inr r)
  obtain ss w where r: "r = (ss, w)" by (cases r)
  let ?rest = "flatten ss"
  have rounds: "build_rounds impl (map Some (pending c)) (wiring_start c) = Inr (ss, w)" using Inr r by simp
  obtain bs where bs: "mset (pending c) = mset bs + mset ?rest" "topo (keys c) (mset (pending c)) bs"
    "build_all impl (c\<lparr>pending := []\<rparr>) bs = Inr (context_of w)" "available w = keys c \<union> provided bs"
    and stuck: "\<forall>d\<in>set ?rest. \<not> set (deps d) \<subseteq> available w \<or> \<not> settled (mset ?rest) d"
    by (rule rounds_result [OF rounds])
  have sub: "set (pending c) = set bs \<union> set ?rest"
    using bs(1) by (metis set_mset_mset set_mset_union)
  have stalled: "stalled impl (provided (pending c)) ?rest w = Inl x"
    using assms rounds by (auto simp: refresh_batch_unfold split: if_splits)
  let ?missing = "\<lambda>d. if list_ex (\<lambda>t. t \<notin> available w \<and> t \<notin> provided (pending c)) (deps d)
                     then Some (def_name d) else None"
  have unmet: "unmet w d \<longleftrightarrow> unmet_after c bs d" for d
    by (auto simp: unmet_def unmet_after_def bs(4) list_ex_iff)
  then have unmet_eq: "unmet w = unmet_after c bs" by (rule ext)
  show ?thesis
  proof (cases "find_map ?missing ?rest")
    case (Some n)
    then obtain d where d: "d \<in> set ?rest" "?missing d = Some n" by (blast dest: find_map_Some)
    then have "d \<in> set (pending c)" "\<not> set (deps d) \<subseteq> keys c \<union> provided (pending c)" "n = def_name d"
      using sub bs(4) by (auto simp: list_ex_iff split: if_splits)
    moreover have "x = (Err (MissingDependency n), context_of w)"
      using stalled Some by (simp add: stalled_def)
    moreover have "mset bs \<subseteq># mset (pending c)" "ordered (keys c) bs"
      using topo_subset [OF bs(2)] topo_ordered [OF bs(2)] .
    ultimately show ?thesis unfolding batch_error_def using bs(3) by (intro disjI2 disjI1) auto
  next
    case None
    then have none: "\<not> list_ex (\<lambda>t. t \<notin> available w \<and> t \<notin> provided (pending c)) (deps d)" if "d \<in> set ?rest" for d
      using that unfolding find_map_None by (metis option.distinct(1))
    show ?thesis
    proof (cases "list_ex (unmet w) ?rest")
      case False
      then have "build_all impl (context_of w) ?rest = Inl x" "ordered (available w) ?rest"
        using stalled None by (auto simp: stalled_def unmet_def list_ex_iff intro!: ordered_all)
      then have "ordered (keys c) (bs @ ?rest)" "build_all impl (c\<lparr>pending := []\<rparr>) (bs @ ?rest) = Inl x"
        using bs(3,4) topo_ordered [OF bs(2)] by (simp_all add: fold_run_append ordered_append)
      moreover have "mset (bs @ ?rest) \<subseteq># mset (pending c)" using bs(1) by simp
      ultimately show ?thesis unfolding batch_error_def by blast
    next
      case True
      have "set (deps d) \<subseteq> keys c \<union> provided bs \<union> provided ?rest" if "d \<in> set ?rest" for d
        using none [OF that] sub bs(4) by (auto simp: list_ex_iff)
      then have "deadlock c bs ?rest"
        using stuck bs(4) by (auto simp: deadlock_def unmet_after_def)
      moreover have "filter (unmet_after c bs) ?rest \<noteq> []"
        using True by (auto simp: filter_empty_conv list_ex_iff unmet)
      moreover have "x = (Err (CircularDependency (join '', '' (map def_name (filter (unmet_after c bs) ?rest)))), context_of w)"
        using stalled None True by (simp add: stalled_def unmet_eq)
      ultimately show ?thesis unfolding batch_error_def
        using bs(1,3) topo_ordered [OF bs(2)] by auto
    qed
  qed
qed

section \<open>Termination and completeness\<close>

declare refresh.simps [code]

lemma build_all_rank:
  assumes queued: "\<And>d c1 c2. run_build impl d c1 = Inr c2 \<Longrightarrow>
      \<exists>qs. pending c2 = pending c1 @ qs \<and> (\<forall>q\<in>set qs. rank q < rank d)"
  shows "build_all impl c ds = Inr c' \<Longrightarrow> \<forall>d\<in>set ds. rank d < Suc n \<Longrightarrow> \<forall>q\<in>set (pending c). rank q < n \<Longrightarrow>
    \<forall>q\<in>set (pending c'). (rank q :: nat) < n"
proof (induction ds arbitrary: c)
  case (Cons d ds)
  then obtain c1 where c1: "run_build impl d c = Inr c1" "build_all impl c1 ds = Inr c'"
    by (auto simp: bind_run_Inr)
  from queued [OF c1(1)] Cons.prems have "\<forall>q\<in>set (pending c1). rank q < n" by fastforce
  with Cons c1(2) show ?case by simp
qed simp

lemma refresh_returns_below:
  assumes queued: "\<And>d c1 c2. run_build impl d c1 = Inr c2 \<Longrightarrow>
      \<exists>qs. pending c2 = pending c1 @ qs \<and> (\<forall>q\<in>set qs. (rank q :: nat) < rank d)"
  shows "\<forall>d\<in>set (pending c). rank d < n \<Longrightarrow> \<exists>r. refresh impl c = Some r"
proof (induction n arbitrary: c)
  case 0
  then show ?case by (simp add: refresh.simps)
next
  case (Suc n)
  show ?case
  proof (cases "pending c = []")
    case True
    then show ?thesis by (simp add: refresh.simps)
  next
    case False
    show ?thesis
    proof (cases "refresh_batch impl c")
      case (Inl x)
      with False show ?thesis by (simp add: refresh.simps)
    next
      case (Inr c1)
      then obtain ds where ds: "mset ds = mset (pending c)" "build_all impl (c\<lparr>pending := []\<rparr>) ds = Inr c1"
        by (blast dest: refresh_batch_order)
      then have "set ds = set (pending c)" by (metis set_mset_mset)
      with Suc.prems have "\<forall>q\<in>set (pending c1). rank q < n"
        by (intro build_all_rank [OF queued ds(2)]) auto
      from Suc.IH [OF this] False Inr show ?thesis by (simp add: refresh.simps [of impl c])
    qed
  qed
qed

lemma settled_mono: "settled M d \<Longrightarrow> N \<subseteq># M \<Longrightarrow> settled N d"
  by (auto simp: settled_def dest: mset_subset_eqD)

text \<open>As long as a topological order of all components exists, some remaining component is ready.\<close>

lemma topo_next:
  assumes "topo A M L" "mset L = M" "M = mset bs + mset rest" "rest \<noteq> []"
  shows "\<exists>d\<in>set rest. set (deps d) \<subseteq> A \<union> provided bs \<and> settled (mset rest) d"
proof -
  have sets: "set L = set bs \<union> set rest" using assms(2,3) by (metis set_mset_mset set_mset_union)
  then have "\<exists>x\<in>set L. x \<in> set rest" using assms(4) by (cases rest) auto
  then obtain pre d post where L: "L = pre @ d # post" "d \<in> set rest" "\<forall>x\<in>set pre. x \<notin> set rest"
    using split_list_first_prop [of L "\<lambda>x. x \<in> set rest"] by blast
  have d: "set (deps d) \<subseteq> A \<union> provided pre" "settled (M - mset pre) d"
    using assms(1) by (simp_all add: L(1) topo_append)
  have "set pre \<subseteq> set bs" using sets L by auto
  then have "A \<union> provided pre \<subseteq> A \<union> provided bs" by auto
  with d(1) have "set (deps d) \<subseteq> A \<union> provided bs" by (rule order_trans)
  moreover have "mset rest \<subseteq># M - mset pre"
  proof (rule mset_subset_eqI)
    fix x
    show "count (mset rest) x \<le> count (M - mset pre) x"
    proof (cases "x \<in> set rest")
      case True
      with L(3) have "x \<notin> set pre" by auto
      then have "count (mset pre) x = 0" by (simp only: count_mset_0_iff not_False_eq_True)
      with assms(3) have "count (M - mset pre) x = count (mset bs) x + count (mset rest) x"
        by (simp only: count_diff count_union diff_zero)
      then show ?thesis by (simp only: le_add2)
    next
      case False
      then have "count (mset rest) x = 0" by (simp only: count_mset_0_iff not_False_eq_True)
      then show ?thesis by (simp only: le0)
    qed
  qed
  then have "settled (mset rest) d" by (rule settled_mono [OF d(2)])
  ultimately show ?thesis using L(2) by (intro bexI [of _ d] conjI)
qed

lemma build_all_invariant:
  assumes builds: "\<And>bs d c1. topo A M (bs @ [d]) \<Longrightarrow> P bs c1 \<Longrightarrow> \<exists>c2. run_build impl d c1 = Inr c2 \<and> P (bs @ [d]) c2"
  shows "topo A M bs \<Longrightarrow> P [] c \<Longrightarrow> \<exists>c'. build_all impl c bs = Inr c' \<and> P bs c'"
proof (induction bs rule: rev_induct)
  case (snoc d bs)
  then obtain c1 where c1: "build_all impl c bs = Inr c1" "P bs c1" by (auto simp: topo_append)
  obtain c2 where "run_build impl d c1 = Inr c2" "P (bs @ [d]) c2"
    using builds [OF snoc.prems(1) c1(2)] by blast
  with c1 show ?case by (simp add: fold_run_append)
qed simp

lemma refresh_completes:
  assumes order: "topo (keys c) (mset (pending c)) L" "mset L = mset (pending c)"
    and builds: "\<And>bs d c1. topo (keys c) (mset (pending c)) (bs @ [d]) \<Longrightarrow> P bs c1 \<Longrightarrow>
        \<exists>c2. run_build impl d c1 = Inr c2 \<and> P (bs @ [d]) c2"
    and start: "P [] (c\<lparr>pending := []\<rparr>)"
    and quiet: "\<And>bs c1. P bs c1 \<Longrightarrow> pending c1 = []"
  shows "\<exists>bs c'. refresh impl c = Some (Inr c') \<and> mset bs = mset (pending c) \<and>
    topo (keys c) (mset (pending c)) bs \<and> P bs c'"
proof (cases "pending c = []")
  case True
  then have "c\<lparr>pending := []\<rparr> = c" by simp
  with start True show ?thesis by (intro exI [of _ "[]"] exI [of _ c]) (simp add: refresh.simps)
next
  case False
  have builds_all: "\<exists>c'. build_all impl (c\<lparr>pending := []\<rparr>) bs = Inr c' \<and> P bs c'"
    if "topo (keys c) (mset (pending c)) bs" for bs
    using builds that start by (rule build_all_invariant)
  show ?thesis
  proof (cases "build_rounds impl (map Some (pending c)) (wiring_start c)")
    case (Inl x)
    from build_rounds_failed [OF this] have "build_failed impl (mset (pending c)) (keys c) (c\<lparr>pending := []\<rparr>) x"
      by (simp add: wiring_start_def tracks_start)
    then obtain bs where "topo (keys c) (mset (pending c)) bs" "build_all impl (c\<lparr>pending := []\<rparr>) bs = Inl x"
      by (auto simp: build_failed_def)
    with builds_all [of bs] show ?thesis by simp
  next
    case (Inr r)
    obtain ss w where r: "r = (ss, w)" by (cases r)
    obtain bs where bs: "mset (pending c) = mset bs + mset (flatten ss)" "topo (keys c) (mset (pending c)) bs"
      "build_all impl (c\<lparr>pending := []\<rparr>) bs = Inr (context_of w)" "available w = keys c \<union> provided bs"
      and stuck: "\<forall>d\<in>set (flatten ss). \<not> set (deps d) \<subseteq> available w \<or> \<not> settled (mset (flatten ss)) d"
      by (rule rounds_result [OF Inr [unfolded r]])
    have none: "flatten ss = []"
    proof (rule ccontr)
      assume "flatten ss \<noteq> []"
      then obtain d where "d \<in> set (flatten ss)" "set (deps d) \<subseteq> keys c \<union> provided bs"
          "settled (mset (flatten ss)) d"
        by (rule bexE [OF topo_next [OF order bs(1)]]) (elim conjE)
      with bspec [OF stuck, of d] show False by (simp only: bs(4) simp_thms True_implies_equals)
    qed
    have P: "P bs (context_of w)" using builds_all [OF bs(2)] bs(3) by auto
    have "refresh_batch impl c = Inr (context_of w)"
      using Inr r none by (simp add: refresh_batch_unfold)
    then have "refresh impl c = Some (Inr (context_of w))"
      using False quiet [OF P] by (simp add: refresh.simps [of impl c] refresh.simps [of impl "context_of w"])
    with P none bs(1,2) show ?thesis by (intro exI [of _ bs] exI [of _ "context_of w"]) simp
  qed
qed

end
