(* ===== verification/Di_Derive.thy ===== *)
theory Di_Derive
  imports Di_Refresh
begin

text \<open>
  The code generated by \<open>#[derive(Component)]\<close>, \<open>crates/di-macro/src/lib.rs\<close>, as a function from
  the description of a struct to the implementation of its traits, and what \<open>refresh\<close> makes of an
  application of such components.

  A built bean is the name of its struct and what was injected into its \<open>#[inject]\<close> fields, in
  order; fields without the attribute hold their default and are left out. The lookups of the
  generated code panic where the container panics.
\<close>

section \<open>The generated code\<close>

datatype inject_kind = Required | Optional | Collection

record inject_field =
  kind :: inject_kind
  inner :: rust_type
  is_trait :: bool
  inject_qualifier :: "string option"

datatype bean = Bean rust_type "injected list"
  and injected = One bean | Opt "bean option" | Many "bean list"

record derive_input =
  ident :: rust_type
  injects :: "inject_field list"
  provided_traits :: "rust_type list"
  primary_attr :: bool
  qualifier_attr :: "string option"
  default_attr :: bool
  post_ctor :: "(bean app_context \<Rightarrow> bean \<Rightarrow> di_error option) option"

definition dep_type :: "inject_field \<Rightarrow> rust_type" where
  "dep_type f = (if is_trait f then ArcOf (inner f) else inner f)"

text \<open>The operator \<open>?\<close> on a lookup.\<close>

definition resolve_or_fail :: "'v resolved \<Rightarrow> failure + 'v" where
  "resolve_or_fail r = (case r of Inl p \<Rightarrow> Inl (Panic p) | Inr (Inl e) \<Rightarrow> Inl (Err e) | Inr (Inr v) \<Rightarrow> Inr v)"

definition inject_init :: "bean app_context \<Rightarrow> inject_field \<Rightarrow> failure + injected" where
  "inject_init c f =
     (case kind f of
        Required \<Rightarrow>
          bind_run (resolve_or_fail
            (case (is_trait f, inject_qualifier f) of
               (False, None) \<Rightarrow> get c (inner f)
             | (False, Some q) \<Rightarrow> get_qualified c (inner f) q
             | (True, None) \<Rightarrow> get_as c (inner f)
             | (True, Some q) \<Rightarrow> get_qualified c (ArcOf (inner f)) q))
            (\<lambda>v. Inr (One v))
      | Optional \<Rightarrow>
          (case (if is_trait f then get_as c (inner f) else get c (inner f)) of
             Inl p \<Rightarrow> Inl (Panic p)
           | Inr (Inl _) \<Rightarrow> Inr (Opt None)
           | Inr (Inr v) \<Rightarrow> Inr (Opt (Some v)))
      | Collection \<Rightarrow> Inr (Many (if is_trait f then get_all_as c (inner f) else get_all c (inner f))))"

fun inject_fields :: "bean app_context \<Rightarrow> inject_field list \<Rightarrow> failure + injected list" where
  "inject_fields c [] = Inr []"
| "inject_fields c (f # fs) =
     bind_run (inject_init c f) (\<lambda>i. bind_run (inject_fields c fs) (\<lambda>is. Inr (i # is)))"

text \<open>A qualifier on a field that is not required is a compile error.\<close>

definition inject_accepted :: "inject_field \<Rightarrow> bool" where
  "inject_accepted f \<longleftrightarrow> inject_qualifier f = None \<or> kind f = Required"

definition struct_metadata :: "derive_input \<Rightarrow> metadata" where
  "struct_metadata s = (if default_attr s then FrameworkDefault else User, primary_attr s, qualifier_attr s)"

definition expansion :: "derive_input \<Rightarrow> bean registers_component" where
  "expansion s =
     \<lparr>build_fn = (\<lambda>c. bind_run (inject_fields c (injects s)) (\<lambda>is. Inr (Bean (ident s) is))),
      bean_origin = (if default_attr s then FrameworkDefault else User),
      primary_fn = primary_attr s,
      qualifier_fn = qualifier_attr s,
      dependencies = map dep_type (filter (\<lambda>f. kind f = Required) (injects s)),
      optional_dependencies = map dep_type (filter (\<lambda>f. kind f \<noteq> Required) (injects s)),
      provides_fn = ident s # map ArcOf (provided_traits s),
      register_bindings = (\<lambda>c v. fold_run (\<lambda>c tr. register_as_component (struct_metadata s) tr c v) c (provided_traits s)),
      post_construct = (\<lambda>c v. case post_ctor s of None \<Rightarrow> None | Some m \<Rightarrow> m c v)\<rparr>"

definition derive_component :: "derive_input \<Rightarrow> bean registers_component option" where
  "derive_component s = (if list_all inject_accepted (injects s) then Some (expansion s) else None)"

section \<open>Injection\<close>

lemma expansion_simps [simp]:
  "build_fn (expansion s) c = bind_run (inject_fields c (injects s)) (\<lambda>is. Inr (Bean (ident s) is))"
  "dependencies (expansion s) = map dep_type (filter (\<lambda>f. kind f = Required) (injects s))"
  "optional_dependencies (expansion s) = map dep_type (filter (\<lambda>f. kind f \<noteq> Required) (injects s))"
  "provides_fn (expansion s) = ident s # map ArcOf (provided_traits s)"
  "register_bindings (expansion s) c v =
     fold_run (\<lambda>c tr. register_as_component (struct_metadata s) tr c v) c (provided_traits s)"
  "post_construct (expansion s) c v = (case post_ctor s of None \<Rightarrow> None | Some m \<Rightarrow> m c v)"
  "metadata (expansion s) = struct_metadata s"
  by (simp_all add: expansion_def metadata_def struct_metadata_def)

lemma no_panic: "resolve_or_fail (Inr r) \<noteq> Inl (Panic p)"
  by (auto simp: resolve_or_fail_def split: sum.splits)

lemma resolve_or_fail_defined: "\<exists>r. x = Inr r \<Longrightarrow> resolve_or_fail x \<noteq> Inl (Panic p)"
  using no_panic by blast

lemma inject_init_no_panic: "well_typed c \<Longrightarrow> inject_init c f \<noteq> Inl (Panic p)"
proof -
  assume wt: "well_typed c"
  note get = get_defined [OF wt]
  have lookups: "resolve_or_fail (get c t) \<noteq> Inl (Panic p)" "resolve_or_fail (get_as c t) \<noteq> Inl (Panic p)"
    "resolve_or_fail (get_qualified c t q) \<noteq> Inl (Panic p)" for t q
    using get by (auto intro!: resolve_or_fail_defined simp: get_as_def)
  obtain r where r: "(if is_trait f then get_as c (inner f) else get c (inner f)) = Inr r"
    using get by (fastforce simp: get_as_def)
  show ?thesis
    by (cases "kind f")
       (auto simp: inject_init_def bind_run_Inl lookups r split: bool.splits option.splits sum.splits)
qed

lemma inject_fields_no_panic: "well_typed c \<Longrightarrow> inject_fields c fs \<noteq> Inl (Panic p)"
  by (induction fs) (auto simp: bind_run_Inl inject_init_no_panic)

text \<open>What is injected depends on the beans of the field's type only.\<close>

lemma lookup_cong:
  assumes "well_typed c" "well_typed c'" "bean_list c' t = bean_list c t"
  shows "get c' t = get c t" "get_qualified c' t q = get_qualified c t q" "get_all c' t = get_all c t"
proof -
  have "hm_get (instances c') t = hm_get (instances c) t"
    using assms by (simp add: hm_get_bean_list)
  then show "get c' t = get c t" "get_qualified c' t q = get_qualified c t q"
    by (simp_all add: get_def get_qualified_def)
  show "get_all c' t = get_all c t" using assms(3) by (simp add: get_all_def)
qed

lemma inject_init_cong:
  assumes "well_typed c" "well_typed c'" "bean_list c' (dep_type f) = bean_list c (dep_type f)"
  shows "inject_init c' f = inject_init c f"
  using lookup_cong [OF assms(1,2), of "inner f"] lookup_cong [OF assms(1,2), of "ArcOf (inner f)"] assms(3)
  by (auto simp: inject_init_def dep_type_def get_as_def get_all_as_def get_all_def
      split: inject_kind.splits bool.splits option.splits if_splits)

lemma inject_fields_cong:
  assumes "well_typed c" "well_typed c'" "\<forall>f\<in>set fs. bean_list c' (dep_type f) = bean_list c (dep_type f)"
  shows "inject_fields c' fs = inject_fields c fs"
  using assms(3) inject_init_cong [OF assms(1,2)] by (induction fs) auto

definition single :: "bean app_context \<Rightarrow> rust_type \<Rightarrow> bean \<Rightarrow> bool" where
  "single c t v \<longleftrightarrow> (\<exists>e. bean_list c t = [(e, Instance t v)])"

lemma single_get: "well_typed c \<Longrightarrow> single c t v \<Longrightarrow> get c t = Inr (Inr v)"
  by (auto simp: single_def get_def hm_get_bean_list)

lemma inject_fields_ok:
  assumes wt: "well_typed c"
    and found: "\<forall>f\<in>set fs. kind f = Required \<longrightarrow> inject_qualifier f = None \<and> (\<exists>v. single c (dep_type f) v)"
  shows "\<exists>is. inject_fields c fs = Inr is"
  using found
proof (induction fs)
  case (Cons f fs)
  have "\<exists>i. inject_init c f = Inr i"
  proof (cases "kind f")
    case Required
    with Cons.prems obtain v where q: "inject_qualifier f = None" and "single c (dep_type f) v" by auto
    then have "get c (dep_type f) = Inr (Inr v)" by (simp add: single_get [OF wt])
    with Required q show ?thesis
      by (auto simp: inject_init_def dep_type_def get_as_def resolve_or_fail_def split: if_splits)
  next
    case Optional
    obtain r where "(if is_trait f then get_as c (inner f) else get c (inner f)) = Inr r"
      using get_defined(1) [OF wt] by (fastforce simp: get_as_def)
    with Optional show ?thesis by (auto simp: inject_init_def split: sum.splits)
  qed (simp add: inject_init_def)
  with Cons show ?case by auto
qed simp

section \<open>Type safety\<close>

definition components_of :: "(rust_type \<Rightarrow> derive_input) \<Rightarrow> bean components" where
  "components_of app t = expansion (app t)"

text \<open>The contexts an application of derived components can get into.\<close>

inductive reachable :: "(rust_type \<Rightarrow> derive_input) \<Rightarrow> bean app_context \<Rightarrow> bool" for app where
  new: "reachable app app_new"
| register: "reachable app c \<Longrightarrow> reachable app (context_after (register_with_entry c e i))"
| queue: "reachable app c \<Longrightarrow> reachable app (register_component (components_of app) t c)"
| built: "reachable app c \<Longrightarrow> build (components_of app) t c = Inr (v, c') \<Longrightarrow> reachable app c'"
| not_built: "reachable app c \<Longrightarrow> build (components_of app) t c = Inl (x, c') \<Longrightarrow> reachable app c'"
| refreshed: "reachable app c \<Longrightarrow> refresh (components_of app) c = Some r \<Longrightarrow> reachable app (context_after r)"

definition safe_outcome :: "bean outcome \<Rightarrow> bool" where
  "safe_outcome r \<longleftrightarrow> well_typed (context_after r) \<and> (\<forall>p c. r \<noteq> Inl (Panic p, c))"

lemma safe_simps [simp]: "safe_outcome (Inr c) = well_typed c" "safe_outcome (Inl (Err e, c)) = well_typed c"
  "\<not> safe_outcome (Inl (Panic p, c))"
  by (auto simp: safe_outcome_def context_after_def)

lemma safe_bind: "safe_outcome r \<Longrightarrow> (\<And>c. well_typed c \<Longrightarrow> safe_outcome (f c)) \<Longrightarrow> safe_outcome (bind_run r f)"
  by (cases r) (auto simp: safe_outcome_def context_after_def)

lemma safe_fold: "(\<And>c x. well_typed c \<Longrightarrow> safe_outcome (f c x)) \<Longrightarrow> well_typed c \<Longrightarrow> safe_outcome (fold_run f c xs)"
  by (induction xs arbitrary: c) (auto intro!: safe_bind)

lemma safe_register: "well_typed c \<Longrightarrow> safe_outcome (register_with_entry c e i)"
proof (cases "register_with_entry c e i")
  case (Inl x)
  moreover assume "well_typed c"
  ultimately show ?thesis
    by (auto simp: register_with_entry_def Let_def split: if_splits)
next
  case (Inr c')
  moreover assume "well_typed c"
  ultimately show ?thesis by (simp add: register_well_typed)
qed

lemma safe_run_build: "well_typed c \<Longrightarrow> safe_outcome (run_build (components_of app) d c)"
proof -
  assume wt: "well_typed c"
  let ?s = "app (component d)"
  show ?thesis
  proof (cases "inject_fields c (injects ?s)")
    case (Inl x)
    then show ?thesis using wt inject_fields_no_panic [OF wt, of "injects ?s"]
      by (cases x) (auto simp: run_build_def components_of_def)
  next
    case (Inr vs)
    then show ?thesis using wt
      by (auto simp: run_build_def components_of_def register_as_component_def Let_def
          intro!: safe_bind safe_register safe_fold split: option.splits)
  qed
qed

lemma safe_batch: "batch_error (components_of app) c (x, c') \<Longrightarrow> well_typed c \<Longrightarrow> safe_outcome (Inl (x, c'))"
proof -
  assume err: "batch_error (components_of app) c (x, c')" and wt: "well_typed c"
  have all: "safe_outcome (build_all (components_of app) (c\<lparr>pending := []\<rparr>) ds)" for ds
    using wt by (intro safe_fold safe_run_build) simp_all
  have ok: "well_typed c'" if "build_all (components_of app) (c\<lparr>pending := []\<rparr>) bs = Inr c'" for bs
    using all [of bs] that by simp
  from err show ?thesis unfolding batch_error_def fst_conv snd_conv
  proof (elim disjE exE bexE conjE)
    fix ds
    assume "build_all (components_of app) (c\<lparr>pending := []\<rparr>) ds = Inl (x, c')"
    with all [of ds] show ?thesis by simp
  qed (auto dest!: ok)
qed

lemma batch_step_safe: "batch_step (components_of app) c c' \<Longrightarrow> well_typed c \<Longrightarrow> well_typed c'"
proof (induction rule: batch_step.induct)
  case (batch c ds c')
  have "safe_outcome (build_all (components_of app) (c\<lparr>pending := []\<rparr>) ds)"
    using batch.prems by (intro safe_fold safe_run_build) simp_all
  with batch(4) show ?case by simp
qed

lemma batch_steps_safe: "(batch_step (components_of app))\<^sup>*\<^sup>* c c' \<Longrightarrow> well_typed c \<Longrightarrow> well_typed c'"
  by (induction rule: rtranclp_induct) (auto intro: batch_step_safe)

lemma safe_refresh:
  assumes "well_typed c" "refresh (components_of app) c = Some r"
  shows "safe_outcome r"
proof (cases r)
  case (Inr c')
  with refresh_steps [OF assms(2)] batch_steps_safe [OF _ assms(1)] show ?thesis by auto
next
  case (Inl x)
  then obtain c1 where "(batch_step (components_of app))\<^sup>*\<^sup>* c c1" "refresh_batch (components_of app) c1 = Inl x"
    using refresh_steps [OF assms(2)] by auto
  with safe_batch [OF refresh_batch_error] batch_steps_safe [OF _ assms(1)] Inl show ?thesis by (cases x) auto
qed

lemma reachable_well_typed: "reachable app c \<Longrightarrow> well_typed c"
proof (induction rule: reachable.induct)
  case (register c e i)
  then show ?case using safe_register [of c e i] by (simp add: safe_outcome_def)
next
  case (queue c t)
  then show ?case by (simp add: register_component_def)
next
  case (built c t v c')
  then show ?case
    by (auto simp: build_def register_instance_def bind_run_Inr dest: register_well_typed split: sum.splits)
next
  case (not_built c t x c')
  then show ?case
    by (auto simp: build_def register_instance_def bind_run_Inl dest: register_error split: sum.splits)
next
  case (refreshed c r)
  then show ?case using safe_refresh by (auto simp: safe_outcome_def)
qed simp

text \<open>
  C15: The container is type safe. In every context an application of derived components can
  reach, by registrations, single builds, queueing and refreshes, failed ones included, each
  lookup returns: the \<open>expect\<close> on the downcast never fires. A bean that is found was registered
  as an instance of exactly the type asked for, also through a trait binding, and no refresh and
  no single build panics.
\<close>

theorem di_type_safety:
  assumes "reachable app c"
  shows "(\<exists>r. get c t = Inr r) \<and> (\<exists>r. get_as c t = Inr r) \<and> (\<exists>r. get_qualified c t q = Inr r) \<and>
    (get c t = Inr (Inr v) \<longrightarrow> (\<exists>e. (e, Instance t v) \<in> set (bean_list c t))) \<and>
    (get_as c t = Inr (Inr v) \<longrightarrow> (\<exists>e. (e, Instance (ArcOf t) v) \<in> set (bean_list c (ArcOf t)))) \<and>
    (\<forall>p c'. refresh (components_of app) c \<noteq> Some (Inl (Panic p, c'))) \<and>
    (\<forall>p c'. build (components_of app) t c \<noteq> Inl (Panic p, c'))"
proof -
  have wt: "well_typed c" by (rule reachable_well_typed [OF assms])
  have found: "\<exists>e. (e, Instance t v) \<in> set (bean_list c t)" if "get c t = Inr (Inr v)" for t
  proof -
    have "v \<in> set (get_all c t)" using app.find_member [OF wt that] by (simp add: get_all_run_def)
    then obtain e i where "(e, i) \<in> set (bean_list c t)" "v = payload i"
      by (auto simp: get_all_payloads [OF wt])
    moreover from this have "dyn_type i = t" using bean_list_types [OF wt] by blast
    ultimately show ?thesis by (metis bean_instance.collapse)
  qed
  have "refresh (components_of app) c \<noteq> Some (Inl (Panic p, c'))" for p c'
    using safe_refresh [OF wt] by fastforce
  moreover have "build (components_of app) t c \<noteq> Inl (Panic p, c')" for p c'
    using inject_fields_no_panic [OF wt, of "injects (app t)"] safe_register [OF wt]
    by (auto simp: build_def components_of_def register_instance_def bind_run_Inl split: sum.splits)
       (metis safe_simps(3))+
  ultimately show ?thesis
    using get_defined [OF wt] found [of t] found [of "ArcOf t"] by (auto simp: get_as_def)
qed

section \<open>Wiring an application\<close>

definition queue_all :: "(rust_type \<Rightarrow> derive_input) \<Rightarrow> rust_type list \<Rightarrow> bean app_context" where
  "queue_all app ts = fold (register_component (components_of app)) ts app_new"

definition def_of :: "(rust_type \<Rightarrow> derive_input) \<Rightarrow> rust_type \<Rightarrow> component_def" where
  "def_of app t = \<lparr>component = t, def_name = type_name t,
     deps = map dep_type (filter (\<lambda>f. kind f = Required) (injects (app t))),
     opt_deps = map dep_type (filter (\<lambda>f. kind f \<noteq> Required) (injects (app t))),
     provides = ident (app t) # map ArcOf (provided_traits (app t))\<rparr>"

lemma queue_all_simps [simp]:
  "pending (queue_all app ts) = map (def_of app) ts" "instances (queue_all app ts) = []"
  by (induction ts rule: rev_induct)
     (simp_all add: queue_all_def app_new_def register_component_def def_of_def components_of_def)

lemma register_fresh:
  assumes "bean_list c (entry_type e) = []" "dyn_type i = entry_type e"
  shows "register_with_entry c e i = Inr (put_list c (entry_type e) [(e, i)])"
  using assms by (simp add: register_with_entry_def)

lemma component_entry_type [simp]: "entry_type (component_entry m t n) = t"
  by (auto simp: component_entry_def entry_new_def entry_primary_def entry_qualifier_def Let_def
      split: prod.splits option.splits)

lemma register_fresh_component:
  assumes "well_typed c" "bean_list c t = []"
  shows "\<exists>c'. register_with_entry c (component_entry m t n) (Instance t v) = Inr c' \<and> well_typed c' \<and>
    pending c' = pending c \<and> single c' t v \<and> (\<forall>u. u \<noteq> t \<longrightarrow> bean_list c' u = bean_list c u)"
proof -
  let ?e = "component_entry m t n"
  have eq: "register_with_entry c ?e (Instance t v) = Inr (put_list c t [(?e, Instance t v)])"
    using register_fresh [of c ?e "Instance t v"] assms(2) by simp
  have "hm_ok (instances c)" using assms(1) by (simp add: well_typed_def)
  then show ?thesis using eq register_well_typed [OF assms(1) eq]
    by (auto simp: single_def) (simp add: put_list_def)
qed

lemma bind_fresh:
  assumes "well_typed c" "distinct trs" "\<forall>tr\<in>set trs. bean_list c (ArcOf tr) = []"
  shows "\<exists>c'. fold_run (\<lambda>c tr. register_as_component m tr c v) c trs = Inr c' \<and> well_typed c' \<and>
    pending c' = pending c \<and> (\<forall>tr\<in>set trs. single c' (ArcOf tr) v) \<and>
    (\<forall>u. u \<notin> ArcOf ` set trs \<longrightarrow> bean_list c' u = bean_list c u)"
  using assms
proof (induction trs arbitrary: c)
  case (Cons tr trs)
  obtain c1 where c1: "register_as_component m tr c v = Inr c1" "well_typed c1" "pending c1 = pending c"
    "single c1 (ArcOf tr) v" "\<forall>u. u \<noteq> ArcOf tr \<longrightarrow> bean_list c1 u = bean_list c u"
    using register_fresh_component [OF Cons.prems(1), of "ArcOf tr" m "type_name (ArcOf tr)" v]
      Cons.prems(3) by (auto simp: register_as_component_def simp del: type_name.simps)
  have "\<forall>tr\<in>set trs. bean_list c1 (ArcOf tr) = []"
    using c1(5) Cons.prems(2,3) by (metis distinct.simps(2) list.set_intros(2) rust_type.inject(2))
  then obtain c2 where c2: "fold_run (\<lambda>c tr. register_as_component m tr c v) c1 trs = Inr c2" "well_typed c2"
    "pending c2 = pending c1" "\<forall>tr\<in>set trs. single c2 (ArcOf tr) v"
    "\<forall>u. u \<notin> ArcOf ` set trs \<longrightarrow> bean_list c2 u = bean_list c1 u"
    using Cons.IH [OF c1(2)] Cons.prems(2) by auto
  moreover have "single c2 (ArcOf tr) v" using c1(4) c2(5) Cons.prems(2) by (auto simp: single_def)
  ultimately show ?case using c1 by (intro exI [of _ c2]) auto
qed simp

text \<open>Each type is provided by one component, once.\<close>

definition disjoint_provides :: "component_def list \<Rightarrow> bool" where
  "disjoint_provides ds \<longleftrightarrow> distinct (concat (map provides ds))"

lemma disjoint_provides_sub:
  assumes "disjoint_provides ds" "mset bs \<subseteq># mset ds"
  shows "disjoint_provides bs"
proof -
  obtain N where "mset ds = mset bs + N" using assms(2) by (metis mset_subset_eq_exists_conv)
  moreover obtain rest where "mset rest = N" using ex_mset by blast
  ultimately have rest: "mset ds = mset (bs @ rest)" by simp
  have all: "mset (concat (map provides xs)) = \<Sum>\<^sub># (image_mset (mset \<circ> provides) (mset xs))" for xs
    by (induction xs) auto
  have "mset (concat (map provides ds)) = mset (concat (map provides (bs @ rest)))"
    by (simp only: all rest)
  then have "distinct (concat (map provides (bs @ rest)))"
    using assms(1) unfolding disjoint_provides_def by (metis mset_eq_imp_distinct_iff)
  then show ?thesis by (simp add: disjoint_provides_def)
qed

lemma provides_apart:
  assumes "disjoint_provides (bs @ [d])" "x \<in> set bs"
  shows "set (provides x) \<inter> set (provides d) = {}"
  using assms by (auto simp: disjoint_provides_def)

text \<open>What a built component took in is not provided by a component built later.\<close>

lemma topo_stable:
  assumes topo: "topo {} M (bs @ [d])" and apart: "disjoint_provides (bs @ [d])" and x: "x \<in> set bs"
    and u: "u \<in> set (deps x) \<union> set (opt_deps x)"
  shows "u \<notin> set (provides d)"
proof -
  obtain pre post where bs: "bs = pre @ x # post" using split_list [OF x] by blast
  have t: "topo (provided pre) (M - mset pre) (x # post @ [d])" using topo by (simp add: bs topo_append)
  then have deps: "set (deps x) \<subseteq> provided pre" and soft: "settled (M - mset pre) x" by auto
  have "d \<in># M - mset pre - {#x#} - mset post" using t by (simp add: topo_append)
  then have "d \<in># M - mset pre" by (meson in_diffD)
  with soft have "u \<notin> set (provides d)" if "u \<in> set (opt_deps x)"
    using that by (auto simp: settled_def)
  moreover have "u \<notin> set (provides d)" if "u \<in> provided pre"
    using that provides_apart [OF apart] bs by auto
  ultimately show ?thesis using u deps by blast
qed

definition wired :: "(rust_type \<Rightarrow> derive_input) \<Rightarrow> bean app_context \<Rightarrow> component_def \<Rightarrow> bool" where
  "wired app c d \<longleftrightarrow> (\<exists>vs. inject_fields c (injects (app (component d))) = Inr vs \<and>
     (\<forall>u\<in>set (provides d). single c u (Bean (component d) vs)))"

definition all_wired :: "(rust_type \<Rightarrow> derive_input) \<Rightarrow> component_def list \<Rightarrow> bean app_context \<Rightarrow> bool" where
  "all_wired app bs c \<longleftrightarrow> well_typed c \<and> pending c = [] \<and>
     (\<forall>t. t \<notin> provided bs \<longrightarrow> bean_list c t = []) \<and> (\<forall>d\<in>set bs. wired app c d)"

lemma wired_stable:
  assumes "wired app c d" "well_typed c" "well_typed c'"
    and "\<forall>u\<in>set (provides d) \<union> dep_type ` set (injects (app (component d))). bean_list c' u = bean_list c u"
  shows "wired app c' d"
  using assms inject_fields_cong [OF assms(2,3), of "injects (app (component d))"]
  by (auto simp: wired_def single_def)

text \<open>Building a component none of whose types has a bean yet.\<close>

lemma run_build_fresh:
  assumes wt: "well_typed c" and ident: "ident (app t) = t"
    and hook: "\<And>c v. post_construct (components_of app t) c v = None"
    and dist: "distinct (provides (def_of app t))"
    and fresh: "\<forall>u\<in>set (provides (def_of app t)). bean_list c u = []"
    and vs: "inject_fields c (injects (app t)) = Inr vs"
  shows "\<exists>c'. run_build (components_of app) (def_of app t) c = Inr c' \<and> well_typed c' \<and> pending c' = pending c \<and>
    (\<forall>u\<in>set (provides (def_of app t)). single c' u (Bean t vs)) \<and>
    (\<forall>u. u \<notin> set (provides (def_of app t)) \<longrightarrow> bean_list c' u = bean_list c u)"
proof -
  let ?trs = "provided_traits (app t)" and ?m = "struct_metadata (app t)" and ?v = "Bean t vs"
  have provides: "provides (def_of app t) = t # map ArcOf ?trs" by (simp add: def_of_def ident)
  obtain c1 where c1: "register_with_entry c (component_entry ?m t (type_name t)) (Instance t ?v) = Inr c1"
    "well_typed c1" "pending c1 = pending c" "single c1 t ?v" "\<forall>u. u \<noteq> t \<longrightarrow> bean_list c1 u = bean_list c u"
    using register_fresh_component [OF wt, of t ?m "type_name t" ?v] fresh by (auto simp: provides)
  have "distinct ?trs" using dist by (simp add: provides distinct_map)
  moreover have "\<forall>tr\<in>set ?trs. bean_list c1 (ArcOf tr) = []"
    using c1(5) fresh dist by (auto simp: provides)
  ultimately obtain c2 where c2: "fold_run (\<lambda>c tr. register_as_component ?m tr c ?v) c1 ?trs = Inr c2"
    "well_typed c2" "pending c2 = pending c1" "\<forall>tr\<in>set ?trs. single c2 (ArcOf tr) ?v"
    "\<forall>u. u \<notin> ArcOf ` set ?trs \<longrightarrow> bean_list c2 u = bean_list c1 u"
    using bind_fresh [OF c1(2), of ?trs ?m ?v] by blast
  have "run_build (components_of app) (def_of app t) c = Inr c2"
    using vs c1(1) c2(1) hook by (simp add: run_build_def components_of_def def_of_def ident)
  moreover have "bean_list c2 u = bean_list c u" if "u \<notin> set (provides (def_of app t))" for u
    using that c1(5) c2(5) by (auto simp: provides)
  moreover have "single c2 u ?v" if "u \<in> set (provides (def_of app t))" for u
    using that c1(4) c2(4,5) dist by (auto simp: provides single_def)
  ultimately show ?thesis using c2(2,3) c1(3) by auto
qed

lemma dep_types_def_of:
  "dep_type ` set (injects (app t)) = set (deps (def_of app t)) \<union> set (opt_deps (def_of app t))"
  by (auto simp: def_of_def)

lemma all_wired_keep:
  assumes topo: "topo {} M (bs @ [def_of app t])" and apart: "disjoint_provides (bs @ [def_of app t])"
    and known: "\<forall>x\<in>set bs. x = def_of app (component x)"
    and P: "all_wired app bs c" and wt: "well_typed c'"
    and same: "\<And>u. u \<notin> set (provides (def_of app t)) \<Longrightarrow> bean_list c' u = bean_list c u"
    and x: "x \<in> set bs"
  shows "wired app c' x"
proof (rule wired_stable [OF _ _ wt])
  show "wired app c x" "well_typed c" using P x by (simp_all add: all_wired_def)
  have "dep_type ` set (injects (app (component x))) = set (deps x) \<union> set (opt_deps x)"
    using dep_types_def_of [of app "component x"] known x by simp
  then have "u \<notin> set (provides (def_of app t))"
    if "u \<in> set (provides x) \<union> dep_type ` set (injects (app (component x)))" for u
    using that topo_stable [OF topo apart x, of u] provides_apart [OF apart x] by blast
  then show "\<forall>u\<in>set (provides x) \<union> dep_type ` set (injects (app (component x))). bean_list c' u = bean_list c u"
    using same by blast
qed

lemma all_wired_step:
  assumes ident: "\<And>t. ident (app t) = t"
    and plain: "\<And>t f. f \<in> set (injects (app t)) \<Longrightarrow> inject_qualifier f = None"
    and hooks: "\<And>t c v. post_construct (components_of app t) c v = None"
    and apart: "disjoint_provides (map (def_of app) ts)"
    and topo: "topo {} (mset (map (def_of app) ts)) (bs @ [d])"
    and P: "all_wired app bs c"
  shows "\<exists>c'. run_build (components_of app) d c = Inr c' \<and> all_wired app (bs @ [d]) c'"
proof -
  have sub: "mset (bs @ [d]) \<subseteq># mset (map (def_of app) ts)" using topo by (rule topo_subset)
  have apart': "disjoint_provides (bs @ [d])" by (rule disjoint_provides_sub [OF apart sub])
  have "set (bs @ [d]) \<subseteq> def_of app ` set ts" using set_mset_mono [OF sub] by simp
  then have known: "\<forall>x\<in>set bs. x = def_of app (component x)" and "\<exists>t. d = def_of app t"
    by (auto simp: def_of_def)
  then obtain t where d: "d = def_of app t" by blast
  have wt: "well_typed c" and quiet: "pending c = []" and empty: "\<And>u. u \<notin> provided bs \<Longrightarrow> bean_list c u = []"
    and wired: "\<forall>x\<in>set bs. wired app c x"
    using P unfolding all_wired_def by blast+
  have fresh: "\<forall>u\<in>set (provides d). bean_list c u = []"
  proof (intro ballI empty notI)
    fix u
    assume "u \<in> set (provides d)" "u \<in> provided bs"
    then show False using provides_apart [OF apart'] by auto
  qed
  have deps: "set (deps d) \<subseteq> provided bs" and soft: "settled (mset (map (def_of app) ts) - mset bs) d"
    and mem: "d \<in># mset (map (def_of app) ts) - mset bs"
    using topo by (simp_all add: topo_append)
  have found: "\<exists>v. single c u v" if "u \<in> provided bs" for u
  proof -
    from that obtain x where x: "x \<in> set bs" "u \<in> set (provides x)" by auto
    with bspec [OF wired x(1)] show ?thesis unfolding wired_def by blast
  qed
  have "\<forall>u\<in>set (deps d). \<exists>v. single c u v" by (intro ballI found subsetD [OF deps])
  then have "\<exists>vs. inject_fields c (injects (app t)) = Inr vs"
    using plain by (intro inject_fields_ok [OF wt]) (simp add: d def_of_def)
  then obtain vs where vs: "inject_fields c (injects (app t)) = Inr vs" by blast
  have "distinct (provides d)" using apart' by (simp add: disjoint_provides_def)
  then obtain c2 where c2: "run_build (components_of app) d c = Inr c2" "well_typed c2" "pending c2 = pending c"
    "\<forall>u\<in>set (provides d). single c2 u (Bean t vs)"
    "\<forall>u. u \<notin> set (provides d) \<longrightarrow> bean_list c2 u = bean_list c u"
    using run_build_fresh [OF wt ident hooks _ _ vs] fresh unfolding d by blast
  have same: "bean_list c2 u = bean_list c u" if "u \<notin> set (provides d)" for u using c2(5) that by blast
  have "\<forall>u\<in>set (deps d) \<union> set (opt_deps d). u \<notin> set (provides d)"
  proof (intro ballI notI)
    fix u
    assume u: "u \<in> set (deps d) \<union> set (opt_deps d)" "u \<in> set (provides d)"
    then have "u \<in> set (deps d)" using soft mem by (auto simp: settled_def)
    then have "u \<in> provided bs" using deps by blast
    then show False using provides_apart [OF apart'] u(2) by auto
  qed
  then have "inject_fields c2 (injects (app t)) = Inr vs"
    using inject_fields_cong [OF wt c2(2), of "injects (app t)"] vs
    by (simp add: same dep_types_def_of [symmetric] d)
  then have "wired app c2 d" using c2(4) by (simp add: wired_def d def_of_def)
  moreover have "wired app c2 x" if "x \<in> set bs" for x
    by (rule all_wired_keep [OF topo [unfolded d] apart' [unfolded d] known P c2(2) same [unfolded d] that])
  moreover have "bean_list c2 u = []" if "u \<notin> provided (bs @ [d])" for u
    using that same [of u] empty [of u] by simp
  ultimately have "all_wired app (bs @ [d]) c2"
    using c2(2,3) quiet unfolding all_wired_def by simp
  with c2(1) show ?thesis by blast
qed

text \<open>
  Wiring an application succeeds. For components derived from structs, queued in any order,
  where each type is provided once, no field asks for a qualifier and no hook fails: if some
  order puts every component after the providers of all its fields, then \<open>refresh\<close> returns
  without an error, every component is built, can be looked up by its type and by each trait it
  provides, and each of its fields holds what the finished context gives for that field: the very
  bean for a required field, a present bean for an optional one, all beans for a collection.
\<close>

theorem di_wiring_complete:
  assumes "\<And>t. ident (app t) = t"
    and "\<And>t f. f \<in> set (injects (app t)) \<Longrightarrow> inject_qualifier f = None"
    and "\<And>t c v. post_construct (components_of app t) c v = None"
    and "disjoint_provides (map (def_of app) ts)"
    and "topo {} (mset (map (def_of app) ts)) L" "mset L = mset (map (def_of app) ts)"
  shows "\<exists>c. refresh (components_of app) (queue_all app ts) = Some (Inr c) \<and>
    (\<forall>t\<in>set ts. \<exists>vs. inject_fields c (injects (app t)) = Inr vs \<and> get c t = Inr (Inr (Bean t vs)) \<and>
       (\<forall>tr\<in>set (provided_traits (app t)). get_as c tr = Inr (Inr (Bean t vs))))"
proof -
  let ?c = "queue_all app ts"
  have keys: "keys ?c = {}" by (simp add: keys_def)
  have start: "all_wired app [] (?c\<lparr>pending := []\<rparr>)"
    by (simp add: all_wired_def well_typed_def bean_list_def)
  obtain bs c where c: "refresh (components_of app) ?c = Some (Inr c)" "mset bs = mset (pending ?c)" "all_wired app bs c"
    using refresh_completes [of ?c L "all_wired app" "components_of app"] assms(5,6) start
      all_wired_step [of app ts, OF assms(1-4)] unfolding keys by (auto simp: all_wired_def)
  have wt: "well_typed c" using c(3) by (simp add: all_wired_def)
  have set: "set bs = def_of app ` set ts"
    using mset_eq_setD [OF c(2)] by simp
  have "\<exists>vs. inject_fields c (injects (app t)) = Inr vs \<and> get c t = Inr (Inr (Bean t vs)) \<and>
       (\<forall>tr\<in>set (provided_traits (app t)). get_as c tr = Inr (Inr (Bean t vs)))" if "t \<in> set ts" for t
  proof -
    have "wired app c (def_of app t)" using c(3) set that by (simp add: all_wired_def)
    then obtain vs where "inject_fields c (injects (app t)) = Inr vs"
      "single c t (Bean t vs)" "\<forall>tr\<in>set (provided_traits (app t)). single c (ArcOf tr) (Bean t vs)"
      by (auto simp: wired_def def_of_def assms(1))
    then show ?thesis by (auto simp: single_get [OF wt] get_as_def)
  qed
  with c(1) show ?thesis by blast
qed

text \<open>Two repositories behind one trait and a service that takes the trait.\<close>

definition plain_struct :: "rust_type \<Rightarrow> derive_input" where
  "plain_struct t = \<lparr>ident = t, injects = [], provided_traits = [], primary_attr = False,
     qualifier_attr = None, default_attr = False, post_ctor = None\<rparr>"

definition demo :: "bool \<Rightarrow> rust_type \<Rightarrow> derive_input" where
  "demo dflt t =
     (if t = Named ''Service''
      then (plain_struct t)\<lparr>injects := [\<lparr>kind = Required, inner = Named ''dyn Repo'', is_trait = True, inject_qualifier = None\<rparr>]\<rparr>
      else if t = Named ''MemRepo'' then (plain_struct t)\<lparr>provided_traits := [Named ''dyn Repo''], default_attr := dflt\<rparr>
      else if t = Named ''SqlRepo'' then (plain_struct t)\<lparr>provided_traits := [Named ''dyn Repo''], primary_attr := True\<rparr>
      else plain_struct t)"

definition injected_repo :: "bool \<Rightarrow> string list \<Rightarrow> bean resolved option" where
  "injected_repo dflt ts =
     (case refresh (components_of (demo dflt)) (queue_all (demo dflt) (map Named ts)) of
        Some (Inr c) \<Rightarrow> Some (get c (Named ''Service'')) | _ \<Rightarrow> None)"

text \<open>
  A required field is wired as soon as one provider of its type is built. So which bean a service
  gets depends on the order in which components are queued: queued before the primary (or before
  any non-default) repository, the service keeps the one built first, and the finished context
  resolves the same trait to the other one.
\<close>

lemma wiring_order_matters:
  "injected_repo False [''MemRepo'', ''Service'', ''SqlRepo''] =
     Some (Inr (Inr (Bean (Named ''Service'') [One (Bean (Named ''MemRepo'') [])])))"
  "injected_repo True [''MemRepo'', ''Service'', ''SqlRepo''] =
     Some (Inr (Inr (Bean (Named ''Service'') [One (Bean (Named ''MemRepo'') [])])))"
  "injected_repo False [''MemRepo'', ''SqlRepo'', ''Service''] =
     Some (Inr (Inr (Bean (Named ''Service'') [One (Bean (Named ''SqlRepo'') [])])))"
  by code_simp+

section \<open>Refreshing\<close>

lemma register_pending: "register_with_entry c e i = Inr c' \<Longrightarrow> pending c' = pending c"
  by (auto simp: register_with_entry_def Let_def put_list_def split: if_splits)

lemma bind_pending:
  "fold_run (\<lambda>c tr. register_as_component m tr c v) c trs = Inr c' \<Longrightarrow> pending c' = pending c"
  by (induction trs arbitrary: c)
     (auto simp: bind_run_Inr register_as_component_def dest!: register_pending)

lemma run_build_pending: "run_build (components_of app) d c = Inr c' \<Longrightarrow> pending c' = pending c"
  by (auto simp: run_build_def components_of_def Let_def bind_run_Inr
      dest!: register_pending bind_pending split: sum.splits option.splits)

text \<open>
  C14: \<open>refresh\<close> always returns for derived components, whatever the context, the dependency
  graph, the hooks and the errors. A success leaves nothing queued and is a sequence of batches,
  each of which built all queued components in an order in which every component comes after
  providers of the types it requires. A failure has one of three causes, in the batch it happens:
  building a component whose requirements were available failed; a component requires a type that
  is neither registered nor provided by a queued component, and is named; or the components still
  to be built wait for each other, and those with an unavailable requirement are named.
\<close>

theorem di_refresh_correct:
  "\<exists>r. refresh (components_of app) c = Some r \<and>
     (case r of
        Inr c' \<Rightarrow> (batch_step (components_of app))\<^sup>*\<^sup>* c c' \<and> pending c' = []
      | Inl x \<Rightarrow> \<exists>c1. (batch_step (components_of app))\<^sup>*\<^sup>* c c1 \<and> batch_error (components_of app) c1 x)"
proof -
  have "\<exists>r. refresh (components_of app) c = Some r"
    by (rule refresh_returns_below [of _ "\<lambda>_. 0" _ 1]) (auto dest: run_build_pending)
  then obtain r where r: "refresh (components_of app) c = Some r" by blast
  show ?thesis
  proof (cases r)
    case (Inr c')
    with refresh_steps [OF r] r show ?thesis by auto
  next
    case (Inl x)
    with refresh_steps [OF r] obtain c1 where
      "(batch_step (components_of app))\<^sup>*\<^sup>* c c1" "refresh_batch (components_of app) c1 = Inl x"
      by auto
    moreover from this(2) have "batch_error (components_of app) c1 x" by (rule refresh_batch_error)
    ultimately show ?thesis using r Inl by auto
  qed
qed

section \<open>Witnesses\<close>

lemma demo_facts:
  "ident (demo b t) = t" "f \<in> set (injects (demo b t)) \<Longrightarrow> inject_qualifier f = None"
  "post_construct (components_of (demo b) t) c v = None"
  by (auto simp: demo_def plain_struct_def components_of_def split: if_splits)

lemma demo_defs:
  "def_of (demo b) (Named ''Service'') = \<lparr>component = Named ''Service'', def_name = ''Service'',
     deps = [ArcOf (Named ''dyn Repo'')], opt_deps = [], provides = [Named ''Service'']\<rparr>"
  "def_of (demo b) (Named ''MemRepo'') = \<lparr>component = Named ''MemRepo'', def_name = ''MemRepo'',
     deps = [], opt_deps = [], provides = [Named ''MemRepo'', ArcOf (Named ''dyn Repo'')]\<rparr>"
  by (simp_all add: def_of_def demo_def plain_struct_def dep_type_def)

theorem di_wiring_complete_witness:
  "\<exists>c. refresh (components_of (demo False)) (queue_all (demo False) [Named ''Service'', Named ''MemRepo'']) = Some (Inr c) \<and>
    (\<forall>t\<in>{Named ''Service'', Named ''MemRepo''}. \<exists>vs. inject_fields c (injects (demo False t)) = Inr vs \<and>
       get c t = Inr (Inr (Bean t vs)) \<and>
       (\<forall>tr\<in>set (provided_traits (demo False t)). get_as c tr = Inr (Inr (Bean t vs))))"
  using di_wiring_complete [of "demo False" "[Named ''Service'', Named ''MemRepo'']"
      "[def_of (demo False) (Named ''MemRepo''), def_of (demo False) (Named ''Service'')]",
      OF demo_facts(1) demo_facts(2) demo_facts(3)]
  by (simp add: demo_defs disjoint_provides_def settled_def)

definition demo_context :: "bean app_context" where
  "demo_context = context_after (register_with_entry app_new (entry_new (Named ''A'') ''A'' User)
     (Instance (Named ''A'') (Bean (Named ''A'') [])))"

theorem di_type_safety_witness:
  "get demo_context (Named ''A'') = Inr (Inr (Bean (Named ''A'') [])) \<and>
   (\<exists>e. (e, Instance (Named ''A'') (Bean (Named ''A'') [])) \<in> set (bean_list demo_context (Named ''A'')))"
proof -
  have "reachable (demo False) demo_context"
    unfolding demo_context_def by (intro reachable.register reachable.new)
  moreover have "get demo_context (Named ''A'') = Inr (Inr (Bean (Named ''A'') []))"
    by code_simp
  ultimately show ?thesis
    using di_type_safety [of "demo False" demo_context "Named ''A''" "[]" "Bean (Named ''A'') []"] by simp
qed

end
