(* ===== verification/Cache_Memory.thy ===== *)
theory Cache_Memory
  imports Rust_Prelude Hash_Map
begin

text \<open>
  The cache: entries and lifetimes of \<open>crates/kernway-cache-core\<close> (\<open>cache.rs\<close>, \<open>ttl.rs\<close>,
  \<open>stats.rs\<close>) and the in-memory implementation of \<open>crates/kernway-cache-memory/src/lib.rs\<close>.

  A method takes the reading of the monotonic clock, in nanoseconds, that the calls of
  \<open>Instant::now\<close> inside it give; the store's mutex makes each method one step. The order in which
  a \<open>HashMap\<close> yields its keys is not specified: the key that \<open>keys().next()\<close> gives is a function
  \<open>order\<close> of the map, an argument of \<open>put\<close>.
\<close>

section \<open>Entries\<close>

datatype ttl = Forever | Seconds nat

definition ttl_seconds :: "nat \<Rightarrow> ttl" where
  "ttl_seconds n = Seconds n"

definition ttl_minutes :: "nat \<Rightarrow> ttl" where
  "ttl_minutes n = Seconds ((n * 60) mod 2 ^ 64)"

definition ttl_hours :: "nat \<Rightarrow> ttl" where
  "ttl_hours n = Seconds ((n * 3600) mod 2 ^ 64)"

definition as_duration :: "ttl \<Rightarrow> nat option" where
  "as_duration t = (case t of Forever \<Rightarrow> None | Seconds s \<Rightarrow> Some (s * 10 ^ 9))"

record 'v cache_entry =
  entry_value :: 'v
  created_at :: nat
  entry_ttl :: ttl

definition new_entry :: "nat \<Rightarrow> 'v \<Rightarrow> ttl \<Rightarrow> 'v cache_entry" where
  "new_entry now v t = \<lparr>entry_value = v, created_at = now, entry_ttl = t\<rparr>"

definition is_expired :: "nat \<Rightarrow> 'v cache_entry \<Rightarrow> bool" where
  "is_expired now e = (case as_duration (entry_ttl e) of None \<Rightarrow> False | Some d \<Rightarrow> now - created_at e \<ge> d)"

section \<open>The in-memory cache\<close>

type_synonym ('k, 'v) store = "('k, 'v cache_entry) hmap"

record ('k, 'v) cache =
  store :: "('k, 'v) store"
  capacity :: "nat option"
  hits :: nat
  misses :: nat

definition cache_new :: "('k, 'v) cache" where
  "cache_new = \<lparr>store = [], capacity = None, hits = 0, misses = 0\<rparr>"

definition with_capacity :: "nat \<Rightarrow> ('k, 'v) cache" where
  "with_capacity n = \<lparr>store = [], capacity = Some (max n 1), hits = 0, misses = 0\<rparr>"

definition purge_expired :: "nat \<Rightarrow> ('k, 'v) store \<Rightarrow> ('k, 'v) store" where
  "purge_expired now m = hm_retain (\<lambda>_ e. \<not> is_expired now e) m"

definition count_hit :: "('k, 'v) cache \<Rightarrow> ('k, 'v) cache" where
  "count_hit c = c\<lparr>hits := wrapping_add64 (hits c) 1\<rparr>"

definition count_miss :: "('k, 'v) cache \<Rightarrow> ('k, 'v) cache" where
  "count_miss c = c\<lparr>misses := wrapping_add64 (misses c) 1\<rparr>"

definition cache_get :: "nat \<Rightarrow> 'k \<Rightarrow> ('k, 'v) cache \<Rightarrow> 'v option \<times> ('k, 'v) cache" where
  "cache_get now k c =
     (case hm_get (store c) k of
        Some e \<Rightarrow>
          if \<not> is_expired now e then (Some (entry_value e), count_hit c)
          else (None, count_miss (c\<lparr>store := hm_remove (store c) k\<rparr>))
      | None \<Rightarrow> (None, count_miss c))"

text \<open>The loop that evicts keys until the cap holds; each turn removes one entry.\<close>

fun evict_loop :: "nat \<Rightarrow> (('k, 'v) store \<Rightarrow> 'k option) \<Rightarrow> nat \<Rightarrow> ('k, 'v) store \<Rightarrow> ('k, 'v) store" where
  "evict_loop 0 order cap m = m"
| "evict_loop (Suc n) order cap m =
     (if hm_len m > cap
      then (case order m of None \<Rightarrow> m | Some victim \<Rightarrow> evict_loop n order cap (hm_remove m victim))
      else m)"

definition put :: "(('k, 'v) store \<Rightarrow> 'k option) \<Rightarrow> nat \<Rightarrow> 'k \<Rightarrow> 'v \<Rightarrow> ttl \<Rightarrow> ('k, 'v) cache \<Rightarrow> ('k, 'v) cache" where
  "put order now k v t c =
     (let m = hm_insert (store c) k (new_entry now v t) in
      c\<lparr>store :=
         (case capacity c of
            None \<Rightarrow> m
          | Some cap \<Rightarrow>
              if hm_len m > cap then let m = purge_expired now m in evict_loop (hm_len m) order cap m
              else m)\<rparr>)"

definition put_if_absent :: "nat \<Rightarrow> 'k \<Rightarrow> 'v \<Rightarrow> ttl \<Rightarrow> ('k, 'v) cache \<Rightarrow> bool \<times> ('k, 'v) cache" where
  "put_if_absent now k v t c =
     (let m = (case hm_get (store c) k of
                 Some e \<Rightarrow> if is_expired now e then hm_remove (store c) k else store c
               | None \<Rightarrow> store c)
      in case hm_get m k of
           Some _ \<Rightarrow> (False, c\<lparr>store := m\<rparr>)
         | None \<Rightarrow> (True, c\<lparr>store := hm_insert m k (new_entry now v t)\<rparr>))"

definition evict_key :: "'k \<Rightarrow> ('k, 'v) cache \<Rightarrow> ('k, 'v) cache" where
  "evict_key k c = c\<lparr>store := hm_remove (store c) k\<rparr>"

definition clear :: "('k, 'v) cache \<Rightarrow> ('k, 'v) cache" where
  "clear c = c\<lparr>store := []\<rparr>"

definition contains :: "nat \<Rightarrow> 'k \<Rightarrow> ('k, 'v) cache \<Rightarrow> bool \<times> ('k, 'v) cache" where
  "contains now k c =
     (case hm_get (store c) k of
        Some e \<Rightarrow> if \<not> is_expired now e then (True, c) else (False, c\<lparr>store := hm_remove (store c) k\<rparr>)
      | None \<Rightarrow> (False, c))"

definition cache_size :: "nat \<Rightarrow> ('k, 'v) cache \<Rightarrow> nat \<times> ('k, 'v) cache" where
  "cache_size now c = (let m = purge_expired now (store c) in (hm_len m, c\<lparr>store := m\<rparr>))"

definition stats :: "('k, 'v) cache \<Rightarrow> nat \<times> nat \<times> nat" where
  "stats c = (hits c, misses c, hm_len (store c))"

text \<open>The default method of the trait; the loader reads the clock again before the value is stored.\<close>

definition get_or_load :: "(('k, 'v) store \<Rightarrow> 'k option) \<Rightarrow> nat \<Rightarrow> nat \<Rightarrow> 'k \<Rightarrow> ttl \<Rightarrow> ('e + 'v) \<Rightarrow>
    ('k, 'v) cache \<Rightarrow> ('e + 'v) \<times> ('k, 'v) cache" where
  "get_or_load order now later k t loader c =
     (case cache_get now k c of
        (Some v, c) \<Rightarrow> (Inr v, c)
      | (None, c) \<Rightarrow> (case loader of Inl e \<Rightarrow> (Inl e, c) | Inr v \<Rightarrow> (Inr v, put order later k v t c)))"

section \<open>Calls\<close>

datatype ('k, 'v) cache_op =
    Get 'k
  | Put 'k 'v ttl
  | PutIfAbsent 'k 'v ttl
  | Evict 'k
  | Clear
  | Contains 'k
  | Size

datatype 'v cache_out = Value "'v option" | Flag bool | Count nat | Done

definition perform :: "(('k, 'v) store \<Rightarrow> 'k option) \<Rightarrow> nat \<Rightarrow> ('k, 'v) cache_op \<Rightarrow> ('k, 'v) cache \<Rightarrow>
    'v cache_out \<times> ('k, 'v) cache" where
  "perform order now call c =
     (case call of
        Get k \<Rightarrow> map_prod Value id (cache_get now k c)
      | Put k v t \<Rightarrow> (Done, put order now k v t c)
      | PutIfAbsent k v t \<Rightarrow> map_prod Flag id (put_if_absent now k v t c)
      | Evict k \<Rightarrow> (Done, evict_key k c)
      | Clear \<Rightarrow> (Done, clear c)
      | Contains k \<Rightarrow> map_prod Flag id (contains now k c)
      | Size \<Rightarrow> map_prod Count id (cache_size now c))"

fun run_ops :: "(('k, 'v) store \<Rightarrow> 'k option) \<Rightarrow> (nat \<times> ('k, 'v) cache_op) list \<Rightarrow> ('k, 'v) cache \<Rightarrow>
    'v cache_out list \<times> ('k, 'v) cache" where
  "run_ops order [] c = ([], c)"
| "run_ops order ((now, call) # ops) c =
     (let (r, c1) = perform order now call c; (rs, c2) = run_ops order ops c1 in (r # rs, c2))"

section \<open>The specification\<close>

text \<open>
  A map from keys to entries that forgets nothing by itself: a reader sees an entry until it
  expires, and only the calls change it.
\<close>

type_synonym ('k, 'v) table = "'k \<Rightarrow> 'v cache_entry option"

definition visible :: "nat \<Rightarrow> 'v cache_entry option \<Rightarrow> 'v cache_entry option" where
  "visible now e = (case e of None \<Rightarrow> None | Some e \<Rightarrow> if is_expired now e then None else Some e)"

definition spec_perform :: "nat \<Rightarrow> ('k, 'v) cache_op \<Rightarrow> ('k, 'v) table \<Rightarrow> 'v cache_out \<times> ('k, 'v) table" where
  "spec_perform now call A =
     (case call of
        Get k \<Rightarrow> (Value (map_option entry_value (visible now (A k))), A)
      | Put k v t \<Rightarrow> (Done, A(k \<mapsto> new_entry now v t))
      | PutIfAbsent k v t \<Rightarrow>
          if visible now (A k) = None then (Flag True, A(k \<mapsto> new_entry now v t)) else (Flag False, A)
      | Evict k \<Rightarrow> (Done, A(k := None))
      | Clear \<Rightarrow> (Done, Map.empty)
      | Contains k \<Rightarrow> (Flag (visible now (A k) \<noteq> None), A)
      | Size \<Rightarrow> (Count (card {k. visible now (A k) \<noteq> None}), A))"

fun spec_run :: "(nat \<times> ('k, 'v) cache_op) list \<Rightarrow> ('k, 'v) table \<Rightarrow> 'v cache_out list \<times> ('k, 'v) table" where
  "spec_run [] A = ([], A)"
| "spec_run ((now, call) # ops) A =
     (let (r, A1) = spec_perform now call A; (rs, A2) = spec_run ops A1 in (r # rs, A2))"

fun clock_from :: "nat \<Rightarrow> (nat \<times> 'a) list \<Rightarrow> bool" where
  "clock_from t [] \<longleftrightarrow> True"
| "clock_from t ((now, _) # ops) \<longleftrightarrow> t \<le> now \<and> clock_from now ops"

lemma expired_later: "is_expired now e \<Longrightarrow> now \<le> now' \<Longrightarrow> is_expired now' e"
  by (auto simp: is_expired_def split: option.splits)

lemma visible_later: "visible now e = None \<Longrightarrow> now \<le> now' \<Longrightarrow> visible now' e = None"
  by (auto simp: visible_def dest: expired_later split: option.splits if_splits)

lemma visible_None [simp]: "visible now None = None"
  by (simp add: visible_def)

lemma visible_Some: "visible now e = Some x \<longleftrightarrow> e = Some x \<and> \<not> is_expired now x"
  by (auto simp: visible_def split: option.splits)

text \<open>
  The store agrees with the table except that it may have dropped entries: dead ones, and, in a
  bounded cache, evicted ones.
\<close>

definition same_view :: "nat \<Rightarrow> ('k, 'v) store \<Rightarrow> ('k, 'v) table \<Rightarrow> bool" where
  "same_view now m A \<longleftrightarrow> hm_ok m \<and> (\<forall>k. hm_get m k = A k \<or> visible now (A k) = None \<and> hm_get m k = None)"

definition sub_view :: "('k, 'v) store \<Rightarrow> ('k, 'v) table \<Rightarrow> bool" where
  "sub_view m A \<longleftrightarrow> hm_ok m \<and> (\<forall>k e. hm_get m k = Some e \<longrightarrow> A k = Some e)"

lemma same_view_later: "same_view now m A \<Longrightarrow> now \<le> now' \<Longrightarrow> same_view now' m A"
  by (auto simp: same_view_def dest: visible_later)

lemma same_view_visible: "same_view now m A \<Longrightarrow> visible now (hm_get m k) = visible now (A k)"
  unfolding same_view_def by (metis visible_None)

lemma same_view_insert: "same_view now m A \<Longrightarrow> same_view now (hm_insert m k e) (A(k \<mapsto> e))"
  by (auto simp: same_view_def)

lemma same_view_remove_dead: "same_view now m A \<Longrightarrow> visible now (hm_get m k) = None \<Longrightarrow> same_view now (hm_remove m k) A"
  using same_view_visible [of now m A k] by (simp add: same_view_def)

lemma hm_get_purge:
  "hm_ok m \<Longrightarrow> hm_get (purge_expired now m) k = visible now (hm_get m k)"
  by (auto simp: purge_expired_def hm.get_retain visible_def split: option.splits)

lemma same_view_purge: "same_view now m A \<Longrightarrow> same_view now (purge_expired now m) A"
proof -
  assume view: "same_view now m A"
  then have ok: "hm_ok m" by (simp add: same_view_def)
  have "hm_get (purge_expired now m) k = visible now (A k)" for k
    by (simp add: hm_get_purge [OF ok] same_view_visible [OF view])
  moreover have "visible now e = e \<or> visible now e = None" for e :: "'b cache_entry option"
    by (auto simp: visible_def split: option.splits)
  moreover have "hm_ok (purge_expired now m)" using ok by (simp add: purge_expired_def)
  ultimately show ?thesis unfolding same_view_def by metis
qed

lemma hm_len_purge:
  assumes "hm_ok m"
  shows "hm_len (purge_expired now m) = card {k. visible now (hm_get m k) \<noteq> None}"
proof -
  have ok: "hm_ok (purge_expired now m)" using assms by (simp add: purge_expired_def)
  have "dom (hm_get (purge_expired now m)) = {k. visible now (hm_get m k) \<noteq> None}"
    by (auto simp: hm_get_purge [OF assms])
  with hm.len_card [OF ok] show ?thesis by simp
qed

lemma count_simps [simp]:
  "store (count_hit c) = store c" "store (count_miss c) = store c"
  "capacity (count_hit c) = capacity c" "capacity (count_miss c) = capacity c"
  by (simp_all add: count_hit_def count_miss_def)

lemma perform_refines:
  assumes view: "same_view now (store c) A" and unbounded: "capacity c = None"
  shows "fst (perform order now call c) = fst (spec_perform now call A) \<and>
    same_view now (store (snd (perform order now call c))) (snd (spec_perform now call A)) \<and>
    capacity (snd (perform order now call c)) = None"
proof -
  have vis: "visible now (hm_get (store c) k) = visible now (A k)" for k
    by (rule same_view_visible [OF view])
  have ok: "hm_ok (store c)" using view by (simp add: same_view_def)
  show ?thesis
  proof (cases call)
    case (Get k)
    then show ?thesis using vis [of k] view unbounded same_view_remove_dead [OF view, of k]
      by (auto simp: perform_def spec_perform_def cache_get_def visible_def split: option.splits if_splits)
  next
    case (Put k v t)
    then show ?thesis using unbounded same_view_insert [OF view]
      by (simp add: perform_def spec_perform_def put_def)
  next
    case (PutIfAbsent k v t)
    then show ?thesis
      using vis [of k] view unbounded same_view_remove_dead [OF view, of k] same_view_insert ok
      by (auto simp: perform_def spec_perform_def put_if_absent_def visible_def Let_def
          intro!: same_view_insert split: option.splits if_splits)
  next
    case (Evict k)
    then show ?thesis using view unbounded
      by (auto simp: perform_def spec_perform_def evict_key_def same_view_def)
  next
    case Clear
    then show ?thesis using unbounded
      by (simp add: perform_def spec_perform_def clear_def same_view_def)
  next
    case (Contains k)
    then show ?thesis using vis [of k] view unbounded same_view_remove_dead [OF view, of k]
      by (auto simp: perform_def spec_perform_def contains_def visible_def split: option.splits if_splits)
  next
    case Size
    then show ?thesis using unbounded same_view_purge [OF view]
      by (simp add: perform_def spec_perform_def cache_size_def hm_len_purge [OF ok] vis)
  qed
qed

section \<open>An unbounded cache\<close>

lemma run_refines:
  "same_view t (store c) A \<Longrightarrow> capacity c = None \<Longrightarrow> clock_from t ops \<Longrightarrow>
     fst (run_ops order ops c) = fst (spec_run ops A)"
proof (induction ops arbitrary: t c A)
  case (Cons p ops)
  obtain now call where p: "p = (now, call)" by (cases p)
  have view: "same_view now (store c) A"
    using Cons.prems by (auto simp: p intro: same_view_later)
  note step = perform_refines [OF view Cons.prems(2), of order call]
  have "fst (run_ops order ops (snd (perform order now call c))) = fst (spec_run ops (snd (spec_perform now call A)))"
    using step Cons.prems(3) by (intro Cons.IH [of now]) (auto simp: p)
  with step show ?case by (simp add: p Let_def split_beta)
qed simp

text \<open>
  C16: An unbounded cache behaves like a map with lifetimes. Whatever calls are made at whatever
  times of a clock that does not go back, every call answers as on a table that only the calls
  change and that forgets nothing by itself: an entry is found, counted and blocks an insertion
  exactly until its lifetime after the last \<open>put\<close> is over. The lazy removal of dead entries and
  the purge in \<open>size\<close> are never visible.
\<close>

theorem cache_refines_table:
  assumes "clock_from 0 ops"
  shows "fst (run_ops order ops cache_new) = fst (spec_run ops Map.empty)"
  by (rule run_refines [OF _ _ assms]) (simp_all add: cache_new_def same_view_def)

theorem cache_refines_table_witness:
  "fst (run_ops (\<lambda>m. None) [(0, Put ''a'' ''x'' (ttl_seconds 2)), (10 ^ 9, PutIfAbsent ''a'' ''y'' Forever),
        (10 ^ 9, Get ''a''), (2 * 10 ^ 9, Get ''a''), (2 * 10 ^ 9, Size)] cache_new) =
     [Done, Flag False, Value (Some ''x''), Value None, Count 0]"
proof -
  have "spec_run [(0, Put ''a'' ''x'' (ttl_seconds 2)), (10 ^ 9, PutIfAbsent ''a'' ''y'' Forever),
        (10 ^ 9, Get ''a''), (2 * 10 ^ 9, Get ''a''), (2 * 10 ^ 9, Size)] Map.empty =
      ([Done, Flag False, Value (Some ''x''), Value None, Count 0], [''a'' \<mapsto> new_entry 0 ''x'' (ttl_seconds 2)])"
    by (simp add: spec_perform_def visible_def is_expired_def as_duration_def ttl_seconds_def new_entry_def)
  then show ?thesis
    using cache_refines_table [of "[(0, Put ''a'' ''x'' (ttl_seconds 2)), (10 ^ 9, PutIfAbsent ''a'' ''y'' Forever),
        (10 ^ 9, Get ''a''), (2 * 10 ^ 9, Get ''a''), (2 * 10 ^ 9, Size)]" "\<lambda>m. None"]
    by simp
qed

section \<open>A bounded cache\<close>

text \<open>The table the writing calls of a run leave, with the answers the run gave.\<close>

definition written :: "nat \<Rightarrow> ('k, 'v) cache_op \<Rightarrow> 'v cache_out \<Rightarrow> ('k, 'v) table \<Rightarrow> ('k, 'v) table" where
  "written now call out A =
     (case call of
        Put k v t \<Rightarrow> A(k \<mapsto> new_entry now v t)
      | PutIfAbsent k v t \<Rightarrow> if out = Flag True then A(k \<mapsto> new_entry now v t) else A
      | Evict k \<Rightarrow> A(k := None)
      | Clear \<Rightarrow> Map.empty
      | _ \<Rightarrow> A)"

fun writes :: "(nat \<times> ('k, 'v) cache_op) list \<Rightarrow> 'v cache_out list \<Rightarrow> ('k, 'v) table \<Rightarrow> ('k, 'v) table" where
  "writes ((now, call) # ops) (out # outs) A = writes ops outs (written now call out A)"
| "writes _ _ A = A"

lemma sub_view_insert: "sub_view m A \<Longrightarrow> sub_view (hm_insert m k e) (A(k \<mapsto> e))"
  by (auto simp: sub_view_def)

lemma sub_view_remove: "sub_view m A \<Longrightarrow> sub_view (hm_remove m k) A"
  by (auto simp: sub_view_def)

lemma sub_view_purge: "sub_view m A \<Longrightarrow> sub_view (purge_expired now m) A"
  by (auto simp: sub_view_def hm_get_purge visible_Some) (simp add: purge_expired_def)

lemma sub_view_evict: "sub_view m A \<Longrightarrow> sub_view (evict_loop n order cap m) A"
  by (induction n arbitrary: m) (auto split: option.splits intro: sub_view_remove)

lemma sub_view_put: "sub_view (store c) A \<Longrightarrow> sub_view (store (put order now k v t c)) (A(k \<mapsto> new_entry now v t))"
  by (auto simp: put_def Let_def intro!: sub_view_evict sub_view_purge sub_view_insert split: option.splits)

lemma perform_sub_view:
  assumes "sub_view (store c) A"
  shows "sub_view (store (snd (perform order now call c))) (written now call (fst (perform order now call c)) A)"
proof (cases call)
  case (PutIfAbsent k v t)
  define m where "m = (case hm_get (store c) k of
      Some e \<Rightarrow> if is_expired now e then hm_remove (store c) k else store c | None \<Rightarrow> store c)"
  have "sub_view m A"
    using assms sub_view_remove [OF assms, of k] by (auto simp: m_def split: option.splits)
  moreover have "put_if_absent now k v t c =
      (case hm_get m k of Some _ \<Rightarrow> (False, c\<lparr>store := m\<rparr>)
       | None \<Rightarrow> (True, c\<lparr>store := hm_insert m k (new_entry now v t)\<rparr>))"
    unfolding put_if_absent_def m_def Let_def ..
  ultimately show ?thesis
    by (auto simp: PutIfAbsent perform_def written_def intro: sub_view_insert split: option.splits)
next
  case (Put k v t)
  then show ?thesis using sub_view_put [OF assms] by (simp add: perform_def written_def)
next
  case (Evict k)
  then show ?thesis using assms by (auto simp: perform_def written_def evict_key_def sub_view_def)
next
  case Clear
  then show ?thesis by (simp add: perform_def written_def clear_def sub_view_def)
next
  case Size
  then show ?thesis using sub_view_purge [OF assms]
    by (simp add: perform_def written_def cache_size_def Let_def)
qed (use assms sub_view_remove [OF assms] in
  \<open>auto simp: perform_def written_def cache_get_def contains_def split: option.splits\<close>)

lemma run_sub_view:
  "sub_view (store c) A \<Longrightarrow>
     sub_view (store (snd (run_ops order ops c))) (writes ops (fst (run_ops order ops c)) A)"
proof (induction ops arbitrary: c A)
  case (Cons p ops)
  obtain now call where p: "p = (now, call)" by (cases p)
  show ?case
    using Cons.IH [OF perform_sub_view [OF Cons.prems, of order now call]]
    by (simp add: p Let_def split_beta)
qed simp

text \<open>What \<open>HashMap::keys().next()\<close> is relied on for: a key of the map, if there is one.\<close>

definition yields_keys :: "(('k, 'v) store \<Rightarrow> 'k option) \<Rightarrow> bool" where
  "yields_keys order \<longleftrightarrow> (\<forall>m. m \<noteq> [] \<longrightarrow> (\<exists>k. order m = Some k \<and> hm_get m k \<noteq> None))"

lemma hm_len_remove: "hm_ok m \<Longrightarrow> hm_get m k \<noteq> None \<Longrightarrow> hm_len (hm_remove m k) < hm_len m"
proof -
  assume ok: "hm_ok m" and k: "hm_get m k \<noteq> None"
  have "dom (hm_get (hm_remove m k)) = dom (hm_get m) - {k}" using ok by (auto split: if_splits)
  moreover have "finite (dom (hm_get m))" "hm_len m = card (dom (hm_get m))" using hm.len_card [OF ok] by auto
  moreover have "hm_len (hm_remove m k) = card (dom (hm_get (hm_remove m k)))"
    using hm.len_card [of "hm_remove m k"] ok by simp
  moreover have "k \<in> dom (hm_get m)" using k by auto
  ultimately show ?thesis by (metis card_Diff1_less)
qed

lemma evict_loop_bound:
  "yields_keys order \<Longrightarrow> hm_ok m \<Longrightarrow> hm_len m \<le> cap + n \<Longrightarrow> hm_len (evict_loop n order cap m) \<le> cap"
proof (induction n arbitrary: m)
  case (Suc n)
  show ?case
  proof (cases "hm_len m > cap")
    case True
    then have "m \<noteq> []" by (auto simp: hm_len_def)
    then obtain k where k: "order m = Some k" "hm_get m k \<noteq> None"
      using Suc.prems(1) by (auto simp: yields_keys_def)
    have "hm_len (hm_remove m k) < hm_len m" by (rule hm_len_remove [OF Suc.prems(2) k(2)])
    with Suc k True show ?thesis by simp
  qed simp
qed simp

lemma put_bound:
  assumes "yields_keys order" "hm_ok (store c)" "capacity c = Some cap"
  shows "hm_len (store (put order now k v t c)) \<le> cap"
proof -
  let ?m = "hm_insert (store c) k (new_entry now v t)"
  have "hm_len (evict_loop (hm_len (purge_expired now ?m)) order cap (purge_expired now ?m)) \<le> cap"
    using assms(2) by (intro evict_loop_bound [OF assms(1)]) (simp_all add: purge_expired_def)
  with assms(3) show ?thesis by (simp add: put_def Let_def)
qed

lemma perform_bound:
  assumes "yields_keys order" "hm_ok (store c)" "capacity c = Some cap" "hm_len (store c) \<le> cap"
    "\<forall>k v t. call \<noteq> PutIfAbsent k v t"
  shows "hm_len (store (snd (perform order now call c))) \<le> cap"
proof -
  have "hm_len (hm_remove (store c) k) \<le> cap" "hm_len (hm_retain P (store c)) \<le> cap" for k P
    using assms(4) hm.len_remove_le [OF assms(2), of k] hm.len_retain_le [OF assms(2), of P] by linarith+
  then show ?thesis
    using put_bound [OF assms(1-3)] assms(4,5)
    by (cases call)
       (auto simp: perform_def cache_get_def contains_def cache_size_def evict_key_def clear_def Let_def
         purge_expired_def hm_len_def split: option.splits)
qed

lemma perform_capacity: "capacity (snd (perform order now call c)) = capacity c"
  by (cases call)
     (auto simp: perform_def cache_get_def contains_def cache_size_def evict_key_def clear_def put_def
       put_if_absent_def Let_def split: option.splits)

lemma run_bound:
  "yields_keys order \<Longrightarrow> sub_view (store c) A \<Longrightarrow> capacity c = Some cap \<Longrightarrow> hm_len (store c) \<le> cap \<Longrightarrow>
     \<forall>(now, call)\<in>set ops. \<forall>k v t. call \<noteq> PutIfAbsent k v t \<Longrightarrow> hm_len (store (snd (run_ops order ops c))) \<le> cap"
proof (induction ops arbitrary: c A)
  case (Cons p ops)
  obtain now call where p: "p = (now, call)" by (cases p)
  have ok: "hm_ok (store c)" using Cons.prems(2) by (simp add: sub_view_def)
  have "hm_len (store (snd (run_ops order ops (snd (perform order now call c))))) \<le> cap"
  proof (rule Cons.IH [OF Cons.prems(1) perform_sub_view [OF Cons.prems(2)]])
    show "hm_len (store (snd (perform order now call c))) \<le> cap"
      using Cons.prems(5) by (intro perform_bound [OF Cons.prems(1) ok Cons.prems(3,4)]) (simp add: p)
  qed (use Cons.prems in \<open>auto simp: perform_capacity\<close>)
  then show ?case by (simp add: p Let_def split_beta)
qed simp

text \<open>
  A bounded cache is sound and bounded. Whatever it evicts, and in whatever order the hash map
  yields its keys, after any sequence of calls a lookup gives nothing or the value last written to
  that key while it is alive; and as long as entries are stored with \<open>put\<close> there are never more
  of them than the capacity.
\<close>

theorem cache_bounded_sound:
  assumes "yields_keys order" and "run_ops order ops (with_capacity n) = (outs, c)"
  shows "(\<forall>k now v c'. cache_get now k c = (Some v, c') \<longrightarrow>
      (\<exists>e. writes ops outs Map.empty k = Some e \<and> \<not> is_expired now e \<and> v = entry_value e)) \<and>
    ((\<forall>(now, call)\<in>set ops. \<forall>k v t. call \<noteq> PutIfAbsent k v t) \<longrightarrow> hm_len (store c) \<le> max n 1)"
proof -
  have start: "sub_view (store (with_capacity n)) Map.empty"
    by (simp add: with_capacity_def sub_view_def)
  have view: "sub_view (store c) (writes ops outs Map.empty)"
    using run_sub_view [OF start, of order ops] assms(2) by simp
  have "\<exists>e. writes ops outs Map.empty k = Some e \<and> \<not> is_expired now e \<and> v = entry_value e"
    if "cache_get now k c = (Some v, c')" for k now v c'
  proof -
    from that obtain e where e: "hm_get (store c) k = Some e" "\<not> is_expired now e" "v = entry_value e"
      by (auto simp: cache_get_def split: option.splits if_splits)
    moreover have "writes ops outs Map.empty k = Some e" using view e(1) unfolding sub_view_def by metis
    ultimately show ?thesis by blast
  qed
  moreover have "hm_len (store c) \<le> max n 1" if "\<forall>(now, call)\<in>set ops. \<forall>k v t. call \<noteq> PutIfAbsent k v t"
    using run_bound [OF assms(1) start, of "max n 1" ops] that assms(2)
    by (simp add: with_capacity_def hm_len_def)
  ultimately show ?thesis by blast
qed

definition first_key :: "('k, 'v) store \<Rightarrow> 'k option" where
  "first_key m = (case m of [] \<Rightarrow> None | (k, _) # _ \<Rightarrow> Some k)"

lemma first_key_yields: "yields_keys first_key"
  by (auto simp: yields_keys_def first_key_def hm_get_def split: list.splits)

definition demo_ops :: "(nat \<times> (string, string) cache_op) list" where
  "demo_ops = [(0, Put ''a'' ''x'' Forever), (1, Put ''b'' ''y'' Forever), (2, Put ''c'' ''z'' (ttl_seconds 1))]"

theorem cache_bounded_sound_witness:
  "\<exists>outs c. run_ops first_key demo_ops (with_capacity 2) = (outs, c) \<and> fst (cache_get 3 ''b'' c) = Some ''y'' \<and>
     writes demo_ops outs Map.empty ''b'' = Some (new_entry 1 ''y'' Forever) \<and> hm_len (store c) \<le> 2"
proof -
  obtain outs c where run: "run_ops first_key demo_ops (with_capacity 2) = (outs, c)" by fastforce
  have get: "fst (cache_get 3 ''b'' (snd (run_ops first_key demo_ops (with_capacity 2)))) = Some ''y''"
    and len: "length (fst (run_ops first_key demo_ops (with_capacity 2))) = 3"
    by code_simp+
  from len run have "writes demo_ops outs Map.empty ''b'' = Some (new_entry 1 ''y'' Forever)"
    by (auto simp: demo_ops_def written_def length_Suc_conv numeral_3_eq_3)
  moreover have "hm_len (store c) \<le> 2"
    using cache_bounded_sound [OF first_key_yields run] by (auto simp: demo_ops_def)
  ultimately show ?thesis using run get by auto
qed

text \<open>\<open>put_if_absent\<close> does not look at the capacity.\<close>

lemma put_if_absent_unbounded:
  "hm_len (store (snd (run_ops first_key (map (\<lambda>k. (0, PutIfAbsent k ''v'' Forever)) [''a'', ''b'', ''c''])
      (with_capacity 1)))) = 3"
  by code_simp

end
