(* ===== verification/Static_Files.thy ===== *)
theory Static_Files
  imports Rust_Text
begin

text \<open>
  \<open>crates/kernway-static/src/lib.rs\<close>: the mapping of a request path to a file path, MIME types,
  content negotiation and entity tags.

  A Unix path is its text; \<open>push\<close> and \<open>components\<close> are those of \<open>std::path\<close>. Of a quality value
  only its sign matters: whether a text reads as an \<open>f32\<close>, and whether that is positive, is the
  function \<open>quality\<close>.
\<close>

section \<open>Paths\<close>

definition path_push :: "string \<Rightarrow> string \<Rightarrow> string" where
  "path_push p s =
     (if take 1 s = ''/'' then s
      else if p = [] \<or> last p = CHR ''/'' then p @ s
      else p @ ''/'' @ s)"

definition path_parts :: "string \<Rightarrow> string list" where
  "path_parts p = filter (\<lambda>s. s \<noteq> [] \<and> s \<noteq> ''.'') (split_on (CHR ''/'') p)"

definition path_absolute :: "string \<Rightarrow> bool" where
  "path_absolute p \<longleftrightarrow> take 1 p = ''/''"

text \<open>\<open>Path::starts_with\<close> compares whole components.\<close>

definition path_starts_with :: "string \<Rightarrow> string \<Rightarrow> bool" where
  "path_starts_with p base \<longleftrightarrow> path_absolute p = path_absolute base \<and>
     take (length (path_parts base)) (path_parts p) = path_parts base"

definition file_name :: "string \<Rightarrow> string option" where
  "file_name p =
     (if path_parts p = [] \<or> last (path_parts p) = ''..'' then None else Some (last (path_parts p)))"

definition extension :: "string \<Rightarrow> string option" where
  "extension p =
     (case file_name p of
        None \<Rightarrow> None
      | Some n \<Rightarrow>
          (case split_once (CHR ''.'') (rev n) of
             None \<Rightarrow> None
           | Some (ext, before) \<Rightarrow> if before = [] then None else Some (rev ext)))"

section \<open>Resolving a request path\<close>

datatype rejected = Traversal | Dotfile | IllegalByte | BadEncoding

record static_files =
  root :: string
  index_name :: string
  precompressed :: bool

definition static_new :: "string \<Rightarrow> static_files" where
  "static_new r = \<lparr>root = r, index_name = ''index.html'', precompressed = False\<rparr>"

definition set_index :: "static_files \<Rightarrow> string \<Rightarrow> static_files" where
  "set_index sf name = sf\<lparr>index_name := name\<rparr>"

definition set_precompressed :: "static_files \<Rightarrow> static_files" where
  "set_precompressed sf = sf\<lparr>precompressed := True\<rparr>"

definition hex_val :: "char \<Rightarrow> nat option" where
  "hex_val c =
     (if 48 \<le> ord c \<and> ord c \<le> 57 then Some (ord c - 48)
      else if 97 \<le> ord c \<and> ord c \<le> 102 then Some (ord c - 97 + 10)
      else if 65 \<le> ord c \<and> ord c \<le> 70 then Some (ord c - 65 + 10)
      else None)"

fun decode_from :: "string \<Rightarrow> rejected + string" where
  "decode_from [] = Inr []"
| "decode_from (c # cs) =
     (if c = CHR ''%'' then
        (case cs of
           h # l # rest \<Rightarrow>
             (case (hex_val h, hex_val l) of
                (Some h, Some l) \<Rightarrow> bind_run (decode_from rest) (\<lambda>out. Inr (char_of (h * 16 + l) # out))
              | _ \<Rightarrow> Inl BadEncoding)
         | _ \<Rightarrow> Inl BadEncoding)
      else bind_run (decode_from cs) (\<lambda>out. Inr (c # out)))"

definition percent_decode :: "string \<Rightarrow> rejected + string" where
  "percent_decode s =
     (if CHR ''%'' \<notin> set s then Inr s
      else bind_run (decode_from s) (\<lambda>out. if utf8_valid out then Inr out else Inl IllegalByte))"

definition illegal_byte :: "char \<Rightarrow> bool" where
  "illegal_byte c \<longleftrightarrow> ord c = 0 \<or> c = CHR 0x5C \<or> ord c < 32 \<or> ord c = 127"

fun push_segments :: "string \<Rightarrow> bool \<Rightarrow> string list \<Rightarrow> rejected + (string \<times> bool)" where
  "push_segments path named [] = Inr (path, named)"
| "push_segments path named (s # ss) =
     (if s = [] \<or> s = ''.'' then push_segments path named ss
      else if s = ''..'' then Inl Traversal
      else if take 1 s = ''.'' then Inl Dotfile
      else push_segments (path_push path s) True ss)"

definition ends_with :: "string \<Rightarrow> string \<Rightarrow> bool" where
  "ends_with suffix s \<longleftrightarrow> strip_suffix suffix s \<noteq> None"

definition resolve :: "static_files \<Rightarrow> string \<Rightarrow> rejected + string" where
  "resolve sf url_path =
     bind_run (percent_decode url_path) (\<lambda>decoded.
       if list_ex illegal_byte decoded then Inl IllegalByte
       else bind_run (push_segments (root sf) False (split_on (CHR ''/'') decoded)) (\<lambda>(path, named).
         if ends_with ''/'' decoded \<or> \<not> named then Inr (path_push path (index_name sf)) else Inr path))"

section \<open>Types, encodings and tags\<close>

definition mime_table :: "(string \<times> string) list" where
  "mime_table =
     [(''html'', ''text/html; charset=utf-8''), (''htm'', ''text/html; charset=utf-8''),
      (''css'', ''text/css; charset=utf-8''), (''js'', ''text/javascript; charset=utf-8''),
      (''mjs'', ''text/javascript; charset=utf-8''), (''json'', ''application/json; charset=utf-8''),
      (''svg'', ''image/svg+xml''), (''png'', ''image/png''), (''jpg'', ''image/jpeg''),
      (''jpeg'', ''image/jpeg''), (''gif'', ''image/gif''), (''webp'', ''image/webp''),
      (''ico'', ''image/x-icon''), (''woff2'', ''font/woff2''), (''woff'', ''font/woff''),
      (''ttf'', ''font/ttf''), (''txt'', ''text/plain; charset=utf-8''),
      (''xml'', ''application/xml; charset=utf-8''), (''wasm'', ''application/wasm''),
      (''pdf'', ''application/pdf''), (''mp3'', ''audio/mpeg''), (''m4a'', ''audio/mp4''),
      (''m4b'', ''audio/mp4''), (''aac'', ''audio/mp4''), (''oga'', ''audio/ogg''),
      (''ogg'', ''audio/ogg''), (''opus'', ''audio/opus''), (''wav'', ''audio/wav''),
      (''flac'', ''audio/flac''), (''mp4'', ''video/mp4''), (''m4v'', ''video/mp4''),
      (''webm'', ''video/webm''), (''mov'', ''video/quicktime'')]"

text \<open>An extension that is not valid UTF-8 has no entry in the table either.\<close>

definition mime_for :: "string \<Rightarrow> string" where
  "mime_for p =
     (case extension p of
        None \<Rightarrow> ''application/octet-stream''
      | Some e \<Rightarrow> (case map_of mime_table (map to_ascii_lowercase e) of
                     None \<Rightarrow> ''application/octet-stream'' | Some t \<Rightarrow> t))"

datatype encoding = Brotli | Gzip

definition PREFERENCE :: "encoding list" where
  "PREFERENCE = [Brotli, Gzip]"

fun encoding_token :: "encoding \<Rightarrow> string" where
  "encoding_token Brotli = ''br''"
| "encoding_token Gzip = ''gzip''"

fun encoding_extension :: "encoding \<Rightarrow> string" where
  "encoding_extension Brotli = ''.br''"
| "encoding_extension Gzip = ''.gz''"

definition q_param :: "(string \<Rightarrow> bool option) \<Rightarrow> string \<Rightarrow> bool option" where
  "q_param quality p =
     (let p = trim p in
      case (case strip_prefix ''q='' p of Some v \<Rightarrow> Some v | None \<Rightarrow> strip_prefix ''Q='' p) of
        None \<Rightarrow> None
      | Some v \<Rightarrow> quality (trim v))"

definition split_qvalue :: "(string \<Rightarrow> bool option) \<Rightarrow> string \<Rightarrow> string \<times> bool" where
  "split_qvalue quality part =
     (case split_once (CHR '';'') part of
        None \<Rightarrow> (part, True)
      | Some (name, params) \<Rightarrow>
          (trim name, case find_map (q_param quality) (split_on (CHR '';'') params) of
                        None \<Rightarrow> True | Some q \<Rightarrow> q))"

fun accept_loop :: "(string \<Rightarrow> bool option) \<Rightarrow> string \<Rightarrow> bool option \<Rightarrow> bool option \<Rightarrow> string list \<Rightarrow> bool" where
  "accept_loop quality token exact wildcard [] =
     (case exact of Some q \<Rightarrow> q | None \<Rightarrow> (case wildcard of Some q \<Rightarrow> q | None \<Rightarrow> False))"
| "accept_loop quality token exact wildcard (part # parts) =
     (let part = trim part in
      if part = [] then accept_loop quality token exact wildcard parts
      else (case split_qvalue quality part of
              (name, q) \<Rightarrow>
                if eq_ignore_ascii_case name token then accept_loop quality token (Some q) wildcard parts
                else if name = ''*'' then accept_loop quality token exact (Some q) parts
                else accept_loop quality token exact wildcard parts))"

definition is_accepted :: "(string \<Rightarrow> bool option) \<Rightarrow> string \<Rightarrow> string \<Rightarrow> bool" where
  "is_accepted quality hdr token = accept_loop quality token None None (split_on (CHR '','') hdr)"

definition accepted_encodings :: "(string \<Rightarrow> bool option) \<Rightarrow> string \<Rightarrow> encoding list" where
  "accepted_encodings quality hdr = filter (\<lambda>e. is_accepted quality hdr (encoding_token e)) PREFERENCE"

definition is_compressible :: "string \<Rightarrow> bool" where
  "is_compressible mime =
     (let base = trim (case split_on (CHR '';'') mime of [] \<Rightarrow> mime | b # _ \<Rightarrow> b) in
      strip_prefix ''text/'' base \<noteq> None \<or>
      base \<in> {''application/json'', ''application/xml'', ''application/javascript'',
              ''application/manifest+json'', ''application/wasm'', ''image/svg+xml'',
              ''font/ttf'', ''font/otf''})"

definition hex_lower :: "nat \<Rightarrow> char" where
  "hex_lower d = to_ascii_lowercase (hex_char d)"

fun show_hex :: "nat \<Rightarrow> string" where
  "show_hex n = (if n < 16 then [hex_lower n] else show_hex (n div 16) @ [hex_lower (n mod 16)])"

declare show_hex.simps [simp del]

definition etag :: "nat \<Rightarrow> nat \<Rightarrow> string" where
  "etag len mtime_nanos = [CHR 0x22] @ show_hex len @ ''-'' @ show_hex mtime_nanos @ [CHR 0x22]"

definition without_weak :: "string \<Rightarrow> string" where
  "without_weak s = (case strip_prefix ''W/'' s of None \<Rightarrow> s | Some t \<Rightarrow> t)"

definition etag_matches :: "string \<Rightarrow> string \<Rightarrow> bool" where
  "etag_matches if_none_match tag =
     (let inm = trim if_none_match in
      inm = ''*'' \<or> list_ex (\<lambda>c. without_weak (trim c) = without_weak tag) (split_on (CHR '','') inm))"

section \<open>Containment\<close>

lemma split_on_append_sep: "split_on c (a @ c # b) = split_on c a @ split_on c b"
proof (induction a)
  case (Cons x a)
  obtain p ps where "split_on c a = p # ps" by (cases "split_on c a") auto
  with Cons show ?case by auto
qed simp

lemma path_parts_append: "path_parts (a @ CHR ''/'' # b) = path_parts a @ path_parts b"
  by (simp add: path_parts_def split_on_append_sep)

definition good_segment :: "string \<Rightarrow> bool" where
  "good_segment s \<longleftrightarrow> s \<noteq> [] \<and> hd s \<noteq> CHR ''.'' \<and> CHR ''/'' \<notin> set s \<and> \<not> list_ex illegal_byte s"

lemma good_segment_parts: "good_segment s \<Longrightarrow> path_parts s = [s]"
  by (auto simp: good_segment_def path_parts_def split_on_absent)

lemma good_segment_first: "good_segment s \<Longrightarrow> take 1 s \<noteq> ''/'' \<and> take 1 s \<noteq> ''.''"
  by (cases s) (auto simp: good_segment_def)

lemma path_push_good:
  assumes "good_segment s"
  shows "path_parts (path_push p s) = path_parts p @ [s]" "path_absolute (path_push p s) = path_absolute p"
proof -
  note s = good_segment_parts [OF assms] good_segment_first [OF assms]
  consider "p = []" | q where "p = q @ ''/''" | "p \<noteq> []" "last p \<noteq> CHR ''/''"
    by (metis append_butlast_last_id)
  then have "path_parts (path_push p s) = path_parts p @ [s] \<and> path_absolute (path_push p s) = path_absolute p"
  proof cases
    case 1
    then show ?thesis using s by (auto simp: path_push_def path_absolute_def path_parts_def)
  next
    case 2
    have "path_parts (q @ ''/'') = path_parts q" using path_parts_append [of q "[]"] by (simp add: path_parts_def)
    then show ?thesis using 2 s path_parts_append [of q s]
      by (cases q) (auto simp: path_push_def path_absolute_def)
  next
    case 3
    then show ?thesis using s path_parts_append [of p s]
      by (cases p) (auto simp: path_push_def path_absolute_def)
  qed
  then show "path_parts (path_push p s) = path_parts p @ [s]" "path_absolute (path_push p s) = path_absolute p"
    by simp_all
qed

lemma split_on_members: "p \<in> set (split_on c s) \<Longrightarrow> x \<in> set p \<Longrightarrow> x \<in> set s"
  by (induction s arbitrary: p) (fastforce split: if_splits list.splits)+

lemma push_segments_good:
  assumes "push_segments path named ss = Inr (p, named')"
    and "\<forall>s\<in>set ss. CHR ''/'' \<notin> set s \<and> \<not> list_ex illegal_byte s"
  shows "\<exists>segs. list_all good_segment segs \<and> path_parts p = path_parts path @ segs \<and>
    path_absolute p = path_absolute path \<and> (named' \<longleftrightarrow> named \<or> segs \<noteq> [])"
  using assms
proof (induction path named ss rule: push_segments.induct)
  case (1 path named)
  then show ?case by (intro exI [of _ "[]"]) simp
next
  case (2 path named s ss)
  show ?case
  proof (cases "s = [] \<or> s = ''.''")
    case True
    with 2 show ?thesis by simp
  next
    case False
    then have s: "s \<noteq> ''..''" "take 1 s \<noteq> ''.''" and rest: "push_segments (path_push path s) True ss = Inr (p, named')"
      using 2(3) by (simp_all split: if_splits)
    have good: "good_segment s"
      using False s 2(4) by (cases s) (auto simp: good_segment_def)
    obtain segs where "list_all good_segment segs" "path_parts p = path_parts (path_push path s) @ segs"
      "path_absolute p = path_absolute (path_push path s)" "named'"
      using 2(2) [OF False s(1) s(2) rest] 2(4) by auto
    then show ?thesis using good
      by (intro exI [of _ "s # segs"]) (simp add: path_push_good [OF good])
  qed
qed

lemma push_segments_plain:
  "list_all good_segment segs \<Longrightarrow> \<exists>p. push_segments path named segs = Inr (p, named \<or> segs \<noteq> []) \<and>
     path_parts p = path_parts path @ segs \<and> path_absolute p = path_absolute path"
proof (induction segs arbitrary: path named)
  case (Cons s segs)
  then have good: "good_segment s" by simp
  then have "s \<noteq> []" "s \<noteq> ''.''" "s \<noteq> ''..''" "take 1 s \<noteq> ''.''"
    using good_segment_first [OF good] by (auto simp: good_segment_def)
  then show ?case using Cons.IH [of "path_push path s" True] Cons.prems path_push_good [OF good]
    by auto
qed simp

lemma path_starts_with_append:
  "path_parts p = path_parts base @ segs \<Longrightarrow> path_absolute p = path_absolute base \<Longrightarrow> path_starts_with p base"
  by (simp add: path_starts_with_def)

lemma split_on_join_slash: "list_all good_segment segs \<Longrightarrow> segs \<noteq> [] \<Longrightarrow> split_on (CHR ''/'') (join ''/'' segs) = segs"
  by (rule split_on_join) (auto simp: list_all_iff good_segment_def)

lemma join_members: "x \<in> set (join sep ps) \<Longrightarrow> x \<in> set sep \<or> (\<exists>p\<in>set ps. x \<in> set p)"
  by (induction sep ps rule: join.induct) auto

lemma illegal_slash [simp]: "\<not> illegal_byte (CHR ''/'')"
  by (simp add: illegal_byte_def)

lemma ends_with_slash: "ends_with ''/'' s \<longleftrightarrow> s \<noteq> [] \<and> last s = CHR ''/''"
proof -
  have "ends_with ''/'' s \<longleftrightarrow> (\<exists>t. s = t @ ''/'')" by (auto simp: ends_with_def strip_suffix_Some)
  then show ?thesis by (metis append_butlast_last_id last_snoc snoc_eq_iff_butlast)
qed

lemma last_join: "ps \<noteq> [] \<Longrightarrow> last ps \<noteq> [] \<Longrightarrow> join sep ps \<noteq> [] \<and> last (join sep ps) = last (last ps)"
  by (induction sep ps rule: join.induct) (auto split: if_splits)

text \<open>
  The mapping of request paths cannot be escaped and hides nothing else. Whatever the request
  path, however it is encoded, a resolved file path is the root followed by segments that are
  neither empty nor hidden (no leading dot, so no parent reference) and contain no separator,
  backslash or control byte, so it lies under the root component by component; and every path of
  such segments that needs no decoding resolves to exactly itself under the root.
\<close>

theorem static_resolve_contained:
  assumes "good_segment (index_name sf)"
  shows "(\<forall>url p. resolve sf url = Inr p \<longrightarrow> path_starts_with p (root sf) \<and>
      (\<exists>segs. list_all good_segment segs \<and> segs \<noteq> [] \<and> path_parts p = path_parts (root sf) @ segs)) \<and>
    (\<forall>segs. list_all good_segment segs \<and> segs \<noteq> [] \<and> (\<forall>s\<in>set segs. CHR ''%'' \<notin> set s) \<longrightarrow>
      (\<exists>p. resolve sf (''/'' @ join ''/'' segs) = Inr p \<and> path_parts p = path_parts (root sf) @ segs))"
proof (intro conjI allI impI)
  fix url p
  assume res: "resolve sf url = Inr p"
  then obtain d q named where d: "\<not> list_ex illegal_byte d"
    and q: "push_segments (root sf) False (split_on (CHR ''/'') d) = Inr (q, named)"
    and p: "p = (if ends_with ''/'' d \<or> \<not> named then path_push q (index_name sf) else q)"
    by (auto simp: resolve_def bind_run_Inr split: if_splits)
  have "\<forall>s\<in>set (split_on (CHR ''/'') d). CHR ''/'' \<notin> set s \<and> \<not> list_ex illegal_byte s"
    using d split_on_no_sep split_on_members by (fastforce simp: list_ex_iff)
  then obtain segs where segs: "list_all good_segment segs" "path_parts q = path_parts (root sf) @ segs"
      "path_absolute q = path_absolute (root sf)" "named \<longleftrightarrow> segs \<noteq> []"
    using push_segments_good [OF q] by auto
  have "\<exists>segs. list_all good_segment segs \<and> segs \<noteq> [] \<and> path_parts p = path_parts (root sf) @ segs \<and>
      path_absolute p = path_absolute (root sf)"
  proof (cases "ends_with ''/'' d \<or> \<not> named")
    case True
    then show ?thesis using segs assms p path_push_good [OF assms, of q]
      by (intro exI [of _ "segs @ [index_name sf]"]) simp
  next
    case False
    then show ?thesis using segs p by (intro exI [of _ segs]) simp
  qed
  then show "path_starts_with p (root sf)"
    "\<exists>segs. list_all good_segment segs \<and> segs \<noteq> [] \<and> path_parts p = path_parts (root sf) @ segs"
    by (auto intro: path_starts_with_append)
next
  fix segs
  assume "list_all good_segment segs \<and> segs \<noteq> [] \<and> (\<forall>s\<in>set segs. CHR ''%'' \<notin> set s)"
  then have good: "list_all good_segment segs" and ne: "segs \<noteq> []" and plain: "\<forall>s\<in>set segs. CHR ''%'' \<notin> set s"
    by auto
  let ?d = "''/'' @ join ''/'' segs"
  have "CHR ''%'' \<notin> set ?d" using plain join_members [of "CHR ''%''" "''/''" segs] by auto
  then have dec: "percent_decode ?d = Inr ?d" by (simp add: percent_decode_def)
  have legal: "\<not> list_ex illegal_byte ?d"
    using good join_members [of _ "''/''" segs] by (fastforce simp: list_ex_iff list_all_iff good_segment_def)
  have "split_on (CHR ''/'') ?d = [] # segs" using split_on_join_slash [OF good ne] by simp
  moreover obtain p where "push_segments (root sf) False segs = Inr (p, True)" "path_parts p = path_parts (root sf) @ segs"
    using push_segments_plain [OF good, of "root sf" False] ne by auto
  moreover have "last segs \<noteq> []" "last (last segs) \<noteq> CHR ''/''"
    using good ne by (auto simp: list_all_iff good_segment_def dest!: last_in_set bspec)
  then have "\<not> ends_with ''/'' ?d" using last_join [OF ne, of "''/''"] by (simp add: ends_with_slash)
  ultimately show "\<exists>p. resolve sf ?d = Inr p \<and> path_parts p = path_parts (root sf) @ segs"
    using dec legal by (simp add: resolve_def)
qed

text \<open>A style sheet at the top of the root.\<close>

theorem static_resolve_contained_witness:
  "\<exists>p. resolve (static_new ''public'') ''/style.css'' = Inr p \<and> path_parts p = [''public'', ''style.css'']"
proof -
  have "good_segment (index_name (static_new ''public''))" "good_segment ''style.css''"
    by (simp_all add: static_new_def good_segment_def illegal_byte_def)
  then show ?thesis
    using static_resolve_contained [of "static_new ''public''", THEN conjunct2, THEN spec, of "[''style.css'']"]
    by (auto simp: static_new_def path_parts_def)
qed

section \<open>Entity tags\<close>

lemma hex_digit_lower: "d < 16 \<Longrightarrow> hex_digit (hex_lower d) = Some d"
  by (auto simp: hex_lower_def hex_char_def to_ascii_lowercase_def hex_digit_def)

lemma hex_lower_inj:
  assumes "d < 16" "e < 16" "hex_lower d = hex_lower e"
  shows "d = e"
proof -
  have "Some d = Some e"
    using hex_digit_lower [OF assms(1)] hex_digit_lower [OF assms(2)] unfolding assms(3) by (rule trans [OF sym])
  then show ?thesis by (rule option.inject [THEN iffD1])
qed

lemma hex_lower_ord: "d < 16 \<Longrightarrow> 48 \<le> ord (hex_lower d) \<and> ord (hex_lower d) \<le> 102"
  by (auto simp: hex_lower_def hex_char_def to_ascii_lowercase_def)

lemma hex_lower_graphic: "d < 16 \<Longrightarrow> graphic (hex_lower d) \<and> hex_lower d \<notin> set ''*,-''"
  using hex_lower_ord [of d] by (auto simp: graphic_def)

lemma show_hex_ne: "show_hex n \<noteq> []"
  by (simp add: show_hex.simps [of n])

lemma show_hex_chars: "c \<in> set (show_hex n) \<Longrightarrow> graphic c \<and> c \<notin> set ''*,-''"
proof (induction n rule: show_hex.induct)
  case (1 n)
  then show ?case using hex_lower_graphic
    by (cases "n < 16") (auto simp: show_hex.simps [of n])
qed

lemma show_hex_inj: "show_hex n = show_hex m \<Longrightarrow> n = m"
proof (induction n arbitrary: m rule: show_hex.induct)
  case (1 n)
  show ?case
  proof (cases "n < 16")
    case True
    with "1.prems" show ?thesis
      by (auto simp: show_hex.simps [of n] show_hex.simps [of m] show_hex_ne show_hex_ne [symmetric] intro: hex_lower_inj split: if_splits)
  next
    case False
    with "1.prems" have "\<not> m < 16" "show_hex (n div 16) = show_hex (m div 16)" "hex_lower (n mod 16) = hex_lower (m mod 16)"
      by (auto simp: show_hex.simps [of n] show_hex.simps [of m] show_hex_ne show_hex_ne [symmetric] split: if_splits)
    then have "n div 16 = m div 16" "n mod 16 = m mod 16"
      using "1.IH" False by (auto intro: hex_lower_inj)
    then show ?thesis by (metis div_mult_mod_eq)
  qed
qed

lemma etag_inj: "etag l t = etag l' t' \<longleftrightarrow> l = l' \<and> t = t'"
proof
  assume eq: "etag l t = etag l' t'"
  have "CHR ''-'' \<notin> set (show_hex l)" "CHR ''-'' \<notin> set (show_hex l')" using show_hex_chars by fastforce+
  note split = this [THEN split_once_append]
  have "show_hex l @ CHR ''-'' # show_hex t @ [CHR 0x22] = show_hex l' @ CHR ''-'' # show_hex t' @ [CHR 0x22]"
    using eq by (simp add: etag_def)
  from arg_cong [OF this, of "split_once (CHR ''-'')"]
  have "show_hex l = show_hex l' \<and> show_hex t = show_hex t'" by (simp add: split)
  then show "l = l' \<and> t = t'" using show_hex_inj by blast
qed simp

lemma etag_chars: "c \<in> set (etag l t) \<Longrightarrow> graphic c \<and> c \<noteq> CHR '',''"
  using show_hex_chars by (fastforce simp: etag_def graphic_def)

lemma without_weak_etag: "without_weak (etag l t) = etag l t" "without_weak (''W/'' @ etag l t) = etag l t"
proof -
  have "strip_prefix ''W/'' (etag l t) = None"
    by (cases "strip_prefix ''W/'' (etag l t)") (auto simp: strip_prefix_Some etag_def)
  moreover have "strip_prefix ''W/'' (''W/'' @ etag l t) = Some (etag l t)" by (simp only: strip_prefix_Some)
  ultimately show "without_weak (etag l t) = etag l t" "without_weak (''W/'' @ etag l t) = etag l t"
    by (simp_all only: without_weak_def option.case)
qed

lemma graphic_trim: "\<forall>c\<in>set s. graphic c \<Longrightarrow> trim s = s"
  by (cases "s = []") (simp_all add: trim_trimmed trimmed_graphic)

lemma etag_matches_single:
  "trim s = s \<Longrightarrow> CHR '','' \<notin> set s \<Longrightarrow> s \<noteq> ''*'' \<Longrightarrow>
     etag_matches s tag \<longleftrightarrow> without_weak s = without_weak tag"
  by (simp add: etag_matches_def split_on_absent)

lemma tag_token:
  assumes "p = [] \<or> p = ''W/''"
  shows "trim (p @ etag l t) = p @ etag l t" "CHR '','' \<notin> set (p @ etag l t)" "p @ etag l t \<noteq> ''*''"
proof -
  have "\<forall>c\<in>set (p @ etag l t). graphic c \<and> c \<noteq> CHR '',''"
    using assms etag_chars [of _ l t] by (auto simp: graphic_def)
  then show "trim (p @ etag l t) = p @ etag l t" "CHR '','' \<notin> set (p @ etag l t)"
    using graphic_trim by blast+
  show "p @ etag l t \<noteq> ''*''" using assms by (auto simp: etag_def)
qed

lemma etag_matches_etag:
  "etag_matches (etag l t) (etag l' t') \<longleftrightarrow> l = l' \<and> t = t'"
  "etag_matches (''W/'' @ etag l t) (etag l' t') \<longleftrightarrow> l = l' \<and> t = t'"
proof -
  have "etag_matches ([] @ etag l t) (etag l' t') \<longleftrightarrow> without_weak ([] @ etag l t) = without_weak (etag l' t')"
    by (rule etag_matches_single [OF tag_token]) simp_all
  then show "etag_matches (etag l t) (etag l' t') \<longleftrightarrow> l = l' \<and> t = t'"
    unfolding append.simps without_weak_etag etag_inj .
  have "etag_matches (''W/'' @ etag l t) (etag l' t') \<longleftrightarrow> without_weak (''W/'' @ etag l t) = without_weak (etag l' t')"
    by (rule etag_matches_single [OF tag_token]) simp_all
  then show "etag_matches (''W/'' @ etag l t) (etag l' t') \<longleftrightarrow> l = l' \<and> t = t'"
    unfolding without_weak_etag etag_inj .
qed

end
