(* ===== verification/Server_Static.thy ===== *)
theory Server_Static
  imports Static_Files Http_Message Router
begin

text \<open>
  Static files in the server, \<open>crates/kernway-server/src/app.rs\<close>: the lookup on disk with the
  symbolic-link check, content negotiation, conditional requests and byte ranges.

  The file system is a record of two functions, \<open>canonicalize\<close> and \<open>metadata\<close>, as \<open>std::fs\<close>
  answers at the time of the request. The blocking pool, which yields nothing only when the
  closure panics, is left out.
\<close>

section \<open>Byte ranges\<close>

datatype range_spec = FullRange | Satisfiable nat nat | Unsatisfiable

definition parse_range :: "string \<Rightarrow> nat \<Rightarrow> range_spec" where
  "parse_range hdr len =
     (case strip_prefix ''bytes='' (trim hdr) of
        None \<Rightarrow> FullRange
      | Some spec0 \<Rightarrow>
          let spec = trim spec0 in
          if CHR '','' \<in> set spec then FullRange
          else (case split_once (CHR ''-'') spec of
                  None \<Rightarrow> FullRange
                | Some (a, b) \<Rightarrow>
                    let bounds =
                      (if a = [] then
                         (case parse_u64 b of
                            None \<Rightarrow> Inl FullRange
                          | Some n \<Rightarrow>
                              if n = 0 then Inl Unsatisfiable
                              else if n \<ge> len then Inr (0, len - 1)
                              else Inr (len - n, len - 1))
                       else
                         (case parse_u64 a of
                            None \<Rightarrow> Inl FullRange
                          | Some start \<Rightarrow>
                              if b = [] then Inr (start, len - 1)
                              else (case parse_u64 b of
                                      None \<Rightarrow> Inl FullRange
                                    | Some end_ \<Rightarrow> Inr (start, min end_ (len - 1)))))
                    in case bounds of
                         Inl r \<Rightarrow> r
                       | Inr (start, end_incl) \<Rightarrow>
                           if len = 0 \<or> start \<ge> len \<or> start > end_incl then Unsatisfiable
                           else Satisfiable start (end_incl + 1)))"

definition set_header :: "string \<Rightarrow> string \<Rightarrow> 's response \<Rightarrow> 's response run" where
  "set_header name v r =
     bind_run (fields_insert True (resp_headers r) name v) (\<lambda>h. Inr (r\<lparr>resp_headers := h\<rparr>))"

definition apply_range :: "'s response \<Rightarrow> string \<Rightarrow> nat \<Rightarrow> 's response run" where
  "apply_range r hdr len =
     (case parse_range hdr len of
        FullRange \<Rightarrow> Inr r
      | Satisfiable s e \<Rightarrow>
          bind_run (set_header ''content-range''
              (''bytes '' @ show_nat s @ ''-'' @ show_nat (e - 1) @ ''/'' @ show_nat len)
              (r\<lparr>resp_status := 206\<rparr>))
            (\<lambda>r. Inr (case resp_body r of File p l rng \<Rightarrow> r\<lparr>resp_body := File p l (Some (s, e))\<rparr> | _ \<Rightarrow> r))
      | Unsatisfiable \<Rightarrow>
          bind_run (set_header ''content-range'' (''bytes */'' @ show_nat len) (r\<lparr>resp_status := 416\<rparr>))
            (\<lambda>r. Inr (r\<lparr>resp_body := Empty\<rparr>)))"

section \<open>Files\<close>

record file_meta =
  is_file :: bool
  meta_len :: nat
  modified :: "nat option" \<comment> \<open>nanoseconds since the epoch, where the system has them\<close>

record file_system =
  canonicalize :: "string \<Rightarrow> string option"
  metadata :: "string \<Rightarrow> file_meta option"

datatype static_outcome =
    NotModified (om_etag: string) (om_vary: bool)
  | ServeFile (of_path: string) (of_len: nat) (om_etag: string) (of_mime: string)
      (of_encoding: "string option") (om_vary: bool)

definition into_response :: "string \<Rightarrow> static_outcome \<Rightarrow> 's response run" where
  "into_response cache_control out =
     (case out of
        NotModified tag vary \<Rightarrow>
          bind_run (set_header ''etag'' tag (response_new 304)) (\<lambda>r.
          bind_run (set_header ''cache-control'' cache_control r) (\<lambda>r.
          if vary then set_header ''vary'' ''Accept-Encoding'' r else Inr r))
      | ServeFile path len tag mime enc vary \<Rightarrow>
          bind_run (content_type (response_new 200) mime) (\<lambda>r.
          bind_run (set_header ''etag'' tag (with_file r path len)) (\<lambda>r.
          bind_run (set_header ''cache-control'' cache_control r) (\<lambda>r.
          bind_run (set_header ''x-content-type-options'' ''nosniff'' r) (\<lambda>r.
          bind_run (set_header ''accept-ranges'' ''bytes'' r) (\<lambda>r.
          bind_run (case enc of None \<Rightarrow> Inr r | Some e \<Rightarrow> set_header ''content-encoding'' e r) (\<lambda>r.
          if vary then set_header ''vary'' ''Accept-Encoding'' r else Inr r)))))))"

definition with_suffix :: "string \<Rightarrow> string \<Rightarrow> string" where
  "with_suffix path suffix = path @ suffix"

text \<open>The search for a precompressed variant: the first accepted encoding with a file under the root.\<close>

definition find_variant :: "file_system \<Rightarrow> string \<Rightarrow> string \<Rightarrow> encoding list \<Rightarrow> (string \<times> file_meta \<times> string) option" where
  "find_variant fs canon_root canon encs =
     find_map (\<lambda>enc.
       case canonicalize fs (with_suffix canon (encoding_extension enc)) of
         None \<Rightarrow> None
       | Some vc \<Rightarrow>
           if \<not> path_starts_with vc canon_root then None
           else (case metadata fs vc of
                   None \<Rightarrow> None
                 | Some vm \<Rightarrow> if is_file vm then Some (vc, vm, encoding_token enc) else None)) encs"

definition tag_of :: "file_meta \<Rightarrow> string" where
  "tag_of m = etag (meta_len m) (case modified m of None \<Rightarrow> 0 | Some t \<Rightarrow> t)"

text \<open>The last steps \<open>load_static\<close> and \<open>stat_file\<close> share: the validator decides.\<close>

definition revalidate :: "string option \<Rightarrow> static_outcome \<Rightarrow> static_outcome" where
  "revalidate if_none_match out =
     (case if_none_match of
        None \<Rightarrow> out
      | Some inm \<Rightarrow> if etag_matches inm (om_etag out) then NotModified (om_etag out) (om_vary out) else out)"

definition load_static :: "file_system \<Rightarrow> (string \<Rightarrow> bool option) \<Rightarrow> string \<Rightarrow> string \<Rightarrow> string option \<Rightarrow>
    string option \<Rightarrow> static_outcome option" where
  "load_static fs quality rt path if_none_match accept_encoding =
     (case (canonicalize fs path, canonicalize fs rt) of
        (Some canon, Some canon_root) \<Rightarrow>
          if \<not> path_starts_with canon canon_root then None
          else (case metadata fs canon of
                  None \<Rightarrow> None
                | Some meta \<Rightarrow>
                    if \<not> is_file meta then None
                    else
                      let mime = mime_for path;
                          vary = (accept_encoding \<noteq> None \<and> is_compressible mime);
                          variant =
                            (if vary then
                               (case accept_encoding of
                                  None \<Rightarrow> None
                                | Some ae \<Rightarrow> find_variant fs canon_root canon (accepted_encodings quality ae))
                             else None)
                      in (case variant of
                            Some (vc, vm, token) \<Rightarrow>
                              Some (revalidate if_none_match (ServeFile vc (meta_len vm) (tag_of vm) mime (Some token) vary))
                          | None \<Rightarrow>
                              Some (revalidate if_none_match (ServeFile canon (meta_len meta) (tag_of meta) mime None vary))))
      | _ \<Rightarrow> None)"

definition stat_file :: "file_system \<Rightarrow> string \<Rightarrow> string option \<Rightarrow> static_outcome option" where
  "stat_file fs path if_none_match =
     (case canonicalize fs path of
        None \<Rightarrow> None
      | Some canon \<Rightarrow>
          (case metadata fs canon of
             None \<Rightarrow> None
           | Some meta \<Rightarrow>
               if \<not> is_file meta then None
               else Some (revalidate if_none_match
                      (ServeFile canon (meta_len meta) (tag_of meta) (mime_for canon) None False))))"

text \<open>A byte range applies to a file body only.\<close>

definition with_range :: "request \<Rightarrow> 's response \<Rightarrow> 's response run" where
  "with_range req r =
     (case (resp_body r, header req ''range'') of
        (File _ len _, Some hdr) \<Rightarrow> apply_range r hdr len
      | _ \<Rightarrow> Inr r)"

definition try_static :: "file_system \<Rightarrow> (string \<Rightarrow> bool option) \<Rightarrow> static_files option \<Rightarrow> 'h node \<Rightarrow> request \<Rightarrow>
    's response option run" where
  "try_static fs quality static router req =
     (case static of
        None \<Rightarrow> Inr None
      | Some sf \<Rightarrow>
          if \<not> eq_ignore_ascii_case (req_method req) ''GET'' \<and> \<not> eq_ignore_ascii_case (req_method req) ''HEAD''
          then Inr None
          else if find_route router (req_method req) (req_path req) \<noteq> None then Inr None
          else (case resolve sf (req_path req) of
                  Inl _ \<Rightarrow> Inr None
                | Inr path \<Rightarrow>
                    let accept = (if precompressed sf
                                  then Some (case header req ''accept-encoding'' of None \<Rightarrow> [] | Some a \<Rightarrow> a)
                                  else None)
                    in case load_static fs quality (root sf) path (header req ''if-none-match'') accept of
                         None \<Rightarrow> Inr None
                       | Some out \<Rightarrow>
                           bind_run (into_response ''no-cache'' out) (\<lambda>r.
                           bind_run (with_range req r) (\<lambda>r. Inr (Some r)))))"

definition serve_file :: "file_system \<Rightarrow> request \<Rightarrow> string \<Rightarrow> string \<Rightarrow> 's response run" where
  "serve_file fs req path cache_control =
     (case stat_file fs path (header req ''if-none-match'') of
        None \<Rightarrow>
          bind_run (content_type (response_new 404) ''text/plain; charset=utf-8'')
            (\<lambda>r. Inr (with_body r ''404 not found''))
      | Some out \<Rightarrow> bind_run (into_response cache_control out) (with_range req))"

section \<open>Lemmas on ranges\<close>

lemma parse_range_bounds: "parse_range hdr len = Satisfiable s e \<Longrightarrow> s < e \<and> e \<le> len"
  by (auto simp: parse_range_def Let_def split: option.splits if_splits prod.splits sum.splits)

lemma show_nat_graphic: "c \<in> set (show_nat n) \<Longrightarrow> graphic c"
  using show_nat_digits [of c n] by (simp add: graphic_def)

lemma range_text:
  assumes "\<forall>c\<in>set (a @ b). graphic c" "CHR '','' \<notin> set a" "CHR '','' \<notin> set b" "CHR ''-'' \<notin> set a"
  shows "trim (''bytes='' @ a @ ''-'' @ b) = ''bytes='' @ a @ ''-'' @ b"
    and "trim (a @ ''-'' @ b) = a @ ''-'' @ b"
    and "CHR '','' \<notin> set (a @ ''-'' @ b)"
    and "split_once (CHR ''-'') (a @ ''-'' @ b) = Some (a, b)"
proof -
  show "trim (''bytes='' @ a @ ''-'' @ b) = ''bytes='' @ a @ ''-'' @ b" "trim (a @ ''-'' @ b) = a @ ''-'' @ b"
    using assms(1) by (auto intro!: graphic_trim simp: graphic_def)
qed (use assms in auto)

lemma strip_bytes: "strip_prefix ''bytes='' (''bytes='' @ s) = Some s"
  by (simp only: strip_prefix_Some)

lemma parse_range_text:
  assumes "\<forall>c\<in>set (a @ b). graphic c" "CHR '','' \<notin> set a" "CHR '','' \<notin> set b" "CHR ''-'' \<notin> set a"
  shows "parse_range (''bytes='' @ a @ ''-'' @ b) len =
    (case (if a = [] then
             (case parse_u64 b of None \<Rightarrow> Inl FullRange
              | Some n \<Rightarrow> if n = 0 then Inl Unsatisfiable else if n \<ge> len then Inr (0, len - 1) else Inr (len - n, len - 1))
           else
             (case parse_u64 a of None \<Rightarrow> Inl FullRange
              | Some start \<Rightarrow> if b = [] then Inr (start, len - 1)
                  else (case parse_u64 b of None \<Rightarrow> Inl FullRange | Some end_ \<Rightarrow> Inr (start, min end_ (len - 1))))) of
       Inl r \<Rightarrow> r
     | Inr (start, end_incl) \<Rightarrow>
         if len = 0 \<or> start \<ge> len \<or> start > end_incl then Unsatisfiable else Satisfiable start (end_incl + 1))"
  unfolding parse_range_def range_text(1) [OF assms] strip_bytes Let_def option.case range_text(2) [OF assms]
    range_text(4) [OF assms] prod.case
  using range_text(3) [OF assms] by simp

lemmas show_nat_range = show_nat_graphic show_nat_absent [of "CHR '',''"] show_nat_absent [of "CHR ''-''"]

lemma parse_range_between:
  "a \<le> u64_max \<Longrightarrow> b \<le> u64_max \<Longrightarrow>
     parse_range (''bytes='' @ show_nat a @ ''-'' @ show_nat b) len =
       (if a \<le> b \<and> a < len then Satisfiable a (min (b + 1) len) else Unsatisfiable)"
  by (subst parse_range_text) (auto simp: show_nat_range)

lemma parse_range_from:
  "a \<le> u64_max \<Longrightarrow> parse_range (''bytes='' @ show_nat a @ ''-'') len =
     (if a < len then Satisfiable a len else Unsatisfiable)"
  using parse_range_text [of "show_nat a" "[]" len] by (auto simp: show_nat_range)

lemma parse_range_suffix:
  "n \<le> u64_max \<Longrightarrow> parse_range (''bytes=-'' @ show_nat n) len =
     (if n = 0 \<or> len = 0 then Unsatisfiable else Satisfiable (len - n) len)"
proof -
  assume "n \<le> u64_max"
  then have "parse_range (''bytes='' @ [] @ ''-'' @ show_nat n) len =
      (if n = 0 \<or> len = 0 then Unsatisfiable else Satisfiable (len - n) len)"
    by (subst parse_range_text) (auto simp: show_nat_range)
  then show ?thesis by (simp only: append.simps)
qed

lemma mod_wrap_diff: assumes "s < e" "e < (M::nat)" shows "(e + M - s) mod M = e - s"
proof -
  have "e + M - s = (e - s) + M" using assms by linarith
  then have "(e + M - s) mod M = (e - s) mod M" by (simp only: mod_add_self2)
  then show ?thesis using assms by simp
qed
lemma wrapping_sub64_plain:
  assumes "s < e" "e \<le> u64_max"
  shows "wrapping_sub64 e s = e - s"
proof -
  have "e < 2 ^ 64" using assms(2) by (simp add: u64_max_def)
  then show ?thesis unfolding wrapping_sub64_def by (rule mod_wrap_diff [OF assms(1)])
qed

text \<open>
  Byte ranges are cut exactly. Whatever the header, an accepted range is a nonempty part of the
  file, and the response says so: status 206, the file body limited to it and a length of exactly
  its size. A closed range, an open range and a suffix range select the bytes RFC 9110 gives them,
  clipped to the file; an unsatisfiable one is answered with status 416 and no body, and the
  response without a usable range is untouched.
\<close>

theorem range_exact:
  assumes "resp_status r = 200" "resp_body r = File p len None" "apply_range r hdr len = Inr r'"
  shows "(case parse_range hdr len of
      FullRange \<Rightarrow> r' = r
    | Satisfiable s e \<Rightarrow> s < e \<and> e \<le> len \<and> resp_status r' = 206 \<and> resp_body r' = File p len (Some (s, e)) \<and>
        (len \<le> u64_max \<longrightarrow> body_len (resp_body r') = e - s)
    | Unsatisfiable \<Rightarrow> resp_status r' = 416 \<and> resp_body r' = Empty) \<and>
    (\<forall>a b. a \<le> u64_max \<and> b \<le> u64_max \<longrightarrow>
       parse_range (''bytes='' @ show_nat a @ ''-'' @ show_nat b) len =
         (if a \<le> b \<and> a < len then Satisfiable a (min (b + 1) len) else Unsatisfiable) \<and>
       parse_range (''bytes='' @ show_nat a @ ''-'') len = (if a < len then Satisfiable a len else Unsatisfiable) \<and>
       parse_range (''bytes=-'' @ show_nat b) len =
         (if b = 0 \<or> len = 0 then Unsatisfiable else Satisfiable (len - b) len))"
proof -
  have wrap: "wrapping_sub64 e s = e - s" if "s < e" "e \<le> u64_max" for s e
    using that by (rule wrapping_sub64_plain)
  have "(case parse_range hdr len of
      FullRange \<Rightarrow> r' = r
    | Satisfiable s e \<Rightarrow> s < e \<and> e \<le> len \<and> resp_status r' = 206 \<and> resp_body r' = File p len (Some (s, e)) \<and>
        (len \<le> u64_max \<longrightarrow> body_len (resp_body r') = e - s)
    | Unsatisfiable \<Rightarrow> resp_status r' = 416 \<and> resp_body r' = Empty)"
    using assms parse_range_bounds [of hdr len]
    by (cases "parse_range hdr len")
       (auto simp: apply_range_def set_header_def bind_run_Inr wrap)
  then show ?thesis using parse_range_between parse_range_from parse_range_suffix by blast
qed

definition demo_file_response :: "unit response" where
  "demo_file_response = with_file (response_new 200) ''/srv/a'' 10"

theorem range_exact_witness:
  "\<exists>r'. apply_range demo_file_response ''bytes=2-5'' 10 = Inr r' \<and> resp_status r' = 206 \<and>
     resp_body r' = File ''/srv/a'' 10 (Some (2, 6))"
proof -
  have parsed: "parse_range ''bytes=2-5'' 10 = Satisfiable 2 6" by code_simp
  obtain g where "fields_insert True fields_new ''content-range'' ''bytes 2-5/10'' = Inr g"
    using fields_insert_total [of fields_new "''content-range''" "''bytes 2-5/10''"] by (auto simp: fields_new_def u32_max_def)
  moreover have "''bytes '' @ show_nat 2 @ ''-'' @ show_nat (6 - 1) @ ''/'' @ show_nat 10 = ''bytes 2-5/10''"
    by code_simp
  ultimately obtain r' where r': "apply_range demo_file_response ''bytes=2-5'' 10 = Inr r'"
    by (auto simp: apply_range_def parsed set_header_def demo_file_response_def with_file_def response_new_def)
  then show ?thesis
    using range_exact [OF _ _ r', of "''/srv/a''"] parsed
    by (simp add: demo_file_response_def with_file_def response_new_def)
qed

section \<open>What is served\<close>

lemma set_header_keeps:
  "set_header n v r = Inr r' \<Longrightarrow> resp_status r' = resp_status r \<and> resp_body r' = resp_body r"
  by (auto simp: set_header_def bind_run_Inr)

lemma content_type_keeps:
  "content_type r ct = Inr r' \<Longrightarrow> resp_status r' = resp_status r \<and> resp_body r' = resp_body r"
  by (auto simp: content_type_def bind_run_Inr)

lemma into_response_shape:
  "into_response cc out = Inr r \<Longrightarrow>
     (case out of
        NotModified tag vary \<Rightarrow> resp_status r = 304 \<and> resp_body r = Empty
      | ServeFile p len tag mime enc vary \<Rightarrow> resp_status r = 200 \<and> resp_body r = File p len None)"
  by (auto simp: into_response_def bind_run_Inr response_new_def with_file_def
      split: static_outcome.splits option.splits if_splits
      dest!: set_header_keeps content_type_keeps)

lemma apply_range_shape:
  assumes "apply_range r hdr len = Inr r'" "resp_body r = File p len None" "resp_status r = 200"
  shows "r' = r \<or> (resp_status r' = 416 \<and> resp_body r' = Empty) \<or>
    (\<exists>s e. s < e \<and> e \<le> len \<and> resp_status r' = 206 \<and> resp_body r' = File p len (Some (s, e)))"
  using assms parse_range_bounds [of hdr len]
  by (cases "parse_range hdr len") (auto simp: apply_range_def bind_run_Inr dest!: set_header_keeps)

text \<open>A file outcome names a regular file under the canonical root, with its length and tag.\<close>

definition outcome_of :: "file_system \<Rightarrow> string \<Rightarrow> static_outcome \<Rightarrow> bool" where
  "outcome_of fs canon_root out \<longleftrightarrow>
     (\<exists>p m mime enc vary. metadata fs p = Some m \<and> is_file m \<and> path_starts_with p canon_root \<and>
        out = ServeFile p (meta_len m) (tag_of m) mime enc vary)"

lemma find_variant_some:
  "find_variant fs canon_root canon encs = Some (vc, vm, tok) \<Longrightarrow>
     metadata fs vc = Some vm \<and> is_file vm \<and> path_starts_with vc canon_root"
  unfolding find_variant_def
  by (induction encs) (auto split: option.splits if_splits)

lemma revalidate_None [simp]: "revalidate None out = out"
  by (simp add: revalidate_def)

definition chosen :: "file_system \<Rightarrow> (string \<Rightarrow> bool option) \<Rightarrow> string \<Rightarrow> string \<Rightarrow> string \<Rightarrow> file_meta \<Rightarrow>
    string option \<Rightarrow> static_outcome" where
  "chosen fs quality path canon_root canon meta ae =
     (let mime = mime_for path; vary = (ae \<noteq> None \<and> is_compressible mime);
          variant = (if vary then (case ae of None \<Rightarrow> None
            | Some ae \<Rightarrow> find_variant fs canon_root canon (accepted_encodings quality ae)) else None)
      in case variant of
           Some (vc, vm, token) \<Rightarrow> ServeFile vc (meta_len vm) (tag_of vm) mime (Some token) vary
         | None \<Rightarrow> ServeFile canon (meta_len meta) (tag_of meta) mime None vary)"

lemma chosen_outcome:
  "path_starts_with canon canon_root \<Longrightarrow> metadata fs canon = Some meta \<Longrightarrow> is_file meta \<Longrightarrow>
     outcome_of fs canon_root (chosen fs quality path canon_root canon meta ae)"
  unfolding chosen_def outcome_of_def Let_def
  by (auto split: option.splits if_splits dest!: find_variant_some)

lemma load_static_chosen:
  assumes "canonicalize fs path = Some canon" "canonicalize fs rt = Some canon_root"
    "path_starts_with canon canon_root" "metadata fs canon = Some meta" "is_file meta"
  shows "load_static fs quality rt path inm ae =
    Some (revalidate inm (chosen fs quality path canon_root canon meta ae))"
  unfolding load_static_def chosen_def assms(1,2,4) prod.case option.case Let_def
  using assms(3,5) by (auto split: option.split)

lemma load_static_found:
  assumes "load_static fs quality rt path inm ae = Some out"
  shows "\<exists>canon canon_root meta. canonicalize fs path = Some canon \<and> canonicalize fs rt = Some canon_root \<and>
    path_starts_with canon canon_root \<and> metadata fs canon = Some meta \<and> is_file meta"
proof (cases "canonicalize fs path"; cases "canonicalize fs rt")
  fix canon canon_root
  assume c: "canonicalize fs path = Some canon" "canonicalize fs rt = Some canon_root"
  note open_def = assms [unfolded load_static_def c prod.case option.case]
  have s: "path_starts_with canon canon_root"
  proof (rule ccontr)
    assume "\<not> path_starts_with canon canon_root"
    from open_def [unfolded if_P [OF this]] show False by simp
  qed
  note open_def = open_def [unfolded if_not_P [OF not_not [THEN iffD2, OF s]]]
  show ?thesis
  proof (cases "metadata fs canon")
    case None
    from open_def [unfolded None option.case] show ?thesis by simp
  next
    case (Some meta)
    have "is_file meta"
    proof (rule ccontr)
      assume "\<not> is_file meta"
      from open_def [unfolded Some option.case if_P [OF this]] show False by simp
    qed
    with c s Some show ?thesis by blast
  qed
qed (use assms in \<open>simp_all add: load_static_def\<close>)

lemma load_static_outcome:
  assumes "load_static fs quality rt path inm ae = Some out"
  shows "\<exists>canon_root out0. canonicalize fs rt = Some canon_root \<and> outcome_of fs canon_root out0 \<and>
    (\<forall>inm. load_static fs quality rt path inm ae = Some (revalidate inm out0))"
proof -
  obtain canon canon_root meta where f: "canonicalize fs path = Some canon" "canonicalize fs rt = Some canon_root"
    "path_starts_with canon canon_root" "metadata fs canon = Some meta" "is_file meta"
    using load_static_found [OF assms] by blast
  show ?thesis using f(2) chosen_outcome [OF f(3-5)] load_static_chosen [OF f] by blast
qed

lemma revalidate_file: "revalidate inm out = ServeFile p l tg mime enc vary \<Longrightarrow> out = ServeFile p l tg mime enc vary"
  by (auto simp: revalidate_def split: option.splits if_splits)

text \<open>
  C17: Static serving cannot leave its root. Whatever the request and whatever links the file system
  holds, a response that carries a file answers a \<open>GET\<close> or \<open>HEAD\<close> that no route claims, and the
  file, a precompressed variant included, is a regular file whose canonical path lies under the
  canonical root, sent with its true length and with status 200 in full or 206 with a range inside it. A
  response without a file is 304 or 416 and has an empty body.
\<close>

theorem static_no_escape:
  assumes "try_static fs quality static router req = Inr (Some r)"
  shows "\<exists>sf canon_root. static = Some sf \<and> canonicalize fs (root sf) = Some canon_root \<and>
    (eq_ignore_ascii_case (req_method req) ''GET'' \<or> eq_ignore_ascii_case (req_method req) ''HEAD'') \<and>
    find_route router (req_method req) (req_path req) = None \<and>
    (resp_body r = Empty \<and> (resp_status r = 304 \<or> resp_status r = 416) \<or>
     (\<exists>p m rng. resp_body r = File p (meta_len m) rng \<and> metadata fs p = Some m \<and> is_file m \<and>
        path_starts_with p canon_root \<and>
        (rng = None \<and> resp_status r = 200 \<or>
         (\<exists>s e. rng = Some (s, e) \<and> s < e \<and> e \<le> meta_len m \<and> resp_status r = 206))))"
proof -
  obtain sf where sf: "static = Some sf" using assms by (auto simp: try_static_def split: option.splits)
  let ?ae = "if precompressed sf then Some (case header req ''accept-encoding'' of None \<Rightarrow> [] | Some a \<Rightarrow> a) else None"
  obtain path out r0 where m: "eq_ignore_ascii_case (req_method req) ''GET'' \<or> eq_ignore_ascii_case (req_method req) ''HEAD''"
      "find_route router (req_method req) (req_path req) = None"
    and out: "load_static fs quality (root sf) path (header req ''if-none-match'') ?ae = Some out"
    and r0: "into_response ''no-cache'' out = Inr r0" and r: "with_range req r0 = Inr r"
    using assms unfolding try_static_def sf Let_def option.case
    by (auto simp: bind_run_Inr simp del: not_None_eq split: if_splits sum.splits option.splits)
  obtain canon_root out0 where root: "canonicalize fs (root sf) = Some canon_root" "outcome_of fs canon_root out0"
      "out = revalidate (header req ''if-none-match'') out0"
    using load_static_outcome [OF out] out by (metis option.inject)
  have body: "resp_body r = Empty \<and> (resp_status r = 304 \<or> resp_status r = 416) \<or>
     (\<exists>p m rng. resp_body r = File p (meta_len m) rng \<and> metadata fs p = Some m \<and> is_file m \<and>
        path_starts_with p canon_root \<and> (rng = None \<and> resp_status r = 200 \<or>
         (\<exists>s e. rng = Some (s, e) \<and> s < e \<and> e \<le> meta_len m \<and> resp_status r = 206)))"
  proof (cases out)
    case (NotModified tag vary)
    then show ?thesis using into_response_shape [OF r0] r by (simp add: with_range_def)
  next
    case (ServeFile p len tag mime enc vary)
    then have "out0 = ServeFile p len tag mime enc vary" using root(3) revalidate_file by metis
    then obtain m where m: "metadata fs p = Some m" "is_file m" "path_starts_with p canon_root" "len = meta_len m"
      using root(2) by (auto simp: outcome_of_def)
    have r0': "resp_status r0 = 200" "resp_body r0 = File p len None"
      using into_response_shape [OF r0] ServeFile by auto
    show ?thesis
    proof (cases "header req ''range''")
      case None
      then have "r = r0" using r r0' by (simp add: with_range_def)
      then show ?thesis using r0' m by blast
    next
      case (Some hdr)
      then have "apply_range r0 hdr len = Inr r" using r r0' by (simp add: with_range_def)
      then show ?thesis using apply_range_shape [OF _ r0'(2) r0'(1)] r0' m by blast
    qed
  qed
  then show ?thesis using sf root(1) m by blast
qed

text \<open>
  Conditional requests are answered by the state of the file. Without a validator the outcome
  sends a regular file, and for the tag of any earlier length and modification time, strong or
  weak, the answer is "not modified" exactly when both are still those of the file that would be
  sent; otherwise the file is sent as without a validator.
\<close>

theorem static_conditional:
  assumes "load_static fs quality rt path None ae = Some out"
  shows "\<exists>p m. metadata fs p = Some m \<and> is_file m \<and> of_path out = p \<and> of_len out = meta_len m \<and>
    (\<forall>l t pre. pre \<in> {[], ''W/''} \<longrightarrow>
       load_static fs quality rt path (Some (pre @ etag l t)) ae =
         Some (if l = meta_len m \<and> t = (case modified m of None \<Rightarrow> 0 | Some t \<Rightarrow> t)
               then NotModified (om_etag out) (om_vary out) else out))"
proof -
  obtain canon_root out0 where out0: "outcome_of fs canon_root out0" "out = revalidate None out0"
      "\<And>inm. load_static fs quality rt path inm ae = Some (revalidate inm out0)"
    using load_static_outcome [OF assms] assms by (metis option.inject)
  obtain p m mime enc vary where m: "metadata fs p = Some m" "is_file m"
      "out0 = ServeFile p (meta_len m) (tag_of m) mime enc vary"
    using out0(1) by (auto simp: outcome_of_def)
  have "etag_matches (pre @ etag l t) (om_etag out0) \<longleftrightarrow>
      l = meta_len m \<and> t = (case modified m of None \<Rightarrow> 0 | Some t \<Rightarrow> t)" if "pre \<in> {[], ''W/''}" for pre l t
  proof -
    have "pre = [] \<or> pre = ''W/''" using that by blast
    moreover have "om_etag out0 = etag (meta_len m) (case modified m of None \<Rightarrow> 0 | Some t \<Rightarrow> t)"
      by (simp add: m(3) tag_of_def)
    ultimately show ?thesis using etag_matches_etag by (elim disjE) (simp_all only: append_Nil)
  qed
  then have "revalidate (Some (pre @ etag l t)) out0 =
      (if l = meta_len m \<and> t = (case modified m of None \<Rightarrow> 0 | Some t \<Rightarrow> t)
       then NotModified (om_etag out) (om_vary out) else out)" if "pre \<in> {[], ''W/''}" for pre l t
    unfolding revalidate_def option.case using that out0(2) by simp
  then show ?thesis using m out0(2,3) by (intro exI [of _ p] exI [of _ m]) (simp add: m(3))
qed

text \<open>A root with one page, which a link outside the root could not replace.\<close>

definition demo_fs :: file_system where
  "demo_fs = \<lparr>canonicalize = (\<lambda>p. if p = ''public'' then Some ''/srv/public''
       else if p = ''public/a.css'' then Some ''/srv/public/a.css''
       else if p = ''public/link.css'' then Some ''/etc/passwd'' else None),
     metadata = (\<lambda>p. if p = ''/srv/public/a.css'' \<or> p = ''/etc/passwd''
       then Some \<lparr>is_file = True, meta_len = 10, modified = Some 7\<rparr> else None)\<rparr>"

theorem static_conditional_witness:
  "load_static demo_fs (\<lambda>_. None) ''public'' ''public/a.css'' (Some ([] @ etag 10 7)) None =
     Some (NotModified (etag 10 7) False) \<and>
   load_static demo_fs (\<lambda>_. None) ''public'' ''public/link.css'' None None = None"
proof -
  have out: "load_static demo_fs (\<lambda>_. None) ''public'' ''public/a.css'' None None =
      Some (ServeFile ''/srv/public/a.css'' 10 (etag 10 7) (mime_for ''public/a.css'') None False)"
    "load_static demo_fs (\<lambda>_. None) ''public'' ''public/link.css'' None None = None"
    by (simp_all add: load_static_def demo_fs_def path_starts_with_def path_absolute_def path_parts_def tag_of_def)
  from static_conditional [OF out(1)] obtain m where
    m: "metadata demo_fs ''/srv/public/a.css'' = Some m" and
    all: "\<forall>l t pre. pre \<in> {[], ''W/''} \<longrightarrow>
       load_static demo_fs (\<lambda>_. None) ''public'' ''public/a.css'' (Some (pre @ etag l t)) None =
         Some (if l = meta_len m \<and> t = (case modified m of None \<Rightarrow> 0 | Some t \<Rightarrow> t)
               then NotModified (etag 10 7) False
               else ServeFile ''/srv/public/a.css'' 10 (etag 10 7) (mime_for ''public/a.css'') None False)"
    by (auto simp only: static_outcome.sel)
  have "m = \<lparr>is_file = True, meta_len = 10, modified = Some 7\<rparr>" using m by (simp add: demo_fs_def)
  then show ?thesis using all [rule_format, of "[]" 10 7] out(2) by simp
qed

definition demo_get :: request where
  "demo_get = \<lparr>req_method = ''GET'', req_path = ''/a.css'', req_version = Http11, req_headers = fields_new,
     req_query = fields_new, req_path_params = [], req_body = [], req_body_spool = None, req_remote_addr = None\<rparr>"

theorem static_no_escape_witness:
  "\<exists>r :: unit response. try_static demo_fs (\<lambda>_. None) (Some (static_new ''public'')) (empty_node :: nat node) demo_get =
     Inr (Some r) \<and> (resp_status r = 200 \<and> resp_body r = File ''/srv/public/a.css'' 10 None)"
proof -
  let ?res = "try_static demo_fs (\<lambda>_. None) (Some (static_new ''public'')) (empty_node :: nat node) demo_get :: unit response option run"
  have eval: "case ?res of Inr (Some r) \<Rightarrow> resp_status r = 200 \<and> resp_body r = File ''/srv/public/a.css'' 10 None | _ \<Rightarrow> False"
    by code_simp
  then obtain r where r: "?res = Inr (Some r)" by (cases ?res; cases "projr ?res") simp_all
  then show ?thesis using eval static_no_escape [OF r] by simp
qed

end
