(* ===== verification/Web_Policy.thy ===== *)
theory Web_Policy
  imports Server_Static Web_Security
begin

text \<open>
  The middleware chain and the access policy, \<open>crates/kernway-server/src\<close>: \<open>middleware.rs\<close>,
  \<open>security.rs\<close>, \<open>cors.rs\<close>, and the dispatch of \<open>app.rs\<close> (\<open>run_handler\<close>, \<open>handle\<close>).

  A handler maps a request and a world to a response, or a panic, and the world after it. The
  world holds the request scope and whatever else handlers may touch; \<open>context_of\<close> is what
  \<open>scope.get\<close> answers for the security context. The calls a future makes between its awaits are
  one call here: the chain of one request is sequential. Log output is left out.
\<close>

section \<open>Middleware\<close>

type_synonym ('s, 'w) handler = "request \<Rightarrow> 'w \<Rightarrow> 's response run \<times> 'w"
type_synonym ('s, 'w) middleware = "request \<Rightarrow> 'w \<Rightarrow> ('s, 'w) handler \<Rightarrow> 's response run \<times> 'w"

fun run_next :: "('s, 'w) middleware list \<Rightarrow> ('s, 'w) handler \<Rightarrow> ('s, 'w) handler" where
  "run_next [] terminal req w = terminal req w"
| "run_next (m # ms) terminal req w = m req w (run_next ms terminal)"

definition after :: "('s response \<Rightarrow> 's response run) \<Rightarrow> 's response run \<times> 'w \<Rightarrow> 's response run \<times> 'w" where
  "after f p = (bind_run (fst p) f, snd p)"

definition generate_request_id :: "nat \<Rightarrow> nat \<Rightarrow> string" where
  "generate_request_id secs nanos = show_hex secs @ ''-'' @ show_hex nanos"

definition request_id_middleware :: "string \<Rightarrow> ('s, 'w) middleware" where
  "request_id_middleware rid req w next_h =
     (case fields_insert True (req_headers req) ''x-request-id'' rid of
        Inl p \<Rightarrow> (Inl p, w)
      | Inr h \<Rightarrow> after (set_header ''x-request-id'' rid) (next_h (req\<lparr>req_headers := h\<rparr>) w))"

definition logging_middleware :: "('s, 'w) middleware" where
  "logging_middleware req w next_h = next_h req w"

definition security_headers_middleware :: "security_headers \<Rightarrow> ('s, 'w) middleware" where
  "security_headers_middleware h req w next_h = after (apply_headers h) (next_h req w)"

section \<open>Access rules\<close>

datatype access =
    PermitAll
  | Authenticated
  | HasRole string
  | HasAnyRole "string list"
  | HasAuthority string
  | HasAnyAuthority "string list"
  | DenyAll

type_synonym rule = "string option \<times> string \<times> access"

record http_security =
  rules :: "rule list"
  default_access :: access
  login_redirect :: "string option"

definition http_security_new :: http_security where
  "http_security_new = \<lparr>rules = [], default_access = Authenticated, login_redirect = None\<rparr>"

definition add_rule :: "http_security \<Rightarrow> string option \<Rightarrow> string \<Rightarrow> access \<Rightarrow> http_security" where
  "add_rule hs meth pattern acc = hs\<lparr>rules := rules hs @ [(meth, pattern, acc)]\<rparr>"

definition permit_all :: "http_security \<Rightarrow> string \<Rightarrow> http_security" where
  "permit_all hs pattern = add_rule hs None pattern PermitAll"

definition require_authenticated :: "http_security \<Rightarrow> string \<Rightarrow> http_security" where
  "require_authenticated hs pattern = add_rule hs None pattern Authenticated"

definition require_role :: "http_security \<Rightarrow> string \<Rightarrow> string \<Rightarrow> http_security" where
  "require_role hs pattern role = add_rule hs None pattern (HasRole role)"

definition require_any_role :: "http_security \<Rightarrow> string \<Rightarrow> string list \<Rightarrow> http_security" where
  "require_any_role hs pattern roles = add_rule hs None pattern (HasAnyRole roles)"

definition require_authority :: "http_security \<Rightarrow> string \<Rightarrow> string \<Rightarrow> http_security" where
  "require_authority hs pattern a = add_rule hs None pattern (HasAuthority a)"

definition require_any_authority :: "http_security \<Rightarrow> string \<Rightarrow> string list \<Rightarrow> http_security" where
  "require_any_authority hs pattern as = add_rule hs None pattern (HasAnyAuthority as)"

definition deny_all :: "http_security \<Rightarrow> string \<Rightarrow> http_security" where
  "deny_all hs pattern = add_rule hs None pattern DenyAll"

definition method_rule :: "http_security \<Rightarrow> string \<Rightarrow> string \<Rightarrow> access \<Rightarrow> http_security" where
  "method_rule hs meth pattern acc = add_rule hs (Some (map to_ascii_uppercase meth)) pattern acc"

definition any_request :: "http_security \<Rightarrow> access \<Rightarrow> http_security" where
  "any_request hs acc = hs\<lparr>default_access := acc\<rparr>"

definition login_page :: "http_security \<Rightarrow> string \<Rightarrow> http_security" where
  "login_page hs path = hs\<lparr>login_redirect := Some path\<rparr>"

text \<open>\<open>build\<close> moves the fields of the builder into the layer unchanged; the layer is the same record.\<close>

text \<open>\<open>path.starts_with(prefix)\<close> with a slash as the byte after it.\<close>

definition continues_at_slash :: "string \<Rightarrow> string \<Rightarrow> bool" where
  "continues_at_slash prefix path \<longleftrightarrow>
     (case strip_prefix prefix path of None \<Rightarrow> False | Some rest \<Rightarrow> rest \<noteq> [] \<and> hd rest = CHR ''/'')"

definition path_matches :: "string \<Rightarrow> string \<Rightarrow> bool" where
  "path_matches pattern path =
     (if pattern = ''**'' \<or> pattern = ''/**'' then True
      else case strip_suffix ''/**'' pattern of
             Some prefix \<Rightarrow> path = prefix \<or> continues_at_slash prefix path
           | None \<Rightarrow>
               (case strip_suffix ''/*'' pattern of
                  Some prefix \<Rightarrow>
                    if continues_at_slash prefix path then
                      (let rest = drop (length prefix + 1) path in rest \<noteq> [] \<and> CHR ''/'' \<notin> set rest)
                    else False
                | None \<Rightarrow> pattern = path))"

definition access_for :: "http_security \<Rightarrow> string \<Rightarrow> string \<Rightarrow> access" where
  "access_for hs meth path =
     (case find (\<lambda>(m, pattern, acc). (case m of None \<Rightarrow> True | Some m \<Rightarrow> m = meth) \<and> path_matches pattern path)
             (rules hs) of
        None \<Rightarrow> default_access hs
      | Some (m, pattern, acc) \<Rightarrow> acc)"

datatype decision = Allow | Unauthenticated | Forbidden

fun decide :: "access \<Rightarrow> security_context \<Rightarrow> decision" where
  "decide PermitAll c = Allow"
| "decide Authenticated c = (if is_authenticated c then Allow else Unauthenticated)"
| "decide (HasRole role) c =
     (if \<not> is_authenticated c then Unauthenticated else if has_role c role then Allow else Forbidden)"
| "decide (HasAnyRole roles) c =
     (if \<not> is_authenticated c then Unauthenticated else if list_ex (has_role c) roles then Allow else Forbidden)"
| "decide (HasAuthority a) c =
     (if \<not> is_authenticated c then Unauthenticated else if has_authority c a then Allow else Forbidden)"
| "decide (HasAnyAuthority as) c =
     (if \<not> is_authenticated c then Unauthenticated else if list_ex (has_authority c) as then Allow else Forbidden)"
| "decide DenyAll c = (if is_authenticated c then Forbidden else Unauthenticated)"

definition allows :: "http_security \<Rightarrow> string \<Rightarrow> string \<Rightarrow> security_context \<Rightarrow> bool" where
  "allows hs meth path c \<longleftrightarrow> decide (access_for hs meth path) c = Allow"

definition json_type :: string where
  "json_type = ''application/json; charset=utf-8''"

text \<open>The quotation mark, so that the JSON bodies read as in the code.\<close>

definition quoted :: "string \<Rightarrow> string" where
  "quoted s = [CHR 0x22] @ s @ [CHR 0x22]"

definition problem :: "nat \<Rightarrow> string \<Rightarrow> string \<Rightarrow> string" where
  "problem st title detail =
     ''{'' @ quoted ''status'' @ '':'' @ show_nat st @ '','' @ quoted ''title'' @ '':'' @ quoted title @ '','' @
     quoted ''detail'' @ '':'' @ quoted detail @ ''}''"

definition forbidden :: "'s response run" where
  "forbidden = bind_run (content_type (response_new 403) json_type)
     (\<lambda>r. Inr (with_body r (problem 403 ''Forbidden'' ''insufficient role'')))"

definition unauthorized :: "'s response run" where
  "unauthorized = bind_run (content_type (response_new 401) json_type)
     (\<lambda>r. Inr (with_body r (problem 401 ''Unauthorized'' ''authentication required'')))"

definition role_allowed :: "('w \<Rightarrow> security_context option) \<Rightarrow> 'w \<Rightarrow> string \<Rightarrow> bool" where
  "role_allowed context_of w role = (case context_of w of None \<Rightarrow> False | Some c \<Rightarrow> has_role c role)"

definition security_handle :: "('w \<Rightarrow> security_context option) \<Rightarrow> http_security \<Rightarrow> ('s, 'w) middleware" where
  "security_handle context_of hs req w next_h =
     (case decide (access_for hs (req_method req) (req_path req))
             (case context_of w of None \<Rightarrow> anonymous | Some c \<Rightarrow> c) of
        Allow \<Rightarrow> next_h req w
      | Unauthenticated \<Rightarrow>
          (case login_redirect hs of
             Some path \<Rightarrow> (set_header ''location'' path (response_new 302), w)
           | None \<Rightarrow> (unauthorized, w))
      | Forbidden \<Rightarrow> (forbidden, w))"

section \<open>CORS\<close>

datatype origins = AnyOrigin | OriginList "string list"
datatype allow_headers = MirrorRequest | HeaderList "string list"

record cors =
  cors_origins :: origins
  cors_methods :: "string list"
  cors_headers :: allow_headers
  cors_exposed :: "string list"
  cors_credentials :: bool
  cors_max_age :: "nat option"

definition cors_new :: cors where
  "cors_new = \<lparr>cors_origins = OriginList [], cors_methods = [''GET'', ''HEAD'', ''POST''],
     cors_headers = HeaderList [], cors_exposed = [], cors_credentials = False, cors_max_age = None\<rparr>"

definition permissive :: cors where
  "permissive = \<lparr>cors_origins = AnyOrigin,
     cors_methods = [''GET'', ''HEAD'', ''POST'', ''PUT'', ''PATCH'', ''DELETE'', ''OPTIONS''],
     cors_headers = MirrorRequest, cors_exposed = [], cors_credentials = False, cors_max_age = None\<rparr>"

definition allow_origin :: "cors \<Rightarrow> string \<Rightarrow> cors" where
  "allow_origin c origin =
     (case cors_origins c of OriginList l \<Rightarrow> c\<lparr>cors_origins := OriginList (l @ [origin])\<rparr> | AnyOrigin \<Rightarrow> c)"

definition allow_any_origin :: "cors \<Rightarrow> cors" where
  "allow_any_origin c = c\<lparr>cors_origins := AnyOrigin\<rparr>"

definition set_allow_methods :: "cors \<Rightarrow> string list \<Rightarrow> cors" where
  "set_allow_methods c ms = c\<lparr>cors_methods := ms\<rparr>"

definition set_allow_headers :: "cors \<Rightarrow> string list \<Rightarrow> cors" where
  "set_allow_headers c hs = c\<lparr>cors_headers := HeaderList hs\<rparr>"

definition allow_any_header :: "cors \<Rightarrow> cors" where
  "allow_any_header c = c\<lparr>cors_headers := MirrorRequest\<rparr>"

definition expose_headers :: "cors \<Rightarrow> string list \<Rightarrow> cors" where
  "expose_headers c hs = c\<lparr>cors_exposed := hs\<rparr>"

definition allow_credentials :: "cors \<Rightarrow> bool \<Rightarrow> cors" where
  "allow_credentials c yes = c\<lparr>cors_credentials := yes\<rparr>"

definition set_max_age :: "cors \<Rightarrow> nat \<Rightarrow> cors" where
  "set_max_age c secs = c\<lparr>cors_max_age := Some secs\<rparr>"

definition allow_origin_value :: "cors \<Rightarrow> string \<Rightarrow> string option" where
  "allow_origin_value c origin =
     (case cors_origins c of
        AnyOrigin \<Rightarrow> if cors_credentials c then Some origin else Some ''*''
      | OriginList l \<Rightarrow> if list_ex (\<lambda>x. x = origin) l then Some origin else None)"

definition stamp_common :: "cors \<Rightarrow> string \<Rightarrow> 's response \<Rightarrow> 's response run" where
  "stamp_common c allow r =
     bind_run (set_header ''access-control-allow-origin'' allow r) (\<lambda>r.
     bind_run (if cors_credentials c then set_header ''access-control-allow-credentials'' ''true'' r else Inr r) (\<lambda>r.
     set_header ''vary'' ''Origin'' r))"

definition preflight :: "cors \<Rightarrow> request \<Rightarrow> string \<Rightarrow> 's response run" where
  "preflight c req allow =
     bind_run (stamp_common c allow (response_new 204)) (\<lambda>r.
     bind_run (set_header ''access-control-allow-methods'' (join '', '' (cors_methods c)) r) (\<lambda>r.
     let allowed = (case cors_headers c of
                      HeaderList l \<Rightarrow> join '', '' l
                    | MirrorRequest \<Rightarrow> (case header req ''access-control-request-headers'' of None \<Rightarrow> [] | Some h \<Rightarrow> h))
     in bind_run (if allowed \<noteq> [] then set_header ''access-control-allow-headers'' allowed r else Inr r) (\<lambda>r.
        case cors_max_age c of
          None \<Rightarrow> Inr r
        | Some secs \<Rightarrow> set_header ''access-control-max-age'' (show_nat secs) r)))"

definition cors_handle :: "cors \<Rightarrow> ('s, 'w) middleware" where
  "cors_handle c req w next_h =
     (let allow = Option.bind (header req ''origin'') (allow_origin_value c)
      in if eq_ignore_ascii_case (req_method req) ''OPTIONS'' \<and> header req ''access-control-request-method'' \<noteq> None
         then ((case allow of Some origin \<Rightarrow> preflight c req origin | None \<Rightarrow> Inr (response_new 204)), w)
         else after (\<lambda>r.
           case allow of
             None \<Rightarrow> Inr r
           | Some origin \<Rightarrow>
               bind_run (stamp_common c origin r) (\<lambda>r.
                 if cors_exposed c \<noteq> []
                 then set_header ''access-control-expose-headers'' (join '', '' (cors_exposed c)) r else Inr r))
           (next_h req w))"

section \<open>Dispatch\<close>

definition not_found_body :: "request \<Rightarrow> string" where
  "not_found_body req =
     ''{'' @ quoted ''error'' @ '':'' @ quoted (''no route for '' @ req_method req @ '' '' @ req_path req) @ ''}''"

definition run_handler :: "('s, 'w) handler node \<Rightarrow> ('s, 'w) handler" where
  "run_handler router req w =
     (case find_route router (req_method req) (req_path req) of
        Some (h, params) \<Rightarrow> h (req\<lparr>req_path_params := params\<rparr>) w
      | None \<Rightarrow>
          (bind_run (content_type (response_new 404) ''application/json'')
             (\<lambda>r. Inr (with_body r (not_found_body req))), w))"

definition panic_response :: "'s response run" where
  "panic_response = bind_run (content_type (response_new 500) json_type)
     (\<lambda>r. Inr (with_body r (problem 500 ''Internal Server Error'' ''the request handler failed'')))"

text \<open>
  \<open>handle\<close> with \<open>CatchUnwind\<close>: \<open>open_scope\<close> is \<open>RequestScope::new\<close>, \<open>on_panic\<close> the handler an
  application registered, \<open>message\<close> the text of a panic. A panic of \<open>on_panic\<close> itself is not caught.
\<close>

definition handle_request :: "('w \<Rightarrow> 'w) \<Rightarrow> (panic \<Rightarrow> string) \<Rightarrow> (string \<Rightarrow> 's response run) option \<Rightarrow>
    ('s, 'w) handler node \<Rightarrow> ('s, 'w) middleware list \<Rightarrow> request \<Rightarrow> 'w \<Rightarrow> 's response run \<times> 'w" where
  "handle_request open_scope message on_panic router middlewares req w =
     (case run_next middlewares (run_handler router) req (open_scope w) of
        (Inr r, w') \<Rightarrow> (Inr r, w')
      | (Inl p, w') \<Rightarrow> (case on_panic of None \<Rightarrow> (panic_response, w') | Some f \<Rightarrow> (f (message p), w')))"

section \<open>Lemmas on the chain\<close>

lemma run_next_append: "run_next (pre @ post) terminal = run_next pre (run_next post terminal)"
  by (induction pre) (auto intro!: ext)

text \<open>A guard either passes the request on untouched or answers it without touching the world.\<close>

locale guard =
  fixes m :: "('s, 'w) middleware"
    and pass :: "request \<Rightarrow> 'w \<Rightarrow> bool"
    and refuse :: "request \<Rightarrow> 'w \<Rightarrow> 's response run"
  assumes guards: "m req w next_h = (if pass req w then next_h req w else (refuse req w, w))"
begin

lemma chain:
  "run_next (pre @ m # post) terminal =
     run_next pre (\<lambda>req w. if pass req w then run_next post terminal req w else (refuse req w, w))"
proof -
  have "run_next (m # post) terminal =
      (\<lambda>req w. if pass req w then run_next post terminal req w else (refuse req w, w))"
    by (intro ext) (simp add: guards)
  then show ?thesis by (simp only: run_next_append)
qed

lemma refused: "\<not> pass req w \<Longrightarrow> run_next (m # post) terminal req w = (refuse req w, w)"
  by (simp add: guards)

end

text \<open>A decorator runs the rest of the chain and then changes the response only.\<close>

locale decorator =
  fixes m :: "('s, 'w) middleware"
    and f :: "request \<Rightarrow> 's response \<Rightarrow> 's response run"
    and applies :: "request \<Rightarrow> bool"
  assumes decorates: "applies req \<Longrightarrow> m req w next_h = after (f req) (next_h req w)"
begin

lemma world: "applies req \<Longrightarrow> snd (m req w next_h) = snd (next_h req w)"
  by (simp add: decorates after_def)

lemma response:
  "applies req \<Longrightarrow> fst (m req w next_h) = Inr r \<longleftrightarrow> (\<exists>r0. fst (next_h req w) = Inr r0 \<and> f req r0 = Inr r)"
  by (simp add: decorates after_def bind_run_Inr)

lemma panics: "applies req \<Longrightarrow> fst (next_h req w) = Inl p \<Longrightarrow> fst (m req w next_h) = Inl p"
  by (simp add: decorates after_def)

end

interpretation shm: decorator "security_headers_middleware h" "\<lambda>req. apply_headers h" "\<lambda>req. True" for h
  by unfold_locales (simp add: security_headers_middleware_def)

definition context_in :: "('w \<Rightarrow> security_context option) \<Rightarrow> 'w \<Rightarrow> security_context" where
  "context_in context_of w = (case context_of w of None \<Rightarrow> anonymous | Some c \<Rightarrow> c)"

definition refusal :: "http_security \<Rightarrow> security_context \<Rightarrow> 's response run" where
  "refusal hs c =
     (if is_authenticated c then forbidden
      else case login_redirect hs of
             Some path \<Rightarrow> set_header ''location'' path (response_new 302)
           | None \<Rightarrow> unauthorized)"

lemma decide_refusal: "decide a c \<noteq> Allow \<Longrightarrow> decide a c = (if is_authenticated c then Forbidden else Unauthenticated)"
  by (cases a) (simp_all split: if_splits)

lemma decide_anonymous: "decide a c = Allow \<Longrightarrow> \<not> is_authenticated c \<Longrightarrow> a = PermitAll"
  by (cases a) (simp_all split: if_splits)

lemma security_guard:
  "security_handle context_of hs req w next_h =
     (if allows hs (req_method req) (req_path req) (context_in context_of w) then next_h req w
      else (refusal hs (context_in context_of w), w))"
proof (cases "decide (access_for hs (req_method req) (req_path req)) (context_in context_of w) = Allow")
  case True
  then show ?thesis by (simp add: security_handle_def allows_def context_in_def)
next
  case False
  from decide_refusal [OF False] False show ?thesis
    by (auto simp: security_handle_def allows_def context_in_def refusal_def split: option.splits)
qed

interpretation sec: guard "security_handle context_of hs"
  "\<lambda>req w. allows hs (req_method req) (req_path req) (context_in context_of w)"
  "\<lambda>req w. refusal hs (context_in context_of w)" for context_of hs
  by unfold_locales (rule security_guard)

lemma refusal_status:
  "refusal hs c = Inr r \<Longrightarrow>
     resp_status r = (if is_authenticated c then 403 else case login_redirect hs of Some _ \<Rightarrow> 302 | None \<Rightarrow> 401)"
  by (auto simp: refusal_def forbidden_def unauthorized_def bind_run_Inr with_body_def response_new_def
      dest!: set_header_keeps content_type_keeps split: option.splits)

text \<open>
  C18: The access policy is enforced before anything behind it runs. Wherever the security layer
  stands in a chain, the middleware after it and the handler run exactly when the policy allows
  the request under the context of its scope; otherwise the world is as it was and the answer is
  403 for an authenticated caller, and the redirect to the login page or 401 for any other. A caller who
  is not authenticated gets through only where everyone does, whatever roles its context lists.
\<close>

theorem policy_enforced:
  shows "run_next (pre @ security_handle context_of hs # post) terminal =
     run_next pre (\<lambda>req w.
       if allows hs (req_method req) (req_path req) (context_in context_of w) then run_next post terminal req w
       else (refusal hs (context_in context_of w), w)) \<and>
    (\<forall>c r. refusal hs c = Inr (r :: 's response) \<longrightarrow>
       resp_status r = (if is_authenticated c then 403 else case login_redirect hs of Some _ \<Rightarrow> 302 | None \<Rightarrow> 401)) \<and>
    (\<forall>meth path c. allows hs meth path c \<and> \<not> is_authenticated c \<longrightarrow> access_for hs meth path = PermitAll)"
proof (intro conjI allI impI)
  show "run_next (pre @ security_handle context_of hs # post) terminal =
     run_next pre (\<lambda>req w.
       if allows hs (req_method req) (req_path req) (context_in context_of w) then run_next post terminal req w
       else (refusal hs (context_in context_of w), w))"
    by (rule sec.chain)
  show "refusal hs c = Inr r \<Longrightarrow>
      resp_status r = (if is_authenticated c then 403 else case login_redirect hs of Some _ \<Rightarrow> 302 | None \<Rightarrow> 401)"
    for c and r :: "'s response" by (rule refusal_status)
  show "allows hs meth path c \<and> \<not> is_authenticated c \<Longrightarrow> access_for hs meth path = PermitAll" for meth path c
    using decide_anonymous by (auto simp: allows_def)
qed

definition demo_policy :: http_security where
  "demo_policy = require_role (any_request http_security_new PermitAll) ''/admin/**'' ''ADMIN''"

theorem policy_enforced_witness:
  "\<not> allows demo_policy ''GET'' ''/admin/x'' anonymous \<and> access_for demo_policy ''GET'' ''/'' = PermitAll \<and>
   run_next [security_handle (\<lambda>_. None) demo_policy] (\<lambda>_ _. (Inr (response_new 200 :: unit response), 1))
     (demo_get\<lparr>req_path := ''/admin/x''\<rparr>) (0 :: nat) = (unauthorized, 0)"
proof -
  have no: "\<not> allows demo_policy ''GET'' ''/admin/x'' anonymous" and
    "allows demo_policy ''GET'' ''/'' anonymous \<and> \<not> is_authenticated anonymous" by code_simp+
  then have "access_for demo_policy ''GET'' ''/'' = PermitAll" using policy_enforced by blast
  moreover have "refusal demo_policy anonymous = (unauthorized :: unit response run)"
    by (simp add: refusal_def anonymous_def demo_policy_def require_role_def add_rule_def any_request_def http_security_new_def)
  moreover have "run_next ([] @ security_handle (\<lambda>_. None) demo_policy # [])
      (\<lambda>_ _. (Inr (response_new 200 :: unit response), 1)) = run_next [] (\<lambda>req w.
       if allows demo_policy (req_method req) (req_path req) (context_in (\<lambda>_. None) w)
       then run_next [] (\<lambda>_ _. (Inr (response_new 200 :: unit response), 1)) req w
       else (refusal demo_policy (context_in (\<lambda>_. None) w), w :: nat))"
    using policy_enforced by blast
  ultimately show ?thesis using no by (simp add: context_in_def demo_get_def)
qed

section \<open>Rules by segments\<close>

text \<open>The normal text of a list of segments, and the patterns the documentation describes.\<close>

definition slashed :: "string list \<Rightarrow> string" where
  "slashed segs = concat (map (\<lambda>s. CHR ''/'' # s) segs)"

definition path_text :: "string list \<Rightarrow> string" where
  "path_text segs = (if segs = [] then ''/'' else slashed segs)"

definition plain_seg :: "string \<Rightarrow> bool" where
  "plain_seg s \<longleftrightarrow> s \<noteq> [] \<and> CHR ''/'' \<notin> set s"

datatype path_pattern = Everything | Exactly "string list" | OneBelow "string list" | Below "string list"

fun pattern_text :: "path_pattern \<Rightarrow> string" where
  "pattern_text Everything = ''/**''"
| "pattern_text (Exactly q) = path_text q"
| "pattern_text (OneBelow q) = slashed q @ ''/*''"
| "pattern_text (Below q) = slashed q @ ''/**''"

fun pattern_ok :: "path_pattern \<Rightarrow> bool" where
  "pattern_ok Everything = True"
| "pattern_ok (Exactly q) \<longleftrightarrow> list_all plain_seg q \<and> (q \<noteq> [] \<longrightarrow> last q \<noteq> ''*'' \<and> last q \<noteq> ''**'')"
| "pattern_ok (OneBelow q) \<longleftrightarrow> list_all plain_seg q"
| "pattern_ok (Below q) \<longleftrightarrow> list_all plain_seg q \<and> q \<noteq> []"

fun pattern_covers :: "path_pattern \<Rightarrow> string list \<Rightarrow> bool" where
  "pattern_covers Everything segs = True"
| "pattern_covers (Exactly q) segs \<longleftrightarrow> segs = q"
| "pattern_covers (OneBelow q) segs \<longleftrightarrow> segs \<noteq> [] \<and> butlast segs = q"
| "pattern_covers (Below q) segs \<longleftrightarrow> take (length q) segs = q"

lemma slashed_simps [simp]: "slashed [] = []" "slashed (s # ss) = CHR ''/'' # s @ slashed ss"
  by (simp_all add: slashed_def)

lemma slashed_append [simp]: "slashed (xs @ ys) = slashed xs @ slashed ys"
  by (induction xs) simp_all

lemma split_slashed: "list_all plain_seg segs \<Longrightarrow> split_on (CHR ''/'') (slashed segs) = [] # segs"
proof (induction segs)
  case (Cons s segs)
  show ?case
  proof (cases segs)
    case Nil
    with Cons show ?thesis by (simp add: plain_seg_def split_on_absent)
  next
    case (Cons t ts)
    then have "split_on (CHR ''/'') (s @ slashed segs) = split_on (CHR ''/'') s @ tl (split_on (CHR ''/'') (slashed segs))"
      using split_on_append_sep [of "CHR ''/''" s "t @ slashed ts"] by simp
    with Cons.IH Cons.prems show ?thesis by (simp add: plain_seg_def split_on_absent)
  qed
qed simp

lemma slashed_inj: "list_all plain_seg a \<Longrightarrow> list_all plain_seg b \<Longrightarrow> slashed a = slashed b \<longleftrightarrow> a = b"
proof
  assume "list_all plain_seg a" "list_all plain_seg b" "slashed a = slashed b"
  then have "[] # a = [] # b" by (metis split_slashed)
  then show "a = b" by (rule list.inject [THEN iffD1, THEN conjunct2])
qed (rule arg_cong)

lemma slashed_prefix:
  assumes "list_all plain_seg q" "list_all plain_seg segs"
  shows "slashed segs = slashed q @ CHR ''/'' # rest \<longleftrightarrow> (\<exists>t ts. segs = q @ t # ts \<and> rest = t @ slashed ts)"
proof
  assume eq: "slashed segs = slashed q @ CHR ''/'' # rest"
  have "[] # segs = ([] # q) @ split_on (CHR ''/'') rest"
    using split_slashed [OF assms(2)] split_slashed [OF assms(1)] unfolding eq split_on_append_sep by simp
  moreover obtain t ts where "split_on (CHR ''/'') rest = t # ts" by (cases "split_on (CHR ''/'') rest") auto
  ultimately have segs: "segs = q @ t # ts" by simp
  with eq have "rest = t @ slashed ts" by simp
  with segs show "\<exists>t ts. segs = q @ t # ts \<and> rest = t @ slashed ts" by blast
qed auto

lemma continues_at_slash_iff:
  "continues_at_slash prefix path \<longleftrightarrow> (\<exists>rest. path = prefix @ CHR ''/'' # rest)"
proof (cases "strip_prefix prefix path")
  case None
  then have "path \<noteq> prefix @ rest" for rest using strip_prefix_Some [of prefix path rest] by simp
  with None show ?thesis by (simp add: continues_at_slash_def)
next
  case (Some rest)
  then have "path = prefix @ rest" by (simp add: strip_prefix_Some)
  with Some show ?thesis by (cases rest) (auto simp: continues_at_slash_def)
qed

lemma longer_prefix: "(\<exists>t ts. segs = q @ t # ts) \<longleftrightarrow> length q < length segs \<and> take (length q) segs = q"
proof
  assume a: "length q < length segs \<and> take (length q) segs = q"
  then have "segs = q @ drop (length q) segs" "drop (length q) segs \<noteq> []"
    using append_take_drop_id [of "length q" segs] by auto
  then show "\<exists>t ts. segs = q @ t # ts" by (metis list.exhaust)
qed auto

lemma continues_slashed:
  assumes "list_all plain_seg q" "list_all plain_seg segs"
  shows "continues_at_slash (slashed q) (slashed segs) \<longleftrightarrow> length q < length segs \<and> take (length q) segs = q"
proof -
  have "continues_at_slash (slashed q) (slashed segs) \<longleftrightarrow> (\<exists>rest. slashed segs = slashed q @ CHR ''/'' # rest)"
    by (rule continues_at_slash_iff)
  also have "\<dots> \<longleftrightarrow> (\<exists>t ts. segs = q @ t # ts)" using slashed_prefix [OF assms] by blast
  also have "\<dots> \<longleftrightarrow> length q < length segs \<and> take (length q) segs = q"
    by (rule longer_prefix)
  finally show ?thesis .
qed

lemma slashed_last:
  assumes "list_all plain_seg q" "slashed q = x @ CHR ''/'' # s" "CHR ''/'' \<notin> set s"
  shows "q \<noteq> [] \<and> last q = s"
proof -
  have "[] # q = split_on (CHR ''/'') x @ [s]"
    using split_slashed [OF assms(1)] unfolding assms(2) split_on_append_sep using assms(3) by (simp add: split_on_absent)
  then show ?thesis by (cases "split_on (CHR ''/'') x") (auto simp: Cons_eq_append_conv)
qed

lemma exact_no_star:
  assumes "pattern_ok (Exactly q)"
  shows "strip_suffix ''/**'' (path_text q) = None" "strip_suffix ''/*'' (path_text q) = None"
    "path_text q \<noteq> ''**''" "path_text q \<noteq> ''/**''"
proof -
  have no: "path_text q \<noteq> x @ CHR ''/'' # s" if "s = ''*'' \<or> s = ''**''" for x s
  proof (cases "q = []")
    case True
    then show ?thesis using that by (cases x) (auto simp: path_text_def)
  next
    case False
    then show ?thesis using that assms slashed_last [of q x s] by (auto simp: path_text_def)
  qed
  then show "strip_suffix ''/**'' (path_text q) = None" "strip_suffix ''/*'' (path_text q) = None"
    using strip_suffix_Some [of "''/**''" "path_text q"] strip_suffix_Some [of "''/*''" "path_text q"]
    by (metis not_Some_eq)+
  show "path_text q \<noteq> ''**''" by (cases q) (simp_all add: path_text_def)
  show "path_text q \<noteq> ''/**''" using no [of "''**''" "[]"] by simp
qed

lemma slashed_not_root: "list_all plain_seg q \<Longrightarrow> slashed q \<noteq> ''/''"
  by (cases q) (auto simp: plain_seg_def)

lemma path_text_inj:
  assumes "list_all plain_seg a" "list_all plain_seg b"
  shows "path_text a = path_text b \<longleftrightarrow> a = b"
  using slashed_inj [OF assms] slashed_not_root [OF assms(1)] slashed_not_root [OF assms(2)]
  by (auto simp: path_text_def)

lemma matches_subtree:
  "path_matches (x @ ''/**'') path \<longleftrightarrow> x = [] \<or> path = x \<or> continues_at_slash x path"
proof -
  have s: "strip_suffix ''/**'' (x @ ''/**'') = Some x" by (simp only: strip_suffix_Some)
  have "x @ ''/**'' = ''**'' \<longleftrightarrow> False" by (cases x) (auto simp: Cons_eq_append_conv)
  moreover have "x @ ''/**'' = ''/**'' \<longleftrightarrow> x = []" by simp
  ultimately show ?thesis unfolding path_matches_def s option.case by simp
qed

lemma matches_one_below:
  "path_matches (x @ ''/*'') path \<longleftrightarrow> (\<exists>s. path = x @ CHR ''/'' # s \<and> plain_seg s)"
proof -
  have n: "x @ ''/*'' \<noteq> y @ ''/**''" for y
  proof
    assume "x @ ''/*'' = y @ ''/**''"
    then have "rev (x @ ''/*'') = rev (y @ ''/**'')" by (rule arg_cong)
    then show False by simp
  qed
  have s: "strip_suffix ''/*'' (x @ ''/*'') = Some x" by (simp only: strip_suffix_Some)
  have none: "strip_suffix ''/**'' (x @ ''/*'') = None"
    using n strip_suffix_Some [of "''/**''" "x @ ''/*''"] by (metis not_Some_eq)
  have ne: "x @ ''/*'' \<noteq> ''**''" "x @ ''/*'' \<noteq> ''/**''"
    using n [of "[]"] by (auto simp: append_eq_Cons_conv)
  show ?thesis
    unfolding path_matches_def s none option.case Let_def
    using ne by (auto simp: continues_at_slash_iff plain_seg_def)
qed

lemma path_matches_covers:
  assumes "pattern_ok p" "list_all plain_seg segs"
  shows "path_matches (pattern_text p) (path_text segs) \<longleftrightarrow> pattern_covers p segs"
proof (cases p)
  case Everything
  then show ?thesis by (simp add: path_matches_def)
next
  case (Exactly q)
  note ns = exact_no_star [OF assms(1) [unfolded Exactly]]
  have "list_all plain_seg q" using assms(1) Exactly by simp
  then show ?thesis
    using ns path_text_inj [OF assms(2), of q] by (auto simp: Exactly path_matches_def)
next
  case (OneBelow q)
  then have q: "list_all plain_seg q" using assms(1) by simp
  have "path_text segs = slashed q @ CHR ''/'' # s \<and> plain_seg s \<longleftrightarrow> plain_seg s \<and> segs = q @ [s]" for s
  proof -
    have "slashed segs = slashed q @ CHR ''/'' # s \<longleftrightarrow> segs = q @ [s]" if "plain_seg s"
      using slashed_inj [OF assms(2), of "q @ [s]"] q that by simp
    then show ?thesis by (auto simp: path_text_def plain_seg_def append_eq_Cons_conv Cons_eq_append_conv)
  qed
  then have "path_matches (pattern_text p) (path_text segs) \<longleftrightarrow> (\<exists>s. plain_seg s \<and> segs = q @ [s])"
    unfolding OneBelow pattern_text.simps matches_one_below by blast
  also have "\<dots> \<longleftrightarrow> segs \<noteq> [] \<and> butlast segs = q"
  proof
    assume a: "segs \<noteq> [] \<and> butlast segs = q"
    then have "segs = q @ [last segs]" using append_butlast_last_id [of segs] by simp
    moreover have "plain_seg (last segs)" using a assms(2) by (simp add: list_all_iff)
    ultimately show "\<exists>s. plain_seg s \<and> segs = q @ [s]" by blast
  qed auto
  finally show ?thesis by (simp add: OneBelow)
next
  case (Below q)
  then have q: "list_all plain_seg q" "q \<noteq> []" using assms(1) by simp_all
  show ?thesis
  proof (cases "segs = []")
    case True
    have "slashed q \<noteq> []" "slashed q \<noteq> ''/''" using q by (cases q; auto simp: plain_seg_def)+
    moreover have "\<not> continues_at_slash (slashed q) ''/''"
      using q by (cases q) (auto simp: continues_at_slash_iff append_eq_Cons_conv Cons_eq_append_conv plain_seg_def)
    ultimately show ?thesis using True q by (simp add: Below matches_subtree path_text_def)
  next
    case False
    have "slashed q \<noteq> []" using q by (cases q) auto
    moreover have "segs = q \<or> length q < length segs \<and> take (length q) segs = q \<longleftrightarrow> take (length q) segs = q"
      by (metis append_take_drop_id drop_eq_Nil le_refl linorder_not_less self_append_conv take_all)
    ultimately show ?thesis
      using False slashed_inj [OF assms(2) q(1)] continues_slashed [OF q(1) assms(2)]
      by (simp add: Below matches_subtree path_text_def)
  qed
qed

lemma segments_plain: "list_all plain_seg (segments path)"
  using split_on_no_sep [of _ "CHR ''/''" path] by (auto simp: segments_def plain_seg_def list_all_iff)

lemma segments_path_text: "list_all plain_seg segs \<Longrightarrow> segments (path_text segs) = segs"
proof (cases "segs = []")
  case False
  assume p: "list_all plain_seg segs"
  then have "filter (\<lambda>s. s \<noteq> []) segs = segs" by (induction segs) (auto simp: plain_seg_def)
  with False split_slashed [OF p] show ?thesis by (simp add: path_text_def segments_def)
qed (simp add: path_text_def segments_def)

lemma find_route_segments: "segments p = segments q \<Longrightarrow> find_route rt meth p = find_route rt meth q"
  by (simp add: find_route_def walk_segments)

lemma handler_for_case: "eq_ignore_ascii_case m m' \<Longrightarrow> handler_for n m = handler_for n m'"
  by (simp add: handler_for_def eq_ignore_ascii_case_def)

lemma walk_segs_case: "eq_ignore_ascii_case m m' \<Longrightarrow> walk_segs n segs m ps = walk_segs n segs m' ps"
proof (induction segs arbitrary: n ps)
  case Nil
  then show ?case by (simp add: handler_for_case)
next
  case (Cons seg segs)
  show ?case by (simp add: Cons.IH [OF Cons.prems] cong: option.case_cong)
qed

lemma find_map_cong: "(\<And>x. x \<in> set xs \<Longrightarrow> P (f x) \<longleftrightarrow> Q x) \<Longrightarrow> find P (map f xs) = map_option f (find Q xs)"
  by (induction xs) auto

text \<open>
  C19: The policy judges a request by its path segments, as the router does. For rules written in the
  documented forms, a path in normal form gets the first rule whose method is absent or the
  method itself and whose pattern covers the segments of the path: equal, exactly one more, or
  any number more; and the router sends every path to the handler of its normal form, whatever
  the case of the method.
\<close>

theorem policy_by_segments:
  assumes "rules hs = map (\<lambda>(m, p, a). (m, pattern_text p, a)) rs" "\<forall>(m, p, a)\<in>set rs. pattern_ok p"
    and "eq_ignore_ascii_case meth meth'"
  shows "access_for hs meth (path_text (segments path)) =
      (case find (\<lambda>(m, p, a). (m = None \<or> m = Some meth) \<and> pattern_covers p (segments path)) rs of
         None \<Rightarrow> default_access hs | Some (m, p, a) \<Rightarrow> a) \<and>
    find_route rt meth path = find_route rt meth' (path_text (segments path))"
proof
  have eq: "\<forall>(m, p, a)\<in>set rs. ((case m of None \<Rightarrow> True | Some m \<Rightarrow> m = meth) \<and> path_matches (pattern_text p) (path_text (segments path))) \<longleftrightarrow>
      ((m = None \<or> m = Some meth) \<and> pattern_covers p (segments path))"
    using path_matches_covers [OF _ segments_plain [of path]] assms(2) by (fastforce split: option.splits)
  have "find (\<lambda>(m, pattern, acc). (case m of None \<Rightarrow> True | Some m \<Rightarrow> m = meth) \<and>
        path_matches pattern (path_text (segments path))) (map (\<lambda>(m, p, a). (m, pattern_text p, a)) rs) =
      map_option (\<lambda>(m, p, a). (m, pattern_text p, a))
        (find (\<lambda>(m, p, a). (m = None \<or> m = Some meth) \<and> pattern_covers p (segments path)) rs)"
    using eq by (intro find_map_cong) auto
  then show "access_for hs meth (path_text (segments path)) =
      (case find (\<lambda>(m, p, a). (m = None \<or> m = Some meth) \<and> pattern_covers p (segments path)) rs of
         None \<Rightarrow> default_access hs | Some (m, p, a) \<Rightarrow> a)"
    unfolding access_for_def assms(1)
    by (cases "find (\<lambda>(m, p, a). (m = None \<or> m = Some meth) \<and> pattern_covers p (segments path)) rs") auto
  have "find_route rt meth path = find_route rt meth (path_text (segments path))"
    by (rule find_route_segments) (simp add: segments_path_text segments_plain)
  also have "\<dots> = find_route rt meth' (path_text (segments path))"
    by (simp add: find_route_def walk_segments walk_segs_case [OF assms(3)])
  finally show "find_route rt meth path = find_route rt meth' (path_text (segments path))" .
qed

theorem policy_by_segments_witness:
  "access_for demo_policy ''GET'' ''/admin/x'' = HasRole ''ADMIN'' \<and>
   find_route empty_node ''GET'' ''//admin/x'' = find_route (empty_node :: nat node) ''get'' ''/admin/x''"
proof -
  let ?rs = "[(None, Below [''admin''], HasRole ''ADMIN'')]"
  have "rules demo_policy = map (\<lambda>(m, p, a). (m, pattern_text p, a)) ?rs" "\<forall>(m, p, a)\<in>set ?rs. pattern_ok p"
    "eq_ignore_ascii_case ''GET'' ''get''" by code_simp+
  note rule = policy_by_segments [OF this, of "''//admin/x''" "empty_node :: nat node"]
  moreover have "path_text (segments ''//admin/x'') = ''/admin/x''" "segments ''//admin/x'' = [''admin'', ''x'']"
    by code_simp+
  ultimately show ?thesis by simp
qed

text \<open>
  A path that is not in normal form, here with an extra slash, reaches the same handler past the
  rule. (A method in another case would too, but the request parser writes methods in upper case.)
\<close>

definition demo_routes :: "nat node" where
  "demo_routes = add id (add id empty_node ''POST'' ''/pay'' 2) ''GET'' ''/admin/x'' 1"

lemma policy_slash_bypass:
  "map_option fst (find_route demo_routes ''GET'' ''/admin/x'') = Some 1"
  "\<not> allows demo_policy ''GET'' ''/admin/x'' anonymous"
  "map_option fst (find_route demo_routes ''GET'' ''//admin/x'') = Some 1"
  "allows demo_policy ''GET'' ''//admin/x'' anonymous"
proof -
  show "\<not> allows demo_policy ''GET'' ''/admin/x'' anonymous" "allows demo_policy ''GET'' ''//admin/x'' anonymous"
    by code_simp+
  show "map_option fst (find_route demo_routes ''GET'' ''/admin/x'') = Some 1"
    "map_option fst (find_route demo_routes ''GET'' ''//admin/x'') = Some 1"
    by code_simp+
qed

section \<open>Cross-origin sharing\<close>

abbreviation hdr :: "'s response \<Rightarrow> string \<Rightarrow> string option" where
  "hdr r n \<equiv> fields_get True (resp_headers r) n"

definition good_headers :: "'s response \<Rightarrow> bool" where
  "good_headers r \<longleftrightarrow> fields_ok True (resp_headers r)"

lemma good_headers_new [simp]: "good_headers (response_new st)" "hdr (response_new st) n = None"
  by (simp_all add: good_headers_def response_new_def fs.wf_empty fs.lookup_empty)

lemma set_header_lookup:
  assumes "set_header n v r = Inr r'" "good_headers r" "utf8_valid n" "utf8_valid v"
  shows "good_headers r'" "hdr r' m = (if stored_name True m = stored_name True n then Some v else hdr r m)"
    "resp_status r' = resp_status r" "resp_body r' = resp_body r"
proof -
  obtain g where g: "fields_insert True (resp_headers r) n v = Inr g" "r' = r\<lparr>resp_headers := g\<rparr>"
    using assms(1) by (auto simp: set_header_def bind_run_Inr)
  note ok = assms(2) [unfolded good_headers_def] assms(3,4) g(1)
  show "good_headers r'" "hdr r' m = (if stored_name True m = stored_name True n then Some v else hdr r m)"
    "resp_status r' = resp_status r" "resp_body r' = resp_body r"
    using fs.insert_law [OF ok] fs.lookup_insert [OF ok] g(2) by (auto simp: good_headers_def)
qed

text \<open>The header names the layer writes are ASCII, and no two of them are the same.\<close>

definition cors_names :: "string list" where
  "cors_names = [''access-control-allow-origin'', ''access-control-allow-credentials'', ''vary'',
     ''access-control-allow-methods'', ''access-control-allow-headers'', ''access-control-max-age'',
     ''access-control-expose-headers'']"

lemma cors_names_ok: "list_all (\<lambda>n. is_ascii n \<and> stored_name True n = n) cors_names"
  by code_simp

lemma cors_name: "n \<in> set cors_names \<Longrightarrow> utf8_valid n \<and> stored_name True n = n"
  using cors_names_ok by (auto simp: list_all_iff is_ascii_utf8_valid)

lemma set_cors_header:
  assumes "set_header n v r = Inr r'" "good_headers r" "utf8_valid v" "n \<in> set cors_names"
  shows "good_headers r' \<and> resp_status r' = resp_status r \<and> resp_body r' = resp_body r \<and>
    (\<forall>m\<in>set cors_names. hdr r' m = (if m = n then Some v else hdr r m))"
proof -
  have n: "utf8_valid n" "stored_name True n = n" using cors_name [OF assms(4)] by simp_all
  note h = set_header_lookup [OF assms(1,2) n(1) assms(3)]
  show ?thesis using h n(2) cors_name by simp
qed

definition cors_ok :: "cors \<Rightarrow> bool" where
  "cors_ok c \<longleftrightarrow> utf8_valid (join '', '' (cors_methods c)) \<and> utf8_valid (join '', '' (cors_exposed c)) \<and>
     (\<forall>l. cors_headers c = HeaderList l \<longrightarrow> utf8_valid (join '', '' l))"

lemma fields_get_utf8: "fields_get ci f n = Some v \<Longrightarrow> utf8_valid v"
  by (auto simp: fields_get_def fields_slice_def Let_def split: if_splits)

lemma header_utf8: "header req n = Some v \<Longrightarrow> utf8_valid v"
  unfolding header_def by (rule fields_get_utf8)

lemma allow_origin_utf8: "Option.bind (header req n) (allow_origin_value c) = Some v \<Longrightarrow> utf8_valid v"
  by (cases "header req n")
    (auto simp: allow_origin_value_def is_ascii_utf8_valid is_ascii_def dest: header_utf8 split: origins.splits if_splits)

lemma ascii_word: "is_ascii s \<Longrightarrow> utf8_valid s" by (rule is_ascii_utf8_valid)

definition stamped :: "cors \<Rightarrow> string \<Rightarrow> 's response \<Rightarrow> 's response \<Rightarrow> bool" where
  "stamped c v r r' \<longleftrightarrow> good_headers r' \<and> resp_status r' = resp_status r \<and> resp_body r' = resp_body r \<and>
     hdr r' ''access-control-allow-origin'' = Some v \<and> hdr r' ''vary'' = Some ''Origin'' \<and>
     (cors_credentials c \<longrightarrow> hdr r' ''access-control-allow-credentials'' = Some ''true'')"

lemma stamp_common_stamped:
  assumes "stamp_common c v r = Inr r'" "good_headers r" "utf8_valid v"
  shows "stamped c v r r'"
proof -
  obtain r1 r2 where r1: "set_header ''access-control-allow-origin'' v r = Inr r1"
    and r2: "(if cors_credentials c then set_header ''access-control-allow-credentials'' ''true'' r1 else Inr r1) = Inr r2"
    and r3: "set_header ''vary'' ''Origin'' r2 = Inr r'"
    using assms(1) by (auto simp: stamp_common_def bind_run_Inr)
  have lit: "utf8_valid ''true''" "utf8_valid ''Origin''" by (rule ascii_word; code_simp)+
  note h1 = set_cors_header [OF r1 assms(2,3)]
  have h2: "good_headers r2 \<and> resp_status r2 = resp_status r1 \<and> resp_body r2 = resp_body r1 \<and>
      hdr r2 ''access-control-allow-origin'' = hdr r1 ''access-control-allow-origin'' \<and>
      (cors_credentials c \<longrightarrow> hdr r2 ''access-control-allow-credentials'' = Some ''true'')"
    using r2 h1 set_cors_header [of "''access-control-allow-credentials''" "''true''" r1 r2] lit
    by (auto simp: cors_names_def split: if_splits)
  then show ?thesis
    using h1 set_cors_header [OF r3 _ lit(2)] by (simp add: cors_names_def stamped_def)
qed

text \<open>A header of the layer that \<open>stamped\<close> does not speak of may be set afterwards.\<close>

lemma stamped_set:
  assumes "stamped c v r r1" "set_header n w r1 = Inr r2" "utf8_valid w"
    and "n \<in> {''access-control-allow-methods'', ''access-control-allow-headers'', ''access-control-max-age'',
          ''access-control-expose-headers''}"
  shows "stamped c v r r2"
proof -
  have "n \<in> set cors_names" using assms(4) by (auto simp: cors_names_def)
  moreover have "good_headers r1" using assms(1) by (simp add: stamped_def)
  ultimately have h: "good_headers r2 \<and> resp_status r2 = resp_status r1 \<and> resp_body r2 = resp_body r1 \<and>
      (\<forall>m\<in>set cors_names. hdr r2 m = (if m = n then Some w else hdr r1 m))"
    using set_cors_header [OF assms(2) _ assms(3)] by blast
  moreover have "n \<notin> {''access-control-allow-origin'', ''vary'', ''access-control-allow-credentials''}"
    using assms(4) by auto
  ultimately show ?thesis using assms(1) unfolding stamped_def cors_names_def by auto
qed

lemma preflight_stamped:
  assumes "preflight c req v = Inr r" "cors_ok c" "utf8_valid v"
  shows "stamped c v (response_new 204) r"
proof -
  let ?allowed = "case cors_headers c of HeaderList l \<Rightarrow> join '', '' l
    | MirrorRequest \<Rightarrow> (case header req ''access-control-request-headers'' of None \<Rightarrow> [] | Some h \<Rightarrow> h)"
  obtain r1 r2 r3 where r1: "stamp_common c v (response_new 204) = Inr r1"
    and r2: "set_header ''access-control-allow-methods'' (join '', '' (cors_methods c)) r1 = Inr r2"
    and r3: "(if ?allowed \<noteq> [] then set_header ''access-control-allow-headers'' ?allowed r2 else Inr r2) = Inr r3"
    and r4: "(case cors_max_age c of None \<Rightarrow> Inr r3 | Some secs \<Rightarrow> set_header ''access-control-max-age'' (show_nat secs) r3) = Inr r"
    using assms(1) by (auto simp: preflight_def bind_run_Inr Let_def)
  have u: "utf8_valid ?allowed" "utf8_valid (join '', '' (cors_methods c))"
    using assms(2) by (auto simp: cors_ok_def dest: header_utf8 split: allow_headers.split option.split)
  have s2: "stamped c v (response_new 204) r2"
    by (rule stamped_set [OF stamp_common_stamped [OF r1 _ assms(3)] r2 u(2)]) simp_all
  have s3: "stamped c v (response_new 204) r3"
    using r3 s2 stamped_set [OF s2 _ u(1), of "''access-control-allow-headers''" r3] by (simp split: if_splits)
  have "utf8_valid (show_nat n)" for n
    using show_nat_digits by (intro ascii_word) (fastforce simp: is_ascii_def list_all_iff)
  then show ?thesis using r4 s3 stamped_set [OF s3, of "''access-control-max-age''"] by (simp split: option.splits)
qed

lemma allow_origin_value_sound:
  "allow_origin_value c origin = Some v \<Longrightarrow>
     (cors_origins c = AnyOrigin \<and> \<not> cors_credentials c \<and> v = ''*'') \<or>
     (origin = v \<and> (\<forall>l. cors_origins c = OriginList l \<longrightarrow> v \<in> set l))"
  by (cases "cors_origins c") (auto simp: allow_origin_value_def list_ex_iff split: if_splits)

definition is_preflight :: "request \<Rightarrow> bool" where
  "is_preflight req \<longleftrightarrow>
     eq_ignore_ascii_case (req_method req) ''OPTIONS'' \<and> header req ''access-control-request-method'' \<noteq> None"

definition cors_decorate :: "cors \<Rightarrow> request \<Rightarrow> 's response \<Rightarrow> 's response run" where
  "cors_decorate c req r =
     (case Option.bind (header req ''origin'') (allow_origin_value c) of
        None \<Rightarrow> Inr r
      | Some origin \<Rightarrow>
          bind_run (stamp_common c origin r) (\<lambda>r.
            if cors_exposed c \<noteq> []
            then set_header ''access-control-expose-headers'' (join '', '' (cors_exposed c)) r else Inr r))"

lemma cors_handle_decorates: "\<not> is_preflight req \<Longrightarrow> cors_handle c req w next_h = after (cors_decorate c req) (next_h req w)"
  unfolding cors_handle_def is_preflight_def cors_decorate_def [abs_def] Let_def by (simp only: if_False)

interpretation corsm: decorator "cors_handle c" "cors_decorate c" "\<lambda>req. \<not> is_preflight req" for c
  by unfold_locales (rule cors_handle_decorates)

lemma cors_decorate_stamped:
  assumes "cors_decorate c req r = Inr r'" "cors_ok c" "good_headers r"
  shows "case Option.bind (header req ''origin'') (allow_origin_value c) of None \<Rightarrow> r' = r | Some v \<Rightarrow> stamped c v r r'"
proof (cases "Option.bind (header req ''origin'') (allow_origin_value c)")
  case None
  then show ?thesis using assms(1) by (simp add: cors_decorate_def)
next
  case (Some v)
  then obtain r1 where r1: "stamp_common c v r = Inr r1"
    and r2: "(if cors_exposed c \<noteq> []
      then set_header ''access-control-expose-headers'' (join '', '' (cors_exposed c)) r1 else Inr r1) = Inr r'"
    using assms(1) by (auto simp: cors_decorate_def bind_run_Inr)
  note s = stamp_common_stamped [OF r1 assms(3) allow_origin_utf8 [OF Some]]
  have "utf8_valid (join '', '' (cors_exposed c))" using assms(2) by (simp add: cors_ok_def)
  then have "stamped c v r r'"
    using r2 s stamped_set [OF s, of "''access-control-expose-headers''" "join '', '' (cors_exposed c)" r']
    by (simp split: if_splits)
  with Some show ?thesis by simp
qed

text \<open>
  The CORS layer opens exactly what it is configured to. The origin it allows is one of the
  list, echoed, or any origin; never the wildcard together with credentials. A preflight is
  answered with status 204 without running the handler; any other request runs the rest of the
  chain once, and its response keeps status and body. The response names the allowed origin,
  with \<open>Vary\<close> and the credentials flag, and is as the handler left it, or bare for a preflight, when
  the origin is not allowed.
\<close>

theorem cors_sound:
  assumes "cors_handle c req w next_h = (Inr r, w')" "cors_ok c"
    and "\<forall>r0. fst (next_h req w) = Inr r0 \<longrightarrow> good_headers r0"
  defines "allow \<equiv> Option.bind (header req ''origin'') (allow_origin_value c)"
  shows "(\<forall>v. allow = Some v \<longrightarrow>
      (cors_origins c = AnyOrigin \<and> \<not> cors_credentials c \<and> v = ''*'') \<or>
      (header req ''origin'' = Some v \<and> (\<forall>l. cors_origins c = OriginList l \<longrightarrow> v \<in> set l))) \<and>
    (if is_preflight req
     then w' = w \<and> (case allow of None \<Rightarrow> r = response_new 204 | Some v \<Rightarrow> stamped c v (response_new 204) r)
     else \<exists>r0. next_h req w = (Inr r0, w') \<and> (case allow of None \<Rightarrow> r = r0 | Some v \<Rightarrow> stamped c v r0 r))"
proof
  show "\<forall>v. allow = Some v \<longrightarrow>
      (cors_origins c = AnyOrigin \<and> \<not> cors_credentials c \<and> v = ''*'') \<or>
      (header req ''origin'' = Some v \<and> (\<forall>l. cors_origins c = OriginList l \<longrightarrow> v \<in> set l))"
    unfolding allow_def bind_eq_Some_conv using allow_origin_value_sound [of c] by blast
  show "if is_preflight req
     then w' = w \<and> (case allow of None \<Rightarrow> r = response_new 204 | Some v \<Rightarrow> stamped c v (response_new 204) r)
     else \<exists>r0. next_h req w = (Inr r0, w') \<and> (case allow of None \<Rightarrow> r = r0 | Some v \<Rightarrow> stamped c v r0 r)"
  proof (cases "is_preflight req")
    case True
    have p: "((case allow of Some origin \<Rightarrow> preflight c req origin | None \<Rightarrow> Inr (response_new 204)), w) = (Inr r, w')"
      using assms(1) unfolding cors_handle_def Let_def if_P [OF True [unfolded is_preflight_def]] allow_def .
    show ?thesis
    proof (cases allow)
      case None
      then show ?thesis using True p by simp
    next
      case (Some v)
      then have "preflight c req v = Inr r" "w' = w" using p by simp_all
      then show ?thesis
        using True Some preflight_stamped [OF _ assms(2) allow_origin_utf8 [OF Some [unfolded allow_def]]] by simp
    qed
  next
    case False
    have h: "fst (cors_handle c req w next_h) = Inr r" "snd (next_h req w) = w'"
      unfolding assms(1) corsm.world [OF False, of c w next_h, symmetric] by (rule fst_conv snd_conv)+
    then obtain r0 where r0: "fst (next_h req w) = Inr r0" "cors_decorate c req r0 = Inr r"
      using corsm.response [OF False, THEN iffD1, OF h(1)] by blast
    then have "next_h req w = (Inr r0, w')" using h(2) by (simp add: prod_eq_iff)
    moreover have "good_headers r0" using assms(3) r0(1) by blast
    ultimately show ?thesis using False cors_decorate_stamped [OF r0(2) assms(2)] unfolding allow_def by simp
  qed
qed

definition demo_cors :: cors where
  "demo_cors = allow_credentials (allow_origin cors_new ''https://a'') True"

definition demo_cross :: request where
  "demo_cross = demo_get\<lparr>req_headers := projr (fields_insert True fields_new ''origin'' ''https://a'')\<rparr>"

theorem cors_sound_witness:
  "\<exists>r :: unit response. cors_handle demo_cors demo_cross () (\<lambda>_ _. (Inr (response_new 200), ())) = (Inr r, ()) \<and>
     stamped demo_cors ''https://a'' (response_new 200) r"
proof -
  let ?res = "cors_handle demo_cors demo_cross () (\<lambda>_ _. (Inr (response_new 200 :: unit response), ()))"
  have "case fst ?res of Inr r \<Rightarrow> True | Inl _ \<Rightarrow> False" by code_simp
  then obtain r where r: "?res = (Inr r, ())" by (cases ?res; cases "fst ?res") simp_all
  have ok: "utf8_valid (join '', '' (cors_methods demo_cors))" "utf8_valid (join '', '' (cors_exposed demo_cors))"
    "cors_headers demo_cors = HeaderList []" "utf8_valid (join '', '' [])" by code_simp+
  then have "cors_ok demo_cors" unfolding cors_ok_def by auto
  moreover have "\<forall>r0. fst ((\<lambda>_ _. (Inr (response_new 200 :: unit response), ())) demo_cross ()) = Inr r0 \<longrightarrow> good_headers r0"
    by simp
  moreover have "Option.bind (header demo_cross ''origin'') (allow_origin_value demo_cors) = Some ''https://a''"
    "\<not> is_preflight demo_cross" by code_simp+
  ultimately have "stamped demo_cors ''https://a'' (response_new 200) r"
    using cors_sound [OF r] by auto
  with r show ?thesis by blast
qed

text \<open>
  Whatever the handler varied on is replaced: after a response that varies on \<open>Accept-Encoding\<close>, a
  cache that keys on \<open>Vary\<close> no longer sees it.
\<close>

lemma cors_vary_replaced:
  assumes "stamp_common c origin r = Inr r'" "good_headers r" "utf8_valid origin"
    and "hdr r ''vary'' = Some ''Accept-Encoding''"
  shows "hdr r' ''vary'' = Some ''Origin''"
  using stamp_common_stamped [OF assms(1-3)] by (simp add: stamped_def)

section \<open>Dispatch\<close>

lemma fields_insert_new: "length n + length v \<le> u32_max \<Longrightarrow> \<exists>g. fields_insert ci fields_new n v = Inr g"
  using fields_insert_total [of fields_new n v ci] by (simp add: fields_new_def)

lemma panic_response_total:
  "\<exists>r. panic_response = Inr (r :: 's response) \<and> resp_status r = 500 \<and>
     resp_body r = Bytes (problem 500 ''Internal Server Error'' ''the request handler failed'')"
proof -
  have "length ''content-type'' + length json_type \<le> u32_max" by (simp add: json_type_def u32_max_def)
  then obtain g where "fields_insert True fields_new ''content-type'' json_type = Inr g"
    using fields_insert_new by blast
  then show ?thesis by (simp add: panic_response_def content_type_def response_new_def with_body_def)
qed

text \<open>
  A request is always answered, whatever its handler does. With no panic handler registered,
  or with one that does not itself panic, dispatch returns a response: the one of the chain when
  nothing panicked, and otherwise the registered one or the 500 that tells nothing of the panic,
  whichever middleware or handler panicked. On an empty chain the handler the router finds gets the request with its path
  parameters, and a request no route matches gets 404.
\<close>

theorem dispatch_answers:
  assumes "\<forall>f m. on_panic = Some f \<longrightarrow> (\<exists>r. f m = Inr r)"
  shows "(\<exists>r w'. handle_request open_scope message on_panic router mws req w = (Inr r, w') \<and>
      (case fst (run_next mws (run_handler router) req (open_scope w)) of
         Inr r0 \<Rightarrow> r = r0
       | Inl p \<Rightarrow> (case on_panic of
            Some f \<Rightarrow> f (message p) = Inr r
          | None \<Rightarrow> resp_status r = 500 \<and>
              resp_body r = Bytes (problem 500 ''Internal Server Error'' ''the request handler failed'')))) \<and>
    (\<forall>h params. find_route router (req_method req) (req_path req) = Some (h, params) \<longrightarrow>
       run_next [] (run_handler router) req w = h (req\<lparr>req_path_params := params\<rparr>) w) \<and>
    (\<forall>r. find_route router (req_method req) (req_path req) = None \<and>
       fst (run_next [] (run_handler router) req w) = Inr r \<longrightarrow> resp_status r = 404)"
proof (intro conjI allI impI)
  obtain res w' where run: "run_next mws (run_handler router) req (open_scope w) = (res, w')"
    by (cases "run_next mws (run_handler router) req (open_scope w)")
  show "\<exists>r w'. handle_request open_scope message on_panic router mws req w = (Inr r, w') \<and>
      (case fst (run_next mws (run_handler router) req (open_scope w)) of
         Inr r0 \<Rightarrow> r = r0
       | Inl p \<Rightarrow> (case on_panic of
            Some f \<Rightarrow> f (message p) = Inr r
          | None \<Rightarrow> resp_status r = 500 \<and>
              resp_body r = Bytes (problem 500 ''Internal Server Error'' ''the request handler failed'')))"
  proof (cases res)
    case (Inr r0)
    then show ?thesis unfolding handle_request_def run by simp
  next
    case (Inl p)
    show ?thesis
    proof (cases on_panic)
      case None
      then show ?thesis using panic_response_total unfolding handle_request_def run Inl by auto
    next
      case (Some f)
      with assms obtain r where "f (message p) = Inr r" by blast
      with Some show ?thesis unfolding handle_request_def run Inl by simp
    qed
  qed
next
  fix h params
  assume "find_route router (req_method req) (req_path req) = Some (h, params)"
  then show "run_next [] (run_handler router) req w = h (req\<lparr>req_path_params := params\<rparr>) w"
    by (simp add: run_handler_def)
next
  fix r
  assume "find_route router (req_method req) (req_path req) = None \<and>
       fst (run_next [] (run_handler router) req w) = Inr r"
  then show "resp_status r = 404"
    by (auto simp: run_handler_def bind_run_Inr with_body_def response_new_def dest!: content_type_keeps)
qed

theorem dispatch_answers_witness:
  "\<exists>r :: unit response. \<exists>w'. handle_request (\<lambda>w. w) (\<lambda>_. []) None empty_node [\<lambda>req w nx. (Inl ExpectFailed, w)]
     demo_get (0 :: nat) = (Inr r, w') \<and> resp_status r = 500"
  using dispatch_answers [of None "\<lambda>w. w" "\<lambda>_. []" "empty_node :: (unit, nat) handler node"
      "[\<lambda>req w nx. (Inl ExpectFailed, w)]" demo_get 0, THEN conjunct1] by auto

text \<open>
  The layer that adds the security headers is part of the chain a panic unwinds: the response to
  a panic has none of them.
\<close>

lemma panic_without_headers:
  "\<exists>r :: unit response. fst (handle_request (\<lambda>w. w) (\<lambda>_. []) None (empty_node :: (unit, nat) handler node)
       [security_headers_middleware strict, \<lambda>req w nx. (Inl ExpectFailed, w)] demo_get 0) = Inr r \<and>
     hdr r ''x-frame-options'' = None"
proof -
  let ?res = "handle_request (\<lambda>w. w) (\<lambda>_. []) None (empty_node :: (unit, nat) handler node)
       [security_headers_middleware strict, \<lambda>req w nx. (Inl ExpectFailed, w)] demo_get 0"
  have "fst ?res = panic_response"
    by (simp add: handle_request_def security_headers_middleware_def after_def)
  moreover have "case panic_response of Inr r \<Rightarrow> hdr (r :: unit response) ''x-frame-options'' = None | Inl _ \<Rightarrow> False"
    by code_simp
  ultimately show ?thesis by (auto split: sum.splits)
qed

end
