(* ===== verification/Server_Connection.thy ===== *)
theory Server_Connection
  imports Web_Policy Http_Writer
begin

text \<open>
  The connection task, \<open>serve_connection\<close> of \<open>crates/kernway-server/src/app.rs\<close> with \<open>spool_body\<close>,
  \<open>write_response\<close> and \<open>stream_file\<close>.

  What the peer, the clock and the shutdown signal do is a script of events, one per wait on the
  socket: bytes arrive, nothing more will be read (end of stream, error or idle timeout), or the
  signal fires. Sizes of reads are arbitrary, so buffer capacities do not matter. The application
  is a record: the dispatch of \<open>Web_Policy\<close> and the operations on files, as functions of the world.
  The peer takes a number of bytes, or all of them, before its connection breaks.
\<close>

section \<open>The application\<close>

record keep_alive_config =
  ka_enabled :: bool
  ka_max_requests :: nat

record upload_config =
  max_inmemory_body :: nat
  max_upload_size :: nat

record ('s, 'w) app =
  app_fs :: file_system
  app_quality :: "string \<Rightarrow> bool option"
  app_static :: "static_files option"
  app_router :: "('s, 'w) handler node"
  app_middlewares :: "('s, 'w) middleware list"
  app_open_scope :: "'w \<Rightarrow> 'w"
  app_message :: "panic \<Rightarrow> string"
  app_on_panic :: "(string \<Rightarrow> 's response run) option"
  app_keep_alive :: keep_alive_config
  app_upload :: upload_config
  app_file_chunk :: nat
  app_opens :: "'w \<Rightarrow> string \<Rightarrow> bool" \<comment> \<open>opening and seeking succeed\<close>
  app_read_at :: "'w \<Rightarrow> string \<Rightarrow> nat \<Rightarrow> nat \<Rightarrow> string option" \<comment> \<open>up to so many bytes at an offset\<close>
  app_pieces :: "'s \<Rightarrow> string list \<times> bool" \<comment> \<open>what a stream yields, and whether it ends well\<close>
  app_temp_path :: "'w \<Rightarrow> string"
  app_store :: "string \<Rightarrow> string \<Rightarrow> 'w \<Rightarrow> 'w \<times> bool" \<comment> \<open>create a file with a content\<close>
  app_remove :: "string \<Rightarrow> 'w \<Rightarrow> 'w"

definition answer_request :: "('s, 'w) app \<Rightarrow> request \<Rightarrow> 'w \<Rightarrow> 's response run \<times> 'w" where
  "answer_request A req w =
     (case try_static (app_fs A) (app_quality A) (app_static A) (app_router A) req of
        Inl p \<Rightarrow> (Inl p, w)
      | Inr (Some r) \<Rightarrow> (Inr r, w)
      | Inr None \<Rightarrow>
          handle_request (app_open_scope A) (app_message A) (app_on_panic A) (app_router A)
            (app_middlewares A) req w)"

section \<open>Writing\<close>

text \<open>\<open>write_all\<close> on a peer that takes so many bytes in all.\<close>

definition send :: "nat option \<Rightarrow> string \<Rightarrow> string \<Rightarrow> string \<times> bool" where
  "send cap out bs =
     (case cap of
        None \<Rightarrow> (out @ bs, True)
      | Some n \<Rightarrow> if length (out @ bs) \<le> n then (out @ bs, True) else (take n (out @ bs), False))"

fun send_pieces :: "nat option \<Rightarrow> string \<Rightarrow> string list \<Rightarrow> bool \<Rightarrow> string \<times> bool" where
  "send_pieces cap out [] well = (out, well)"
| "send_pieces cap out (p # ps) well =
     (case send cap out p of
        (out', True) \<Rightarrow> send_pieces cap out' ps well
      | (out', False) \<Rightarrow> (out', False))"

function stream_loop :: "(nat \<Rightarrow> nat \<Rightarrow> string option) \<Rightarrow> nat \<Rightarrow> nat option \<Rightarrow> nat \<Rightarrow> nat \<Rightarrow> string \<Rightarrow> string \<times> bool" where
  "stream_loop read_at file_chunk cap pos remaining out =
     (if remaining = 0 then (out, True)
      else case read_at pos (min remaining file_chunk) of
             None \<Rightarrow> (out, True)
           | Some bs \<Rightarrow>
               let chunk = take (min remaining file_chunk) bs in
               if chunk = [] then (out, True)
               else (case send cap out chunk of
                       (out', False) \<Rightarrow> (out', False)
                     | (out', True) \<Rightarrow>
                         stream_loop read_at file_chunk cap (pos + length chunk) (remaining - length chunk) out'))"
  by pat_completeness auto
termination
  by (relation "measure (\<lambda>(ra, fc, cap, pos, remaining, out). remaining)") auto

declare stream_loop.simps [simp del]

definition stream_file :: "('s, 'w) app \<Rightarrow> 'w \<Rightarrow> nat option \<Rightarrow> string \<Rightarrow> string \<Rightarrow> (nat \<times> nat) option \<Rightarrow> nat \<Rightarrow> string \<times> bool" where
  "stream_file A w cap out path rng len =
     (let start = (case rng of None \<Rightarrow> 0 | Some (s, e) \<Rightarrow> s);
          size = (case rng of None \<Rightarrow> len | Some (s, e) \<Rightarrow> wrapping_sub64 e s)
      in if app_opens A w path then stream_loop (app_read_at A w path) (app_file_chunk A) cap start size out
         else (out, True))"

definition write_response :: "('s, 'w) app \<Rightarrow> 'w \<Rightarrow> nat option \<Rightarrow> string \<Rightarrow> 's response \<Rightarrow> connection \<Rightarrow> bool \<Rightarrow> (string \<times> bool) run" where
  "write_response A w cap out r conn is_head =
     (if is_head then
        bind_run (encode_head r conn (body_len (resp_body r))) (\<lambda>head. Inr (send cap out head))
      else case resp_body r of
        File path len rng \<Rightarrow>
          bind_run (encode_head r conn (body_len (resp_body r))) (\<lambda>head.
            case send cap out head of
              (out', False) \<Rightarrow> Inr (out', False)
            | (out', True) \<Rightarrow> Inr (stream_file A w cap out' path rng len))
      | Stream len source \<Rightarrow>
          bind_run (encode_head r conn (body_len (resp_body r))) (\<lambda>head.
            case send cap out head of
              (out', False) \<Rightarrow> Inr (out', False)
            | (out', True) \<Rightarrow> (case app_pieces A source of (ps, well) \<Rightarrow> Inr (send_pieces cap out' ps well)))
      | _ \<Rightarrow> bind_run (encode_response_with r conn) (\<lambda>bytes. Inr (send cap out bytes)))"

section \<open>Reading\<close>

datatype read_event = Data string | Quiet | Signal

datatype read_result = Stop | Wait | Got string bool "read_event list"

text \<open>One wait on the socket; \<open>race\<close> when it is raced against the shutdown signal.\<close>

fun read_next :: "bool \<Rightarrow> bool \<Rightarrow> read_event list \<Rightarrow> read_result" where
  "read_next race trig [] = (if race \<and> trig then Stop else Wait)"
| "read_next race trig (Data bs # es) = (if bs = [] then Stop else Got bs trig es)"
| "read_next race trig (Quiet # es) = Stop"
| "read_next race trig (Signal # es) = (if race then Stop else read_next race True es)"

fun weight :: "read_event list \<Rightarrow> nat" where
  "weight [] = 0"
| "weight (Data bs # es) = Suc (length bs) + weight es"
| "weight (Quiet # es) = Suc (weight es)"
| "weight (Signal # es) = Suc (weight es)"

lemma read_next_weight: "read_next race trig es = Got bs trig' es' \<Longrightarrow> weight es' + length bs < weight es \<and> bs \<noteq> []"
  by (induction race trig es rule: read_next.induct) (auto split: if_splits)

datatype head_result = HeadBad failure | HeadStop | HeadWait | HeadReady request nat nat string bool "read_event list"

function read_head :: "bool \<Rightarrow> bool \<Rightarrow> string \<Rightarrow> read_event list \<Rightarrow> head_result" where
  "read_head kept trig bf es =
     (case parse_head bf of
        Inl f \<Rightarrow> HeadBad f
      | Inr (HeadComplete req head_end content_length) \<Rightarrow> HeadReady req head_end content_length bf trig es
      | Inr HeadIncomplete \<Rightarrow>
          (case read_next (bf = [] \<and> kept) trig es of
             Stop \<Rightarrow> HeadStop
           | Wait \<Rightarrow> HeadWait
           | Got bs trig' es' \<Rightarrow> read_head kept trig' (bf @ bs) es'))"
  by pat_completeness auto
termination
  by (relation "measure (\<lambda>(kept, trig, bf, es). weight es)") (auto dest: read_next_weight)

declare read_head.simps [simp del]

datatype body_result = BodyStop | BodyWait | BodyReady string bool "read_event list"

function read_body :: "nat \<Rightarrow> bool \<Rightarrow> string \<Rightarrow> read_event list \<Rightarrow> body_result" where
  "read_body tot trig bf es =
     (if tot \<le> length bf then BodyReady bf trig es
      else case read_next False trig es of
             Stop \<Rightarrow> BodyStop
           | Wait \<Rightarrow> BodyWait
           | Got bs trig' es' \<Rightarrow> read_body tot trig' (bf @ bs) es')"
  by pat_completeness auto
termination
  by (relation "measure (\<lambda>(tot, trig, bf, es). weight es)") (auto dest: read_next_weight)

declare read_body.simps [simp del]

text \<open>The loop of \<open>spool_body\<close>: what is in the file, and the bytes read past the body.\<close>

datatype spool_result = SpoolStop string | SpoolWait string | SpoolDone string string bool "read_event list"

function spool_loop :: "nat \<Rightarrow> string \<Rightarrow> bool \<Rightarrow> string \<Rightarrow> read_event list \<Rightarrow> spool_result" where
  "spool_loop content_length content trig rest es =
     (if content_length \<le> length content then SpoolDone content rest trig es
      else case read_next False trig es of
             Stop \<Rightarrow> SpoolStop content
           | Wait \<Rightarrow> SpoolWait content
           | Got bs trig' es' \<Rightarrow>
               let n = min (content_length - length content) (length bs)
               in spool_loop content_length (content @ take n bs) trig' (rest @ drop n bs) es')"
  by pat_completeness auto
termination
  by (relation "measure (\<lambda>(cl, content, trig, rest, es). weight es)") (auto dest: read_next_weight)

declare spool_loop.simps [simp del]

definition spool_body :: "nat \<Rightarrow> nat \<Rightarrow> bool \<Rightarrow> string \<Rightarrow> read_event list \<Rightarrow> spool_result" where
  "spool_body head_end content_length trig bf es =
     (let from_buf = min content_length (length bf - head_end)
      in spool_loop content_length (take from_buf (drop head_end bf)) trig (drop (head_end + from_buf) bf) es)"

section \<open>The loop\<close>

fun show_parse_error :: "parse_error \<Rightarrow> string" where
  "show_parse_error Io = ''io error''"
| "show_parse_error (BadRequestLine line) = ''malformed request line: '' @ line"
| "show_parse_error TooLarge = ''request too large''"

definition reject :: "nat \<Rightarrow> string \<Rightarrow> string run" where
  "reject st text =
     bind_run (content_type (response_new st :: unit response) ''text/plain'') (\<lambda>r.
       encode_response (with_body r text))"

text \<open>
  The first half of an iteration: a request with the rest of the buffer, or the way the
  connection ends: a last answer, an end with nothing to say, or events that have run out.
\<close>

datatype 'w fetched =
    LastWord "string run" 'w
  | GoneQuiet 'w
  | Pending 'w
  | Broken panic 'w
  | Fetched request string bool "read_event list" 'w

definition fetch :: "('s, 'w) app \<Rightarrow> bool \<Rightarrow> bool \<Rightarrow> string \<Rightarrow> read_event list \<Rightarrow> 'w \<Rightarrow> 'w fetched" where
  "fetch A kept trig bf es w =
     (case read_head kept trig bf es of
        HeadBad (Panicked p) \<Rightarrow> Broken p w
      | HeadBad (ParseFailed e) \<Rightarrow> LastWord (reject 400 (show_parse_error e)) w
      | HeadStop \<Rightarrow> GoneQuiet w
      | HeadWait \<Rightarrow> Pending w
      | HeadReady req head_end content_length bf trig es \<Rightarrow>
          if content_length > max_upload_size (app_upload A)
          then LastWord (reject 413 ''upload exceeds the configured maximum'') w
          else if content_length \<le> max_inmemory_body (app_upload A) then
            (case read_body (head_end + content_length) trig bf es of
               BodyStop \<Rightarrow> GoneQuiet w
             | BodyWait \<Rightarrow> Pending w
             | BodyReady bf trig es \<Rightarrow>
                 Fetched (req\<lparr>req_body := take content_length (drop head_end bf)\<rparr>)
                   (drop (head_end + content_length) bf) trig es w)
          else
            (let path = app_temp_path A w
             in case spool_body head_end content_length trig bf es of
                  SpoolStop content \<Rightarrow> GoneQuiet (fst (app_store A path content w))
                | SpoolWait content \<Rightarrow> Pending (fst (app_store A path content w))
                | SpoolDone content rest trig es \<Rightarrow>
                    (case app_store A path content w of
                       (w, False) \<Rightarrow> GoneQuiet w
                     | (w, True) \<Rightarrow>
                         Fetched (req\<lparr>req_body_spool := Some \<lparr>spool_path = path, spool_len = content_length\<rparr>\<rparr>)
                           rest trig es w)))"

lemma parse_head_Complete:
  "parse_head b = Inr (HeadComplete r e n) \<longleftrightarrow> parse_head_inner b = Inr (Some (r, e, n))"
  by (auto simp: parse_head_def bind_run_Inr split: option.splits)

lemma parse_head_Incomplete: "parse_head b = Inr HeadIncomplete \<longleftrightarrow> parse_head_inner b = Inr None"
  by (auto simp: parse_head_def bind_run_Inr split: option.splits)

lemma parse_head_bounds: "parse_head b = Inr (HeadComplete r e n) \<Longrightarrow> 0 < e \<and> e \<le> length b"
  using find_head_end_bounds by (auto simp: parse_head_Complete parse_head_inner_Some)

lemma read_head_weight:
  "read_head kept trig bf es = HeadReady r e n bf' trig' es' \<Longrightarrow>
     parse_head bf' = Inr (HeadComplete r e n) \<and> weight es' + length bf' \<le> weight es + length bf"
proof (induction kept trig bf es rule: read_head.induct)
  case (1 kept trig bf es)
  show ?case
  proof (cases "parse_head bf")
    case (Inr h)
    show ?thesis
    proof (cases h)
      case (HeadComplete r e n)
      with Inr 1(2) show ?thesis by (simp add: read_head.simps [of kept trig bf es])
    next
      case HeadIncomplete
      show ?thesis
      proof (cases "read_next (bf = [] \<and> kept) trig es")
        case (Got bs t es1)
        then have "read_head kept t (bf @ bs) es1 = HeadReady r e n bf' trig' es'"
          using 1(2) Inr HeadIncomplete by (simp add: read_head.simps [of kept trig bf es])
        from 1(1) [OF Inr HeadIncomplete Got this] read_next_weight [OF Got] show ?thesis by simp
      qed (use 1(2) Inr HeadIncomplete in \<open>simp_all add: read_head.simps [of kept trig bf es]\<close>)
    qed
  qed (use 1(2) in \<open>simp add: read_head.simps [of kept trig bf es]\<close>)
qed

lemma read_body_weight:
  "read_body tot trig bf es = BodyReady bf' trig' es' \<Longrightarrow>
     tot \<le> length bf' \<and> weight es' + length bf' \<le> weight es + length bf"
proof (induction tot trig bf es rule: read_body.induct)
  case (1 tot trig bf es)
  show ?case
  proof (cases "tot \<le> length bf")
    case True
    with 1(2) show ?thesis by (simp add: read_body.simps [of tot trig bf es])
  next
    case False
    show ?thesis
    proof (cases "read_next False trig es")
      case (Got bs t es1)
      then have "read_body tot t (bf @ bs) es1 = BodyReady bf' trig' es'"
        using 1(2) False by (simp add: read_body.simps [of tot trig bf es])
      from 1(1) [OF False Got this] read_next_weight [OF Got] show ?thesis by simp
    qed (use 1(2) False in \<open>simp_all add: read_body.simps [of tot trig bf es]\<close>)
  qed
qed

lemma spool_loop_weight:
  "spool_loop cl content trig rest es = SpoolDone c' rest' trig' es' \<Longrightarrow>
     weight es' + length rest' \<le> weight es + length rest"
proof (induction cl content trig rest es rule: spool_loop.induct)
  case (1 cl content trig rest es)
  show ?case
  proof (cases "cl \<le> length content")
    case True
    with 1(2) show ?thesis by (simp add: spool_loop.simps [of cl content trig rest es])
  next
    case False
    show ?thesis
    proof (cases "read_next False trig es")
      case (Got bs t es1)
      let ?n = "min (cl - length content) (length bs)"
      have "spool_loop cl (content @ take ?n bs) t (rest @ drop ?n bs) es1 = SpoolDone c' rest' trig' es'"
        using 1(2) False Got by (simp add: spool_loop.simps [of cl content trig rest es] Let_def)
      from 1(1) [OF False Got refl this]
      have "weight es' + length rest' \<le> weight es1 + (length rest + length (drop ?n bs))" by (simp only: length_append)
      moreover have "length (drop ?n bs) \<le> length bs" by simp
      ultimately show ?thesis using read_next_weight [OF Got] by linarith
    qed (use 1(2) False in \<open>simp_all add: spool_loop.simps [of cl content trig rest es]\<close>)
  qed
qed

lemma fetch_weight:
  assumes "fetch A kept trig bf es w = Fetched req rest trig' es' w'"
  shows "weight es' + length rest < weight es + length bf"
proof -
  obtain r e n bf1 t1 es1 where h: "read_head kept trig bf es = HeadReady r e n bf1 t1 es1"
    using assms unfolding fetch_def by (cases "read_head kept trig bf es") (auto split: failure.splits)
  note hw = read_head_weight [OF h]
  have e: "0 < e" "e \<le> length bf1" using parse_head_bounds [of bf1 r e n] hw by auto
  show ?thesis
  proof (cases "n \<le> max_inmemory_body (app_upload A)")
    case True
    then obtain bf2 where b: "read_body (e + n) t1 bf1 es1 = BodyReady bf2 trig' es'" and "rest = drop (e + n) bf2"
      using assms unfolding fetch_def h by (auto split: if_splits body_result.splits)
    then have "length rest + (e + n) = length bf2" using read_body_weight [OF b] by simp
    with read_body_weight [OF b] hw e show ?thesis by linarith
  next
    case False
    then obtain c where "spool_body e n t1 bf1 es1 = SpoolDone c rest trig' es'"
      using assms unfolding fetch_def h Let_def by (auto split: if_splits spool_result.splits prod.splits bool.splits)
    then have s: "spool_loop n (take (min n (length bf1 - e)) (drop e bf1)) t1 (drop (e + min n (length bf1 - e)) bf1) es1
        = SpoolDone c rest trig' es'" by (simp add: spool_body_def Let_def)
    have "length (drop (e + min n (length bf1 - e)) bf1) < length bf1" using e by simp
    with spool_loop_weight [OF s] hw show ?thesis by linarith
  qed
qed

datatype conn_end = ClosedByServer | PeerGone | StillOpen | Crashed panic

definition release_spool :: "('s, 'w) app \<Rightarrow> request \<Rightarrow> 'w \<Rightarrow> 'w" where
  "release_spool A req w = (case req_body_spool req of None \<Rightarrow> w | Some sp \<Rightarrow> app_remove A (spool_path sp) w)"

text \<open>
  \<open>flag n\<close> is what \<open>is_triggered\<close> reads when the n-th request is answered, apart from a signal
  the script has shown before.
\<close>

text \<open>The second half of an iteration: the answer, and whether the connection goes on.\<close>

definition respond :: "('s, 'w) app \<Rightarrow> (nat \<Rightarrow> bool) \<Rightarrow> nat option \<Rightarrow> socket_addr option \<Rightarrow> nat \<Rightarrow> bool \<Rightarrow>
    request \<Rightarrow> string \<Rightarrow> 'w \<Rightarrow> (conn_end \<times> string \<times> nat \<times> 'w) + (nat \<times> string \<times> 'w)" where
  "respond A flag cap peer served trig req0 out w =
     (let req = req0\<lparr>req_remote_addr := peer\<rparr>;
          served = served + 1;
          persist = (ka_enabled (app_keep_alive A) \<and> wants_keep_alive req \<and>
                     served < ka_max_requests (app_keep_alive A) \<and> \<not> (trig \<or> flag served))
      in case answer_request A req w of
           (Inl p, w) \<Rightarrow> Inl (Crashed p, out, served, release_spool A req w)
         | (Inr r, w) \<Rightarrow>
             let w = release_spool A req w
             in case write_response A w cap out r (if persist then KeepAlive else Close)
                       (eq_ignore_ascii_case (req_method req) ''HEAD'') of
                  Inl p \<Rightarrow> Inl (Crashed p, out, served, w)
                | Inr (out, False) \<Rightarrow> Inl (PeerGone, out, served, w)
                | Inr (out, True) \<Rightarrow>
                    if \<not> persist then Inl (ClosedByServer, out, served, w) else Inr (served, out, w))"

function serve :: "('s, 'w) app \<Rightarrow> (nat \<Rightarrow> bool) \<Rightarrow> nat option \<Rightarrow> socket_addr option \<Rightarrow> nat \<Rightarrow> bool \<Rightarrow>
    string \<Rightarrow> read_event list \<Rightarrow> string \<Rightarrow> 'w \<Rightarrow> conn_end \<times> string \<times> nat \<times> 'w" where
  "serve A flag cap peer served trig bf es out w =
     (case fetch A (served > 0) trig bf es w of
        Broken p w \<Rightarrow> (Crashed p, out, served, w)
      | LastWord (Inl p) w \<Rightarrow> (Crashed p, out, served, w)
      | LastWord (Inr bytes) w \<Rightarrow> (ClosedByServer, fst (send cap out bytes), served, w)
      | GoneQuiet w \<Rightarrow> (ClosedByServer, out, served, w)
      | Pending w \<Rightarrow> (StillOpen, out, served, w)
      | Fetched req rest trig es w \<Rightarrow>
          (case respond A flag cap peer served trig req out w of
             Inl result \<Rightarrow> result
           | Inr (served, out, w) \<Rightarrow> serve A flag cap peer served (trig \<or> flag served) rest es out w))"
  by pat_completeness auto
termination
  by (relation "measure (\<lambda>(A, flag, cap, peer, served, trig, bf, es, out, w). weight es + length bf)")
    (auto dest: fetch_weight)

declare serve.simps [simp del]

section \<open>The bytes may arrive in any pieces\<close>

lemma parse_head_stable: "parse_head b \<noteq> Inr HeadIncomplete \<Longrightarrow> parse_head (b @ c) = parse_head b"
proof -
  assume ready: "parse_head b \<noteq> Inr HeadIncomplete"
  have "parse_head_inner (b @ c) = parse_head_inner b"
  proof (cases "find_head_end b")
    case (Some ek)
    obtain e k where ek: "ek = (e, k)" by (cases ek)
    with Some find_head_end_bounds have "e \<le> length b" by blast
    with Some ek find_head_end_append [of b "(e, k)" c] show ?thesis by (simp add: parse_head_inner_def)
  next
    case None
    then have long: "length b > MAX_HEAD_BYTES"
      using ready by (auto simp: parse_head_Incomplete parse_head_inner_None)
    show ?thesis
    proof (cases "find_head_end (b @ c)")
      case None
      then show ?thesis using long \<open>find_head_end b = None\<close> by (simp add: parse_head_inner_def)
    next
      case (Some ek)
      obtain e k where ek: "ek = (e, k)" by (cases ek)
      have "\<not> e \<le> length b"
        using find_head_end_take [OF Some [unfolded ek], of "length b"] \<open>find_head_end b = None\<close> by auto
      then show ?thesis using Some ek long \<open>find_head_end b = None\<close> by (simp add: parse_head_inner_def)
    qed
  qed
  then show ?thesis by (simp add: parse_head_def)
qed

text \<open>The script of a peer that sends pieces and then nothing more.\<close>

definition arrivals :: "string list \<Rightarrow> read_event list" where
  "arrivals cs = map Data cs @ [Quiet]"

lemma read_next_arrivals:
  "read_next race trig (arrivals []) = Stop"
  "[] \<noteq> c \<Longrightarrow> read_next race trig (arrivals (c # cs)) = Got c trig (arrivals cs)"
  by (simp_all add: arrivals_def)

lemma read_head_arrivals:
  assumes "[] \<notin> set cs"
  shows "case parse_head (bf @ concat cs) of
      Inl f \<Rightarrow> read_head kept trig bf (arrivals cs) = HeadBad f
    | Inr HeadIncomplete \<Rightarrow> read_head kept trig bf (arrivals cs) = HeadStop
    | Inr (HeadComplete r e n) \<Rightarrow> \<exists>bf' cs'. read_head kept trig bf (arrivals cs) = HeadReady r e n bf' trig (arrivals cs') \<and>
        bf' @ concat cs' = bf @ concat cs \<and> [] \<notin> set cs'"
  using assms
proof (induction cs arbitrary: bf)
  case Nil
  then show ?case
    by (auto simp: read_head.simps [of kept trig bf] read_next_arrivals split: sum.split parsed_head.split)
next
  case (Cons c cs)
  show ?case
  proof (cases "parse_head bf = Inr HeadIncomplete")
    case True
    then have step: "read_head kept trig bf (arrivals (c # cs)) = read_head kept trig (bf @ c) (arrivals cs)"
      using Cons.prems by (simp add: read_head.simps [of kept trig bf] read_next_arrivals)
    have cc: "(bf @ c) @ concat cs = bf @ concat (c # cs)" and ne: "[] \<notin> set cs" using Cons.prems by simp_all
    show ?thesis using Cons.IH [OF ne, of "bf @ c"] unfolding cc step .
  next
    case False
    then have "parse_head (bf @ concat (c # cs)) = parse_head bf" by (rule parse_head_stable)
    with False Cons.prems show ?thesis
      by (auto simp: read_head.simps [of kept trig bf] simp del: concat.simps split: sum.split parsed_head.split)
  qed
qed

lemma read_body_arrivals:
  assumes "[] \<notin> set cs"
  shows "if tot \<le> length (bf @ concat cs)
    then \<exists>bf' cs'. read_body tot trig bf (arrivals cs) = BodyReady bf' trig (arrivals cs') \<and>
        bf' @ concat cs' = bf @ concat cs \<and> tot \<le> length bf' \<and> [] \<notin> set cs'
    else read_body tot trig bf (arrivals cs) = BodyStop"
  using assms
proof (induction cs arbitrary: bf)
  case Nil
  then show ?case by (auto simp: read_body.simps [of tot trig bf] read_next_arrivals)
next
  case (Cons c cs)
  show ?case
  proof (cases "tot \<le> length bf")
    case False
    then have step: "read_body tot trig bf (arrivals (c # cs)) = read_body tot trig (bf @ c) (arrivals cs)"
      using Cons.prems by (simp add: read_body.simps [of tot trig bf] read_next_arrivals)
    have cc: "(bf @ c) @ concat cs = bf @ concat (c # cs)" and ne: "[] \<notin> set cs" using Cons.prems by simp_all
    show ?thesis using Cons.IH [OF ne, of "bf @ c"] unfolding cc step .
  next
    case True
    then have "read_body tot trig bf (arrivals (c # cs)) = BodyReady bf trig (arrivals (c # cs))"
      by (simp add: read_body.simps [of tot trig bf])
    moreover have "tot \<le> length (bf @ concat (c # cs))" using True by simp
    ultimately show ?thesis using Cons.prems True by auto
  qed
qed

lemma spool_loop_arrivals:
  assumes "[] \<notin> set cs" "length content \<le> cl" "length content < cl \<longrightarrow> rest = []"
  shows "if cl \<le> length (content @ rest @ concat cs)
    then \<exists>rest' cs'. spool_loop cl content trig rest (arrivals cs) =
          SpoolDone (take cl (content @ rest @ concat cs)) rest' trig (arrivals cs') \<and>
        rest' @ concat cs' = drop cl (content @ rest @ concat cs) \<and> [] \<notin> set cs'
    else spool_loop cl content trig rest (arrivals cs) = SpoolStop (content @ rest @ concat cs)"
  using assms
proof (induction cs arbitrary: content rest)
  case Nil
  then show ?case
    by (auto simp: spool_loop.simps [of cl content trig _ "arrivals []"] read_next_arrivals)
next
  case (Cons c cs)
  show ?case
  proof (cases "cl \<le> length content")
    case True
    then have "length content = cl" using Cons.prems(2) by simp
    then show ?thesis using Cons.prems(1) by (auto simp: spool_loop.simps [of cl content trig rest])
  next
    case False
    then have r: "rest = []" using Cons.prems(3) by simp
    let ?n = "min (cl - length content) (length c)"
    have step: "spool_loop cl content trig rest (arrivals (c # cs)) =
        spool_loop cl (content @ take ?n c) trig (drop ?n c) (arrivals cs)"
      using False Cons.prems r by (simp add: spool_loop.simps [of cl content trig] read_next_arrivals Let_def)
    have cc: "(content @ take ?n c) @ drop ?n c @ concat cs = content @ rest @ concat (c # cs)" using r by simp
    have "length (content @ take ?n c) \<le> cl" using False by simp
    moreover have "length (content @ take ?n c) < cl \<longrightarrow> drop ?n c = []" by (auto simp: min_def split: if_splits)
    moreover have "[] \<notin> set cs" using Cons.prems(1) by simp
    ultimately show ?thesis using Cons.IH [of "content @ take ?n c" "drop ?n c"] unfolding step cc by blast
  qed
qed

lemma spool_body_arrivals:
  assumes "[] \<notin> set cs" "e \<le> length bf"
  shows "if e + n \<le> length (bf @ concat cs)
    then \<exists>rest' cs'. spool_body e n trig bf (arrivals cs) =
          SpoolDone (take n (drop e (bf @ concat cs))) rest' trig (arrivals cs') \<and>
        rest' @ concat cs' = drop (e + n) (bf @ concat cs) \<and> [] \<notin> set cs'
    else spool_body e n trig bf (arrivals cs) = SpoolStop (drop e (bf @ concat cs))"
proof -
  let ?m = "min n (length bf - e)"
  let ?content = "take ?m (drop e bf)" and ?rest = "drop (e + ?m) bf"
  have all: "?content @ ?rest @ concat cs = drop e (bf @ concat cs)"
  proof -
    have "?content @ ?rest = drop e bf" by (metis add.commute append_take_drop_id drop_drop)
    then show ?thesis using assms(2) by (simp flip: append_assoc)
  qed
  have len: "n \<le> length (drop e (bf @ concat cs)) \<longleftrightarrow> e + n \<le> length (bf @ concat cs)"
    using assms(2) by (auto simp: le_diff_conv2)
  have "length ?content \<le> n" "length ?content < n \<longrightarrow> ?rest = []" by (auto simp: min_def split: if_splits)
  from spool_loop_arrivals [OF assms(1) this, of trig] show ?thesis
    unfolding spool_body_def Let_def all len drop_drop add.commute [of n e] .
qed

text \<open>What the first half of an iteration does with all the bytes that are left.\<close>

definition fetch_all :: "('s, 'w) app \<Rightarrow> string \<Rightarrow> 'w \<Rightarrow> ('w fetched) + (request \<times> string \<times> 'w)" where
  "fetch_all A s w =
     (case parse_head s of
        Inl (Panicked p) \<Rightarrow> Inl (Broken p w)
      | Inl (ParseFailed e) \<Rightarrow> Inl (LastWord (reject 400 (show_parse_error e)) w)
      | Inr HeadIncomplete \<Rightarrow> Inl (GoneQuiet w)
      | Inr (HeadComplete req e n) \<Rightarrow>
          if n > max_upload_size (app_upload A)
          then Inl (LastWord (reject 413 ''upload exceeds the configured maximum'') w)
          else if n \<le> max_inmemory_body (app_upload A) then
            (if e + n \<le> length s then Inr (req\<lparr>req_body := take n (drop e s)\<rparr>, drop (e + n) s, w)
             else Inl (GoneQuiet w))
          else if e + n \<le> length s then
            (case app_store A (app_temp_path A w) (take n (drop e s)) w of
               (w', False) \<Rightarrow> Inl (GoneQuiet w')
             | (w', True) \<Rightarrow>
                 Inr (req\<lparr>req_body_spool := Some \<lparr>spool_path = app_temp_path A w, spool_len = n\<rparr>\<rparr>, drop (e + n) s, w'))
          else Inl (GoneQuiet (fst (app_store A (app_temp_path A w) (drop e s) w))))"

lemma fetch_all_shorter: "fetch_all A s w = Inr (req, rest, w') \<Longrightarrow> length rest < length s"
  using parse_head_bounds [of s]
  by (auto simp: fetch_all_def split: sum.splits failure.splits parsed_head.splits if_splits prod.splits bool.splits)

lemma fetch_arrivals:
  assumes ne: "[] \<notin> set cs"
  shows "case fetch_all A (bf @ concat cs) w of
      Inl f \<Rightarrow> fetch A kept trig bf (arrivals cs) w = f
    | Inr (req, rest, w') \<Rightarrow> \<exists>bf' cs'. fetch A kept trig bf (arrivals cs) w = Fetched req bf' trig (arrivals cs') w' \<and>
        bf' @ concat cs' = rest \<and> [] \<notin> set cs'"
proof -
  let ?s = "bf @ concat cs"
  note head = read_head_arrivals [OF ne, where bf = bf and kept = kept and trig = trig]
  show ?thesis
  proof (cases "parse_head ?s")
    case (Inl f)
    then have "read_head kept trig bf (arrivals cs) = HeadBad f" using head by simp
    then show ?thesis using Inl by (cases f) (simp_all add: fetch_def fetch_all_def)
  next
    case (Inr h)
    show ?thesis
    proof (cases h)
      case HeadIncomplete
      then have "read_head kept trig bf (arrivals cs) = HeadStop" using head Inr by simp
      then show ?thesis using Inr HeadIncomplete by (simp add: fetch_def fetch_all_def)
    next
      case (HeadComplete req e n)
      then obtain bf1 cs1 where r: "read_head kept trig bf (arrivals cs) = HeadReady req e n bf1 trig (arrivals cs1)"
        and s: "bf1 @ concat cs1 = ?s" and ne1: "[] \<notin> set cs1"
        using head Inr by auto
      have e: "e \<le> length bf1" using read_head_weight [OF r] parse_head_bounds by blast
      consider "n > max_upload_size (app_upload A)"
        | "\<not> n > max_upload_size (app_upload A)" "n \<le> max_inmemory_body (app_upload A)"
        | "\<not> n > max_upload_size (app_upload A)" "\<not> n \<le> max_inmemory_body (app_upload A)" by blast
      then show ?thesis
      proof cases
        case 1
        then show ?thesis using Inr HeadComplete r by (simp add: fetch_def fetch_all_def)
      next
        case 2
        note body = read_body_arrivals [OF ne1, where tot = "e + n" and bf = bf1 and trig = trig, unfolded s]
        show ?thesis
        proof (cases "e + n \<le> length ?s")
          case True
          then obtain bf2 cs2 where b: "read_body (e + n) trig bf1 (arrivals cs1) = BodyReady bf2 trig (arrivals cs2)"
            and s2: "bf2 @ concat cs2 = ?s" "e + n \<le> length bf2" "[] \<notin> set cs2"
            using body by auto
          have "take n (drop e bf2) = take n (drop e ?s)" "drop (e + n) bf2 @ concat cs2 = drop (e + n) ?s"
            using s2(2) by (simp_all flip: s2(1))
          then show ?thesis using 2 True Inr HeadComplete r b s2(3) by (auto simp: fetch_def fetch_all_def)
        next
          case False
          then show ?thesis using 2 Inr HeadComplete r body by (auto simp: fetch_def fetch_all_def)
        qed
      next
        case 3
        note spool = spool_body_arrivals [OF ne1 e, where n = n and trig = trig, unfolded s]
        obtain w1 ok where st: "app_store A (app_temp_path A w) (take n (drop e ?s)) w = (w1, ok)"
          by (cases "app_store A (app_temp_path A w) (take n (drop e ?s)) w")
        show ?thesis
        proof (cases "e + n \<le> length ?s")
          case True
          then obtain rest cs2 where b: "spool_body e n trig bf1 (arrivals cs1) =
              SpoolDone (take n (drop e ?s)) rest trig (arrivals cs2)"
            and s2: "rest @ concat cs2 = drop (e + n) ?s" "[] \<notin> set cs2"
            using spool by auto
          show ?thesis using 3 True Inr HeadComplete r b s2 st
            unfolding fetch_def fetch_all_def by (cases ok) (auto simp: Let_def simp del: drop_append take_append)
        next
          case False
          then have "spool_body e n trig bf1 (arrivals cs1) = SpoolStop (drop e ?s)" using spool by simp
          then show ?thesis using 3 False Inr HeadComplete r
            unfolding fetch_def fetch_all_def by (simp add: Let_def del: drop_append)
        qed
      qed
    qed
  qed
qed

lemma serve_pieces:
  assumes "[] \<notin> set cs" "[] \<notin> set ds" "bf @ concat cs = bg @ concat ds"
  shows "serve A flag cap peer served trig bf (arrivals cs) out w = serve A flag cap peer served trig bg (arrivals ds) out w"
  using assms
proof (induction "length (bf @ concat cs)" arbitrary: bf cs bg ds served trig out w rule: less_induct)
  case less
  let ?s = "bf @ concat cs"
  note fc = fetch_arrivals [OF less.prems(1), where A = A and bf = bf and w = w and kept = "served > 0" and trig = trig]
  note fd = fetch_arrivals [OF less.prems(2), where A = A and bf = bg and w = w and kept = "served > 0" and trig = trig,
      folded less.prems(3)]
  show ?case
  proof (cases "fetch_all A ?s w")
    case (Inl f)
    then have "fetch A (served > 0) trig bf (arrivals cs) w = f" "fetch A (served > 0) trig bg (arrivals ds) w = f"
      "\<And>req rest t es w'. f \<noteq> Fetched req rest t es w'"
      using fc fd by (auto simp: fetch_all_def split: sum.splits failure.splits parsed_head.splits if_splits prod.splits bool.splits)
    then show ?thesis
      by (subst (1 2) serve.simps) (auto split: fetched.split sum.split)
  next
    case (Inr x)
    obtain req rest w' where x: "x = (req, rest, w')" by (cases x)
    obtain bf' cs' where c: "fetch A (served > 0) trig bf (arrivals cs) w = Fetched req bf' trig (arrivals cs') w'"
        "bf' @ concat cs' = rest" "[] \<notin> set cs'" using fc Inr x by auto
    obtain bg' ds' where d: "fetch A (served > 0) trig bg (arrivals ds) w = Fetched req bg' trig (arrivals ds') w'"
        "bg' @ concat ds' = rest" "[] \<notin> set ds'" using fd Inr x by auto
    have "length rest < length ?s" by (rule fetch_all_shorter [OF Inr [unfolded x]])
    then have "serve A flag cap peer s t bf' (arrivals cs') o1 w1 = serve A flag cap peer s t bg' (arrivals ds') o1 w1" for s t o1 w1
      using less.hyps [of bf' cs'] c(2,3) d(2,3) by simp
    then show ?thesis
      by (subst (1 2) serve.simps) (simp add: c(1) d(1) split: sum.split prod.split)
  qed
qed

text \<open>
  C21: A connection behaves the same however its bytes are cut into reads. For every application,
  every sequence of pieces and every point of the conversation, what is answered, how often, what
  the handlers do to the world and how the connection ends depend only on the bytes themselves:
  pipelined requests, requests split anywhere in head or body, and bodies spooled to a file are
  served as if all had arrived at once.
\<close>

theorem connection_chunking:
  assumes "[] \<notin> set cs"
  shows "serve A flag cap peer served trig bf (map Data cs @ [Quiet]) out w =
    serve A flag cap peer served trig (bf @ concat cs) [Quiet] out w"
proof -
  have "serve A flag cap peer served trig bf (arrivals cs) out w =
      serve A flag cap peer served trig (bf @ concat cs) (arrivals []) out w"
    by (rule serve_pieces) (use assms in simp_all)
  then show ?thesis by (simp add: arrivals_def)
qed

definition demo_app :: "(unit, nat) app" where
  "demo_app = \<lparr>app_fs = demo_fs, app_quality = (\<lambda>_. None), app_static = None, app_router = empty_node,
     app_middlewares = [], app_open_scope = (\<lambda>w. w + 1), app_message = (\<lambda>_. []), app_on_panic = None,
     app_keep_alive = \<lparr>ka_enabled = True, ka_max_requests = 1000\<rparr>,
     app_upload = \<lparr>max_inmemory_body = 1048576, max_upload_size = 4294967296\<rparr>, app_file_chunk = 262144,
     app_opens = (\<lambda>_ _. False), app_read_at = (\<lambda>_ _ _ _. None), app_pieces = (\<lambda>_. ([], True)),
     app_temp_path = (\<lambda>_. ''/tmp/u''), app_store = (\<lambda>_ _ w. (w, True)), app_remove = (\<lambda>_ w. w)\<rparr>"

theorem connection_chunking_witness:
  "serve demo_app (\<lambda>_. False) None None 0 False [] [Data ''GET '', Data ''/a H'', Quiet] [] 0 =
     serve demo_app (\<lambda>_. False) None None 0 False ''GET /a H'' [Quiet] [] 0"
  using connection_chunking [of "[''GET '', ''/a H'']" demo_app "\<lambda>_. False" None None 0 False "[]" "[]" 0] by simp

section \<open>Requests in order\<close>

text \<open>The conversation for a list of requests, one after the other.\<close>

fun serve_requests :: "('s, 'w) app \<Rightarrow> (nat \<Rightarrow> bool) \<Rightarrow> nat option \<Rightarrow> socket_addr option \<Rightarrow> nat \<Rightarrow> string \<Rightarrow> 'w \<Rightarrow>
    request list \<Rightarrow> conn_end \<times> string \<times> nat \<times> 'w" where
  "serve_requests A flag cap peer served out w [] = (ClosedByServer, out, served, w)"
| "serve_requests A flag cap peer served out w (req # reqs) =
     (case respond A flag cap peer served False req out w of
        Inl result \<Rightarrow> result
      | Inr (served, out, w) \<Rightarrow> serve_requests A flag cap peer served out w reqs)"

text \<open>A text that is one request with a body that is kept in memory.\<close>

definition request_text :: "('s, 'w) app \<Rightarrow> string \<Rightarrow> request \<Rightarrow> bool" where
  "request_text A t r \<longleftrightarrow> parse_bytes t = Inr (Complete r (length t)) \<and>
     length (req_body r) \<le> max_inmemory_body (app_upload A) \<and> length (req_body r) \<le> max_upload_size (app_upload A)"

lemma respond_continues: "respond A flag cap peer served trig req out w = Inr (s, out', w') \<Longrightarrow> \<not> trig \<and> s = served + 1 \<and> \<not> flag s \<and>
    s < ka_max_requests (app_keep_alive A) \<and> ka_enabled (app_keep_alive A)"
  by (auto simp: respond_def Let_def split: prod.splits sum.splits bool.splits if_splits)

lemma fetch_all_request:
  assumes "request_text A t r"
  shows "fetch_all A (t @ rest) w = Inr (r, rest, w)"
proof -
  obtain q e n where h: "parse_head_inner t = Inr (Some (q, e, n))" "length t = e + n" "r = q\<lparr>req_body := take n (drop e t)\<rparr>"
    using assms by (auto simp: request_text_def parse_bytes_Complete)
  then have p: "parse_head (t @ rest) = Inr (HeadComplete q e n)"
    using parse_head_inner_append by (simp add: parse_head_Complete)
  have n: "n \<le> max_inmemory_body (app_upload A)" "n \<le> max_upload_size (app_upload A)"
    using assms h by (auto simp: request_text_def)
  show ?thesis using p n h by (simp add: fetch_all_def)
qed

lemma serve_requests_in_order:
  assumes "\<forall>(t, r)\<in>set reqs. request_text A t r"
  shows "serve A flag cap peer served False (concat (map fst reqs)) (arrivals []) out w =
    serve_requests A flag cap peer served out w (map snd reqs)"
  using assms
proof (induction reqs arbitrary: served out w)
  case Nil
  have "parse_head [] = Inr HeadIncomplete" by code_simp
  then have "fetch_all A [] w = Inl (GoneQuiet w)" by (simp add: fetch_all_def)
  then have "fetch A (served > 0) False [] (arrivals []) w = GoneQuiet w"
    using fetch_arrivals [where cs = "[]" and A = A and bf = "[]" and w = w and kept = "served > 0" and trig = False] by simp
  then show ?case by (simp add: serve.simps [of A flag cap peer served False "[]"])
next
  case (Cons tr reqs)
  obtain t r where tr: "tr = (t, r)" by (cases tr)
  then have "fetch_all A (t @ concat (map fst reqs)) w = Inr (r, concat (map fst reqs), w)"
    using Cons.prems by (intro fetch_all_request) auto
  then obtain bf' cs' where f: "fetch A (served > 0) False (t @ concat (map fst reqs)) (arrivals []) w =
      Fetched r bf' False (arrivals cs') w" "bf' @ concat cs' = concat (map fst reqs)" "[] \<notin> set cs'"
    using fetch_arrivals [where cs = "[]" and A = A and bf = "t @ concat (map fst reqs)" and w = w and kept = "served > 0" and trig = False] by auto
  show ?case
  proof (cases "respond A flag cap peer served False r out w")
    case (Inl result)
    then show ?thesis using f tr by (simp add: serve.simps [of A flag cap peer served False "t @ concat (map fst reqs)"])
  next
    case (Inr x)
    obtain s out' w' where x: "x = (s, out', w')" by (cases x)
    have "\<not> flag s" using respond_continues [OF Inr [unfolded x]] by blast
    then have "serve A flag cap peer served False (concat (map fst (tr # reqs))) (arrivals []) out w =
        serve A flag cap peer s False bf' (arrivals cs') out' w'"
      using f tr Inr x by (simp add: serve.simps [of A flag cap peer served False "t @ concat (map fst reqs)"])
    also have "\<dots> = serve A flag cap peer s False (concat (map fst reqs)) (arrivals []) out' w'"
      by (rule serve_pieces) (use f(2,3) in simp_all)
    also have "\<dots> = serve_requests A flag cap peer s out' w' (map snd reqs)"
      using Cons.prems by (intro Cons.IH) simp
    finally show ?thesis using Inr x tr by simp
  qed
qed

text \<open>
  C20: Pipelined requests are answered one by one, in the order they were sent. When the peer sends
  the texts of some requests, cut into reads in any way, and then nothing more, the connection is
  the sequential conversation over exactly these requests: each is handled in the world its
  predecessors left, its response follows theirs, and the first answer that closes the connection
  ends it.
\<close>

theorem connection_in_order:
  assumes "\<forall>(t, r)\<in>set reqs. request_text A t r" "[] \<notin> set cs" "concat cs = concat (map fst reqs)"
  shows "serve A flag cap peer served False [] (map Data cs @ [Quiet]) out w =
    serve_requests A flag cap peer served out w (map snd reqs)"
proof -
  have "serve A flag cap peer served False [] (arrivals cs) out w =
      serve A flag cap peer served False (concat (map fst reqs)) (arrivals []) out w"
    by (rule serve_pieces) (use assms(2,3) in simp_all)
  also have "\<dots> = serve_requests A flag cap peer served out w (map snd reqs)"
    by (rule serve_requests_in_order [OF assms(1)])
  finally show ?thesis by (simp add: arrivals_def)
qed

theorem connection_in_order_witness:
  "\<exists>r. req_path r = ''/a'' \<and>
     serve demo_app (\<lambda>_. False) None None 0 False [] (map Data [''GET /'', ''a HTTP/1.1'' @ [CHR 0x0A, CHR 0x0A] @ ''GET'',
         '' /a HTTP/1.1'' @ [CHR 0x0A, CHR 0x0A]] @ [Quiet]) [] 0 =
       serve_requests demo_app (\<lambda>_. False) None None 0 [] 0 [r, r]"
proof -
  let ?t = "''GET /a HTTP/1.1'' @ [CHR 0x0A, CHR 0x0A]"
  let ?r = "\<lparr>req_method = ''GET'', req_path = ''/a'', req_version = Http11, req_headers = fields_new,
      req_query = fields_new, req_path_params = [], req_body = [], req_body_spool = None,
      req_remote_addr = None\<rparr>"
  have "parse_bytes ?t = Inr (Complete ?r (length ?t))" by code_simp
  then have "request_text demo_app ?t ?r" by (simp add: request_text_def)
  then have reqs: "\<forall>(t, r)\<in>set [(?t, ?r), (?t, ?r)]. request_text demo_app t r" by simp
  have "serve demo_app (\<lambda>_. False) None None 0 False [] (map Data [''GET /'', ''a HTTP/1.1'' @ [CHR 0x0A, CHR 0x0A] @ ''GET'',
         '' /a HTTP/1.1'' @ [CHR 0x0A, CHR 0x0A]] @ [Quiet]) [] 0 =
       serve_requests demo_app (\<lambda>_. False) None None 0 [] 0 (map snd [(?t, ?r), (?t, ?r)])"
    by (rule connection_in_order [OF reqs]) simp_all
  then show ?thesis by (intro exI [of _ ?r]) simp
qed

section \<open>Bounds\<close>

lemma read_next_quiet:
  "Quiet \<in> set es \<Longrightarrow> read_next race trig es \<noteq> Wait \<and>
     (\<forall>bs t es'. read_next race trig es = Got bs t es' \<longrightarrow> Quiet \<in> set es')"
  by (induction race trig es rule: read_next.induct) auto

lemma read_head_quiet:
  "Quiet \<in> set es \<Longrightarrow> read_head kept trig bf es \<noteq> HeadWait \<and>
     (\<forall>r e n b t es'. read_head kept trig bf es = HeadReady r e n b t es' \<longrightarrow> Quiet \<in> set es')"
proof (induction kept trig bf es rule: read_head.induct)
  case (1 kept trig bf es)
  show ?case
    using 1 read_next_quiet [OF 1(2), of "bf = [] \<and> kept" trig]
    by (subst (1 2) read_head.simps) (auto split: sum.split parsed_head.split read_result.split)
qed

lemma read_body_quiet:
  "Quiet \<in> set es \<Longrightarrow> read_body tot trig bf es \<noteq> BodyWait \<and>
     (\<forall>b t es'. read_body tot trig bf es = BodyReady b t es' \<longrightarrow> Quiet \<in> set es')"
proof (induction tot trig bf es rule: read_body.induct)
  case (1 tot trig bf es)
  show ?case
    using 1 read_next_quiet [OF 1(2), of False trig]
    by (subst (1 2) read_body.simps) (auto split: read_result.split)
qed

lemma spool_loop_quiet:
  "Quiet \<in> set es \<Longrightarrow> spool_loop cl content trig rest es \<noteq> SpoolWait c0 \<and>
     (\<forall>c b t es'. spool_loop cl content trig rest es = SpoolDone c b t es' \<longrightarrow> Quiet \<in> set es')"
proof (induction cl content trig rest es rule: spool_loop.induct)
  case (1 cl content trig rest es)
  show ?case
    using 1 read_next_quiet [OF 1(2), of False trig]
    by (subst (1 2) spool_loop.simps) (auto simp: Let_def split: read_result.split)
qed

lemma fetch_quiet:
  assumes "Quiet \<in> set es"
  shows "fetch A kept trig bf es w \<noteq> Pending w'" "fetch A kept trig bf es w = Fetched r b t es' w1 \<Longrightarrow> Quiet \<in> set es'"
proof -
  have "fetch A kept trig bf es w \<noteq> Pending w' \<and> (fetch A kept trig bf es w = Fetched r b t es' w1 \<longrightarrow> Quiet \<in> set es')"
  proof (cases "read_head kept trig bf es")
    case (HeadReady req e n bf1 t1 es1)
    then have q: "Quiet \<in> set es1" using read_head_quiet [OF assms] by blast
    show ?thesis
      using read_body_quiet [OF q, of "e + n" t1 bf1] spool_loop_quiet [OF q]
      unfolding fetch_def HeadReady Let_def spool_body_def
      by (auto split: body_result.splits spool_result.splits prod.splits bool.splits)
  qed (use read_head_quiet [OF assms, of kept trig bf] in \<open>auto simp: fetch_def split: failure.splits\<close>)
  then show "fetch A kept trig bf es w \<noteq> Pending w'"
    "fetch A kept trig bf es w = Fetched r b t es' w1 \<Longrightarrow> Quiet \<in> set es'" by blast+
qed

lemma send_cap: "(\<forall>c. cap = Some c \<longrightarrow> length out \<le> c) \<Longrightarrow> cap = Some c \<Longrightarrow> length (fst (send cap out bs)) \<le> c"
  by (simp add: send_def)

lemma send_pieces_cap: "(\<forall>c. cap = Some c \<longrightarrow> length out \<le> c) \<Longrightarrow> cap = Some c \<Longrightarrow> length (fst (send_pieces cap out ps well)) \<le> c"
proof (induction cap out ps well rule: send_pieces.induct)
  case (2 cap out p ps well)
  show ?case
    using 2 send_cap [OF 2(2,3), of p]
    by (cases "send cap out p") (auto split: bool.split)
qed simp

lemma stream_loop_cap:
  "(\<forall>c. cap = Some c \<longrightarrow> length out \<le> c) \<Longrightarrow> cap = Some c \<Longrightarrow>
     length (fst (stream_loop ra fc cap pos remaining out)) \<le> c"
proof (induction ra fc cap pos remaining out rule: stream_loop.induct)
  case (1 ra fc cap pos remaining out)
  show ?case
  proof (cases "remaining = 0")
    case True
    then show ?thesis using 1(2,3) by (subst stream_loop.simps) simp
  next
    case False
    show ?thesis
    proof (cases "ra pos (min remaining fc)")
      case None
      then show ?thesis using 1(2,3) False by (subst stream_loop.simps) simp
    next
      case (Some bs)
      obtain out' ok where s: "send cap out (take (min remaining fc) bs) = (out', ok)"
        by (cases "send cap out (take (min remaining fc) bs)")
      have "length out' \<le> c" using send_cap [OF 1(2,3), of "take (min remaining fc) bs"] s by simp
      then show ?thesis using 1 False Some s
        by (cases ok; cases "take (min remaining fc) bs = []"; subst stream_loop.simps) (simp_all add: Let_def)
    qed
  qed
qed

lemma bind_run_fst:
  assumes "bind_run x f = Inr (out', ok)" "\<And>h y. f h = Inr y \<Longrightarrow> length (fst y) \<le> c"
  shows "length out' \<le> c"
  using assms(1) assms(2) [where y = "(out', ok)"] by (auto simp: bind_run_Inr)

lemma write_response_cap:
  assumes "write_response A w cap out r conn is_head = Inr (out', ok)" "\<forall>c. cap = Some c \<longrightarrow> length out \<le> c" "cap = Some c"
  shows "length out' \<le> c"
proof -
  have out: "length out \<le> c" using assms(2,3) by simp
  have s: "length (fst (send cap o1 bs)) \<le> c" if "length o1 \<le> c" for o1 bs
    using send_cap [of cap o1 c bs] that assms(3) by simp
  have loop: "length (fst (stream_file A w cap o1 path rng n)) \<le> c" if "length o1 \<le> c" for o1 path rng n
    using stream_loop_cap [of cap o1 c] that assms(3) by (simp add: stream_file_def Let_def)
  have ps: "length (fst (send_pieces cap o1 p wl)) \<le> c" if "length o1 \<le> c" for o1 p wl
    using send_pieces_cap [of cap o1 c p wl] that assms(3) by simp
  show ?thesis
  proof (cases is_head)
    case True
    show ?thesis
      by (rule bind_run_fst [OF assms(1) [unfolded write_response_def if_P [OF True]]]) (use s out in auto)
  next
    case False
    note w = assms(1) [unfolded write_response_def if_not_P [OF False]]
    show ?thesis
    proof (cases "resp_body r")
      case (File path len rng)
      show ?thesis
      proof (rule bind_run_fst [OF w [unfolded File body.case]])
        fix head y
        obtain o1 b where sd: "send cap out head = (o1, b)" by (cases "send cap out head")
        assume "(case send cap out head of (out', True) \<Rightarrow> Inr (stream_file A w cap out' path rng len)
          | (out', False) \<Rightarrow> Inr (out', False)) = Inr y"
        then show "length (fst y) \<le> c" using s [OF out, of head] loop [of o1] sd by (cases b) auto
      qed
    next
      case (Stream len src)
      show ?thesis
      proof (rule bind_run_fst [OF w [unfolded Stream body.case]])
        fix head y
        obtain o1 b where sd: "send cap out head = (o1, b)" by (cases "send cap out head")
        assume "(case send cap out head of
            (out', True) \<Rightarrow> (case app_pieces A src of (ps, well) \<Rightarrow> Inr (send_pieces cap out' ps well))
          | (out', False) \<Rightarrow> Inr (out', False)) = Inr y"
        then show "length (fst y) \<le> c" using s [OF out, of head] ps [of o1] sd
          by (cases b; cases "app_pieces A src") auto
      qed
    next
      case Empty
      show ?thesis by (rule bind_run_fst [OF w [unfolded Empty body.case]]) (use s out in auto)
    next
      case (Bytes bs)
      show ?thesis by (rule bind_run_fst [OF w [unfolded Bytes body.case]]) (use s out in auto)
    qed
  qed
qed

lemma respond_cap:
  assumes "\<forall>c. cap = Some c \<longrightarrow> length out \<le> c" "cap = Some c"
  shows "respond A flag cap peer served trig req out w = Inl (en, out', n, w') \<Longrightarrow> length out' \<le> c \<and> n = served + 1"
    and "respond A flag cap peer served trig req out w = Inr (n, out', w') \<Longrightarrow> length out' \<le> c"
  using assms write_response_cap [OF _ assms]
  by (auto simp: respond_def Let_def split: prod.splits sum.splits bool.splits if_splits)

lemma respond_count:
  "respond A flag cap peer served trig req out w = Inl (en, out', n, w') \<Longrightarrow> n = served + 1 \<and> en \<noteq> StillOpen"
  by (auto simp: respond_def Let_def split: prod.splits sum.splits bool.splits if_splits)

lemma serve_bounds:
  assumes "serve A flag cap peer served trig bf es out w = (en, out', n, w')"
    and "served = 0 \<or> served < ka_max_requests (app_keep_alive A) \<and> ka_enabled (app_keep_alive A)"
    and "\<forall>c. cap = Some c \<longrightarrow> length out \<le> c"
  shows "n \<le> max 1 (ka_max_requests (app_keep_alive A)) \<and> (\<not> ka_enabled (app_keep_alive A) \<longrightarrow> n \<le> 1) \<and>
    (\<forall>c. cap = Some c \<longrightarrow> length out' \<le> c) \<and> (Quiet \<in> set es \<longrightarrow> en \<noteq> StillOpen)"
  using assms
proof (induction A flag cap peer served trig bf es out w rule: serve.induct)
  case (1 A flag cap peer served trig bf es out w)
  note unfolded = 1(2) [unfolded serve.simps [of A flag cap peer served trig bf es out w]]
  show ?case
  proof (cases "fetch A (served > 0) trig bf es w")
    case (LastWord x w1)
    then show ?thesis using unfolded 1(3,4) send_cap [OF 1(4)] by (cases x) auto
  next
    case (Pending w1)
    then show ?thesis using unfolded 1(3,4) fetch_quiet(1) [of es A "served > 0" trig bf w w1] by auto
  next
    case (Fetched req rest t es1 w1)
    show ?thesis
    proof (cases "respond A flag cap peer served t req out w1")
      case (Inl result)
      then have r: "respond A flag cap peer served t req out w1 = Inl (en, out', n, w')" using unfolded Fetched by simp
      from respond_count [OF r] respond_cap(1) [OF 1(4) _ r] 1(3) show ?thesis by auto
    next
      case (Inr x)
      obtain s o1 w2 where x: "x = (s, o1, w2)" by (cases x)
      note r = Inr [unfolded x]
      have "serve A flag cap peer s (t \<or> flag s) rest es1 o1 w2 = (en, out', n, w')" using unfolded Fetched r by simp
      moreover have "\<forall>c. cap = Some c \<longrightarrow> length o1 \<le> c" using respond_cap(2) [OF 1(4) _ r] by blast
      moreover have "s < ka_max_requests (app_keep_alive A) \<and> ka_enabled (app_keep_alive A)"
        using respond_continues [OF r] by blast
      ultimately show ?thesis
        using 1(1) [OF Fetched r refl refl] fetch_quiet(2) [of es A "served > 0" trig bf w req rest t es1 w1] Fetched by blast
    qed
  qed (use unfolded 1(3,4) in auto)
qed

text \<open>
  C22: A connection is bounded. It serves at most the configured number of requests, one when
  keep-alive is off, writes nothing beyond what the peer takes, and ends once the peer has
  nothing more to say, whatever the events, the application and the buffered bytes.
\<close>

theorem connection_bounded:
  assumes "serve A flag cap peer 0 trig bf es [] w = (en, out, n, w')"
  shows "n \<le> max 1 (ka_max_requests (app_keep_alive A)) \<and> (\<not> ka_enabled (app_keep_alive A) \<longrightarrow> n \<le> 1) \<and>
    (\<forall>c. cap = Some c \<longrightarrow> length out \<le> c) \<and> (Quiet \<in> set es \<longrightarrow> en \<noteq> StillOpen)"
  using serve_bounds [OF assms] by simp

theorem connection_bounded_witness:
  "serve demo_app (\<lambda>_. False) (Some 10) None 0 False [] [Quiet] [] 0 = (ClosedByServer, [], 0, 0) \<and>
     0 \<le> max 1 (ka_max_requests (app_keep_alive demo_app))"
proof -
  have "parse_head [] = Inr HeadIncomplete" by code_simp
  then have "read_head False False [] [Quiet] = HeadStop" by (subst read_head.simps) simp
  then have s: "serve demo_app (\<lambda>_. False) (Some 10) None 0 False [] [Quiet] [] 0 = (ClosedByServer, [], 0, 0)"
    by (subst serve.simps) (simp add: fetch_def)
  with connection_bounded [OF s] show ?thesis by simp
qed

section \<open>What goes on the wire\<close>

lemma stream_loop_all:
  assumes "\<forall>pos want. ra pos want = Some (take want (drop pos content))" "0 < fc"
  shows "pos + remaining \<le> length content \<Longrightarrow>
    stream_loop ra fc None pos remaining out = (out @ take remaining (drop pos content), True)"
proof (induction remaining arbitrary: pos out rule: less_induct)
  case (less remaining)
  show ?case
  proof (cases "remaining = 0")
    case True
    then show ?thesis by (subst stream_loop.simps) simp
  next
    case False
    define k where "k = min remaining fc"
    have k: "0 < k" "k \<le> remaining" using False assms(2) by (auto simp: k_def)
    have len: "length (take k (drop pos content)) = k" using less.prems k by simp
    have ne: "take k (drop pos content) \<noteq> []" using len k by (metis length_0_conv neq0_conv)
    have "stream_loop ra fc None pos remaining out =
        stream_loop ra fc None (pos + k) (remaining - k) (out @ take k (drop pos content))"
      using False assms(1) ne len k(1) by (subst stream_loop.simps) (simp add: Let_def send_def flip: k_def)
    also have "\<dots> = (out @ take k (drop pos content) @ take (remaining - k) (drop (pos + k) content), True)"
      using less.IH [of "remaining - k" "pos + k"] less.prems k by simp
    also have "take k (drop pos content) @ take (remaining - k) (drop (pos + k) content) = take remaining (drop pos content)"
      using take_add [of k "remaining - k" "drop pos content"] k by (simp add: add.commute)
    finally show ?thesis .
  qed
qed

lemma send_pieces_all: "send_pieces None out ps well = (out @ concat ps, well)"
  by (induction ps arbitrary: out) (simp_all add: send_def)

text \<open>
  The bytes of a body are exactly the announced ones. When the file is there and unchanged, a
  file response puts its head and then the file, or exactly the bytes of its range, on the wire,
  whatever the chunk size, and their number is the announced length; an answer to \<open>HEAD\<close> is the
  head alone, announcing the length the body would have.
\<close>

theorem body_written_exactly:
  assumes "resp_body r = File p len rng" "length content = len" "len \<le> u64_max"
    and "\<forall>s e. rng = Some (s, e) \<longrightarrow> s < e \<and> e \<le> len"
    and "app_opens A w p" "\<forall>pos want. app_read_at A w p pos want = Some (take want (drop pos content))"
    and "0 < app_file_chunk A" "encode_head r conn (body_len (resp_body r)) = Inr head"
  defines "bytes \<equiv> (case rng of None \<Rightarrow> content | Some (s, e) \<Rightarrow> take (e - s) (drop s content))"
  shows "write_response A w None out r conn False = Inr (out @ head @ bytes, True) \<and>
    length bytes = body_len (resp_body r) \<and>
    write_response A w None out r conn True = Inr (out @ head, True)"
proof -
  have sz: "wrapping_sub64 e s = e - s" if "rng = Some (s, e)" for s e
    using assms(3,4) that by (intro wrapping_sub64_plain) auto
  have "stream_file A w None (out @ head) p rng len = (out @ head @ bytes, True)"
  proof (cases rng)
    case None
    then show ?thesis
      using stream_loop_all [OF assms(6,7), of 0 len "out @ head"] assms(2,5) by (simp add: stream_file_def bytes_def)
  next
    case (Some se)
    obtain s e where se: "se = (s, e)" by (cases se)
    with Some assms(4) have "s < e" "e \<le> len" by simp_all
    then show ?thesis
      using stream_loop_all [OF assms(6,7), of s "e - s" "out @ head"] assms(2,5) Some se sz [of s e]
      by (simp add: stream_file_def bytes_def)
  qed
  moreover have "length bytes = body_len (resp_body r)"
    using assms(1,2,4) sz by (auto simp: bytes_def split: option.split)
  ultimately show ?thesis using assms(1,8) by (simp add: write_response_def send_def)
qed

text \<open>Four bytes of a file of ten.\<close>

definition demo_files :: "(unit, nat) app" where
  "demo_files = demo_app\<lparr>app_opens := (\<lambda>_ _. True), app_file_chunk := 3,
     app_read_at := (\<lambda>_ _ pos want. Some (take want (drop pos ''0123456789'')))\<rparr>"

theorem body_written_exactly_witness:
  "\<exists>head. write_response demo_files 0 None [] ((with_file (response_new 206) ''/a'' 10)\<lparr>resp_body := File ''/a'' 10 (Some (2, 6))\<rparr>)
     KeepAlive False = Inr ([] @ head @ ''2345'', True)"
proof -
  let ?r = "(with_file (response_new 206) ''/a'' 10)\<lparr>resp_body := File ''/a'' 10 (Some (2, 6))\<rparr> :: unit response"
  have b: "resp_body ?r = File ''/a'' 10 (Some (2, 6))" "length ''0123456789'' = 10" "(10 :: nat) \<le> u64_max"
    "\<forall>s e. Some (2 :: nat, 6 :: nat) = Some (s, e) \<longrightarrow> s < e \<and> e \<le> 10" "app_opens demo_files 0 ''/a''"
    "\<forall>pos want. app_read_at demo_files 0 ''/a'' pos want = Some (take want (drop pos ''0123456789''))"
    "0 < app_file_chunk demo_files"
    by (simp_all add: demo_files_def u64_max_def)
  have "case encode_head ?r KeepAlive (body_len (resp_body ?r)) of Inr _ \<Rightarrow> True | Inl _ \<Rightarrow> False" by code_simp
  then obtain head where h: "encode_head ?r KeepAlive (body_len (resp_body ?r)) = Inr head" by (auto split: sum.splits)
  have "take (6 - 2) (drop 2 ''0123456789'') = ''2345''" by simp
  with body_written_exactly [OF b h, of "[]"] show ?thesis by auto
qed

text \<open>
  When the file can no longer be opened, or ends early, the head has announced bytes that never
  follow, and the connection goes on as if they had.
\<close>

lemma short_file_keeps_connection:
  assumes "resp_body r = File p len rng" "\<not> app_opens A w p" "encode_head r conn (body_len (resp_body r)) = Inr head"
  shows "write_response A w None out r conn False = Inr (out @ head, True)"
  using assms by (simp add: write_response_def send_def stream_file_def Let_def)

text \<open>An upload that stops half way leaves what was received in its temporary file.\<close>

lemma aborted_upload_stays:
  assumes "parse_head s = Inr (HeadComplete req e n)" "n \<le> max_upload_size (app_upload A)"
    and "max_inmemory_body (app_upload A) < n" "length s < e + n" "[] \<notin> set cs" "concat cs = s"
  shows "serve A flag cap peer 0 False [] (map Data cs @ [Quiet]) out w =
    (ClosedByServer, out, 0, fst (app_store A (app_temp_path A w) (drop e s) w))"
proof -
  have "fetch_all A ([] @ concat cs) w = Inl (GoneQuiet (fst (app_store A (app_temp_path A w) (drop e s) w)))"
    using assms(1-4,6) by (simp add: fetch_all_def)
  then have "fetch A False False [] (arrivals cs) w = GoneQuiet (fst (app_store A (app_temp_path A w) (drop e s) w))"
    using fetch_arrivals [OF assms(5), where A = A and bf = "[]" and w = w and kept = False and trig = False] by simp
  then show ?thesis by (subst serve.simps) (simp add: arrivals_def)
qed

section \<open>Requests that are refused\<close>

lemma reject_total:
  assumes "st \<le> 65535" "length text \<le> 2 ^ 32"
  shows "\<exists>bytes. reject st text = Inr bytes \<and> (\<exists>t. bytes = ''HTTP/1.1 '' @ show_nat st @ t)"
proof -
  have "length ''content-type'' + length ''text/plain'' \<le> u32_max" by (simp add: u32_max_def)
  then obtain g where g: "fields_insert True fields_new ''content-type'' ''text/plain'' = Inr g"
    using fields_insert_new by blast
  let ?r = "\<lparr>resp_status = st, resp_headers = g, resp_body = Bytes text\<rparr> :: unit response"
  have "fields_byte_len g = 22" "fields_len g = 1"
  proof -
    have "fields_insert True fields_new ''content-type'' ''text/plain'' =
      Inr \<lparr>buf = ''content-typetext/plain'', entries = [\<lparr>name_start = 0, name_end = 12, value_start = 12, value_end = 22\<rparr>]\<rparr>"
      by code_simp
    with g show "fields_byte_len g = 22" "fields_len g = 1" by (auto simp: fields_byte_len_def fields_len_def)
  qed
  then have "encode_response_with ?r Close = Inr (head_text (response_lines ?r Close (length text)) @ text)"
    using encode_response_with_lines [of ?r Close] assms by (simp add: head_estimate_def u64_max_def)
  then have "reject st text = Inr (head_text (response_lines ?r Close (length text)) @ text)"
    using g by (simp add: reject_def content_type_def response_new_def with_body_def encode_response_def)
  then show ?thesis by (simp add: response_lines_def head_text_def status_line_def)
qed

lemma request_line_error: "parse_request_line l = Inl (ParseFailed e) \<Longrightarrow> e = BadRequestLine l"
  by (auto simp: parse_request_line_def bind_run_Inl lift_run_def Let_def split: list.splits if_splits prod.splits option.splits)
    (auto simp: map_sum_def split: sum.splits)

lemma decode_head_error:
  assumes "decode_head h = Inl (ParseFailed e)"
  shows "length (show_parse_error e) \<le> 60 + length h"
proof (cases "utf8_valid h")
  case False
  then have "e = BadRequestLine ''head is not valid UTF-8''" using assms by (simp add: decode_head_def)
  then show ?thesis by simp
next
  case True
  let ?rl = "trim (case lines_of h of [] \<Rightarrow> [] | l # _ \<Rightarrow> l)"
  have "length ?rl \<le> length h"
    using lines_from_length [of "[]" h] hd_le_sum [of "lines_of h"] length_trim [of "case lines_of h of [] \<Rightarrow> [] | l # _ \<Rightarrow> l"]
    by (simp add: lines_of_def)
  moreover have "parse_request_line ?rl = Inl (ParseFailed e)"
    using assms True
    by (auto simp: decode_head_def Let_def bind_run_Inl lift_run_def map_sum_def split: prod.splits sum.splits)
  then have "e = BadRequestLine ?rl" by (rule request_line_error)
  ultimately show ?thesis by simp
qed

lemma parse_head_error:
  assumes "parse_head s = Inl f"
  obtains e where "f = ParseFailed e" "length (show_parse_error e) \<le> 2 ^ 32"
proof (cases f)
  case (Panicked p)
  then have "parse_head_inner s = Inl (Panicked p)" using assms by (auto simp: parse_head_def bind_run_Inl split: option.splits)
  then show ?thesis using parse_head_inner_no_panic by blast
next
  case (ParseFailed e)
  then have "parse_head_inner s = Inl (ParseFailed e)"
    using assms by (auto simp: parse_head_def bind_run_Inl split: option.splits)
  then consider "e = TooLarge" | h where "length h \<le> MAX_HEAD_BYTES" "decode_head h = Inl (ParseFailed e)"
    by (auto simp: parse_head_inner_def bind_run_Inl split: option.splits if_splits)
      (metis length_take min.cobounded2 min.coboundedI2 not_le)+
  then have "length (show_parse_error e) \<le> 2 ^ 32"
  proof cases
    case (2 h)
    then show ?thesis using decode_head_error [of h e] by (simp add: MAX_HEAD_BYTES_def)
  qed simp
  with ParseFailed that show ?thesis by blast
qed



end
