(* ===== verification/Tracking.thy ===== *)
theory Tracking
  imports Web_Policy "HOL-Library.Word"
begin

text \<open>
  Visitor tracking and bans: \<open>crates/kernway-security/src/tracking.rs\<close> and its middleware in
  \<open>crates/kernway-server/src/tracking.rs\<close>.

  The text form of addresses, \<open>IpAddr::from_str\<close> and its \<open>Display\<close>, is a pair of functions of the
  definitions that use it. A \<open>Bans\<close> handle is its list: the lock only makes each call one step.
  Octets and prefixes are numbers; the masks are words of 32 and 128 bits.
\<close>

unbundle bit_operations_syntax

section \<open>Visitors\<close>

definition VISITOR_COOKIE :: string where "VISITOR_COOKIE = ''kw_visitor''"

record request_meta =
  rm_visitor_id :: string
  rm_ip :: "ip_addr option"
  rm_user_agent :: "string option"
  rm_path :: string
  rm_method :: string

definition new_visitor_id :: "string \<Rightarrow> string" where
  "new_visitor_id bytes = csrf_generate bytes"

definition visitor_cookie :: "string \<Rightarrow> string" where
  "visitor_cookie vid = VISITOR_COOKIE @ ''='' @ vid @ ''; Path=/; HttpOnly; SameSite=Lax; Max-Age=31536000''"

definition visitor_from_cookie :: "string \<Rightarrow> string option" where
  "visitor_from_cookie cookie_header =
     find_map (\<lambda>pair.
       case split_once (CHR ''='') pair of
         None \<Rightarrow> None
       | Some (name, val) \<Rightarrow> if trim name = VISITOR_COOKIE then Some (trim val) else None)
       (split_on (CHR '';'') cookie_header)"

definition first_untrusted :: "(string \<Rightarrow> ip_addr option) \<Rightarrow> ip_addr list \<Rightarrow> string list \<Rightarrow> ip_addr option" where
  "first_untrusted parse_ip trusted hops =
     find_map (\<lambda>hop.
       case parse_ip (trim hop) of
         None \<Rightarrow> None
       | Some ip \<Rightarrow> if ip \<in> set trusted then None else Some ip) hops"

definition client_ip :: "(string \<Rightarrow> ip_addr option) \<Rightarrow> socket_addr option \<Rightarrow> string option \<Rightarrow> ip_addr list \<Rightarrow> ip_addr option" where
  "client_ip parse_ip remote_addr forwarded_for trusted =
     (case remote_addr of
        None \<Rightarrow> None
      | Some (peer, port) \<Rightarrow>
          if peer \<notin> set trusted then Some peer
          else (case forwarded_for of
                  None \<Rightarrow> Some peer
                | Some forwarded \<Rightarrow>
                    (case first_untrusted parse_ip trusted (rev (split_on (CHR '','') forwarded)) of
                       Some ip \<Rightarrow> Some ip | None \<Rightarrow> Some peer)))"

section \<open>Ban lists\<close>

record cidr =
  network :: ip_addr
  prefix_len :: nat

datatype ban_rule =
    BanIp ip_addr
  | BanSubnet cidr
  | BanAgentExact string
  | BanAgentContains string
  | BanUser string

type_synonym ban_list = "ban_rule list"

definition add_ban :: "ban_rule \<Rightarrow> ban_list \<Rightarrow> ban_list" where
  "add_ban r l = (if r \<in> set l then l else l @ [r])"

definition remove_ban :: "ban_rule \<Rightarrow> ban_list \<Rightarrow> ban_list" where
  "remove_ban r l = filter (\<lambda>x. x \<noteq> r) l"

definition parse_u8 :: "string \<Rightarrow> nat option" where
  "parse_u8 s = parse_unsigned dec_digit 10 255 s"

fun is_ipv4 :: "ip_addr \<Rightarrow> bool" where
  "is_ipv4 (IpV4 a b c d) = True"
| "is_ipv4 (IpV6 os) = False"

definition parse_cidr :: "(string \<Rightarrow> ip_addr option) \<Rightarrow> string \<Rightarrow> cidr option" where
  "parse_cidr parse_ip spec =
     (case split_once (CHR ''/'') spec of
        Some (addr, pre) \<Rightarrow>
          (case parse_ip (trim addr) of
             None \<Rightarrow> None
           | Some net \<Rightarrow>
               (case parse_u8 (trim pre) of
                  None \<Rightarrow> None
                | Some p \<Rightarrow>
                    let mx = (if is_ipv4 net then 32 else 128)
                    in if p \<le> mx then Some \<lparr>network = net, prefix_len = p\<rparr> else None))
      | None \<Rightarrow>
          (case parse_ip (trim spec) of
             None \<Rightarrow> None
           | Some net \<Rightarrow> Some \<lparr>network = net, prefix_len = (if is_ipv4 net then 32 else 128)\<rparr>))"

definition ban_ip :: "ip_addr \<Rightarrow> ban_list \<Rightarrow> ban_list" where
  "ban_ip ip = add_ban (BanIp ip)"

definition unban_ip :: "ip_addr \<Rightarrow> ban_list \<Rightarrow> ban_list" where
  "unban_ip ip = remove_ban (BanIp ip)"

definition ban_subnet :: "(string \<Rightarrow> ip_addr option) \<Rightarrow> string \<Rightarrow> ban_list \<Rightarrow> ban_list" where
  "ban_subnet parse_ip spec l =
     (case parse_cidr parse_ip spec of None \<Rightarrow> l | Some c \<Rightarrow> add_ban (BanSubnet c) l)"

definition unban_subnet :: "(string \<Rightarrow> ip_addr option) \<Rightarrow> string \<Rightarrow> ban_list \<Rightarrow> ban_list" where
  "unban_subnet parse_ip spec l =
     (case parse_cidr parse_ip spec of None \<Rightarrow> l | Some c \<Rightarrow> remove_ban (BanSubnet c) l)"

definition ban_agent_exact :: "string \<Rightarrow> ban_list \<Rightarrow> ban_list" where
  "ban_agent_exact agent = add_ban (BanAgentExact agent)"

definition unban_agent_exact :: "string \<Rightarrow> ban_list \<Rightarrow> ban_list" where
  "unban_agent_exact agent = remove_ban (BanAgentExact agent)"

definition ban_agent_containing :: "string \<Rightarrow> ban_list \<Rightarrow> ban_list" where
  "ban_agent_containing phrase = add_ban (BanAgentContains (map to_ascii_lowercase phrase))"

definition unban_agent_containing :: "string \<Rightarrow> ban_list \<Rightarrow> ban_list" where
  "unban_agent_containing phrase = remove_ban (BanAgentContains (map to_ascii_lowercase phrase))"

definition ban_user :: "string \<Rightarrow> ban_list \<Rightarrow> ban_list" where
  "ban_user user = add_ban (BanUser user)"

definition unban_user :: "string \<Rightarrow> ban_list \<Rightarrow> ban_list" where
  "unban_user user = remove_ban (BanUser user)"

definition clear_bans :: "ban_list \<Rightarrow> ban_list" where
  "clear_bans l = []"

definition is_user_banned :: "ban_list \<Rightarrow> string \<Rightarrow> bool" where
  "is_user_banned l user \<longleftrightarrow> list_ex (\<lambda>r. r = BanUser user) l"

text \<open>\<open>u32::from\<close> and \<open>u128::from\<close>.\<close>

definition octets_word :: "nat list \<Rightarrow> 'a::len word" where
  "octets_word os = foldl (\<lambda>acc b. acc * 256 + of_nat b) 0 os"

definition prefix_mask :: "nat \<Rightarrow> nat \<Rightarrow> 'a::len word" where
  "prefix_mask width p = (if p = 0 then 0 else push_bit (width - p) (- 1))"

fun cidr_contains :: "cidr \<Rightarrow> ip_addr \<Rightarrow> bool" where
  "cidr_contains c ip =
     (case (network c, ip) of
        (IpV4 a b d e, IpV4 a' b' d' e') \<Rightarrow>
          (octets_word [a, b, d, e] :: 32 word) AND prefix_mask 32 (prefix_len c) =
          octets_word [a', b', d', e'] AND prefix_mask 32 (prefix_len c)
      | (IpV6 os, IpV6 os') \<Rightarrow>
          (octets_word os :: 128 word) AND prefix_mask 128 (prefix_len c) =
          octets_word os' AND prefix_mask 128 (prefix_len c)
      | _ \<Rightarrow> False)"

text \<open>\<open>str::contains\<close>.\<close>

fun contains_text :: "string \<Rightarrow> string \<Rightarrow> bool" where
  "contains_text s [] = True"
| "contains_text [] (p # ps) = False"
| "contains_text (c # cs) (p # ps) = (take (length (p # ps)) (c # cs) = p # ps \<or> contains_text cs (p # ps))"

fun rule_hits :: "ip_addr option \<Rightarrow> string option \<Rightarrow> ban_rule \<Rightarrow> bool" where
  "rule_hits ip ua (BanIp banned) = (ip = Some banned)"
| "rule_hits ip ua (BanSubnet c) = (case ip of None \<Rightarrow> False | Some ip \<Rightarrow> cidr_contains c ip)"
| "rule_hits ip ua (BanAgentExact exact) = (ua = Some exact)"
| "rule_hits ip ua (BanAgentContains phrase) =
     (case ua of None \<Rightarrow> False | Some ua \<Rightarrow> contains_text (map to_ascii_lowercase ua) phrase)"
| "rule_hits ip ua (BanUser u) = False"

definition is_banned :: "ban_list \<Rightarrow> ip_addr option \<Rightarrow> string option \<Rightarrow> bool" where
  "is_banned l ip ua = list_ex (rule_hits ip ua) l"

datatype ban_rule_view =
    ViewIp ip_addr
  | ViewSubnet string
  | ViewAgentExact string
  | ViewAgentContains string
  | ViewUser string

fun view_rule :: "(ip_addr \<Rightarrow> string) \<Rightarrow> ban_rule \<Rightarrow> ban_rule_view" where
  "view_rule show_ip (BanIp ip) = ViewIp ip"
| "view_rule show_ip (BanSubnet c) = ViewSubnet (show_ip (network c) @ ''/'' @ show_nat (prefix_len c))"
| "view_rule show_ip (BanAgentExact ua) = ViewAgentExact ua"
| "view_rule show_ip (BanAgentContains p) = ViewAgentContains p"
| "view_rule show_ip (BanUser u) = ViewUser u"

definition ban_rules :: "(ip_addr \<Rightarrow> string) \<Rightarrow> ban_list \<Rightarrow> ban_rule_view list" where
  "ban_rules show_ip l = map (view_rule show_ip) l"

section \<open>Middleware\<close>

definition visitor_tracking :: "(string \<Rightarrow> ip_addr option) \<Rightarrow> ip_addr list \<Rightarrow> string \<Rightarrow> (request_meta \<Rightarrow> 'w \<Rightarrow> 'w) \<Rightarrow>
    ('s, 'w) middleware" where
  "visitor_tracking parse_ip trusted bytes set_meta req w next_h =
     (let existing = Option.bind (header req ''cookie'') visitor_from_cookie;
          visitor_id = (case existing of Some v \<Rightarrow> v | None \<Rightarrow> new_visitor_id bytes);
          w = set_meta \<lparr>rm_visitor_id = visitor_id,
                rm_ip = client_ip parse_ip (req_remote_addr req) (header req ''x-forwarded-for'') trusted,
                rm_user_agent = header req ''user-agent'', rm_path = req_path req, rm_method = req_method req\<rparr> w
      in after (\<lambda>r. if existing = None then set_header ''set-cookie'' (visitor_cookie visitor_id) r else Inr r)
           (next_h req w))"

definition banned_response :: "'s response run" where
  "banned_response = bind_run (content_type (response_new 403) json_type)
     (\<lambda>r. Inr (with_body r (problem 403 ''Forbidden'' ''access denied'')))"

definition ban_filter :: "(string \<Rightarrow> ip_addr option) \<Rightarrow> ('w \<Rightarrow> ban_list) \<Rightarrow> ip_addr list \<Rightarrow> 's response run option \<Rightarrow>
    ('s, 'w) middleware" where
  "ban_filter parse_ip bans_in trusted custom req w next_h =
     (let ip = client_ip parse_ip (req_remote_addr req) (header req ''x-forwarded-for'') trusted
      in if is_banned (bans_in w) ip (header req ''user-agent'')
         then ((case custom of None \<Rightarrow> banned_response | Some r \<Rightarrow> r), w)
         else next_h req w)"

record active_visitor =
  av_id :: string
  av_authenticated :: bool
  av_meta :: request_meta
  av_last_seen :: nat

text \<open>Recording is best effort: \<open>record\<close> is what the store does to the world, an error included.\<close>

definition activity_tracking :: "('w \<Rightarrow> request_meta option) \<Rightarrow> ('w \<Rightarrow> security_context option) \<Rightarrow> nat \<Rightarrow>
    (active_visitor \<Rightarrow> 'w \<Rightarrow> 'w) \<Rightarrow> ('s, 'w) middleware" where
  "activity_tracking meta_of context_of now record_visit req w next_h =
     (case meta_of w of
        None \<Rightarrow> next_h req w
      | Some meta \<Rightarrow>
          let (vid, authed) =
            (case context_of w of
               Some c \<Rightarrow>
                 if is_authenticated c
                 then (case principal c of Some p \<Rightarrow> p | None \<Rightarrow> rm_visitor_id meta, True)
                 else (rm_visitor_id meta, False)
             | None \<Rightarrow> (rm_visitor_id meta, False))
          in next_h req (record_visit
               \<lparr>av_id = vid, av_authenticated = authed, av_meta = meta, av_last_seen = now\<rparr> w))"

section \<open>Lemmas\<close>

lemma first_untrusted_append:
  "first_untrusted parse_ip trusted (xs @ ys) =
     (case first_untrusted parse_ip trusted xs of Some ip \<Rightarrow> Some ip | None \<Rightarrow> first_untrusted parse_ip trusted ys)"
  unfolding first_untrusted_def by (rule find_map_append)

lemma first_untrusted_None:
  "first_untrusted parse_ip trusted hops = None \<longleftrightarrow>
     (\<forall>h\<in>set hops. \<forall>ip. parse_ip (trim h) = Some ip \<longrightarrow> ip \<in> set trusted)"
  by (induction hops) (auto simp: first_untrusted_def split: option.splits)

lemma first_untrusted_Some: "first_untrusted parse_ip trusted hops = Some ip \<Longrightarrow> ip \<notin> set trusted"
  by (induction hops) (auto simp: first_untrusted_def split: option.splits if_splits)

text \<open>
  C24: The client address cannot be forged past an honest proxy. A peer that is not a trusted proxy
  is itself the client, whatever the header says. Behind a trusted proxy, whatever a client puts
  in front of the entries added on the way changes nothing as soon as one of these reads as an
  address that is not trusted; in particular the last such address is the answer. The address of
  a trusted proxy is the answer only when the header has no other address to offer.
\<close>

theorem client_ip_unforgeable:
  "(\<forall>peer port fwd. peer \<notin> set trusted \<longrightarrow> client_ip parse_ip (Some (peer, port)) fwd trusted = Some peer) \<and>
   (\<forall>peer port forged h. (\<exists>s ip. s \<in> set (split_on (CHR '','') h) \<and> parse_ip (trim s) = Some ip \<and> ip \<notin> set trusted) \<longrightarrow>
      client_ip parse_ip (Some (peer, port)) (Some (forged @ '','' @ h)) trusted =
        client_ip parse_ip (Some (peer, port)) (Some h) trusted) \<and>
   (\<forall>peer port before s ip. peer \<in> set trusted \<and> CHR '','' \<notin> set s \<and> parse_ip (trim s) = Some ip \<and> ip \<notin> set trusted \<longrightarrow>
      client_ip parse_ip (Some (peer, port)) (Some (before @ '','' @ s)) trusted = Some ip) \<and>
   (\<forall>peer port h ip. client_ip parse_ip (Some (peer, port)) (Some h) trusted = Some ip \<and> ip \<in> set trusted \<longrightarrow>
      (\<forall>s\<in>set (split_on (CHR '','') h). \<forall>ip'. parse_ip (trim s) = Some ip' \<longrightarrow> ip' \<in> set trusted))"
proof (intro conjI allI impI ballI)
  fix peer port fwd
  assume "peer \<notin> set trusted"
  then show "client_ip parse_ip (Some (peer, port)) fwd trusted = Some peer" by (simp add: client_ip_def)
next
  fix peer port forged h
  assume u: "\<exists>s ip. s \<in> set (split_on (CHR '','') h) \<and> parse_ip (trim s) = Some ip \<and> ip \<notin> set trusted"
  have "first_untrusted parse_ip trusted (rev (split_on (CHR '','') h)) \<noteq> None"
    using u by (auto simp: first_untrusted_None)
  then obtain ip where "first_untrusted parse_ip trusted (rev (split_on (CHR '','') h)) = Some ip" by blast
  then show "client_ip parse_ip (Some (peer, port)) (Some (forged @ '','' @ h)) trusted =
        client_ip parse_ip (Some (peer, port)) (Some h) trusted"
    by (simp add: client_ip_def split_on_append_sep first_untrusted_append)
next
  fix peer port before s ip
  assume "peer \<in> set trusted \<and> CHR '','' \<notin> set s \<and> parse_ip (trim s) = Some ip \<and> ip \<notin> set trusted"
  then show "client_ip parse_ip (Some (peer, port)) (Some (before @ '','' @ s)) trusted = Some ip"
    by (simp add: client_ip_def split_on_append_sep split_on_absent first_untrusted_def)
next
  fix peer port h ip s ip'
  assume c: "client_ip parse_ip (Some (peer, port)) (Some h) trusted = Some ip \<and> ip \<in> set trusted"
    and s: "s \<in> set (split_on (CHR '','') h)" "parse_ip (trim s) = Some ip'"
  have "peer \<in> set trusted" using c by (auto simp: client_ip_def split: if_splits)
  then have "first_untrusted parse_ip trusted (rev (split_on (CHR '','') h)) = None"
    using c first_untrusted_Some [of parse_ip trusted "rev (split_on (CHR '','') h)"]
    by (auto simp: client_ip_def split: option.splits)
  then show "ip' \<in> set trusted" using s by (auto simp: first_untrusted_None)
qed

theorem client_ip_unforgeable_witness:
  "client_ip (\<lambda>s. if s = ''c'' then Some (IpV4 9 9 9 9) else None) (Some (IpV4 1 1 1 1, 80)) (Some (''c'' @ '','' @ ''c''))
     [IpV4 1 1 1 1] = Some (IpV4 9 9 9 9)"
proof -
  have "trim ''c'' = ''c''" by code_simp
  then show ?thesis
    using client_ip_unforgeable [of "[IpV4 1 1 1 1]" "\<lambda>s. if s = ''c'' then Some (IpV4 9 9 9 9) else None",
        THEN conjunct2, THEN conjunct2, THEN conjunct1, rule_format, of "IpV4 1 1 1 1" "''c''" "IpV4 9 9 9 9" 80 "''c''"]
    by simp
qed

text \<open>
  An entry that does not read as a bare address, such as one with a port, is skipped, and what the
  client wrote before it is believed.
\<close>

lemma client_ip_unreadable_hop:
  assumes "peer \<in> set trusted" "CHR '','' \<notin> set hop" "parse_ip (trim hop) = None"
    and "CHR '','' \<notin> set forged" "parse_ip (trim forged) = Some fake" "fake \<notin> set trusted"
  shows "client_ip parse_ip (Some (peer, port)) (Some (forged @ '','' @ hop)) trusted = Some fake"
  using assms by (simp add: client_ip_def split_on_append_sep split_on_absent first_untrusted_def)

section \<open>Subnets\<close>

definition octets_number :: "nat list \<Rightarrow> nat" where
  "octets_number os = foldl (\<lambda>acc b. acc * 256 + b) 0 os"

lemma octets_word_number: "octets_word os = (of_nat (octets_number os) :: 'a::len word)"
proof -
  have "foldl (\<lambda>acc b. acc * 256 + of_nat b) (of_nat n) os = (of_nat (foldl (\<lambda>acc b. acc * 256 + b) n os) :: 'a word)" for n
    by (induction os arbitrary: n) (simp_all flip: of_nat_mult of_nat_add add: of_nat_mult [of _ 256, simplified, symmetric])
  from this [of 0] show ?thesis by (simp add: octets_word_def octets_number_def)
qed

lemma octets_number_bound: "\<forall>b\<in>set os. b < 256 \<Longrightarrow> octets_number os < 256 ^ length os"
proof -
  have "\<forall>b\<in>set os. b < 256 \<Longrightarrow> foldl (\<lambda>acc b. acc * 256 + b) n os < (n + 1) * 256 ^ length os" for n
  proof (induction os arbitrary: n)
    case (Cons b os)
    have "foldl (\<lambda>acc b. acc * 256 + b) (n * 256 + b) os < (n * 256 + b + 1) * 256 ^ length os"
      using Cons by simp
    also have "\<dots> \<le> ((n + 1) * 256) * 256 ^ length os" using Cons.prems by (intro mult_right_mono) auto
    finally show ?case by (simp add: algebra_simps)
  qed simp
  from this [of 0] show "\<forall>b\<in>set os. b < 256 \<Longrightarrow> octets_number os < 256 ^ length os" by (simp add: octets_number_def)
qed

lemma mask_eq_drop_bit:
  fixes v w :: "'a::len word"
  assumes "p \<le> LENGTH('a)"
  shows "v AND prefix_mask LENGTH('a) p = w AND prefix_mask LENGTH('a) p \<longleftrightarrow>
    drop_bit (LENGTH('a) - p) v = drop_bit (LENGTH('a) - p) w"
proof (cases "p = 0")
  case True
  then show ?thesis by (simp add: prefix_mask_def)
next
  case False
  show ?thesis
  proof
    assume eq: "v AND prefix_mask LENGTH('a) p = w AND prefix_mask LENGTH('a) p"
    show "drop_bit (LENGTH('a) - p) v = drop_bit (LENGTH('a) - p) w"
    proof (rule bit_eqI)
      fix n
      assume "possible_bit TYPE('a word) n"
      have "bit (v AND prefix_mask LENGTH('a) p) (LENGTH('a) - p + n) = bit (w AND prefix_mask LENGTH('a) p) (LENGTH('a) - p + n)"
        by (simp only: eq)
      then show "bit (drop_bit (LENGTH('a) - p) v) n = bit (drop_bit (LENGTH('a) - p) w) n"
        using False by (cases "LENGTH('a) - p + n < LENGTH('a)")
          (auto simp: prefix_mask_def bit_and_iff bit_push_bit_iff bit_drop_bit_eq bit_not_iff bit_mask_iff dest: bit_imp_le_length)
    qed
  next
    assume eq: "drop_bit (LENGTH('a) - p) v = drop_bit (LENGTH('a) - p) w"
    have "bit v n = bit w n" if "LENGTH('a) - p \<le> n" for n
    proof -
      have "bit (drop_bit (LENGTH('a) - p) v) (n - (LENGTH('a) - p)) = bit (drop_bit (LENGTH('a) - p) w) (n - (LENGTH('a) - p))"
        by (simp only: eq)
      then show ?thesis using that by (simp add: bit_drop_bit_eq)
    qed
    then show "v AND prefix_mask LENGTH('a) p = w AND prefix_mask LENGTH('a) p"
      by (intro bit_eqI) (auto simp: prefix_mask_def bit_and_iff bit_push_bit_iff bit_not_iff bit_mask_iff)
  qed
qed

fun ip_octets :: "ip_addr \<Rightarrow> nat list" where
  "ip_octets (IpV4 a b c d) = [a, b, c, d]"
| "ip_octets (IpV6 os) = os"

definition ip_bits :: "ip_addr \<Rightarrow> nat" where
  "ip_bits ip = (if is_ipv4 ip then 32 else 128)"

definition ip_ok :: "ip_addr \<Rightarrow> bool" where
  "ip_ok ip \<longleftrightarrow> (\<forall>b\<in>set (ip_octets ip). b < 256) \<and> 8 * length (ip_octets ip) = ip_bits ip"

text \<open>The network of a given prefix length that an address lies in, as a number.\<close>

definition network_number :: "nat \<Rightarrow> ip_addr \<Rightarrow> nat" where
  "network_number p ip = octets_number (ip_octets ip) div 2 ^ (ip_bits ip - p)"

lemma ip_number_bound: "ip_ok ip \<Longrightarrow> octets_number (ip_octets ip) < 2 ^ ip_bits ip"
proof -
  assume ok: "ip_ok ip"
  then have "octets_number (ip_octets ip) < 256 ^ length (ip_octets ip)"
    by (intro octets_number_bound) (simp add: ip_ok_def)
  also have "(256 :: nat) ^ length (ip_octets ip) = 2 ^ (8 * length (ip_octets ip))"
    by (simp add: power_mult)
  finally show ?thesis using ok by (simp add: ip_ok_def)
qed

lemma masked_number:
  assumes "p \<le> LENGTH('a)" "octets_number os < 2 ^ LENGTH('a)" "octets_number os' < 2 ^ LENGTH('a)"
  shows "(octets_word os :: 'a::len word) AND prefix_mask LENGTH('a) p = octets_word os' AND prefix_mask LENGTH('a) p \<longleftrightarrow>
    octets_number os div 2 ^ (LENGTH('a) - p) = octets_number os' div 2 ^ (LENGTH('a) - p)"
proof -
  have u: "unat (octets_word os :: 'a word) = octets_number os" "unat (octets_word os' :: 'a word) = octets_number os'"
    using assms(2,3) by (simp_all add: octets_word_number unat_of_nat)
  have "drop_bit k (octets_word os :: 'a word) = drop_bit k (octets_word os') \<longleftrightarrow>
      unat (drop_bit k (octets_word os :: 'a word)) = unat (drop_bit k (octets_word os' :: 'a word))" for k
    by (rule word_unat_eq_iff)
  then show ?thesis
    unfolding mask_eq_drop_bit [OF assms(1)] by (simp add: unat_drop_bit_eq u drop_bit_nat_def)
qed

lemma cidr_contains_network:
  assumes "ip_ok (network c)" "ip_ok ip" "prefix_len c \<le> ip_bits (network c)"
  shows "cidr_contains c ip \<longleftrightarrow> is_ipv4 (network c) = is_ipv4 ip \<and>
    network_number (prefix_len c) (network c) = network_number (prefix_len c) ip"
proof (cases "network c")
  case (IpV4 a b d e)
  note n = IpV4
  show ?thesis
  proof (cases ip)
    case (IpV4 a' b' d' e')
    then show ?thesis
      using assms n ip_number_bound [OF assms(1)] ip_number_bound [OF assms(2)]
        masked_number [where 'a = 32, of "prefix_len c" "[a, b, d, e]" "[a', b', d', e']"]
      by (simp add: network_number_def ip_bits_def)
  qed (simp add: n)
next
  case (IpV6 os)
  note n = IpV6
  show ?thesis
  proof (cases ip)
    case (IpV6 os')
    then show ?thesis
      using assms n ip_number_bound [OF assms(1)] ip_number_bound [OF assms(2)]
        masked_number [where 'a = 128, of "prefix_len c" os os']
      by (simp add: network_number_def ip_bits_def)
  qed (simp add: n)
qed

lemma parse_cidr_prefix: "parse_cidr parse_ip spec = Some c \<Longrightarrow> prefix_len c \<le> ip_bits (network c)"
  by (auto simp: parse_cidr_def ip_bits_def Let_def split: option.splits prod.splits if_splits)

section \<open>Bans\<close>

datatype ban_call = Ban ban_rule | Unban ban_rule | ClearAll

fun apply_call :: "ban_call \<Rightarrow> ban_list \<Rightarrow> ban_list" where
  "apply_call (Ban r) l = add_ban r l"
| "apply_call (Unban r) l = remove_ban r l"
| "apply_call ClearAll l = clear_bans l"

definition bans_after :: "ban_call list \<Rightarrow> ban_list" where
  "bans_after calls = foldl (\<lambda>l c. apply_call c l) [] calls"

definition standing :: "ban_call list \<Rightarrow> ban_rule \<Rightarrow> bool" where
  "standing calls r \<longleftrightarrow> (\<exists>before later. calls = before @ Ban r # later \<and> Unban r \<notin> set later \<and> ClearAll \<notin> set later)"

lemma standing_snoc: "standing (calls @ [c]) r \<longleftrightarrow> c = Ban r \<or> (standing calls r \<and> c \<noteq> Unban r \<and> c \<noteq> ClearAll)"
proof
  assume "standing (calls @ [c]) r"
  then obtain before later where s: "calls @ [c] = before @ Ban r # later" "Unban r \<notin> set later" "ClearAll \<notin> set later"
    by (auto simp: standing_def)
  show "c = Ban r \<or> (standing calls r \<and> c \<noteq> Unban r \<and> c \<noteq> ClearAll)"
  proof (cases later rule: rev_cases)
    case Nil
    with s show ?thesis by simp
  next
    case (snoc ls l)
    with s have "calls = before @ Ban r # ls" "c = l" by simp_all
    with s snoc show ?thesis by (auto simp: standing_def)
  qed
next
  assume "c = Ban r \<or> (standing calls r \<and> c \<noteq> Unban r \<and> c \<noteq> ClearAll)"
  then show "standing (calls @ [c]) r"
  proof
    assume "c = Ban r"
    then show ?thesis unfolding standing_def by (intro exI [of _ calls] exI [of _ "[]"]) simp
  next
    assume a: "standing calls r \<and> c \<noteq> Unban r \<and> c \<noteq> ClearAll"
    then obtain before later where "calls = before @ Ban r # later" "Unban r \<notin> set later" "ClearAll \<notin> set later"
      by (auto simp: standing_def)
    with a show ?thesis unfolding standing_def by (intro exI [of _ before] exI [of _ "later @ [c]"]) auto
  qed
qed

lemma bans_after_standing: "r \<in> set (bans_after calls) \<longleftrightarrow> standing calls r"
proof (induction calls rule: rev_induct)
  case Nil
  then show ?case by (simp add: bans_after_def standing_def)
next
  case (snoc c calls)
  have "bans_after (calls @ [c]) = apply_call c (bans_after calls)" by (simp add: bans_after_def)
  with snoc show ?case
    by (cases c) (auto simp: standing_snoc add_ban_def remove_ban_def clear_bans_def)
qed

definition ban_answer :: "'s response run option \<Rightarrow> 's response run" where
  "ban_answer custom = (case custom of None \<Rightarrow> banned_response | Some r \<Rightarrow> r)"

interpretation banm: guard "ban_filter parse_ip bans_in trusted custom"
  "\<lambda>req w. \<not> is_banned (bans_in w) (client_ip parse_ip (req_remote_addr req) (header req ''x-forwarded-for'') trusted)
     (header req ''user-agent'')"
  "\<lambda>req w. ban_answer custom" for parse_ip bans_in trusted custom
  by unfold_locales (simp add: ban_filter_def ban_answer_def Let_def)

text \<open>
  C25: A standing ban stops a request before anything behind the filter runs. After any calls on the
  shared list, a request is let through exactly when no rule is left that was banned and neither
  unbanned nor cleared since and hits it; one that is stopped gets the ban answer and
  touches nothing. A subnet rule hits the addresses of its family that lie in the network of its
  prefix, for every prefix length from 0 on.
\<close>

theorem bans_enforced:
  assumes "bans_in = (\<lambda>w. bans_after (calls_in w))"
  shows "run_next (pre @ ban_filter parse_ip bans_in trusted custom # post) terminal =
      run_next pre (\<lambda>req w.
        if \<forall>r. standing (calls_in w) r \<longrightarrow>
             \<not> rule_hits (client_ip parse_ip (req_remote_addr req) (header req ''x-forwarded-for'') trusted)
                 (header req ''user-agent'') r
        then run_next post terminal req w else (ban_answer custom, w)) \<and>
    (\<forall>spec c ip ua. parse_cidr parse_ip spec = Some c \<and> ip_ok (network c) \<and> ip_ok ip \<longrightarrow>
       rule_hits (Some ip) ua (BanSubnet c) =
         (is_ipv4 (network c) = is_ipv4 ip \<and>
          network_number (prefix_len c) (network c) = network_number (prefix_len c) ip))"
proof
  have "is_banned (bans_in w) ip ua \<longleftrightarrow> \<not> (\<forall>r. standing (calls_in w) r \<longrightarrow> \<not> rule_hits ip ua r)" for w ip ua
    using bans_after_standing by (auto simp: assms is_banned_def list_ex_iff)
  then show "run_next (pre @ ban_filter parse_ip bans_in trusted custom # post) terminal =
      run_next pre (\<lambda>req w.
        if \<forall>r. standing (calls_in w) r \<longrightarrow>
             \<not> rule_hits (client_ip parse_ip (req_remote_addr req) (header req ''x-forwarded-for'') trusted)
                 (header req ''user-agent'') r
        then run_next post terminal req w else (ban_answer custom, w))"
    by (simp add: banm.chain)
  show "\<forall>spec c ip ua. parse_cidr parse_ip spec = Some c \<and> ip_ok (network c) \<and> ip_ok ip \<longrightarrow>
       rule_hits (Some ip) ua (BanSubnet c) =
         (is_ipv4 (network c) = is_ipv4 ip \<and>
          network_number (prefix_len c) (network c) = network_number (prefix_len c) ip)"
    using cidr_contains_network parse_cidr_prefix by (auto simp del: cidr_contains.simps)
qed

definition demo_ip :: "string \<Rightarrow> ip_addr option" where
  "demo_ip s = (if s = ''10.0.0.0'' then Some (IpV4 10 0 0 0) else None)"

theorem bans_enforced_witness:
  "parse_cidr demo_ip ''10.0.0.0/8'' = Some \<lparr>network = IpV4 10 0 0 0, prefix_len = 8\<rparr> \<and>
   rule_hits (Some (IpV4 10 5 6 7)) None (BanSubnet \<lparr>network = IpV4 10 0 0 0, prefix_len = 8\<rparr>) \<and>
   run_next [ban_filter demo_ip (\<lambda>w. bans_after w) [] (Some (Inr (response_new 403 :: unit response)))]
     (\<lambda>_ w. (Inr (response_new 200), ClearAll # w)) (demo_get\<lparr>req_remote_addr := Some (IpV4 10 5 6 7, 80)\<rparr>)
     [Ban (BanIp (IpV4 10 5 6 7))] = (Inr (response_new 403), [Ban (BanIp (IpV4 10 5 6 7))])"
proof (intro conjI)
  let ?c = "\<lparr>network = IpV4 10 0 0 0, prefix_len = 8\<rparr>"
  show p: "parse_cidr demo_ip ''10.0.0.0/8'' = Some ?c" by code_simp
  have "ip_ok (network ?c)" "ip_ok (IpV4 10 5 6 7)" by (simp_all add: ip_ok_def ip_bits_def)
  moreover have "network_number 8 (IpV4 10 0 0 0) = network_number 8 (IpV4 10 5 6 7)" by code_simp
  ultimately show "rule_hits (Some (IpV4 10 5 6 7)) None (BanSubnet ?c)"
    using bans_enforced [of "\<lambda>w. bans_after w" "\<lambda>w. w", OF refl, THEN conjunct2, rule_format,
        of demo_ip "''10.0.0.0/8''" ?c "IpV4 10 5 6 7" None] p
    by (simp del: rule_hits.simps)
  let ?l = "[Ban (BanIp (IpV4 10 5 6 7))]"
  let ?req = "demo_get\<lparr>req_remote_addr := Some (IpV4 10 5 6 7, 80)\<rparr>"
  have "standing ?l (BanIp (IpV4 10 5 6 7))" using standing_snoc [of "[]"] by auto
  moreover have "client_ip demo_ip (req_remote_addr ?req) fwd [] = Some (IpV4 10 5 6 7)" for fwd
    by (simp add: client_ip_def)
  ultimately show "run_next [ban_filter demo_ip (\<lambda>w. bans_after w) [] (Some (Inr (response_new 403 :: unit response)))]
     (\<lambda>_ w. (Inr (response_new 200), ClearAll # w)) ?req ?l = (Inr (response_new 403), ?l)"
    using bans_enforced [of "\<lambda>w. bans_after w" "\<lambda>w. w" "[]" demo_ip "[]" "Some (Inr (response_new 403 :: unit response))" "[]"
        "\<lambda>_ w. (Inr (response_new 200), ClearAll # w)", OF refl, THEN conjunct1, THEN fun_cong, THEN fun_cong, of ?req ?l]
    by (auto simp: ban_answer_def)
qed

text \<open>
  The cookie of a first visit is written with \<open>insert\<close>, which drops every cookie the handler set,
  such as the session of a login that is the first request.
\<close>

lemma visitor_cookie_replaces:
  assumes "header req ''cookie'' = None" "next_h req w' = (Inr r0, w1)" "good_headers r0"
    and "visitor_tracking parse_ip trusted bytes (\<lambda>_ _. w') req w next_h = (Inr r, w1)"
  shows "hdr r ''set-cookie'' = Some (visitor_cookie (new_visitor_id bytes)) \<and>
    filter (\<lambda>(n, v). n = ''set-cookie'') (fields_iter (resp_headers r)) = [(''set-cookie'', visitor_cookie (new_visitor_id bytes))]"
proof -
  let ?v = "visitor_cookie (new_visitor_id bytes)"
  have s: "set_header ''set-cookie'' ?v r0 = Inr r"
    using assms(1,2,4) by (auto simp: visitor_tracking_def after_def)
  then obtain g where g: "fields_insert True (resp_headers r0) ''set-cookie'' ?v = Inr g" "r = r0\<lparr>resp_headers := g\<rparr>"
    by (auto simp: set_header_def bind_run_Inr)
  have n: "utf8_valid ''set-cookie''" "stored_name True ''set-cookie'' = ''set-cookie''"
    by (auto intro!: is_ascii_utf8_valid simp: is_ascii_def stored_name_def to_ascii_lowercase_def)
  have "ord (hex_low d) < 128" if "d < 16" for d using that by (simp add: hex_low_def)
  moreover have "ord c div 16 < 16" "ord c mod 16 < 16" for c :: char
    using ord_less [of c] by (simp_all add: less_mult_imp_div_less)
  ultimately have "is_ascii (csrf_generate bytes)"
    by (auto simp: is_ascii_def csrf_generate_def list_all_iff)
  then have v: "utf8_valid ?v"
    by (intro is_ascii_utf8_valid) (simp add: is_ascii_def visitor_cookie_def VISITOR_COOKIE_def new_visitor_id_def)
  note law = fs.insert_law [OF assms(3) [unfolded good_headers_def] n(1) v g(1)]
    fs.lookup_insert [OF assms(3) [unfolded good_headers_def] n(1) v g(1), of "''set-cookie''"]
  have "filter (\<lambda>(n, v). n = ''set-cookie'') (filter (\<lambda>(k, _). k \<noteq> ''set-cookie'') ps) = []" for ps :: "(string \<times> string) list"
    by (auto simp: filter_empty_conv)
  then show ?thesis using law g(2) n(2) by (simp del: filter_filter)
qed

end
