(* ===== verification/Orm_Core.thy ===== *)
theory Orm_Core
  imports Hash_Map Expr_Eval
begin

text \<open>
  The persistence interface of \<open>kernway-orm-core\<close>: errors, column metadata, pages and the
  composable predicates of \<open>spec.rs\<close>. Serialization belongs to the application's types and to
  \<open>serde_json\<close>, so an entity type is a record of the answers the backends ask for, and numbers a
  record of the operations of \<open>f64\<close>.
\<close>

section \<open>Errors and metadata\<close>

datatype orm_error =
    NotFound
  | UniqueViolation string
  | ForeignKeyViolation
  | Connection string
  | Query string
  | Transaction string
  | TypeConversion string
  | Migration string
  | Unsupported string

datatype column_type = Integer | BigInt | TextColumn | Boolean | FloatColumn | Timestamp | Json | Unknown

record column_def =
  col_name :: string
  col_field :: string
  col_type :: column_type
  nullable :: bool
  primary_key :: bool
  unique :: bool
  auto :: bool

section \<open>Pages\<close>

record 'e page =
  items :: "'e list"
  page_total :: nat
  page_index :: nat
  page_size :: nat
  total_pages :: nat

definition div_ceil :: "nat \<Rightarrow> nat \<Rightarrow> nat" where
  "div_ceil a b = (a + b - 1) div b"

definition page_new :: "'e list \<Rightarrow> nat \<Rightarrow> nat \<Rightarrow> nat \<Rightarrow> 'e page" where
  "page_new xs tot page sz =
     \<lparr>items = xs, page_total = tot, page_index = page, page_size = sz,
      total_pages = (if sz = 0 then 0 else div_ceil tot sz)\<rparr>"

definition page_empty :: "'e page" where
  "page_empty = page_new [] 0 0 20"

text \<open>\<open>page + 1\<close> wraps on \<open>u64\<close> in a release build.\<close>

definition is_last :: "'e page \<Rightarrow> bool" where
  "is_last p \<longleftrightarrow> wrapping_add64 (page_index p) 1 \<ge> total_pages p"

definition has_next :: "'e page \<Rightarrow> bool" where
  "has_next p \<longleftrightarrow> \<not> is_last p"

section \<open>Predicates\<close>

text \<open>The operations of \<open>f64\<close> that comparisons use: reading a text and the partial order.\<close>

record 'x floats =
  parse_float :: "string \<Rightarrow> 'x option"
  float_cmp :: "'x \<Rightarrow> 'x \<Rightarrow> ordering option"

datatype spec =
    SpecEq string string
  | SpecNe string string
  | SpecGt string string
  | SpecLt string string
  | SpecGte string string
  | SpecLte string string
  | SpecLike string string
  | SpecIn string "string list"
  | SpecBetween string string string
  | SpecIsNull string
  | SpecIsNotNull string
  | SpecAnd spec spec
  | SpecOr spec spec
  | SpecNot spec

definition spec_cmp :: "'x floats \<Rightarrow> string option \<Rightarrow> string \<Rightarrow> ordering option" where
  "spec_cmp X field query =
     (case field of
        None \<Rightarrow> None
      | Some f \<Rightarrow>
          (case (parse_float X f, parse_float X query) of
             (Some a, Some b) \<Rightarrow> float_cmp X a b
           | _ \<Rightarrow> Some (str_cmp f query)))"

definition at_least :: "ordering option \<Rightarrow> bool" where
  "at_least r \<longleftrightarrow> r = Some Greater \<or> r = Some Equal"

definition at_most :: "ordering option \<Rightarrow> bool" where
  "at_most r \<longleftrightarrow> r = Some Less \<or> r = Some Equal"

fun spec_matches :: "'x floats \<Rightarrow> (string \<Rightarrow> string option) \<Rightarrow> spec \<Rightarrow> bool" where
  "spec_matches X get (SpecEq f v) = (spec_cmp X (get f) v = Some Equal)"
| "spec_matches X get (SpecNe f v) = (case spec_cmp X (get f) v of None \<Rightarrow> False | Some r \<Rightarrow> r \<noteq> Equal)"
| "spec_matches X get (SpecGt f v) = (spec_cmp X (get f) v = Some Greater)"
| "spec_matches X get (SpecLt f v) = (spec_cmp X (get f) v = Some Less)"
| "spec_matches X get (SpecGte f v) = at_least (spec_cmp X (get f) v)"
| "spec_matches X get (SpecLte f v) = at_most (spec_cmp X (get f) v)"
| "spec_matches X get (SpecLike f v) = (case get f of None \<Rightarrow> False | Some c \<Rightarrow> contains c v)"
| "spec_matches X get (SpecIn f vs) = list_ex (\<lambda>v. spec_cmp X (get f) v = Some Equal) vs"
| "spec_matches X get (SpecBetween f lo hi) = (at_least (spec_cmp X (get f) lo) \<and> at_most (spec_cmp X (get f) hi))"
| "spec_matches X get (SpecIsNull f) = (case get f of None \<Rightarrow> True | Some c \<Rightarrow> c = [])"
| "spec_matches X get (SpecIsNotNull f) = (case get f of None \<Rightarrow> False | Some c \<Rightarrow> c \<noteq> [])"
| "spec_matches X get (SpecAnd a b) = (spec_matches X get a \<and> spec_matches X get b)"
| "spec_matches X get (SpecOr a b) = (spec_matches X get a \<or> spec_matches X get b)"
| "spec_matches X get (SpecNot s) = (\<not> spec_matches X get s)"

section \<open>Lemmas on pages\<close>

lemma div_ceil_le: "0 < b \<Longrightarrow> p < div_ceil a b \<longleftrightarrow> p * b < a"
proof -
  assume b: "0 < b"
  have "p < (a + b - 1) div b \<longleftrightarrow> Suc p \<le> (a + b - 1) div b" by auto
  also have "\<dots> \<longleftrightarrow> Suc p * b \<le> a + b - 1" using b by (simp add: less_eq_div_iff_mult_less_eq)
  also have "\<dots> \<longleftrightarrow> p * b < a" using b by auto
  finally show ?thesis by (simp add: div_ceil_def)
qed

lemma concat_pages:
  assumes "0 < sz"
  shows "concat (map (\<lambda>p. take sz (drop (p * sz) xs)) [0..<n]) = take (n * sz) xs"
proof (induction n)
  case (Suc n)
  have "take (Suc n * sz) xs = take (n * sz) xs @ take sz (drop (n * sz) xs)"
    by (simp add: take_add [symmetric] add.commute)
  with Suc show ?case by simp
qed simp

end
