(* ===== verification/Orm_Memory.thy ===== *)
theory Orm_Memory
  imports Orm_Core "HOL-Library.Multiset"
begin

text \<open>
  \<open>kernway-orm-memory\<close>: the query builder, which filters, sorts and pages the entities of a
  hash map. The lock of the map is never poisoned here, and the boxed futures run at once.
\<close>

section \<open>Entities and values\<close>

text \<open>
  A field as \<open>serde_json\<close> gives it; arrays and objects carry their text. \<open>'n\<close> are JSON numbers,
  with their value as \<open>f64\<close> and their text.
\<close>

datatype 'n json =
    JNull
  | JBool bool
  | JNumber 'n
  | JString string
  | JCompound string

record ('n, 'x) json_ops =
  as_f64 :: "'n \<Rightarrow> 'x option"
  number_text :: "'n \<Rightarrow> string"
  json_text :: "'n json \<Rightarrow> string"
  json_floats :: "'x floats"

text \<open>
  What the application's type supplies: the key, the default key, the fields of the serialized
  entity, the columns, and the entity with a generated number as its key.
\<close>

record ('e, 'id, 'n) entity_ops =
  ent_id :: "'e \<Rightarrow> 'id"
  default_id :: 'id
  raw_field_value :: "'e \<Rightarrow> string \<Rightarrow> 'n json option"
  ent_columns :: "column_def list"
  set_key :: "'e \<Rightarrow> string \<Rightarrow> nat \<Rightarrow> orm_error + 'e"

definition field_value :: "('e, 'id, 'n) entity_ops \<Rightarrow> 'e \<Rightarrow> string \<Rightarrow> 'n json option" where
  "field_value N e field =
     (case raw_field_value N e field of
        Some (JString s) \<Rightarrow> Some (JString s)
      | Some (JNumber n) \<Rightarrow> Some (JNumber n)
      | Some (JBool b) \<Rightarrow> Some (JBool b)
      | _ \<Rightarrow> None)"

definition get_field_str :: "('n, 'x) json_ops \<Rightarrow> ('e, 'id, 'n) entity_ops \<Rightarrow> 'e \<Rightarrow> string \<Rightarrow> string option" where
  "get_field_str J N e field =
     (case field_value N e field of
        Some (JString s) \<Rightarrow> Some s
      | Some (JNumber n) \<Rightarrow> Some (number_text J n)
      | Some (JBool b) \<Rightarrow> Some (show_bool b)
      | _ \<Rightarrow> None)"

definition bool_cmp :: "bool \<Rightarrow> bool \<Rightarrow> ordering" where
  "bool_cmp a b = (if a = b then Equal else if b then Less else Greater)"

definition compare_field_values :: "('n, 'x) json_ops \<Rightarrow> 'n json \<Rightarrow> 'n json \<Rightarrow> ordering" where
  "compare_field_values J a b =
     (case (a, b) of
        (JNumber x, JNumber y) \<Rightarrow>
          (case (as_f64 J x, as_f64 J y) of
             (Some xf, Some yf) \<Rightarrow> (case float_cmp (json_floats J) xf yf of Some r \<Rightarrow> r | None \<Rightarrow> Equal)
           | _ \<Rightarrow> str_cmp (number_text J x) (number_text J y))
      | (JString x, JString y) \<Rightarrow> str_cmp x y
      | (JBool x, JBool y) \<Rightarrow> bool_cmp x y
      | _ \<Rightarrow> str_cmp (json_text J a) (json_text J b))"

definition cmp_field_to_query :: "('n, 'x) json_ops \<Rightarrow> 'n json \<Rightarrow> string \<Rightarrow> ordering option" where
  "cmp_field_to_query J v query =
     (case v of
        JNumber n \<Rightarrow>
          (case as_f64 J n of
             None \<Rightarrow> None
           | Some lhs \<Rightarrow>
               (case parse_float (json_floats J) query of
                  Some rhs \<Rightarrow> float_cmp (json_floats J) lhs rhs
                | None \<Rightarrow> Some (str_cmp (number_text J n) query)))
      | JString s \<Rightarrow> Some (str_cmp s query)
      | JBool b \<Rightarrow> Some (str_cmp (show_bool b) query)
      | _ \<Rightarrow> None)"

section \<open>The query builder\<close>

datatype mem_filter =
    FEq string string
  | FNe string string
  | FGt string string
  | FLt string string
  | FGte string string
  | FLte string string
  | FLike string string
  | FIn string "string list"
  | FBetween string string string
  | FIsNull string
  | FIsNotNull string

datatype order = Asc string | Desc string

type_synonym ('id, 'e) entities = "('id, 'e) hmap"

record ('id, 'e) mem_query =
  mq_store :: "('id, 'e) entities"
  mq_filters :: "mem_filter list"
  mq_spec :: "spec option"
  mq_order :: "order option"
  mq_limit :: "nat option"
  mq_offset :: nat

definition query_new :: "('id, 'e) entities \<Rightarrow> ('id, 'e) mem_query" where
  "query_new s = \<lparr>mq_store = s, mq_filters = [], mq_spec = None, mq_order = None, mq_limit = None, mq_offset = 0\<rparr>"

definition push_filter :: "mem_filter \<Rightarrow> ('id, 'e) mem_query \<Rightarrow> ('id, 'e) mem_query" where
  "push_filter f q = q\<lparr>mq_filters := mq_filters q @ [f]\<rparr>"

definition filter_spec :: "spec \<Rightarrow> ('id, 'e) mem_query \<Rightarrow> ('id, 'e) mem_query" where
  "filter_spec s q = q\<lparr>mq_spec := Some s\<rparr>"

definition order_by_asc :: "string \<Rightarrow> ('id, 'e) mem_query \<Rightarrow> ('id, 'e) mem_query" where
  "order_by_asc f q = q\<lparr>mq_order := Some (Asc f)\<rparr>"

definition order_by_desc :: "string \<Rightarrow> ('id, 'e) mem_query \<Rightarrow> ('id, 'e) mem_query" where
  "order_by_desc f q = q\<lparr>mq_order := Some (Desc f)\<rparr>"

definition limit :: "nat \<Rightarrow> ('id, 'e) mem_query \<Rightarrow> ('id, 'e) mem_query" where
  "limit n q = q\<lparr>mq_limit := Some n\<rparr>"

definition offset :: "nat \<Rightarrow> ('id, 'e) mem_query \<Rightarrow> ('id, 'e) mem_query" where
  "offset n q = q\<lparr>mq_offset := n\<rparr>"

definition filter_holds :: "('n, 'x) json_ops \<Rightarrow> ('e, 'id, 'n) entity_ops \<Rightarrow> 'e \<Rightarrow> mem_filter \<Rightarrow> bool" where
  "filter_holds J N e f =
     (let str = get_field_str J N e;
          versus = (\<lambda>fld v. Option.bind (field_value N e fld) (\<lambda>x. cmp_field_to_query J x v))
      in case f of
        FEq fld v \<Rightarrow> (case str fld of None \<Rightarrow> False | Some c \<Rightarrow> c = v)
      | FNe fld v \<Rightarrow> (case str fld of None \<Rightarrow> False | Some c \<Rightarrow> c \<noteq> v)
      | FGt fld v \<Rightarrow> versus fld v = Some Greater
      | FLt fld v \<Rightarrow> versus fld v = Some Less
      | FGte fld v \<Rightarrow> at_least (versus fld v)
      | FLte fld v \<Rightarrow> at_most (versus fld v)
      | FLike fld p \<Rightarrow> (case str fld of None \<Rightarrow> False | Some c \<Rightarrow> contains c p)
      | FIn fld vs \<Rightarrow> list_ex (\<lambda>v. versus fld v = Some Equal) vs
      | FBetween fld lo hi \<Rightarrow> at_least (versus fld lo) \<and> at_most (versus fld hi)
      | FIsNull fld \<Rightarrow> raw_field_value N e fld = Some JNull
      | FIsNotNull fld \<Rightarrow> (case raw_field_value N e fld of None \<Rightarrow> False | Some v \<Rightarrow> v \<noteq> JNull))"

definition matches_filters :: "('n, 'x) json_ops \<Rightarrow> ('e, 'id, 'n) entity_ops \<Rightarrow> ('id, 'e) mem_query \<Rightarrow> 'e \<Rightarrow> bool" where
  "matches_filters J N q e \<longleftrightarrow>
     list_all (filter_holds J N e) (mq_filters q) \<and>
     (case mq_spec q of None \<Rightarrow> True | Some s \<Rightarrow> spec_matches (json_floats J) (get_field_str J N e) s)"

definition order_reverse :: "ordering \<Rightarrow> ordering" where
  "order_reverse r = (case r of Less \<Rightarrow> Greater | Equal \<Rightarrow> Equal | Greater \<Rightarrow> Less)"

definition compare_by :: "('n, 'x) json_ops \<Rightarrow> ('e, 'id, 'n) entity_ops \<Rightarrow> string \<Rightarrow> 'e \<Rightarrow> 'e \<Rightarrow> ordering" where
  "compare_by J N field l r =
     (case (field_value N l field, field_value N r field) of
        (Some a, Some b) \<Rightarrow> compare_field_values J a b
      | (None, Some _) \<Rightarrow> Less
      | (Some _, None) \<Rightarrow> Greater
      | (None, None) \<Rightarrow> Equal)"

definition compare_entities :: "('n, 'x) json_ops \<Rightarrow> ('e, 'id, 'n) entity_ops \<Rightarrow> order \<Rightarrow> 'e \<Rightarrow> 'e \<Rightarrow> ordering" where
  "compare_entities J N order l r =
     (case order of
        Asc f \<Rightarrow> compare_by J N f l r
      | Desc f \<Rightarrow> order_reverse (compare_by J N f l r))"

text \<open>\<open>slice::sort_by\<close>: a stable sort, here by insertion.\<close>

fun insert_by :: "('e \<Rightarrow> 'e \<Rightarrow> ordering) \<Rightarrow> 'e \<Rightarrow> 'e list \<Rightarrow> 'e list" where
  "insert_by cmp x [] = [x]"
| "insert_by cmp x (y # ys) = (if cmp x y = Greater then y # insert_by cmp x ys else x # y # ys)"

definition sort_by :: "('e \<Rightarrow> 'e \<Rightarrow> ordering) \<Rightarrow> 'e list \<Rightarrow> 'e list" where
  "sort_by cmp xs = foldr (insert_by cmp) xs []"

definition collect_items :: "('n, 'x) json_ops \<Rightarrow> ('e, 'id, 'n) entity_ops \<Rightarrow> ('id, 'e) mem_query \<Rightarrow> 'e list" where
  "collect_items J N q =
     (let found = filter (matches_filters J N q) (map snd (mq_store q))
      in case mq_order q of None \<Rightarrow> found | Some dir \<Rightarrow> sort_by (compare_entities J N dir) found)"

definition apply_window :: "('id, 'e) mem_query \<Rightarrow> 'e list \<Rightarrow> 'e list" where
  "apply_window q xs =
     (let rest = drop (mq_offset q) xs in case mq_limit q of Some n \<Rightarrow> take n rest | None \<Rightarrow> rest)"

definition fetch_all :: "('n, 'x) json_ops \<Rightarrow> ('e, 'id, 'n) entity_ops \<Rightarrow> ('id, 'e) mem_query \<Rightarrow> 'e list" where
  "fetch_all J N q = apply_window q (collect_items J N q)"

definition fetch_one :: "('n, 'x) json_ops \<Rightarrow> ('e, 'id, 'n) entity_ops \<Rightarrow> ('id, 'e) mem_query \<Rightarrow> 'e option" where
  "fetch_one J N q = (case fetch_all J N (limit 1 q) of [] \<Rightarrow> None | e # _ \<Rightarrow> Some e)"

definition fetch_count :: "('n, 'x) json_ops \<Rightarrow> ('e, 'id, 'n) entity_ops \<Rightarrow> ('id, 'e) mem_query \<Rightarrow> nat" where
  "fetch_count J N q = length (collect_items J N q)"

definition saturating_mul64 :: "nat \<Rightarrow> nat \<Rightarrow> nat" where
  "saturating_mul64 a b = min (a * b) u64_max"

definition fetch_page :: "('n, 'x) json_ops \<Rightarrow> ('e, 'id, 'n) entity_ops \<Rightarrow> nat \<Rightarrow> nat \<Rightarrow> ('id, 'e) mem_query \<Rightarrow> 'e page" where
  "fetch_page J N page sz q =
     (let xs = collect_items J N q; tot = length xs
      in if sz = 0 then page_new [] tot page sz
         else page_new (take sz (drop (saturating_mul64 page sz) xs)) tot page sz)"

section \<open>Sorting\<close>

text \<open>A comparison that is a total preorder.\<close>

definition comparator_on :: "'e set \<Rightarrow> ('e \<Rightarrow> 'e \<Rightarrow> ordering) \<Rightarrow> bool" where
  "comparator_on A cmp \<longleftrightarrow>
     (\<forall>x\<in>A. \<forall>y\<in>A. cmp y x = order_reverse (cmp x y)) \<and>
     (\<forall>x\<in>A. \<forall>y\<in>A. \<forall>z\<in>A. cmp x y \<noteq> Greater \<longrightarrow> cmp y z \<noteq> Greater \<longrightarrow> cmp x z \<noteq> Greater)"

lemma order_reverse_simps [simp]:
  "order_reverse Less = Greater" "order_reverse Equal = Equal" "order_reverse Greater = Less"
  "order_reverse (order_reverse r) = r" "order_reverse r = Equal \<longleftrightarrow> r = Equal"
  by (cases r; simp add: order_reverse_def)+

lemma mset_insert_by [simp]: "mset (insert_by cmp x xs) = add_mset x (mset xs)"
  by (induction xs) auto

lemma mset_sort_by [simp]: "mset (sort_by cmp xs) = mset xs"
  by (induction xs) (auto simp: sort_by_def)

lemma set_insert_by [simp]: "set (insert_by cmp x xs) = Set.insert x (set xs)"
  by (metis mset_insert_by set_mset_add_mset_insert set_mset_mset)

lemma set_sort_by [simp]: "set (sort_by cmp xs) = set xs"
  by (metis mset_sort_by set_mset_mset)

abbreviation not_greater :: "('e \<Rightarrow> 'e \<Rightarrow> ordering) \<Rightarrow> 'e \<Rightarrow> 'e \<Rightarrow> bool" where
  "not_greater cmp x y \<equiv> cmp x y \<noteq> Greater"

lemma sorted_insert_by:
  assumes "comparator_on A cmp" "Set.insert x (set xs) \<subseteq> A" "sorted_wrt (not_greater cmp) xs"
  shows "sorted_wrt (not_greater cmp) (insert_by cmp x xs)"
  using assms(2,3)
proof (induction xs)
  case (Cons y ys)
  show ?case
  proof (cases "cmp x y = Greater")
    case True
    have "x \<in> A" "y \<in> A" using Cons(2) by auto
    then have "cmp y x = order_reverse (cmp x y)" using assms(1) unfolding comparator_on_def by blast
    with True have "cmp y x \<noteq> Greater" by simp
    moreover have "sorted_wrt (not_greater cmp) (insert_by cmp x ys)" using Cons by simp
    ultimately show ?thesis using True Cons(3) by simp
  next
    case False
    have "cmp x z \<noteq> Greater" if "z \<in> set ys" for z
    proof -
      have "x \<in> A" "y \<in> A" "z \<in> A" "cmp y z \<noteq> Greater" using that Cons(2,3) by auto
      with False assms(1) show ?thesis unfolding comparator_on_def by blast
    qed
    with False Cons(3) show ?thesis by simp
  qed
qed simp

lemma sorted_sort_by:
  assumes "comparator_on A cmp" "set xs \<subseteq> A"
  shows "sorted_wrt (not_greater cmp) (sort_by cmp xs)"
  using assms(2)
proof (induction xs)
  case (Cons x xs)
  then have "sorted_wrt (not_greater cmp) (insert_by cmp x (sort_by cmp xs))"
    by (intro sorted_insert_by [OF assms(1)]) auto
  then show ?case by (simp add: sort_by_def)
qed (simp add: sort_by_def)

text \<open>Entities that compare equal to one another keep their order.\<close>

lemma filter_insert_by:
  assumes "P x \<Longrightarrow> \<forall>y\<in>set ys. P y \<longrightarrow> cmp x y \<noteq> Greater"
  shows "filter P (insert_by cmp x ys) = (if P x then x # filter P ys else filter P ys)"
  using assms by (induction ys) auto

lemma sort_by_stable:
  assumes "\<forall>x\<in>set xs. \<forall>y\<in>set xs. P x \<longrightarrow> P y \<longrightarrow> cmp x y = Equal"
  shows "filter P (sort_by cmp xs) = filter P xs"
  using assms
proof (induction xs)
  case (Cons x xs)
  have "filter P (insert_by cmp x (sort_by cmp xs)) = (if P x then x # filter P (sort_by cmp xs) else filter P (sort_by cmp xs))"
    using Cons(2) by (intro filter_insert_by) auto
  with Cons show ?case by (simp add: sort_by_def)
qed (simp add: sort_by_def)

section \<open>Comparing fields\<close>

text \<open>Floats as the standard library orders them when no NaN is among them.\<close>

definition floats_ok :: "'x floats \<Rightarrow> bool" where
  "floats_ok X \<longleftrightarrow> (\<exists>c. (\<forall>a b. float_cmp X a b = Some (c a b)) \<and> comparator_on UNIV c)"

text \<open>The values of a column are of one kind, as those of a field of a Rust struct are.\<close>

fun same_kind :: "'n json option \<Rightarrow> 'n json option \<Rightarrow> bool" where
  "same_kind (Some (JNumber a)) (Some y) = (\<exists>b. y = JNumber b)"
| "same_kind (Some (JString a)) (Some y) = (\<exists>b. y = JString b)"
| "same_kind (Some (JBool a)) (Some y) = (\<exists>b. y = JBool b)"
| "same_kind _ _ = True"

lemma str_cmp_reverse: "str_cmp b a = order_reverse (str_cmp a b)"
  by (induction a b rule: str_cmp.induct) auto

lemma str_cmp_trans: "str_cmp a b \<noteq> Greater \<Longrightarrow> str_cmp b c \<noteq> Greater \<Longrightarrow> str_cmp a c \<noteq> Greater"
proof (induction a arbitrary: b c)
  case Nil
  then show ?case by (cases c) simp_all
next
  case (Cons x a)
  obtain y b' where b: "b = y # b'" using Cons.prems(1) by (cases b) simp_all
  obtain z c' where c: "c = z # c'" using Cons.prems(2) b by (cases c) simp_all
  consider "x = y" "y = z" | "x = y" "y \<noteq> z" | "x \<noteq> y" "y = z" | "x \<noteq> y" "y \<noteq> z" by blast
  then show ?case
  proof cases
    case 1
    with Cons.prems Cons.IH [of b' c'] show ?thesis by (simp add: b c)
  qed (use Cons.prems in \<open>auto simp: b c split: if_splits\<close>)
qed

text \<open>A field is a text, a number, a truth value or not there.\<close>

fun scalar :: "'n json \<Rightarrow> bool" where
  "scalar (JString _) = True"
| "scalar (JNumber _) = True"
| "scalar (JBool _) = True"
| "scalar _ = False"

lemma field_value_scalar: "field_value N e f = Some v \<Longrightarrow> scalar v"
  by (auto simp: field_value_def split: option.splits json.splits)

text \<open>\<open>Number::as_f64\<close> gives a value for every number, and none of them is NaN.\<close>

definition json_ok :: "('n, 'x) json_ops \<Rightarrow> bool" where
  "json_ok J \<longleftrightarrow> floats_ok (json_floats J) \<and> (\<forall>n. as_f64 J n \<noteq> None)"

lemma json_okE:
  assumes "json_ok J"
  shows "\<exists>g c. (\<forall>n. as_f64 J n = Some (g n)) \<and> (\<forall>a b. float_cmp (json_floats J) a b = Some (c a b)) \<and>
    (\<forall>a b. c b a = order_reverse (c a b)) \<and>
    (\<forall>a b d. c a b \<noteq> Greater \<longrightarrow> c b d \<noteq> Greater \<longrightarrow> c a d \<noteq> Greater)"
proof -
  obtain c where c: "\<forall>a b. float_cmp (json_floats J) a b = Some (c a b)" "comparator_on UNIV c"
    using assms unfolding json_ok_def floats_ok_def by blast
  have "\<forall>n. as_f64 J n = Some (the (as_f64 J n))" using assms by (auto simp: json_ok_def)
  with c show ?thesis unfolding comparator_on_def by (intro exI conjI) (assumption | blast)+
qed

lemma bool_cmp_laws:
  "bool_cmp b a = order_reverse (bool_cmp a b)"
  "bool_cmp a b \<noteq> Greater \<Longrightarrow> bool_cmp b d \<noteq> Greater \<Longrightarrow> bool_cmp a d \<noteq> Greater"
  by (auto simp: bool_cmp_def split: if_splits)

lemma same_kind_cases:
  assumes "scalar a" "same_kind (Some a) (Some b)"
  obtains x y where "a = JNumber x" "b = JNumber y"
  | x y where "a = JString x" "b = JString y"
  | x y where "a = JBool x" "b = JBool y"
  using assms by (cases a) auto

lemma compare_field_values_reverse:
  assumes "json_ok J" "scalar a" "same_kind (Some a) (Some b)"
  shows "compare_field_values J b a = order_reverse (compare_field_values J a b)"
proof -
  obtain g c where *: "\<forall>n. as_f64 J n = Some (g n)" "\<forall>a b. float_cmp (json_floats J) a b = Some (c a b)"
    "\<forall>a b. c b a = order_reverse (c a b)"
    "\<forall>a b d. c a b \<noteq> Greater \<longrightarrow> c b d \<noteq> Greater \<longrightarrow> c a d \<noteq> Greater"
    using json_okE [OF assms(1)] by blast
  from assms(2,3) show ?thesis
  proof (cases rule: same_kind_cases)
    case (1 x y)
    with *(1,2) show ?thesis by (simp add: compare_field_values_def *(3) [rule_format, of "g y" "g x"])
  next
    case (2 x y)
    then show ?thesis by (simp add: compare_field_values_def str_cmp_reverse [of y x])
  next
    case (3 x y)
    then show ?thesis by (simp add: compare_field_values_def bool_cmp_laws(1) [of y x])
  qed
qed

lemma compare_field_values_trans:
  assumes "json_ok J" "scalar a" "same_kind (Some a) (Some b)" "same_kind (Some b) (Some d)"
    "compare_field_values J a b \<noteq> Greater" "compare_field_values J b d \<noteq> Greater"
  shows "compare_field_values J a d \<noteq> Greater"
proof -
  obtain g c where *: "\<forall>n. as_f64 J n = Some (g n)" "\<forall>a b. float_cmp (json_floats J) a b = Some (c a b)"
    "\<forall>a b. c b a = order_reverse (c a b)"
    "\<forall>a b d. c a b \<noteq> Greater \<longrightarrow> c b d \<noteq> Greater \<longrightarrow> c a d \<noteq> Greater"
    using json_okE [OF assms(1)] by blast
  from assms(2,3) show ?thesis
  proof (cases rule: same_kind_cases)
    case (1 x y)
    from assms(4) 1 obtain z where "d = JNumber z" by auto
    with 1 assms(5,6) *(1,2) show ?thesis
      using *(4) [rule_format, of "g x" "g y" "g z"] by (simp add: compare_field_values_def)
  next
    case (2 x y)
    with assms(4-6) str_cmp_trans [of x y] show ?thesis by (auto simp: compare_field_values_def)
  next
    case (3 x y)
    with assms(4-6) bool_cmp_laws(2) [of x y] show ?thesis by (auto simp: compare_field_values_def)
  qed
qed

section \<open>Queries\<close>

lemma compare_by_comparator:
  assumes "json_ok J" "\<forall>x\<in>A. \<forall>y\<in>A. same_kind (field_value N x f) (field_value N y f)"
  shows "comparator_on A (compare_by J N f)"
  unfolding comparator_on_def
proof (intro conjI ballI impI)
  fix x y assume "x \<in> A" "y \<in> A"
  with assms(2) have "same_kind (field_value N x f) (field_value N y f)" by blast
  then show "compare_by J N f y x = order_reverse (compare_by J N f x y)"
    using compare_field_values_reverse [OF assms(1) field_value_scalar]
    by (auto simp: compare_by_def split: option.splits)
next
  fix x y z assume "x \<in> A" "y \<in> A" "z \<in> A" and le: "compare_by J N f x y \<noteq> Greater" "compare_by J N f y z \<noteq> Greater"
  then have "same_kind (field_value N x f) (field_value N y f)" "same_kind (field_value N y f) (field_value N z f)"
    using assms(2) by blast+
  with le show "compare_by J N f x z \<noteq> Greater"
    using compare_field_values_trans [OF assms(1) field_value_scalar [of N x f]]
    by (auto simp: compare_by_def split: option.splits)
qed

lemma comparator_reversed:
  assumes "comparator_on A cmp"
  shows "comparator_on A (\<lambda>x y. order_reverse (cmp x y))"
proof -
  have rev: "order_reverse (cmp x y) = cmp y x" if "x \<in> A" "y \<in> A" for x y
    using assms that unfolding comparator_on_def by metis
  show ?thesis unfolding comparator_on_def
  proof (intro conjI ballI impI)
    fix x y assume "x \<in> A" "y \<in> A"
    then show "order_reverse (cmp y x) = order_reverse (order_reverse (cmp x y))" by (simp add: rev)
  next
    fix x y z assume "x \<in> A" "y \<in> A" "z \<in> A" "order_reverse (cmp x y) \<noteq> Greater" "order_reverse (cmp y z) \<noteq> Greater"
    then show "order_reverse (cmp x z) \<noteq> Greater" using assms unfolding comparator_on_def by (metis rev)
  qed
qed

definition order_field :: "order \<Rightarrow> string" where
  "order_field dir = (case dir of Asc f \<Rightarrow> f | Desc f \<Rightarrow> f)"

lemma compare_entities_comparator:
  assumes "json_ok J" "\<forall>x\<in>A. \<forall>y\<in>A. same_kind (field_value N x (order_field dir)) (field_value N y (order_field dir))"
  shows "comparator_on A (compare_entities J N dir)"
proof (cases dir)
  case (Asc f)
  then show ?thesis using compare_by_comparator [of J A N f] assms by (simp add: order_field_def compare_entities_def [abs_def])
next
  case (Desc f)
  then show ?thesis using comparator_reversed [OF compare_by_comparator [of J A N f]] assms
    by (simp add: order_field_def compare_entities_def [abs_def])
qed

abbreviation matching :: "('n, 'x) json_ops \<Rightarrow> ('e, 'id, 'n) entity_ops \<Rightarrow> ('id, 'e) mem_query \<Rightarrow> 'e list" where
  "matching J N q \<equiv> filter (matches_filters J N q) (map snd (mq_store q))"

lemma comparator_refl: "comparator_on A cmp \<Longrightarrow> x \<in> A \<Longrightarrow> cmp x x = Equal"
  unfolding comparator_on_def by (metis order_reverse_simps(1,2,3) ordering.distinct(1,3) ordering.exhaust)

lemma comparator_equal:
  assumes "comparator_on A cmp" "e \<in> A" "x \<in> A" "y \<in> A" "cmp e x = Equal" "cmp e y = Equal"
  shows "cmp x y = Equal"
proof -
  have "cmp x e = Equal" "cmp y e = Equal" using assms unfolding comparator_on_def by (metis order_reverse_simps(2))+
  then have "cmp x y \<noteq> Greater" "cmp y x \<noteq> Greater"
    using assms unfolding comparator_on_def by (metis ordering.distinct(5))+
  moreover have "cmp y x = order_reverse (cmp x y)" using assms unfolding comparator_on_def by blast
  ultimately show ?thesis by (cases "cmp x y") auto
qed

lemma collect_items_limit [simp]: "collect_items J N (limit n q) = collect_items J N q"
  by (simp add: collect_items_def limit_def matches_filters_def [abs_def])

lemma take_hd_drop_1: "take 1 (drop n xs) = (if n < length xs then [xs ! n] else [])"
  by (simp add: take_Suc hd_drop_conv_nth)

lemma window_limit: "apply_window (limit n q) xs = take n (drop (mq_offset q) xs)"
  by (simp add: apply_window_def limit_def)

lemma fetch_one_nth:
  "fetch_one J N q =
     (if mq_offset q < length (collect_items J N q) then Some (collect_items J N q ! mq_offset q) else None)"
  unfolding fetch_one_def fetch_all_def window_limit collect_items_limit take_hd_drop_1 by simp

lemma sort_by_stable_class:
  assumes "comparator_on A cmp" "set xs \<subseteq> A" "e \<in> A"
  shows "filter (\<lambda>x. cmp e x = Equal) (sort_by cmp xs) = filter (\<lambda>x. cmp e x = Equal) xs"
proof (rule sort_by_stable, intro ballI impI)
  fix x y assume "x \<in> set xs" "y \<in> set xs" "cmp e x = Equal" "cmp e y = Equal"
  then show "cmp x y = Equal" using assms(2) by - (rule comparator_equal [OF assms(1,3)], auto)
qed


text \<open>Numbers as integers, and people with a name and an age.\<close>

definition int_json :: "(int, int) json_ops" where
  "int_json = \<lparr>as_f64 = Some, number_text = (\<lambda>_. []), json_text = (\<lambda>_. []),
     json_floats = \<lparr>parse_float = (\<lambda>_. None),
       float_cmp = (\<lambda>a b. Some (if a < b then Less else if a = b then Equal else Greater))\<rparr>\<rparr>"

definition people_ops :: "(string \<times> int, string, int) entity_ops" where
  "people_ops = \<lparr>ent_id = fst, default_id = [],
     raw_field_value = (\<lambda>e f. if f = ''age'' then Some (JNumber (snd e)) else None),
     ent_columns = [], set_key = (\<lambda>e f n. Inr e)\<rparr>"

definition people :: "(string, string \<times> int) entities" where
  "people = map (\<lambda>e. (fst e, e)) [(''ann'', 40), (''bob'', 30), (''eve'', 40), (''joe'', 7)]"

lemma int_json_ok: "json_ok int_json"
  unfolding json_ok_def floats_ok_def comparator_on_def
  by (auto simp: int_json_def split: if_splits intro!: exI [of _ "\<lambda>a b. if a < b then Less else if a = b then Equal else Greater"])


text \<open>
  The filters and the predicates of \<open>spec.rs\<close>, which are documented to compare by the same rule,
  differ: a text field that looks like a number is compared as text by the first and as a number by
  the second.
\<close>

lemma filter_and_spec_disagree:
  assumes "field_value N e f = Some (JString ''9'')" "X = json_floats J"
    and "parse_float X ''9'' = Some a" "parse_float X ''10'' = Some b" "float_cmp X a b = Some Less"
  shows "filter_holds J N e (FGt f ''10'')" "\<not> spec_matches X (get_field_str J N e) (SpecGt f ''10'')"
  using assms by (simp_all add: filter_holds_def cmp_field_to_query_def get_field_str_def spec_cmp_def)

text \<open>The percent sign of a pattern, documented as in SQL, is an ordinary character.\<close>

lemma like_has_no_wildcards:
  "field_value N e f = Some (JString ''abc'') \<Longrightarrow> \<not> filter_holds J N e (FLike f ''a%'')"
  by (simp add: filter_holds_def get_field_str_def contains_def prefix_def)

text \<open>A second ordering, documented to be appended, replaces the first.\<close>

lemma second_order_replaces:
  "order_by_asc g (order_by_desc f q) = order_by_asc g q" "order_by_desc g (order_by_asc f q) = order_by_desc g q"
  by (simp_all add: order_by_asc_def order_by_desc_def)

section \<open>Pages\<close>

lemma fetch_page_items:
  assumes "0 < sz" "page * sz \<le> u64_max"
  shows "items (fetch_page J N page sz q) = take sz (drop (page * sz) (collect_items J N q))"
  using assms by (simp add: fetch_page_def page_new_def saturating_mul64_def min_absorb1 Let_def)

lemma fetch_page_past:
  assumes "0 < sz" "length (collect_items J N q) \<le> page * sz" "length (collect_items J N q) \<le> u64_max"
  shows "items (fetch_page J N page sz q) = []"
  using assms by (simp add: fetch_page_def page_new_def saturating_mul64_def Let_def min_def)

lemma fetch_page_total:
  "0 < sz \<Longrightarrow> total_pages (fetch_page J N page sz q) = div_ceil (length (collect_items J N q)) sz"
  "page_index (fetch_page J N page sz q) = page"
  by (simp_all add: fetch_page_def page_new_def Let_def)

text \<open>
  C31: the pages of a query in order are all its results, each once and in order; no page is longer
  than the page size, and a page says that another follows exactly when the next page is not empty.
\<close>
theorem pages_partition:
  assumes "0 < sz" "length (collect_items J N q) \<le> u64_max"
  shows "concat (map (\<lambda>p. items (fetch_page J N p sz q)) [0..<total_pages (fetch_page J N 0 sz q)]) = collect_items J N q \<and>
    (\<forall>p. length (items (fetch_page J N p sz q)) \<le> sz) \<and>
    (\<forall>p. p < u64_max \<longrightarrow> (has_next (fetch_page J N p sz q) \<longleftrightarrow> items (fetch_page J N (p + 1) sz q) \<noteq> []))"
proof (intro conjI allI impI)
  let ?xs = "collect_items J N q" and ?n = "div_ceil (length (collect_items J N q)) sz"
  have start: "p * sz \<le> u64_max" if "p < ?n" for p using that div_ceil_le [OF assms(1)] assms(2) by force
  have "concat (map (\<lambda>p. items (fetch_page J N p sz q)) [0..<?n]) = concat (map (\<lambda>p. take sz (drop (p * sz) ?xs)) [0..<?n])"
    using start assms(1) by (intro arg_cong [where f = concat] map_cong) (auto simp: fetch_page_items)
  also have "\<dots> = take (?n * sz) ?xs" by (rule concat_pages [OF assms(1)])
  also have "\<dots> = ?xs" using div_ceil_le [OF assms(1), of ?n "length ?xs"] by simp
  finally show "concat (map (\<lambda>p. items (fetch_page J N p sz q)) [0..<total_pages (fetch_page J N 0 sz q)]) = ?xs"
    by (simp add: fetch_page_total assms(1))
  show "length (items (fetch_page J N p sz q)) \<le> sz" for p
    using assms(1) by (simp add: fetch_page_def page_new_def Let_def)
  fix p assume p: "p < u64_max"
  then have "has_next (fetch_page J N p sz q) \<longleftrightarrow> p + 1 < ?n"
    using assms(1) by (simp add: has_next_def is_last_def fetch_page_total wrapping_add64_def u64_max_def not_le)
  also have "\<dots> \<longleftrightarrow> (p + 1) * sz < length ?xs" by (rule div_ceil_le [OF assms(1)])
  also have "\<dots> \<longleftrightarrow> items (fetch_page J N (p + 1) sz q) \<noteq> []"
  proof
    assume l: "(p + 1) * sz < length ?xs"
    then show "items (fetch_page J N (p + 1) sz q) \<noteq> []"
      using assms fetch_page_items [of sz "p + 1" J N q] by simp
  qed (use fetch_page_past [OF assms(1) _ assms(2)] not_le in blast)
  finally show "has_next (fetch_page J N p sz q) \<longleftrightarrow> items (fetch_page J N (p + 1) sz q) \<noteq> []" .
qed

lemma pages_partition_witness:
  "concat (map (\<lambda>p. items (fetch_page int_json people_ops p 3 (query_new people))) [0..<2]) = map snd people"
proof -
  have c: "collect_items int_json people_ops (query_new people) = map snd people" by code_simp
  have "length (collect_items int_json people_ops (query_new people)) \<le> u64_max"
    unfolding c by (simp add: people_def u64_max_def)
  moreover have "total_pages (fetch_page int_json people_ops 0 3 (query_new people)) = 2" by code_simp
  ultimately show ?thesis
    using pages_partition [of 3 int_json people_ops "query_new people"] c by simp
qed

text \<open>The last index wraps to zero, so the last possible page claims that another follows.\<close>

lemma last_page_wraps: "0 < sz \<Longrightarrow> 0 < tot \<Longrightarrow> has_next (page_new [] tot u64_max sz)"
  using div_ceil_le [of sz 0 tot]
  by (simp add: has_next_def is_last_def page_new_def wrapping_add64_def u64_max_def)

end
