(* ===== verification/Orm_Repository.thy ===== *)
theory Orm_Repository
  imports Orm_Memory
begin

text \<open>
  The repository of \<open>kernway-orm-memory\<close> over a hash map with its counter of generated keys, and
  the default operations of the \<open>Repository\<close> trait it overrides.
\<close>

section \<open>The repository\<close>

record ('id, 'e) repository =
  entities :: "('id, 'e) entities"
  next_id :: nat

definition repo_new :: "('id, 'e) repository" where
  "repo_new = \<lparr>entities = [], next_id = 0\<rparr>"

definition maybe_assign_id :: "('e, 'id, 'n) entity_ops \<Rightarrow> 'e \<Rightarrow> ('id, 'e) repository \<Rightarrow> (orm_error + 'e) \<times> ('id, 'e) repository" where
  "maybe_assign_id N e r =
     (if ent_id N e \<noteq> default_id N then (Inr e, r)
      else
        let nxt = wrapping_add64 (next_id r) 1; r = r\<lparr>next_id := nxt\<rparr>
        in case find primary_key (ent_columns N) of
             None \<Rightarrow> (Inl (TypeConversion ''entity is missing primary key metadata''), r)
           | Some c \<Rightarrow> (set_key N e (col_field c) nxt, r))"

definition find_by_id :: "'id \<Rightarrow> ('id, 'e) repository \<Rightarrow> 'e option" where
  "find_by_id k r = hm_get (entities r) k"

definition find_all :: "('id, 'e) repository \<Rightarrow> 'e list" where
  "find_all r = map snd (entities r)"

definition find_all_by_ids :: "'id list \<Rightarrow> ('id, 'e) repository \<Rightarrow> 'e list" where
  "find_all_by_ids ks r = List.map_filter (hm_get (entities r)) ks"

definition row_count :: "('id, 'e) repository \<Rightarrow> nat" where
  "row_count r = hm_len (entities r)"

definition exists_by_id :: "'id \<Rightarrow> ('id, 'e) repository \<Rightarrow> bool" where
  "exists_by_id k r \<longleftrightarrow> hm_get (entities r) k \<noteq> None"

definition save :: "('e, 'id, 'n) entity_ops \<Rightarrow> 'e \<Rightarrow> ('id, 'e) repository \<Rightarrow> (orm_error + 'e) \<times> ('id, 'e) repository" where
  "save N e r =
     (case maybe_assign_id N e r of
        (Inl x, r) \<Rightarrow> (Inl x, r)
      | (Inr e, r) \<Rightarrow> (Inr e, r\<lparr>entities := hm_insert (entities r) (ent_id N e) e\<rparr>))"

text \<open>The first error ends the batch; what was saved before stays.\<close>

fun save_all :: "('e, 'id, 'n) entity_ops \<Rightarrow> 'e list \<Rightarrow> ('id, 'e) repository \<Rightarrow> (orm_error + 'e list) \<times> ('id, 'e) repository" where
  "save_all N [] r = (Inr [], r)"
| "save_all N (e # es) r =
     (case save N e r of
        (Inl x, r) \<Rightarrow> (Inl x, r)
      | (Inr e, r) \<Rightarrow>
          (case save_all N es r of (Inl x, r) \<Rightarrow> (Inl x, r) | (Inr es, r) \<Rightarrow> (Inr (e # es), r)))"

definition delete_by_id :: "'id \<Rightarrow> ('id, 'e) repository \<Rightarrow> ('id, 'e) repository" where
  "delete_by_id k r = r\<lparr>entities := hm_remove (entities r) k\<rparr>"

definition delete_all_by_ids :: "'id list \<Rightarrow> ('id, 'e) repository \<Rightarrow> ('id, 'e) repository" where
  "delete_all_by_ids ks r = fold delete_by_id ks r"

definition query :: "('id, 'e) repository \<Rightarrow> ('id, 'e) mem_query" where
  "query r = query_new (entities r)"


section \<open>The defaults of the trait\<close>

text \<open>
  Each default over the four primitives of a backend; \<open>'s\<close> is the backend's state. The first error
  ends the operation.
\<close>

fun default_find_all_by_ids :: "('id \<Rightarrow> 's \<Rightarrow> orm_error + 'e option) \<Rightarrow> 'id list \<Rightarrow> 's \<Rightarrow> orm_error + 'e list" where
  "default_find_all_by_ids look [] s = Inr []"
| "default_find_all_by_ids look (k # ks) s =
     (case look k s of
        Inl x \<Rightarrow> Inl x
      | Inr row \<Rightarrow>
          (case default_find_all_by_ids look ks s of
             Inl x \<Rightarrow> Inl x
           | Inr rows \<Rightarrow> Inr (case row of None \<Rightarrow> rows | Some e \<Rightarrow> e # rows)))"

definition default_exists_by_id :: "('id \<Rightarrow> 's \<Rightarrow> orm_error + 'e option) \<Rightarrow> 'id \<Rightarrow> 's \<Rightarrow> orm_error + bool" where
  "default_exists_by_id look k s = (case look k s of Inl x \<Rightarrow> Inl x | Inr row \<Rightarrow> Inr (row \<noteq> None))"

definition default_find_all :: "('s \<Rightarrow> 'q) \<Rightarrow> ('q \<Rightarrow> 'e list) \<Rightarrow> 's \<Rightarrow> 'e list" where
  "default_find_all qry all s = all (qry s)"

definition default_count :: "('s \<Rightarrow> 'q) \<Rightarrow> ('q \<Rightarrow> nat) \<Rightarrow> 's \<Rightarrow> nat" where
  "default_count qry cnt s = cnt (qry s)"

fun default_save_all :: "('e \<Rightarrow> 's \<Rightarrow> (orm_error + 'e) \<times> 's) \<Rightarrow> 'e list \<Rightarrow> 's \<Rightarrow> (orm_error + 'e list) \<times> 's" where
  "default_save_all sv [] s = (Inr [], s)"
| "default_save_all sv (e # es) s =
     (case sv e s of
        (Inl x, s) \<Rightarrow> (Inl x, s)
      | (Inr e, s) \<Rightarrow>
          (case default_save_all sv es s of (Inl x, s) \<Rightarrow> (Inl x, s) | (Inr es, s) \<Rightarrow> (Inr (e # es), s)))"

fun default_delete_all_by_ids :: "('id \<Rightarrow> 's \<Rightarrow> (orm_error + unit) \<times> 's) \<Rightarrow> 'id list \<Rightarrow> 's \<Rightarrow> (orm_error + unit) \<times> 's" where
  "default_delete_all_by_ids del [] s = (Inr (), s)"
| "default_delete_all_by_ids del (k # ks) s =
     (case del k s of (Inl x, s) \<Rightarrow> (Inl x, s) | (Inr _, s) \<Rightarrow> default_delete_all_by_ids del ks s)"

text \<open>
  The operations the in-memory repository overrides answer as the trait's defaults over its own
  primitives do.
\<close>
theorem overrides_are_defaults:
  "default_find_all_by_ids (\<lambda>k s. Inr (find_by_id k s)) ks r = Inr (find_all_by_ids ks r) \<and>
   default_exists_by_id (\<lambda>k s. Inr (find_by_id k s)) k r = Inr (exists_by_id k r) \<and>
   default_find_all query (fetch_all J N) r = find_all r \<and>
   default_count query (fetch_count J N) r = row_count r \<and>
   default_save_all (save N) es r = save_all N es r \<and>
   default_delete_all_by_ids (\<lambda>k s. (Inr (), delete_by_id k s)) ks r = (Inr (), delete_all_by_ids ks r)"
proof (intro conjI)
  show "default_find_all_by_ids (\<lambda>k s. Inr (find_by_id k s)) ks r = Inr (find_all_by_ids ks r)"
    by (induction ks) (auto simp: find_all_by_ids_def find_by_id_def map_filter_simps split: option.split)
  show "default_save_all (save N) es r = save_all N es r"
    by (induction es arbitrary: r) (auto split: prod.split sum.split)
  show "default_delete_all_by_ids (\<lambda>k s. (Inr (), delete_by_id k s)) ks r = (Inr (), delete_all_by_ids ks r)"
    by (induction ks arbitrary: r) (auto simp: delete_all_by_ids_def)
qed (auto simp: default_exists_by_id_def exists_by_id_def find_by_id_def default_find_all_def find_all_def
    fetch_all_def default_count_def fetch_count_def row_count_def hm_len_def query_def query_new_def
    collect_items_def matches_filters_def apply_window_def)

section \<open>The repository as a map\<close>

datatype ('id, 'e) repo_call = Save 'e | SaveAll "'e list" | Delete 'id | DeleteAll "'id list"

definition repo_step :: "('e, 'id, 'n) entity_ops \<Rightarrow> ('id, 'e) repo_call \<Rightarrow> ('id, 'e) repository \<Rightarrow> ('id, 'e) repository" where
  "repo_step N c r =
     (case c of
        Save e \<Rightarrow> snd (save N e r)
      | SaveAll es \<Rightarrow> snd (save_all N es r)
      | Delete k \<Rightarrow> delete_by_id k r
      | DeleteAll ks \<Rightarrow> delete_all_by_ids ks r)"

text \<open>
  The contract: a map from keys to entities and the number of the last generated key. An entity
  with the default key is stored under the next number of a 64-bit counter.
\<close>

fun spec_save :: "('e, 'id, 'n) entity_ops \<Rightarrow> 'e \<Rightarrow> ('id \<rightharpoonup> 'e) \<times> nat \<Rightarrow> ('id \<rightharpoonup> 'e) \<times> nat" where
  "spec_save N e (M, n) =
     (if ent_id N e \<noteq> default_id N then (M(ent_id N e \<mapsto> e), n)
      else case find primary_key (ent_columns N) of
        None \<Rightarrow> (M, wrapping_add64 n 1)
      | Some c \<Rightarrow>
          (case set_key N e (col_field c) (wrapping_add64 n 1) of
             Inl _ \<Rightarrow> (M, wrapping_add64 n 1)
           | Inr e \<Rightarrow> (M(ent_id N e \<mapsto> e), wrapping_add64 n 1)))"

text \<open>Whether an entity can be stored: what makes a batch stop.\<close>

fun saves :: "('e, 'id, 'n) entity_ops \<Rightarrow> 'e \<Rightarrow> nat \<Rightarrow> bool" where
  "saves N e n \<longleftrightarrow>
     ent_id N e \<noteq> default_id N \<or>
     (case find primary_key (ent_columns N) of None \<Rightarrow> False | Some c \<Rightarrow> \<not> isl (set_key N e (col_field c) (wrapping_add64 n 1)))"

fun spec_step :: "('e, 'id, 'n) entity_ops \<Rightarrow> ('id, 'e) repo_call \<Rightarrow> ('id \<rightharpoonup> 'e) \<times> nat \<Rightarrow> ('id \<rightharpoonup> 'e) \<times> nat" where
  "spec_step N (Save e) S = spec_save N e S"
| "spec_step N (SaveAll []) S = S"
| "spec_step N (SaveAll (e # es)) S =
     (if saves N e (snd S) then spec_step N (SaveAll es) (spec_save N e S) else spec_save N e S)"
| "spec_step N (Delete k) S = ((fst S)(k := None), snd S)"
| "spec_step N (DeleteAll ks) S = (fst S |` (- set ks), snd S)"

definition repo_abs :: "('id, 'e) repository \<Rightarrow> ('id \<rightharpoonup> 'e) \<times> nat" where
  "repo_abs r = (hm_get (entities r), next_id r)"

definition repo_ok :: "('e, 'id, 'n) entity_ops \<Rightarrow> ('id, 'e) repository \<Rightarrow> bool" where
  "repo_ok N r \<longleftrightarrow> hm_ok (entities r) \<and> (\<forall>k e. hm_get (entities r) k = Some e \<longrightarrow> ent_id N e = k)"

lemma repo_ok_new [simp]: "repo_ok N repo_new" "repo_abs repo_new = (Map.empty, 0)"
  by (simp_all add: repo_ok_def repo_new_def repo_abs_def hm_get_def fun_eq_iff)

lemma save_refines:
  assumes "repo_ok N r"
  shows "repo_ok N (snd (save N e r))" "repo_abs (snd (save N e r)) = spec_save N e (repo_abs r)"
    "isl (fst (save N e r)) = (\<not> saves N e (next_id r))"
    "\<forall>e'. fst (save N e r) = Inr e' \<longrightarrow> hm_get (entities (snd (save N e r))) (ent_id N e') = Some e'"
  using assms
  by (auto simp: save_def maybe_assign_id_def repo_ok_def repo_abs_def fun_eq_iff Let_def split: option.splits sum.splits if_splits)

lemma save_all_refines:
  "repo_ok N r \<Longrightarrow> repo_ok N (snd (save_all N es r)) \<and> repo_abs (snd (save_all N es r)) = spec_step N (SaveAll es) (repo_abs r)"
proof (induction es arbitrary: r)
  case (Cons e es)
  note one = save_refines [OF Cons.prems, of e]
  have n: "snd (repo_abs r) = next_id r" by (simp add: repo_abs_def)
  obtain x r' where sv: "save N e r = (x, r')" by (cases "save N e r") auto
  show ?case
  proof (cases x)
    case (Inl a)
    with one sv show ?thesis by (auto simp: n)
  next
    case (Inr e')
    with one sv have ok: "repo_ok N r'" and abs: "repo_abs r' = spec_save N e (repo_abs r)" and "saves N e (next_id r)" by auto
    with Cons.IH [OF ok] Inr sv show ?thesis by (auto simp: n split: prod.split sum.split)
  qed
qed simp

lemma delete_all_refines:
  "repo_ok N r \<Longrightarrow> repo_ok N (delete_all_by_ids ks r) \<and> repo_abs (delete_all_by_ids ks r) = spec_step N (DeleteAll ks) (repo_abs r)"
proof (induction ks arbitrary: r)
  case (Cons k ks)
  have "repo_ok N (delete_by_id k r)" using Cons.prems by (auto simp: repo_ok_def delete_by_id_def)
  from Cons.IH [OF this] Cons.prems show ?case
    by (auto simp: delete_all_by_ids_def delete_by_id_def repo_abs_def repo_ok_def fun_eq_iff restrict_map_def)
qed (simp add: delete_all_by_ids_def repo_abs_def restrict_map_def)

lemma step_refines:
  "repo_ok N r \<Longrightarrow> repo_ok N (repo_step N c r) \<and> repo_abs (repo_step N c r) = spec_step N c (repo_abs r)"
  using save_refines(1,2) [of N r] save_all_refines [of N r] delete_all_refines [of N r]
  by (cases c) (auto simp: repo_step_def delete_by_id_def repo_ok_def repo_abs_def fun_eq_iff)

lemma steps_refine:
  "repo_ok N r \<Longrightarrow>
   repo_ok N (fold (repo_step N) cs r) \<and> repo_abs (fold (repo_step N) cs r) = fold (spec_step N) cs (repo_abs r)"
  by (induction cs arbitrary: r) (simp_all add: step_refines)

lemma values_of_map:
  "hm_ok m \<Longrightarrow> mset (map snd m) = image_mset (\<lambda>k. the (hm_get m k)) (mset_set (dom (hm_get m)))"
proof -
  assume ok: "hm_ok m"
  then have "mset_set (dom (hm_get m)) = mset (map fst m)"
    by (simp add: hm_ok_def hm_get_def [abs_def] dom_map_of_conv_image_fst mset_set_set del: mset_map flip: set_map)
  moreover have "map (\<lambda>k. the (hm_get m k)) (map fst m) = map snd m"
    using ok by (auto simp: hm_ok_def hm_get_def)
  ultimately show ?thesis by (metis mset_map)
qed

text \<open>
  C32: after any sequence of saves and deletes the repository is the map of its contract. Lookup,
  existence, count and listing are those of the map, an entity is stored under its own key, and
  the next generated key is the next number.
\<close>
theorem repository_refines:
  "let r = fold (repo_step N) calls repo_new; (M, n) = fold (spec_step N) calls (Map.empty, 0)
   in find_by_id k r = M k \<and> exists_by_id k r = (M k \<noteq> None) \<and> row_count r = card (dom M) \<and>
      mset (find_all r) = image_mset (\<lambda>k. the (M k)) (mset_set (dom M)) \<and>
      find_all_by_ids ks r = List.map_filter M ks \<and>
      map_option (ent_id N) (M k) \<in> {None, Some k} \<and> next_id r = n"
proof -
  define r where "r = fold (repo_step N) calls repo_new"
  obtain M n where S: "fold (spec_step N) calls (Map.empty, 0) = (M, n)" by fastforce
  have ok: "repo_ok N r" and abs: "repo_abs r = (M, n)"
    using steps_refine [of N repo_new calls] S by (simp_all add: r_def)
  then have M: "hm_get (entities r) = M" "next_id r = n" "hm_ok (entities r)" by (simp_all add: repo_abs_def repo_ok_def)
  have "map_option (ent_id N) (M k) \<in> {None, Some k}" using ok M by (cases "M k") (auto simp: repo_ok_def)
  then show ?thesis
    using M values_of_map [OF M(3)] hm.len_card [OF M(3)]
    by (simp add: S flip: r_def) (simp add: find_by_id_def exists_by_id_def row_count_def find_all_def find_all_by_ids_def)
qed

text \<open>
  A generated key is the next number of the counter, also when an entity was saved under that key
  by hand: the earlier entity is replaced without an error.
\<close>

definition number_ops :: "(nat \<times> string, nat, nat) entity_ops" where
  "number_ops = \<lparr>ent_id = fst, default_id = 0, raw_field_value = (\<lambda>_ _. None),
     ent_columns = [\<lparr>col_name = ''id'', col_field = ''id'', col_type = BigInt, nullable = False, primary_key = True, unique = False, auto = True\<rparr>],
     set_key = (\<lambda>e f n. Inr (n, snd e))\<rparr>"

lemma generated_key_overwrites:
  "let r = snd (save number_ops (1, ''kept'') repo_new); (x, r) = save number_ops (0, ''new'') r
   in x = Inr (1, ''new'') \<and> find_by_id 1 r = Some (1, ''new'') \<and> row_count r = 1"
  by code_simp

end
