(* ===== verification/Client_Codec.thy ===== *)
theory Client_Codec
  imports Http_Writer
begin

text \<open>
  The pure half of \<open>kernway-http-client/src/lib.rs\<close>: absolute URLs, the request encoder, the
  response head as byte ranges into the received block, how its body is framed, the two decoders
  of chunked bodies, and redirects. A routine that may index out of range returns a \<open>panic\<close>.
\<close>

section \<open>URLs and errors\<close>

datatype http_method = GET | POST | PUT | PATCH | DELETE | HEAD

definition method_str :: "http_method \<Rightarrow> string" where
  "method_str m =
     (case m of GET \<Rightarrow> ''GET'' | POST \<Rightarrow> ''POST'' | PUT \<Rightarrow> ''PUT'' | PATCH \<Rightarrow> ''PATCH''
      | DELETE \<Rightarrow> ''DELETE'' | HEAD \<Rightarrow> ''HEAD'')"

datatype url_problem = NoScheme | UnsupportedScheme | NoHost | BadPort

datatype io_kind = ConnectionReset | ConnectionAborted | BrokenPipe | UnexpectedEof | OtherIo

datatype http_error =
    BadUrl url_problem
  | Dns string
  | IoError io_kind
  | Protocol string
  | Tls string
  | Timeout

record client_url =
  url_scheme :: string
  url_host :: string
  url_port :: nat
  path_and_query :: string

text \<open>The first occurrence of a byte sequence, by sliding windows.\<close>

definition find_bytes :: "string \<Rightarrow> string \<Rightarrow> nat option" where
  "find_bytes hay needle =
     (if needle = [] \<or> length hay < length needle then None
      else position (\<lambda>i. take (length needle) (drop i hay) = needle) [0..<length hay - length needle + 1])"

definition split_once_at :: "string \<Rightarrow> string \<Rightarrow> (string \<times> string) option" where
  "split_once_at pat s = map_option (\<lambda>i. (take i s, drop (i + length pat) s)) (find_bytes s pat)"

definition rsplit_once :: "char \<Rightarrow> string \<Rightarrow> (string \<times> string) option" where
  "rsplit_once c s = map_option (\<lambda>(a, b). (rev b, rev a)) (split_once c (rev s))"

definition parse_u16 :: "string \<Rightarrow> nat option" where
  "parse_u16 s = parse_unsigned dec_digit 10 65535 s"

definition url_parse :: "string \<Rightarrow> http_error + client_url" where
  "url_parse url =
     (case split_once_at ''://'' url of
        None \<Rightarrow> Inl (BadUrl NoScheme)
      | Some (sch, rest) \<Rightarrow>
          let scheme = map to_ascii_lowercase sch
          in if scheme \<noteq> ''http'' \<and> scheme \<noteq> ''https'' then Inl (BadUrl UnsupportedScheme)
             else
               let (authority, path) =
                     (case position (\<lambda>c. c = CHR ''/'') rest of
                        Some i \<Rightarrow> (take i rest, drop i rest) | None \<Rightarrow> (rest, ''/''))
               in if authority = [] then Inl (BadUrl NoHost)
                  else
                    case (case rsplit_once (CHR '':'') authority of
                            Some (h, p) \<Rightarrow>
                              (case parse_u16 p of None \<Rightarrow> Inl (BadUrl BadPort) | Some n \<Rightarrow> Inr (h, n))
                          | None \<Rightarrow> Inr (authority, if scheme = ''https'' then 443 else 80)) of
                      Inl e \<Rightarrow> Inl e
                    | Inr (h, n) \<Rightarrow>
                        Inr \<lparr>url_scheme = scheme, url_host = h, url_port = n,
                             path_and_query = (if path = [] then ''/'' else path)\<rparr>)"

definition is_tls :: "client_url \<Rightarrow> bool" where
  "is_tls u \<longleftrightarrow> url_scheme u = ''https''"

section \<open>Requests\<close>

record client_request =
  cq_method :: http_method
  cq_url :: client_url
  cq_headers :: "(string \<times> string) list"
  cq_body :: string

definition client_request_new :: "http_method \<Rightarrow> client_url \<Rightarrow> client_request" where
  "client_request_new m u = \<lparr>cq_method = m, cq_url = u, cq_headers = [], cq_body = []\<rparr>"

definition add_header :: "string \<Rightarrow> string \<Rightarrow> client_request \<Rightarrow> client_request" where
  "add_header n v q = q\<lparr>cq_headers := cq_headers q @ [(n, v)]\<rparr>"

definition set_body :: "string \<Rightarrow> string \<Rightarrow> client_request \<Rightarrow> client_request" where
  "set_body ct b q = add_header ''content-type'' ct (q\<lparr>cq_body := b\<rparr>)"

definition has_header :: "client_request \<Rightarrow> string \<Rightarrow> bool" where
  "has_header q name \<longleftrightarrow> list_ex (\<lambda>(k, _). eq_ignore_ascii_case k name) (cq_headers q)"

definition encode_request :: "client_request \<Rightarrow> bool \<Rightarrow> string option \<Rightarrow> string" where
  "encode_request q keep_alive jar =
     (let out = method_str (cq_method q) @ '' '' @ path_and_query (cq_url q) @ '' HTTP/1.1'' @ crlf;
          default_port = (if is_tls (cq_url q) then 443 else 80);
          out = (if has_header q ''host'' then out
                 else if url_port (cq_url q) = default_port then out @ ''Host: '' @ url_host (cq_url q) @ crlf
                 else out @ ''Host: '' @ url_host (cq_url q) @ '':'' @ show_nat (url_port (cq_url q)) @ crlf);
          out = (if has_header q ''user-agent'' then out else out @ ''User-Agent: kernway-http-client/0.1'' @ crlf);
          out = (if has_header q ''accept-encoding'' then out else out @ ''Accept-Encoding: gzip, deflate, br'' @ crlf);
          out = fold (\<lambda>(n, v) out. out @ n @ '': '' @ v @ crlf) (cq_headers q) out;
          out = (if cq_body q \<noteq> [] \<and> \<not> has_header q ''content-length''
                 then out @ ''Content-Length: '' @ show_nat (length (cq_body q)) @ crlf else out);
          out = (if has_header q ''connection'' then out
                 else out @ (if keep_alive then ''Connection: keep-alive'' else ''Connection: close'') @ crlf);
          out = (case jar of
                   None \<Rightarrow> out
                 | Some c \<Rightarrow> if c \<noteq> [] \<and> \<not> has_header q ''cookie'' then out @ ''Cookie: '' @ c @ crlf else out);
          out = out @ crlf
      in out @ cq_body q)"

section \<open>Response heads\<close>

type_synonym range = "nat \<times> nat"
type_synonym header_spans = "(range \<times> range) list"

definition slice :: "string \<Rightarrow> range \<Rightarrow> string" where
  "slice b r = take (snd r - fst r) (drop (fst r) b)"

record client_response =
  cr_status :: nat
  cr_body :: string
  cr_head :: string
  cr_spans :: header_spans

definition str_or_empty :: "string \<Rightarrow> string" where
  "str_or_empty s = (if utf8_valid s then s else [])"

definition header_bytes :: "string \<Rightarrow> header_spans \<Rightarrow> string \<Rightarrow> string option" where
  "header_bytes block spans name =
     map_option (\<lambda>(_, v). slice block v) (find (\<lambda>(n, _). eq_ignore_ascii_case (slice block n) name) spans)"

definition response_header :: "client_response \<Rightarrow> string \<Rightarrow> string option" where
  "response_header r name = map_option str_or_empty (header_bytes (cr_head r) (cr_spans r) name)"

definition response_headers :: "client_response \<Rightarrow> (string \<times> string) list" where
  "response_headers r =
     map (\<lambda>(n, v). (str_or_empty (slice (cr_head r) n), str_or_empty (slice (cr_head r) v))) (cr_spans r)"

definition is_success :: "client_response \<Rightarrow> bool" where
  "is_success r \<longleftrightarrow> 200 \<le> cr_status r \<and> cr_status r < 300"

definition is_blank :: "char \<Rightarrow> bool" where
  "is_blank c \<longleftrightarrow> c = CHR '' '' \<or> c = CHR 0x09"

function trim_left :: "string \<Rightarrow> nat \<Rightarrow> nat \<Rightarrow> nat" where
  "trim_left b s e = (if s < e \<and> is_blank (b ! s) then trim_left b (s + 1) e else s)"
  by pat_completeness auto
termination
  by (relation "measure (\<lambda>(b, s, e). e - s)") auto

fun trim_right :: "string \<Rightarrow> nat \<Rightarrow> nat \<Rightarrow> nat" where
  "trim_right b s 0 = 0"
| "trim_right b s (Suc e) = (if s < Suc e \<and> is_blank (b ! e) then trim_right b s e else Suc e)"

declare trim_left.simps [simp del]

definition trim_range :: "string \<Rightarrow> nat \<Rightarrow> nat \<Rightarrow> range" where
  "trim_range b s e = (let s = trim_left b s e in (s, trim_right b s e))"

definition parse_status :: "string \<Rightarrow> http_error + nat" where
  "parse_status line =
     (case position (\<lambda>c. c = CHR '' '') line of
        None \<Rightarrow> Inl (Protocol ''bad status line'')
      | Some space \<Rightarrow>
          let rest = drop (space + 1) line;
              end' = (case position (\<lambda>c. c = CHR '' '') rest of Some i \<Rightarrow> i | None \<Rightarrow> length rest);
              code = take end' rest
          in case (if utf8_valid code then parse_u16 code else None) of
               None \<Rightarrow> Inl (Protocol ''bad status line'') | Some n \<Rightarrow> Inr n)"

lemma find_bytes_bound: "find_bytes hay needle = Some i \<Longrightarrow> i + length needle \<le> length hay \<and> needle \<noteq> []"
  by (auto simp: find_bytes_def not_less dest!: position_Some split: if_splits)

function head_spans :: "string \<Rightarrow> nat \<Rightarrow> header_spans" where
  "head_spans b pos =
     (if pos < length b then
        case find_bytes (drop pos b) crlf of
          None \<Rightarrow> []
        | Some i \<Rightarrow>
            if i = 0 then []
            else
              (case position (\<lambda>c. c = CHR '':'') (take i (drop pos b)) of
                 Some colon \<Rightarrow> [(trim_range b pos (pos + colon), trim_range b (pos + colon + 1) (pos + i))]
               | None \<Rightarrow> []) @ head_spans b (pos + i + 2)
      else [])"
  by pat_completeness auto
termination
  by (relation "measure (\<lambda>(b, pos). length b - pos)") auto

declare head_spans.simps [simp del]

definition parse_head_spans :: "string \<Rightarrow> http_error + (nat \<times> header_spans)" where
  "parse_head_spans block =
     (case find_bytes block crlf of
        None \<Rightarrow> Inl (Protocol ''no status line'')
      | Some line_end \<Rightarrow>
          (case parse_status (take line_end block) of
             Inl e \<Rightarrow> Inl e
           | Inr st \<Rightarrow> Inr (st, head_spans block (line_end + 2))))"

datatype body_plan = Length nat | Chunked | UntilClose

definition plan_body :: "string \<Rightarrow> header_spans \<Rightarrow> body_plan" where
  "plan_body block spans =
     (if (case header_bytes block spans ''transfer-encoding'' of
            None \<Rightarrow> False | Some v \<Rightarrow> eq_ignore_ascii_case v ''chunked'') then Chunked
      else case header_bytes block spans ''content-length'' of
             None \<Rightarrow> UntilClose
           | Some v \<Rightarrow>
               (case (if utf8_valid v then parse_u64 (trim v) else None) of
                  None \<Rightarrow> UntilClose | Some n \<Rightarrow> Length n))"

section \<open>Chunked bodies\<close>

definition parse_hex_usize :: "string \<Rightarrow> nat option" where
  "parse_hex_usize s = parse_unsigned hex_digit 16 u64_max s"

definition size_field :: "string \<Rightarrow> string" where
  "size_field line = trim (case split_on (CHR '';'') line of [] \<Rightarrow> [] | p # _ \<Rightarrow> p)"

text \<open>
  \<open>decode_chunked\<close>: the whole body at once, \<open>None\<close> while it is not complete. The additions of the
  bounds check are those of \<open>usize\<close>: the first is checked, the second wraps.
\<close>

function decode_loop :: "string \<Rightarrow> nat \<Rightarrow> string \<Rightarrow> string option run" where
  "decode_loop b pos out =
     (case find_bytes (drop pos b) crlf of
        None \<Rightarrow> Inr None
      | Some i \<Rightarrow>
          let line = take i (drop pos b)
          in case (if utf8_valid line then parse_hex_usize (size_field line) else None) of
               None \<Rightarrow> Inr None
             | Some sz \<Rightarrow>
                 let start = pos + i + 2
                 in if sz = 0 then Inr (Some out)
                    else if start + sz > u64_max then Inr None
                    else if wrapping_add64 (start + sz) 2 > length b then Inr None
                    else if start + sz > length b then Inl SliceIndex
                    else decode_loop b (start + sz + 2) (out @ take sz (drop start b)))"
  by pat_completeness auto
termination
  by (relation "measure (\<lambda>(b, pos, out). length b - pos)") (auto dest!: find_bytes_bound)

declare decode_loop.simps [simp del]

definition decode_chunked :: "string \<Rightarrow> string option run" where
  "decode_chunked b = decode_loop b 0 []"

datatype chunk_state = Size | Data nat | DataCrlf | Trailer | Done

text \<open>\<open>ChunkDecoder::pull\<close>: the state, what is left in the buffer, and the decoded bytes.\<close>

function pull :: "chunk_state \<Rightarrow> string \<Rightarrow> string \<Rightarrow> http_error + (chunk_state \<times> string \<times> string)" where
  "pull st b out =
     (case st of
        Done \<Rightarrow> Inr (st, b, out)
      | Size \<Rightarrow>
          (case find_bytes b crlf of
             None \<Rightarrow> Inr (st, b, out)
           | Some i \<Rightarrow>
               (case (if utf8_valid (take i b) then parse_hex_usize (size_field (take i b)) else None) of
                  None \<Rightarrow> Inl (Protocol ''malformed chunked body'')
                | Some sz \<Rightarrow> pull (if sz = 0 then Trailer else Data sz) (drop (i + 2) b) out))
      | Data rem \<Rightarrow>
          if b = [] then Inr (st, b, out)
          else let n = min rem (length b)
               in pull (if n = rem then DataCrlf else Data (rem - n)) (drop n b) (out @ take n b)
      | DataCrlf \<Rightarrow> if length b < 2 then Inr (st, b, out) else pull Size (drop 2 b) out
      | Trailer \<Rightarrow>
          (case find_bytes b crlf of
             None \<Rightarrow> Inr (st, b, out)
           | Some i \<Rightarrow> pull Done (drop (i + 2) b) out))"
  by pat_completeness auto
termination
  by (relation "measure (\<lambda>(st, b, out). 2 * length b + (case st of Data _ \<Rightarrow> 1 | _ \<Rightarrow> 0))")
    (auto dest!: find_bytes_bound simp: crlf_def split: if_splits)

declare pull.simps [simp del]

section \<open>Redirects and forms\<close>

definition origin_same :: "client_url \<Rightarrow> client_url \<Rightarrow> bool" where
  "origin_same a b \<longleftrightarrow>
     url_scheme a = url_scheme b \<and> eq_ignore_ascii_case (url_host a) (url_host b) \<and> url_port a = url_port b"

definition resolve_location :: "client_url \<Rightarrow> string \<Rightarrow> http_error + client_url" where
  "resolve_location base location =
     (let loc = trim location
      in if find_bytes loc ''://'' \<noteq> None then url_parse loc
         else if loc \<noteq> [] \<and> hd loc = CHR ''/'' then Inr (base\<lparr>path_and_query := loc\<rparr>)
         else
           let dir = (case rsplit_once (CHR ''/'') (path_and_query base) of
                 Some (d, _) \<Rightarrow> d @ ''/'' | None \<Rightarrow> ''/'')
           in Inr (base\<lparr>path_and_query := dir @ loc\<rparr>))"

definition redirect_target :: "client_request \<Rightarrow> client_response \<Rightarrow> http_error + client_request option" where
  "redirect_target q r =
     (if cr_status r \<notin> {301, 302, 303, 307, 308} then Inr None
      else case response_header r ''location'' of
             None \<Rightarrow> Inr None
           | Some location \<Rightarrow>
               (case resolve_location (cq_url q) location of
                  Inl e \<Rightarrow> Inl e
                | Inr url \<Rightarrow>
                    let (meth, bdy) =
                          (if cr_status r = 307 \<or> cr_status r = 308 then (cq_method q, cq_body q)
                           else if cq_method q = HEAD then (HEAD, []) else (GET, []));
                        same_origin = origin_same url (cq_url q);
                        dropped_body = (bdy = [] \<and> cq_body q \<noteq> []);
                        keep = (\<lambda>(name, _).
                          let n = map to_ascii_lowercase name
                          in \<not> (\<not> same_origin \<and> (n = ''authorization'' \<or> n = ''cookie'')) \<and>
                             \<not> (dropped_body \<and> (n = ''content-type'' \<or> n = ''content-length'')))
                    in Inr (Some \<lparr>cq_method = meth, cq_url = url, cq_headers = filter keep (cq_headers q), cq_body = bdy\<rparr>)))"

definition percent_encode_byte :: "char \<Rightarrow> string" where
  "percent_encode_byte c =
     (if (65 \<le> ord c \<and> ord c \<le> 90) \<or> (97 \<le> ord c \<and> ord c \<le> 122) \<or> (48 \<le> ord c \<and> ord c \<le> 57) \<or>
         c \<in> {CHR ''-'', CHR ''_'', CHR ''.'', CHR ''~''} then [c]
      else CHR ''%'' # show_hex2 (ord c))"

definition client_percent_encode :: "string \<Rightarrow> string" where
  "client_percent_encode s = concat (map percent_encode_byte s)"

definition encode_form :: "(string \<times> string) list \<Rightarrow> string" where
  "encode_form form = join ''&'' (map (\<lambda>(k, v). client_percent_encode k @ ''='' @ client_percent_encode v) form)"

section \<open>Searching\<close>

lemma position_iff: "position P xs = Some i \<longleftrightarrow> i < length xs \<and> P (xs ! i) \<and> (\<forall>j<i. \<not> P (xs ! j))"
proof
  assume r: "i < length xs \<and> P (xs ! i) \<and> (\<forall>j<i. \<not> P (xs ! j))"
  show "position P xs = Some i"
  proof (cases "position P xs")
    case None
    with r show ?thesis by (simp add: position_None) (metis nth_mem)
  next
    case (Some k)
    with position_Some [OF Some] r show ?thesis by (metis linorder_neqE_nat)
  qed
qed (rule position_Some)

lemma position_upt: "position P [0..<n] = Some i \<longleftrightarrow> i < n \<and> P i \<and> (\<forall>j<i. \<not> P j)"
  by (auto simp: position_iff)

lemma find_bytes_iff:
  "find_bytes hay needle = Some i \<longleftrightarrow>
     needle \<noteq> [] \<and> i + length needle \<le> length hay \<and> take (length needle) (drop i hay) = needle \<and>
     (\<forall>j<i. take (length needle) (drop j hay) \<noteq> needle)"
  by (auto simp: find_bytes_def position_upt simp del: upt_Suc)

lemma find_bytes_None:
  "find_bytes hay needle = None \<longleftrightarrow> needle = [] \<or> (\<forall>j. take (length needle) (drop j hay) \<noteq> needle)"
proof -
  have *: "j + length needle \<le> length hay" if "take (length needle) (drop j hay) = needle" "needle \<noteq> []" for j
    using arg_cong [OF that(1), of length] that(2) by (cases "j \<le> length hay") (auto simp: min_def split: if_splits)
  then have "(\<forall>i<length hay - length needle + 1. take (length needle) (drop i hay) \<noteq> needle) \<longleftrightarrow>
      (\<forall>j. take (length needle) (drop j hay) \<noteq> needle)" if "needle \<noteq> []" "length needle \<le> length hay"
    using that by (metis Suc_eq_plus1 add_le_imp_le_diff le_imp_less_Suc)
  moreover have "\<forall>j. take (length needle) (drop j hay) \<noteq> needle" if "length hay < length needle"
    using that by (metis add_leE leD * length_greater_0_conv list.size(3) not_less0)
  ultimately show ?thesis
    by (auto simp: find_bytes_def position_None simp del: upt_Suc)
qed

lemma find_bytes_append: "find_bytes hay needle = Some i \<Longrightarrow> find_bytes (hay @ t) needle = Some i"
  by (auto simp: find_bytes_iff)

lemma find_bytes_skip:
  assumes "\<And>j. j < length p \<Longrightarrow> take (length needle) (drop j (p @ t)) \<noteq> needle"
  shows "find_bytes (p @ t) needle = map_option (\<lambda>i. length p + i) (find_bytes t needle)"
proof (cases "find_bytes t needle")
  case (Some i)
  have "take (length needle) (drop j (p @ t)) \<noteq> needle" if "j < length p + i" for j
  proof (cases "j < length p")
    case False
    then have "drop j (p @ t) = drop (j - length p) t" "j - length p < i" using that by auto
    with Some show ?thesis by (auto simp: find_bytes_iff)
  qed (rule assms)
  then have "find_bytes (p @ t) needle = Some (length p + i)"
    unfolding find_bytes_iff using Some by (auto simp: find_bytes_iff simp del: take_append drop_append) simp
  with Some show ?thesis by simp
next
  case None
  then have "needle = [] \<or> (\<forall>j. take (length needle) (drop j (p @ t)) \<noteq> needle)"
    unfolding find_bytes_None using assms
    by (metis append_Nil drop_append drop_eq_Nil le_neq_implies_less less_or_eq_imp_le linorder_not_less)
  with None show ?thesis by (simp only: find_bytes_None [symmetric]) simp
qed

lemma crlf_window: "take (length crlf) (drop j b) = crlf \<longleftrightarrow> j + 1 < length b \<and> b ! j = CHR 0x0D \<and> b ! (j + 1) = CHR 0x0A"
proof (cases "j + 1 < length b")
  case True
  then have "take 2 (drop j b) = [b ! j, b ! (j + 1)]"
    by (simp add: numeral_2_eq_2 take_Suc_conv_app_nth)
  then show ?thesis using True by (simp add: crlf_def numeral_2_eq_2)
next
  case False
  then have "length (take (length crlf) (drop j b)) < length crlf" by (simp add: crlf_def)
  then have "take (length crlf) (drop j b) \<noteq> crlf" by (metis less_irrefl)
  with False show ?thesis by blast
qed

lemma find_bytes_crlf_line: "CHR 0x0A \<notin> set l \<Longrightarrow> find_bytes (l @ crlf @ t) crlf = Some (length l)"
proof -
  assume l: "CHR 0x0A \<notin> set l"
  have "take (length crlf) (drop j (l @ crlf @ t)) \<noteq> crlf" if "j < length l" for j
  proof -
    have "l ! (j + 1) \<noteq> CHR 0x0A" if "j + 1 < length l" using l nth_mem [OF that] by metis
    with that have "(l @ crlf @ t) ! (j + 1) \<noteq> CHR 0x0A"
      by (cases "j + 1 < length l") (auto simp: nth_append crlf_def)
    then show ?thesis unfolding crlf_window by blast
  qed
  then show ?thesis by (simp add: find_bytes_iff) (simp add: crlf_def)
qed

text \<open>The blank line that ends a head is found where the head ends.\<close>

definition crlf2 :: string where
  "crlf2 = crlf @ crlf"

lemma crlf2_window:
  "take (length crlf2) (drop j b) = crlf2 \<Longrightarrow>
     j + 3 < length b \<and> b ! (j + 1) = CHR 0x0A \<and> b ! (j + 2) = CHR 0x0D \<and> b ! (j + 3) = CHR 0x0A \<and> b ! j = CHR 0x0D"
proof -
  assume w: "take (length crlf2) (drop j b) = crlf2"
  have len: "j + 3 < length b" using arg_cong [OF w, of length] by (simp add: crlf2_def crlf_def)
  have "crlf2 ! k = b ! (j + k)" if "k < 4" for k
    by (subst w [symmetric]) (use that len in \<open>simp add: crlf2_def crlf_def\<close>)
  from this [of 0] this [of 1] this [of 2] this [of 3] len show ?thesis by (simp add: crlf2_def crlf_def)
qed

lemma find_blank_line:
  assumes "\<And>l. l \<in> set ls \<Longrightarrow> l \<noteq> [] \<and> CHR 0x0A \<notin> set l" "ls \<noteq> []"
  shows "find_bytes (head_text ls @ t) crlf2 = Some (length (head_text ls) - 4)"
  using assms
proof (induction ls)
  case (Cons l ls)
  have l: "l \<noteq> []" "CHR 0x0A \<notin> set l" using Cons.prems(1) by auto
  let ?b = "l @ crlf @ head_text ls @ t"
  have b: "head_text (l # ls) @ t = ?b" by (simp add: head_text_def)
  have at: "?b ! j \<noteq> CHR 0x0A" if "j < length l" for j
    using that l(2) nth_mem [OF that] by (metis nth_append)
  have early: "take (length crlf2) (drop j ?b) \<noteq> crlf2" if "j < length l" for j
  proof
    assume "take (length crlf2) (drop j ?b) = crlf2"
    then have w: "?b ! (j + 1) = CHR 0x0A" using crlf2_window by blast
    with at [of "j + 1"] that have "j + 1 = length l" by fastforce
    then have "?b ! (j + 1) = CHR 0x0D" by (simp add: nth_append crlf_def)
    with w show False by simp
  qed
  show ?case
  proof (cases ls)
    case Nil
    have "take (length crlf2) (drop (length l) ?b) = crlf2" by (simp add: Nil head_text_def crlf2_def)
    with early show ?thesis unfolding b by (simp add: find_bytes_iff Nil head_text_def) (simp add: crlf2_def crlf_def)
  next
    case (Cons l' ls')
    then have l': "l' \<noteq> []" "CHR 0x0A \<notin> set l'" using Cons.prems(1) by auto
    have mid: "take (length crlf2) (drop j ?b) \<noteq> crlf2" if "j = length l \<or> j = length l + 1" for j
    proof
      assume "take (length crlf2) (drop j ?b) = crlf2"
      then have w: "?b ! (j + 3) = CHR 0x0A" "?b ! j = CHR 0x0D" using crlf2_window by blast+
      from w(2) that have j: "j = length l" by (auto simp: nth_append crlf_def)
      have "?b ! (length l + 3) = (l' @ crlf) ! 1" using l'(1) by (cases l') (auto simp: Cons head_text_def crlf_def nth_append)
      moreover have "(l' @ crlf) ! 1 \<noteq> CHR 0x0A"
        using l' by (cases l' rule: remdups_adj.cases) (auto simp: crlf_def)
      ultimately show False using w(1) j by simp
    qed
    have "find_bytes ((l @ crlf) @ head_text ls @ t) crlf2 =
        map_option (\<lambda>i. length (l @ crlf) + i) (find_bytes (head_text ls @ t) crlf2)"
    proof (rule find_bytes_skip)
      fix j assume "j < length (l @ crlf)"
      then have "j < length l \<or> j = length l \<or> j = length l + 1" by (auto simp: crlf_def)
      with early mid show "take (length crlf2) (drop j ((l @ crlf) @ head_text ls @ t)) \<noteq> crlf2" by auto
    qed
    moreover have "find_bytes (head_text ls @ t) crlf2 = Some (length (head_text ls) - 4)"
      using Cons.IH Cons.prems(1) Cons by auto
    moreover have "4 \<le> length (head_text ls)" by (simp add: Cons head_text_def crlf_def)
    ultimately show ?thesis unfolding b by (simp add: head_text_def crlf_def)
  qed
qed simp

section \<open>What the ranges denote\<close>

definition trim_blanks :: "string \<Rightarrow> string" where
  "trim_blanks s = rev (dropWhile is_blank (rev (dropWhile is_blank s)))"

lemma trim_left_slice: "e \<le> length b \<Longrightarrow> s \<le> e \<Longrightarrow>
    s \<le> trim_left b s e \<and> trim_left b s e \<le> e \<and> slice b (trim_left b s e, e) = dropWhile is_blank (slice b (s, e))"
proof (induction b s e rule: trim_left.induct)
  case (1 b s e)
  show ?case
  proof (cases "s < e")
    case True
    then have "slice b (s, e) = b ! s # slice b (s + 1, e)"
      using "1.prems" Cons_nth_drop_Suc [of s b] by (simp add: slice_def) (metis Suc_diff_Suc take_Suc_Cons)
    with 1 True show ?thesis by (cases "is_blank (b ! s)") (auto simp: trim_left.simps [of b s e])
  next
    case False
    then have "trim_left b s e = s" by (subst trim_left.simps) simp
    with False "1.prems" show ?thesis by (simp add: slice_def)
  qed
qed

lemma trim_right_slice: "e \<le> length b \<Longrightarrow> s \<le> e \<Longrightarrow>
    s \<le> trim_right b s e \<and> trim_right b s e \<le> e \<and>
    slice b (s, trim_right b s e) = rev (dropWhile is_blank (rev (slice b (s, e))))"
proof (induction b s e rule: trim_right.induct)
  case (2 b s e)
  show ?case
  proof (cases "s < Suc e")
    case True
    then have "slice b (s, Suc e) = slice b (s, e) @ [b ! e]"
      using "2.prems" by (simp add: slice_def Suc_diff_le take_Suc_conv_app_nth)
    with 2 True show ?thesis by (cases "is_blank (b ! e)") auto
  next
    case False
    with "2.prems" show ?thesis by (simp add: slice_def)
  qed
qed (simp add: slice_def)

lemma slice_trim_range: "e \<le> length b \<Longrightarrow> s \<le> e \<Longrightarrow> slice b (trim_range b s e) = trim_blanks (slice b (s, e))"
  using trim_left_slice [of e b s] trim_right_slice [of e b "trim_left b s e"]
  by (simp add: trim_range_def trim_blanks_def Let_def)

definition line_pair :: "string \<Rightarrow> (string \<times> string) option" where
  "line_pair l = map_option (\<lambda>(n, v). (trim_blanks n, trim_blanks v)) (split_once (CHR '':'') l)"

definition span_pairs :: "string \<Rightarrow> header_spans \<Rightarrow> (string \<times> string) list" where
  "span_pairs b spans = map (\<lambda>(n, v). (slice b n, slice b v)) spans"

lemma position_split_once:
  "position (\<lambda>x. x = c) l = Some k \<Longrightarrow> split_once c l = Some (take k l, drop (k + 1) l)"
  "position (\<lambda>x. x = c) l = None \<Longrightarrow> split_once c l = None"
proof (induction l arbitrary: k)
  case (Cons x xs)
  { case 1 with Cons.IH(1) show ?case by (auto split: if_splits) }
  { case 2 with Cons.IH(2) show ?case by (auto split: if_splits) }
qed auto

lemma slice_take: "p + i \<le> length b \<Longrightarrow> k \<le> i \<Longrightarrow>
    slice b (p, p + k) = take k (take i (drop p b)) \<and> slice b (p + k, p + i) = drop k (take i (drop p b))"
  by (simp add: slice_def min_def drop_take add.commute)

lemma head_spans_lines:
  assumes "\<And>l. l \<in> set ls \<Longrightarrow> l \<noteq> [] \<and> CHR 0x0A \<notin> set l"
  shows "span_pairs (p @ head_text ls) (head_spans (p @ head_text ls) (length p)) = List.map_filter line_pair ls"
  using assms
proof (induction ls arbitrary: p)
  case Nil
  have "find_bytes crlf crlf = Some 0" using find_bytes_crlf_line [of "[]" "[]"] by simp
  then have "head_spans (p @ crlf) (length p) = []" by (subst head_spans.simps) simp
  then show ?case by (simp add: span_pairs_def head_text_def map_filter_simps)
next
  case (Cons l ls)
  let ?b = "p @ head_text (l # ls)" and ?p = "p @ l @ crlf"
  have l: "l \<noteq> []" "CHR 0x0A \<notin> set l" using Cons.prems by auto
  have d: "drop (length p) ?b = l @ crlf @ head_text ls" "?b = ?p @ head_text ls" by (simp_all add: head_text_def)
  have f: "find_bytes (drop (length p) ?b) crlf = Some (length l)" unfolding d(1) by (rule find_bytes_crlf_line [OF l(2)])
  have t: "take (length l) (drop (length p) ?b) = l" unfolding d(1) by simp
  have IH: "span_pairs ?b (head_spans ?b (length ?p)) = List.map_filter line_pair ls"
    using Cons.IH [of ?p] Cons.prems unfolding d(2) by simp
  have next_line: "length p + length l + 2 = length ?p" by (simp add: crlf_def)
  have inside: "length p < length ?b" using l(1) by (simp add: head_text_def crlf_def)
  have unfold: "head_spans ?b (length p) =
      (case position (\<lambda>c. c = CHR '':'') l of
         Some k \<Rightarrow> [(trim_range ?b (length p) (length p + k), trim_range ?b (length p + k + 1) (length p + length l))]
       | None \<Rightarrow> []) @ head_spans ?b (length ?p)"
    using inside l(1) unfolding next_line [symmetric] by (subst head_spans.simps) (simp only: f t if_True option.case, simp)
  show ?case
  proof (cases "position (\<lambda>c. c = CHR '':'') l")
    case None
    then have "line_pair l = None" using position_split_once(2) [OF None] by (simp add: line_pair_def)
    with None IH show ?thesis by (simp only: unfold) (simp add: map_filter_simps span_pairs_def)
  next
    case (Some k)
    have k: "k < length l" using position_Some [OF Some] by blast
    have bound: "length p + length l \<le> length ?b" by (simp add: head_text_def)
    have s: "slice ?b (length p, length p + k) = take k l" "slice ?b (length p + (k + 1), length p + length l) = drop (k + 1) l"
      using slice_take [OF bound, of k] slice_take [OF bound, of "k + 1"] k unfolding t by auto
    have "slice ?b (trim_range ?b (length p) (length p + k)) = trim_blanks (take k l)"
      "slice ?b (trim_range ?b (length p + k + 1) (length p + length l)) = trim_blanks (drop (k + 1) l)"
      using slice_trim_range [of "length p + k" ?b "length p"] slice_trim_range [OF bound, of "length p + k + 1"] bound k s
      by (simp_all add: add.assoc)
    moreover have "line_pair l = Some (trim_blanks (take k l), trim_blanks (drop (k + 1) l))"
      using position_split_once(1) [OF Some] by (simp add: line_pair_def)
    ultimately show ?thesis using IH Some by (simp only: unfold) (simp add: map_filter_simps span_pairs_def)
  qed
qed

end
