(* ===== verification/Compression.thy ===== *)
theory Compression
  imports Http_Message
begin

text \<open>
  \<open>kernway-compress\<close> and the server's compression middleware. The codecs belong to \<open>flate2\<close> and
  \<open>brotli\<close> and the quality values are \<open>f32\<close>, so both are parameters; which responses are
  compressed, and with what, is the code's.
\<close>

section \<open>Encodings\<close>

datatype encoding = Identity | Gzip | Deflate | Br

definition encoding_str :: "encoding \<Rightarrow> string" where
  "encoding_str e = (case e of Identity \<Rightarrow> ''identity'' | Gzip \<Rightarrow> ''gzip'' | Deflate \<Rightarrow> ''deflate'' | Br \<Rightarrow> ''br'')"

definition from_token :: "string \<Rightarrow> encoding option" where
  "from_token tok =
     (let t = map to_ascii_lowercase (trim tok)
      in if t = ''identity'' \<or> t = [] then Some Identity
         else if t = ''gzip'' \<or> t = ''x-gzip'' then Some Gzip
         else if t = ''deflate'' then Some Deflate
         else if t = ''br'' then Some Br
         else None)"

text \<open>
  The codecs of the libraries (the raw-deflate retry is part of \<open>unpack\<close>), and of \<open>f32\<close>: reading
  a number and whether it is at most zero.
\<close>

record codecs =
  pack :: "encoding \<Rightarrow> string \<Rightarrow> string"
  unpack :: "encoding \<Rightarrow> string \<Rightarrow> string + string"

record 'q qualities =
  parse_quality :: "string \<Rightarrow> 'q option"
  quality_one :: 'q
  refused :: "'q \<Rightarrow> bool"

definition compress_encode :: "codecs \<Rightarrow> string \<Rightarrow> encoding \<Rightarrow> string" where
  "compress_encode C data e = (if e = Identity then data else pack C e data)"

definition compress_decode :: "codecs \<Rightarrow> string \<Rightarrow> encoding \<Rightarrow> string + string" where
  "compress_decode C data e = (if e = Identity then Inr data else unpack C e data)"

definition base_type :: "string \<Rightarrow> string" where
  "base_type ct = trim (case split_on (CHR '';'') ct of [] \<Rightarrow> ct | p # _ \<Rightarrow> p)"

definition is_compressible :: "string \<Rightarrow> bool" where
  "is_compressible ct \<longleftrightarrow>
     take 5 (base_type ct) = ''text/'' \<or>
     base_type ct \<in> set [''application/json'', ''application/xml'', ''application/javascript'',
       ''application/manifest+json'', ''application/wasm'', ''application/rss+xml'',
       ''application/atom+xml'', ''image/svg+xml'', ''font/ttf'', ''font/otf'']"

section \<open>Negotiation\<close>

fun parse_q_params :: "'q qualities \<Rightarrow> string list \<Rightarrow> 'q" where
  "parse_q_params Q [] = quality_one Q"
| "parse_q_params Q (p # ps) =
     (case strip_prefix ''q='' (trim p) of
        Some v \<Rightarrow> (case parse_quality Q (trim v) of None \<Rightarrow> quality_one Q | Some x \<Rightarrow> x)
      | None \<Rightarrow>
          (case strip_prefix ''Q='' (trim p) of
             Some v \<Rightarrow> (case parse_quality Q (trim v) of None \<Rightarrow> quality_one Q | Some x \<Rightarrow> x)
           | None \<Rightarrow> parse_q_params Q ps))"

definition parse_q :: "'q qualities \<Rightarrow> string \<Rightarrow> 'q" where
  "parse_q Q params = parse_q_params Q (split_on (CHR '';'') params)"

record accepts =
  acc_br :: bool
  acc_gzip :: bool
  acc_deflate :: bool

definition accept_part :: "'q qualities \<Rightarrow> string \<Rightarrow> string \<times> 'q" where
  "accept_part Q part =
     (let part = trim part
      in case split_once (CHR '';'') part of
           Some (token, params) \<Rightarrow> (map to_ascii_lowercase (trim token), parse_q Q params)
         | None \<Rightarrow> (map to_ascii_lowercase part, quality_one Q))"

definition accept_step :: "'q qualities \<Rightarrow> string \<Rightarrow> accepts \<Rightarrow> accepts" where
  "accept_step Q part a =
     (let (token, q) = accept_part Q part
      in if refused Q q then a
         else if token = ''br'' then a\<lparr>acc_br := True\<rparr>
         else if token = ''gzip'' \<or> token = ''x-gzip'' then a\<lparr>acc_gzip := True\<rparr>
         else if token = ''deflate'' then a\<lparr>acc_deflate := True\<rparr>
         else if token = ''*'' then \<lparr>acc_br = True, acc_gzip = True, acc_deflate = True\<rparr>
         else a)"

definition negotiate :: "'q qualities \<Rightarrow> string \<Rightarrow> encoding" where
  "negotiate Q accept =
     (let a = fold (accept_step Q) (split_on (CHR '','') accept)
                \<lparr>acc_br = False, acc_gzip = False, acc_deflate = False\<rparr>
      in if acc_br a then Br else if acc_gzip a then Gzip else if acc_deflate a then Deflate else Identity)"

section \<open>The middleware\<close>

fun contains_sub :: "string \<Rightarrow> string \<Rightarrow> bool" where
  "contains_sub pat [] \<longleftrightarrow> pat = []"
| "contains_sub pat (c # s) \<longleftrightarrow> take (length pat) (c # s) = pat \<or> contains_sub pat s"

definition add_vary :: "'s response \<Rightarrow> 's response run" where
  "add_vary r =
     (let set_vary = (\<lambda>v. bind_run (fields_insert True (resp_headers r) ''vary'' v) (\<lambda>h. Inr (r\<lparr>resp_headers := h\<rparr>)))
      in case fields_get True (resp_headers r) ''vary'' of
           Some old \<Rightarrow>
             if contains_sub ''accept-encoding'' (map to_ascii_lowercase old) then Inr r
             else set_vary (old @ '', Accept-Encoding'')
         | None \<Rightarrow> set_vary ''Accept-Encoding'')"

definition header_or_empty :: "'s response \<Rightarrow> string \<Rightarrow> string" where
  "header_or_empty r name = (case fields_get True (resp_headers r) name of None \<Rightarrow> [] | Some v \<Rightarrow> v)"

definition compress :: "codecs \<Rightarrow> 'q qualities \<Rightarrow> string \<Rightarrow> nat \<Rightarrow> 's response \<Rightarrow> 's response run" where
  "compress C Q accept min_size r =
     (case resp_body r of
        Bytes bytes \<Rightarrow>
          if length bytes < min_size then Inr r
          else if fields_get True (resp_headers r) ''content-encoding'' \<noteq> None then Inr r
          else if \<not> is_compressible (header_or_empty r ''content-type'') then Inr r
          else
            let e = negotiate Q accept
            in if e = Identity then Inr r
               else
                 let encoded = compress_encode C bytes e
                 in if length encoded \<ge> length bytes then Inr r
                    else
                      bind_run (fields_insert True (resp_headers r) ''content-encoding'' (encoding_str e)) (\<lambda>h.
                      bind_run (fields_insert True h ''content-length'' (show_nat (length encoded))) (\<lambda>h.
                        add_vary (r\<lparr>resp_body := Bytes encoded, resp_headers := h\<rparr>)))
      | _ \<Rightarrow> Inr r)"

definition DEFAULT_MIN_SIZE :: nat where
  "DEFAULT_MIN_SIZE = 1024"

text \<open>The middleware around the rest of the chain.\<close>

definition compression_handle ::
  "codecs \<Rightarrow> 'q qualities \<Rightarrow> nat \<Rightarrow> (request \<Rightarrow> 's response run) \<Rightarrow> request \<Rightarrow> 's response run" where
  "compression_handle C Q min_size next req =
     (let accept = (case fields_get True (req_headers req) ''accept-encoding'' of None \<Rightarrow> [] | Some v \<Rightarrow> v)
      in bind_run (next req) (compress C Q accept min_size))"

section \<open>Only what was offered\<close>

definition offers :: "'q qualities \<Rightarrow> encoding \<Rightarrow> string \<Rightarrow> bool" where
  "offers Q e part \<longleftrightarrow>
     (let (t, q) = accept_part Q part
      in \<not> refused Q q \<and> (t = ''*'' \<or> t = encoding_str e \<or> e = Gzip \<and> t = ''x-gzip''))"

lemma accept_steps:
  "(acc_br (fold (accept_step Q) ps a) \<longrightarrow> acc_br a \<or> list_ex (offers Q Br) ps) \<and>
   (acc_gzip (fold (accept_step Q) ps a) \<longrightarrow> acc_gzip a \<or> list_ex (offers Q Gzip) ps) \<and>
   (acc_deflate (fold (accept_step Q) ps a) \<longrightarrow> acc_deflate a \<or> list_ex (offers Q Deflate) ps)"
proof (induction ps arbitrary: a)
  case (Cons p ps)
  have "acc_br (accept_step Q p a) \<longrightarrow> acc_br a \<or> offers Q Br p"
    "acc_gzip (accept_step Q p a) \<longrightarrow> acc_gzip a \<or> offers Q Gzip p"
    "acc_deflate (accept_step Q p a) \<longrightarrow> acc_deflate a \<or> offers Q Deflate p"
    by (auto simp: accept_step_def offers_def encoding_str_def Let_def split: prod.splits if_splits)
  with Cons [of "accept_step Q p a"] show ?case by auto
qed simp

lemma negotiate_offered: "negotiate Q accept \<noteq> Identity \<Longrightarrow> list_ex (offers Q (negotiate Q accept)) (split_on (CHR '','') accept)"
  using accept_steps [of Q "split_on (CHR '','') accept" "\<lparr>acc_br = False, acc_gzip = False, acc_deflate = False\<rparr>"]
  by (auto simp: negotiate_def Let_def split: if_splits)

text \<open>An encoding that is refused by name is used all the same when everything else is accepted.\<close>

lemma refused_by_name:
  assumes "parse_quality Q ''0'' = Some z" "refused Q z" "\<not> refused Q (quality_one Q)"
  shows "negotiate Q ''br;q=0, *'' = Br"
proof -
  have p: "split_on (CHR '','') ''br;q=0, *'' = [''br;q=0'', '' *'']" by code_simp
  have t: "trim '' *'' = ''*''" "trim ''br;q=0'' = ''br;q=0''" "trim ''br'' = ''br''" "trim ''q=0'' = ''q=0''" "trim ''0'' = ''0''"
    by code_simp+
  have o: "split_once (CHR '';'') ''br;q=0'' = Some (''br'', ''q=0'')" "split_once (CHR '';'') ''*'' = None"
    "split_on (CHR '';'') ''q=0'' = [''q=0'']" "map to_ascii_lowercase ''br'' = ''br''" "map to_ascii_lowercase ''*'' = ''*''"
    "strip_prefix ''q='' ''q=0'' = Some ''0''"
    by code_simp+
  have a: "accept_part Q ''br;q=0'' = (''br'', z)"
    unfolding accept_part_def t o Let_def by (simp only: option.case prod.case parse_q_def parse_q_params.simps o t assms(1))
  have b: "accept_part Q '' *'' = (''*'', quality_one Q)"
    unfolding accept_part_def t o Let_def by (simp only: option.case o)
  show ?thesis using assms(2,3) unfolding negotiate_def p by (simp add: accept_step_def a b Let_def)
qed

end
