(* ===== verification/Client_Stream.thy ===== *)
theory Client_Stream
  imports Client_Codec Compression
begin

text \<open>
  Reading a response from a connection, in \<open>kernway-http-client\<close>: the whole of it at once, and the
  streaming reader. A connection is what its socket still delivers, cut into pieces as the network
  cuts it; after the last piece, or at an empty one, comes the end of the stream. Timeouts, which
  end a request early with \<open>Timeout\<close>, are not modelled here.
\<close>

section \<open>The socket\<close>

type_synonym script = "(io_kind + string) list"

datatype client_fail = Failed http_error | ClientPanic panic

text \<open>One read of at most 4096 bytes: whether the stream goes on, the buffer, and the rest.\<close>

fun read_more :: "script \<Rightarrow> string \<Rightarrow> client_fail + (bool \<times> string \<times> script)" where
  "read_more [] acc = Inr (False, acc, [])"
| "read_more (Inl k # s) acc = Inl (Failed (IoError k))"
| "read_more (Inr p # s) acc =
     (if p = [] then Inr (False, acc, s)
      else Inr (True, acc @ take 4096 p, if 4096 < length p then Inr (drop 4096 p) # s else s))"

fun script_size :: "script \<Rightarrow> nat" where
  "script_size [] = 0"
| "script_size (Inl k # s) = Suc (script_size s)"
| "script_size (Inr p # s) = Suc (length p + script_size s)"

lemma read_more_shrinks: "read_more s acc = Inr (True, b, s') \<Longrightarrow> script_size s' < script_size s"
  by (cases "(s, acc)" rule: read_more.cases) (auto split: if_splits)

lemma read_more_weight:
  "read_more s acc = Inr (True, b, s') \<Longrightarrow> length b + script_size s' \<le> length acc + script_size s"
  by (cases "(s, acc)" rule: read_more.cases) (auto split: if_splits)

section \<open>The buffered reader\<close>

function head_loop :: "script \<Rightarrow> string \<Rightarrow> client_fail + (nat \<times> string \<times> script)" where
  "head_loop s acc =
     (case find_bytes acc crlf2 of
        Some pos \<Rightarrow> Inr (pos + 4, acc, s)
      | None \<Rightarrow>
          (case read_more s acc of
             Inl e \<Rightarrow> Inl e
           | Inr (False, _) \<Rightarrow> Inl (Failed (Protocol ''connection closed before headers completed''))
           | Inr (True, acc, s) \<Rightarrow> head_loop s acc))"
  by pat_completeness auto
termination
  by (relation "measure (\<lambda>(s, acc). script_size s)") (auto dest: read_more_shrinks)

function read_length :: "nat \<Rightarrow> script \<Rightarrow> string \<Rightarrow> client_fail + (string \<times> script)" where
  "read_length n s acc =
     (if length acc < n then
        case read_more s acc of
          Inl e \<Rightarrow> Inl e
        | Inr (False, _) \<Rightarrow> Inl (Failed (Protocol ''connection closed mid-body''))
        | Inr (True, acc, s) \<Rightarrow> read_length n s acc
      else Inr (take n acc, s))"
  by pat_completeness auto
termination
  by (relation "measure (\<lambda>(n, s, acc). script_size s)") (auto dest: read_more_shrinks)

function read_chunks :: "script \<Rightarrow> string \<Rightarrow> client_fail + (string \<times> script)" where
  "read_chunks s acc =
     (case decode_chunked acc of
        Inl p \<Rightarrow> Inl (ClientPanic p)
      | Inr (Some decoded) \<Rightarrow> Inr (decoded, s)
      | Inr None \<Rightarrow>
          (case read_more s acc of
             Inl e \<Rightarrow> Inl e
           | Inr (False, _) \<Rightarrow> Inl (Failed (Protocol ''connection closed mid-chunk''))
           | Inr (True, acc, s) \<Rightarrow> read_chunks s acc))"
  by pat_completeness auto
termination
  by (relation "measure (\<lambda>(s, acc). script_size s)") (auto dest: read_more_shrinks)

function read_to_close :: "script \<Rightarrow> string \<Rightarrow> client_fail + (string \<times> script)" where
  "read_to_close s acc =
     (case read_more s acc of
        Inl e \<Rightarrow> Inl e
      | Inr (False, acc, s) \<Rightarrow> Inr (acc, s)
      | Inr (True, acc, s) \<Rightarrow> read_to_close s acc)"
  by pat_completeness auto
termination
  by (relation "measure (\<lambda>(s, acc). script_size s)") (auto dest: read_more_shrinks)

declare head_loop.simps [simp del] read_length.simps [simp del]
declare read_chunks.simps [simp del] read_to_close.simps [simp del]

definition lift_http :: "http_error + 'a \<Rightarrow> client_fail + 'a" where
  "lift_http r = (case r of Inl e \<Rightarrow> Inl (Failed e) | Inr x \<Rightarrow> Inr x)"

text \<open>Status, head block, header ranges, the bytes read past the head, and the connection.\<close>

type_synonym head_read = "nat \<times> string \<times> header_spans \<times> string \<times> script"

definition read_head :: "script \<Rightarrow> client_fail + head_read" where
  "read_head s =
     bind_run (head_loop s []) (\<lambda>(head_end, acc, s).
       let head_block = take head_end acc; leftover = drop head_end acc
       in bind_run (lift_http (parse_head_spans head_block)) (\<lambda>(st, spans).
            Inr (st, head_block, spans, leftover, s)))"

definition decompress :: "codecs \<Rightarrow> client_response \<Rightarrow> http_error + client_response" where
  "decompress C r =
     (case Option.bind (response_header r ''content-encoding'') from_token of
        None \<Rightarrow> Inr r
      | Some e \<Rightarrow>
          if e = Identity then Inr r
          else
            (case compress_decode C (cr_body r) e of
               Inl msg \<Rightarrow> Inl (Protocol msg)
             | Inr b \<Rightarrow>
                 Inr (r\<lparr>cr_body := b,
                   cr_spans := filter (\<lambda>(n, _).
                     \<not> eq_ignore_ascii_case (slice (cr_head r) n) ''content-encoding'' \<and>
                     \<not> eq_ignore_ascii_case (slice (cr_head r) n) ''content-length'') (cr_spans r)\<rparr>)))"

definition read_body :: "body_plan \<Rightarrow> script \<Rightarrow> string \<Rightarrow> client_fail + (string \<times> script \<times> bool)" where
  "read_body plan s body =
     (case plan of
        Length n \<Rightarrow> bind_run (read_length n s body) (\<lambda>(b, s). Inr (b, s, True))
      | Chunked \<Rightarrow> bind_run (read_chunks s body) (\<lambda>(b, s). Inr (b, s, True))
      | UntilClose \<Rightarrow> bind_run (read_to_close s body) (\<lambda>(b, s). Inr (b, s, False)))"

definition read_response :: "codecs \<Rightarrow> script \<Rightarrow> client_fail + (client_response \<times> bool \<times> script)" where
  "read_response C s =
     bind_run (read_head s) (\<lambda>(st, head_block, spans, body, s).
     bind_run (read_body (plan_body head_block spans) s body) (\<lambda>(body, s, keepable).
     bind_run (lift_http (decompress C \<lparr>cr_status = st, cr_body = body, cr_head = head_block, cr_spans = spans\<rparr>)) (\<lambda>r.
       Inr (r, keepable, s))))"

section \<open>The streaming reader\<close>

datatype stream_plan = Remaining nat | Decoding chunk_state | ToClose

record response_stream =
  rs_status :: nat
  rs_head :: string
  rs_spans :: header_spans
  rs_conn :: "script option"
  rs_buf :: string
  rs_plan :: stream_plan
  rs_close :: bool
  rs_returned :: "script option" \<comment> \<open>the connection handed back to the pool\<close>

definition read_stream_head :: "script \<Rightarrow> client_fail + response_stream" where
  "read_stream_head s =
     bind_run (read_head s) (\<lambda>(st, head_block, spans, body, s).
       Inr \<lparr>rs_status = st, rs_head = head_block, rs_spans = spans, rs_conn = Some s, rs_buf = body,
            rs_plan = (case plan_body head_block spans of
               Length n \<Rightarrow> Remaining n | Chunked \<Rightarrow> Decoding Size | UntilClose \<Rightarrow> ToClose),
            rs_close = (case header_bytes head_block spans ''connection'' of
               None \<Rightarrow> False | Some v \<Rightarrow> eq_ignore_ascii_case v ''close''),
            rs_returned = None\<rparr>)"

definition finish :: "nat \<Rightarrow> bool \<Rightarrow> response_stream \<Rightarrow> response_stream" where
  "finish max_idle keepable st =
     (case rs_conn st of
        None \<Rightarrow> st
      | Some c \<Rightarrow>
          st\<lparr>rs_conn := None,
             rs_returned := (if 0 < max_idle \<and> keepable \<and> \<not> rs_close st then Some c else rs_returned st)\<rparr>)"

datatype stream_step = Yield string | Finished bool | NeedMore string

text \<open>One pass over the buffered bytes.\<close>

definition pass :: "response_stream \<Rightarrow> http_error + (stream_step \<times> response_stream)" where
  "pass st =
     (case rs_plan st of
        Remaining rem \<Rightarrow>
          Inr (if rem = 0 then (Finished True, st)
               else if rs_buf st \<noteq> [] then
                 let n = min rem (length (rs_buf st))
                 in (Yield (take n (rs_buf st)), st\<lparr>rs_plan := Remaining (rem - n), rs_buf := drop n (rs_buf st)\<rparr>)
               else (NeedMore ''connection closed mid-body'', st))
      | Decoding cs \<Rightarrow>
          (case pull cs (rs_buf st) [] of
             Inl e \<Rightarrow> Inl e
           | Inr (cs, b, out) \<Rightarrow>
               let st = st\<lparr>rs_plan := Decoding cs, rs_buf := b\<rparr>
               in Inr (if out \<noteq> [] then (Yield out, st)
                       else if cs = Done then (Finished True, st)
                       else (NeedMore ''connection closed mid-chunk'', st)))
      | ToClose \<Rightarrow>
          Inr (if rs_buf st \<noteq> [] then (Yield (rs_buf st), st\<lparr>rs_buf := []\<rparr>) else (NeedMore [], st)))"

definition conn_size :: "response_stream \<Rightarrow> nat" where
  "conn_size st = (case rs_conn st of None \<Rightarrow> 0 | Some s \<Rightarrow> script_size s)"

lemma pass_conn: "pass st = Inr (step, st') \<Longrightarrow> rs_conn st' = rs_conn st"
  by (auto simp: pass_def Let_def split: stream_plan.splits sum.splits if_splits)

function chunk :: "nat \<Rightarrow> response_stream \<Rightarrow> client_fail + (string option \<times> response_stream)" where
  "chunk max_idle st =
     (case rs_conn st of
        None \<Rightarrow> Inr (None, st)
      | Some s \<Rightarrow>
          (case pass st of
             Inl e \<Rightarrow> Inl (Failed e)
           | Inr (Yield out, st) \<Rightarrow> Inr (Some out, st)
           | Inr (Finished keepable, st) \<Rightarrow> Inr (None, finish max_idle keepable st)
           | Inr (NeedMore mid_err, st) \<Rightarrow>
               (case read_more s (rs_buf st) of
                  Inl e \<Rightarrow> Inl e
                | Inr (False, _) \<Rightarrow>
                    if rs_plan st = ToClose then Inr (None, finish max_idle False st)
                    else Inl (Failed (Protocol mid_err))
                | Inr (True, b, s) \<Rightarrow> chunk max_idle (st\<lparr>rs_conn := Some s, rs_buf := b\<rparr>))))"
  by pat_completeness auto
termination
  by (relation "measure (\<lambda>(m, st). conn_size st)")
    (auto simp: conn_size_def dest!: read_more_shrinks pass_conn)

declare chunk.simps [simp del]

lemma pull_length: "pull cs b out = Inr (cs', b', out') \<Longrightarrow> length b' + length out' \<le> length b + length out"
proof (induction cs b out rule: pull.induct)
  case (1 cs b out)
  from "1.prems" show ?case
    by (subst (asm) pull.simps)
      (auto simp: Let_def split: chunk_state.splits option.splits if_splits dest!: "1.IH" dest: find_bytes_bound)
qed

lemma pull_length0: "pull cs b [] = Inr (cs', b', out) \<Longrightarrow> length b' + length out \<le> length b"
  using pull_length [of cs b "[]"] by simp

lemma pass_yield:
  assumes "pass st = Inr (Yield out, st')"
  shows "length (rs_buf st') < length (rs_buf st)" "rs_conn st' = rs_conn st" "out \<noteq> []"
proof -
  show "rs_conn st' = rs_conn st" by (rule pass_conn [OF assms])
  show "length (rs_buf st') < length (rs_buf st)"
  proof (cases "rs_plan st")
    case (Decoding cs)
    with assms obtain cs' b where p: "pull cs (rs_buf st) [] = Inr (cs', b, out)" "out \<noteq> []" "rs_buf st' = b"
      by (auto simp: pass_def Let_def split: sum.splits if_splits)
    from p(2) have "0 < length out" by simp
    with pull_length0 [OF p(1)] show ?thesis unfolding p(3) by linarith
  qed (use assms in \<open>auto simp: pass_def Let_def split: if_splits\<close>)
  show "out \<noteq> []" using assms by (auto simp: pass_def Let_def min_def split: stream_plan.splits sum.splits if_splits)
qed

definition stream_weight :: "response_stream \<Rightarrow> nat" where
  "stream_weight st = length (rs_buf st) + conn_size st"

lemma pass_more:
  assumes "pass st = Inr (NeedMore e, st')"
  shows "length (rs_buf st') \<le> length (rs_buf st)"
proof (cases "rs_plan st")
  case (Decoding cs)
  with assms obtain cs' b where p: "pull cs (rs_buf st) [] = Inr (cs', b, [])" "rs_buf st' = b"
    by (auto simp: pass_def Let_def split: sum.splits if_splits)
  from pull_length0 [OF p(1)] show ?thesis unfolding p(2) by simp
qed (use assms in \<open>auto simp: pass_def Let_def split: if_splits\<close>)

text \<open>What one call of \<open>chunk\<close> does, as a case distinction.\<close>

lemma chunk_cases:
  assumes "chunk m st = Inr (r, st')"
  obtains (over) "rs_conn st = None" "r = None" "st' = st"
  | (yields) s out where "rs_conn st = Some s" "pass st = Inr (Yield out, st')" "r = Some out"
  | (ends) s k st1 where "rs_conn st = Some s" "pass st = Inr (Finished k, st1)" "r = None" "st' = finish m k st1"
  | (closes) s e st1 b s1 where "rs_conn st = Some s" "pass st = Inr (NeedMore e, st1)" "read_more s (rs_buf st1) = Inr (False, b, s1)"
      "rs_plan st1 = ToClose" "r = None" "st' = finish m False st1"
  | (more) s e st1 b s1 where "rs_conn st = Some s" "pass st = Inr (NeedMore e, st1)" "read_more s (rs_buf st1) = Inr (True, b, s1)"
      "chunk m (st1\<lparr>rs_conn := Some s1, rs_buf := b\<rparr>) = Inr (r, st')"
  using assms
  by (subst (asm) chunk.simps)
    (auto split: option.splits sum.splits prod.splits stream_step.splits bool.splits if_splits)

lemma chunk_weight: "chunk m st = Inr (Some out, st') \<Longrightarrow> stream_weight st' < stream_weight st"
proof (induction m st rule: chunk.induct)
  case (1 m st)
  from "1.prems" show ?case
  proof (cases rule: chunk_cases)
    case (yields s out)
    with pass_yield [OF yields(2)] yields show ?thesis by (simp add: stream_weight_def conn_size_def)
  next
    case (more s e st1 b s1)
    have "stream_weight st' < stream_weight (st1\<lparr>rs_conn := Some s1, rs_buf := b\<rparr>)"
      using "1.IH" [OF more(1,2) refl refl more(3)] more(4) by simp
    also have "\<dots> \<le> stream_weight st"
      using read_more_weight [OF more(3)] pass_more [OF more(2)] more(1) by (simp add: stream_weight_def conn_size_def)
    finally show ?thesis .
  qed simp_all
qed

function drain :: "nat \<Rightarrow> response_stream \<Rightarrow> string \<Rightarrow> client_fail + (string \<times> response_stream)" where
  "drain m st body =
     (case chunk m st of
        Inl e \<Rightarrow> Inl e
      | Inr (None, st) \<Rightarrow> Inr (body, st)
      | Inr (Some part, st) \<Rightarrow> drain m st (body @ part))"
  by pat_completeness auto
termination
  by (relation "measure (\<lambda>(m, st, body). stream_weight st)") (auto dest: chunk_weight)

declare drain.simps [simp del]

definition read_to_end :: "codecs \<Rightarrow> nat \<Rightarrow> response_stream \<Rightarrow> client_fail + client_response" where
  "read_to_end C m st =
     bind_run (drain m st []) (\<lambda>(body, st).
       lift_http (decompress C \<lparr>cr_status = rs_status st, cr_body = body, cr_head = rs_head st, cr_spans = rs_spans st\<rparr>))"

section \<open>The two readers agree\<close>

text \<open>What the socket delivers before its stream ends or fails.\<close>

fun avail :: "script \<Rightarrow> string" where
  "avail [] = []"
| "avail (Inl k # s) = []"
| "avail (Inr p # s) = (if p = [] then [] else p @ avail s)"

lemma read_more_avail: "read_more s b = Inr (True, b', s') \<Longrightarrow> b' @ avail s' = b @ avail s"
proof (cases "(s, b)" rule: read_more.cases)
  case (3 p r c)
  moreover have "take 4096 p @ drop 4096 p @ x = p @ x" for x by (metis append_assoc append_take_drop_id)
  ultimately show "read_more s b = Inr (True, b', s') \<Longrightarrow> b' @ avail s' = b @ avail s" by (auto split: if_splits)
qed auto

lemma read_more_end:
  "read_more s b = Inr (False, b', s') \<Longrightarrow> avail s = [] \<and> b' = b" "read_more s b = Inl e \<Longrightarrow> avail s = []"
  by (cases "(s, b)" rule: read_more.cases; auto split: if_splits)+

lemma read_more_prefix:
  "read_more s (x @ b) = (case read_more s b of Inl e \<Rightarrow> Inl e | Inr (go, b, s) \<Rightarrow> Inr (go, x @ b, s))"
  by (cases "(s, b)" rule: read_more.cases) auto

text \<open>The incremental decoder does not depend on how its input is cut.\<close>

lemma pull_append:
  "pull cs b out = Inr (cs', b', out') \<Longrightarrow> pull cs (b @ t) out = pull cs' (b' @ t) out'"
proof (induction cs b out arbitrary: t rule: pull.induct)
  case (1 cs b out)
  show ?case
  proof (cases cs)
    case Size
    show ?thesis
    proof (cases "find_bytes b crlf")
      case None
      with "1.prems" Size show ?thesis by (simp add: pull.simps [of Size b out])
    next
      case (Some i)
      then have i: "i + 2 \<le> length b" using find_bytes_bound [OF Some] by (simp add: crlf_def)
      let ?sz = "if utf8_valid (take i b) then parse_hex_usize (size_field (take i b)) else None"
      show ?thesis
      proof (cases ?sz)
        case None
        with "1.prems" Size Some show ?thesis by (simp add: pull.simps [of Size b out])
      next
        case (Some sz)
        then have v: "utf8_valid (take i b)" "parse_hex_usize (size_field (take i b)) = Some sz" by (auto split: if_splits)
        have "pull cs b out = pull (if sz = 0 then Trailer else Data sz) (drop (i + 2) b) out"
          using Size \<open>find_bytes b crlf = Some i\<close> Some by (simp add: pull.simps [of Size b out])
        moreover have "pull cs (b @ t) out = pull (if sz = 0 then Trailer else Data sz) (drop (i + 2) b @ t) out"
          using Size find_bytes_append [OF \<open>find_bytes b crlf = Some i\<close>, of t] v i
          by (simp add: pull.simps [of Size "b @ t" out])
        ultimately show ?thesis
          using "1.IH"(1) [OF Size \<open>find_bytes b crlf = Some i\<close> Some] "1.prems" by simp
      qed
    qed
  next
    case (Data rem)
    show ?thesis
    proof (cases "b = []")
      case False
      let ?n = "min rem (length b)"
      have a: "pull cs b out = pull (if ?n = rem then DataCrlf else Data (rem - ?n)) (drop ?n b) (out @ take ?n b)"
        using Data False by (simp add: pull.simps [of "Data rem" b out] Let_def)
      have IH: "pull (if ?n = rem then DataCrlf else Data (rem - ?n)) (drop ?n b @ t) (out @ take ?n b) = pull cs' (b' @ t) out'"
        using "1.IH"(2) [OF Data False refl] "1.prems" unfolding a by blast
      show ?thesis
      proof (cases "rem \<le> length b")
        case True
        with Data False IH show ?thesis by (simp add: pull.simps [of "Data rem" "b @ t" out] min_absorb1 Let_def)
      next
        case False
        then have IH': "pull (Data (rem - length b)) t (out @ b) = pull cs' (b' @ t) out'" using IH by (simp add: min_def)
        have "pull cs (b @ t) out = pull (Data (rem - length b)) t (out @ b)"
        proof (cases "t = []")
          case True
          with Data False \<open>b \<noteq> []\<close> show ?thesis by (simp add: pull.simps [of "Data rem" b out] min_def Let_def)
        next
          case False
          with \<open>\<not> rem \<le> length b\<close> Data show ?thesis
            by (auto simp: pull.simps [of "Data rem" "b @ t" out] pull.simps [of "Data (rem - length b)" t] min_def Let_def)
        qed
        with IH' show ?thesis by simp
      qed
    qed (use "1.prems" Data in \<open>simp add: pull.simps [of "Data rem" "[]" out]\<close>)
  next
    case DataCrlf
    show ?thesis
    proof (cases "length b < 2")
      case False
      with DataCrlf "1.prems" have "pull Size (drop 2 b) out = Inr (cs', b', out')" by (simp add: pull.simps [of DataCrlf b out])
      with "1.IH"(3) [OF DataCrlf False, of t] DataCrlf False show ?thesis by (simp add: pull.simps [of DataCrlf "b @ t" out])
    qed (use "1.prems" DataCrlf in \<open>simp add: pull.simps [of DataCrlf b out]\<close>)
  next
    case Trailer
    show ?thesis
    proof (cases "find_bytes b crlf")
      case (Some i)
      then have i: "i + 2 \<le> length b" using find_bytes_bound [OF Some] by (simp add: crlf_def)
      from Some Trailer "1.prems" have "pull Done (drop (i + 2) b) out = Inr (cs', b', out')" by (simp add: pull.simps [of Trailer b out])
      with "1.IH"(4) [OF Trailer Some, of t] Trailer i find_bytes_append [OF Some, of t]
      show ?thesis by (simp add: pull.simps [of Trailer "b @ t" out])
    qed (use "1.prems" Trailer in \<open>simp add: pull.simps [of Trailer b out]\<close>)
  next
    case Done
    with "1.prems" show ?thesis by (simp add: pull.simps [of Done b out])
  qed
qed

lemma pull_out:
  "pull cs b (x @ y) = (case pull cs b y of Inl e \<Rightarrow> Inl e | Inr (cs, b, out) \<Rightarrow> Inr (cs, b, x @ out))"
proof (induction cs b y rule: pull.induct)
  case (1 cs b y)
  show ?case
  proof (cases cs)
    case Size
    with "1.IH"(1) show ?thesis
      by (subst (1 2) pull.simps) (auto split: option.split)
  next
    case (Data rem)
    with "1.IH"(2) show ?thesis
      by (subst (1 2) pull.simps) (auto simp: Let_def)
  next
    case DataCrlf
    with "1.IH"(3) show ?thesis by (subst (1 2) pull.simps) auto
  next
    case Trailer
    with "1.IH"(4) show ?thesis by (subst (1 2) pull.simps) (auto split: option.split)
  next
    case Done
    then show ?thesis by (subst (1 2) pull.simps) simp
  qed
qed

text \<open>The body that a plan takes from the data, for a reader that has all of it.\<close>

fun plan_result :: "stream_plan \<Rightarrow> string \<Rightarrow> string option" where
  "plan_result (Remaining n) d = (if n \<le> length d then Some (take n d) else None)"
| "plan_result (Decoding cs) d = (case pull cs d [] of Inr (Done, _, out) \<Rightarrow> Some out | _ \<Rightarrow> None)"
| "plan_result ToClose d = Some d"

definition stream_data :: "response_stream \<Rightarrow> string" where
  "stream_data st = rs_buf st @ (case rs_conn st of None \<Rightarrow> [] | Some s \<Rightarrow> avail s)"

lemma append_nothing [simp]: "map_option ((@) []) r = r"
  by (cases r) simp_all

lemma decoding_step:
  assumes "pull cs b [] = Inr (cs', b', out)"
  shows "plan_result (Decoding cs) (b @ t) = map_option ((@) out) (plan_result (Decoding cs') (b' @ t))"
  using pull_append [OF assms, of t] pull_out [of cs' "b' @ t" out "[]"]
  by (simp split: sum.split chunk_state.split)

lemma pass_data:
  assumes "pass st = Inr (step, st')"
  shows "plan_result (rs_plan st) (stream_data st) =
    map_option ((@) (case step of Yield out \<Rightarrow> out | _ \<Rightarrow> [])) (plan_result (rs_plan st') (stream_data st'))"
    and "step = Finished k \<Longrightarrow> plan_result (rs_plan st) (stream_data st) = Some []"
proof -
  have c: "rs_conn st' = rs_conn st" by (rule pass_conn [OF assms])
  show "plan_result (rs_plan st) (stream_data st) =
    map_option ((@) (case step of Yield out \<Rightarrow> out | _ \<Rightarrow> [])) (plan_result (rs_plan st') (stream_data st'))"
  proof (cases "rs_plan st")
    case (Remaining n)
    with assms show ?thesis
      by (auto simp: pass_def Let_def stream_data_def min_def option.map_ident split: if_splits option.splits)
  next
    case (Decoding cs)
    with assms obtain cs' b out where p: "pull cs (rs_buf st) [] = Inr (cs', b, out)"
        "st' = st\<lparr>rs_plan := Decoding cs', rs_buf := b\<rparr>" "(case step of Yield out \<Rightarrow> out | _ \<Rightarrow> []) = out"
      by (auto simp: pass_def Let_def split: sum.splits if_splits)
    show ?thesis unfolding Decoding stream_data_def decoding_step [OF p(1)] p(3) by (simp add: p(2))
  next
    case ToClose
    with assms show ?thesis by (auto simp: pass_def stream_data_def split: if_splits option.splits)
  qed
  show "plan_result (rs_plan st) (stream_data st) = Some []" if "step = Finished k"
  proof (cases "rs_plan st")
    case (Decoding cs)
    with assms that obtain b where p: "pull cs (rs_buf st) [] = Inr (Done, b, [])"
      by (auto simp: pass_def Let_def split: sum.splits if_splits)
    show ?thesis unfolding Decoding stream_data_def decoding_step [OF p] by (simp add: pull.simps [of Done])
  qed (use assms that in \<open>auto simp: pass_def Let_def split: if_splits\<close>)
qed

lemma chunk_data:
  "chunk m st = Inr (r, st') \<Longrightarrow> rs_conn st \<noteq> None \<Longrightarrow> rs_plan st \<noteq> ToClose \<Longrightarrow>
   (case r of
      None \<Rightarrow> plan_result (rs_plan st) (stream_data st) = Some []
    | Some out \<Rightarrow> rs_conn st' \<noteq> None \<and> rs_plan st' \<noteq> ToClose \<and>
        plan_result (rs_plan st) (stream_data st) = map_option ((@) out) (plan_result (rs_plan st') (stream_data st')))"
proof (induction m st rule: chunk.induct)
  case (1 m st)
  have tc: "rs_plan st1 \<noteq> ToClose" if "pass st = Inr (step, st1)" for step st1
    using that "1.prems"(3) by (auto simp: pass_def Let_def split: stream_plan.splits sum.splits if_splits)
  from "1.prems"(1) show ?case
  proof (cases rule: chunk_cases)
    case over
    with "1.prems" show ?thesis by simp
  next
    case (yields s out)
    with pass_data(1) [OF yields(2)] pass_conn [OF yields(2)] tc [OF yields(2)] show ?thesis by simp
  next
    case (ends s k st1)
    with pass_data(2) [OF ends(2) refl] show ?thesis by simp
  next
    case (closes s e st1 b s1)
    with tc [OF closes(2)] show ?thesis by simp
  next
    case (more s e st1 b s1)
    let ?st2 = "st1\<lparr>rs_conn := Some s1, rs_buf := b\<rparr>"
    have "stream_data ?st2 = stream_data st1"
      using read_more_avail [OF more(3)] pass_conn [OF more(2)] more(1) by (simp add: stream_data_def)
    moreover have "plan_result (rs_plan st) (stream_data st) = plan_result (rs_plan st1) (stream_data st1)"
      using pass_data(1) [OF more(2)] by (simp add: option.map_ident)
    ultimately have same: "plan_result (rs_plan st) (stream_data st) = plan_result (rs_plan ?st2) (stream_data ?st2)" by simp
    show ?thesis using "1.IH" [OF more(1,2) refl refl more(3)] more(4) tc [OF more(2)] unfolding same by simp
  qed
qed

lemma drain_data:
  "drain m st acc = Inr (body, st') \<Longrightarrow> rs_conn st \<noteq> None \<Longrightarrow> rs_plan st \<noteq> ToClose \<Longrightarrow>
   \<exists>b. plan_result (rs_plan st) (stream_data st) = Some b \<and> body = acc @ b"
proof (induction m st acc rule: drain.induct)
  case (1 m st acc)
  obtain r st1 where c: "chunk m st = Inr (r, st1)" using "1.prems"(1) by (subst (asm) drain.simps) (auto split: sum.splits)
  note d = chunk_data [OF c "1.prems"(2,3)]
  show ?case
  proof (cases r)
    case None
    with c d "1.prems"(1) show ?thesis by (simp add: drain.simps [of m st])
  next
    case (Some out)
    with c "1.prems"(1) have "drain m st1 (acc @ out) = Inr (body, st')" by (simp add: drain.simps [of m st])
    with "1.IH" [OF c refl Some] d Some show ?thesis by auto
  qed
qed

lemma read_length_ok: "n \<le> length (b @ avail s) \<Longrightarrow> \<exists>s'. read_length n s b = Inr (take n (b @ avail s), s')"
proof (induction n s b rule: read_length.induct)
  case (1 n s b)
  show ?case
  proof (cases "length b < n")
    case True
    with "1.prems" have ne: "avail s \<noteq> []" by auto
    then obtain go b' s' where r: "read_more s b = Inr (go, b', s')"
      using read_more_end(2) [of s b] by (cases "read_more s b") auto
    with ne have go: "go" using read_more_end(1) [of s b b' s'] by (cases go) auto
    with r have a: "b' @ avail s' = b @ avail s" using read_more_avail by simp
    have "\<exists>s2. read_length n s' b' = Inr (take n (b' @ avail s'), s2)"
      using "1.IH" [OF True r refl] go "1.prems" a by simp
    with True r go a show ?thesis by (simp add: read_length.simps [of n s b])
  qed (simp add: read_length.simps [of n s b])
qed

lemma find_bytes_take:
  "find_bytes h nd = Some i \<Longrightarrow> find_bytes (take n h) nd = (if i + length nd \<le> n then Some i else None)"
proof (cases "i + length nd \<le> n")
  case True
  assume f: "find_bytes h nd = Some i"
  then have "take (length nd) (drop j (take n h)) \<noteq> nd" if "j < i" for j
    using that True by (auto simp: find_bytes_iff drop_take min_def)
  with f True show ?thesis by (auto simp: find_bytes_iff drop_take min_def)
next
  case False
  assume f: "find_bytes h nd = Some i"
  have "find_bytes (take n h) nd = None"
  proof (rule ccontr)
    assume "find_bytes (take n h) nd \<noteq> None"
    then obtain j where j: "find_bytes (take n h) nd = Some j" by auto
    then have "find_bytes (take n h @ drop n h) nd = Some j" by (rule find_bytes_append)
    with f have "j = i" by simp
    with find_bytes_bound [OF j] False show False by simp
  qed
  with False show ?thesis by simp
qed

lemma decode_loop_unfold:
  assumes "find_bytes (drop pos b) crlf = Some i" "utf8_valid (take i (drop pos b))"
    "parse_hex_usize (size_field (take i (drop pos b))) = Some sz" "length b < 2 ^ 63" "pos + i + 2 + sz + 2 \<le> length b"
  shows "decode_loop b pos out =
    (if sz = 0 then Inr (Some out) else decode_loop b (pos + i + 2 + sz + 2) (out @ take sz (drop (pos + i + 2) b)))"
proof -
  have "wrapping_add64 (pos + i + 2 + sz) 2 = pos + i + 2 + sz + 2" "pos + i + 2 + sz \<le> u64_max"
    using assms(4,5) by (simp_all add: wrapping_add64_def u64_max_def)
  with assms show ?thesis by (subst decode_loop.simps) (simp add: Let_def)
qed

lemma pull_trailer: "pull Trailer b out = Inr (cs', b', out') \<Longrightarrow> out' = out"
  by (subst (asm) pull.simps) (auto simp: pull.simps [of Done] split: option.splits)

text \<open>Where the incremental decoder has seen the last chunk, the other one answers the same.\<close>

lemma decode_of_pull:
  "pull Size (drop pos b) out = Inr (cs', r, out') \<Longrightarrow> cs' = Trailer \<or> cs' = Done \<Longrightarrow> length b < 2 ^ 63 \<Longrightarrow>
   decode_loop b pos out = Inr (Some out')"
proof (induction b pos out rule: decode_loop.induct)
  case (1 b pos out)
  from "1.prems"(1,2) obtain i sz where i: "find_bytes (drop pos b) crlf = Some i"
      "utf8_valid (take i (drop pos b))" "parse_hex_usize (size_field (take i (drop pos b))) = Some sz"
    and p: "pull (if sz = 0 then Trailer else Data sz) (drop (i + 2) (drop pos b)) out = Inr (cs', r, out')"
    by (subst (asm) pull.simps) (auto split: option.splits if_splits)
  show ?case
  proof (cases "sz = 0")
    case True
    with p have "out' = out" using pull_trailer by simp
    with True i show ?thesis by (subst decode_loop.simps) (simp add: Let_def)
  next
    case False
    let ?start = "pos + i + 2"
    have d: "drop (i + 2) (drop pos b) = drop ?start b" by (simp add: add.assoc add.commute)
    have q: "pull (Data sz) (drop ?start b) out = Inr (cs', r, out')" using p False unfolding d by simp
    have ne: "drop ?start b \<noteq> []" using q "1.prems"(2) by (auto simp: pull.simps [of "Data sz"])
    have enough: "sz \<le> length (drop ?start b)"
    proof (rule ccontr)
      assume "\<not> sz \<le> length (drop ?start b)"
      with q ne "1.prems"(2) show False by (auto simp: pull.simps [of "Data sz"] pull.simps [of "Data _" "[]"] min_def Let_def)
    qed
    then have crlf_state: "pull DataCrlf (drop (?start + sz) b) (out @ take sz (drop ?start b)) = Inr (cs', r, out')"
      using q ne by (simp add: pull.simps [of "Data sz"] min_def Let_def add.commute add.left_commute)
    have two: "2 \<le> length (drop (?start + sz) b)"
    proof (rule ccontr)
      assume "\<not> 2 \<le> length (drop (?start + sz) b)"
      with crlf_state "1.prems"(2) show False by (auto simp: pull.simps [of DataCrlf])
    qed
    then have next_size: "pull Size (drop (?start + sz + 2) b) (out @ take sz (drop ?start b)) = Inr (cs', r, out')"
      using crlf_state by (simp add: pull.simps [of DataCrlf] add.commute add.left_commute)
    have len: "?start + sz + 2 \<le> length b" using two enough ne by auto
    have "wrapping_add64 (?start + sz) 2 = ?start + sz + 2" "?start + sz \<le> u64_max"
      using "1.prems"(3) len by (simp_all add: wrapping_add64_def u64_max_def)
    then have "decode_loop b (?start + sz + 2) (out @ take sz (drop ?start b)) = Inr (Some out')"
      using "1.IH" [OF i(1) refl _ refl False] i len next_size "1.prems"(2,3) by simp
    with decode_loop_unfold [OF i "1.prems"(3) len] False show ?thesis by simp
  qed
qed

lemma decode_loop_Some:
  assumes "decode_loop b pos out = Inr (Some d)" "length b < 2 ^ 63"
  obtains i sz where "find_bytes (drop pos b) crlf = Some i" "utf8_valid (take i (drop pos b))"
    "parse_hex_usize (size_field (take i (drop pos b))) = Some sz"
    "sz = 0 \<longrightarrow> out = d" "sz \<noteq> 0 \<longrightarrow> pos + i + 2 + sz + 2 \<le> length b"
    "sz \<noteq> 0 \<longrightarrow> decode_loop b (pos + i + 2 + sz + 2) (out @ take sz (drop (pos + i + 2) b)) = Inr (Some d)"
proof -
  from assms(1) obtain i sz where i: "find_bytes (drop pos b) crlf = Some i" "utf8_valid (take i (drop pos b))"
      "parse_hex_usize (size_field (take i (drop pos b))) = Some sz"
    by (subst (asm) decode_loop.simps) (auto simp: Let_def split: option.splits if_splits)
  show thesis
  proof (cases "sz = 0")
    case True
    with assms(1) i have "out = d" by (subst (asm) decode_loop.simps) (simp add: Let_def)
    with True i that show thesis by blast
  next
    case False
    from False assms(1) i have "wrapping_add64 (pos + i + 2 + sz) 2 \<le> length b" "pos + i + 2 + sz \<le> length b"
      by (subst (asm) decode_loop.simps, simp add: Let_def split: if_splits)+
    then have "pos + i + 2 + sz + 2 \<le> length b"
      using assms(2) by (simp add: wrapping_add64_def)
    with decode_loop_unfold [OF i assms(2) this] False assms(1) i that show thesis by simp
  qed
qed

lemma decode_prefix:
  "decode_loop b pos out = Inr (Some d) \<Longrightarrow> length b < 2 ^ 63 \<Longrightarrow>
   decode_loop (take n b) pos out = Inr None \<or> decode_loop (take n b) pos out = Inr (Some d)"
proof (induction b pos out rule: decode_loop.induct)
  case (1 b pos out)
  obtain i sz where i: "find_bytes (drop pos b) crlf = Some i" "utf8_valid (take i (drop pos b))"
      "parse_hex_usize (size_field (take i (drop pos b))) = Some sz"
    and z: "sz = 0 \<longrightarrow> out = d" "sz \<noteq> 0 \<longrightarrow> pos + i + 2 + sz + 2 \<le> length b"
      "sz \<noteq> 0 \<longrightarrow> decode_loop b (pos + i + 2 + sz + 2) (out @ take sz (drop (pos + i + 2) b)) = Inr (Some d)"
    using "1.prems" by (rule decode_loop_Some)
  have dt: "drop pos (take n b) = take (n - pos) (drop pos b)" by (simp add: drop_take)
  have f: "find_bytes (drop pos (take n b)) crlf = (if i + 2 \<le> n - pos then Some i else None)"
    unfolding dt using find_bytes_take [OF i(1)] by (simp add: crlf_def)
  show ?case
  proof (cases "i + 2 \<le> n - pos")
    case False
    with f show ?thesis by (simp add: decode_loop.simps [of "take n b" pos out])
  next
    case True
    then have line: "take i (drop pos (take n b)) = take i (drop pos b)" unfolding dt by (simp add: min_def)
    have i': "find_bytes (drop pos (take n b)) crlf = Some i" "utf8_valid (take i (drop pos (take n b)))"
      "parse_hex_usize (size_field (take i (drop pos (take n b)))) = Some sz"
      using f True i unfolding line by simp_all
    have len': "length (take n b) < 2 ^ 63" using "1.prems"(2) by simp
    show ?thesis
    proof (cases "sz = 0")
      case zero: True
      with i' have "decode_loop (take n b) pos out = Inr (Some out)" by (subst decode_loop.simps) (simp add: Let_def)
      with z(1) zero show ?thesis by simp
    next
      case more: False
      have w: "wrapping_add64 (pos + i + 2 + sz) 2 = pos + i + 2 + sz + 2" "pos + i + 2 + sz \<le> u64_max"
        using z(2) more "1.prems"(2) by (simp_all add: wrapping_add64_def u64_max_def)
      show ?thesis
      proof (cases "pos + i + 2 + sz + 2 \<le> length (take n b)")
        case False
        then have "length (take n b) < wrapping_add64 (pos + i + 2 + sz) 2" unfolding w(1) by (simp only: not_le)
        with i' more w(2) have "decode_loop (take n b) pos out = Inr None"
          by (subst decode_loop.simps) (simp add: Let_def del: length_take)
        then show ?thesis by simp
      next
        case fits: True
        then have "pos + i + 2 + sz \<le> n" by simp
        then have "sz \<le> n - (pos + i + 2)" by linarith
        then have data: "take sz (drop (pos + i + 2) (take n b)) = take sz (drop (pos + i + 2) b)"
          by (simp add: drop_take min_absorb1)
        have "decode_loop (take n b) (pos + i + 2 + sz + 2) (out @ take sz (drop (pos + i + 2) b)) \<in> {Inr None, Inr (Some d)}"
          using "1.IH" [OF i(1) refl _ refl more] i w z(2,3) more "1.prems"(2) by auto
        with decode_loop_unfold [OF i' len' fits] more data show ?thesis by auto
      qed
    qed
  qed
qed

lemma read_chunks_ok:
  "decode_chunked (b @ avail s) = Inr (Some d) \<Longrightarrow> length (b @ avail s) < 2 ^ 63 \<Longrightarrow> \<exists>s'. read_chunks s b = Inr (d, s')"
proof (induction s b rule: read_chunks.induct)
  case (1 s b)
  have pre: "decode_chunked b = Inr None \<or> decode_chunked b = Inr (Some d)"
    using decode_prefix [of "b @ avail s" 0 "[]" d "length b"] "1.prems" by (simp add: decode_chunked_def)
  show ?case
  proof (cases "decode_chunked b = Inr (Some d)")
    case False
    with pre have none: "decode_chunked b = Inr None" by simp
    with "1.prems"(1) have ne: "avail s \<noteq> []" by auto
    then obtain go b' s' where r: "read_more s b = Inr (go, b', s')"
      using read_more_end(2) [of s b] by (cases "read_more s b") auto
    with ne have go: "go" using read_more_end(1) [of s b b' s'] by (cases go) auto
    with r have a: "b' @ avail s' = b @ avail s" using read_more_avail by simp
    have "\<exists>s2. read_chunks s' b' = Inr (d, s2)"
      using "1.IH" [OF none refl r refl] go "1.prems" a by simp
    with none r go show ?thesis by (simp add: read_chunks.simps [of s b])
  qed (simp add: read_chunks.simps [of s b])
qed

lemma read_to_close_prefix:
  "read_to_close s (x @ b) = (case read_to_close s b of Inl e \<Rightarrow> Inl e | Inr (b, s) \<Rightarrow> Inr (x @ b, s))"
proof (induction s b rule: read_to_close.induct)
  case (1 s b)
  show ?case
  proof (cases "read_more s b")
    case (Inr r)
    obtain go b' s' where r: "r = (go, b', s')" by (cases r)
    with Inr "1.IH" [OF Inr] show ?thesis
      by (cases go) (simp_all add: read_to_close.simps [of s] read_more_prefix)
  qed (simp add: read_to_close.simps [of s] read_more_prefix)
qed

lemma chunk_to_close:
  "chunk m st = Inr (r, st') \<Longrightarrow> rs_plan st = ToClose \<Longrightarrow> rs_conn st = Some s \<Longrightarrow>
   (case r of
      None \<Rightarrow> \<exists>s'. read_to_close s (rs_buf st) = Inr ([], s')
    | Some out \<Rightarrow> rs_plan st' = ToClose \<and> (\<exists>s'. rs_conn st' = Some s' \<and>
        read_to_close s (rs_buf st) = read_to_close s' (out @ rs_buf st')))"
proof (induction m st arbitrary: s rule: chunk.induct)
  case (1 m st)
  from "1.prems"(1) show ?case
  proof (cases rule: chunk_cases)
    case over
    with "1.prems" show ?thesis by simp
  next
    case (yields s out)
    with "1.prems" show ?thesis by (auto simp: pass_def split: if_splits)
  next
    case (ends s k st1)
    with "1.prems" show ?thesis by (auto simp: pass_def split: if_splits)
  next
    case (closes s2 e st1 b s1)
    with "1.prems" have "rs_buf st = []" "s2 = s" "st1 = st" by (auto simp: pass_def split: if_splits)
    with closes read_more_end(1) [OF closes(3)] show ?thesis by (simp add: read_to_close.simps [of s])
  next
    case (more s2 e st1 b s1)
    with "1.prems" have e: "rs_buf st = []" "s2 = s" "st1 = st" by (auto simp: pass_def split: if_splits)
    have "read_to_close s (rs_buf st) = read_to_close s1 b"
      using more(3) e by (simp add: read_to_close.simps [of s])
    with "1.IH" [OF more(1,2) refl refl more(3), of True "(b, s1)" b s1] more(4) "1.prems"(2) e
    show ?thesis by (cases r) auto
  qed
qed

lemma drain_to_close:
  "drain m st body = Inr (b, st') \<Longrightarrow> rs_plan st = ToClose \<Longrightarrow> rs_conn st = Some s \<Longrightarrow>
   \<exists>s'. read_to_close s (body @ rs_buf st) = Inr (b, s')"
proof (induction m st body arbitrary: s rule: drain.induct)
  case (1 m st body)
  obtain r st1 where c: "chunk m st = Inr (r, st1)" using "1.prems"(1) by (subst (asm) drain.simps) (auto split: sum.splits)
  note d = chunk_to_close [OF c "1.prems"(2,3)]
  show ?case
  proof (cases r)
    case None
    with c "1.prems"(1) have "b = body" by (simp add: drain.simps [of m st])
    with d None show ?thesis by (auto simp: read_to_close_prefix)
  next
    case (Some out)
    with c "1.prems"(1) have "drain m st1 (body @ out) = Inr (b, st')" by (simp add: drain.simps [of m st])
    moreover obtain s1 where s1: "rs_plan st1 = ToClose" "rs_conn st1 = Some s1"
        "read_to_close s (rs_buf st) = read_to_close s1 (out @ rs_buf st1)"
      using d Some by auto
    ultimately obtain s2 where "read_to_close s1 ((body @ out) @ rs_buf st1) = Inr (b, s2)"
      using "1.IH" [OF c refl Some] by blast
    with s1(3) show ?thesis by (simp add: read_to_close_prefix [of _ body])
  qed
qed

definition same_head :: "response_stream \<Rightarrow> response_stream \<Rightarrow> bool" where
  "same_head a b \<longleftrightarrow> rs_status a = rs_status b \<and> rs_head a = rs_head b \<and> rs_spans a = rs_spans b"

lemma pass_head: "pass st = Inr (step, st') \<Longrightarrow> same_head st' st"
  by (auto simp: pass_def same_head_def Let_def split: stream_plan.splits sum.splits if_splits)

lemma finish_head: "same_head (finish m k st) st"
  by (simp add: finish_def same_head_def split: option.split)

lemma same_head_trans: "same_head a b \<Longrightarrow> same_head b c \<Longrightarrow> same_head a c"
  by (simp add: same_head_def)

lemma chunk_head: "chunk m st = Inr (r, st') \<Longrightarrow> same_head st' st"
proof (induction m st rule: chunk.induct)
  case (1 m st)
  from "1.prems" show ?case
  proof (cases rule: chunk_cases)
    case over
    then show ?thesis by (simp add: same_head_def)
  next
    case (yields s out)
    then show ?thesis using pass_head by blast
  next
    case (ends s k st1)
    then show ?thesis using pass_head finish_head same_head_trans by metis
  next
    case (closes s e st1 b s1)
    then show ?thesis using pass_head finish_head same_head_trans by metis
  next
    case (more s e st1 b s1)
    have "same_head st' (st1\<lparr>rs_conn := Some s1, rs_buf := b\<rparr>)"
      using "1.IH" [OF more(1,2) refl refl more(3), of True "(b, s1)" b s1] more(4) by simp
    also have "same_head (st1\<lparr>rs_conn := Some s1, rs_buf := b\<rparr>) st1" by (simp add: same_head_def)
    finally (same_head_trans) show ?thesis using pass_head [OF more(2)] same_head_trans by metis
  qed
qed

lemma drain_head: "drain m st body = Inr (b, st') \<Longrightarrow> same_head st' st"
proof (induction m st body rule: drain.induct)
  case (1 m st body)
  obtain r st1 where c: "chunk m st = Inr (r, st1)" using "1.prems"(1) by (subst (asm) drain.simps) (auto split: sum.splits)
  show ?case
  proof (cases r)
    case None
    with c "1.prems" have "st' = st1" by (simp add: drain.simps [of m st body])
    with chunk_head [OF c] show ?thesis by simp
  next
    case (Some out)
    with c "1.prems" have "drain m st1 (body @ out) = Inr (b, st')" by (simp add: drain.simps [of m st body])
    with "1.IH" [OF c refl Some] have "same_head st' st1" by blast
    with chunk_head [OF c] show ?thesis using same_head_trans by blast
  qed
qed

text \<open>
  C33: reading a response as a stream, however the network cuts it, gives the response that
  the buffered reader gives: if the stream of the bytes of a connection is read to its end, the
  buffered reader on the same connection succeeds with the same status, headers and body.
\<close>
theorem streaming_equals_buffered:
  assumes "read_stream_head s = Inr st" "read_to_end C m st = Inr r"
    and "length (stream_data st) < 2 ^ 63"
  shows "\<exists>keepable s'. read_response C s = Inr (r, keepable, s')"
proof -
  obtain code hd_block spans body s1 where h: "read_head s = Inr (code, hd_block, spans, body, s1)"
    using assms(1) by (auto simp: read_stream_head_def bind_run_Inr)
  let ?plan = "plan_body hd_block spans"
  have st: "rs_status st = code" "rs_head st = hd_block" "rs_spans st = spans" "rs_conn st = Some s1" "rs_buf st = body"
      "rs_plan st = (case ?plan of Length n \<Rightarrow> Remaining n | Chunked \<Rightarrow> Decoding Size | UntilClose \<Rightarrow> ToClose)"
    using assms(1) h by (auto simp: read_stream_head_def)
  obtain b st' where d: "drain m st [] = Inr (b, st')"
    and r': "lift_http (decompress C \<lparr>cr_status = rs_status st', cr_body = b, cr_head = rs_head st', cr_spans = rs_spans st'\<rparr>) = Inr r"
    using assms(2) unfolding read_to_end_def bind_run_Inr by auto
  have r: "lift_http (decompress C \<lparr>cr_status = code, cr_body = b, cr_head = hd_block, cr_spans = spans\<rparr>) = Inr r"
    using r' drain_head [OF d] st(1-3) by (simp add: same_head_def)
  have "\<exists>keepable s'. read_body ?plan s1 body = Inr (b, s', keepable)"
  proof (cases ?plan)
    case (Length n)
    with drain_data [OF d] st have "plan_result (Remaining n) (body @ avail s1) = Some b" by (auto simp: stream_data_def)
    then have "n \<le> length (body @ avail s1)" "b = take n (body @ avail s1)" by (auto split: if_splits)
    with read_length_ok [of n body s1] Length show ?thesis by (auto simp: read_body_def)
  next
    case Chunked
    with drain_data [OF d] st have "plan_result (Decoding Size) (body @ avail s1) = Some b" by (auto simp: stream_data_def)
    then obtain rest where "pull Size (body @ avail s1) [] = Inr (Done, rest, b)"
      by (auto split: sum.splits chunk_state.splits)
    moreover have "length (body @ avail s1) < 2 ^ 63" using assms(3) st by (simp add: stream_data_def)
    ultimately have "decode_chunked (body @ avail s1) = Inr (Some b)"
      using decode_of_pull [of 0 "body @ avail s1" "[]"] by (simp add: decode_chunked_def)
    with read_chunks_ok [of body s1 b] \<open>length (body @ avail s1) < 2 ^ 63\<close> Chunked show ?thesis by (auto simp: read_body_def)
  next
    case UntilClose
    with drain_to_close [OF d] st show ?thesis by (auto simp: read_body_def)
  qed
  then show ?thesis using h r by (auto simp: read_response_def)
qed

definition no_codecs :: codecs where
  "no_codecs = \<lparr>pack = (\<lambda>_ b. b), unpack = (\<lambda>_ b. Inr b)\<rparr>"

definition chunked_head :: string where
  "chunked_head = head_text [''HTTP/1.1 200 OK'', ''Transfer-Encoding: chunked'']"

definition cut_reply :: script where
  "cut_reply = [Inr (take 30 chunked_head), Inr (drop 30 chunked_head @ ''3'' @ crlf @ ''a''), Inr (''bc'' @ crlf @ ''0''), Inr (crlf @ crlf)]"

lemma streaming_equals_buffered_witness:
  "\<exists>r k s. read_response no_codecs cut_reply = Inr (r, k, s) \<and> cr_status r = 200 \<and> cr_body r = ''abc''"
proof -
  have "case read_stream_head cut_reply of Inl _ \<Rightarrow> False | Inr st \<Rightarrow> length (stream_data st) = 13 \<and>
      (case read_to_end no_codecs 8 st of Inl _ \<Rightarrow> False | Inr r \<Rightarrow> cr_status r = 200 \<and> cr_body r = ''abc'')"
    by code_simp
  then obtain st r where "read_stream_head cut_reply = Inr st" "length (stream_data st) = 13"
      "read_to_end no_codecs 8 st = Inr r" "cr_status r = 200 \<and> cr_body r = ''abc''"
    by (auto split: sum.splits)
  with streaming_equals_buffered [of cut_reply st no_codecs 8 r] show ?thesis by auto
qed

text \<open>
  The buffered reader stops at the line of the last chunk. When the empty line after it arrives in
  a later read, it stays in the connection, which is kept for reuse, and the next response on it
  cannot be read.
\<close>

lemma last_line_left_behind:
  "case read_response no_codecs
     [Inr (chunked_head @ ''3'' @ crlf @ ''abc'' @ crlf @ ''0'' @ crlf), Inr crlf, Inr (chunked_head @ ''0'' @ crlf @ crlf)] of
     Inl _ \<Rightarrow> False
   | Inr (r, keepable, s) \<Rightarrow> cr_body r = ''abc'' \<and> keepable \<and>
       read_response no_codecs s = Inl (Failed (Protocol ''bad status line''))"
  by code_simp

text \<open>A chunk size near the largest \<open>usize\<close> makes the bounds check wrap and the slice panic.\<close>

lemma chunk_size_panics: "decode_chunked (''ffffffffffffffed'' @ crlf) = Inl SliceIndex"
  by code_simp

end
