(* ===== verification/Client_Roundtrip.thy ===== *)
theory Client_Roundtrip
  imports Client_Stream
begin

text \<open>
  The client against the server: what the server's writer puts on the wire is what the client's
  reader returns, compressed or not, and what the client writes is what the server's parser reads.
\<close>

section \<open>Reading a head\<close>

lemma head_loop_ok:
  "find_bytes (b @ avail s) crlf2 = Some pos \<Longrightarrow>
   \<exists>b' s'. head_loop s b = Inr (pos + 4, b', s') \<and> b' @ avail s' = b @ avail s \<and> pos + 4 \<le> length b'"
proof (induction s b rule: head_loop.induct)
  case (1 s b)
  have four: "length crlf2 = 4" by (simp add: crlf2_def crlf_def)
  show ?case
  proof (cases "find_bytes b crlf2")
    case (Some i)
    with find_bytes_append [OF Some, of "avail s"] "1.prems" find_bytes_bound [OF Some] four show ?thesis
      by (simp add: head_loop.simps [of s b])
  next
    case None
    have ne: "avail s \<noteq> []" using None "1.prems" by auto
    then obtain go b' s' where r: "read_more s b = Inr (go, b', s')"
      using read_more_end(2) [of s b] by (cases "read_more s b") auto
    with ne have go: "go" using read_more_end(1) [of s b b' s'] by (cases go) auto
    with r have a: "b' @ avail s' = b @ avail s" using read_more_avail by simp
    with "1.IH" [OF None r refl] go "1.prems" None r show ?thesis by (simp add: head_loop.simps [of s b])
  qed
qed

lemma header_bytes_pairs:
  "header_bytes b spans name = map_option snd (find (\<lambda>(n, _). eq_ignore_ascii_case n name) (span_pairs b spans))"
  unfolding header_bytes_def span_pairs_def by (induction spans) (auto split: prod.splits)

lemma trim_blanks_token: "list_all graphic n \<Longrightarrow> trim_blanks n = n"
proof -
  assume g: "list_all graphic n"
  then have "\<not> is_blank c" if "c \<in> set n" for c
    using that by (auto simp: list_all_iff graphic_def is_blank_def)
  moreover have *: "dropWhile is_blank xs = xs" if "\<And>c. c \<in> set xs \<Longrightarrow> \<not> is_blank c" for xs
    using that by (cases xs) auto
  ultimately have "dropWhile is_blank n = n" "dropWhile is_blank (rev n) = rev n" using * [of n] * [of "rev n"] by simp_all
  then show ?thesis by (simp add: trim_blanks_def)
qed

lemma trim_blanks_space: "trim_blanks (CHR '' '' # v) = trim_blanks v"
  by (simp add: trim_blanks_def is_blank_def)

lemma line_pair_header: "line_safe (n, v) \<Longrightarrow> line_pair (header_line (n, v)) = Some (n, trim_blanks v)"
  by (simp add: line_safe_def header_line_def line_pair_def token_def trim_blanks_token trim_blanks_space)

lemma line_pair_headers:
  "list_all line_safe hs \<Longrightarrow>
   List.map_filter line_pair (map header_line hs) = map (\<lambda>(n, v). (n, trim_blanks v)) hs"
  by (induction hs) (auto simp: map_filter_simps line_pair_header)

lemma show_nat_graphic_text: "list_all graphic (show_nat n)"
  using show_nat_digits [of _ n] by (fastforce simp: list_all_iff graphic_def)

lemma parse_status_line: "c \<le> 65535 \<Longrightarrow> parse_status (status_line c) = Inr c"
proof -
  assume c: "c \<le> 65535"
  have "position (\<lambda>x. x = CHR '' '') (status_line c) = Some 8" by (simp add: status_line_def)
  moreover have "drop 9 (status_line c) = show_nat c @ CHR '' '' # status_text c" by (simp add: status_line_def)
  moreover have "CHR '' '' \<notin> set (show_nat c)" by (rule show_nat_absent) simp
  then have "position (\<lambda>x. x = CHR '' '') (show_nat c @ CHR '' '' # status_text c) = Some (length (show_nat c))"
    by (subst position_append_None) (auto simp: position_None)
  moreover have "utf8_valid (show_nat c)"
    using show_nat_digits [of _ c] by (intro is_ascii_utf8_valid) (fastforce simp: is_ascii_def list_all_iff)
  ultimately show ?thesis
    using c parse_unsigned_show [of c 65535] by (simp add: parse_status_def parse_u16_def)
qed

text \<open>The head that the server writes, as the client's parser sees it.\<close>

definition wire_headers :: "'s response \<Rightarrow> connection \<Rightarrow> (string \<times> string) list" where
  "wire_headers r conn =
     map (\<lambda>(n, v). (n, trim_blanks v)) (visible (fields_iter (resp_headers r))) @
     [(''content-length'', show_nat (body_len (resp_body r))), (''connection'', header_value conn)]"

lemma parse_written_head:
  assumes "resp_status r \<le> 65535" "list_all line_safe (fields_iter (resp_headers r))"
  shows "\<exists>spans. parse_head_spans (head_text (response_lines r conn (body_len (resp_body r)))) = Inr (resp_status r, spans) \<and>
    span_pairs (head_text (response_lines r conn (body_len (resp_body r)))) spans = wire_headers r conn"
proof -
  let ?n = "body_len (resp_body r)" and ?l = "status_line (resp_status r)"
  let ?hs = "visible (fields_iter (resp_headers r)) @ [(''content-length'', show_nat ?n), (''connection'', header_value conn)]"
  let ?b = "head_text (response_lines r conn ?n)"
  have ls: "response_lines r conn ?n = ?l # map header_line ?hs" by (simp add: response_lines_def)
  have "list_all line_safe (visible (fields_iter (resp_headers r)))" using assms(2) by (auto simp: visible_def list_all_iff)
  then have safe: "list_all line_safe ?hs" using transport_safe by simp
  have lf: "l \<noteq> [] \<and> CHR 0x0A \<notin> set l" if "l \<in> set (response_lines r conn ?n)" for l
    using response_lines_no_lf [OF assms(2) that] .
  have b: "?b = (?l @ crlf) @ head_text (map header_line ?hs)" by (simp add: ls head_text_def)
  have "find_bytes ?b crlf = Some (length ?l)"
    unfolding b using find_bytes_crlf_line [of ?l "head_text (map header_line ?hs)"] status_line_facts(1) by simp
  moreover have "take (length ?l) ?b = ?l" unfolding b by simp
  ultimately have p: "parse_head_spans ?b = Inr (resp_status r, head_spans ?b (length ?l + 2))"
    using parse_status_line [OF assms(1)] by (simp add: parse_head_spans_def)
  have "span_pairs ?b (head_spans ?b (length (?l @ crlf))) = List.map_filter line_pair (map header_line ?hs)"
    unfolding b by (rule head_spans_lines) (use lf in \<open>simp add: ls\<close>)
  then have "span_pairs ?b (head_spans ?b (length ?l + 2)) = map (\<lambda>(n, v). (n, trim_blanks v)) ?hs"
    unfolding line_pair_headers [OF safe] by (simp add: crlf_def)
  also have "\<dots> = wire_headers r conn"
    using trim_blanks_token [OF show_nat_graphic_text] by (cases conn) (simp_all add: wire_headers_def header_value_def trim_blanks_token graphic_def)
  finally show ?thesis using p by blast
qed

section \<open>The client reads what the server writes\<close>

definition unnamed :: "string \<Rightarrow> 's response \<Rightarrow> bool" where
  "unnamed name r \<longleftrightarrow> list_all (\<lambda>(n, _). \<not> eq_ignore_ascii_case n name) (fields_iter (resp_headers r))"

lemma find_unnamed:
  "unnamed name r \<Longrightarrow> \<not> eq_ignore_ascii_case ''content-length'' name \<Longrightarrow> \<not> eq_ignore_ascii_case ''connection'' name \<Longrightarrow>
   find (\<lambda>(n, _). eq_ignore_ascii_case n name) (wire_headers r conn) = None"
  by (auto simp: unnamed_def wire_headers_def visible_def list_all_iff find_None_iff)

lemma find_visible_transport:
  "find (\<lambda>(n, _). eq_ignore_ascii_case n ''content-length'') (wire_headers r conn) =
     Some (''content-length'', show_nat (body_len (resp_body r)))"
proof -
  have "find (\<lambda>(n, _). eq_ignore_ascii_case n ''content-length'') (map (\<lambda>(n, v). (n, trim_blanks v)) (visible hs) @ t) =
      find (\<lambda>(n, _). eq_ignore_ascii_case n ''content-length'') t" for hs t
    by (induction hs) (auto simp: visible_def transport_header_def)
  then show ?thesis by (simp add: wire_headers_def)
qed

lemma parse_u64_trimmed: "n \<le> u64_max \<Longrightarrow> utf8_valid (show_nat n) \<and> parse_u64 (trim (show_nat n)) = Some n"
proof -
  assume n: "n \<le> u64_max"
  have "is_ascii (show_nat n)" using show_nat_digits [of _ n] by (fastforce simp: is_ascii_def list_all_iff)
  moreover have "graphic (hd (show_nat n))" "graphic (last (show_nat n))"
    using show_nat_graphic_text [of n] by (simp_all add: list_all_iff)
  ultimately show ?thesis using n by (simp add: trim_trimmed trimmed_graphic is_ascii_utf8_valid)
qed

lemma plan_written:
  assumes "span_pairs b spans = wire_headers r conn" "unnamed ''transfer-encoding'' r" "body_len (resp_body r) \<le> u64_max"
  shows "plan_body b spans = Length (body_len (resp_body r))"
proof -
  have "\<not> eq_ignore_ascii_case ''content-length'' ''transfer-encoding''" "\<not> eq_ignore_ascii_case ''connection'' ''transfer-encoding''"
    by code_simp+
  with find_unnamed [OF assms(2)] have "header_bytes b spans ''transfer-encoding'' = None"
    by (simp add: header_bytes_pairs assms(1))
  moreover have "header_bytes b spans ''content-length'' = Some (show_nat (body_len (resp_body r)))"
    by (simp add: header_bytes_pairs assms(1) find_visible_transport)
  ultimately show ?thesis using parse_u64_trimmed [OF assms(3)] by (simp add: plan_body_def)
qed

text \<open>Everything up to the decompression of the body.\<close>

lemma read_written:
  assumes "resp_status r \<le> 65535" "resp_body r = Empty \<or> resp_body r = Bytes bytes"
    and "head_estimate r + body_len (resp_body r) < 2 ^ 63"
    and "list_all line_safe (fields_iter (resp_headers r))" "unnamed ''transfer-encoding'' r"
    and "encode_response_with r conn = Inr out" "avail s = out @ rest"
  shows "\<exists>block spans s'. span_pairs block spans = wire_headers r conn \<and>
    read_response C s =
      bind_run (lift_http (decompress C \<lparr>cr_status = resp_status r, cr_body = resp_body_bytes r, cr_head = block, cr_spans = spans\<rparr>))
        (\<lambda>x. Inr (x, True, s'))"
proof -
  let ?n = "body_len (resp_body r)"
  let ?b = "head_text (response_lines r conn ?n)"
  have n: "?n = length (resp_body_bytes r)" "?n \<le> u64_max" using assms(2,3) by (auto simp: u64_max_def)
  have "resp_status r \<le> u64_max" using assms(1) by (simp add: u64_max_def)
  from encode_response_with_lines [OF this assms(3), of conn] assms(6) have out: "out = ?b @ resp_body_bytes r" by simp
  obtain spans where p: "parse_head_spans ?b = Inr (resp_status r, spans)" "span_pairs ?b spans = wire_headers r conn"
    using parse_written_head [OF assms(1,4)] by blast
  have "find_bytes (?b @ resp_body_bytes r @ rest) crlf2 = Some (length ?b - 4)"
    using response_lines_no_lf [OF assms(4)] by (intro find_blank_line) (auto simp: response_lines_def)
  then have "find_bytes ([] @ avail s) crlf2 = Some (length ?b - 4)" by (simp add: assms(7) out)
  from head_loop_ok [OF this] obtain b' s1 where h: "head_loop s [] = Inr (length ?b - 4 + 4, b', s1)"
      "b' @ avail s1 = ?b @ resp_body_bytes r @ rest" "length ?b - 4 + 4 \<le> length b'"
    by (auto simp: assms(7) out)
  have "4 \<le> length ?b" by (simp add: head_text_def response_lines_def crlf_def)
  then have len: "length ?b - 4 + 4 = length ?b" by simp
  define left where "left = drop (length ?b) b'"
  have b': "take (length ?b) b' = ?b" "left @ avail s1 = resp_body_bytes r @ rest"
  proof -
    have "take (length ?b) (b' @ avail s1) = ?b" unfolding h(2) by simp
    then show t: "take (length ?b) b' = ?b" using h(3) unfolding len by simp
    have "b' = ?b @ left" using append_take_drop_id [of "length ?b" b'] unfolding t left_def by simp
    with h(2) show "left @ avail s1 = resp_body_bytes r @ rest" by simp
  qed
  have rh: "read_head s = Inr (resp_status r, ?b, spans, left, s1)"
    using h(1) p(1) b'(1) unfolding len by (simp add: read_head_def lift_http_def left_def Let_def)
  have "?n \<le> length (left @ avail s1)" by (simp add: b'(2) n(1))
  from read_length_ok [OF this] obtain s2 where "read_length ?n s1 left = Inr (resp_body_bytes r, s2)"
    by (auto simp: b'(2) n(1))
  then have "read_body (plan_body ?b spans) s1 left = Inr (resp_body_bytes r, s2, True)"
    by (simp add: plan_written [OF p(2) assms(5) n(2)] read_body_def)
  with rh p(2) show ?thesis by (intro exI [of _ ?b] exI [of _ spans] exI [of _ s2]) (simp add: read_response_def)
qed

lemma not_transport:
  "name = ''content-encoding'' \<or> name = ''transfer-encoding'' \<Longrightarrow>
   \<not> eq_ignore_ascii_case ''content-length'' name \<and> \<not> eq_ignore_ascii_case ''connection'' name \<and> \<not> transport_header name"
proof -
  have "\<not> eq_ignore_ascii_case ''content-length'' ''content-encoding'' \<and> \<not> eq_ignore_ascii_case ''connection'' ''content-encoding'' \<and> \<not> transport_header ''content-encoding''"
    "\<not> eq_ignore_ascii_case ''content-length'' ''transfer-encoding'' \<and> \<not> eq_ignore_ascii_case ''connection'' ''transfer-encoding'' \<and> \<not> transport_header ''transfer-encoding''"
    by code_simp+
  then show "name = ''content-encoding'' \<or> name = ''transfer-encoding'' \<Longrightarrow> ?thesis" by blast
qed

lemma decompress_plain:
  "unnamed ''content-encoding'' r \<Longrightarrow> span_pairs (cr_head x) (cr_spans x) = wire_headers r conn \<Longrightarrow> decompress C x = Inr x"
  using find_unnamed [of "''content-encoding''" r] not_transport [of "''content-encoding''"]
  by (simp add: header_bytes_pairs decompress_def response_header_def)

lemma server_response_read:
  assumes "resp_status r \<le> 65535" "resp_body r = Empty \<or> resp_body r = Bytes bytes"
    and "head_estimate r + body_len (resp_body r) < 2 ^ 63"
    and "list_all line_safe (fields_iter (resp_headers r))"
    and "unnamed ''transfer-encoding'' r" "unnamed ''content-encoding'' r"
    and "encode_response_with r conn = Inr out" "avail s = out @ rest"
  shows "\<exists>res s'. read_response C s = Inr (res, True, s') \<and> cr_status res = resp_status r \<and>
    cr_body res = resp_body_bytes r \<and> span_pairs (cr_head res) (cr_spans res) = wire_headers r conn"
proof -
  obtain block spans s' where sp: "span_pairs block spans = wire_headers r conn"
    and rd: "read_response C s =
      bind_run (lift_http (decompress C \<lparr>cr_status = resp_status r, cr_body = resp_body_bytes r, cr_head = block, cr_spans = spans\<rparr>))
        (\<lambda>x. Inr (x, True, s'))"
    using read_written [OF assms(1-5,7,8)] by blast
  show ?thesis using rd sp decompress_plain [OF assms(6)] by (simp add: lift_http_def)
qed


section \<open>Compressed bodies\<close>

lemma fields_iter_stored: "fields_ok True f \<Longrightarrow> (n, v) \<in> set (fields_iter f) \<Longrightarrow> map to_ascii_lowercase n = n"
  by (auto simp: fields_iter_def fields_ok_def list_all_iff entry_ok_def fields_slice_def Let_def stored_name_def split: if_splits)

lemma encoding_safe: "line_safe (''content-encoding'', encoding_str e)"
proof -
  have "list_all (\<lambda>e. line_safe (''content-encoding'', encoding_str e)) [Identity, Gzip, Deflate, Br]" by code_simp
  then show ?thesis by (cases e) simp_all
qed

lemma find_only: "x \<in> set xs \<Longrightarrow> P x \<Longrightarrow> \<forall>y\<in>set xs. P y \<longrightarrow> y = x \<Longrightarrow> find P xs = Some x"
proof (induction xs)
  case (Cons y ys)
  show ?case
  proof (cases "P y")
    case True
    then have "y = x" using Cons.prems(3) by (meson list.set_intros(1))
    with True show ?thesis by (simp only: find.simps if_True)
  next
    case False
    have "x \<in> set ys" using Cons.prems(1,2) False by (metis set_ConsD)
    moreover have "\<forall>y\<in>set ys. P y \<longrightarrow> y = x" using Cons.prems(3) by (meson list.set_intros(2))
    ultimately have "find P ys = Some x" using Cons.IH Cons.prems(2) by blast
    with False show ?thesis by (simp only: find.simps if_False)
  qed
qed simp

text \<open>What the middleware does to a response it compresses.\<close>

definition compressed_from :: "codecs \<Rightarrow> encoding \<Rightarrow> string \<Rightarrow> 's response \<Rightarrow> 's response \<Rightarrow> bool" where
  "compressed_from C e b r r' \<longleftrightarrow>
     resp_body r = Bytes b \<and> e \<noteq> Identity \<and> resp_body r' = Bytes (pack C e b) \<and> resp_status r' = resp_status r \<and>
     length (pack C e b) < length b \<and> fields_ok True (resp_headers r') \<and>
     (''content-encoding'', encoding_str e) \<in> set (fields_iter (resp_headers r')) \<and>
     (\<forall>n v. (n, v) \<in> set (fields_iter (resp_headers r')) \<longrightarrow>
        (n, v) \<in> set (fields_iter (resp_headers r)) \<and> n \<noteq> ''content-encoding'' \<or>
        (n, v) = (''content-encoding'', encoding_str e) \<or>
        (\<exists>k. (n, v) = (''content-length'', show_nat k)) \<or>
        n = ''vary'' \<and> (v = ''Accept-Encoding'' \<or>
          (\<exists>w. v = w @ '', Accept-Encoding'' \<and> (''vary'', w) \<in> set (fields_iter (resp_headers r)))))"

lemma stored_lower: "stored_name True ''content-encoding'' = ''content-encoding''"
  "stored_name True ''content-length'' = ''content-length''" "stored_name True ''vary'' = ''vary''"
  by code_simp+

lemma ascii_values: "utf8_valid ''content-encoding''" "utf8_valid ''content-length''" "utf8_valid ''vary''"
  "utf8_valid ''Accept-Encoding''" "utf8_valid (encoding_str e)" "utf8_valid (show_nat n)" "utf8_valid '', Accept-Encoding''"
proof -
  show "utf8_valid (encoding_str e)" by (cases e; simp add: encoding_str_def; code_simp)
  show "utf8_valid (show_nat n)"
    using show_nat_digits [of _ n] by (intro is_ascii_utf8_valid) (fastforce simp: is_ascii_def list_all_iff)
qed code_simp+

lemma fields_get_mem: "fields_ok True f \<Longrightarrow> fields_get True f n = Some v \<Longrightarrow> (stored_name True n, v) \<in> set (fields_iter f)"
  by (auto simp: fs.lookup_law dest!: map_of_SomeD)

lemma fields_iter_valid: "fields_ok True f \<Longrightarrow> (n, v) \<in> set (fields_iter f) \<Longrightarrow> utf8_valid n \<and> utf8_valid v"
  by (auto simp: fields_iter_def fields_slice_def Let_def)

lemma add_vary_ok:
  assumes "fields_ok True (resp_headers r)" "add_vary r = Inr r'"
  shows "fields_ok True (resp_headers r') \<and> resp_body r' = resp_body r \<and> resp_status r' = resp_status r \<and>
    (\<forall>p. fst p \<noteq> ''vary'' \<longrightarrow> (p \<in> set (fields_iter (resp_headers r')) \<longleftrightarrow> p \<in> set (fields_iter (resp_headers r)))) \<and>
    (\<forall>v. (''vary'', v) \<in> set (fields_iter (resp_headers r')) \<longrightarrow>
       (''vary'', v) \<in> set (fields_iter (resp_headers r)) \<or> v = ''Accept-Encoding'' \<or>
       (\<exists>w. v = w @ '', Accept-Encoding'' \<and> (''vary'', w) \<in> set (fields_iter (resp_headers r))))"
proof (cases "fields_get True (resp_headers r) ''vary''")
  case None
  with assms(2) obtain h where h: "fields_insert True (resp_headers r) ''vary'' ''Accept-Encoding'' = Inr h" "r' = r\<lparr>resp_headers := h\<rparr>"
    by (auto simp: add_vary_def Let_def bind_run_Inr)
  from fs.insert_law [OF assms(1) ascii_values(3,4) h(1)] h(2) show ?thesis by (auto simp: stored_lower)
next
  case (Some old)
  with fields_get_mem [OF assms(1) Some] have mem: "(''vary'', old) \<in> set (fields_iter (resp_headers r))" by (simp add: stored_lower)
  show ?thesis
  proof (cases "contains_sub ''accept-encoding'' (map to_ascii_lowercase old)")
    case True
    with Some assms show ?thesis by (simp add: add_vary_def Let_def)
  next
    case False
    with Some assms(2) obtain h where h: "fields_insert True (resp_headers r) ''vary'' (old @ '', Accept-Encoding'') = Inr h" "r' = r\<lparr>resp_headers := h\<rparr>"
      by (auto simp: add_vary_def Let_def bind_run_Inr)
    have "utf8_valid (old @ '', Accept-Encoding'')"
      using fields_iter_valid [OF assms(1) mem] ascii_values(7) by (simp add: utf8_valid_append)
    from fs.insert_law [OF assms(1) ascii_values(3) this h(1)] h(2) mem show ?thesis by (auto simp: stored_lower)
  qed
qed

lemma compress_cases:
  assumes "compress C Q accept min_size r = Inr r'" "fields_ok True (resp_headers r)"
  shows "r' = r \<or> (\<exists>b. min_size \<le> length b \<and> fields_get True (resp_headers r) ''content-encoding'' = None \<and>
    is_compressible (header_or_empty r ''content-type'') \<and> compressed_from C (negotiate Q accept) b r r')"
proof (cases "r' = r")
  case False
  let ?e = "negotiate Q accept"
  from assms(1) False obtain b where b: "resp_body r = Bytes b" "min_size \<le> length b"
      "fields_get True (resp_headers r) ''content-encoding'' = None" "is_compressible (header_or_empty r ''content-type'')"
      "?e \<noteq> Identity" "length (pack C ?e b) < length b"
    by (auto simp: compress_def compress_encode_def Let_def not_less not_le split: body.splits if_splits)
  with assms(1) False obtain h1 h2 where h: "fields_insert True (resp_headers r) ''content-encoding'' (encoding_str ?e) = Inr h1"
      "fields_insert True h1 ''content-length'' (show_nat (length (pack C ?e b))) = Inr h2"
      "add_vary (r\<lparr>resp_body := Bytes (pack C ?e b), resp_headers := h2\<rparr>) = Inr r'"
    by (auto simp: compress_def compress_encode_def Let_def bind_run_Inr)
  note l1 = fs.insert_law [OF assms(2) ascii_values(1) ascii_values(5) h(1), unfolded stored_lower]
  note l2 = fs.insert_law [OF conjunct1 [OF l1] ascii_values(2) ascii_values(6) h(2), unfolded stored_lower]
  have ok2: "fields_ok True (resp_headers (r\<lparr>resp_body := Bytes (pack C ?e b), resp_headers := h2\<rparr>))" using l2 by simp
  note v = add_vary_ok [OF ok2 h(3), simplified]
  have ne: "''content-encoding'' \<noteq> ''content-length''" "''content-encoding'' \<noteq> ''vary''" by simp_all
  have "compressed_from C ?e b r r'"
    unfolding compressed_from_def
  proof (intro conjI allI impI)
    show "(''content-encoding'', encoding_str ?e) \<in> set (fields_iter (resp_headers r'))"
      using v l1 l2 ne by auto
    fix n v' assume m: "(n, v') \<in> set (fields_iter (resp_headers r'))"
    show "(n, v') \<in> set (fields_iter (resp_headers r)) \<and> n \<noteq> ''content-encoding'' \<or>
        (n, v') = (''content-encoding'', encoding_str ?e) \<or> (\<exists>k. (n, v') = (''content-length'', show_nat k)) \<or>
        n = ''vary'' \<and> (v' = ''Accept-Encoding'' \<or>
          (\<exists>w. v' = w @ '', Accept-Encoding'' \<and> (''vary'', w) \<in> set (fields_iter (resp_headers r))))"
    proof (cases "n = ''vary''")
      case True
      with m v l1 l2 show ?thesis by auto
    next
      case False
      with m v have "(n, v') \<in> set (fields_iter h2)" by auto
      with l1 l2 show ?thesis by auto
    qed
  qed (use b v in auto)
  with b show ?thesis by blast
qed simp

lemma encoding_token: "utf8_valid (encoding_str e) \<and> from_token (encoding_str e) = Some e \<and> trim_blanks (encoding_str e) = encoding_str e"
proof -
  have "list_all (\<lambda>e. utf8_valid (encoding_str e) \<and> from_token (encoding_str e) = Some e \<and> trim_blanks (encoding_str e) = encoding_str e)
      [Identity, Gzip, Deflate, Br]" by code_simp
  then show ?thesis by (cases e) simp_all
qed

lemma compressed_headers:
  assumes "compressed_from C e b r r'" "list_all line_safe (fields_iter (resp_headers r))"
  shows "list_all line_safe (fields_iter (resp_headers r'))"
    and "unnamed ''transfer-encoding'' r \<Longrightarrow> unnamed ''transfer-encoding'' r'"
    and "find (\<lambda>(n, _). eq_ignore_ascii_case n ''content-encoding'') (wire_headers r' conn) = Some (''content-encoding'', encoding_str e)"
proof -
  have ok: "fields_ok True (resp_headers r')"
    and mem: "(''content-encoding'', encoding_str e) \<in> set (fields_iter (resp_headers r'))"
    and origin: "\<And>n v. (n, v) \<in> set (fields_iter (resp_headers r')) \<Longrightarrow>
        (n, v) \<in> set (fields_iter (resp_headers r)) \<and> n \<noteq> ''content-encoding'' \<or>
        (n, v) = (''content-encoding'', encoding_str e) \<or> (\<exists>k. (n, v) = (''content-length'', show_nat k)) \<or>
        n = ''vary'' \<and> (v = ''Accept-Encoding'' \<or>
          (\<exists>w. v = w @ '', Accept-Encoding'' \<and> (''vary'', w) \<in> set (fields_iter (resp_headers r))))"
    using assms(1) unfolding compressed_from_def by (elim conjE, simp only:)+
  have vary: "line_safe (''vary'', ''Accept-Encoding'')" by code_simp
  have old: "line_safe p" if "p \<in> set (fields_iter (resp_headers r))" for p
    using assms(2) that by (simp add: list_all_iff)
  have longer: "line_safe (n, w @ '', Accept-Encoding'')" if "line_safe (n, w)" for n w
    using that by (simp add: line_safe_def)
  have "line_safe (n, v)" if "(n, v) \<in> set (fields_iter (resp_headers r'))" for n v
    using origin [OF that] old encoding_safe [of e] transport_safe(1) vary longer by blast
  then show "list_all line_safe (fields_iter (resp_headers r'))" by (auto simp: list_all_iff)
  have ne: "\<not> eq_ignore_ascii_case ''content-encoding'' ''transfer-encoding''" "\<not> eq_ignore_ascii_case ''content-length'' ''transfer-encoding''"
    "\<not> eq_ignore_ascii_case ''vary'' ''transfer-encoding''" "\<not> eq_ignore_ascii_case ''content-length'' ''content-encoding''"
    "\<not> eq_ignore_ascii_case ''connection'' ''content-encoding''" "\<not> transport_header ''content-encoding''" by code_simp+
  show "unnamed ''transfer-encoding'' r'" if "unnamed ''transfer-encoding'' r"
    unfolding unnamed_def list_all_iff
  proof (intro ballI)
    fix p assume "p \<in> set (fields_iter (resp_headers r'))"
    moreover obtain n v where p: "p = (n, v)" by (cases p)
    ultimately show "case p of (n, _) \<Rightarrow> \<not> eq_ignore_ascii_case n ''transfer-encoding''"
      using origin [of n v] ne that by (auto simp: unnamed_def list_all_iff)
  qed
  have only: "(n, v) = (''content-encoding'', encoding_str e)"
    if m: "(n, v) \<in> set (fields_iter (resp_headers r'))" and i: "eq_ignore_ascii_case n ''content-encoding''" for n v
  proof -
    have "map to_ascii_lowercase n = n" using fields_iter_stored [OF ok m] .
    moreover have "map to_ascii_lowercase ''content-encoding'' = ''content-encoding''" by code_simp
    ultimately have "n = ''content-encoding''" using i by (simp add: eq_ignore_ascii_case_def)
    then show ?thesis using origin [OF m] by auto
  qed
  show "find (\<lambda>(n, _). eq_ignore_ascii_case n ''content-encoding'') (wire_headers r' conn) = Some (''content-encoding'', encoding_str e)"
  proof (rule find_only)
    have "(''content-encoding'', encoding_str e) \<in> set (visible (fields_iter (resp_headers r')))"
      using mem ne(6) by (simp add: visible_def)
    then show "(''content-encoding'', encoding_str e) \<in> set (wire_headers r' conn)"
      using encoding_token [of e] by (force simp: wire_headers_def)
    show "\<forall>y\<in>set (wire_headers r' conn). (case y of (n, _) \<Rightarrow> eq_ignore_ascii_case n ''content-encoding'') \<longrightarrow>
        y = (''content-encoding'', encoding_str e)"
      using only ne(4,5) encoding_token [of e] by (auto simp: wire_headers_def visible_def)
  qed simp
qed


section \<open>Sample responses\<close>

definition sample_fields :: "(string \<times> string) list \<Rightarrow> fields" where
  "sample_fields hs = (case fold_run (\<lambda>f (n, v). fields_append True f n v) fields_new hs of Inl _ \<Rightarrow> fields_new | Inr f \<Rightarrow> f)"

definition sample_response :: "(string \<times> string) list \<Rightarrow> string \<Rightarrow> unit response" where
  "sample_response hs b = \<lparr>resp_status = 200, resp_headers = sample_fields hs, resp_body = Bytes b\<rparr>"

definition written :: "unit response \<Rightarrow> string" where
  "written r = (case encode_response_with r KeepAlive of Inl _ \<Rightarrow> [] | Inr out \<Rightarrow> out)"

definition in_two :: "string \<Rightarrow> script" where
  "in_two b = [Inr (take 20 b), Inr (drop 20 b @ ''next'')]"

lemma in_two_avail: "20 < length b \<Longrightarrow> avail (in_two b) = b @ ''next''"
  by (auto simp: in_two_def)


text \<open>A codec that can only shorten a long row of the letter a.\<close>

definition row_codecs :: codecs where
  "row_codecs = \<lparr>pack = (\<lambda>_ b. if take 40 b = replicate 40 (CHR ''a'') then CHR ''z'' # drop 40 b else CHR ''y'' # b),
     unpack = (\<lambda>_ b. case b of [] \<Rightarrow> Inl ''empty''
       | c # cs \<Rightarrow> Inr (if c = CHR ''z'' then replicate 40 (CHR ''a'') @ cs else cs))\<rparr>"

definition nat_qualities :: "nat qualities" where
  "nat_qualities = \<lparr>parse_quality = parse_u64, quality_one = 1, refused = (\<lambda>q. q = 0)\<rparr>"

lemma row_codecs_invert: "unpack row_codecs e (pack row_codecs e b) = Inr b"
  by (auto simp: row_codecs_def) (metis append_take_drop_id)


text \<open>
  The writer replaces a handler's content length but passes a transfer encoding on, so the two
  framings contradict each other and the client reads the body as chunks.
\<close>

lemma handler_transfer_encoding_misframes:
  "read_response no_codecs [Inr (written (sample_response [(''transfer-encoding'', ''chunked'')] ''hello''))] =
     Inl (Failed (Protocol ''connection closed mid-chunk''))"
  by code_simp

section \<open>The server reads what the client writes\<close>

text \<open>The headers on the wire, in order, and the target split at its first question mark.\<close>

definition sent_headers :: "client_request \<Rightarrow> bool \<Rightarrow> string option \<Rightarrow> (string \<times> string) list" where
  "sent_headers q keep_alive jar =
     (if has_header q ''host'' then []
      else [(''Host'', if url_port (cq_url q) = (if is_tls (cq_url q) then 443 else 80) then url_host (cq_url q)
                       else url_host (cq_url q) @ '':'' @ show_nat (url_port (cq_url q)))]) @
     (if has_header q ''user-agent'' then [] else [(''User-Agent'', ''kernway-http-client/0.1'')]) @
     (if has_header q ''accept-encoding'' then [] else [(''Accept-Encoding'', ''gzip, deflate, br'')]) @
     cq_headers q @
     (if cq_body q \<noteq> [] \<and> \<not> has_header q ''content-length'' then [(''Content-Length'', show_nat (length (cq_body q)))] else []) @
     (if has_header q ''connection'' then [] else [(''Connection'', if keep_alive then ''keep-alive'' else ''close'')]) @
     (case jar of None \<Rightarrow> [] | Some c \<Rightarrow> if c \<noteq> [] \<and> \<not> has_header q ''cookie'' then [(''Cookie'', c)] else [])"

definition target_path :: "client_request \<Rightarrow> string" where
  "target_path q = (case split_once (CHR ''?'') (path_and_query (cq_url q)) of None \<Rightarrow> path_and_query (cq_url q) | Some (p, _) \<Rightarrow> p)"

definition target_query :: "client_request \<Rightarrow> string option" where
  "target_query q = map_option snd (split_once (CHR ''?'') (path_and_query (cq_url q)))"

lemma target_parts: "target_text (target_path q) (target_query q) = path_and_query (cq_url q)" "CHR ''?'' \<notin> set (target_path q)"
  by (auto simp: target_text_def target_path_def target_query_def split_once_None split: option.splits dest!: split_once_SomeD)

definition wire_lines :: "(string \<times> string) list \<Rightarrow> string" where
  "wire_lines hs = concat (map (\<lambda>h. header_line h @ crlf) hs)"

lemma wire_lines_simps [simp]:
  "wire_lines [] = []" "wire_lines (a @ b) = wire_lines a @ wire_lines b"
  "wire_lines (if c then a else b) = (if c then wire_lines a else wire_lines b)"
  by (simp_all add: wire_lines_def)

lemma fold_headers: "fold (\<lambda>(n, v) out. out @ n @ '': '' @ v @ crlf) hs out = out @ wire_lines hs"
  by (induction hs arbitrary: out) (auto simp: header_line_def wire_lines_def)

text \<open>A conditional push appends a conditional line.\<close>

lemma push_append:
  "(if c then out else if d then out @ x else out @ y) = out @ (if c then [] else if d then x else y)"
  "(if c then out else out @ x) = out @ (if c then [] else x)"
  "(if c then out @ x else out) = out @ (if c then x else [])"
  "(case jar of None \<Rightarrow> out | Some v \<Rightarrow> out @ (if P v then f v else [])) = out @ (case jar of None \<Rightarrow> [] | Some v \<Rightarrow> if P v then f v else [])"
  by (auto split: option.split)

lemma written_lines:
  "wire_lines [(''User-Agent'', ''kernway-http-client/0.1'')] = ''User-Agent: kernway-http-client/0.1'' @ crlf"
  "wire_lines [(''Accept-Encoding'', ''gzip, deflate, br'')] = ''Accept-Encoding: gzip, deflate, br'' @ crlf"
  "wire_lines [(''Connection'', if ka then ''keep-alive'' else ''close'')] =
     (if ka then ''Connection: keep-alive'' else ''Connection: close'') @ crlf"
  "wire_lines [(''Host'', v)] = ''Host: '' @ v @ crlf"
  "wire_lines [(''Content-Length'', v)] = ''Content-Length: '' @ v @ crlf"
  "wire_lines [(''Cookie'', v)] = ''Cookie: '' @ v @ crlf"
  by (simp_all add: wire_lines_def header_line_def)

lemma wire_lines_cookie:
  "wire_lines (case jar of None \<Rightarrow> [] | Some v \<Rightarrow> if P v then [h v] else []) =
     (case jar of None \<Rightarrow> [] | Some v \<Rightarrow> if P v then wire_lines [h v] else [])"
  by (simp split: option.split)

lemma push_host: "(if c then h @ a @ x else h @ a @ b @ d @ x) = h @ (if c then a else a @ b @ d) @ x"
  by simp

lemma request_head_lines:
  "request_head m p y v hs = m @ '' '' @ target_text p y @ '' '' @ show_version v @ crlf @ wire_lines hs @ crlf"
  by (simp add: request_head_def head_text_def wire_lines_def o_def)

lemma encode_request_head:
  "encode_request q ka jar =
     request_head (method_str (cq_method q)) (target_path q) (target_query q) Http11 (sent_headers q ka jar) @ cq_body q"
proof -
  have v: "'' HTTP/1.1'' = '' '' @ show_version Http11" by (simp add: show_version_def)
  show ?thesis
    unfolding encode_request_def push_append fold_headers
    unfolding Let_def request_head_lines target_parts(1) sent_headers_def wire_lines_simps wire_lines_cookie
      written_lines v append_assoc append_Nil
    unfolding push_host
    by (rule refl)
qed

lemma find_snoc: "find P (xs @ ys) = (case find P xs of None \<Rightarrow> find P ys | Some x \<Rightarrow> Some x)"
  by (induction xs) auto

lemma declared_sent:
  assumes "\<not> has_header q ''content-length''" "length (cq_body q) \<le> u64_max"
  shows "declared_length (sent_headers q ka jar) = length (cq_body q)"
proof -
  let ?cl = "\<lambda>(n, v :: string). same_name True n ''content-length''"
  have ne: "\<not> eq_ignore_ascii_case ''Host'' ''content-length''" "\<not> eq_ignore_ascii_case ''User-Agent'' ''content-length''"
    "\<not> eq_ignore_ascii_case ''Accept-Encoding'' ''content-length''" "\<not> eq_ignore_ascii_case ''Connection'' ''content-length''"
    "\<not> eq_ignore_ascii_case ''Cookie'' ''content-length''" "eq_ignore_ascii_case ''Content-Length'' ''content-length''"
    by code_simp+
  have own: "find ?cl (rev (cq_headers q)) = None"
    using assms(1) by (auto simp: find_None_iff has_header_def list_ex_iff same_name_def)
  show ?thesis
    using ne own assms(2)
    by (cases jar; cases "cq_body q = []")
      (simp_all add: declared_length_def sent_headers_def assms(1) find_snoc same_name_def)
qed

lemma method_token: "token (method_str m)" "map to_ascii_uppercase (method_str m) = method_str m"
proof -
  have "list_all (\<lambda>m. token (method_str m) \<and> map to_ascii_uppercase (method_str m) = method_str m) [GET, POST, PUT, PATCH, DELETE, HEAD]"
    by code_simp
  then show "token (method_str m)" "map to_ascii_uppercase (method_str m) = method_str m" by (cases m; simp)+
qed

lemma client_request_parsed:
  assumes "token (path_and_query (cq_url q))" "list_all field_pair (sent_headers q ka jar)"
    and "\<not> has_header q ''content-length''" "length (cq_body q) \<le> MAX_BODY_BYTES"
    and "length (encode_request q ka jar) \<le> MAX_HEAD_BYTES + length (cq_body q)"
  shows "\<exists>r. parse_bytes (encode_request q ka jar @ rest) = Inr (Complete r (length (encode_request q ka jar))) \<and>
    req_method r = method_str (cq_method q) \<and> req_path r = target_path q \<and> req_version r = Http11 \<and>
    fields_iter (req_headers r) = map (\<lambda>(n, v). (map to_ascii_lowercase n, v)) (sent_headers q ka jar) \<and>
    req_body r = cq_body q"
proof -
  let ?hs = "sent_headers q ka jar"
  let ?h = "request_head (method_str (cq_method q)) (target_path q) (target_query q) Http11 ?hs"
  have "length (cq_body q) \<le> u64_max" using assms(4) by (simp add: MAX_BODY_BYTES_def u64_max_def)
  then have "declared_length ?hs = length (cq_body q)" by (rule declared_sent [OF assms(3)])
  moreover have "h \<in> set ?hs \<Longrightarrow> field_pair h" for h using assms(2) by (simp add: list_all_iff)
  moreover have "token (target_text (target_path q) (target_query q))" using assms(1) by (simp add: target_parts)
  moreover have "length ?h \<le> MAX_HEAD_BYTES" using assms(5) by (simp add: encode_request_head)
  ultimately show ?thesis
    using request_parsed [of "method_str (cq_method q)" "target_path q" "target_query q" ?hs Http11 "cq_body q" rest]
      method_token target_parts(2) assms(4)
    by (simp add: encode_request_head)
qed

text \<open>
  C36: the server's parser reads back what the client writes. For a graphic target and
  well-formed headers, a head within the server's limit and a body within its limit, the server
  consumes exactly the bytes of the request and sees its method, the path before the question
  mark, the headers with the client's own added in their places, and the body.
\<close>
theorem server_reads_client:
  assumes "token (path_and_query (cq_url q))" "list_all field_pair (sent_headers q ka jar)"
    and "\<not> has_header q ''content-length''" "length (cq_body q) \<le> MAX_BODY_BYTES"
    and "length (encode_request q ka jar) \<le> MAX_HEAD_BYTES + length (cq_body q)"
  shows "\<exists>r. parse_bytes (encode_request q ka jar @ rest) = Inr (Complete r (length (encode_request q ka jar))) \<and>
    req_method r = method_str (cq_method q) \<and> req_path r = target_path q \<and> req_version r = Http11 \<and>
    fields_iter (req_headers r) = map (\<lambda>(n, v). (map to_ascii_lowercase n, v)) (sent_headers q ka jar) \<and>
    req_body r = cq_body q"
  using assms by (rule client_request_parsed)

definition sample_request :: client_request where
  "sample_request = set_body ''text/plain'' ''hi''
     (client_request_new POST \<lparr>url_scheme = ''http'', url_host = ''h'', url_port = 8080, path_and_query = ''/a?k=v''\<rparr>)"

lemma server_reads_client_witness:
  "\<exists>r. parse_bytes (encode_request sample_request True (Some ''s=1'') @ ''GET'') =
       Inr (Complete r (length (encode_request sample_request True (Some ''s=1'')))) \<and>
     req_path r = ''/a'' \<and> req_body r = ''hi''"
proof -
  have h: "token (path_and_query (cq_url sample_request))" "list_all field_pair (sent_headers sample_request True (Some ''s=1''))"
    "\<not> has_header sample_request ''content-length''" "length (cq_body sample_request) \<le> MAX_BODY_BYTES"
    "length (encode_request sample_request True (Some ''s=1'')) \<le> MAX_HEAD_BYTES + length (cq_body sample_request)"
    by code_simp+
  have "target_path sample_request = ''/a''" "cq_body sample_request = ''hi''" by code_simp+
  with server_reads_client [OF h, of "''GET''"] show ?thesis by metis
qed

text \<open>Header values are written as they are: one with a line break adds a header of its own.\<close>

lemma header_injection:
  "\<exists>r n. parse_bytes (encode_request (add_header ''X-Note'' (''a'' @ crlf @ ''X-Admin: 1'')
       (client_request_new GET \<lparr>url_scheme = ''http'', url_host = ''h'', url_port = 80, path_and_query = ''/''\<rparr>)) True None) =
     Inr (Complete r n) \<and> fields_get True (req_headers r) ''x-admin'' = Some ''1''"
proof -
  let ?b = "encode_request (add_header ''X-Note'' (''a'' @ crlf @ ''X-Admin: 1'')
       (client_request_new GET \<lparr>url_scheme = ''http'', url_host = ''h'', url_port = 80, path_and_query = ''/''\<rparr>)) True None"
  have "case parse_bytes ?b of Inr (Complete r n) \<Rightarrow> fields_get True (req_headers r) ''x-admin'' = Some ''1'' | _ \<Rightarrow> False"
    by code_simp
  then show ?thesis by (auto split: sum.splits parsed.splits)
qed

end
