(* ===== verification/Client_Cookies.thy ===== *)
theory Client_Cookies
  imports Client_Codec
begin

text \<open>
  \<open>kernway-http-client/src/cookie.rs\<close>: the cookie jar, a vector of cookies behind a lock. Times are
  unix seconds. The last sections compare the jar with the history of \<open>Set-Cookie\<close> values it has
  seen: a cookie is in the jar exactly when it is the newest of its name, domain and path and was
  not expired when it came.
\<close>

section \<open>Cookies\<close>

record cookie =
  ck_name :: string
  ck_value :: string
  ck_domain :: string
  ck_host_only :: bool
  ck_path :: string
  ck_expires :: "nat option"
  ck_secure :: bool

type_synonym jar = "cookie list"

definition request_path :: "string \<Rightarrow> string" where
  "request_path pq = (case split_on (CHR ''?'') pq of [] \<Rightarrow> ''/'' | p # _ \<Rightarrow> p)"

definition default_path :: "string \<Rightarrow> string" where
  "default_path pq =
     (case rsplit_once (CHR ''/'') (request_path pq) of
        None \<Rightarrow> ''/''
      | Some (d, _) \<Rightarrow> if d = [] then ''/'' else d)"

definition domain_match :: "string \<Rightarrow> bool \<Rightarrow> string \<Rightarrow> bool" where
  "domain_match domain host_only host \<longleftrightarrow>
     (if host_only then host = domain
      else host = domain \<or> strip_suffix (CHR ''.'' # domain) host \<noteq> None)"

definition path_match :: "string \<Rightarrow> string \<Rightarrow> bool" where
  "path_match cookie_path pq \<longleftrightarrow>
     (let path = request_path pq
      in path = cookie_path \<or>
         (strip_prefix cookie_path path \<noteq> None \<and>
          (strip_suffix ''/'' cookie_path \<noteq> None \<or>
           (length cookie_path < length path \<and> path ! length cookie_path = CHR ''/''))))"

text \<open>One attribute, the cases in the order of the match.\<close>

definition attr_pair :: "string \<Rightarrow> string \<times> string" where
  "attr_pair raw =
     (let attr = trim raw
      in case split_once (CHR ''='') attr of
           Some (k, v) \<Rightarrow> (map to_ascii_lowercase (trim k), trim v)
         | None \<Rightarrow> (map to_ascii_lowercase attr, []))"

definition cookie_attr :: "nat \<Rightarrow> string \<Rightarrow> cookie \<Rightarrow> cookie" where
  "cookie_attr now raw c =
     (let (key, val) = attr_pair raw
      in if key = ''domain'' then
           (let d = map to_ascii_lowercase (dropWhile (\<lambda>x. x = CHR ''.'') val)
            in if d \<noteq> [] then c\<lparr>ck_domain := d, ck_host_only := False\<rparr> else c)
         else if key = ''path'' \<and> strip_prefix ''/'' val \<noteq> None then c\<lparr>ck_path := val\<rparr>
         else if key = ''max-age'' then
           (case parse_i64 val of
              None \<Rightarrow> c
            | Some n \<Rightarrow> c\<lparr>ck_expires := Some (if n \<le> 0 then 0 else saturating_add64 now (nat n))\<rparr>)
         else if key = ''secure'' then c\<lparr>ck_secure := True\<rparr>
         else c)"

definition parse_set_cookie :: "string \<Rightarrow> client_url \<Rightarrow> nat \<Rightarrow> cookie option" where
  "parse_set_cookie raw url now =
     (case split_on (CHR '';'') raw of
        [] \<Rightarrow> None
      | p # parts \<Rightarrow>
          (case split_once (CHR ''='') p of
             None \<Rightarrow> None
           | Some (n, v) \<Rightarrow>
               if trim n = [] then None
               else Some (fold (cookie_attr now) parts
                      \<lparr>ck_name = trim n, ck_value = trim v, ck_domain = map to_ascii_lowercase (url_host url),
                       ck_host_only = True, ck_path = default_path (path_and_query url),
                       ck_expires = None, ck_secure = False\<rparr>)))"

section \<open>The jar\<close>

definition unexpired :: "nat \<Rightarrow> cookie \<Rightarrow> bool" where
  "unexpired now c \<longleftrightarrow> (case ck_expires c of None \<Rightarrow> True | Some e \<Rightarrow> e > now)"

definition cookie_key :: "cookie \<Rightarrow> string \<times> string \<times> string" where
  "cookie_key c = (ck_name c, ck_domain c, ck_path c)"

definition store_one :: "client_url \<Rightarrow> nat \<Rightarrow> string \<Rightarrow> jar \<Rightarrow> jar" where
  "store_one url now raw j =
     (case parse_set_cookie raw url now of
        None \<Rightarrow> j
      | Some c \<Rightarrow>
          let j = filter (\<lambda>d. \<not> (ck_name d = ck_name c \<and> ck_domain d = ck_domain c \<and> ck_path d = ck_path c)) j
          in if unexpired now c then j @ [c] else j)"

definition jar_store :: "string list \<Rightarrow> client_url \<Rightarrow> nat \<Rightarrow> jar \<Rightarrow> jar" where
  "jar_store set_cookies url now j = fold (store_one url now) set_cookies j"

definition cookie_text :: "cookie \<Rightarrow> string" where
  "cookie_text c = ck_name c @ ''='' @ ck_value c"

definition header_for :: "jar \<Rightarrow> client_url \<Rightarrow> nat \<Rightarrow> string" where
  "header_for j url now =
     (let host = map to_ascii_lowercase (url_host url)
      in join ''; '' (map cookie_text
           (filter (\<lambda>c. path_match (ck_path c) (path_and_query url))
             (filter (\<lambda>c. domain_match (ck_domain c) (ck_host_only c) host)
               (filter (\<lambda>c. \<not> ck_secure c \<or> url_scheme url = ''https'')
                 (filter (unexpired now) j))))))"

section \<open>The jar and its history\<close>

type_synonym set_cookie = "string \<times> client_url \<times> nat"

definition jar_after :: "set_cookie list \<Rightarrow> jar" where
  "jar_after h = fold (\<lambda>(raw, url, now). store_one url now raw) h []"

text \<open>The newest cookie of its key, alive when it came.\<close>

definition replaces :: "set_cookie \<Rightarrow> cookie \<Rightarrow> bool" where
  "replaces e c \<longleftrightarrow> (case e of (raw, url, now) \<Rightarrow>
     (case parse_set_cookie raw url now of None \<Rightarrow> False | Some d \<Rightarrow> cookie_key d = cookie_key c))"

fun newest :: "set_cookie list \<Rightarrow> cookie \<Rightarrow> bool" where
  "newest [] c = False"
| "newest ((raw, url, now) # h) c \<longleftrightarrow>
     newest h c \<or>
     (parse_set_cookie raw url now = Some c \<and> unexpired now c \<and> \<not> list_ex (\<lambda>e. replaces e c) h)"

definition sent_to :: "cookie \<Rightarrow> client_url \<Rightarrow> nat \<Rightarrow> bool" where
  "sent_to c url now \<longleftrightarrow>
     unexpired now c \<and> (ck_secure c \<longrightarrow> url_scheme url = ''https'') \<and>
     domain_match (ck_domain c) (ck_host_only c) (map to_ascii_lowercase (url_host url)) \<and>
     path_match (ck_path c) (path_and_query url)"

lemma store_one_replaces:
  "store_one url now raw j =
     filter (\<lambda>d. \<not> replaces (raw, url, now) d) j @
     (case parse_set_cookie raw url now of None \<Rightarrow> [] | Some c \<Rightarrow> if unexpired now c then [c] else [])"
  by (auto simp: store_one_def replaces_def cookie_key_def Let_def split: option.split intro!: filter_cong)

lemma jar_after_snoc: "jar_after (h @ [(raw, url, now)]) = store_one url now raw (jar_after h)"
  by (simp add: jar_after_def)

lemma newest_snoc:
  "newest (h @ [(raw, url, now)]) c \<longleftrightarrow>
     (newest h c \<and> \<not> replaces (raw, url, now) c) \<or> (parse_set_cookie raw url now = Some c \<and> unexpired now c)"
proof (induction h)
  case Nil
  show ?case by simp
next
  case (Cons e h)
  obtain r u t where "e = (r, u, t)" by (cases e)
  with Cons show ?case by (auto simp: replaces_def)
qed

lemma replaces_self: "parse_set_cookie raw url now = Some c \<Longrightarrow> replaces (raw, url, now) c"
  by (simp add: replaces_def)

lemma jar_after_set: "set (jar_after h) = Collect (newest h)"
proof (induction h rule: rev_induct)
  case Nil
  show ?case by (simp add: jar_after_def)
next
  case (snoc e h)
  obtain raw url now where e: "e = (raw, url, now)" by (cases e)
  show ?case
    using snoc unfolding e jar_after_snoc store_one_replaces
    by (auto simp: newest_snoc split: option.splits if_splits)
qed

lemma store_one_distinct: "distinct (map cookie_key j) \<Longrightarrow> distinct (map cookie_key (store_one url now raw j))"
  unfolding store_one_replaces
  by (auto simp: distinct_map_filter replaces_def split: option.split)

lemma jar_store_distinct: "distinct (map cookie_key j) \<Longrightarrow> distinct (map cookie_key (jar_store raws url now j))"
  unfolding jar_store_def by (induction raws arbitrary: j) (simp_all add: store_one_distinct)

lemma jar_after_distinct: "distinct (map cookie_key (jar_after h))"
proof (induction h rule: rev_induct)
  case Nil
  show ?case by (simp add: jar_after_def)
next
  case (snoc e h)
  obtain raw url now where e: "e = (raw, url, now)" by (cases e)
  show ?case unfolding e jar_after_snoc by (rule store_one_distinct [OF snoc])
qed

lemma header_for_sent: "header_for j url now = join ''; '' (map cookie_text (filter (\<lambda>c. sent_to c url now) j))"
  unfolding header_for_def Let_def filter_filter
  by (rule arg_cong [where f = "\<lambda>cs. join ''; '' (map cookie_text cs)"], rule filter_cong)
    (auto simp: sent_to_def)

text \<open>
  C40: the Cookie header of a request consists of exactly the cookies that are the newest of their
  name, domain and path among all values seen, were alive when they came and are alive now, and
  whose domain, path and Secure attribute admit the request; each key occurs once.
\<close>
theorem cookie_header_exact:
  "\<exists>cs. header_for (jar_after h) url now = join ''; '' (map cookie_text cs) \<and>
     distinct (map cookie_key cs) \<and> set cs = {c. newest h c \<and> sent_to c url now}"
proof (intro exI conjI)
  show "header_for (jar_after h) url now =
      join ''; '' (map cookie_text (filter (\<lambda>c. sent_to c url now) (jar_after h)))"
    by (rule header_for_sent)
  show "distinct (map cookie_key (filter (\<lambda>c. sent_to c url now) (jar_after h)))"
    by (rule distinct_map_filter [OF jar_after_distinct])
  show "set (filter (\<lambda>c. sent_to c url now) (jar_after h)) = {c. newest h c \<and> sent_to c url now}"
    by (auto simp: jar_after_set)
qed

section \<open>The reach of a cookie\<close>

text \<open>A cookie without a Domain attribute stays on the host that set it.\<close>

definition attr_results :: "cookie \<Rightarrow> cookie set" where
  "attr_results c = {c, c\<lparr>ck_secure := True\<rparr>} \<union> range (\<lambda>d. c\<lparr>ck_domain := d, ck_host_only := False\<rparr>) \<union>
     range (\<lambda>p. c\<lparr>ck_path := p\<rparr>) \<union> range (\<lambda>e. c\<lparr>ck_expires := e\<rparr>)"

lemma attr_resultsI:
  "c \<in> attr_results c" "c\<lparr>ck_secure := True\<rparr> \<in> attr_results c" "c\<lparr>ck_path := p\<rparr> \<in> attr_results c"
  "c\<lparr>ck_domain := d, ck_host_only := False\<rparr> \<in> attr_results c" "c\<lparr>ck_expires := e\<rparr> \<in> attr_results c"
  by (auto simp: attr_results_def)

lemma if_in: "x \<in> S \<Longrightarrow> y \<in> S \<Longrightarrow> (if b then x else y) \<in> S"
  by simp

lemma option_in: "x \<in> S \<Longrightarrow> (\<And>a. f a \<in> S) \<Longrightarrow> (case m of None \<Rightarrow> x | Some a \<Rightarrow> f a) \<in> S"
  by (cases m) simp_all

lemma cookie_attr_results: "cookie_attr now raw c \<in> attr_results c"
proof (cases "attr_pair raw")
  case (Pair key val)
  show ?thesis
    unfolding cookie_attr_def Pair Let_def prod.case
    by (intro if_in option_in attr_resultsI)
qed

lemma cookie_attr_host_only:
  "ck_host_only (cookie_attr now raw c) \<Longrightarrow> ck_host_only c \<and> ck_domain (cookie_attr now raw c) = ck_domain c"
  using cookie_attr_results [of now raw c] by (auto simp: attr_results_def)

lemma cookie_attrs_host_only:
  "ck_host_only (fold (cookie_attr now) as c) \<Longrightarrow>
   ck_host_only c \<and> ck_domain (fold (cookie_attr now) as c) = ck_domain c"
  by (induction as arbitrary: c) (auto dest: cookie_attr_host_only)

lemma host_only_domain:
  assumes "parse_set_cookie raw url now = Some c" "ck_host_only c"
  shows "ck_domain c = map to_ascii_lowercase (url_host url)"
  using assms by (auto simp: parse_set_cookie_def split: list.splits option.splits if_splits dest!: cookie_attrs_host_only)

lemma host_only_stays:
  assumes "parse_set_cookie raw url now = Some c" "ck_host_only c" "sent_to c url' now'"
  shows "eq_ignore_ascii_case (url_host url') (url_host url)"
  using host_only_domain [OF assms(1,2)] assms(2,3)
  by (simp add: sent_to_def domain_match_def eq_ignore_ascii_case_def)

text \<open>A Domain attribute is believed whatever host it comes from.\<close>

definition site :: "string \<Rightarrow> client_url" where
  "site h = \<lparr>url_scheme = ''https'', url_host = h, url_port = 443, path_and_query = ''/login''\<rparr>"

lemma foreign_domain_accepted:
  "header_for (jar_store [''k=v;Domain=a.b''] (site ''e.d'') 9 []) (site ''a.b'') 9 = ''k=v''"
  by code_simp

end
