(* ===== verification/Client_Session.thy ===== *)
theory Client_Session
  imports Client_Stream Client_Cookies Dns_Resolver
begin

text \<open>
  The stateful half of \<open>kernway-http-client/src/lib.rs\<close>: the connection pool, name resolution, one
  request and response with its retry on a stale connection, and the loop that follows redirects.

  A connection is numbered by its dial and carries the origin it was dialled for, what has been
  written to it and what its socket still delivers. The environment is a record of functions: the
  clock, the address syntax, the hosts table, \<open>getaddrinfo\<close>, how the n-th dial ends and what the
  peer of the n-th connection answers to what it has been sent. The state also records every write,
  so that a statement can speak of what left the client. Timeouts abort a request; they are values
  of the environment where a dial is bounded and are not modelled around a whole request.
\<close>

section \<open>The pool\<close>

type_synonym origin = "string \<times> string \<times> nat"

definition origin_of :: "client_url \<Rightarrow> origin" where
  "origin_of u = (url_scheme u, map to_ascii_lowercase (url_host u), url_port u)"

record 'c idle =
  idle_conn :: 'c
  since_ms :: nat

type_synonym 'c pool = "(nat \<times> origin, 'c idle list) hmap"

definition POOL_IDLE_TIMEOUT_MS :: nat where
  "POOL_IDLE_TIMEOUT_MS = 20000"

function pop_fresh :: "nat \<Rightarrow> 'c idle list \<Rightarrow> 'c option \<times> 'c idle list" where
  "pop_fresh now bucket =
     (if bucket = [] then (None, [])
      else let entry = last bucket; bucket = butlast bucket
           in if now - since_ms entry < POOL_IDLE_TIMEOUT_MS then (Some (idle_conn entry), bucket)
              else pop_fresh now bucket)"
  by pat_completeness auto
termination
  by (relation "measure (\<lambda>(now, bucket). length bucket)") auto

declare pop_fresh.simps [simp del]

definition pool_take :: "nat \<Rightarrow> origin \<Rightarrow> nat \<Rightarrow> 'c pool \<Rightarrow> 'c option \<times> 'c pool" where
  "pool_take thread org now p =
     (case hm_get p (thread, org) of
        None \<Rightarrow> (None, p)
      | Some bucket \<Rightarrow>
          let (c, bucket) = pop_fresh now bucket in (c, hm_insert p (thread, org) bucket))"

definition pool_put :: "nat \<Rightarrow> nat \<Rightarrow> origin \<Rightarrow> 'c \<Rightarrow> nat \<Rightarrow> 'c pool \<Rightarrow> 'c pool" where
  "pool_put max_per_origin thread org c now p =
     (if max_per_origin = 0 then p
      else
        let bucket = (case hm_get p (thread, org) of None \<Rightarrow> [] | Some b \<Rightarrow> b)
        in hm_insert p (thread, org)
             (if length bucket < max_per_origin then bucket @ [\<lparr>idle_conn = c, since_ms = now\<rparr>] else bucket))"

section \<open>The client and its surroundings\<close>

record conn =
  conn_no :: nat
  conn_origin :: origin
  conn_sent :: "string list"
  conn_in :: script

record client_env =
  max_redirects :: nat
  max_idle_per_host :: nat
  env_thread :: nat
  env_codecs :: codecs
  env_clock :: "nat \<Rightarrow> nat" \<comment> \<open>the n-th reading of \<open>now_ms\<close>\<close>
  env_parse_ip :: "string \<Rightarrow> ip_addr option"
  env_hosts :: "string \<Rightarrow> ip_addr list option"
  env_dns :: net
  env_resolver :: resolver
  env_getaddrinfo :: "string \<Rightarrow> nat \<Rightarrow> http_error + socket_addr"
  env_connect :: "nat \<Rightarrow> socket_addr \<Rightarrow> client_url \<Rightarrow> http_error option"
  env_reply :: "nat \<Rightarrow> string list \<Rightarrow> io_kind + script"

type_synonym written = "nat \<times> origin \<times> string"

record client_state =
  cs_pool :: "conn pool"
  cs_jar :: "jar option"
  cs_dns :: shard
  cs_ticks :: nat
  cs_dials :: nat
  cs_wire :: "written list"

definition now_ms :: "client_env \<Rightarrow> client_state \<Rightarrow> nat \<times> client_state" where
  "now_ms E st = (env_clock E (cs_ticks st), st\<lparr>cs_ticks := Suc (cs_ticks st)\<rparr>)"

definition resolve :: "client_env \<Rightarrow> string \<Rightarrow> nat \<Rightarrow> shard \<Rightarrow> (http_error + socket_addr) \<times> shard" where
  "resolve E name port sh =
     (let host = (case strip_suffix ''.'' name of Some h \<Rightarrow> h | None \<Rightarrow> name)
      in case env_parse_ip E host of
           Some a \<Rightarrow> (Inr (a, port), sh)
         | None \<Rightarrow>
             let key = map to_ascii_lowercase host
             in case Option.bind (env_hosts E key) (\<lambda>ips. case ips of [] \<Rightarrow> None | a # _ \<Rightarrow> Some a) of
                  Some a \<Rightarrow> (Inr (a, port), sh)
                | None \<Rightarrow>
                    if key = ''localhost'' then (Inr (IpV4 127 0 0 1, port), sh)
                    else
                      (case lookup (env_dns E) (env_resolver E) host sh of
                         (Inr (a # _), sh) \<Rightarrow> (Inr (a, port), sh)
                       | (Inr [], sh) \<Rightarrow> (env_getaddrinfo E host port, sh)
                       | (Inl e, sh) \<Rightarrow> (env_getaddrinfo E host port, sh)))"

text \<open>A fresh connection: resolve, connect, and the handshake for https.\<close>

definition dial :: "client_env \<Rightarrow> client_url \<Rightarrow> client_state \<Rightarrow> (http_error + conn) \<times> client_state" where
  "dial E u st =
     (case resolve E (url_host u) (url_port u) (cs_dns st) of
        (Inl e, sh) \<Rightarrow> (Inl e, st\<lparr>cs_dns := sh\<rparr>)
      | (Inr addr, sh) \<Rightarrow>
          let n = cs_dials st; st = st\<lparr>cs_dns := sh, cs_dials := Suc n\<rparr>
          in case env_connect E n addr u of
               Some e \<Rightarrow> (Inl e, st)
             | None \<Rightarrow> (Inr \<lparr>conn_no = n, conn_origin = origin_of u, conn_sent = [], conn_in = []\<rparr>, st))"

section \<open>One exchange\<close>

text \<open>
  A reader takes what the socket delivers to a result and what is left: \<open>read_response\<close> for a
  buffered response, \<open>read_stream_head\<close> for a streamed one.
\<close>

type_synonym 'a reader = "script \<Rightarrow> client_fail + ('a \<times> script)"

definition buffered :: "codecs \<Rightarrow> (client_response \<times> bool) reader" where
  "buffered C s = bind_run (read_response C s) (\<lambda>(r, keepable, s). Inr ((r, keepable), s))"

definition streamed :: "response_stream reader" where
  "streamed s = bind_run (read_stream_head s) (\<lambda>h. Inr (h, []))"

definition send_on :: "client_env \<Rightarrow> 'a reader \<Rightarrow> conn \<Rightarrow> client_request \<Rightarrow> bool \<Rightarrow> string option \<Rightarrow> client_state \<Rightarrow>
    (client_fail + ('a \<times> conn)) \<times> client_state" where
  "send_on E rd c q keep_alive cookies st =
     (let bytes = encode_request q keep_alive cookies;
          st = st\<lparr>cs_wire := cs_wire st @ [(conn_no c, conn_origin c, bytes)]\<rparr>;
          sent = conn_sent c @ [bytes]
      in case env_reply E (conn_no c) sent of
           Inl k \<Rightarrow> (Inl (Failed (IoError k)), st)
         | Inr s \<Rightarrow>
             (case rd (conn_in c @ s) of
                Inl e \<Rightarrow> (Inl e, st)
              | Inr (x, s) \<Rightarrow> (Inr (x, c\<lparr>conn_sent := sent, conn_in := s\<rparr>), st)))"

definition dial_and_send :: "client_env \<Rightarrow> 'a reader \<Rightarrow> client_request \<Rightarrow> bool \<Rightarrow> string option \<Rightarrow> client_state \<Rightarrow>
    (client_fail + ('a \<times> conn)) \<times> client_state" where
  "dial_and_send E rd q keep_alive cookies st =
     (case dial E (cq_url q) st of
        (Inl e, st) \<Rightarrow> (Inl (Failed e), st)
      | (Inr c, st) \<Rightarrow> send_on E rd c q keep_alive cookies st)"

definition is_stale :: "client_fail \<Rightarrow> bool" where
  "is_stale e =
     (case e of
        Failed (IoError k) \<Rightarrow> k \<in> {ConnectionReset, ConnectionAborted, BrokenPipe, UnexpectedEof}
      | Failed (Protocol m) \<Rightarrow> find_bytes m ''closed before headers'' \<noteq> None
      | _ \<Rightarrow> False)"

text \<open>Reuse a pooled connection if there is one; on a stale one, fall to a dial.\<close>

definition exchange :: "client_env \<Rightarrow> 'a reader \<Rightarrow> client_request \<Rightarrow> bool \<Rightarrow> string option \<Rightarrow> nat \<Rightarrow> client_state \<Rightarrow>
    (client_fail + ('a \<times> conn)) \<times> client_state" where
  "exchange E rd q keep_alive cookies now st =
     (let (pooled, p) = pool_take (env_thread E) (origin_of (cq_url q)) now (cs_pool st);
          st = st\<lparr>cs_pool := p\<rparr>
      in case pooled of
           None \<Rightarrow> dial_and_send E rd q keep_alive cookies st
         | Some c \<Rightarrow>
             (case send_on E rd c q keep_alive cookies st of
                (Inr x, st) \<Rightarrow> (Inr x, st)
              | (Inl e, st) \<Rightarrow>
                  if is_stale e then dial_and_send E rd q keep_alive cookies st else (Inl e, st)))"

text \<open>The Cookie header of a request, and the cookies of a response.\<close>

definition request_cookie :: "client_state \<Rightarrow> client_request \<Rightarrow> nat \<Rightarrow> string option" where
  "request_cookie st q now =
     (case cs_jar st of
        None \<Rightarrow> None
      | Some j \<Rightarrow> let c = header_for j (cq_url q) (now div 1000) in if c \<noteq> [] then Some c else None)"

definition record_cookies :: "string list \<Rightarrow> client_request \<Rightarrow> nat \<Rightarrow> client_state \<Rightarrow> client_state" where
  "record_cookies found q now st =
     (case cs_jar st of
        None \<Rightarrow> st
      | Some j \<Rightarrow> if found \<noteq> [] then st\<lparr>cs_jar := Some (jar_store found (cq_url q) (now div 1000) j)\<rparr> else st)"

definition response_cookies :: "client_response \<Rightarrow> string list" where
  "response_cookies r =
     map snd (filter (\<lambda>(name, _). eq_ignore_ascii_case name ''set-cookie'') (response_headers r))"

definition put_back :: "client_env \<Rightarrow> origin \<Rightarrow> conn \<Rightarrow> client_state \<Rightarrow> client_state" where
  "put_back E org c st =
     (let (now, st) = now_ms E st
      in st\<lparr>cs_pool := pool_put (max_idle_per_host E) (env_thread E) org c now (cs_pool st)\<rparr>)"

definition maybe_return :: "client_env \<Rightarrow> origin \<Rightarrow> conn \<Rightarrow> bool \<Rightarrow> client_response \<Rightarrow> client_state \<Rightarrow> client_state" where
  "maybe_return E org c keepable r st =
     (let close = (case response_header r ''connection'' of None \<Rightarrow> False | Some v \<Rightarrow> eq_ignore_ascii_case v ''close'')
      in if 0 < max_idle_per_host E \<and> keepable \<and> \<not> close then put_back E org c st else st)"

definition roundtrip :: "client_env \<Rightarrow> client_request \<Rightarrow> client_state \<Rightarrow> (client_fail + client_response) \<times> client_state" where
  "roundtrip E q st =
     (let org = origin_of (cq_url q); keep_alive = 0 < max_idle_per_host E;
          (now, st) = now_ms E st;
          cookies = request_cookie st q now
      in case exchange E (buffered (env_codecs E)) q keep_alive cookies now st of
           (Inl e, st) \<Rightarrow> (Inl e, st)
         | (Inr ((r, keepable), c), st) \<Rightarrow>
             let st = record_cookies (response_cookies r) q now st;
                 st = maybe_return E org c keepable r st
             in (Inr r, st))"

section \<open>Redirects\<close>

function send_loop :: "client_env \<Rightarrow> client_request \<Rightarrow> nat \<Rightarrow> client_state \<Rightarrow> (client_fail + client_response) \<times> client_state" where
  "send_loop E q redirects st =
     (case roundtrip E q st of
        (Inl e, st) \<Rightarrow> (Inl e, st)
      | (Inr r, st) \<Rightarrow>
          if redirects < max_redirects E then
            (case redirect_target q r of
               Inl e \<Rightarrow> (Inl (Failed e), st)
             | Inr (Some next) \<Rightarrow> send_loop E next (redirects + 1) st
             | Inr None \<Rightarrow> (Inr r, st))
          else (Inr r, st))"
  by pat_completeness auto
termination
  by (relation "measure (\<lambda>(E, q, redirects, st). max_redirects E - redirects)") auto

declare send_loop.simps [simp del]

definition send :: "client_env \<Rightarrow> client_request \<Rightarrow> client_state \<Rightarrow> (client_fail + client_response) \<times> client_state" where
  "send E q st = send_loop E q 0 st"

definition get_url :: "client_env \<Rightarrow> string \<Rightarrow> client_state \<Rightarrow> (client_fail + client_response) \<times> client_state" where
  "get_url E url st =
     (case url_parse url of Inl e \<Rightarrow> (Inl (Failed e), st) | Inr u \<Rightarrow> send E (client_request_new GET u) st)"

definition post_form :: "client_env \<Rightarrow> string \<Rightarrow> (string \<times> string) list \<Rightarrow> client_state \<Rightarrow>
    (client_fail + client_response) \<times> client_state" where
  "post_form E url form st =
     (let body = encode_form form
      in case url_parse url of
           Inl e \<Rightarrow> (Inl (Failed e), st)
         | Inr u \<Rightarrow> send E (set_body ''application/x-www-form-urlencoded'' body (client_request_new POST u)) st)"

section \<open>Streamed requests\<close>

text \<open>A response stream together with its connection.\<close>

type_synonym live_stream = "response_stream \<times> conn \<times> origin"

definition stream_cookies :: "response_stream \<Rightarrow> string list" where
  "stream_cookies rs =
     map (\<lambda>(_, v). str_or_empty (slice (rs_head rs) v))
       (filter (\<lambda>(n, _). eq_ignore_ascii_case (slice (rs_head rs) n) ''set-cookie'') (rs_spans rs))"

definition dial_and_stream :: "client_env \<Rightarrow> client_request \<Rightarrow> client_state \<Rightarrow> (client_fail + live_stream) \<times> client_state" where
  "dial_and_stream E q st =
     (let org = origin_of (cq_url q); keep_alive = 0 < max_idle_per_host E;
          (now, st) = now_ms E st;
          cookies = request_cookie st q now
      in case exchange E streamed q keep_alive cookies now st of
           (Inl e, st) \<Rightarrow> (Inl e, st)
         | (Inr (rs, c), st) \<Rightarrow> (Inr (rs, c, org), record_cookies (stream_cookies rs) q now st))"

text \<open>One chunk; a stream that ends cleanly hands its connection to the pool.\<close>

definition stream_chunk :: "client_env \<Rightarrow> live_stream \<Rightarrow> client_state \<Rightarrow>
    (client_fail + (string option \<times> live_stream)) \<times> client_state" where
  "stream_chunk E ls st =
     (case ls of (rs, c, org) \<Rightarrow>
        (case chunk (max_idle_per_host E) rs of
           Inl e \<Rightarrow> (Inl e, st)
         | Inr (x, rs') \<Rightarrow>
             (Inr (x, rs', c, org),
              case rs_returned rs' of
                None \<Rightarrow> st
              | Some s \<Rightarrow> if rs_conn rs = None then st else put_back E org (c\<lparr>conn_in := s\<rparr>) st)))"

definition stream_drain :: "client_env \<Rightarrow> live_stream \<Rightarrow> client_state \<Rightarrow> (client_fail + unit) \<times> client_state" where
  "stream_drain E ls st =
     (case ls of (rs, c, org) \<Rightarrow>
        (case drain (max_idle_per_host E) rs [] of
           Inl e \<Rightarrow> (Inl e, st)
         | Inr (_, rs') \<Rightarrow>
             (Inr (),
              case rs_returned rs' of
                None \<Rightarrow> st
              | Some s \<Rightarrow> if rs_conn rs = None then st else put_back E org (c\<lparr>conn_in := s\<rparr>) st)))"

function stream_loop :: "client_env \<Rightarrow> client_request \<Rightarrow> nat \<Rightarrow> client_state \<Rightarrow> (client_fail + live_stream) \<times> client_state" where
  "stream_loop E q redirects st =
     (case dial_and_stream E q st of
        (Inl e, st) \<Rightarrow> (Inl e, st)
      | (Inr (rs, c, org), st) \<Rightarrow>
          if redirects < max_redirects E then
            (case redirect_target q \<lparr>cr_status = rs_status rs, cr_body = [], cr_head = rs_head rs, cr_spans = rs_spans rs\<rparr> of
               Inl e \<Rightarrow> (Inl (Failed e), st)
             | Inr (Some next) \<Rightarrow>
                 (case stream_drain E (rs, c, org) st of
                    (Inl e, st) \<Rightarrow> (Inl e, st)
                  | (Inr _, st) \<Rightarrow> stream_loop E next (redirects + 1) st)
             | Inr None \<Rightarrow> (Inr (rs, c, org), st))
          else (Inr (rs, c, org), st))"
  by pat_completeness auto
termination
  by (relation "measure (\<lambda>(E, q, redirects, st). max_redirects E - redirects)") auto

declare stream_loop.simps [simp del]

definition send_streaming :: "client_env \<Rightarrow> client_request \<Rightarrow> client_state \<Rightarrow> (client_fail + live_stream) \<times> client_state" where
  "send_streaming E q st =
     stream_loop E (if has_header q ''accept-encoding'' then q else add_header ''accept-encoding'' ''identity'' q) 0 st"

section \<open>The pool keeps its connections apart\<close>

text \<open>
  A bucket holds at most the configured number of connections, each dialled for the origin of the
  bucket; no connection is in the pool twice.
\<close>

abbreviation numbers :: "conn idle list \<Rightarrow> nat list" where
  "numbers b \<equiv> map (\<lambda>i. conn_no (idle_conn i)) b"

definition bucket :: "conn pool \<Rightarrow> nat \<times> origin \<Rightarrow> conn idle list" where
  "bucket p k = (case hm_get p k of None \<Rightarrow> [] | Some b \<Rightarrow> b)"

definition bucket_ok :: "nat \<Rightarrow> nat \<Rightarrow> origin \<Rightarrow> conn idle list \<Rightarrow> bool" where
  "bucket_ok mx dials org b \<longleftrightarrow>
     length b \<le> mx \<and> distinct (numbers b) \<and>
     (\<forall>i\<in>set b. conn_origin (idle_conn i) = org \<and> conn_no (idle_conn i) < dials)"

definition pool_ok :: "nat \<Rightarrow> nat \<Rightarrow> conn pool \<Rightarrow> bool" where
  "pool_ok mx dials p \<longleftrightarrow>
     (\<forall>k. bucket_ok mx dials (snd k) (bucket p k)) \<and>
     (\<forall>k k'. k \<noteq> k' \<longrightarrow> set (numbers (bucket p k)) \<inter> set (numbers (bucket p k')) = {})"

definition client_ok :: "client_env \<Rightarrow> client_state \<Rightarrow> bool" where
  "client_ok E st \<longleftrightarrow>
     pool_ok (max_idle_per_host E) (cs_dials st) (cs_pool st) \<and>
     (case cs_jar st of None \<Rightarrow> True | Some j \<Rightarrow> distinct (map cookie_key j))"

text \<open>A connection in use: it is not in the pool.\<close>

definition loose :: "origin \<Rightarrow> nat \<Rightarrow> conn pool \<Rightarrow> conn \<Rightarrow> bool" where
  "loose org dials p c \<longleftrightarrow>
     conn_origin c = org \<and> conn_no c < dials \<and> (\<forall>k. conn_no c \<notin> set (numbers (bucket p k)))"

lemma bucket_insert: "bucket (hm_insert p k b) = (bucket p)(k := b)"
  by (simp add: bucket_def hm_get_def hm_insert_def update_conv' fun_eq_iff)

lemma pool_ok_insert:
  assumes ok: "pool_ok mx d p" and b: "bucket_ok mx d (snd k) b"
    and apart: "\<And>k'. k' \<noteq> k \<Longrightarrow> set (numbers b) \<inter> set (numbers (bucket p k')) = {}"
  shows "pool_ok mx d (hm_insert p k b)"
  unfolding pool_ok_def
proof (intro conjI allI impI)
  show "bucket_ok mx d (snd j) (bucket (hm_insert p k b) j)" for j
  proof -
    have "bucket_ok mx d (snd j) (bucket p j)" using ok unfolding pool_ok_def by blast
    then show ?thesis using b unfolding bucket_insert by (cases "j = k") simp_all
  qed
  show "set (numbers (bucket (hm_insert p k b) i)) \<inter> set (numbers (bucket (hm_insert p k b) j)) = {}" if "i \<noteq> j" for i j
  proof -
    have "set (numbers (bucket p i)) \<inter> set (numbers (bucket p j)) = {}" using ok that unfolding pool_ok_def by blast
    then show ?thesis unfolding bucket_insert fun_upd_def using apart [of i] apart [of j] that
      by (cases "i = k"; cases "j = k") (simp_all del: set_map add: Int_commute)
  qed
qed

lemma loose_reuse: "loose org d p c \<Longrightarrow> loose org d p (c\<lparr>conn_sent := x, conn_in := s\<rparr>)"
  by (simp add: loose_def)

lemma pop_fresh_prefix:
  "pop_fresh now b = (c, b') \<Longrightarrow> \<exists>n. b' = take n b \<and> (\<forall>x. c = Some x \<longrightarrow>
     n < length b \<and> idle_conn (b ! n) = x \<and> now - since_ms (b ! n) < POOL_IDLE_TIMEOUT_MS)"
proof (induction now b rule: pop_fresh.induct)
  case (1 now b)
  show ?case
  proof (cases "b = []")
    case True
    with "1.prems" show ?thesis by (simp add: pop_fresh.simps)
  next
    case False
    then have l: "last b = b ! (length b - 1)" "butlast b = take (length b - 1) b"
      by (simp_all add: last_conv_nth butlast_conv_take)
    show ?thesis
    proof (cases "now - since_ms (last b) < POOL_IDLE_TIMEOUT_MS")
      case True
      with "1.prems" False have "c = Some (idle_conn (last b))" "b' = butlast b"
        by (simp_all add: pop_fresh.simps [of now b] Let_def)
      with True False l show ?thesis by (intro exI [of _ "length b - 1"]) simp
    next
      case stale: False
      with "1.prems" False have "pop_fresh now (butlast b) = (c, b')"
        by (simp add: pop_fresh.simps [of now b] Let_def)
      from "1.IH" [OF False refl refl stale this] obtain n where
        n: "b' = take n (butlast b)" "\<forall>x. c = Some x \<longrightarrow> n < length (butlast b) \<and> idle_conn (butlast b ! n) = x \<and>
          now - since_ms (butlast b ! n) < POOL_IDLE_TIMEOUT_MS" by blast
      have "b' = take (min n (length b - 1)) b" using n(1) by (simp add: butlast_conv_take)
      moreover have "c = Some x \<Longrightarrow> min n (length b - 1) = n \<and> n < length b \<and> butlast b ! n = b ! n" for x
        using n(2) by (auto simp: nth_butlast)
      ultimately show ?thesis using n(2) by (intro exI [of _ "min n (length b - 1)"]) auto
    qed
  qed
qed

lemma pool_take_ok:
  assumes ok: "pool_ok mx d p" and tk: "pool_take t org now p = (x, p')"
  shows "pool_ok mx d p'" "x = Some c \<Longrightarrow> loose org d p' c"
proof -
  have both: "pool_ok mx d p' \<and> (x = Some c \<longrightarrow> loose org d p' c)"
  proof (cases "hm_get p (t, org)")
    case None
    with tk ok show ?thesis by (simp add: pool_take_def)
  next
    case (Some b)
    with tk obtain b' where pf: "pop_fresh now b = (x, b')" and p': "p' = hm_insert p (t, org) b'"
      by (auto simp: pool_take_def split: prod.splits)
    from pop_fresh_prefix [OF pf] obtain n where
      n: "b' = take n b" "\<And>c. x = Some c \<Longrightarrow> n < length b \<and> idle_conn (b ! n) = c" by blast
    have bp: "bucket p (t, org) = b" by (simp add: bucket_def Some)
    have b: "bucket_ok mx d org b" using ok bp unfolding pool_ok_def by (metis snd_conv)
    have apart: "set (numbers b) \<inter> set (numbers (bucket p k)) = {}" if "k \<noteq> (t, org)" for k
      using ok bp that unfolding pool_ok_def by metis
    have sub: "set b' \<subseteq> set b" unfolding n(1) by (rule set_take_subset)
    then have subn: "set (numbers b') \<subseteq> set (numbers b)" by auto
    have b': "bucket_ok mx d org b'"
      using b sub unfolding bucket_ok_def by (auto simp: n(1) take_map [symmetric] distinct_take)
    have p1: "pool_ok mx d p'"
      unfolding p' by (rule pool_ok_insert [OF ok]) (use b' apart subn in \<open>simp_all del: set_map, blast\<close>)
    have "x = Some c \<Longrightarrow> loose org d p' c"
    proof -
      assume x: "x = Some c"
      with n(2) have i: "n < length b" "idle_conn (b ! n) = c" by blast+
      then have c: "conn_origin c = org" "conn_no c < d" "conn_no c \<in> set (numbers b)"
        using b nth_mem [of n b] unfolding bucket_ok_def by force+
      have new: "conn_no c \<notin> set (numbers b')"
      proof
        assume "conn_no c \<in> set (numbers b')"
        then obtain m where m: "m < n" "m < length b" "numbers b ! m = conn_no c"
          unfolding n(1) take_map [symmetric] by (auto simp: in_set_conv_nth)
        moreover have "numbers b ! n = conn_no c" using i by simp
        moreover have "distinct (numbers b)" using b by (simp add: bucket_ok_def)
        ultimately show False using i(1) by (metis distinct_conv_nth length_map less_irrefl)
      qed
      have "conn_no c \<notin> set (numbers (bucket p' k))" for k
        using new apart [of k] c(3) unfolding p' bucket_insert by (cases "k = (t, org)") (simp_all del: set_map, blast)
      with c show "loose org d p' c" by (simp add: loose_def)
    qed
    with p1 show ?thesis by blast
  qed
  show "pool_ok mx d p'" using both by blast
  show "x = Some c \<Longrightarrow> loose org d p' c" using both by blast
qed

lemma pool_put_ok:
  assumes ok: "pool_ok mx d p" and c: "loose org d p c"
  shows "pool_ok mx d (pool_put mx t org c now p)"
proof -
  let ?b = "bucket p (t, org)"
  have b: "bucket_ok mx d org ?b" using ok unfolding pool_ok_def by (metis snd_conv)
  have new: "conn_no c \<notin> set (numbers (bucket p k))" for k using c unfolding loose_def by blast
  have apart: "set (numbers ?b) \<inter> set (numbers (bucket p k)) = {}" if "k \<noteq> (t, org)" for k
    using ok that unfolding pool_ok_def by metis
  have "pool_ok mx d (hm_insert p (t, org) (?b @ [\<lparr>idle_conn = c, since_ms = now\<rparr>]))" if "length ?b < mx"
  proof (rule pool_ok_insert [OF ok])
    show "bucket_ok mx d (snd (t, org)) (?b @ [\<lparr>idle_conn = c, since_ms = now\<rparr>])"
      using b c new [of "(t, org)"] that by (auto simp: bucket_ok_def loose_def)
    show "set (numbers (?b @ [\<lparr>idle_conn = c, since_ms = now\<rparr>])) \<inter> set (numbers (bucket p k)) = {}" if "k \<noteq> (t, org)" for k
      using apart [OF that] new [of k] by simp
  qed
  moreover have "pool_ok mx d (hm_insert p (t, org) ?b)"
    by (rule pool_ok_insert [OF ok]) (use b apart in \<open>simp_all del: set_map\<close>)
  ultimately show ?thesis using ok by (cases "mx = 0") (simp_all add: pool_put_def Let_def bucket_def)
qed

text \<open>The numbers in the pool, and the numbers a connection taken or dialled from now on can have.\<close>

definition pooled :: "conn pool \<Rightarrow> nat set" where
  "pooled p = (\<Union>k. set (numbers (bucket p k)))"

definition fresh :: "client_state \<Rightarrow> nat set" where
  "fresh st = pooled (cs_pool st) \<union> {n. cs_dials st \<le> n}"

lemma pooled_insert: "pooled (hm_insert p k b) \<subseteq> set (numbers b) \<union> pooled p"
  unfolding pooled_def bucket_insert fun_upd_def by (auto split: if_splits)

lemma pooled_bucket: "set (numbers (bucket p k)) \<subseteq> pooled p"
  unfolding pooled_def by blast

lemma pooled_take:
  assumes "pool_take t org now p = (x, p')"
  shows "pooled p' \<subseteq> pooled p" "x = Some c \<Longrightarrow> conn_no c \<in> pooled p"
proof -
  have both: "pooled p' \<subseteq> pooled p \<and> (x = Some c \<longrightarrow> conn_no c \<in> pooled p)"
  proof (cases "hm_get p (t, org)")
    case None
    with assms show ?thesis by (simp add: pool_take_def)
  next
    case (Some b)
    with assms obtain b' where pf: "pop_fresh now b = (x, b')" and p': "p' = hm_insert p (t, org) b'"
      by (auto simp: pool_take_def split: prod.splits)
    from pop_fresh_prefix [OF pf] obtain n where
      n: "b' = take n b" "\<And>c. x = Some c \<Longrightarrow> n < length b \<and> idle_conn (b ! n) = c" by blast
    have b: "set (numbers b) \<subseteq> pooled p" using pooled_bucket [of p "(t, org)"] by (simp add: bucket_def Some)
    have "set (numbers b') \<subseteq> set (numbers b)" using set_take_subset [of n b] by (auto simp: n(1))
    then have "pooled p' \<subseteq> pooled p" using b pooled_insert [of p "(t, org)" b'] unfolding p' by blast
    moreover have "conn_no c \<in> set (numbers b)" if "x = Some c" using n(2) [OF that] nth_mem [of n b] by force
    ultimately show ?thesis using b by blast
  qed
  show "pooled p' \<subseteq> pooled p" using both by blast
  show "x = Some c \<Longrightarrow> conn_no c \<in> pooled p" using both by blast
qed

lemma pooled_put: "pooled (pool_put mx t org c now p) \<subseteq> insert (conn_no c) (pooled p)"
proof -
  let ?b = "bucket p (t, org)" and ?i = "\<lparr>idle_conn = c, since_ms = now\<rparr>"
  have put: "pool_put mx t org c now p =
      (if mx = 0 then p else hm_insert p (t, org) (if length ?b < mx then ?b @ [?i] else ?b))"
    by (simp add: pool_put_def bucket_def Let_def)
  have "set (numbers (?b @ [?i])) \<subseteq> insert (conn_no c) (pooled p)" "set (numbers ?b) \<subseteq> pooled p"
    using pooled_bucket [of p "(t, org)"] by auto
  then show ?thesis
    unfolding put using pooled_insert [of p "(t, org)" "?b @ [?i]"] pooled_insert [of p "(t, org)" ?b]
    by (simp del: set_map set_append) blast
qed

lemma loose_fresh: "loose org d p c \<Longrightarrow> conn_no c \<notin> pooled p \<and> conn_no c < d"
  unfolding loose_def pooled_def by blast

lemma pool_ok_mono: "pool_ok mx d p \<Longrightarrow> d \<le> d' \<Longrightarrow> pool_ok mx d' p"
  unfolding pool_ok_def bucket_ok_def by (meson less_le_trans)

lemma loose_mono: "loose org d p c \<Longrightarrow> d \<le> d' \<Longrightarrow> loose org d' p c"
  unfolding loose_def by (meson less_le_trans)

text \<open>A connection that is dialled next has a number that the pool does not have.\<close>

lemma loose_new:
  assumes "pool_ok mx d p"
  shows "loose org (Suc d) p \<lparr>conn_no = d, conn_origin = org, conn_sent = [], conn_in = []\<rparr>"
proof -
  have "d \<notin> set (numbers (bucket p k))" for k
  proof -
    have "\<forall>i\<in>set (bucket p k). conn_no (idle_conn i) < d" using assms unfolding pool_ok_def bucket_ok_def by blast
    then show ?thesis by auto
  qed
  then show ?thesis unfolding loose_def by simp
qed

section \<open>What an exchange does\<close>

text \<open>
  The effect of an exchange on the state: at most one dial, at most two writes, all of the request
  itself and on connections of its origin, and the jar is untouched.
\<close>

definition effect :: "nat \<Rightarrow> client_env \<Rightarrow> client_request \<Rightarrow> string option \<Rightarrow> client_state \<Rightarrow> client_state \<Rightarrow> bool" where
  "effect n E q cookies st st' \<longleftrightarrow>
     pool_ok (max_idle_per_host E) (cs_dials st') (cs_pool st') \<and> cs_jar st' = cs_jar st \<and>
     cs_dials st \<le> cs_dials st' \<and> fresh st' \<subseteq> fresh st \<and>
     (\<exists>es. cs_wire st' = cs_wire st @ es \<and> length es \<le> n \<and>
       (\<forall>e\<in>set es. snd e = (origin_of (cq_url q), encode_request q (0 < max_idle_per_host E) cookies)))"

lemma effect_trans:
  assumes "effect n E q ck a b" "effect m E q ck b c"
  shows "effect (n + m) E q ck a c"
proof -
  obtain es1 es2 where "cs_wire b = cs_wire a @ es1" "length es1 \<le> n" "cs_wire c = cs_wire b @ es2" "length es2 \<le> m"
    "\<forall>e\<in>set es1 \<union> set es2. snd e = (origin_of (cq_url q), encode_request q (0 < max_idle_per_host E) ck)"
    using assms unfolding effect_def by blast
  then have "\<exists>es. cs_wire c = cs_wire a @ es \<and> length es \<le> n + m \<and>
     (\<forall>e\<in>set es. snd e = (origin_of (cq_url q), encode_request q (0 < max_idle_per_host E) ck))"
    by (intro exI [of _ "es1 @ es2"]) auto
  moreover have "pool_ok (max_idle_per_host E) (cs_dials c) (cs_pool c)" "cs_jar c = cs_jar a" "cs_dials a \<le> cs_dials c"
    "fresh c \<subseteq> fresh a" using assms unfolding effect_def by auto
  ultimately show ?thesis unfolding effect_def by (intro conjI)
qed

lemma effect_mono: "effect n E q ck a b \<Longrightarrow> n \<le> m \<Longrightarrow> effect m E q ck a b"
  by (auto simp: effect_def)

text \<open>The connection of a successful exchange is in no one else's hands.\<close>

definition owned :: "client_request \<Rightarrow> client_state \<Rightarrow> client_state \<Rightarrow> 'e + ('a \<times> conn) \<Rightarrow> bool" where
  "owned q st st' r \<longleftrightarrow>
     (\<forall>x c. r = Inr (x, c) \<longrightarrow> loose (origin_of (cq_url q)) (cs_dials st') (cs_pool st') c \<and> conn_no c \<in> fresh st)"

lemma owned_Inl: "owned q st st' (Inl e)"
  by (simp add: owned_def)

lemma owned_from: "owned q b st' r \<Longrightarrow> fresh b \<subseteq> fresh a \<Longrightarrow> owned q a st' r"
  unfolding owned_def by blast

lemma send_on_effect:
  assumes ok: "pool_ok (max_idle_per_host E) (cs_dials st) (cs_pool st)"
    and c: "loose (origin_of (cq_url q)) (cs_dials st) (cs_pool st) c"
    and r: "send_on E rd c q (0 < max_idle_per_host E) ck st = (r, st')"
  shows "effect 1 E q ck st st'" "cs_pool st' = cs_pool st" "cs_dials st' = cs_dials st"
    "conn_no c \<in> fresh a \<Longrightarrow> owned q a st' r"
proof -
  let ?e = "(conn_no c, conn_origin c, encode_request q (0 < max_idle_per_host E) ck)"
  have st': "st' = st\<lparr>cs_wire := cs_wire st @ [?e]\<rparr>"
    using r by (auto simp: send_on_def Let_def split: sum.splits)
  show "cs_pool st' = cs_pool st" "cs_dials st' = cs_dials st" by (simp_all add: st')
  have "fresh st' = fresh st" by (simp add: st' fresh_def)
  then show "effect 1 E q ck st st'" using ok c by (simp add: effect_def st' loose_def)
  have "\<exists>a s. c' = c\<lparr>conn_sent := a, conn_in := s\<rparr>" if "r = Inr (x, c')" for x c'
    using r that by (auto simp: send_on_def Let_def split: sum.splits)
  then show "conn_no c \<in> fresh a \<Longrightarrow> owned q a st' r"
    unfolding owned_def st' using loose_reuse [OF c] by fastforce
qed

lemma dial_effect:
  assumes d: "dial E (cq_url q) st = (r, st')" and ok: "pool_ok (max_idle_per_host E) (cs_dials st) (cs_pool st)"
  shows "effect 0 E q ck st st'" "r = Inr c \<Longrightarrow> loose (origin_of (cq_url q)) (cs_dials st') (cs_pool st') c"
    "r = Inr c \<Longrightarrow> conn_no c \<in> fresh st"
proof -
  have st: "cs_pool st' = cs_pool st" "cs_jar st' = cs_jar st" "cs_wire st' = cs_wire st" "cs_dials st \<le> cs_dials st'"
    using d by (auto simp: dial_def Let_def split: sum.splits prod.splits option.splits)
  moreover have "fresh st' \<subseteq> fresh st" using st(1,4) by (auto simp: fresh_def)
  ultimately show "effect 0 E q ck st st'" using pool_ok_mono [OF ok st(4)] by (simp add: effect_def)
  show "r = Inr c \<Longrightarrow> loose (origin_of (cq_url q)) (cs_dials st') (cs_pool st') c" "r = Inr c \<Longrightarrow> conn_no c \<in> fresh st"
    using d loose_new [OF ok, of "origin_of (cq_url q)"] by (auto simp: dial_def Let_def fresh_def split: sum.splits prod.splits option.splits)
qed

lemma effect_ok: "effect n E q ck st st' \<Longrightarrow> pool_ok (max_idle_per_host E) (cs_dials st') (cs_pool st')"
  by (simp add: effect_def)

lemma effect_fresh: "effect n E q ck st st' \<Longrightarrow> fresh st' \<subseteq> fresh st"
  by (simp add: effect_def)

lemma dial_and_send_effect:
  assumes ok: "pool_ok (max_idle_per_host E) (cs_dials st) (cs_pool st)"
    and r: "dial_and_send E rd q (0 < max_idle_per_host E) ck st = (r, st')"
  shows "effect 1 E q ck st st'" "owned q st st' r"
proof -
  obtain d st1 where d: "dial E (cq_url q) st = (d, st1)" by (cases "dial E (cq_url q) st")
  note de = dial_effect [OF d ok]
  have both: "effect 1 E q ck st st' \<and> owned q st st' r"
  proof (cases d)
    case (Inl e)
    with r d have "st' = st1" "r = Inl (Failed e)" by (auto simp: dial_and_send_def)
    then show ?thesis using effect_mono [OF de(1), of 1] owned_Inl by simp
  next
    case (Inr c)
    with r d have s: "send_on E rd c q (0 < max_idle_per_host E) ck st1 = (r, st')" by (simp add: dial_and_send_def)
    note so = send_on_effect [OF effect_ok [OF de(1)] de(2) [OF Inr] s]
    show ?thesis using effect_trans [OF de(1) so(1)] so(4) [OF de(3) [OF Inr]] by simp
  qed
  then show "effect 1 E q ck st st'" "owned q st st' r" by blast+
qed

lemma exchange_effect:
  assumes ok: "pool_ok (max_idle_per_host E) (cs_dials st) (cs_pool st)"
    and r: "exchange E rd q (0 < max_idle_per_host E) ck now st = (r, st')"
  shows "effect 2 E q ck st st' \<and> owned q st st' r"
proof -
  obtain y p where tk: "pool_take (env_thread E) (origin_of (cq_url q)) now (cs_pool st) = (y, p)"
    by (cases "pool_take (env_thread E) (origin_of (cq_url q)) now (cs_pool st)")
  let ?s = "st\<lparr>cs_pool := p\<rparr>"
  note tko = pool_take_ok [OF ok tk] and pt = pooled_take [OF tk]
  have ok1: "pool_ok (max_idle_per_host E) (cs_dials ?s) (cs_pool ?s)" using tko(1) by simp
  have fs: "fresh ?s \<subseteq> fresh st" using pt(1) by (auto simp: fresh_def)
  then have e0: "effect 0 E q ck st ?s" using ok1 by (simp add: effect_def)
  show ?thesis
  proof (cases y)
    case None
    with r tk have "dial_and_send E rd q (0 < max_idle_per_host E) ck ?s = (r, st')" by (simp add: exchange_def)
    note ds = dial_and_send_effect [OF ok1 this]
    show ?thesis using effect_mono [OF effect_trans [OF e0 ds(1)], of 2] owned_from [OF ds(2) fs] by simp
  next
    case (Some c)
    have lc: "loose (origin_of (cq_url q)) (cs_dials ?s) (cs_pool ?s) c" using tko(2) [OF Some] by simp
    have cf: "conn_no c \<in> fresh st" using pt(2) [OF Some] by (simp add: fresh_def)
    obtain r1 st1 where s1: "send_on E rd c q (0 < max_idle_per_host E) ck ?s = (r1, st1)"
      by (cases "send_on E rd c q (0 < max_idle_per_host E) ck ?s")
    note so = send_on_effect [OF ok1 lc s1]
    have e1: "effect 1 E q ck st st1" using effect_trans [OF e0 so(1)] by simp
    have here: "effect 2 E q ck st st1 \<and> owned q st st1 r1" using effect_mono [OF e1, of 2] so(4) [OF cf] by simp
    show ?thesis
    proof (cases r1)
      case (Inr x)
      with r tk Some s1 have "r = r1" "st' = st1" by (simp_all add: exchange_def)
      with here show ?thesis by simp
    next
      case (Inl e)
      show ?thesis
      proof (cases "is_stale e")
        case True
        with r tk Some s1 Inl have d: "dial_and_send E rd q (0 < max_idle_per_host E) ck st1 = (r, st')"
          by (simp add: exchange_def)
        note ds = dial_and_send_effect [OF effect_ok [OF e1] d]
        show ?thesis using effect_trans [OF e1 ds(1)] owned_from [OF ds(2) effect_fresh [OF e1]] by (simp add: numeral_2_eq_2)
      next
        case False
        with r tk Some s1 Inl have "r = r1" "st' = st1" by (simp_all add: exchange_def)
        with here show ?thesis by simp
      qed
    qed
  qed
qed

section \<open>What a request does\<close>

lemma origin_same_iff: "origin_same a b \<longleftrightarrow> origin_of a = origin_of b"
  by (auto simp: origin_same_def origin_of_def eq_ignore_ascii_case_def)

lemma record_cookies_state:
  "cs_pool (record_cookies cs q now st) = cs_pool st" "cs_dials (record_cookies cs q now st) = cs_dials st"
  "cs_wire (record_cookies cs q now st) = cs_wire st"
  by (simp_all add: record_cookies_def split: option.split)

lemma record_cookies_fresh: "fresh (record_cookies cs q now st) = fresh st"
  by (simp add: fresh_def record_cookies_state)

lemma record_cookies_jar:
  "(case cs_jar st of None \<Rightarrow> True | Some j \<Rightarrow> distinct (map cookie_key j)) \<Longrightarrow>
   (case cs_jar (record_cookies cs q now st) of None \<Rightarrow> True | Some j \<Rightarrow> distinct (map cookie_key j))"
  by (auto simp: record_cookies_def jar_store_distinct split: option.splits)

lemma record_cookies_ok: "client_ok E st \<Longrightarrow> client_ok E (record_cookies cs q now st)"
  unfolding client_ok_def record_cookies_state using record_cookies_jar by blast

lemma put_back_ok:
  assumes "client_ok E st" "loose org (cs_dials st) (cs_pool st) c"
  shows "client_ok E (put_back E org c st)" "cs_wire (put_back E org c st) = cs_wire st" "cs_dials (put_back E org c st) = cs_dials st"
    "fresh (put_back E org c st) \<subseteq> insert (conn_no c) (fresh st)"
  using assms pooled_put by (auto simp: put_back_def now_ms_def client_ok_def pool_put_ok fresh_def dest!: subsetD [OF pooled_put])

lemma request_cookie_jar: "request_cookie st q now = Some c \<Longrightarrow> \<exists>j t. c = header_for j (cq_url q) t"
  by (auto simp: request_cookie_def Let_def split: option.splits if_splits)

text \<open>
  What was written while a request was handled: a part of the log in which every entry satisfies a
  predicate, on a client that stays well-formed.
\<close>

definition writes :: "client_env \<Rightarrow> nat \<Rightarrow> (written \<Rightarrow> bool) \<Rightarrow> client_state \<Rightarrow> client_state \<Rightarrow> bool" where
  "writes E n P st st' \<longleftrightarrow>
     client_ok E st' \<and> fresh st' \<subseteq> fresh st \<and> cs_dials st \<le> cs_dials st' \<and>
     (\<exists>es. cs_wire st' = cs_wire st @ es \<and> length es \<le> n \<and> (\<forall>e\<in>set es. P e))"

lemma writes_trans:
  assumes "writes E n P a b" "writes E m P b c"
  shows "writes E (n + m) P a c"
proof -
  obtain es1 es2 where "cs_wire b = cs_wire a @ es1" "length es1 \<le> n" "cs_wire c = cs_wire b @ es2" "length es2 \<le> m"
    "\<forall>e\<in>set es1 \<union> set es2. P e"
    using assms unfolding writes_def by blast
  then have "\<exists>es. cs_wire c = cs_wire a @ es \<and> length es \<le> n + m \<and> (\<forall>e\<in>set es. P e)"
    by (intro exI [of _ "es1 @ es2"]) auto
  moreover have "client_ok E c" "cs_dials a \<le> cs_dials c" "fresh c \<subseteq> fresh a" using assms unfolding writes_def by auto
  ultimately show ?thesis unfolding writes_def by (intro conjI)
qed

lemma writes_mono: "writes E n P a b \<Longrightarrow> n \<le> m \<Longrightarrow> (\<And>e. P e \<Longrightarrow> Q e) \<Longrightarrow> writes E m Q a b"
  by (auto simp: writes_def)

lemma writes_same:
  "writes E n P a b \<Longrightarrow> client_ok E c \<Longrightarrow> cs_wire c = cs_wire b \<Longrightarrow> cs_dials c = cs_dials b \<Longrightarrow> fresh c \<subseteq> fresh a \<Longrightarrow> writes E n P a c"
  by (simp add: writes_def)

text \<open>A write that carries the request \<open>q\<close>, with a cookie header made for its URL.\<close>

definition carries :: "client_env \<Rightarrow> client_request \<Rightarrow> written \<Rightarrow> bool" where
  "carries E q e \<longleftrightarrow>
     (\<exists>ck. snd e = (origin_of (cq_url q), encode_request q (0 < max_idle_per_host E) ck) \<and>
        (\<forall>c. ck = Some c \<longrightarrow> (\<exists>j t. c = header_for j (cq_url q) t)))"

lemma exchange_writes:
  assumes ok: "client_ok E st" and tick: "st1 = st\<lparr>cs_ticks := k\<rparr>"
    and r: "exchange E rd q (0 < max_idle_per_host E) (request_cookie st1 q now) now st1 = (r, st')"
  shows "writes E 2 (carries E q) st st' \<and> owned q st st' r"
proof -
  have f: "fresh st1 = fresh st" by (simp add: tick fresh_def)
  have "pool_ok (max_idle_per_host E) (cs_dials st1) (cs_pool st1)" using ok by (simp add: tick client_ok_def)
  note ef = exchange_effect [OF this r]
  then obtain es where es: "cs_wire st' = cs_wire st @ es" "length es \<le> 2"
    "\<And>e. e \<in> set es \<Longrightarrow> snd e = (origin_of (cq_url q), encode_request q (0 < max_idle_per_host E) (request_cookie st1 q now))"
    unfolding effect_def tick by auto
  have "client_ok E st'" using ef ok by (simp add: effect_def client_ok_def tick)
  moreover have "carries E q e" if "e \<in> set es" for e
    unfolding carries_def using es(3) [OF that] request_cookie_jar by blast
  ultimately show ?thesis using es(1,2) ef owned_from [of q st1 st' r st] f by (auto simp: writes_def effect_def tick)
qed

lemma roundtrip_writes:
  assumes ok: "client_ok E st" and r: "roundtrip E q st = (r, st')"
  shows "writes E 2 (carries E q) st st'"
proof -
  let ?now = "env_clock E (cs_ticks st)" and ?s = "st\<lparr>cs_ticks := Suc (cs_ticks st)\<rparr>"
  obtain x st1 where e: "exchange E (buffered (env_codecs E)) q (0 < max_idle_per_host E) (request_cookie ?s q ?now) ?now ?s = (x, st1)"
    by (cases "exchange E (buffered (env_codecs E)) q (0 < max_idle_per_host E) (request_cookie ?s q ?now) ?now ?s")
  note w = exchange_writes [OF ok refl e]
  show ?thesis
  proof (cases x)
    case (Inl f)
    with r e have "st' = st1" by (simp add: roundtrip_def now_ms_def Let_def)
    with w show ?thesis by simp
  next
    case (Inr y)
    obtain res keepable c where y: "y = ((res, keepable), c)" by (cases y) auto
    let ?c = "record_cookies (response_cookies res) q ?now st1"
    have st': "st' = maybe_return E (origin_of (cq_url q)) c keepable res ?c"
      using r e Inr y by (simp add: roundtrip_def now_ms_def Let_def)
    have ok1: "client_ok E ?c" by (rule record_cookies_ok) (use w in \<open>simp add: writes_def\<close>)
    have l: "loose (origin_of (cq_url q)) (cs_dials ?c) (cs_pool ?c) c"
      using w Inr y by (simp add: record_cookies_state owned_def)
    have fc: "fresh ?c \<subseteq> fresh st" "conn_no c \<in> fresh st" using w Inr y by (simp_all add: record_cookies_fresh writes_def owned_def)
    note pb = put_back_ok [OF ok1 l]
    have "client_ok E st'" "cs_wire st' = cs_wire st1" "cs_dials st' = cs_dials st1" "fresh st' \<subseteq> fresh st"
      unfolding st' maybe_return_def Let_def using ok1 pb fc by (auto simp: record_cookies_state)
    then show ?thesis using w writes_same by blast
  qed
qed

section \<open>Streams and their connections\<close>

lemma loose_iff: "loose org (cs_dials st) (cs_pool st) c \<longleftrightarrow> conn_origin c = org \<and> conn_no c \<notin> fresh st"
  unfolding loose_def fresh_def pooled_def by auto

definition live_ok :: "client_state \<Rightarrow> live_stream \<Rightarrow> bool" where
  "live_ok st l \<longleftrightarrow> (case l of (rs, c, org) \<Rightarrow>
     rs_conn rs \<noteq> None \<longrightarrow> rs_returned rs = None \<and> conn_origin c = org \<and> conn_no c \<notin> fresh st)"

lemma pass_returned: "pass st = Inr (step, st') \<Longrightarrow> rs_returned st' = rs_returned st"
  by (auto simp: pass_def Let_def split: stream_plan.splits sum.splits if_splits)

lemma chunk_returned:
  "chunk m rs = Inr (x, rs') \<Longrightarrow> rs_returned rs = None \<Longrightarrow> rs_conn rs' = None \<or> rs_returned rs' = None"
proof (induction m rs rule: chunk.induct)
  case (1 m st)
  from "1.prems"(1) show ?case
  proof (cases rule: chunk_cases)
    case (more s e st1 b s1)
    have "rs_returned st1 = None" using pass_returned [OF more(2)] "1.prems"(2) by simp
    then show ?thesis using "1.IH" [OF more(1,2) refl refl more(3)] more(4) by simp
  qed (use "1.prems"(2) pass_returned in \<open>auto simp: finish_def split: option.splits\<close>)
qed

lemma chunk_over: "rs_conn rs = None \<Longrightarrow> chunk m rs = Inr (x, rs') \<Longrightarrow> rs' = rs"
  by (simp add: chunk.simps [of m rs])

lemma exchange_reads: "exchange E rd q ka ck now st = (Inr (x, c), st') \<Longrightarrow> \<exists>s s'. rd s = Inr (x, s')"
  by (auto simp: exchange_def send_on_def dial_and_send_def Let_def split: prod.splits option.splits sum.splits if_splits)

lemma streamed_returned: "streamed s = Inr (rs, s') \<Longrightarrow> rs_returned rs = None"
  by (auto simp: streamed_def read_stream_head_def bind_run_Inr)

lemma dial_and_stream_writes:
  assumes ok: "client_ok E st" and r: "dial_and_stream E q st = (r, st')"
  shows "writes E 2 (carries E q) st st'"
    "r = Inr (rs, c, org) \<Longrightarrow> rs_returned rs = None \<and> conn_origin c = org \<and> conn_no c \<in> fresh st \<and> conn_no c \<notin> fresh st'"
proof -
  let ?now = "env_clock E (cs_ticks st)" and ?s = "st\<lparr>cs_ticks := Suc (cs_ticks st)\<rparr>"
  obtain x st1 where e: "exchange E streamed q (0 < max_idle_per_host E) (request_cookie ?s q ?now) ?now ?s = (x, st1)"
    by (cases "exchange E streamed q (0 < max_idle_per_host E) (request_cookie ?s q ?now) ?now ?s")
  note w = exchange_writes [OF ok refl e]
  have both: "writes E 2 (carries E q) st st' \<and> (r = Inr (rs, c, org) \<longrightarrow>
    rs_returned rs = None \<and> conn_origin c = org \<and> conn_no c \<in> fresh st \<and> conn_no c \<notin> fresh st')"
  proof (cases x)
    case (Inl f)
    with r e have "st' = st1" "r = Inl f" by (simp_all add: dial_and_stream_def now_ms_def Let_def)
    with w show ?thesis by simp
  next
    case (Inr y)
    obtain rs1 c1 where y: "y = (rs1, c1)" by (cases y)
    have st': "st' = record_cookies (stream_cookies rs1) q ?now st1" and r': "r = Inr (rs1, c1, origin_of (cq_url q))"
      using r e Inr y by (simp_all add: dial_and_stream_def now_ms_def Let_def)
    have f: "fresh st' = fresh st1" unfolding st' by (rule record_cookies_fresh)
    have "client_ok E st'" unfolding st' by (rule record_cookies_ok) (use w in \<open>simp add: writes_def\<close>)
    then have wr: "writes E 2 (carries E q) st st'"
      using w f by (auto simp: writes_def st' record_cookies_state record_cookies_fresh)
    have "rs_returned rs1 = None" using exchange_reads e Inr y streamed_returned by metis
    moreover have "conn_origin c1 = origin_of (cq_url q)" "conn_no c1 \<in> fresh st" "conn_no c1 \<notin> fresh st1"
      using w unfolding owned_def Inr y loose_iff by blast+
    ultimately show ?thesis using wr r' f by auto
  qed
  show "writes E 2 (carries E q) st st'" using both by blast
  show "r = Inr (rs, c, org) \<Longrightarrow> rs_returned rs = None \<and> conn_origin c = org \<and> conn_no c \<in> fresh st \<and> conn_no c \<notin> fresh st'"
    using both by blast
qed

text \<open>Handing a connection back, or not.\<close>

lemma hand_back:
  assumes "client_ok E st" "live_ok st (rs, c, org)"
    and "st' = (case x of None \<Rightarrow> st | Some s \<Rightarrow> if rs_conn rs = None then st else put_back E org (c\<lparr>conn_in := s\<rparr>) st)"
  shows "client_ok E st'" "cs_wire st' = cs_wire st" "cs_dials st' = cs_dials st"
    "fresh st' \<subseteq> (if rs_conn rs = None then fresh st else insert (conn_no c) (fresh st))"
proof -
  have all: "client_ok E st' \<and> cs_wire st' = cs_wire st \<and> cs_dials st' = cs_dials st \<and>
    fresh st' \<subseteq> (if rs_conn rs = None then fresh st else insert (conn_no c) (fresh st))"
  proof (cases "x = None \<or> rs_conn rs = None")
    case True
    with assms have "st' = st" by (auto split: option.splits)
    with assms show ?thesis by auto
  next
    case False
    then obtain s where x: "x = Some s" "rs_conn rs \<noteq> None" by auto
    then have l: "loose org (cs_dials st) (cs_pool st) (c\<lparr>conn_in := s\<rparr>)"
      using assms(2) by (simp add: loose_iff live_ok_def)
    have "st' = put_back E org (c\<lparr>conn_in := s\<rparr>) st" using assms(3) x by simp
    with put_back_ok [OF assms(1) l] x show ?thesis by auto
  qed
  then show "client_ok E st'" "cs_wire st' = cs_wire st" "cs_dials st' = cs_dials st"
    "fresh st' \<subseteq> (if rs_conn rs = None then fresh st else insert (conn_no c) (fresh st))" by blast+
qed

lemma stream_drain_state:
  assumes ok: "client_ok E st" "live_ok st (rs, c, org)" and d: "stream_drain E (rs, c, org) st = (r, st')"
  shows "client_ok E st' \<and> cs_wire st' = cs_wire st \<and> cs_dials st' = cs_dials st \<and>
    fresh st' \<subseteq> insert (conn_no c) (fresh st)"
proof (cases "drain (max_idle_per_host E) rs []")
  case (Inl e)
  with d ok show ?thesis by (auto simp: stream_drain_def)
next
  case (Inr y)
  obtain b rs' where y: "y = (b, rs')" by (cases y)
  from d Inr y have "st' = (case rs_returned rs' of None \<Rightarrow> st
      | Some s \<Rightarrow> if rs_conn rs = None then st else put_back E org (c\<lparr>conn_in := s\<rparr>) st)"
    by (simp add: stream_drain_def)
  from hand_back [OF ok this] show ?thesis by (auto split: if_splits)
qed

lemma stream_chunk_state:
  assumes ok: "client_ok E st" "live_ok st (rs, c, org)" and d: "stream_chunk E (rs, c, org) st = (r, st')"
  shows "client_ok E st'" "cs_dials st' = cs_dials st"
    "fresh st' \<subseteq> (if rs_conn rs = None then fresh st else insert (conn_no c) (fresh st))"
    "r = Inr (x, l) \<Longrightarrow> live_ok st' l \<and> (\<exists>rs'. l = (rs', c, org) \<and> (rs_conn rs' \<noteq> None \<longrightarrow> rs_conn rs \<noteq> None))"
proof -
  have all: "client_ok E st' \<and> cs_dials st' = cs_dials st \<and>
    fresh st' \<subseteq> (if rs_conn rs = None then fresh st else insert (conn_no c) (fresh st)) \<and>
    (r = Inr (x, l) \<longrightarrow> live_ok st' l \<and> (\<exists>rs'. l = (rs', c, org) \<and> (rs_conn rs' \<noteq> None \<longrightarrow> rs_conn rs \<noteq> None)))"
  proof (cases "chunk (max_idle_per_host E) rs")
    case (Inl e)
    with d ok show ?thesis by (auto simp: stream_chunk_def)
  next
    case (Inr y)
    obtain z rs' where y: "y = (z, rs')" by (cases y)
    have st': "st' = (case rs_returned rs' of None \<Rightarrow> st
        | Some s \<Rightarrow> if rs_conn rs = None then st else put_back E org (c\<lparr>conn_in := s\<rparr>) st)"
      and r: "r = Inr (z, rs', c, org)" using d Inr y by (simp_all add: stream_chunk_def)
    note hb = hand_back [OF ok st']
    have "rs_conn rs' \<noteq> None \<Longrightarrow> rs_conn rs \<noteq> None" using chunk_over Inr y by metis
    moreover have "live_ok st' (rs', c, org)" if "rs_conn rs' \<noteq> None"
    proof -
      have "rs_conn rs \<noteq> None" using chunk_over Inr y that by metis
      then have o: "rs_returned rs = None" "conn_origin c = org" "conn_no c \<notin> fresh st" using ok(2) by (auto simp: live_ok_def)
      from chunk_returned Inr y o(1) that have "rs_returned rs' = None" by metis
      then show ?thesis using st' o by (simp add: live_ok_def)
    qed
    moreover have "live_ok st' (rs', c, org)" if "rs_conn rs' = None" using that by (simp add: live_ok_def)
    ultimately show ?thesis using hb r by auto
  qed
  then show "client_ok E st'" "cs_dials st' = cs_dials st"
    "fresh st' \<subseteq> (if rs_conn rs = None then fresh st else insert (conn_no c) (fresh st))" by blast+
  show "r = Inr (x, l) \<Longrightarrow> live_ok st' l \<and> (\<exists>rs'. l = (rs', c, org) \<and> (rs_conn rs' \<noteq> None \<longrightarrow> rs_conn rs \<noteq> None))"
    using all by blast
qed

section \<open>Redirects keep credentials at home\<close>

definition credential :: "string \<Rightarrow> bool" where
  "credential n \<longleftrightarrow> map to_ascii_lowercase n = ''authorization'' \<or> map to_ascii_lowercase n = ''cookie''"

text \<open>The credentials of \<open>q\<close> are those of \<open>q0\<close>, and it has some only at the origin of \<open>q0\<close>.\<close>

definition confined :: "client_request \<Rightarrow> client_request \<Rightarrow> bool" where
  "confined q0 q \<longleftrightarrow> (\<forall>h\<in>set (cq_headers q). credential (fst h) \<longrightarrow>
     h \<in> set (cq_headers q0) \<and> origin_of (cq_url q) = origin_of (cq_url q0))"

lemma redirect_shape:
  assumes "redirect_target q r = Inr (Some q')"
  shows "\<exists>d. cq_headers q' = filter (\<lambda>(name, _). let n = map to_ascii_lowercase name
       in \<not> (\<not> origin_same (cq_url q') (cq_url q) \<and> (n = ''authorization'' \<or> n = ''cookie'')) \<and>
          \<not> (d \<and> (n = ''content-type'' \<or> n = ''content-length''))) (cq_headers q)"
proof -
  have s: "cr_status r \<in> {301, 302, 303, 307, 308}"
    by (rule ccontr) (use assms in \<open>simp only: redirect_target_def if_True if_False simp_thms sum.inject option.distinct\<close>)
  show ?thesis
  proof (cases "response_header r ''location''")
    case None
    with assms s show ?thesis by (simp only: redirect_target_def if_True if_False simp_thms option.case sum.inject option.distinct)
  next
    case (Some loc)
    show ?thesis
    proof (cases "resolve_location (cq_url q) loc")
      case (Inl e)
      with assms s Some show ?thesis by (simp only: redirect_target_def if_True if_False simp_thms option.case sum.case sum.distinct)
    next
      case (Inr u)
      obtain m b where mb: "(if cr_status r = 307 \<or> cr_status r = 308 then (cq_method q, cq_body q)
           else if cq_method q = HEAD then (HEAD, []) else (GET, [])) = (m, b)" by (rule prod.exhaust)
      show ?thesis
        using assms s Some Inr mb
        by (intro exI [of _ "b = [] \<and> cq_body q \<noteq> []"])
          (simp only: redirect_target_def Let_def if_True if_False simp_thms option.case sum.case prod.case
            sum.inject option.inject client_request.simps, clarsimp simp only: client_request.simps)
    qed
  qed
qed

lemma redirect_headers:
  assumes "redirect_target q r = Inr (Some q')" "h \<in> set (cq_headers q')"
  shows "h \<in> set (cq_headers q) \<and> (credential (fst h) \<longrightarrow> origin_same (cq_url q') (cq_url q))"
proof -
  obtain d where f: "cq_headers q' = filter (\<lambda>(name, _). let n = map to_ascii_lowercase name
       in \<not> (\<not> origin_same (cq_url q') (cq_url q) \<and> (n = ''authorization'' \<or> n = ''cookie'')) \<and>
          \<not> (d \<and> (n = ''content-type'' \<or> n = ''content-length''))) (cq_headers q)"
    using redirect_shape [OF assms(1)] by blast
  obtain n v where h: "h = (n, v)" by (cases h)
  from assms(2) show ?thesis
    unfolding f h set_filter mem_Collect_eq prod.case Let_def credential_def fst_conv by satx
qed

lemma redirect_confined:
  assumes "confined q0 q" "redirect_target q r = Inr (Some q')"
  shows "confined q0 q'"
  unfolding confined_def
proof (intro ballI impI)
  fix h assume h: "h \<in> set (cq_headers q')" "credential (fst h)"
  from redirect_headers [OF assms(2) h(1)] h(2) have "h \<in> set (cq_headers q)" "origin_of (cq_url q') = origin_of (cq_url q)"
    unfolding origin_same_iff by blast+
  with assms(1) h(2) show "h \<in> set (cq_headers q0) \<and> origin_of (cq_url q') = origin_of (cq_url q0)"
    unfolding confined_def by simp
qed

definition faithful :: "client_env \<Rightarrow> client_request \<Rightarrow> written \<Rightarrow> bool" where
  "faithful E q0 e \<longleftrightarrow> (\<exists>q. confined q0 q \<and> carries E q e)"

lemma send_loop_writes:
  "client_ok E st \<Longrightarrow> confined q0 q \<Longrightarrow> send_loop E q k st = (r, st') \<Longrightarrow>
   writes E (2 * (max_redirects E - k + 1)) (faithful E q0) st st'"
proof (induction E q k st arbitrary: r st' rule: send_loop.induct)
  case (1 E q k st)
  obtain x st1 where rt: "roundtrip E q st = (x, st1)" by (cases "roundtrip E q st")
  have w: "writes E 2 (faithful E q0) st st1"
    by (rule writes_mono [OF roundtrip_writes [OF "1.prems"(1) rt]]) (use "1.prems"(2) in \<open>auto simp: faithful_def\<close>)
  then have last: "writes E (2 * (max_redirects E - k + 1)) (faithful E q0) st st1" by (rule writes_mono) auto
  show ?case
  proof (cases "\<exists>res q'. x = Inr res \<and> k < max_redirects E \<and> redirect_target q res = Inr (Some q')")
    case True
    then obtain res q' where x: "x = Inr res" "k < max_redirects E" "redirect_target q res = Inr (Some q')" by blast
    with "1.prems"(3) rt have "send_loop E q' (k + 1) st1 = (r, st')" by (simp add: send_loop.simps [of E q k st])
    from "1.IH" [OF rt [symmetric] x(1,2,3) refl _ redirect_confined [OF "1.prems"(2) x(3)] this] w
    have "writes E (2 * (max_redirects E - (k + 1) + 1)) (faithful E q0) st1 st'" by (simp add: writes_def)
    from writes_trans [OF w this] show ?thesis by (rule writes_mono) (use x(2) in auto)
  next
    case False
    with "1.prems"(3) rt have "st' = st1"
      by (subst (asm) send_loop.simps) (auto split: sum.splits if_splits option.splits)
    with last show ?thesis by simp
  qed
qed

lemma stream_loop_writes:
  "client_ok E st \<Longrightarrow> confined q0 q \<Longrightarrow> stream_loop E q k st = (r, st') \<Longrightarrow>
   writes E (2 * (max_redirects E - k + 1)) (faithful E q0) st st' \<and>
   (\<forall>rs c org. r = Inr (rs, c, org) \<longrightarrow> live_ok st' (rs, c, org) \<and> conn_no c \<in> fresh st)"
proof (induction E q k st arbitrary: r st' rule: stream_loop.induct)
  case (1 E q k st)
  obtain x st1 where ds: "dial_and_stream E q st = (x, st1)" by (cases "dial_and_stream E q st")
  have w: "writes E 2 (faithful E q0) st st1"
    by (rule writes_mono [OF dial_and_stream_writes(1) [OF "1.prems"(1) ds]]) (use "1.prems"(2) in \<open>auto simp: faithful_def\<close>)
  then have last: "writes E (2 * (max_redirects E - k + 1)) (faithful E q0) st st1" by (rule writes_mono) auto
  show ?case
  proof (cases x)
    case (Inl e)
    with "1.prems"(3) ds have "st' = st1" "r = Inl e" by (simp_all add: stream_loop.simps [of E q k st])
    with last show ?thesis by simp
  next
    case (Inr l)
    obtain rs c org where l: "l = (rs, c, org)" by (cases l)
    let ?h = "\<lparr>cr_status = rs_status rs, cr_body = [], cr_head = rs_head rs, cr_spans = rs_spans rs\<rparr>"
    note dw = dial_and_stream_writes(2) [OF "1.prems"(1) ds, of rs c org]
    have lv: "live_ok st1 (rs, c, org)" "conn_no c \<in> fresh st" using dw Inr l by (simp_all add: live_ok_def)
    show ?thesis
    proof (cases "\<exists>q'. k < max_redirects E \<and> redirect_target q ?h = Inr (Some q')")
      case False
      with "1.prems"(3) ds Inr l have "st' = st1 \<and> (r = Inr (rs, c, org) \<or> (\<exists>e. r = Inl e))"
        by (subst (asm) stream_loop.simps) (auto split: sum.splits if_splits option.splits)
      with last lv show ?thesis by auto
    next
      case True
      then obtain q' where q': "k < max_redirects E" "redirect_target q ?h = Inr (Some q')" by blast
      obtain d st2 where sd: "stream_drain E (rs, c, org) st1 = (d, st2)" by (cases "stream_drain E (rs, c, org) st1")
      have ok1: "client_ok E st1" using w by (simp add: writes_def)
      note sds = stream_drain_state [OF ok1 lv(1) sd]
      have w2: "writes E 2 (faithful E q0) st st2" using w sds lv(2) by (auto simp: writes_def)
      show ?thesis
      proof (cases d)
        case (Inl e)
        with "1.prems"(3) ds Inr l q' sd have "st' = st2" "r = Inl e" by (simp_all add: stream_loop.simps [of E q k st])
        moreover have "writes E (2 * (max_redirects E - k + 1)) (faithful E q0) st st2" using w2 by (rule writes_mono) auto
        ultimately show ?thesis by simp
      next
        case (Inr u)
        with "1.prems"(3) ds \<open>x = Inr l\<close> l q' sd have sl: "stream_loop E q' (k + 1) st2 = (r, st')"
          by (simp add: stream_loop.simps [of E q k st])
        have ok2: "client_ok E st2" using sds by blast
        have ih: "writes E (2 * (max_redirects E - (k + 1) + 1)) (faithful E q0) st2 st' \<and>
            (\<forall>rs c org. r = Inr (rs, c, org) \<longrightarrow> live_ok st' (rs, c, org) \<and> conn_no c \<in> fresh st2)"
          by (rule "1.IH" [OF ds [symmetric] \<open>x = Inr l\<close> l [symmetric] refl q'(1,2) refl sd [symmetric] Inr ok2
                redirect_confined [OF "1.prems"(2) q'(2)] sl])
        have "fresh st2 \<subseteq> fresh st" using w2 by (simp add: writes_def)
        moreover have "writes E (2 * (max_redirects E - k + 1)) (faithful E q0) st st'"
          by (rule writes_mono [OF writes_trans [OF w2 conjunct1 [OF ih]]]) (use q'(1) in auto)
        ultimately show ?thesis using ih by blast
      qed
    qed
  qed
qed

lemma confined_identity:
  "confined q (if has_header q ''accept-encoding'' then q else add_header ''accept-encoding'' ''identity'' q)"
proof -
  have "\<not> credential ''accept-encoding''" by code_simp
  then show ?thesis by (auto simp: confined_def add_header_def)
qed

lemma send_streaming_writes:
  assumes "client_ok E st" "send_streaming E q st = (r, st')"
  shows "writes E (2 * (max_redirects E + 1)) (faithful E q) st st' \<and>
   (\<forall>rs c org. r = Inr (rs, c, org) \<longrightarrow> live_ok st' (rs, c, org) \<and> conn_no c \<in> fresh st)"
  using stream_loop_writes [OF assms(1) confined_identity assms(2) [unfolded send_streaming_def]] by simp

lemma send_writes:
  assumes "client_ok E st" "send E q st = (r, st')"
  shows "writes E (2 * (max_redirects E + 1)) (faithful E q) st st'"
proof -
  have "confined q q" by (simp add: confined_def)
  from send_loop_writes [OF assms(1) this assms(2) [unfolded send_def]] show ?thesis by simp
qed


section \<open>A client in use\<close>

text \<open>
  What an application does with a client: send requests, open streams, read chunks of them in any
  order and drop them. A stream that failed is dropped.
\<close>

type_synonym client_use = "client_state \<times> live_stream list"

inductive client_step :: "client_env \<Rightarrow> client_use \<Rightarrow> client_use \<Rightarrow> bool" for E where
  request: "send E q st = (r, st') \<Longrightarrow> client_step E (st, ls) (st', ls)"
| opened: "send_streaming E q st = (Inr l, st') \<Longrightarrow> client_step E (st, ls) (st', l # ls)"
| refused: "send_streaming E q st = (Inl e, st') \<Longrightarrow> client_step E (st, ls) (st', ls)"
| more: "stream_chunk E l st = (Inr (x, l'), st') \<Longrightarrow> client_step E (st, xs @ l # ys) (st', xs @ l' # ys)"
| failed: "stream_chunk E l st = (Inl e, st') \<Longrightarrow> client_step E (st, xs @ l # ys) (st', xs @ ys)"
| dropped: "client_step E (st, xs @ l # ys) (st, xs @ ys)"

inductive_cases client_stepE: "client_step E (st, ls) u"

definition open_numbers :: "live_stream list \<Rightarrow> nat list" where
  "open_numbers ls = map (\<lambda>(rs, c, org). conn_no c) (filter (\<lambda>(rs, c, org). rs_conn rs \<noteq> None) ls)"

definition use_ok :: "client_env \<Rightarrow> client_use \<Rightarrow> bool" where
  "use_ok E u \<longleftrightarrow> client_ok E (fst u) \<and> (\<forall>l\<in>set (snd u). live_ok (fst u) l) \<and> distinct (open_numbers (snd u))"

lemma open_number_fresh:
  "\<forall>l\<in>set ls. live_ok st l \<Longrightarrow> n \<in> set (open_numbers ls) \<Longrightarrow> n \<notin> fresh st"
  by (auto simp: open_numbers_def live_ok_def)

lemma live_ok_later:
  assumes "\<forall>l\<in>set ls. live_ok st l" "fresh st' \<subseteq> insert n (fresh st)" "n \<in> fresh st \<or> n \<notin> set (open_numbers ls)"
  shows "\<forall>l\<in>set ls. live_ok st' l"
proof
  fix l assume l: "l \<in> set ls"
  obtain rs c org where e: "l = (rs, c, org)" by (cases l)
  show "live_ok st' l"
  proof (cases "rs_conn rs = None")
    case False
    with l e have "conn_no c \<in> set (open_numbers ls)" by (force simp: open_numbers_def)
    moreover from this have "conn_no c \<notin> fresh st" by (rule open_number_fresh [OF assms(1)])
    ultimately have "conn_no c \<notin> fresh st'" using assms(2,3) by auto
    with assms(1) l e False show ?thesis by (auto simp: live_ok_def)
  qed (simp add: e live_ok_def)
qed

lemma open_numbers_simps [simp]:
  "open_numbers [] = []"
  "open_numbers ((rs, c, org) # ls) = (if rs_conn rs = None then open_numbers ls else conn_no c # open_numbers ls)"
  "open_numbers (xs @ ys) = open_numbers xs @ open_numbers ys"
  by (simp_all add: open_numbers_def)

lemma use_ok_step:
  assumes "client_step E u u'" "use_ok E u"
  shows "use_ok E u'"
  using assms
proof (induction rule: client_step.induct)
  case (request q st r st' ls)
  then have "writes E (2 * (max_redirects E + 1)) (faithful E q) st st'" by (intro send_writes) (auto simp: use_ok_def)
  with request(2) show ?case using live_ok_later [of ls st st' "cs_dials st"] by (auto simp: use_ok_def writes_def fresh_def)
next
  case (refused q st e st' ls)
  then have "writes E (2 * (max_redirects E + 1)) (faithful E q) st st'"
    using send_streaming_writes [of E st q "Inl e" st'] by (auto simp: use_ok_def)
  with refused(2) show ?case using live_ok_later [of ls st st' "cs_dials st"] by (auto simp: use_ok_def writes_def fresh_def)
next
  case (opened q st l st' ls)
  obtain rs c org where l: "l = (rs, c, org)" by (cases l)
  have ok: "client_ok E st" "\<forall>l\<in>set ls. live_ok st l" "distinct (open_numbers ls)" using opened(2) by (auto simp: use_ok_def)
  note sw = send_streaming_writes [OF ok(1) opened(1)]
  have w: "client_ok E st'" "fresh st' \<subseteq> fresh st" using sw by (simp_all add: writes_def)
  have w': "live_ok st' l" "conn_no c \<in> fresh st" using sw l by blast+
  have "conn_no c \<notin> set (open_numbers ls)" using open_number_fresh [OF ok(2)] w'(2) by blast
  moreover have "\<forall>l\<in>set ls. live_ok st' l" by (rule live_ok_later [OF ok(2), of st' "conn_no c"]) (use w w' in auto)
  ultimately show ?case using ok w w' l by (simp add: use_ok_def)
next
  case (more l st x l' st' xs ys)
  obtain rs c org where l: "l = (rs, c, org)" by (cases l)
  have ok: "client_ok E st" "live_ok st (rs, c, org)" "\<forall>l\<in>set (xs @ ys). live_ok st l"
    "distinct (open_numbers (xs @ (rs, c, org) # ys))" using more(2) l by (auto simp: use_ok_def)
  note sc = stream_chunk_state [OF ok(1,2) more(1) [unfolded l]]
  from sc(4) [OF refl] obtain rs' where l': "l' = (rs', c, org)" "live_ok st' l'" "rs_conn rs' \<noteq> None \<longrightarrow> rs_conn rs \<noteq> None" by blast
  have "\<forall>l\<in>set (xs @ ys). live_ok st' l"
    by (rule live_ok_later [OF ok(3), of st' "if rs_conn rs = None then cs_dials st else conn_no c"])
      (use sc(3) ok(4) in \<open>auto simp: fresh_def split: if_splits\<close>)
  moreover have "distinct (open_numbers (xs @ l' # ys))" using ok(4) l' by (auto split: if_splits)
  ultimately show ?case using sc(1) l'(2) by (simp add: use_ok_def)
next
  case (failed l st e st' xs ys)
  obtain rs c org where l: "l = (rs, c, org)" by (cases l)
  have "st' = st" using failed(1) by (auto simp: stream_chunk_def l split: sum.splits prod.splits)
  with failed(2) show ?case by (auto simp: use_ok_def l split: if_splits)
next
  case (dropped st xs l ys)
  then show ?case by (cases l) (auto simp: use_ok_def split: if_splits)
qed

text \<open>
  C38: however an application uses a client, no connection is ever shared. The pool's buckets stay
  within their limit and hold connections of their own origin, a connection is in the pool at most
  once, and one that a stream still reads is in no other stream and not in the pool.
\<close>
theorem connections_exclusive:
  assumes "client_ok E st0" "(client_step E)\<^sup>*\<^sup>* (st0, []) (st, ls)"
  shows "pool_ok (max_idle_per_host E) (cs_dials st) (cs_pool st) \<and> distinct (open_numbers ls) \<and>
    (\<forall>n\<in>set (open_numbers ls). n \<notin> pooled (cs_pool st))"
proof -
  have "use_ok E u \<Longrightarrow> (client_step E)\<^sup>*\<^sup>* u v \<Longrightarrow> use_ok E v" for u v
    by (rotate_tac 1, induction rule: rtranclp_induct) (auto intro: use_ok_step)
  moreover have "use_ok E (st0, [])" using assms(1) by (simp add: use_ok_def)
  ultimately have u: "use_ok E (st, ls)" using assms(2) by blast
  then have "n \<notin> pooled (cs_pool st)" if "n \<in> set (open_numbers ls)" for n
    using open_number_fresh [of ls st n] that by (simp add: use_ok_def fresh_def)
  with u show ?thesis by (simp add: use_ok_def client_ok_def)
qed

section \<open>Sample clients\<close>

definition demo_url :: "string \<Rightarrow> client_url" where
  "demo_url h = \<lparr>url_scheme = ''http'', url_host = h, url_port = 80, path_and_query = ''/''\<rparr>"

definition demo_env :: "(nat \<Rightarrow> string list \<Rightarrow> io_kind + script) \<Rightarrow> client_env" where
  "demo_env reply =
     \<lparr>max_redirects = 1, max_idle_per_host = 1, env_thread = 0, env_codecs = no_codecs,
      env_clock = (\<lambda>_. 0), env_parse_ip = (\<lambda>_. Some (IpV4 10 0 0 1)), env_hosts = (\<lambda>_. None),
      env_dns = \<lparr>rng = (\<lambda>_. 0), clock = (\<lambda>_. 0), udp = (\<lambda>_ _ _. Inl NoAddresses), tcp = (\<lambda>_ _ _. Inl NoAddresses)\<rparr>,
      env_resolver = \<lparr>servers = [], attempts = 1, search = [], ndots = 1\<rparr>,
      env_getaddrinfo = (\<lambda>_ _. Inl Timeout), env_connect = (\<lambda>_ _ _. None), env_reply = reply\<rparr>"

definition new_client :: client_state where
  "new_client = \<lparr>cs_pool = [], cs_jar = None, cs_dns = \<lparr>shard_cache = [], exchanges = 0\<rparr>, cs_ticks = 0, cs_dials = 0, cs_wire = []\<rparr>"

lemma new_client_ok: "client_ok E new_client"
  by (simp add: client_ok_def new_client_def pool_ok_def bucket_ok_def bucket_def hm_get_def)

definition reply_lines :: "string list \<Rightarrow> io_kind + script" where
  "reply_lines ls = Inr [Inr (head_text ls)]"

text \<open>A server that sends every request elsewhere: the credential stays where it was meant to go.\<close>

definition moved :: "nat \<Rightarrow> string list \<Rightarrow> io_kind + script" where
  "moved n sent =
     (if n = 0 then reply_lines [''HTTP/1.1 302 F'', ''Location: http://b/'', ''Content-Length: 0'']
      else reply_lines [''HTTP/1.1 200 OK'', ''Content-Length: 0''])"

definition with_secret :: client_request where
  "with_secret = add_header ''Authorization'' ''k'' (client_request_new GET (demo_url ''a''))"


text \<open>An open stream and a second request to the same origin use two connections.\<close>

definition slow :: "nat \<Rightarrow> string list \<Rightarrow> io_kind + script" where
  "slow n sent = reply_lines [''HTTP/1.1 200 OK'', ''Content-Length: 0'']"

lemma connections_exclusive_witness:
  "\<exists>st l. client_step (demo_env slow) (new_client, []) (st, [l]) \<and> open_numbers [l] = [0] \<and> 0 \<notin> pooled (cs_pool st)"
proof -
  let ?E = "demo_env slow" and ?q = "client_request_new GET (demo_url ''a'')"
  have "case send_streaming ?E ?q new_client of (Inr l, st) \<Rightarrow> open_numbers [l] = [0] | _ \<Rightarrow> False" by code_simp
  then obtain l st where s: "send_streaming ?E ?q new_client = (Inr l, st)" "open_numbers [l] = [0]"
    by (auto split: prod.splits sum.splits)
  then have step: "client_step ?E (new_client, []) (st, [l])" by (auto intro: client_step.opened)
  then have "(client_step ?E)\<^sup>*\<^sup>* (new_client, []) (st, [l])" by (rule r_into_rtranclp)
  from connections_exclusive [OF new_client_ok this] have "\<forall>n\<in>set (open_numbers [l]). n \<notin> pooled (cs_pool st)" by blast
  then have "0 \<notin> pooled (cs_pool st)" unfolding s(2) by simp
  with step s(2) show ?thesis by blast
qed

text \<open>
  A pooled connection that breaks while the response is awaited counts as stale whatever the
  method: a POST that the server may have carried out is sent a second time.
\<close>

definition breaks_once :: "nat \<Rightarrow> string list \<Rightarrow> io_kind + script" where
  "breaks_once n sent =
     (if n = 0 \<and> length sent = 2 then Inr [Inl ConnectionReset]
      else reply_lines [''HTTP/1.1 200 OK'', ''Content-Length: 0''])"

definition payment :: client_request where
  "payment = set_body ''text/plain'' ''pay'' (client_request_new POST (demo_url ''a''))"

lemma post_sent_twice:
  "map (\<lambda>(n, _, b). (n, b)) (cs_wire (snd (send (demo_env breaks_once) payment
     (snd (send (demo_env breaks_once) (client_request_new GET (demo_url ''a'')) new_client))))) =
   [(0, encode_request (client_request_new GET (demo_url ''a'')) True None),
    (0, encode_request payment True None), (1, encode_request payment True None)]"
  by code_simp

text \<open>The line that a chunked body leaves behind makes the next request on the connection fail.\<close>

definition late_line :: "nat \<Rightarrow> string list \<Rightarrow> io_kind + script" where
  "late_line n sent =
     (if length sent = 1 then Inr [Inr (chunked_head @ ''0'' @ crlf), Inr crlf]
      else reply_lines [''HTTP/1.1 200 OK'', ''Content-Length: 0''])"

lemma next_request_fails:
  "let q = client_request_new GET (demo_url ''a''); (r1, st) = send (demo_env late_line) q new_client;
       (r2, st) = send (demo_env late_line) q st
   in isl r1 = False \<and> r2 = Inl (Failed (Protocol ''bad status line''))"
  by code_simp

end
