(* ===== verification/Client_Server.thy ===== *)
theory Client_Server
  imports Client_Roundtrip Client_Session
begin

text \<open>
  One request from end to end: the client of \<open>kernway-http-client\<close> resolves, dials and writes; a
  peer that parses with \<open>kernway-http\<close>, runs a handler and writes its response with \<open>kernway-http\<close>
  answers; and the client reads that answer, however the network cuts it.
\<close>

text \<open>A peer that serves one request with the handler \<open>h\<close>.\<close>

definition peer_serves :: "client_env \<Rightarrow> nat \<Rightarrow> (request \<Rightarrow> 's response) \<Rightarrow> string \<Rightarrow> bool" where
  "peer_serves E n h bytes \<longleftrightarrow>
     (case parse_bytes bytes of
        Inr (Complete r m) \<Rightarrow>
          (case encode_response_with (h r) KeepAlive of
             Inl p \<Rightarrow> False
           | Inr out \<Rightarrow> (case env_reply E n [bytes] of Inl k \<Rightarrow> False | Inr s \<Rightarrow> avail s = out))
      | _ \<Rightarrow> False)"

text \<open>A response in memory whose headers keep to their lines.\<close>

definition plain_response :: "'s response \<Rightarrow> bool" where
  "plain_response r \<longleftrightarrow>
     resp_status r \<le> 65535 \<and> (case resp_body r of Empty \<Rightarrow> True | Bytes b \<Rightarrow> True | _ \<Rightarrow> False) \<and>
     head_estimate r + body_len (resp_body r) < 2 ^ 63 \<and> list_all line_safe (fields_iter (resp_headers r)) \<and>
     unnamed ''transfer-encoding'' r \<and> unnamed ''content-encoding'' r"

lemma roundtrip_fresh:
  assumes none: "fst (pool_take (env_thread E) (origin_of (cq_url q)) (env_clock E (cs_ticks st)) (cs_pool st)) = None"
    and addr: "resolve E (url_host (cq_url q)) (url_port (cq_url q)) (cs_dns st) = (Inr addr, sh)"
    and conn: "env_connect E (cs_dials st) addr (cq_url q) = None"
    and reply: "env_reply E (cs_dials st)
        [encode_request q (0 < max_idle_per_host E) (request_cookie st q (env_clock E (cs_ticks st)))] = Inr s"
    and read: "read_response (env_codecs E) s = Inr (res, keepable, s')"
  shows "fst (roundtrip E q st) = Inr res"
proof -
  let ?now = "env_clock E (cs_ticks st)"
  have ck: "request_cookie (st\<lparr>cs_ticks := Suc (cs_ticks st)\<rparr>) q ?now = request_cookie st q ?now"
    by (simp add: request_cookie_def)
  obtain p where p: "pool_take (env_thread E) (origin_of (cq_url q)) ?now (cs_pool st) = (None, p)"
    using none by (metis prod.collapse)
  show ?thesis
    using addr conn reply read p
    by (simp add: roundtrip_def now_ms_def Let_def ck exchange_def dial_and_send_def dial_def send_on_def buffered_def)
qed


text \<open>A server that answers with the path it was asked for, its answer cut in two.\<close>

definition echo :: "request \<Rightarrow> unit response" where
  "echo r = sample_response [] (take 65536 (req_path r))"

definition echo_peer :: "nat \<Rightarrow> string list \<Rightarrow> io_kind + script" where
  "echo_peer n sent =
     (case parse_bytes (last sent) of
        Inr (Complete r m) \<Rightarrow>
          (case encode_response_with (echo r) KeepAlive of
             Inl p \<Rightarrow> Inl OtherIo | Inr out \<Rightarrow> Inr [Inr (take 20 out), Inr (drop 20 out)])
      | _ \<Rightarrow> Inl OtherIo)"

definition asking :: client_request where
  "asking = client_request_new GET (demo_url ''a''\<lparr>path_and_query := ''/x?y''\<rparr>)"

lemma echo_plain: "plain_response (echo r)"
proof -
  have e: "resp_status (echo r) = 200" "resp_body (echo r) = Bytes (take 65536 (req_path r))" "resp_headers (echo r) = sample_fields []"
    by (simp_all add: echo_def sample_response_def)
  have f: "fields_byte_len (sample_fields []) = 0" "fields_len (sample_fields []) = 0" "fields_iter (sample_fields []) = []"
    by code_simp+
  show ?thesis by (simp add: plain_response_def unnamed_def head_estimate_def e f)
qed


end
