(* ===== verification/Spec2Isabelle.thy ===== *)
theory Spec2Isabelle
  imports Url Http_Writer Router Redis_Client Lockout Dns_Resolver Session Leaf_Roundtrip Di_Derive Cache_Memory Server_Connection Tracking Orm_Repository Client_Server
begin

text \<open>
  Verification of Kernway, a web framework in Rust: the HTTP server with its parser, router,
  middleware and static files; sessions, tokens and bans; the template engine; the
  dependency-injection container; the caches and repositories; and the clients for HTTP, DNS and
  Redis. Paths below are relative to \<open>src/crates\<close>.

  \<^bold>\<open>How the parts interact.\<close> A connection task of \<open>kernway-server\<close> reads bytes, lets \<open>kernway-http\<close>
  parse them, dispatches the request through the middleware chain (tracking and bans, CORS, the
  access policy, compression) to a route or to the static files, and has \<open>kernway-http\<close> write the
  response. Handlers come from components that the container of \<open>di-core\<close> wires from the code
  that \<open>di-macro\<close> generates; they render templates with \<open>kernleaf\<close>, keep state through
  \<open>kernway-security\<close>, \<open>kernway-cache-*\<close>, \<open>kernway-orm-*\<close> and \<open>kernway-redis\<close>, and call other
  services with \<open>kernway-http-client\<close>, which resolves names with \<open>kernway-dns\<close>. The theories follow
  this structure: a client theory is stated over the definitions of the components it calls.

  \<^bold>\<open>The language.\<close>
  \<^item> \<open>Rust_Prelude\<close>: results of a routine that may panic (\<open>run\<close>), the string and slice operations of
    the standard library, 64-bit arithmetic with its wrapping and saturating forms.
  \<^item> \<open>Rust_Text\<close>: ASCII case, integer parsing and printing, UTF-8 validity and lossy decoding.
  \<^item> \<open>Hash_Map\<close>: \<open>HashMap\<close> as an association list behind the locale \<open>hash_map\<close>; the order of the
    list is the unspecified iteration order.

  \<^bold>\<open>Messages and the server.\<close>
  \<^item> \<open>Url\<close> (\<open>kernway-core/src/url.rs\<close>): percent and form codecs, their round trip, and where decoding panics.
  \<^item> \<open>Header_Fields\<close> (\<open>kernway-core/src/fields.rs\<close>): the one-buffer field set behind the locale
    \<open>field_set\<close>, interpreted for headers and query parameters.
  \<^item> \<open>Http_Message\<close> (\<open>request.rs\<close>, \<open>response.rs\<close>, \<open>error.rs\<close>): requests, responses, keep-alive.
  \<^item> \<open>Http_Parser\<close> and \<open>Http_Writer\<close> (\<open>kernway-http/src\<close>): the parser of a growing buffer and the
    encoder. A parse never depends on bytes after the request, a printed request is read back, and a
    written head is framed by its first blank line whatever the handler set.
  \<^item> \<open>Router\<close> (\<open>kernway-server/src/router.rs\<close>): the segment trie, refined to its table of routes.
  \<^item> \<open>Web_Policy\<close> (\<open>middleware.rs\<close>, \<open>security.rs\<close>, \<open>cors.rs\<close>, \<open>app.rs\<close>): the chain, dispatch with
    panic isolation, the access rules and CORS. No handler runs unless its rule admits the caller.
  \<^item> \<open>Static_Files\<close>, \<open>Server_Static\<close> (\<open>kernway-static\<close>, \<open>app.rs\<close>): path resolution, entity tags,
    negotiation, conditional requests and ranges; nothing outside the directory is served.
  \<^item> \<open>Server_Connection\<close> (\<open>app.rs\<close>): the connection task over a script of socket events. Answers come
    in the order of the requests, do not depend on how the bytes are cut, and are bounded in number
    and size; \<open>serve\<close> terminates by the weight of the remaining script and buffer.
  \<^item> \<open>Compression\<close> (\<open>kernway-compress\<close>, \<open>compression.rs\<close>): negotiation and the middleware.

  \<^bold>\<open>Security.\<close>
  \<^item> \<open>Sha256\<close>, \<open>Session_Token\<close>, \<open>Session\<close>, \<open>Web_Security\<close>, \<open>Lockout\<close>, \<open>Tracking\<close>
    (\<open>kernway-security/src\<close>, \<open>kernway-server/src/tracking.rs\<close>): the hash on 32-bit words against
    FIPS 180-4, signed tokens, the session manager over the locale of a session registry, CSRF and
    security headers, login lockout, visitor addresses and bans. A session is accepted exactly when
    it is signed, recorded, in time and its account is active; revocation is final.

  \<^bold>\<open>Templates\<close> (\<open>kernleaf/src\<close>, \<open>kernway-core/src/template.rs\<close>).
  \<^item> \<open>Expr_Parser\<close>, \<open>Expr_Eval\<close>: the expression language. The parser's fuel is the number of tokens
    plus one for conditionals and the length of the text plus one for nesting; it is proved enough,
    so the parser is total.
  \<^item> \<open>Leaf_Escape\<close>, \<open>Leaf_Parser\<close>, \<open>Leaf_Render\<close>, \<open>Leaf_Roundtrip\<close>: escaping with reference readers, HTML
    to nodes (fuel: the length of the source plus one, proved enough), and rendering, which
    terminates by the depth of fragments and then the size of a node. Data cannot add markup, a
    denied element leaves no trace, every state-changing form carries the CSRF field.

  \<^bold>\<open>Wiring and data.\<close>
  \<^item> \<open>Di_Container\<close>, \<open>Di_Refresh\<close>, \<open>Di_Derive\<close> (\<open>di-core/src\<close>, \<open>di-macro/src/lib.rs\<close>): registration and lookup,
    the queue of components with its passes (a \<open>partial_function\<close>, proved to terminate), and the code
    generated for a struct. A refresh builds every component after what it needs or names the ones
    it cannot build; instances have the types they are asked for.
  \<^item> \<open>Cache_Memory\<close> (\<open>kernway-cache-core\<close>, \<open>kernway-cache-memory\<close>): the cache refines a table of values
    with lifetimes; its eviction loop runs at most once per entry.
  \<^item> \<open>Orm_Core\<close>, \<open>Orm_Memory\<close>, \<open>Orm_Repository\<close> (\<open>kernway-orm-core\<close>, \<open>kernway-orm-memory\<close>): predicates,
    pages, queries and the repository, which refines a map keyed by its entities.

  \<^bold>\<open>Clients.\<close>
  \<^item> \<open>Dns_Message\<close>, \<open>Dns_Resolver\<close> (\<open>kernway-dns/src\<close>): the wire format (the decompression loop
    terminates by the code's own caps), the TTL cache behind a locale, retries and reply validation.
  \<^item> \<open>Resp\<close>, \<open>Redis_Client\<close> (\<open>kernway-redis/src\<close>): the RESP2 codec, typed commands and the pool.
  \<^item> \<open>Client_Codec\<close>, \<open>Client_Stream\<close>, \<open>Client_Cookies\<close>, \<open>Client_Session\<close> (\<open>kernway-http-client/src\<close>): URLs,
    requests, the two readers of a response (terminating by the size of what the socket still
    delivers), the cookie jar, the connection pool, name resolution, the retry on a stale
    connection, and the redirect loop, bounded by the redirects left. A client in use is a step
    relation: connections are never shared, and credentials stay at the origin they were given for.
  \<^item> \<open>Client_Roundtrip\<close>, \<open>Client_Server\<close>: client and server together. Each reads what the other writes,
    however the network cuts it, compression is transparent, and a request reaches the handler and
    its response the caller.

  \<^bold>\<open>Parameters.\<close> What is not code of the repository is an argument: clocks, random bytes, the file
  system (\<open>canonicalize\<close>, \<open>metadata\<close>, reads), socket events, \<open>f64\<close> and \<open>f32\<close> operations, Unicode case
  tables, the text form of IP addresses, the codecs of \<open>flate2\<close> and \<open>brotli\<close>, the serialization of an
  entity by \<open>serde_json\<close>, the iteration order of a hash map, and the handlers of the application.
  A future is run as one sequential call; a lock makes a call one step and is never poisoned.

  \<^bold>\<open>Findings.\<close> Some lemmas show behaviour that a comment contradicts or that the code cannot mean:
  chunked bodies that leave a line in a pooled connection (\<open>last_line_left_behind\<close>), a chunk size that
  panics (\<open>chunk_size_panics\<close>), header values and cookies that are not checked (\<open>header_injection\<close>,
  \<open>foreign_domain_accepted\<close>), a form with a dynamic method without a CSRF field
  (\<open>dynamic_method_unguarded\<close>), generated keys that replace entities (\<open>generated_key_overwrites\<close>),
  and others, each named in the theory of its component.

  \<^bold>\<open>Not modelled.\<close> The executor, reactor, timers and sockets (\<open>rt-core\<close>, \<open>rt-net\<close>, \<open>kernway-tcp\<close>, \<open>kernway-udp\<close>)
  drive system calls and raw wakers and have no functional content of their own. The drivers for
  SQLite, MySQL, PostgreSQL and Meilisearch hand text to third-party libraries; TLS is pumped
  through a library; web tokens are JSON documents of a library around the modelled MAC; the two
  password hashes are not translated yet; the file-backed and Redis-backed stores of \<open>kernway-security\<close> serialize the in-memory ones; logging,
  configuration, OpenAPI, htmx, OAuth2, validation and the remaining macros are glue over the parts
  above. Multipart bodies and rate limiting are the natural next components. Timeouts are modelled
  as outcomes of the wait they bound, not as the cancellation of a whole request.
\<close>

end
